(* ===== verification/Prelude.thy ===== *)
theory Prelude
  imports Main "HOL-Library.Word" "HOL-Library.Multiset"
begin

text \<open>
  Shared vocabulary of the development: the machine types the sources use, the
  arithmetic of \<open>size_t\<close> (unsigned, 64 bits, wrapping), the lemma collections the
  component theories fill, and generic facts on lists, maps and multisets that more
  than one component needs. Nothing here models a source file by itself.
\<close>

unbundle bit_operations_syntax

section \<open>Lemma collections\<close>

named_theorems size_t_simps \<open>size_t arithmetic that does not wrap\<close>
named_theorems node_simps \<open>indices of the buddy tree\<close>
named_theorems inv_intros \<open>preservation of a component's invariant\<close>

section \<open>Machine types\<close>

type_synonym u8 = "8 word"
type_synonym u16 = "16 word"
type_synonym u32 = "32 word"
type_synonym u64 = "64 word"
type_synonym bytes = "u8 list"

text \<open>
  \<open>size_t\<close> and pointers are natural numbers below \<open>2 ^ 64\<close>; where the code can leave
  that range the wrap-around is written out with the two operations below.
\<close>

definition add64 :: "nat \<Rightarrow> nat \<Rightarrow> nat" where
  "add64 a b = (a + b) mod 2 ^ 64"

definition sub64 :: "nat \<Rightarrow> nat \<Rightarrow> nat" where
  "sub64 a b = (a + 2 ^ 64 - b mod 2 ^ 64) mod 2 ^ 64"

definition mul64 :: "nat \<Rightarrow> nat \<Rightarrow> nat" where
  "mul64 a b = (a * b) mod 2 ^ 64"

lemma add64_exact [size_t_simps]: "a + b < 2 ^ 64 \<Longrightarrow> add64 a b = a + b"
  by (simp add: add64_def)

lemma sub64_exact [size_t_simps]: "b \<le> a \<Longrightarrow> a < 2 ^ 64 \<Longrightarrow> sub64 a b = a - b"
proof -
  assume "b \<le> a" "a < 2 ^ 64"
  then have "a + 2 ^ 64 - b mod 2 ^ 64 = (a - b) + 2 ^ 64" by simp
  then show ?thesis using \<open>a < 2 ^ 64\<close> by (simp add: sub64_def less_imp_diff_less)
qed

lemma mul64_exact [size_t_simps]: "a * b < 2 ^ 64 \<Longrightarrow> mul64 a b = a * b"
  by (simp add: mul64_def)

lemma add64_less: "add64 a b < 2 ^ 64"
  by (simp add: add64_def)

section \<open>Lists\<close>

lemma remove_nth_append:
  "i < length xs \<Longrightarrow> xs = take i xs @ xs ! i # drop (Suc i) xs"
  by (simp add: id_take_nth_drop)

lemma mset_remove_nth:
  "i < length xs \<Longrightarrow> mset xs = add_mset (xs ! i) (mset (take i xs @ drop (Suc i) xs))"
  by (subst remove_nth_append [of i xs]) simp_all

lemma mset_update_nth:
  "i < length xs \<Longrightarrow>
     mset (xs[i := y]) = add_mset y (mset (take i xs @ drop (Suc i) xs))"
  by (simp add: upd_conv_take_nth_drop)

lemma sum_list_remove_nth:
  fixes f :: "'a \<Rightarrow> nat"
  shows "i < length xs \<Longrightarrow>
     sum_list (map f xs) = f (xs ! i) + sum_list (map f (take i xs @ drop (Suc i) xs))"
  by (subst remove_nth_append [of i xs]) simp_all

lemma sum_list_update_nth:
  fixes f :: "'a \<Rightarrow> nat"
  shows "i < length xs \<Longrightarrow>
     sum_list (map f (xs[i := y])) = f y + sum_list (map f (take i xs @ drop (Suc i) xs))"
  by (simp add: upd_conv_take_nth_drop)

end
