(* ===== verification/String_Order.thy ===== *)
theory String_Order
  imports Prelude
begin

text \<open>
  Byte-wise comparison of strings and the strict orders built from it. C++'s
  \<open>std::string_view::compare\<close> and \<open>std::less<std::string>\<close> (the order of \<open>std::set\<close>
  and \<open>std::map\<close>) compare the bytes as unsigned values, a proper prefix being smaller.
  The locale \<open>strict_total\<close> is the contract the algorithms that take a comparator ask
  for; \<open>std::sort\<close> and ordered insertion are verified against it once.
\<close>

section \<open>Comparison\<close>

fun sv_compare :: "string \<Rightarrow> string \<Rightarrow> int" where
  "sv_compare [] [] = 0"
| "sv_compare [] (b # bs) = -1"
| "sv_compare (a # as) [] = 1"
| "sv_compare (a # as) (b # bs) =
     (if (of_char a :: nat) < of_char b then -1
      else if (of_char b :: nat) < of_char a then 1
      else sv_compare as bs)"

lemma sv_compare_flip: "sv_compare b a = - sv_compare a b"
  by (induction a b rule: sv_compare.induct) auto

lemma sv_compare_0 [simp]: "sv_compare a b = 0 \<longleftrightarrow> a = b"
  by (induction a b rule: sv_compare.induct) (auto simp: not_less)

lemma sv_compare_refl [simp]: "sv_compare a a = 0"
  by simp

lemma sv_compare_Cons_less:
  "sv_compare (a # as) (b # bs) < 0 \<longleftrightarrow>
     (of_char a :: nat) < of_char b \<or> a = b \<and> sv_compare as bs < 0"
  by (cases rule: linorder_cases [of "of_char a :: nat" "of_char b"]) auto

lemma sv_compare_less_trans:
  "sv_compare a b < 0 \<Longrightarrow> sv_compare b c < 0 \<Longrightarrow> sv_compare a c < 0"
proof (induction a arbitrary: b c)
  case Nil
  then show ?case by (cases b; cases c) simp_all
next
  case (Cons x xs)
  from Cons.prems obtain y ys where b: "b = y # ys" by (cases b) simp_all
  with Cons.prems obtain z zs where c: "c = z # zs" by (cases c) simp_all
  from Cons.prems have
    "(of_char x :: nat) < of_char y \<or> x = y \<and> sv_compare xs ys < 0"
    "(of_char y :: nat) < of_char z \<or> y = z \<and> sv_compare ys zs < 0"
    unfolding b c sv_compare_Cons_less by blast+
  then have "(of_char x :: nat) < of_char z \<or> x = z \<and> sv_compare xs zs < 0"
    using Cons.IH [of ys zs] by (elim disjE conjE) simp_all
  then show ?case unfolding c sv_compare_Cons_less .
qed

section \<open>Sorting with a comparator\<close>

text \<open>
  \<open>std::sort\<close> leaves the order of equivalent elements open. Under a strict total order
  there are none but equal ones, so insertion sort computes its only possible result.
\<close>

fun insort_lt :: "('a \<Rightarrow> 'a \<Rightarrow> bool) \<Rightarrow> 'a \<Rightarrow> 'a list \<Rightarrow> 'a list" where
  "insort_lt lt x [] = [x]"
| "insort_lt lt x (y # ys) = (if lt y x then y # insort_lt lt x ys else x # y # ys)"

fun std_sort :: "('a \<Rightarrow> 'a \<Rightarrow> bool) \<Rightarrow> 'a list \<Rightarrow> 'a list" where
  "std_sort lt [] = []"
| "std_sort lt (x # xs) = insort_lt lt x (std_sort lt xs)"

text \<open>Ordered insertion without duplicates, as \<open>std::set::emplace\<close> and \<open>std::map\<close> do it.\<close>

fun set_emplace :: "('a \<Rightarrow> 'a \<Rightarrow> bool) \<Rightarrow> 'a \<Rightarrow> 'a list \<Rightarrow> 'a list" where
  "set_emplace lt x [] = [x]"
| "set_emplace lt x (y # ys) =
     (if lt x y then x # y # ys else if lt y x then y # set_emplace lt x ys else y # ys)"

fun map_assign :: "('k \<Rightarrow> 'k \<Rightarrow> bool) \<Rightarrow> 'k \<Rightarrow> 'v \<Rightarrow> ('k \<times> 'v) list \<Rightarrow> ('k \<times> 'v) list" where
  "map_assign lt k v [] = [(k, v)]"
| "map_assign lt k v ((k', v') # m) =
     (if lt k k' then (k, v) # (k', v') # m
      else if lt k' k then (k', v') # map_assign lt k v m
      else (k', v) # m)"

lemma mset_insort_lt [simp]: "mset (insort_lt lt x xs) = add_mset x (mset xs)"
  by (induction xs) auto

lemma mset_std_sort [simp]: "mset (std_sort lt xs) = mset xs"
  by (induction xs) auto

lemma length_std_sort [simp]: "length (std_sort lt xs) = length xs"
  by (rule mset_eq_length) simp

lemma set_std_sort [simp]: "set (std_sort lt xs) = set xs"
  by (rule mset_eq_setD) simp

locale strict_total =
  fixes lt :: "'a \<Rightarrow> 'a \<Rightarrow> bool"
  assumes lt_irrefl: "\<not> lt a a"
    and lt_trans: "lt a b \<Longrightarrow> lt b c \<Longrightarrow> lt a c"
    and lt_total: "a \<noteq> b \<Longrightarrow> lt a b \<or> lt b a"
begin

abbreviation le :: "'a \<Rightarrow> 'a \<Rightarrow> bool" where
  "le a b \<equiv> \<not> lt b a"

lemma le_trans: "le a b \<Longrightarrow> le b c \<Longrightarrow> le a c"
  using lt_total [of a b] lt_total [of b c] lt_trans [of c a b] lt_trans [of b c a] by blast

lemma le_antisym: "le a b \<Longrightarrow> le b a \<Longrightarrow> a = b"
  using lt_total by blast

lemma lt_le: "lt a b \<Longrightarrow> le a b"
  using lt_irrefl lt_trans by blast

lemma sorted_insort: "sorted_wrt le xs \<Longrightarrow> sorted_wrt le (insort_lt lt x xs)"
proof (induction xs)
  case (Cons y ys)
  have "set (insort_lt lt x ys) = insert x (set ys)"
    by (metis mset_insort_lt set_mset_add_mset_insert set_mset_mset)
  moreover have "le x z" if "le x y" "z \<in> set ys" for z
    using that(1) by (rule le_trans) (use that(2) Cons.prems in simp)
  moreover have "lt y x \<Longrightarrow> le y x" by (rule lt_le)
  ultimately show ?case using Cons by auto
qed simp

lemma sorted_sort: "sorted_wrt le (std_sort lt xs)"
  by (induction xs) (simp_all add: sorted_insort)

lemma sorted_unique:
  "sorted_wrt le xs \<Longrightarrow> sorted_wrt le ys \<Longrightarrow> mset xs = mset ys \<Longrightarrow> xs = ys"
proof (induction xs arbitrary: ys)
  case (Cons x xs)
  then obtain y ys' where ys: "ys = y # ys'" by (cases ys) auto
  from Cons.prems(3) ys have sets: "insert x (set xs) = insert y (set ys')"
    by (metis list.simps(15) mset_eq_setD)
  have "x = y"
  proof (rule ccontr)
    assume "x \<noteq> y"
    with sets have "x \<in> set ys'" "y \<in> set xs" by auto
    with Cons.prems(1,2) ys have "le x y" "le y x" by auto
    then show False using le_antisym \<open>x \<noteq> y\<close> by blast
  qed
  with Cons.prems ys Cons.IH [of ys'] show ?case by simp
qed simp

lemma sort_characterised: "sorted_wrt le ys \<Longrightarrow> mset ys = mset xs \<Longrightarrow> ys = std_sort lt xs"
  by (rule sorted_unique) (simp_all add: sorted_sort)

lemma sorted_distinct: "sorted_wrt lt xs \<Longrightarrow> distinct xs"
  by (induction xs) (use lt_irrefl in auto)

lemma set_emplace_set: "set (set_emplace lt x xs) = insert x (set xs)"
  by (induction xs) (use le_antisym in auto)

lemma set_emplace_sorted: "sorted_wrt lt xs \<Longrightarrow> sorted_wrt lt (set_emplace lt x xs)"
proof (induction xs)
  case (Cons y ys)
  have "lt x z" if "lt x y" "z \<in> set ys" for z
    using that Cons.prems lt_trans [of x y z] by simp
  with Cons show ?case by (simp add: set_emplace_set)
qed simp

lemma map_assign_keys: "fst ` set (map_assign lt k v m) = insert k (fst ` set m)"
proof (induction m)
  case (Cons a m)
  then show ?case by (cases a) (use le_antisym in auto)
qed simp

lemma map_assign_sorted:
  "sorted_wrt lt (map fst m) \<Longrightarrow> sorted_wrt lt (map fst (map_assign lt k v m))"
proof (induction m)
  case (Cons a m)
  obtain k' v' where a: "a = (k', v')" by (cases a)
  have keys: "set (map fst (map_assign lt k v m)) = insert k (set (map fst m))"
    using map_assign_keys by simp
  show ?case
  proof (cases "lt k k' \<or> lt k' k")
    case True
    have "lt k z" if "lt k k'" "z \<in> set (map fst m)" for z
      using that Cons.prems a lt_trans [of k k' z] by auto
    with True Cons a keys show ?thesis by auto
  next
    case False
    with Cons.prems a show ?thesis by simp
  qed
qed simp

lemma map_assign_lookup:
  "map_of (map_assign lt k v m) q = (if q = k then Some v else map_of m q)"
proof (induction m)
  case (Cons a m)
  obtain k' v' where a: "a = (k', v')" by (cases a)
  consider "lt k k'" | "\<not> lt k k'" "lt k' k" | "k = k'" "\<not> lt k k'"
    using le_antisym by blast
  then show ?case
    using Cons a lt_irrefl by cases auto
qed simp

end

section \<open>The order of \<open>std::set<std::string>\<close>\<close>

definition str_less :: "string \<Rightarrow> string \<Rightarrow> bool" where
  "str_less a b \<longleftrightarrow> sv_compare a b < 0"

definition str_greater :: "string \<Rightarrow> string \<Rightarrow> bool" where
  "str_greater a b \<longleftrightarrow> sv_compare a b > 0"

lemma str_greater_less: "str_greater a b = str_less b a"
  by (simp add: str_greater_def str_less_def sv_compare_flip [of a b])

interpretation str_lt: strict_total str_less
proof unfold_locales
  fix a b c
  show "\<not> str_less a a" by (simp add: str_less_def)
  show "str_less a b \<Longrightarrow> str_less b c \<Longrightarrow> str_less a c"
    unfolding str_less_def by (rule sv_compare_less_trans)
  assume "a \<noteq> b"
  then have "sv_compare a b \<noteq> 0" by simp
  then show "str_less a b \<or> str_less b a"
    using sv_compare_flip [of a b] unfolding str_less_def by linarith
qed

interpretation str_gt: strict_total str_greater
proof unfold_locales
  fix a b c
  show "\<not> str_greater a a"
    by (simp add: str_greater_less str_lt.lt_irrefl)
  show "str_greater a b \<Longrightarrow> str_greater b c \<Longrightarrow> str_greater a c"
    unfolding str_greater_less by (rule str_lt.lt_trans)
  assume "a \<noteq> b"
  then show "str_greater a b \<or> str_greater b a"
    unfolding str_greater_less using str_lt.lt_total by blast
qed

end
