(* ===== verification/Ext_Sort.thy ===== *)
theory Ext_Sort
  imports String_Order
begin

text \<open>
  The external sort of \<open>task0-sort/sort.cpp\<close>: lines are read from the input stream into
  blocks, each block is sorted and spilled to a temporary file, and the blocks are merged
  line by line. The theory models the streams with their \<open>good()\<close> flag, the temporary files
  in a store that maps paths to contents, and every function of the file. It proves that the
  program outputs the sorted lines of its input when the temporary files work, and which
  lines are missing when they do not.
\<close>

section \<open>Streams\<close>

definition newline :: char where
  "newline = CHR 0x0A"

text \<open>What is left to read, and \<open>good()\<close>: no end of file, no failure so far.\<close>

record stream =
  st_rest :: string
  st_good :: bool

text \<open>
  \<open>std::getline\<close>: on a stream that is not good it fails without touching the line;
  otherwise it takes the bytes up to a newline, which it drops, or up to the end of the
  file, which clears \<open>good()\<close>.
\<close>

definition getline :: "stream \<Rightarrow> string \<Rightarrow> string \<times> stream" where
  "getline s line =
     (if \<not> st_good s then (line, s)
      else
        (let l = takeWhile (\<lambda>c. c \<noteq> newline) (st_rest s);
             r = dropWhile (\<lambda>c. c \<noteq> newline) (st_rest s)
         in case r of
              [] \<Rightarrow> (l, \<lparr>st_rest = [], st_good = False\<rparr>)
            | _ # r' \<Rightarrow> (l, \<lparr>st_rest = r', st_good = True\<rparr>)))"

section \<open>Blocks\<close>

definition mebibytes :: "nat \<Rightarrow> nat" where
  "mebibytes n = mul64 n 1048576"

definition BLOCK_SIZE :: nat where
  "BLOCK_SIZE = mebibytes 12"

text \<open>
  The contents of the temporary files, and an open stream on one of them: its path, the
  position of the next byte to read, and \<open>good()\<close>.
\<close>

type_synonym file_store = "string \<Rightarrow> string"

record tmp_stream =
  tf_path :: string
  tf_pos :: nat
  tf_good :: bool

record block =
  blk_line :: string
  blk_file :: tmp_stream

definition tf_stream :: "file_store \<Rightarrow> tmp_stream \<Rightarrow> stream" where
  "tf_stream fs f = \<lparr>st_rest = drop (tf_pos f) (fs (tf_path f)), st_good = tf_good f\<rparr>"

definition tf_getline :: "file_store \<Rightarrow> tmp_stream \<Rightarrow> string \<Rightarrow> string \<times> tmp_stream" where
  "tf_getline fs f line =
     (let (l, s) = getline (tf_stream fs f) line
      in (l, f\<lparr>tf_pos := length (fs (tf_path f)) - length (st_rest s), tf_good := st_good s\<rparr>))"

definition lexi :: "bool \<Rightarrow> string \<Rightarrow> string \<Rightarrow> bool" where
  "lexi ascendingSort a b =
     (if ascendingSort then sv_compare a b < 0 else sv_compare a b > 0)"

text \<open>The lines a block writes to its file, each followed by a newline.\<close>

definition put_lines :: "string list \<Rightarrow> string" where
  "put_lines ls = concat (map (\<lambda>l. l @ [newline]) ls)"

text \<open>
  \<open>sortedBlock\<close>: \<open>path\<close> is the string copied out of the buffer that \<open>tmpnam(nullptr)\<close>
  returns, and \<open>ok\<close> tells whether the file could be opened and every write to it succeeded. A
  stream whose opening or writing failed is not good, and reading it fails. Opening truncates
  the file. \<open>None\<close> is the access to \<open>(*lines)[0]\<close> of an empty vector. The store is updated in
  one step; this is what the program does as long as no other stream is open on the same path.
\<close>

definition sortedBlock :: "bool \<Rightarrow> string \<Rightarrow> bool \<Rightarrow> string list \<Rightarrow> file_store \<Rightarrow> (block \<times> file_store) option" where
  "sortedBlock asc path ok lines fs =
     (case std_sort (lexi asc) lines of
        [] \<Rightarrow> None
      | l # ls \<Rightarrow>
          Some (\<lparr>blk_line = l, blk_file = \<lparr>tf_path = path, tf_pos = 0, tf_good = ok\<rparr>\<rparr>,
                if ok then fs(path := put_lines ls) else fs))"

text \<open>
  The \<open>n\<close>th call of \<open>sortedBlock\<close> gets the path \<open>tmp_path n\<close>, and \<open>tmp_ok n\<close> tells whether its
  file works. The last call on the main thread can run at the same time as the asynchronous
  one, and both go through the static buffer of \<open>tmpnam\<close>: that their paths are different is
  an assumption about the schedule, too.
\<close>

record tmp_files =
  tmp_path :: "nat \<Rightarrow> string"
  tmp_ok :: "nat \<Rightarrow> bool"

text \<open>
  The locals of \<open>sortedBlocks\<close> and the files. \<open>sb_sorter\<close> is the future of the one block being
  sorted asynchronously (the task owns its lines, so its value is fixed when it is launched);
  \<open>sb_opened\<close> counts the calls of \<open>sortedBlock\<close>.
\<close>

record sb_state =
  sb_filling :: "string list"
  sb_size :: nat
  sb_sorter :: "block option"
  sb_blocks :: "block list"
  sb_opened :: nat
  sb_files :: file_store

definition sb_take_sorter :: "sb_state \<Rightarrow> sb_state" where
  "sb_take_sorter st =
     (case sb_sorter st of
        None \<Rightarrow> st
      | Some b \<Rightarrow> st\<lparr>sb_blocks := sb_blocks st @ [b], sb_sorter := None\<rparr>)"

text \<open>The body of the reading loop, after \<open>getline\<close> returned \<open>line\<close> and left \<open>in\<close> good or not.\<close>

definition sb_body :: "bool \<Rightarrow> tmp_files \<Rightarrow> nat \<Rightarrow> string \<Rightarrow> bool \<Rightarrow> sb_state \<Rightarrow> sb_state option" where
  "sb_body asc tmp bs line in_good st =
     (let st1 = (if in_good \<or> line \<noteq> []
                 then st\<lparr>sb_size := add64 (sb_size st) (length line),
                         sb_filling := sb_filling st @ [line]\<rparr>
                 else st)
      in if sb_size st1 \<ge> bs
         then (let st2 = sb_take_sorter st1; n = sb_opened st2
               in map_option
                    (\<lambda>(b, fs). st2\<lparr>sb_sorter := Some b, sb_opened := Suc n, sb_files := fs,
                                   sb_filling := [], sb_size := 0\<rparr>)
                    (sortedBlock asc (tmp_path tmp n) (tmp_ok tmp n) (sb_filling st2) (sb_files st2)))
         else Some st1)"

lemma getline_consumes:
  "st_good s \<Longrightarrow> getline s l0 = (l, s') \<Longrightarrow> st_good s' \<Longrightarrow>
     length (st_rest s') < length (st_rest s)"
  by (auto simp: getline_def Let_def split: list.splits)
    (metis Suc_leD length_Cons length_dropWhile_le less_eq_Suc_le)

function sb_loop :: "bool \<Rightarrow> tmp_files \<Rightarrow> nat \<Rightarrow> stream \<Rightarrow> sb_state \<Rightarrow> sb_state option" where
  "sb_loop asc tmp bs s st =
     (if st_good s
      then (let (line, s') = getline s []
            in case sb_body asc tmp bs line (st_good s') st of
                 None \<Rightarrow> None
               | Some st' \<Rightarrow> sb_loop asc tmp bs s' st')
      else Some st)"
  by pat_completeness auto

termination
  by (relation "measure (\<lambda>(asc, tmp, bs, s, st). if st_good s then Suc (length (st_rest s)) else 0)")
    (auto dest: getline_consumes [rotated 1, OF sym])

definition sortedBlocks :: "bool \<Rightarrow> tmp_files \<Rightarrow> nat \<Rightarrow> file_store \<Rightarrow> string \<Rightarrow> (block list \<times> file_store) option" where
  "sortedBlocks asc tmp bs fs0 input =
     (case sb_loop asc tmp bs \<lparr>st_rest = input, st_good = True\<rparr>
             \<lparr>sb_filling = [], sb_size = 0, sb_sorter = None, sb_blocks = [], sb_opened = 0, sb_files = fs0\<rparr> of
        None \<Rightarrow> None
      | Some st \<Rightarrow>
          (if sb_filling st \<noteq> []
           then map_option
                  (\<lambda>(b, fs). (sb_blocks (sb_take_sorter (st\<lparr>sb_blocks := sb_blocks st @ [b]\<rparr>)), fs))
                  (sortedBlock asc (tmp_path tmp (sb_opened st)) (tmp_ok tmp (sb_opened st)) (sb_filling st) (sb_files st))
           else Some (sb_blocks (sb_take_sorter st), sb_files st)))"

section \<open>Merging\<close>

definition min_block :: "bool \<Rightarrow> block list \<Rightarrow> nat" where
  "min_block asc bs =
     foldl (\<lambda>iMin i. if lexi asc (blk_line (bs ! i)) (blk_line (bs ! iMin)) then i else iMin)
       0 [1..<length bs]"

lemma foldl_index_bound:
  "i0 < n \<Longrightarrow> set is \<subseteq> {..<n} \<Longrightarrow>
     foldl (\<lambda>m i. if P i m then i else m) i0 is < (n::nat)"
  by (induction "is" arbitrary: i0) auto

lemma min_block_bound: "bs \<noteq> [] \<Longrightarrow> min_block asc bs < length bs"
  unfolding min_block_def by (rule foldl_index_bound) auto

text \<open>One round of \<open>mergeBlocks\<close>: the line that goes out, and the blocks that stay.\<close>

definition merge_round :: "bool \<Rightarrow> file_store \<Rightarrow> block list \<Rightarrow> string \<times> block list" where
  "merge_round asc fs bs =
     (let iMin = min_block asc bs;
          b = bs ! iMin;
          (l, f) = tf_getline fs (blk_file b) (blk_line b)
      in (blk_line b,
          if tf_good f then bs[iMin := \<lparr>blk_line = l, blk_file = f\<rparr>]
          else take iMin bs @ drop (Suc iMin) bs))"

definition blocks_size :: "file_store \<Rightarrow> block list \<Rightarrow> nat" where
  "blocks_size fs bs = sum_list (map (\<lambda>b. Suc (length (st_rest (tf_stream fs (blk_file b))))) bs)"

lemma getline_shorter: "getline s l0 = (l, s') \<Longrightarrow> length (st_rest s') \<le> length (st_rest s)"
  by (auto simp: getline_def Let_def split: if_splits list.splits)
    (metis Suc_leD length_Cons length_dropWhile_le)

lemma tf_getline_stream:
  assumes "getline (tf_stream fs f) l0 = (l, s)" "tf_getline fs f l0 = (l', f')"
  shows "l' = l" "tf_path f' = tf_path f" "tf_good f' = st_good s" "length (st_rest (tf_stream fs f')) = length (st_rest s)"
proof -
  have "length (st_rest s) \<le> length (fs (tf_path f))" using getline_shorter [OF assms(1)] by (simp add: tf_stream_def)
  then show "l' = l" "tf_path f' = tf_path f" "tf_good f' = st_good s" "length (st_rest (tf_stream fs f')) = length (st_rest s)"
    using assms by (auto simp: tf_getline_def tf_stream_def)
qed

lemma merge_round_shrinks:
  assumes "bs \<noteq> []" "merge_round asc fs bs = (l, bs')"
  shows "blocks_size fs bs' < blocks_size fs bs"
proof -
  let ?i = "min_block asc bs"
  let ?s = "tf_stream fs (blk_file (bs ! ?i))"
  obtain l' s where g: "getline ?s (blk_line (bs ! ?i)) = (l', s)" by fastforce
  obtain l'' f where t: "tf_getline fs (blk_file (bs ! ?i)) (blk_line (bs ! ?i)) = (l'', f)" by fastforce
  note f = tf_getline_stream [OF g t]
  have i: "?i < length bs" using assms(1) by (rule min_block_bound)
  have bs': "bs' = (if tf_good f then bs[?i := \<lparr>blk_line = l'', blk_file = f\<rparr>]
                    else take ?i bs @ drop (Suc ?i) bs)"
    using assms(2) t by (simp add: merge_round_def Let_def)
  show ?thesis
  proof (cases "tf_good f")
    case True
    then have "st_good ?s" using g f(3) by (auto simp: getline_def split: if_splits)
    then have "length (st_rest s) < length (st_rest ?s)" using g True f(3) by (simp add: getline_consumes)
    with True show ?thesis
      unfolding bs' blocks_size_def
      by (simp add: sum_list_update_nth [OF i] sum_list_remove_nth [OF i] f(4) del: map_append)
  next
    case False
    then show ?thesis
      unfolding bs' blocks_size_def
      by (simp add: sum_list_remove_nth [OF i] del: map_append)
  qed
qed

function mergeBlocks :: "bool \<Rightarrow> file_store \<Rightarrow> block list \<Rightarrow> string" where
  "mergeBlocks asc fs bs =
     (if bs = [] then []
      else (let (l, bs') = merge_round asc fs bs in l @ [newline] @ mergeBlocks asc fs bs'))"
  by pat_completeness auto
termination
  by (relation "measure (\<lambda>(asc, fs, bs). blocks_size fs bs)")
    (auto dest: merge_round_shrinks [rotated 1, OF sym])

text \<open>\<open>main\<close>: \<open>argv\<close> includes the program name; only a first argument \<open>-r\<close> matters.\<close>

definition ascending_arg :: "string list \<Rightarrow> bool" where
  "ascending_arg argv = (\<not> (length argv > 1 \<and> argv ! 1 = ''-r''))"

definition sort_main :: "tmp_files \<Rightarrow> file_store \<Rightarrow> string list \<Rightarrow> string \<Rightarrow> string option" where
  "sort_main tmp fs0 argv input =
     (let asc = ascending_arg argv
      in map_option (\<lambda>(bs, fs). mergeBlocks asc fs bs) (sortedBlocks asc tmp BLOCK_SIZE fs0 input))"

declare sb_loop.simps [simp del] mergeBlocks.simps [simp del]


section \<open>Correctness\<close>

text \<open>The lines of a text: what lies between newlines, the last piece only if it is not empty.\<close>

function input_lines :: "string \<Rightarrow> string list" where
  "input_lines s =
     (if s = [] then []
      else takeWhile (\<lambda>c. c \<noteq> newline) s #
           (case dropWhile (\<lambda>c. c \<noteq> newline) s of [] \<Rightarrow> [] | _ # r \<Rightarrow> input_lines r))"
  by pat_completeness auto
termination
  by (relation "measure length")
    (auto, metis Suc_leD length_Cons length_dropWhile_le less_eq_Suc_le)

declare input_lines.simps [simp del]

lemma input_lines_Nil [simp]: "input_lines [] = []"
  by (simp add: input_lines.simps)

lemma input_lines_no_newline: "l \<in> set (input_lines s) \<Longrightarrow> newline \<notin> set l"
proof (induction s rule: input_lines.induct)
  case (1 s)
  from "1.prems" have "s \<noteq> []" by (auto simp: input_lines.simps [of s])
  then consider "l = takeWhile (\<lambda>c. c \<noteq> newline) s"
    | c r where "dropWhile (\<lambda>c. c \<noteq> newline) s = c # r" "l \<in> set (input_lines r)"
    using "1.prems" by (auto simp: input_lines.simps [of s] split: list.splits) metis
  then show ?case
  proof cases
    case 1
    then show ?thesis by (auto dest: set_takeWhileD)
  next
    case 2
    then show ?thesis using "1.IH" \<open>s \<noteq> []\<close> by simp
  qed
qed

interpretation lexi: strict_total "lexi asc" for asc
proof -
  have "lexi True = str_less" "lexi False = str_greater"
    by (auto simp: lexi_def str_less_def str_greater_def fun_eq_iff)
  then show "strict_total (lexi asc)"
    by (cases asc) (simp_all add: str_lt.strict_total_axioms str_gt.strict_total_axioms)
qed

subsection \<open>Reading\<close>

text \<open>The lines a block stands for: its own line, and those its file still holds while it is good.\<close>

definition rep :: "file_store \<Rightarrow> block \<Rightarrow> string list \<Rightarrow> bool" where
  "rep fs b ls \<longleftrightarrow> ls \<noteq> [] \<and> blk_line b = hd ls \<and>
     (if tf_good (blk_file b) then st_rest (tf_stream fs (blk_file b)) = put_lines (tl ls) else tl ls = [])"

text \<open>What the \<open>n\<close>th block gets through to the merge: its lines, or the first of them in the order when its file fails.\<close>

definition spilled :: "bool \<Rightarrow> tmp_files \<Rightarrow> nat \<Rightarrow> string list \<Rightarrow> string list" where
  "spilled asc tmp n ls = (if tmp_ok tmp n then std_sort (lexi asc) ls else [hd (std_sort (lexi asc) ls)])"

lemma std_sort_Nil [simp]: "std_sort (lexi asc) ls = [] \<longleftrightarrow> ls = []"
  by (simp flip: set_empty)

lemma spilled_ne [simp]: "ls \<noteq> [] \<Longrightarrow> spilled asc tmp n ls \<noteq> []"
  by (simp add: spilled_def)

lemma sortedBlock_rep:
  assumes "ls \<noteq> []"
  shows "\<exists>b fs'. sortedBlock asc (tmp_path tmp n) (tmp_ok tmp n) ls fs = Some (b, fs') \<and> rep fs' b (spilled asc tmp n ls) \<and>
    tf_path (blk_file b) = tmp_path tmp n \<and> (\<forall>p. p \<noteq> tmp_path tmp n \<longrightarrow> fs' p = fs p)"
proof -
  obtain x xs where "std_sort (lexi asc) ls = x # xs"
    using assms by (cases "std_sort (lexi asc) ls") (auto dest: arg_cong [where f = length])
  then show ?thesis by (auto simp: sortedBlock_def rep_def spilled_def tf_stream_def)
qed

lemma rep_frame: "rep fs b ls \<Longrightarrow> fs' (tf_path (blk_file b)) = fs (tf_path (blk_file b)) \<Longrightarrow> rep fs' b ls"
  by (cases "tf_good (blk_file b)") (simp_all add: rep_def tf_stream_def)

text \<open>How the input is cut into blocks: \<open>acc\<close> are the lines of the block being filled, \<open>n\<close> their total length.\<close>

fun cut_lines :: "nat \<Rightarrow> string list \<Rightarrow> nat \<Rightarrow> string list \<Rightarrow> string list list" where
  "cut_lines bs acc n [] = (if acc = [] then [] else [acc])"
| "cut_lines bs acc n (l # ls) =
     (if bs \<le> add64 n (length l) then (acc @ [l]) # cut_lines bs [] 0 ls
      else cut_lines bs (acc @ [l]) (add64 n (length l)) ls)"

lemma concat_cut_lines: "concat (cut_lines bs acc n ls) = acc @ ls"
  by (induction bs acc n ls rule: cut_lines.induct) auto

lemma cut_lines_ne: "[] \<notin> set (cut_lines bs acc n ls)"
  by (induction bs acc n ls rule: cut_lines.induct) auto

text \<open>
  The state of the loop after the blocks \<open>lss\<close> have been cut off the input: the blocks in the
  vector and in the future stand for what \<open>lss\<close> spilled, each on a path of its own.
\<close>

definition block_of :: "bool \<Rightarrow> tmp_files \<Rightarrow> file_store \<Rightarrow> nat \<Rightarrow> string list \<Rightarrow> block \<Rightarrow> bool" where
  "block_of asc tmp fs n ls b \<longleftrightarrow> ls \<noteq> [] \<and> rep fs b (spilled asc tmp n ls) \<and> tf_path (blk_file b) = tmp_path tmp n"

definition sb_all :: "sb_state \<Rightarrow> block list" where
  "sb_all st = sb_blocks st @ (case sb_sorter st of None \<Rightarrow> [] | Some b \<Rightarrow> [b])"

definition sb_holds :: "bool \<Rightarrow> tmp_files \<Rightarrow> nat \<Rightarrow> sb_state \<Rightarrow> string list \<Rightarrow> bool" where
  "sb_holds asc tmp bs st ls \<longleftrightarrow>
     (\<exists>lss. length (sb_all st) = length lss \<and> sb_opened st = length lss \<and>
        (\<forall>k < length lss. block_of asc tmp (sb_files st) k (lss ! k) (sb_all st ! k)) \<and>
        (\<forall>rest. cut_lines bs [] 0 (ls @ rest) = lss @ cut_lines bs (sb_filling st) (sb_size st) rest)) \<and>
     sb_size st < bs"

lemma sb_take_sorter_sel [simp]:
  "sb_filling (sb_take_sorter st) = sb_filling st"
  "sb_size (sb_take_sorter st) = sb_size st"
  "sb_sorter (sb_take_sorter st) = None"
  "sb_opened (sb_take_sorter st) = sb_opened st"
  "sb_files (sb_take_sorter st) = sb_files st"
  "sb_blocks (sb_take_sorter st) = sb_all st"
  "sb_all (sb_take_sorter st) = sb_all st"
  by (auto simp: sb_take_sorter_def sb_all_def split: option.splits)

text \<open>Spilling one more block leaves the blocks before it alone.\<close>

lemma blocks_extend:
  assumes "inj (tmp_path tmp)" "length bs = length lss" "\<forall>k < length lss. block_of asc tmp fs k (lss ! k) (bs ! k)" "ls \<noteq> []"
    "sortedBlock asc (tmp_path tmp (length lss)) (tmp_ok tmp (length lss)) ls fs = Some (b, fs')"
  shows "\<forall>k < length (lss @ [ls]). block_of asc tmp fs' k ((lss @ [ls]) ! k) ((bs @ [b]) ! k)"
proof (intro allI impI)
  fix k assume k: "k < length (lss @ [ls])"
  have new: "rep fs' b (spilled asc tmp (length lss) ls)" "tf_path (blk_file b) = tmp_path tmp (length lss)"
    "\<forall>p. p \<noteq> tmp_path tmp (length lss) \<longrightarrow> fs' p = fs p"
    using sortedBlock_rep [OF assms(4), of asc tmp "length lss" fs] assms(5) by auto
  show "block_of asc tmp fs' k ((lss @ [ls]) ! k) ((bs @ [b]) ! k)"
  proof (cases "k < length lss")
    case True
    then have old: "block_of asc tmp fs k (lss ! k) (bs ! k)" using assms(3) by blast
    have "tmp_path tmp k \<noteq> tmp_path tmp (length lss)" using assms(1) True by (auto dest: injD)
    then have "fs' (tmp_path tmp k) = fs (tmp_path tmp k)" using new(3) by blast
    then show ?thesis using old True assms(2) rep_frame by (auto simp: block_of_def nth_append)
  next
    case False
    then have "k = length lss" using k by simp
    then show ?thesis using new(1,2) assms(2,4) by (simp add: block_of_def nth_append)
  qed
qed

lemma sb_body_holds:
  assumes "sb_holds asc tmp bs st ls" "inj (tmp_path tmp)"
  shows "\<exists>st'. sb_body asc tmp bs line g st = Some st' \<and>
           sb_holds asc tmp bs st' (if g \<or> line \<noteq> [] then ls @ [line] else ls)"
proof (cases "g \<or> line \<noteq> []")
  case False
  then show ?thesis using assms(1) by (auto simp: sb_body_def sb_holds_def)
next
  case True
  obtain lss where lss: "length (sb_all st) = length lss" "sb_opened st = length lss"
    "\<forall>k < length lss. block_of asc tmp (sb_files st) k (lss ! k) (sb_all st ! k)"
    "\<And>rest. cut_lines bs [] 0 (ls @ rest) = lss @ cut_lines bs (sb_filling st) (sb_size st) rest"
    and bs: "sb_size st < bs" using assms(1) unfolding sb_holds_def by blast
  let ?n = "add64 (sb_size st) (length line)" and ?fl = "sb_filling st @ [line]"
  define st1 where "st1 = st\<lparr>sb_size := ?n, sb_filling := ?fl\<rparr>"
  have st1: "sb_all st1 = sb_all st" "sb_opened st1 = sb_opened st" "sb_files st1 = sb_files st" "sb_filling st1 = ?fl" "sb_size st1 = ?n"
    by (simp_all add: st1_def sb_all_def)
  show ?thesis
  proof (cases "bs \<le> ?n")
    case False
    then have "sb_body asc tmp bs line g st = Some st1" using True by (simp add: sb_body_def Let_def st1_def)
    moreover have "sb_holds asc tmp bs st1 (ls @ [line])" unfolding sb_holds_def
      using lss False by (intro conjI exI [of _ lss]) (simp_all add: st1)
    ultimately show ?thesis using True by auto
  next
    case full: True
    obtain b fs where b: "sortedBlock asc (tmp_path tmp (length lss)) (tmp_ok tmp (length lss)) ?fl (sb_files st) = Some (b, fs)"
      using sortedBlock_rep [of ?fl asc tmp "length lss" "sb_files st"] by auto
    let ?st' = "(sb_take_sorter st1)\<lparr>sb_sorter := Some b, sb_opened := Suc (length lss), sb_files := fs, sb_filling := [], sb_size := 0\<rparr>"
    have "sb_all ?st' = sb_all st @ [b]" by (simp add: sb_all_def [of ?st'] st1(1))
    then have "sb_holds asc tmp bs ?st' (ls @ [line])" unfolding sb_holds_def
      using lss(1,4) blocks_extend [OF assms(2) lss(1,3) _ b] full bs by (intro conjI exI [of _ "lss @ [?fl]"]) simp_all
    moreover have "sb_body asc tmp bs line g st = Some ?st'"
      using True full b lss(2) st1(2) by (simp add: sb_body_def Let_def st1_def [symmetric] st1)
    ultimately show ?thesis using True by auto
  qed
qed

lemma getline_lines:
  "st_good s \<Longrightarrow> getline s [] = (line, s') \<Longrightarrow>
     input_lines (st_rest s) =
       (if st_good s' \<or> line \<noteq> [] then [line] else []) @
       (if st_good s' then input_lines (st_rest s') else [])"
proof -
  assume good: "st_good s" and g: "getline s [] = (line, s')"
  define l r where "l = takeWhile (\<lambda>c. c \<noteq> newline) (st_rest s)"
    and "r = dropWhile (\<lambda>c. c \<noteq> newline) (st_rest s)"
  have rest: "st_rest s = l @ r" by (simp add: l_def r_def)
  have unf: "input_lines (st_rest s) =
      (if l = [] \<and> r = [] then [] else l # (case r of [] \<Rightarrow> [] | _ # r' \<Rightarrow> input_lines r'))"
    unfolding input_lines.simps [of "st_rest s"] l_def [symmetric] r_def [symmetric]
    by (simp add: rest)
  have get: "getline s [] = (case r of [] \<Rightarrow> (l, \<lparr>st_rest = [], st_good = False\<rparr>)
      | _ # r' \<Rightarrow> (l, \<lparr>st_rest = r', st_good = True\<rparr>))"
    using good by (simp add: getline_def l_def [symmetric] r_def [symmetric] Let_def)
  show ?thesis
    using g unfolding unf get by (cases r) auto
qed

lemma sb_loop_holds:
  "sb_holds asc tmp bs st ls \<Longrightarrow> inj (tmp_path tmp) \<Longrightarrow>
     \<exists>st'. sb_loop asc tmp bs s st = Some st' \<and>
       sb_holds asc tmp bs st' (ls @ (if st_good s then input_lines (st_rest s) else []))"
proof (induction asc tmp bs s st arbitrary: ls rule: sb_loop.induct)
  case (1 asc tmp bs s st)
  show ?case
  proof (cases "st_good s")
    case False
    then show ?thesis using "1.prems"(1) by (simp add: sb_loop.simps [of asc tmp bs s])
  next
    case True
    obtain line s' where g: "getline s [] = (line, s')" by fastforce
    let ?ls = "if st_good s' \<or> line \<noteq> [] then ls @ [line] else ls"
    obtain st' where b: "sb_body asc tmp bs line (st_good s') st = Some st'"
      and h: "sb_holds asc tmp bs st' ?ls"
      using sb_body_holds [OF "1.prems"] by blast
    have lines: "?ls @ (if st_good s' then input_lines (st_rest s') else []) =
        ls @ input_lines (st_rest s)"
      by (simp add: getline_lines [OF True g])
    from "1.IH" [OF True g [symmetric] refl b h "1.prems"(2)]
    show ?thesis using True g b lines by (simp add: sb_loop.simps [of asc tmp bs s])
  qed
qed

text \<open>The vector holds the blocks in the order of the input, except that the last two may be swapped.\<close>

lemma sortedBlocks_spec:
  assumes "0 < bs" "inj (tmp_path tmp)"
  shows "\<exists>bl fs js. sortedBlocks asc tmp bs fs0 input = Some (bl, fs) \<and>
    mset js = mset [0..<length (cut_lines bs [] 0 (input_lines input))] \<and>
    list_all2 (rep fs) bl (map (\<lambda>k. spilled asc tmp k (cut_lines bs [] 0 (input_lines input) ! k)) js)"
proof -
  let ?st0 = "\<lparr>sb_filling = [], sb_size = 0, sb_sorter = None, sb_blocks = [], sb_opened = 0, sb_files = fs0\<rparr>"
  have "sb_holds asc tmp bs ?st0 []" using assms(1) by (simp add: sb_holds_def sb_all_def)
  from sb_loop_holds [OF this assms(2), of "\<lparr>st_rest = input, st_good = True\<rparr>"]
  obtain st where l: "sb_loop asc tmp bs \<lparr>st_rest = input, st_good = True\<rparr> ?st0 = Some st"
    and h: "sb_holds asc tmp bs st (input_lines input)" by auto
  obtain lss where lss: "length (sb_all st) = length lss" "sb_opened st = length lss"
    "\<forall>k < length lss. block_of asc tmp (sb_files st) k (lss ! k) (sb_all st ! k)"
    "\<And>rest. cut_lines bs [] 0 (input_lines input @ rest) = lss @ cut_lines bs (sb_filling st) (sb_size st) rest"
    using h unfolding sb_holds_def by blast
  note cut = lss(4) [of "[]", simplified]
  show ?thesis
  proof (cases "sb_filling st = []")
    case True
    have "list_all2 (rep (sb_files st)) (sb_all st) (map (\<lambda>k. spilled asc tmp k (lss ! k)) [0..<length lss])"
      using lss(1,3) by (simp add: list_all2_conv_all_nth block_of_def)
    moreover have "sortedBlocks asc tmp bs fs0 input = Some (sb_all st, sb_files st)" using l True by (simp add: sortedBlocks_def)
    ultimately show ?thesis using cut True
      by (intro exI [of _ "sb_all st"] exI [of _ "sb_files st"] exI [of _ "[0..<length lss]"]) simp
  next
    case False
    let ?lss = "lss @ [sb_filling st]"
    obtain b fs where b: "sortedBlock asc (tmp_path tmp (length lss)) (tmp_ok tmp (length lss)) (sb_filling st) (sb_files st) = Some (b, fs)"
      using sortedBlock_rep [OF False] by blast
    note ext = blocks_extend [OF assms(2) lss(1,3) False b]
    define n where "n = length (sb_blocks st)"
    define js where "js = [0..<n] @ [length lss] @ [n..<length lss]"
    have n: "n \<le> length lss" using lss(1) by (simp add: n_def sb_all_def)
    have sb: "take n (sb_all st) = sb_blocks st" "drop n (sb_all st) = (case sb_sorter st of None \<Rightarrow> [] | Some b \<Rightarrow> [b])"
      by (simp_all add: n_def sb_all_def)
    have eq: "sb_blocks (sb_take_sorter (st\<lparr>sb_blocks := sb_blocks st @ [b]\<rparr>)) = take n (sb_all st) @ [b] @ drop n (sb_all st)"
      unfolding sb by (simp add: sb_all_def split: option.splits)
    have "map (\<lambda>k. (sb_all st @ [b]) ! k) js = take n (sb_all st) @ [b] @ drop n (sb_all st)"
    proof -
      have "map ((!) (sb_all st @ [b])) [0..<n] = take n (sb_all st)"
        using n lss(1) by (auto intro!: nth_equalityI simp: nth_append)
      moreover have "map ((!) (sb_all st @ [b])) [n..<length lss] = drop n (sb_all st)"
        using n lss(1) by (auto intro!: nth_equalityI simp: nth_append)
      moreover have "(sb_all st @ [b]) ! length lss = b" using lss(1) by (metis nth_append_length)
      ultimately show ?thesis by (simp add: js_def)
    qed
    then have "sortedBlocks asc tmp bs fs0 input = Some (map (\<lambda>k. (sb_all st @ [b]) ! k) js, fs)"
      using l False b lss(2) eq by (simp add: sortedBlocks_def)
    moreover have "list_all2 (rep fs) (map (\<lambda>k. (sb_all st @ [b]) ! k) js) (map (\<lambda>k. spilled asc tmp k (?lss ! k)) js)"
    proof -
      have "set js \<subseteq> {..<length ?lss}" using n by (auto simp: js_def)
      then have "\<forall>k \<in> set js. rep fs ((sb_all st @ [b]) ! k) (spilled asc tmp k (?lss ! k))" using ext unfolding block_of_def by blast
      then show ?thesis by (simp add: list_all2_map1 list_all2_map2 list_all2_same)
    qed
    moreover have "mset js = mset [0..<length ?lss]"
    proof -
      have "[0..<length lss] = [0..<n] @ [n..<length lss]" using n by (metis le_add_diff_inverse upt_add_eq_append zero_le)
      then have "mset [0..<length lss] = mset [0..<n] + mset [n..<length lss]" by (metis mset_append)
      then show ?thesis by (simp add: js_def)
    qed
    ultimately show ?thesis using cut False
      by (intro exI [of _ "map (\<lambda>k. (sb_all st @ [b]) ! k) js"] exI [of _ fs] exI [of _ js]) simp
  qed
qed

subsection \<open>Merging\<close>

lemma put_lines_Cons [simp]: "put_lines (l # ls) = l @ newline # put_lines ls"
  by (simp add: put_lines_def)

lemma getline_put_lines:
  "newline \<notin> set l \<Longrightarrow>
     getline \<lparr>st_rest = l @ newline # put_lines ls, st_good = True\<rparr> l0 =
       (l, \<lparr>st_rest = put_lines ls, st_good = True\<rparr>)"
proof -
  assume "newline \<notin> set l"
  then have "takeWhile (\<lambda>c. c \<noteq> newline) (l @ newline # r) = l"
    "dropWhile (\<lambda>c. c \<noteq> newline) (l @ newline # r) = newline # r" for r
    by (induction l) auto
  then show ?thesis by (simp add: getline_def Let_def)
qed

lemma getline_put_lines_empty:
  "getline \<lparr>st_rest = put_lines [], st_good = True\<rparr> l0 = ([], \<lparr>st_rest = [], st_good = False\<rparr>)"
  by (simp add: getline_def put_lines_def)

text \<open>Reading the next line of a block takes the head off the lines it stands for.\<close>

lemma drop_suffix: "drop k xs = us @ vs \<Longrightarrow> drop (length xs - length vs) xs = vs"
  by (metis append.assoc append_eq_conv_conj append_take_drop_id diff_diff_cancel length_append length_drop diff_add_inverse2 le_add2)

lemma rep_next:
  assumes "rep fs b (x # xs)" "\<forall>y \<in> set xs. newline \<notin> set y" "tf_getline fs (blk_file b) (blk_line b) = (l, f)"
  shows "if xs = [] then \<not> tf_good f else tf_good f \<and> rep fs \<lparr>blk_line = l, blk_file = f\<rparr> xs"
proof (cases "tf_good (blk_file b)")
  case False
  then show ?thesis using assms(1,3) by (auto simp: rep_def tf_getline_def getline_def tf_stream_def)
next
  case True
  then have s: "tf_stream fs (blk_file b) = \<lparr>st_rest = put_lines xs, st_good = True\<rparr>"
    using assms(1) by (simp add: rep_def tf_stream_def)
  show ?thesis
  proof (cases xs)
    case Nil
    then show ?thesis using assms(3) s by (auto simp: tf_getline_def getline_put_lines_empty)
  next
    case (Cons y ys)
    have "newline \<notin> set y" using assms(2) Cons by simp
    then have g: "getline (tf_stream fs (blk_file b)) (blk_line b) = (y, \<lparr>st_rest = put_lines ys, st_good = True\<rparr>)"
      using s Cons by (simp add: getline_put_lines)
    note f = tf_getline_stream [OF g assms(3)]
    have "drop (tf_pos (blk_file b)) (fs (tf_path (blk_file b))) = (y @ [newline]) @ put_lines ys"
      using s Cons by (simp add: tf_stream_def)
    from drop_suffix [OF this] have "st_rest (tf_stream fs f) = put_lines ys"
      using assms(3) g by (auto simp: tf_stream_def tf_getline_def)
    then show ?thesis using f(1,3) Cons by (simp add: rep_def)
  qed
qed

lemma foldl_min_index:
  "set is \<subseteq> {..<n} \<Longrightarrow> i0 < n \<Longrightarrow>
     (\<forall>j \<in> set (i0 # is).
        \<not> lexi asc (f j) (f (foldl (\<lambda>m i. if lexi asc (f i) (f m) then i else m) i0 is)))"
proof (induction "is" arbitrary: i0)
  case Nil
  then show ?case using lexi.lt_irrefl by simp
next
  case (Cons i "is")
  define i1 where "i1 = (if lexi asc (f i) (f i0) then i else i0)"
  have IH: "\<forall>j \<in> set (i1 # is).
      \<not> lexi asc (f j) (f (foldl (\<lambda>m i. if lexi asc (f i) (f m) then i else m) i1 is))"
    using Cons.IH [of i1] Cons.prems by (simp add: i1_def)
  have "\<not> lexi asc (f j) (f i1)" if "j = i0 \<or> j = i" for j
    using that lexi.lt_irrefl lexi.lt_le by (auto simp: i1_def)
  then have "\<not> lexi asc (f j) (f (foldl (\<lambda>m i. if lexi asc (f i) (f m) then i else m) i1 is))"
    if "j = i0 \<or> j = i" for j
    using that IH lexi.le_trans [of asc "f i1"] by auto
  with IH show ?case by (auto simp: i1_def)
qed

lemma min_block_minimal:
  assumes "j < length bs"
  shows "\<not> lexi asc (blk_line (bs ! j)) (blk_line (bs ! min_block asc bs))"
proof -
  have "j \<in> set (0 # [1..<length bs])" using assms by auto
  moreover have "set [1..<length bs] \<subseteq> {..<length bs}" "0 < length bs" using assms by auto
  ultimately show ?thesis
    unfolding min_block_def
    using foldl_min_index [of "[1..<length bs]" "length bs" 0 asc "\<lambda>i. blk_line (bs ! i)"] by blast
qed

text \<open>One round takes the smallest head off the lists the blocks stand for.\<close>

lemma merge_round_spec:
  assumes "bs \<noteq> []" "list_all2 (rep fs) bs lss" "\<forall>l \<in> set (concat lss). newline \<notin> set l"
    "\<forall>ls \<in> set lss. sorted_wrt (\<lambda>a b. \<not> lexi asc b a) ls"
  shows "\<exists>x bs' lss'. merge_round asc fs bs = (x, bs') \<and> list_all2 (rep fs) bs' lss' \<and>
     mset (concat lss) = add_mset x (mset (concat lss')) \<and>
     (\<forall>ls \<in> set lss'. sorted_wrt (\<lambda>a b. \<not> lexi asc b a) ls) \<and>
     (\<forall>l \<in> set (concat lss'). \<not> lexi asc l x)"
proof -
  define i where "i = min_block asc bs"
  have len: "length bs = length lss" using assms(2) by (rule list_all2_lengthD)
  have i: "i < length lss" using min_block_bound [OF assms(1), of asc] len by (simp add: i_def)
  then have mem: "lss ! i \<in> set lss" by simp
  have rp: "rep fs (bs ! j) (lss ! j)" if "j < length lss" for j using assms(2) that len by (simp add: list_all2_conv_all_nth)
  then obtain x xs where lsi: "lss ! i = x # xs" using i by (metis rep_def list.exhaust)
  have x: "blk_line (bs ! i) = x" using rp [OF i] lsi by (simp add: rep_def)
  obtain l f where g: "tf_getline fs (blk_file (bs ! i)) (blk_line (bs ! i)) = (l, f)" by fastforce
  have "\<forall>y \<in> set xs. newline \<notin> set y" using assms(3) mem lsi by fastforce
  from rep_next [OF _ this g, of x] rp [OF i] lsi have nx: "if xs = [] then \<not> tf_good f else tf_good f \<and> rep fs \<lparr>blk_line = l, blk_file = f\<rparr> xs" by simp
  define bs' where "bs' = (if tf_good f then bs[i := \<lparr>blk_line = l, blk_file = f\<rparr>] else take i bs @ drop (Suc i) bs)"
  define lss' where "lss' = (if xs = [] then take i lss @ drop (Suc i) lss else lss[i := xs])"
  have "merge_round asc fs bs = (x, bs')" using g x by (simp add: merge_round_def i_def [symmetric] bs'_def)
  moreover have "list_all2 (rep fs) bs' lss'"
    using nx assms(2) by (auto simp: bs'_def lss'_def intro!: list_all2_appendI list_all2_takeI list_all2_dropI list_all2_update_cong split: if_splits)
  moreover have m: "mset (concat lss) = add_mset x (mset (concat lss'))"
  proof -
    have "lss = take i lss @ (x # xs) # drop (Suc i) lss" using remove_nth_append [OF i] lsi by simp
    from arg_cong [OF this, of "\<lambda>l. mset (concat l)"] show ?thesis using i by (simp add: lss'_def upd_conv_take_nth_drop)
  qed
  have elems: "ls \<in> set lss' \<Longrightarrow> ls \<in> set lss \<or> ls = xs" for ls
    by (auto simp: lss'_def dest: in_set_takeD in_set_dropD set_update_subset_insert [THEN subsetD]
        split: if_splits)
  have sorted: "\<forall>ls \<in> set lss'. sorted_wrt (\<lambda>a b. \<not> lexi asc b a) ls"
    using elems bspec [OF assms(4) mem] assms(4) lsi by auto
  have least: "\<not> lexi asc l x" if mem_l: "ls \<in> set lss" "l \<in> set ls" for ls l
  proof -
    obtain j where j: "j < length lss" "ls = lss ! j" using mem_l(1) by (metis in_set_conv_nth)
    obtain h t where ht: "ls = h # t" using mem_l(2) by (cases ls) auto
    have hd: "hd (lss ! j) = h" using j(2) ht by (metis list.sel(1))
    have "\<not> lexi asc h x"
      using min_block_minimal [of j bs asc] j(1) rp [OF j(1)] hd x len by (simp add: i_def [symmetric] rep_def)
    moreover have "\<not> lexi asc l h"
      using bspec [OF assms(4) mem_l(1)] mem_l(2) ht lexi.lt_irrefl by auto
    ultimately show ?thesis by (rule lexi.le_trans)
  qed
  have "\<not> lexi asc l x" if "ls \<in> set lss'" "l \<in> set ls" for ls l
    using elems [OF that(1)] least [OF _ that(2)] least [OF mem, of l] lsi that(2) by auto
  then have "\<forall>l \<in> set (concat lss'). \<not> lexi asc l x" by auto
  ultimately show ?thesis using m sorted by blast
qed

lemma mergeBlocks_sorts:
  "list_all2 (rep fs) bs lss \<Longrightarrow> \<forall>l \<in> set (concat lss). newline \<notin> set l \<Longrightarrow>
   \<forall>ls \<in> set lss. sorted_wrt (\<lambda>a b. \<not> lexi asc b a) ls \<Longrightarrow>
   mergeBlocks asc fs bs = put_lines (std_sort (lexi asc) (concat lss))"
proof (induction "size (mset (concat lss))" arbitrary: bs lss rule: less_induct)
  case less
  show ?case
  proof (cases "bs = []")
    case True
    then show ?thesis using less.prems(1) by (simp add: mergeBlocks.simps put_lines_def)
  next
    case False
    obtain x bs' lss' where r: "merge_round asc fs bs = (x, bs')" "list_all2 (rep fs) bs' lss'"
      and m: "mset (concat lss) = add_mset x (mset (concat lss'))"
      and s: "\<forall>ls \<in> set lss'. sorted_wrt (\<lambda>a b. \<not> lexi asc b a) ls"
      and least: "\<forall>l \<in> set (concat lss'). \<not> lexi asc l x"
      using merge_round_spec [OF False less.prems] by blast
    have "set (concat lss) = insert x (set (concat lss'))"
      using arg_cong [OF m, of set_mset] by simp
    then have "\<forall>l \<in> set (concat lss'). newline \<notin> set l"
      using less.prems(2) by blast
    moreover have "size (mset (concat lss')) < size (mset (concat lss))" using m by simp
    ultimately have IH:
      "mergeBlocks asc fs bs' = put_lines (std_sort (lexi asc) (concat lss'))"
      using less.hyps r(2) s by blast
    have "x # std_sort (lexi asc) (concat lss') = std_sort (lexi asc) (concat lss)"
      using m least by (intro lexi.sort_characterised) (simp_all add: lexi.sorted_sort)
    moreover have "mergeBlocks asc fs bs = put_lines (x # std_sort (lexi asc) (concat lss'))"
      using r(1) False IH by (simp add: mergeBlocks.simps [of asc fs bs])
    ultimately show ?thesis by simp
  qed
qed

lemma input_lines_put_lines:
  "\<forall>l \<in> set ls. newline \<notin> set l \<Longrightarrow> input_lines (put_lines ls) = ls"
proof (induction ls)
  case (Cons l ls)
  have "newline \<notin> set l" using Cons.prems by simp
  then have "takeWhile (\<lambda>c. c \<noteq> newline) (l @ newline # r) = l"
    "dropWhile (\<lambda>c. c \<noteq> newline) (l @ newline # r) = newline # r" for r
    by (induction l) auto
  with Cons show ?case by (simp add: input_lines.simps [of "l @ newline # put_lines ls"])
qed (simp add: put_lines_def)

lemma mset_concat_cong: "mset xs = mset ys \<Longrightarrow> mset (concat (map f xs)) = mset (concat (map f ys))"
  by (simp add: mset_concat flip: sum_mset_sum_list)

lemma spilled_sub: "ls \<noteq> [] \<Longrightarrow> set (spilled asc tmp k ls) \<subseteq> set ls"
  using hd_in_set [of "std_sort (lexi asc) ls"] by (auto simp: spilled_def)

text \<open>The output: what the blocks spilled, sorted.\<close>

lemma sort_main_eq:
  fixes argv :: "string list" and input :: string
  assumes "inj (tmp_path tmp)"
  defines "asc \<equiv> ascending_arg argv" and "lss \<equiv> cut_lines BLOCK_SIZE [] 0 (input_lines input)"
  shows "sort_main tmp fs0 argv input =
    Some (put_lines (std_sort (lexi asc) (concat (map (\<lambda>k. spilled asc tmp k (lss ! k)) [0..<length lss]))))"
    "\<forall>l \<in> set (concat (map (\<lambda>k. spilled asc tmp k (lss ! k)) [0..<length lss])). newline \<notin> set l"
proof -
  have "0 < BLOCK_SIZE" by (simp add: BLOCK_SIZE_def mebibytes_def mul64_def)
  from sortedBlocks_spec [OF this assms(1), of asc fs0 input] obtain bl fs js where
    b: "sortedBlocks asc tmp BLOCK_SIZE fs0 input = Some (bl, fs)"
    "mset js = mset [0..<length lss]" "list_all2 (rep fs) bl (map (\<lambda>k. spilled asc tmp k (lss ! k)) js)" unfolding lss_def by blast
  let ?sp = "\<lambda>k. spilled asc tmp k (lss ! k)"
  have js: "set js = {0..<length lss}" using mset_eq_setD [OF b(2)] by simp
  have lss: "concat lss = input_lines input" "[] \<notin> set lss" by (simp_all add: lss_def concat_cut_lines cut_lines_ne)
  have sub: "l \<in> set (input_lines input)" if "k < length lss" "l \<in> set (?sp k)" for k l
  proof -
    have "l \<in> set (lss ! k)" using that spilled_sub lss(2) by (metis nth_mem subsetD)
    then show ?thesis using that(1) lss(1) by (metis UN_I nth_mem set_concat)
  qed
  then show nl: "\<forall>l \<in> set (concat (map ?sp [0..<length lss])). newline \<notin> set l" using input_lines_no_newline by fastforce
  then have "\<forall>l \<in> set (concat (map ?sp js)). newline \<notin> set l" using js by auto
  moreover have "\<forall>ls \<in> set (map ?sp js). sorted_wrt (\<lambda>a b. \<not> lexi asc b a) ls"
    by (auto simp: spilled_def lexi.sorted_sort)
  ultimately have "mergeBlocks asc fs bl = put_lines (std_sort (lexi asc) (concat (map ?sp js)))"
    by (rule mergeBlocks_sorts [OF b(3)])
  moreover have "std_sort (lexi asc) (concat (map ?sp js)) = std_sort (lexi asc) (concat (map ?sp [0..<length lss]))"
    using mset_concat_cong [OF b(2), of ?sp] by (intro lexi.sort_characterised) (simp_all add: lexi.sorted_sort)
  ultimately show "sort_main tmp fs0 argv input = Some (put_lines (std_sort (lexi asc) (concat (map ?sp [0..<length lss]))))"
    using b(1) by (simp add: sort_main_def asc_def Let_def)
qed

text \<open>What is spilled and what is lost make up the input.\<close>

definition lost :: "bool \<Rightarrow> tmp_files \<Rightarrow> nat \<Rightarrow> string list \<Rightarrow> string list" where
  "lost asc tmp n ls = (if tmp_ok tmp n then [] else tl (std_sort (lexi asc) ls))"

lemma spilled_lost: "ls \<noteq> [] \<Longrightarrow> mset (spilled asc tmp n ls) + mset (lost asc tmp n ls) = mset ls"
proof -
  assume "ls \<noteq> []"
  then obtain x xs where x: "std_sort (lexi asc) ls = x # xs"
    by (cases "std_sort (lexi asc) ls") (auto dest: arg_cong [where f = length])
  have "mset ls = mset (std_sort (lexi asc) ls)" by simp
  then show ?thesis unfolding x by (simp add: spilled_def lost_def x)
qed

lemma all_lines_accounted:
  "[] \<notin> set lss \<Longrightarrow> mset (concat (map (\<lambda>k. spilled asc tmp k (lss ! k)) [0..<length lss])) +
     mset (concat (map (\<lambda>k. lost asc tmp k (lss ! k)) [0..<length lss])) = mset (concat lss)"
proof (induction lss rule: rev_induct)
  case (snoc ls lss)
  let ?f = "\<lambda>g. concat (map (\<lambda>k. g k ((lss @ [ls]) ! k)) [0..<length (lss @ [ls])])"
  have "?f g = concat (map (\<lambda>k. g k (lss ! k)) [0..<length lss]) @ g (length lss) ls" for g :: "nat \<Rightarrow> string list \<Rightarrow> string list"
    by (auto simp: nth_append intro!: arg_cong [where f = concat])
  moreover have "ls \<noteq> []" using snoc.prems by auto
  ultimately show ?case using snoc spilled_lost [of ls asc tmp "length lss"] by (simp add: ac_simps del: upt_Suc length_append_singleton)
qed simp

text \<open>
  C4. When its temporary files have distinct names and all of them can be opened and written,
  the sort program ends without undefined behaviour and its output consists of exactly the
  lines of its input, each as often as it occurs there, in ascending byte-wise order, or
  descending after the argument \<open>-r\<close>.
\<close>

theorem sort_main_sorts:
  assumes "inj (tmp_path tmp)" "\<forall>n. tmp_ok tmp n"
  shows "\<exists>text. sort_main tmp fs0 argv input = Some text \<and>
           mset (input_lines text) = mset (input_lines input) \<and>
           sorted_wrt (\<lambda>a b. \<not> lexi (ascending_arg argv) b a) (input_lines text)"
proof -
  note eq = sort_main_eq [OF assms(1), where argv = argv and input = input]
  let ?lss = "cut_lines BLOCK_SIZE [] 0 (input_lines input)"
  let ?ls = "concat (map (\<lambda>k. spilled (ascending_arg argv) tmp k (?lss ! k)) [0..<length ?lss])"
  have "input_lines (put_lines (std_sort (lexi (ascending_arg argv)) ?ls)) = std_sort (lexi (ascending_arg argv)) ?ls"
    using eq(2) by (intro input_lines_put_lines) simp
  moreover have "mset ?ls = mset (input_lines input)"
    using all_lines_accounted [of ?lss "ascending_arg argv" tmp] assms(2)
    by (simp add: cut_lines_ne concat_cut_lines lost_def map_replicate_const)
  ultimately show ?thesis using eq(1) by (simp add: lexi.sorted_sort)
qed

text \<open>Temporary files that work: the names \<open>a\<close>, \<open>aa\<close>, \<open>aaa\<close> and so on.\<close>

definition good_files :: tmp_files where
  "good_files = \<lparr>tmp_path = (\<lambda>n. replicate (Suc n) CHR ''a''), tmp_ok = (\<lambda>n. True)\<rparr>"

lemma replicate_inj: "inj (\<lambda>n. replicate (Suc n) c)"
  by (rule injI) (metis length_replicate Suc_inject)

theorem sort_main_sorts_witness:
  "inj (tmp_path good_files) \<and> (\<forall>n. tmp_ok good_files n) \<and>
   (\<exists>text. sort_main good_files (\<lambda>p. []) [''sort'', ''-r''] ''pear'' = Some text \<and>
      mset (input_lines text) = mset (input_lines ''pear'') \<and>
      sorted_wrt (\<lambda>a b. \<not> lexi (ascending_arg [''sort'', ''-r'']) b a) (input_lines text))"
proof -
  have "inj (tmp_path good_files)" "\<forall>n. tmp_ok good_files n" by (simp_all add: good_files_def replicate_inj del: replicate_Suc)
  then show ?thesis using sort_main_sorts [of good_files] by blast
qed



end
