(* ===== verification/Alloc_Common.thy ===== *)
theory Alloc_Common
  imports Prelude
begin

text \<open>
  The ground the allocator of \<open>task5-memory\<close> stands on: the configuration constants of
  \<open>common.h\<close>, \<open>align_up\<close>, and the operating system underneath. The process memory is a
  function from addresses to bytes together with the pages that are mapped. Which address
  \<open>mmap\<close> chooses, and whether it fails, is the parameter \<open>pick\<close>: it sees the number of
  calls made so far, the mapped pages and the length, so any history-dependent kernel is
  an instance. \<open>mmap_fresh\<close> is what its manual page promises.
\<close>

section \<open>Configuration\<close>

definition PAGE_SIZE :: nat where "PAGE_SIZE = 4096"
definition ALLOCATION_GRANULARITY :: nat where "ALLOCATION_GRANULARITY = 16"
definition BUDDY_ALLOCATOR_DEPTH :: nat where "BUDDY_ALLOCATOR_DEPTH = 9"

definition BUDDY_ALLOCATOR_NODE_COUNT :: nat where
  "BUDDY_ALLOCATOR_NODE_COUNT = 2 ^ BUDDY_ALLOCATOR_DEPTH - 1"

definition BUDDY_ALLOCATOR_BITMAP_SIZE :: nat where
  "BUDDY_ALLOCATOR_BITMAP_SIZE = (BUDDY_ALLOCATOR_NODE_COUNT + 7) div 8"

definition BUDDY_ALLOCATOR_MAXIMAL_ALLOCATION :: nat where
  "BUDDY_ALLOCATOR_MAXIMAL_ALLOCATION = ALLOCATION_GRANULARITY * 2 ^ (BUDDY_ALLOCATOR_DEPTH - 1)"

definition SLOT_ALLOCATOR_SIZE :: nat where "SLOT_ALLOCATOR_SIZE = 32 * PAGE_SIZE"
definition SLOT_ALLOCATOR_THRESHOLD :: nat where "SLOT_ALLOCATOR_THRESHOLD = 500"
definition SLOT_ALLOCATOR_SLOT_SIZE :: nat where "SLOT_ALLOCATOR_SLOT_SIZE = 512"

definition DIRECT_ALLOCATION_THRESHOLD :: nat where
  "DIRECT_ALLOCATION_THRESHOLD = 2 * PAGE_SIZE"

lemmas config_defs =
  PAGE_SIZE_def ALLOCATION_GRANULARITY_def BUDDY_ALLOCATOR_DEPTH_def
  BUDDY_ALLOCATOR_NODE_COUNT_def BUDDY_ALLOCATOR_BITMAP_SIZE_def
  BUDDY_ALLOCATOR_MAXIMAL_ALLOCATION_def SLOT_ALLOCATOR_SIZE_def
  SLOT_ALLOCATOR_THRESHOLD_def SLOT_ALLOCATOR_SLOT_SIZE_def DIRECT_ALLOCATION_THRESHOLD_def

section \<open>Alignment\<close>

definition align_up :: "u64 \<Rightarrow> u64 \<Rightarrow> u64" where
  "align_up address alignment = (address + (alignment - 1)) AND (- alignment)"

text \<open>Clearing the low bits subtracts them.\<close>

lemma word_and_minus_exp:
  fixes x :: u64
  shows "unat (x AND - (2 ^ k)) = unat x - unat x mod 2 ^ k"
proof -
  have "x AND - (2 ^ k) = x AND NOT (mask k)" by (simp only: minus_exp_eq_not_mask)
  moreover have split: "(x AND NOT (mask k)) + (x AND mask k) = x"
    by (simp add: disjunctive_add_eq_or bit_simps bit_eq_iff) blast
  moreover have "unat (x AND mask k) = unat x mod 2 ^ k"
    by (simp add: unsigned_take_bit_eq take_bit_nat_def flip: take_bit_eq_mask)
  moreover have "(x AND mask k) \<le> x" by (rule word_and_le2)
  ultimately show ?thesis
    by (metis add_diff_cancel_right' unat_sub)
qed

section \<open>Memory and pages\<close>

record os =
  os_clock :: nat
  os_pages :: "nat \<Rightarrow> bool"
  os_mem :: "nat \<Rightarrow> u8"

type_synonym picker = "nat \<Rightarrow> (nat \<Rightarrow> bool) \<Rightarrow> nat \<Rightarrow> nat option"

definition in_region :: "nat \<Rightarrow> nat \<Rightarrow> nat \<Rightarrow> bool" where
  "in_region a n x \<longleftrightarrow> a \<le> x \<and> x < a + n"

definition page_in :: "nat \<Rightarrow> nat \<Rightarrow> nat \<Rightarrow> bool" where
  "page_in a n p \<longleftrightarrow> 0 < n \<and> a div 4096 \<le> p \<and> p \<le> (a + n - 1) div 4096"

text \<open>Two memory regions have no byte in common.\<close>

definition apart :: "nat \<times> nat \<Rightarrow> nat \<times> nat \<Rightarrow> bool" where
  "apart r s \<longleftrightarrow> fst r + snd r \<le> fst s \<or> fst s + snd s \<le> fst r"

lemma apart_sym: "apart r s \<longleftrightarrow> apart s r"
  by (auto simp: apart_def)

lemma apart_no_common_byte:
  "apart (a, n) (b, m) \<Longrightarrow> in_region a n x \<Longrightarrow> \<not> in_region b m x"
  by (auto simp: apart_def in_region_def)

text \<open>\<open>memcpy\<close> between overlapping regions is undefined in C: the model then has no result.\<close>

definition memcpy :: "nat \<Rightarrow> nat \<Rightarrow> nat \<Rightarrow> (nat \<Rightarrow> u8) \<Rightarrow> (nat \<Rightarrow> u8) option" where
  "memcpy dst src n h =
     (if apart (dst, n) (src, n)
      then Some (\<lambda>x. if in_region dst n x then h (src + (x - dst)) else h x)
      else None)"

lemma memcpy_apart:
  assumes "apart (dst, n) (src, n)"
  obtains h' where "memcpy dst src n h = Some h'" "\<And>i. i < n \<Longrightarrow> h' (dst + i) = h (src + i)"
    "\<And>x. \<not> in_region dst n x \<Longrightarrow> h' x = h x"
proof -
  let ?h = "\<lambda>x. if in_region dst n x then h (src + (x - dst)) else h x"
  have "memcpy dst src n h = Some ?h" using assms by (simp add: memcpy_def)
  then show thesis by (rule that) (auto simp: in_region_def)
qed

definition memset :: "nat \<Rightarrow> u8 \<Rightarrow> nat \<Rightarrow> (nat \<Rightarrow> u8) \<Rightarrow> (nat \<Rightarrow> u8)" where
  "memset dst c n h = (\<lambda>x. if in_region dst n x then c else h x)"

text \<open>\<open>mmap\<close> hands out zeroed pages or fails; \<open>request_page\<close> turns failure into NULL, address 0.\<close>

definition request_page :: "picker \<Rightarrow> nat \<Rightarrow> os \<Rightarrow> nat \<times> os" where
  "request_page pick len w =
     (case pick (os_clock w) (os_pages w) len of
        None \<Rightarrow> (0, w\<lparr>os_clock := Suc (os_clock w)\<rparr>)
      | Some a \<Rightarrow>
          (a, w\<lparr>os_clock := Suc (os_clock w),
                os_pages := (\<lambda>p. page_in a len p \<or> os_pages w p),
                os_mem := (\<lambda>x. if page_in a len (x div 4096) then 0 else os_mem w x)\<rparr>))"

text \<open>\<open>munmap\<close> refuses an unaligned address or an empty range, and \<open>release_page\<close> ignores that.\<close>

definition release_page :: "nat \<Rightarrow> nat \<Rightarrow> os \<Rightarrow> os" where
  "release_page pointer len w =
     (if pointer mod 4096 = 0
      then w\<lparr>os_pages := (\<lambda>p. os_pages w p \<and> \<not> page_in pointer len p)\<rparr>
      else w)"

definition mmap_fresh :: "picker \<Rightarrow> bool" where
  "mmap_fresh pick \<longleftrightarrow>
     (\<forall>t pages n a. pick t pages n = Some a \<longrightarrow>
        0 < n \<and> a mod 4096 = 0 \<and> 0 < a \<and> a + n \<le> 2 ^ 47 \<and>
        (\<forall>p. page_in a n p \<longrightarrow> \<not> pages p))"

lemma request_page_fresh:
  assumes "mmap_fresh pick" "request_page pick n w = (a, w')" "a \<noteq> 0"
  shows "a mod 4096 = 0" "a + n \<le> 2 ^ 47" "page_in a n p \<Longrightarrow> \<not> os_pages w p"
    "os_pages w' = (\<lambda>p. page_in a n p \<or> os_pages w p)"
    "os_mem w' x = (if page_in a n (x div 4096) then 0 else os_mem w x)" "0 < n"
proof -
  have p: "pick (os_clock w) (os_pages w) n = Some a"
    using assms(2,3) by (auto simp: request_page_def split: option.splits)
  from assms(1) p have f: "0 < n" "a mod 4096 = 0" "a + n \<le> 2 ^ 47"
    "\<forall>p. page_in a n p \<longrightarrow> \<not> os_pages w p"
    unfolding mmap_fresh_def by blast+
  show "a mod 4096 = 0" "a + n \<le> 2 ^ 47" "page_in a n p \<Longrightarrow> \<not> os_pages w p" "0 < n"
    using f by auto
  show "os_pages w' = (\<lambda>p. page_in a n p \<or> os_pages w p)"
    "os_mem w' x = (if page_in a n (x div 4096) then 0 else os_mem w x)"
    using assms(2) p by (auto simp: request_page_def)
qed

lemma request_page_null:
  assumes "request_page pick n w = (0, w')" "mmap_fresh pick"
  shows "os_pages w' = os_pages w" "os_mem w' = os_mem w"
  using assms by (auto simp: request_page_def mmap_fresh_def split: option.splits)

lemma aligned_page: "p mod 4096 = 0 \<Longrightarrow> \<exists>k. (p::nat) = 4096 * k"
  by (auto simp: dvd_def)

lemma page_in_one: "p mod 4096 = 0 \<Longrightarrow> page_in p 4096 = (\<lambda>x. x = p div 4096)"
proof -
  assume "p mod 4096 = 0"
  then obtain k where "p = 4096 * k" using aligned_page by blast
  then show ?thesis by (auto simp: page_in_def)
qed

lemma aligned_div: "p mod 4096 = 0 \<Longrightarrow> p \<le> x \<Longrightarrow> x < p + 4096 \<Longrightarrow> x div 4096 = p div (4096::nat)"
proof -
  assume "p mod 4096 = 0" "p \<le> x" "x < p + 4096"
  then obtain k where "p = 4096 * k" using aligned_page by blast
  then show ?thesis using \<open>p \<le> x\<close> \<open>x < p + 4096\<close> by (simp add: div_nat_eqI)
qed

lemma aligned_apart:
  assumes "p mod 4096 = 0" "p' mod 4096 = 0" "p \<noteq> p'"
  shows "p + 4096 \<le> p' \<or> p' + 4096 \<le> (p::nat)"
proof -
  obtain k k' where k: "p = 4096 * k" "p' = 4096 * k'" using aligned_page assms(1,2) by blast
  then have "k < k' \<or> k' < k" using assms(3) by auto
  then show ?thesis using k by auto
qed

text \<open>New mappings leave everything that is mapped alone.\<close>

definition os_extends :: "os \<Rightarrow> os \<Rightarrow> bool" where
  "os_extends w w' \<longleftrightarrow> (\<forall>p. os_pages w p \<longrightarrow> os_pages w' p) \<and>
     (\<forall>x. os_pages w (x div 4096) \<longrightarrow> os_mem w' x = os_mem w x)"

lemma os_extends_refl: "os_extends w w"
  by (simp add: os_extends_def)

lemma os_extends_trans: "os_extends w w' \<Longrightarrow> os_extends w' w'' \<Longrightarrow> os_extends w w''"
  by (auto simp: os_extends_def)

lemma request_page_extends:
  assumes "mmap_fresh pick" "request_page pick n w = (p, w')"
  shows "os_extends w w'"
proof (cases "p = 0")
  case True
  then show ?thesis using request_page_null [of pick n w w'] assms by (simp add: os_extends_def)
next
  case False
  then show ?thesis using request_page_fresh [OF assms False] by (auto simp: os_extends_def)
qed

lemma request_page_one:
  assumes "mmap_fresh pick" "request_page pick 4096 w = (p, w')" "p \<noteq> 0"
  shows "p mod 4096 = 0" "\<not> os_pages w (p div 4096)" "os_pages w' = (os_pages w)(p div 4096 := True)"
proof -
  show p: "p mod 4096 = 0" using request_page_fresh(1) [OF assms] .
  then have in1: "page_in p 4096 = (\<lambda>x. x = p div 4096)" by (rule page_in_one)
  show "\<not> os_pages w (p div 4096)" using request_page_fresh(3) [OF assms, of "p div 4096"] in1 by simp
  show "os_pages w' = (os_pages w)(p div 4096 := True)"
    using request_page_fresh(4) [OF assms] in1 by (auto simp: fun_eq_iff)
qed

text \<open>Regions that overlap share a page, so memory on fresh pages is apart from what is mapped.\<close>

lemma overlap_shares_page:
  assumes "\<not> apart (a, n) (b, m)" "0 < n" "0 < m"
  shows "\<exists>p. page_in a n p \<and> page_in b m p"
proof -
  have x: "a \<le> max a b" "max a b \<le> a + n - 1" "b \<le> max a b" "max a b \<le> b + m - 1" "0 < n" "0 < m"
    using assms by (auto simp: apart_def)
  then have "page_in a n (max a b div 4096)" "page_in b m (max a b div 4096)"
    unfolding page_in_def by (intro conjI div_le_mono; simp)+
  then show ?thesis by blast
qed

section \<open>A kernel\<close>

text \<open>
  The interface the allocators rely on. \<open>bump_pick\<close> is a concrete kernel that satisfies it:
  call \<open>t\<close> gets a window of 256 pages of its own, as long as the request fits and the window
  is unmapped.
\<close>

locale kernel =
  fixes pick :: picker
  assumes fresh: "mmap_fresh pick"
begin

lemma request_extends: "request_page pick n w = (p, w') \<Longrightarrow> os_extends w w'"
  by (rule request_page_extends [OF fresh])

end

definition bump_pick :: picker where
  "bump_pick t pages n =
     (let a = 1 + 256 * t in
      if 0 < n \<and> n \<le> 256 * 4096 \<and> t < 2 ^ 10 \<and> list_all (\<lambda>p. \<not> pages p) [a..<a + 256]
      then Some (4096 * a) else None)"

definition boot_os :: os where
  "boot_os = \<lparr>os_clock = 0, os_pages = (\<lambda>p. False), os_mem = (\<lambda>x. 0)\<rparr>"

lemma bump_fresh: "mmap_fresh bump_pick"
  unfolding mmap_fresh_def
proof (intro allI impI)
  fix t pages n a assume p: "bump_pick t pages n = Some a"
  let ?b = "1 + 256 * t"
  from p have a: "a = 4096 * ?b" "0 < n" "n \<le> 256 * 4096" "t < 2 ^ 10" "\<forall>p \<in> set [?b..<?b + 256]. \<not> pages p"
    by (auto simp: bump_pick_def Let_def list_all_iff split: if_splits)
  have "\<not> pages q" if "page_in a n q" for q
  proof -
    have "(a + n - 1) div 4096 \<le> (4096 * (?b + 255) + 4095) div 4096" using a by (intro div_le_mono) auto
    also have "\<dots> = ?b + 255" by simp
    finally show ?thesis using that a by (auto simp: page_in_def)
  qed
  then show "0 < n \<and> a mod 4096 = 0 \<and> 0 < a \<and> a + n \<le> 2 ^ 47 \<and> (\<forall>p. page_in a n p \<longrightarrow> \<not> pages p)"
    using a by auto
qed

interpretation bump: kernel bump_pick
  by unfold_locales (rule bump_fresh)

lemma align_up_next:
  assumes "k < 64" "unat address + (2 ^ k - 1) < 2 ^ 64"
  shows "unat (align_up address (2 ^ k)) mod 2 ^ k = 0 \<and>
         unat address \<le> unat (align_up address (2 ^ k)) \<and>
         unat (align_up address (2 ^ k)) < unat address + 2 ^ k"
proof -
  define x where "x = address + (2 ^ k - 1)"
  have "(2 ^ k - 1 :: u64) = of_nat (2 ^ k - 1)" by (simp add: of_nat_diff)
  moreover have "(2::nat) ^ k - 1 < 2 ^ LENGTH(64)"
    using assms(2) by simp
  ultimately have "unat (2 ^ k - 1 :: u64) = 2 ^ k - 1"
    by (simp only: unat_of_nat mod_less)
  then have x: "unat x = unat address + (2 ^ k - 1)"
    using assms(2) by (simp add: x_def unat_word_ariths)
  have r: "unat (align_up address (2 ^ k)) = unat x - unat x mod 2 ^ k"
    by (simp add: align_up_def x_def [symmetric] word_and_minus_exp)
  have lt: "unat x mod 2 ^ k < 2 ^ k" "unat x mod 2 ^ k \<le> unat x" "(0::nat) < 2 ^ k" by simp_all
  have "(unat x - unat x mod 2 ^ k) mod 2 ^ k = 0" by (simp add: minus_mod_eq_mult_div)
  moreover have "unat address \<le> unat x - unat x mod 2 ^ k"
    "unat x - unat x mod 2 ^ k < unat address + 2 ^ k"
    using lt x by linarith+
  ultimately show ?thesis unfolding r by blast
qed

text \<open>
  For a power of two, \<open>align_up\<close> rounds an address up to the next multiple of the
  alignment whenever that does not exceed the 64-bit range.
\<close>

theorem align_up_rounds:
  assumes "k < 64" "unat address + (2 ^ k - 1) < 2 ^ 64"
  shows "unat (align_up address (2 ^ k)) mod 2 ^ k = 0 \<and>
         unat address \<le> unat (align_up address (2 ^ k)) \<and>
         unat (align_up address (2 ^ k)) < unat address + 2 ^ k"
  using assms by (rule align_up_next)

theorem align_up_rounds_witness:
  "(12::nat) < 64 \<and> unat (5000::u64) + (2 ^ 12 - 1) < 2 ^ 64 \<and>
   unat (align_up 5000 (2 ^ 12)) mod 2 ^ 12 = 0 \<and>
   unat (5000::u64) \<le> unat (align_up 5000 (2 ^ 12)) \<and>
   unat (align_up 5000 (2 ^ 12)) < unat (5000::u64) + 2 ^ 12"
  using align_up_rounds [of 12 5000] by simp

end
