(* ===== verification/Buddy_Allocator.thy ===== *)
theory Buddy_Allocator
  imports Complex_Main Alloc_Common
begin

text \<open>
  The buddy allocator of \<open>task5-memory/src/buddy_allocator.c\<close>: one page of 4096 bytes,
  managed by a complete binary tree of 511 nodes whose mark bits are kept in a bitmap of
  64 bytes. Every function of the file is modelled on that bitmap, with reads and writes
  outside it as an explicit failure: a value \<open>None\<close> means that the C code accesses the
  bitmap out of bounds or does not return.

  The proofs work on the set of marked nodes. A node that is marked and has no marked
  child is an allocation; the invariant says that the marks are closed under parents.
\<close>

section \<open>The bitmap\<close>

record BuddyAllocator =
  page :: nat
  nodes :: bytes

definition place :: "nat \<Rightarrow> u8" where
  "place i = push_bit (i mod 8) 1"

definition is_marked :: "bytes \<Rightarrow> nat \<Rightarrow> bool option" where
  "is_marked ns i =
     (if i div 8 < length ns then Some (ns ! (i div 8) AND place i \<noteq> 0) else None)"

definition mark :: "bytes \<Rightarrow> nat \<Rightarrow> bytes option" where
  "mark ns i =
     (if i div 8 < length ns then Some (ns[i div 8 := ns ! (i div 8) OR place i]) else None)"

definition unmark :: "bytes \<Rightarrow> nat \<Rightarrow> bytes option" where
  "unmark ns i =
     (if i div 8 < length ns then Some (ns[i div 8 := ns ! (i div 8) AND NOT (place i)]) else None)"

section \<open>The tree\<close>

definition bucket_size :: "nat \<Rightarrow> nat" where
  "bucket_size bucket =
     (if bucket \<ge> BUDDY_ALLOCATOR_DEPTH then 0
      else ALLOCATION_GRANULARITY * 2 ^ (BUDDY_ALLOCATOR_DEPTH - 1 - bucket))"

definition left :: "nat \<Rightarrow> nat" where
  "left i = 2 * i + 1"

definition right :: "nat \<Rightarrow> nat" where
  "right i = 2 * i + 2"

definition sibling :: "nat \<Rightarrow> nat" where
  "sibling i = add64 (sub64 i 1 XOR 1) 1"

definition parent :: "nat \<Rightarrow> nat" where
  "parent i = sub64 i 1 div 2"

definition is_left :: "nat \<Rightarrow> bool" where
  "is_left i \<longleftrightarrow> i < sibling i"

definition is_split :: "bytes \<Rightarrow> nat \<Rightarrow> nat \<Rightarrow> bool option" where
  "is_split ns i bucket =
     (if bucket < BUDDY_ALLOCATOR_DEPTH - 1
      then (case is_marked ns (left i) of
              None \<Rightarrow> None
            | Some l \<Rightarrow> if l then Some True else is_marked ns (right i))
      else Some False)"

definition node_to_pointer :: "BuddyAllocator \<Rightarrow> nat \<Rightarrow> nat \<Rightarrow> nat" where
  "node_to_pointer a i bucket =
     page a + ALLOCATION_GRANULARITY * (add64 (sub64 i (2 ^ bucket)) 1 * 2 ^ (BUDDY_ALLOCATOR_DEPTH - bucket - 1))"

lemma sub64_Suc [size_t_simps]: "0 < i \<Longrightarrow> sub64 i 1 = (i - 1) mod 2 ^ 64"
proof -
  assume "0 < i"
  then have "i + 2 ^ 64 - 1 mod 2 ^ 64 = (i - 1) + 2 ^ 64" by simp
  then show ?thesis by (simp only: sub64_def mod_add_self2)
qed

lemma not_is_left_pos: "\<not> is_left i \<Longrightarrow> 0 < i"
  by (rule ccontr) (simp add: is_left_def sibling_def sub64_def add64_def xor_one_eq)

lemma parent_less: "0 < i \<Longrightarrow> parent i < i"
proof -
  assume i: "0 < i"
  then have "parent i = (i - 1) mod 2 ^ 64 div 2"
    by (simp only: parent_def sub64_Suc)
  also have "\<dots> \<le> i - 1" by (meson div_le_dividend le_trans mod_less_eq_dividend)
  finally show ?thesis using i by linarith
qed

section \<open>Allocation\<close>

text \<open>The \<open>do ... while\<close> that climbs out of right children, with the test before it.\<close>

function climb :: "nat \<Rightarrow> nat \<Rightarrow> nat \<Rightarrow> nat \<times> nat \<times> nat" where
  "climb i page_offset bucket =
     (if is_left i then (i, page_offset, bucket)
      else climb (parent i) (sub64 page_offset (bucket_size bucket)) (sub64 bucket 1))"
  by pat_completeness auto
termination
  by (relation "measure (\<lambda>(i, page_offset, bucket). i)") (auto intro: parent_less not_is_left_pos)

text \<open>
  The search loop. The inner option is the outcome: the node, its bucket and its offset,
  or nothing when the tree has no room (the code returns NULL).
\<close>

partial_function (option) search ::
  "bytes \<Rightarrow> nat \<Rightarrow> nat \<Rightarrow> nat \<Rightarrow> nat \<Rightarrow> (nat \<times> nat \<times> nat) option option" where
  "search ns n i bucket page_offset =
     Option.bind (is_marked ns i) (\<lambda>m.
     Option.bind
       (if \<not> m then Some False
        else if n > bucket_size (bucket + 1) then Some True
        else map_option Not (is_split ns i bucket)) (\<lambda>skip.
     if skip
     then (case climb i page_offset bucket of (i', o', b') \<Rightarrow>
             if i' = 0 then Some None
             else search ns n (sibling i') b' (add64 o' (bucket_size b')))
     else if n \<le> bucket_size (bucket + 1)
     then search ns n (left i) (bucket + 1) page_offset
     else Some (Some (i, bucket, page_offset))))"

text \<open>Marking the chosen node and then every ancestor up to the root.\<close>

function mark_path :: "bytes \<Rightarrow> nat \<Rightarrow> bytes option" where
  "mark_path ns i =
     (case mark ns i of
        None \<Rightarrow> None
      | Some ns' \<Rightarrow> if i = 0 then Some ns' else mark_path ns' (parent i))"
  by pat_completeness auto
termination
  by (relation "measure (\<lambda>(ns, i). i)") (auto intro: parent_less)

definition buddy_allocator_allocate :: "BuddyAllocator \<Rightarrow> nat \<Rightarrow> (nat \<times> BuddyAllocator) option" where
  "buddy_allocator_allocate a n =
     (if n > BUDDY_ALLOCATOR_MAXIMAL_ALLOCATION then Some (0, a)
      else
        Option.bind (search (nodes a) n 0 0 0) (\<lambda>r.
        case r of
          None \<Rightarrow> Some (0, a)
        | Some (i, bucket, page_offset) \<Rightarrow>
            map_option (\<lambda>ns. (page a + page_offset, a\<lparr>nodes := ns\<rparr>)) (mark_path (nodes a) i)))"

section \<open>Deallocation\<close>

partial_function (option) find_buddy_loop ::
  "bytes \<Rightarrow> nat \<Rightarrow> nat \<Rightarrow> nat \<Rightarrow> nat \<Rightarrow> (nat \<times> nat) option" where
  "find_buddy_loop ns requested i bucket pointer =
     Option.bind (if pointer = requested then map_option Not (is_split ns i bucket) else Some False) (\<lambda>found.
     if found then Some (i, bucket)
     else if requested < pointer + bucket_size (bucket + 1)
     then find_buddy_loop ns requested (left i) (bucket + 1) pointer
     else find_buddy_loop ns requested (right i) (bucket + 1) (pointer + bucket_size (bucket + 1)))"

definition find_buddy :: "BuddyAllocator \<Rightarrow> nat \<Rightarrow> (nat \<times> nat) option" where
  "find_buddy a requested = find_buddy_loop (nodes a) requested 0 0 (page a)"

text \<open>Unmarking a node and, while its buddy is free too, its ancestors.\<close>

function merge_up :: "bytes \<Rightarrow> nat \<Rightarrow> bytes option" where
  "merge_up ns i =
     (case unmark ns i of
        None \<Rightarrow> None
      | Some ns' \<Rightarrow>
          if i = 0 then Some ns'
          else (case is_marked ns' (sibling i) of
                  None \<Rightarrow> None
                | Some m \<Rightarrow> if m then Some ns' else merge_up ns' (parent i)))"
  by pat_completeness auto
termination
  by (relation "measure (\<lambda>(ns, i). i)") (auto intro: parent_less)

definition buddy_allocator_deallocate :: "BuddyAllocator \<Rightarrow> nat \<Rightarrow> BuddyAllocator option" where
  "buddy_allocator_deallocate a requested =
     Option.bind (find_buddy a requested) (\<lambda>(i, bucket).
       map_option (\<lambda>ns. a\<lparr>nodes := ns\<rparr>) (merge_up (nodes a) i))"

section \<open>Reallocation\<close>

text \<open>
  Shrinking marks left children as long as the request fits the next bucket. The result
  tells whether the loop ran at all.
\<close>

function shrink_loop :: "bytes \<Rightarrow> nat \<Rightarrow> nat \<Rightarrow> nat \<Rightarrow> bool \<Rightarrow> (bytes \<times> bool) option" where
  "shrink_loop ns n i bucket shrunk =
     (if n \<le> bucket_size (bucket + 1) \<and> bucket < BUDDY_ALLOCATOR_DEPTH - 1
      then (case mark ns (left i) of
              None \<Rightarrow> None
            | Some ns' \<Rightarrow> shrink_loop ns' n (left i) (bucket + 1) True)
      else Some (ns, shrunk))"
  by pat_completeness auto
termination
  by (relation "measure (\<lambda>(ns, n, i, bucket, shrunk). BUDDY_ALLOCATOR_DEPTH - bucket)") auto

text \<open>
  Growing gives the node up and moves to the parent as long as the buddy is free. The
  inner option is the node that is large enough, or nothing when the buddy is in use.
\<close>

function grow_loop :: "bytes \<Rightarrow> nat \<Rightarrow> nat \<Rightarrow> nat \<Rightarrow> (bytes \<times> (nat \<times> nat) option) option" where
  "grow_loop ns n i bucket =
     (if bucket_size bucket \<ge> n then Some (ns, Some (i, bucket))
      else
        (case unmark ns i of
           None \<Rightarrow> None
         | Some ns' \<Rightarrow>
             if bucket = 0 then Some (ns', None)
             else (case is_marked ns' (sibling i) of
                     None \<Rightarrow> None
                   | Some m \<Rightarrow> if m then Some (ns', None)
                               else grow_loop ns' n (parent i) (bucket - 1))))"
  by pat_completeness auto
termination
  by (relation "measure (\<lambda>(ns, n, i, bucket). bucket)") auto

text \<open>
  \<open>buddy_allocator_reallocate\<close> returns the new pointer, the size of the old allocation
  (the out-parameter \<open>current_allocation_size\<close>), the allocator and the memory.
\<close>

definition buddy_allocator_reallocate ::
  "BuddyAllocator \<Rightarrow> nat \<Rightarrow> nat \<Rightarrow> (nat \<Rightarrow> u8) \<Rightarrow> (nat \<times> nat \<times> BuddyAllocator \<times> (nat \<Rightarrow> u8)) option" where
  "buddy_allocator_reallocate a requested n h =
     Option.bind (find_buddy a requested) (\<lambda>(i, bucket).
     let current = bucket_size bucket in
     Option.bind (shrink_loop (nodes a) n i bucket False) (\<lambda>(ns, shrunk).
     if shrunk then Some (requested, current, a\<lparr>nodes := ns\<rparr>, h)
     else if n \<le> current then Some (requested, current, a, h)
     else if n > BUDDY_ALLOCATOR_MAXIMAL_ALLOCATION then Some (0, current, a, h)
     else
       Option.bind (grow_loop ns n i bucket) (\<lambda>(ns', r).
       case r of
         Some (i', bucket') \<Rightarrow>
           (let new = node_to_pointer a i' bucket'
            in map_option (\<lambda>h'. (new, current, a\<lparr>nodes := ns'\<rparr>, h'))
                 (if new \<noteq> requested then memcpy new requested current h else Some h))
       | None \<Rightarrow>
           Option.bind (buddy_allocator_allocate (a\<lparr>nodes := ns'\<rparr>) n) (\<lambda>(new, a').
           if new = 0 then Some (0, current, a', h)
           else map_option (\<lambda>h'. (new, current, a', h')) (memcpy new requested current h)))))"

section \<open>Statistics\<close>

function usage_recurse :: "bytes \<Rightarrow> nat \<Rightarrow> nat \<Rightarrow> nat option" where
  "usage_recurse ns i bucket =
     (case is_split ns i bucket of
        None \<Rightarrow> None
      | Some True \<Rightarrow>
          (case (usage_recurse ns (left i) (bucket + 1), usage_recurse ns (right i) (bucket + 1)) of
             (Some l, Some r) \<Rightarrow> Some (l + r)
           | _ \<Rightarrow> None)
      | Some False \<Rightarrow>
          map_option (\<lambda>m. if m then bucket_size bucket else 0) (is_marked ns i))"
  by pat_completeness auto
termination
  by (relation "measure (\<lambda>(ns, i, bucket). BUDDY_ALLOCATOR_DEPTH - bucket)")
    (auto simp: is_split_def split: if_splits)

definition usage :: "bytes \<Rightarrow> nat option" where
  "usage ns = usage_recurse ns 0 0"

definition buddy_allocator_utilization :: "BuddyAllocator \<Rightarrow> real option" where
  "buddy_allocator_utilization a =
     map_option (\<lambda>u. real u / real BUDDY_ALLOCATOR_BITMAP_SIZE) (usage (nodes a))"

declare search.simps [code] find_buddy_loop.simps [code]

declare climb.simps [simp del] mark_path.simps [simp del] merge_up.simps [simp del]
  shrink_loop.simps [simp del] grow_loop.simps [simp del] usage_recurse.simps [simp del]


section \<open>Bits as sets\<close>

definition marks :: "bytes \<Rightarrow> nat set" where
  "marks ns = {i. i div 8 < length ns \<and> bit (ns ! (i div 8)) (i mod 8)}"

lemma and_place_iff: "(w AND place i \<noteq> 0) \<longleftrightarrow> bit w (i mod 8)"
  unfolding place_def by (simp add: and_exp_eq_0_iff_not_bit push_bit_eq_mult mult.commute)

lemma bit_place: "bit (place i) n \<longleftrightarrow> n = i mod 8"
  by (auto simp: place_def bit_simps)

lemma is_marked_marks: "i div 8 < length ns \<Longrightarrow> is_marked ns i = Some (i \<in> marks ns)"
  by (simp add: is_marked_def marks_def and_place_iff)

lemma bit_index_eq: "j = i \<longleftrightarrow> j div 8 = i div 8 \<and> j mod 8 = i mod (8::nat)"
  by (metis div_mult_mod_eq)

lemma mark_marks:
  assumes "i div 8 < length ns"
  shows "\<exists>ns'. mark ns i = Some ns' \<and> marks ns' = insert i (marks ns) \<and> length ns' = length ns"
proof -
  have "j \<in> marks (ns[i div 8 := ns ! (i div 8) OR place i]) \<longleftrightarrow> j \<in> insert i (marks ns)" for j
    using assms bit_index_eq [of j i]
    by (cases "j div 8 = i div 8") (auto simp: marks_def bit_or_iff bit_place)
  then have "marks (ns[i div 8 := ns ! (i div 8) OR place i]) = insert i (marks ns)"
    by blast
  then show ?thesis using assms by (simp add: mark_def)
qed

lemma unmark_marks:
  assumes "i div 8 < length ns"
  shows "\<exists>ns'. unmark ns i = Some ns' \<and> marks ns' = marks ns - {i} \<and> length ns' = length ns"
proof -
  have "j \<in> marks (ns[i div 8 := ns ! (i div 8) AND NOT (place i)]) \<longleftrightarrow> j \<in> marks ns - {i}" for j
    using assms bit_index_eq [of j i]
    by (cases "j div 8 = i div 8") (auto simp: marks_def bit_and_iff bit_not_iff bit_place)
  then have "marks (ns[i div 8 := ns ! (i div 8) AND NOT (place i)]) = marks ns - {i}"
    by blast
  then show ?thesis using assms by (simp add: unmark_def)
qed

section \<open>Levels and positions\<close>

text \<open>The node at position \<open>k\<close> of level \<open>b\<close>; the level is what the code calls a bucket.\<close>

definition node :: "nat \<Rightarrow> nat \<Rightarrow> nat" where
  "node b k = 2 ^ b - 1 + k"

definition bsz :: "nat \<Rightarrow> nat" where
  "bsz b = 16 * 2 ^ (8 - b)"

lemma bucket_size_bsz [node_simps]: "b \<le> 8 \<Longrightarrow> bucket_size b = bsz b"
  by (simp add: bucket_size_def config_defs bsz_def)

lemma bucket_size_9 [node_simps]: "8 < b \<Longrightarrow> bucket_size b = 0"
  by (simp add: bucket_size_def config_defs)

lemma bsz_pos [simp]: "0 < bsz b"
  by (simp add: bsz_def)

lemma bsz_neq_0 [simp]: "bsz b \<noteq> 0"
  by (simp add: bsz_def)

lemma bsz_Suc: "b < 8 \<Longrightarrow> bsz b = 2 * bsz (Suc b)"
proof -
  assume "b < 8"
  then have "8 - b = Suc (8 - Suc b)" by simp
  then show ?thesis by (simp add: bsz_def)
qed

lemma bsz_le: "b \<le> c \<Longrightarrow> bsz c \<le> bsz b"
  by (simp add: bsz_def)

lemma bsz_level: "b \<le> 8 \<Longrightarrow> 2 ^ b * bsz b = 4096"
proof -
  assume "b \<le> 8"
  then have "2 ^ b * (2::nat) ^ (8 - b) = 2 ^ 8" by (simp flip: power_add)
  then show ?thesis by (simp add: bsz_def)
qed

lemma bsz_below: "b \<le> c \<Longrightarrow> c \<le> 8 \<Longrightarrow> bsz b = 2 ^ (c - b) * bsz c"
proof -
  assume "b \<le> c" "c \<le> 8"
  then have "8 - b = (c - b) + (8 - c)" by simp
  then show ?thesis by (simp add: bsz_def power_add)
qed

lemma pow_level: "b \<le> 8 \<Longrightarrow> (2::nat) ^ b \<le> 256"
  using power_increasing [of b 8 "2::nat"] by simp

lemma node_bound: "b \<le> 8 \<Longrightarrow> k < 2 ^ b \<Longrightarrow> node b k < 511"
  using pow_level [of b] by (simp add: node_def)

lemma Suc_node: "Suc (node b k) = 2 ^ b + k"
  by (simp add: node_def)

lemma node_left [node_simps]: "left (node b k) = node (Suc b) (2 * k)"
  using Suc_node [of b k] Suc_node [of "Suc b" "2 * k"] by (simp add: left_def)

lemma node_right [node_simps]: "right (node b k) = node (Suc b) (2 * k + 1)"
  using Suc_node [of b k] Suc_node [of "Suc b" "2 * k + 1"] by (simp add: right_def)

lemma node_0 [node_simps]: "node 0 0 = 0"
  by (simp add: node_def)

lemma node_Suc_pos: "0 < node (Suc b) k"
  using Suc_node [of "Suc b" k] one_le_power [of "2::nat" b] unfolding power_Suc by linarith

lemma node_eq_0: "k < 2 ^ b \<Longrightarrow> node b k = 0 \<longleftrightarrow> b = 0"
  using node_Suc_pos [of "b - 1" k] by (cases b) (auto simp: node_def)

lemma node_Suc_odd: "node (Suc b) k - 1 = 2 * (2 ^ b - 1) + k"
  using Suc_node [of "Suc b" k] one_le_power [of "2::nat" b] unfolding power_Suc by linarith

lemma node_Suc_eq: "node (Suc b) k = 2 * (2 ^ b - 1) + k + 1"
  using node_Suc_odd [of b k] node_Suc_pos [of b k] by linarith

lemma node_parent [node_simps]:
  assumes "b < 8" "k < 2 ^ Suc b"
  shows "parent (node (Suc b) k) = node b (k div 2)"
proof -
  have "node (Suc b) k < 511" using assms by (intro node_bound) auto
  then have "sub64 (node (Suc b) k) 1 = node (Suc b) k - 1"
    by (intro sub64_exact) (use node_Suc_pos [of b k] in auto)
  then have "parent (node (Suc b) k) = (2 * (2 ^ b - 1) + k) div 2"
    unfolding parent_def by (simp only: node_Suc_odd)
  then show ?thesis by (simp add: node_def)
qed

lemma node_sibling [node_simps]:
  assumes "b < 8" "k < 2 ^ Suc b"
  shows "sibling (node (Suc b) k) = node (Suc b) (if even k then k + 1 else k - 1)"
proof -
  have lt: "node (Suc b) k < 511" using assms by (intro node_bound) auto
  then have "sub64 (node (Suc b) k) 1 = 2 * (2 ^ b - 1) + k"
    by (subst sub64_exact) (use node_Suc_pos [of b k] node_Suc_odd [of b k] in auto)
  moreover have "(2 * (2 ^ b - 1) + k) XOR 1 = 2 * (2 ^ b - 1) + (if even k then k + 1 else k - 1)"
    by (auto simp: xor_nat_numerals xor_Suc_0_eq elim: oddE)
  ultimately have "sibling (node (Suc b) k) = add64 (2 * (2 ^ b - 1) + (if even k then k + 1 else k - 1)) 1"
    by (simp only: sibling_def)
  also have "\<dots> = 2 * (2 ^ b - 1) + (if even k then k + 1 else k - 1) + 1"
    using lt node_Suc_odd [of b k] by (intro add64_exact) (auto split: if_splits)
  finally show ?thesis by (simp only: node_Suc_eq)
qed

lemma node_is_left [node_simps]:
  assumes "b \<le> 8" "k < 2 ^ b"
  shows "is_left (node b k) \<longleftrightarrow> b = 0 \<or> even k"
proof (cases b)
  case 0
  then have "node b k = 0" using assms by (simp add: node_def)
  then show ?thesis using not_is_left_pos [of 0] 0 by auto
next
  case (Suc c)
  have "is_left (node b k) \<longleftrightarrow> node b k < node b (if even k then k + 1 else k - 1)"
    using assms Suc node_sibling [of c k] by (simp add: is_left_def)
  also have "\<dots> \<longleftrightarrow> even k" by (auto simp: node_def elim: oddE)
  finally show ?thesis using Suc by simp
qed

lemma node_inj:
  assumes "node b k = node c l" "k < 2 ^ b" "l < 2 ^ c"
  shows "b = c \<and> k = l"
proof -
  have b: "2 ^ b \<le> node b k + 1" "node b k + 1 < 2 ^ Suc b" using assms(2) by (simp_all add: node_def)
  have c: "2 ^ c \<le> node c l + 1" "node c l + 1 < 2 ^ Suc c" using assms(3) by (simp_all add: node_def)
  from b c assms(1) have "(2::nat) ^ b < 2 ^ Suc c" "(2::nat) ^ c < 2 ^ Suc b" by linarith+
  then have "b < Suc c" "c < Suc b" by (simp_all only: power_strict_increasing_iff one_less_numeral_iff semiring_norm)
  then have "b = c" by simp
  moreover have "2 ^ b + k = 2 ^ c + l" using assms(1) by (simp flip: Suc_node)
  ultimately show ?thesis by simp
qed

lemma node_exists: "i < 511 \<Longrightarrow> \<exists>b k. b \<le> 8 \<and> k < 2 ^ b \<and> i = node b k"
proof -
  assume i: "i < 511"
  obtain b where b: "2 ^ b \<le> Suc i" "Suc i < 2 ^ Suc b" using ex_power_ivl1 [of 2 "Suc i"] by auto
  have "b \<le> 8"
  proof (rule ccontr)
    assume "\<not> b \<le> 8"
    then have "(2::nat) ^ 9 \<le> 2 ^ b" by (intro power_increasing) auto
    then show False using b i by simp
  qed
  moreover have "i = node b (Suc i - 2 ^ b)" "Suc i - 2 ^ b < 2 ^ b"
    using b Suc_node [of b "Suc i - 2 ^ b"] by auto
  ultimately show ?thesis by blast
qed

lemma node_pointer [node_simps]:
  assumes "b \<le> 8" "k < 2 ^ b"
  shows "node_to_pointer a (node b k) b = page a + k * bsz b"
proof -
  have "node b k < 511" using assms by (rule node_bound)
  have "add64 (sub64 (node b k) (2 ^ b)) 1 = k"
  proof (cases "k = 0")
    case True
    then have "sub64 (node b k) (2 ^ b) = 2 ^ 64 - 1"
      using pow_level [OF assms(1)] by (simp add: sub64_def node_def)
    then show ?thesis using True by (simp add: add64_def)
  next
    case False
    then have "sub64 (node b k) (2 ^ b) = k - 1"
      using \<open>node b k < 511\<close> by (subst sub64_exact) (auto simp: node_def)
    then show ?thesis using False \<open>node b k < 511\<close> by (simp add: add64_def node_def)
  qed
  then show ?thesis by (simp add: node_to_pointer_def config_defs bsz_def)
qed

end
