(* ===== verification/Buddy_Tree.thy ===== *)
theory Buddy_Tree
  imports Buddy_Allocator
begin

text \<open>
  The buddy allocator seen as a tree. The marked nodes are closed under parents
  (\<open>tree_closed\<close>) and the leaves among them are the live allocations, which never overlap.
  The search of \<open>buddy_allocator_allocate\<close> finds the first block of the fitting level that is
  free, or there is none.
\<close>

section \<open>The mark tree\<close>

definition leaf :: "nat set \<Rightarrow> nat \<Rightarrow> nat \<Rightarrow> bool" where
  "leaf M b k \<longleftrightarrow> node b k \<in> M \<and>
     (b < 8 \<longrightarrow> node (Suc b) (2 * k) \<notin> M \<and> node (Suc b) (2 * k + 1) \<notin> M)"

definition tree_closed :: "nat set \<Rightarrow> bool" where
  "tree_closed M \<longleftrightarrow>
     (\<forall>b < 8. \<forall>k < 2 ^ Suc b. node (Suc b) k \<in> M \<longrightarrow> node b (k div 2) \<in> M)"

text \<open>A block at level \<open>t\<close> can be handed out: it is unmarked and not inside an allocation.\<close>

definition free_block :: "nat set \<Rightarrow> nat \<Rightarrow> nat \<Rightarrow> bool" where
  "free_block M t j \<longleftrightarrow> node t j \<notin> M \<and> (\<forall>b < t. \<not> leaf M b (j div 2 ^ (t - b)))"

definition buddy_inv :: "BuddyAllocator \<Rightarrow> bool" where
  "buddy_inv a \<longleftrightarrow> length (nodes a) = 64 \<and> marks (nodes a) \<subseteq> {..<511} \<and>
     tree_closed (marks (nodes a))"

text \<open>The leaves as positions in the tree, and as the memory regions they stand for.\<close>

definition leaves :: "nat set \<Rightarrow> (nat \<times> nat) set" where
  "leaves M = {(b, k). b \<le> 8 \<and> k < 2 ^ b \<and> leaf M b k}"

definition region :: "nat \<Rightarrow> nat \<times> nat \<Rightarrow> nat \<times> nat" where
  "region p = (\<lambda>(b, k). (p + k * bsz b, bsz b))"

definition live :: "BuddyAllocator \<Rightarrow> (nat \<times> nat) set" where
  "live a = region (page a) ` leaves (marks (nodes a))"

text \<open>The level that fits a request: the smallest block that is large enough.\<close>

definition fits :: "nat \<Rightarrow> nat \<Rightarrow> bool" where
  "fits t n \<longleftrightarrow> t \<le> 8 \<and> n \<le> bsz t \<and> bucket_size (Suc t) < n"

lemma fits_exists: "0 < n \<Longrightarrow> n \<le> 4096 \<Longrightarrow> \<exists>t. fits t n"
proof -
  assume n: "0 < n" "n \<le> 4096"
  let ?t = "Max {t. t \<le> 8 \<and> n \<le> bsz t}"
  have "0 \<in> {t. t \<le> 8 \<and> n \<le> bsz t}" using n by (simp add: bsz_def)
  then have t: "?t \<in> {t. t \<le> 8 \<and> n \<le> bsz t}" by (intro Max_in) auto
  have "bucket_size (Suc ?t) < n"
  proof (cases "?t = 8")
    case True
    then show ?thesis using n by (simp add: bucket_size_9)
  next
    case False
    then have le: "Suc ?t \<le> 8" using t by auto
    have "Suc ?t \<notin> {t. t \<le> 8 \<and> n \<le> bsz t}"
    proof
      assume "Suc ?t \<in> {t. t \<le> 8 \<and> n \<le> bsz t}"
      then have "Suc ?t \<le> ?t" by (rule Max_ge [rotated]) simp
      then show False by simp
    qed
    then show ?thesis using le by (simp add: bucket_size_bsz)
  qed
  with t show ?thesis by (auto simp: fits_def)
qed

lemma fits_descend: "fits t n \<Longrightarrow> b \<le> t \<Longrightarrow> n \<le> bucket_size (Suc b) \<longleftrightarrow> b < t"
proof -
  assume f: "fits t n" "b \<le> t"
  show ?thesis
  proof (cases "b = t")
    case True
    then show ?thesis using f by (simp add: fits_def)
  next
    case False
    then have "Suc b \<le> t" "Suc b \<le> 8" using f by (auto simp: fits_def)
    then have "bsz t \<le> bucket_size (Suc b)" by (simp add: bucket_size_bsz bsz_le)
    then show ?thesis using f False by (simp add: fits_def)
  qed
qed

lemma div_level: "k < 2 ^ t \<Longrightarrow> b \<le> t \<Longrightarrow> k div 2 ^ (t - b) < (2::nat) ^ b"
  by (simp add: less_mult_imp_div_less flip: power_add)

lemma div_div_level: "c \<le> b \<Longrightarrow> b \<le> t \<Longrightarrow> k div 2 ^ (t - b) div 2 ^ (b - c) = k div (2::nat) ^ (t - c)"
  by (simp flip: div_mult2_eq power_add)

lemma tree_closed_anc:
  assumes "tree_closed M" "t \<le> 8" "k < 2 ^ t" "node t k \<in> M" "b \<le> t"
  shows "node b (k div 2 ^ (t - b)) \<in> M"
  using assms(2-5)
proof (induction t arbitrary: k)
  case (Suc t)
  show ?case
  proof (cases "b = Suc t")
    case False
    have "node t (k div 2) \<in> M" "k div 2 < 2 ^ t"
      using assms(1) Suc.prems unfolding tree_closed_def by auto
    then have "node b (k div 2 div 2 ^ (t - b)) \<in> M"
      using Suc.IH [of "k div 2"] Suc.prems False by simp
    moreover have "k div 2 div 2 ^ (t - b) = k div 2 ^ (Suc t - b)"
      using False Suc.prems by (simp add: Suc_diff_le div_mult2_eq)
    ultimately show ?thesis by simp
  qed (use Suc in simp)
qed simp

lemma is_marked_node:
  "length ns = 64 \<Longrightarrow> b \<le> 8 \<Longrightarrow> k < 2 ^ b \<Longrightarrow> is_marked ns (node b k) = Some (node b k \<in> marks ns)"
  using node_bound [of b k] by (intro is_marked_marks) auto

lemma is_split_node:
  assumes "length ns = 64" "b \<le> 8" "k < 2 ^ b"
  shows "is_split ns (node b k) b =
     Some (b < 8 \<and> (node (Suc b) (2 * k) \<in> marks ns \<or> node (Suc b) (2 * k + 1) \<in> marks ns))"
proof (cases "b < 8")
  case True
  then have "is_marked ns (node (Suc b) (2 * k)) = Some (node (Suc b) (2 * k) \<in> marks ns)"
    "is_marked ns (node (Suc b) (2 * k + 1)) = Some (node (Suc b) (2 * k + 1) \<in> marks ns)"
    using assms by (intro is_marked_node; simp)+
  with True show ?thesis
    by (simp add: is_split_def config_defs node_left node_right)
qed (simp add: is_split_def config_defs)

lemma leaf_split:
  assumes "length ns = 64" "b \<le> 8" "k < 2 ^ b" "node b k \<in> marks ns"
  shows "is_split ns (node b k) b = Some (\<not> leaf (marks ns) b k)"
  using assms by (simp add: is_split_node leaf_def)

text \<open>Allocations never overlap: a node strictly below a leaf is not marked.\<close>

lemma leaves_not_nested:
  assumes "tree_closed M" "leaf M b k" "node c l \<in> M" "b < c" "c \<le> 8" "l < 2 ^ c"
  shows "l div 2 ^ (c - b) \<noteq> k"
proof
  assume k: "l div 2 ^ (c - b) = k"
  let ?l = "l div 2 ^ (c - Suc b)"
  have "node (Suc b) ?l \<in> M" using assms by (intro tree_closed_anc) auto
  moreover have "?l div 2 = k"
    using div_div_level [of b "Suc b" c l] k assms(4) by simp
  then have "?l = 2 * k \<or> ?l = 2 * k + 1" by linarith
  ultimately show False using assms(2,4,5) by (auto simp: leaf_def)
qed

lemma region_order:
  assumes "b \<le> c" "c \<le> 8" "l div 2 ^ (c - b) \<noteq> k"
  shows "l * bsz c + bsz c \<le> k * bsz b \<or> k * bsz b + bsz b \<le> l * bsz c"
proof -
  let ?e = "2 ^ (c - b) :: nat"
  have bs: "bsz b = ?e * bsz c" using assms by (intro bsz_below)
  consider "l div ?e < k" | "k < l div ?e" using assms(3) by linarith
  then show ?thesis
  proof cases
    case 1
    then have "l div ?e + 1 \<le> k" by simp
    then have "l + 1 \<le> k * ?e"
      by (metis add.commute less_eq_Suc_le less_mult_imp_div_less div_less_iff_less_mult plus_1_eq_Suc zero_less_numeral zero_less_power 1)
    then have "(l + 1) * bsz c \<le> k * ?e * bsz c" by (rule mult_le_mono1)
    then show ?thesis by (simp add: bs algebra_simps)
  next
    case 2
    then have "k + 1 \<le> l div ?e" by simp
    then have "(k + 1) * ?e \<le> l" by (meson div_times_less_eq_dividend le_trans mult_le_mono1)
    then have "(k + 1) * ?e * bsz c \<le> l * bsz c" by (rule mult_le_mono1)
    then show ?thesis by (simp add: bs algebra_simps)
  qed
qed

lemma leaves_apart:
  assumes "tree_closed M" "leaf M b k" "leaf M c l" "b \<le> 8" "c \<le> 8" "k < 2 ^ b" "l < 2 ^ c"
    "(b, k) \<noteq> (c, l)"
  shows "apart (p + k * bsz b, bsz b) (p + l * bsz c, bsz c)"
  using assms
proof (induction b c arbitrary: k l rule: linorder_wlog)
  case (le b c)
  have "l div 2 ^ (c - b) \<noteq> k"
  proof (cases "b = c")
    case False
    then show ?thesis using le by (intro leaves_not_nested) (auto simp: leaf_def)
  qed (use le in simp)
  from region_order [OF le(1) _ this] le show ?case by (auto simp: apart_def)
next
  case (sym b c)
  then show ?case by (metis apart_sym prod.inject)
qed


section \<open>The search\<close>

lemma offset_bound: "b \<le> 8 \<Longrightarrow> k < 2 ^ b \<Longrightarrow> k * bsz b + bsz b \<le> 4096"
proof -
  assume "b \<le> 8" "k < 2 ^ b"
  then have "Suc k * bsz b \<le> 2 ^ b * bsz b" by (intro mult_le_mono1) simp
  also have "\<dots> = 4096" using \<open>b \<le> 8\<close> by (rule bsz_level)
  finally show ?thesis by simp
qed

lemma climb_node:
  "b \<le> 8 \<Longrightarrow> k < 2 ^ b \<Longrightarrow>
     \<exists>c l. climb (node b k) (k * bsz b) b = (node c l, l * bsz c, c) \<and> c \<le> b \<and> l < 2 ^ c \<and>
       (c = 0 \<or> even l) \<and> (l + 1) * bsz c = (k + 1) * bsz b \<and> l = k div 2 ^ (b - c)"
proof (induction b arbitrary: k)
  case 0
  then show ?case
    by (intro exI [of _ 0] exI [of _ k]) (simp add: climb.simps node_is_left)
next
  case (Suc b)
  show ?case
  proof (cases "even k")
    case True
    then show ?thesis
      using Suc.prems
      by (intro exI [of _ "Suc b"] exI [of _ k]) (simp add: climb.simps node_is_left)
  next
    case False
    then obtain m where k: "k = 2 * m + 1" by (elim oddE)
    have m: "m < 2 ^ b" using Suc.prems k by simp
    have off: "sub64 (k * bsz (Suc b)) (bsz (Suc b)) = m * bsz b"
      using offset_bound [OF Suc.prems] Suc.prems(1) k
      by (subst sub64_exact) (auto simp: bsz_Suc)
    have "climb (node (Suc b) k) (k * bsz (Suc b)) (Suc b) = climb (node b m) (m * bsz b) b"
    proof -
      have "\<not> is_left (node (Suc b) k)" using Suc.prems False by (simp add: node_is_left)
      moreover have "parent (node (Suc b) k) = node b m"
        using Suc.prems k node_parent [of b k] by simp
      moreover have "bucket_size (Suc b) = bsz (Suc b)" "sub64 (Suc b) 1 = b"
        using Suc.prems(1) by (simp_all add: bucket_size_bsz sub64_exact)
      ultimately show ?thesis
        by (subst climb.simps) (simp only: off if_False)
    qed
    moreover from Suc.IH [OF _ m] Suc.prems obtain c l where
      "climb (node b m) (m * bsz b) b = (node c l, l * bsz c, c)" "c \<le> b" "l < 2 ^ c"
      "c = 0 \<or> even l" "(l + 1) * bsz c = (m + 1) * bsz b" "l = m div 2 ^ (b - c)" by auto
    moreover have "(m + 1) * bsz b = (k + 1) * bsz (Suc b)"
      using Suc.prems(1) k by (simp add: bsz_Suc)
    moreover have "m div 2 ^ (b - c) = k div 2 ^ (Suc b - c)"
      using k \<open>c \<le> b\<close> by (simp add: Suc_diff_le div_mult2_eq)
    ultimately show ?thesis by (intro exI [of _ c] exI [of _ l]) simp
  qed
qed

text \<open>Blocks of level \<open>t\<close> that lie inside a given block of level \<open>b\<close>.\<close>

lemma inside_block:
  assumes "b \<le> t" "t \<le> 8" "\<not> j * bsz t < k * bsz b" "j * bsz t < (k + 1) * bsz b"
  shows "j div 2 ^ (t - b) = k"
proof (rule ccontr)
  assume "j div 2 ^ (t - b) \<noteq> k"
  from region_order [OF assms(1,2) this] assms(3,4) show False
    using bsz_pos [of t] by (simp del: bsz_pos)
qed

lemma taken_inside:
  assumes "b \<le> t" "node b k \<in> M" "b = t \<or> leaf M b k" "j div 2 ^ (t - b) = k"
  shows "\<not> free_block M t j"
  using assms by (cases "b = t") (auto simp: free_block_def)

lemma search_correct:
  assumes len: "length ns = 64" and f: "fits t n"
  defines "M \<equiv> marks ns"
  shows "b \<le> t \<Longrightarrow> k < 2 ^ b \<Longrightarrow> \<forall>c < b. \<not> leaf M c (k div 2 ^ (b - c)) \<Longrightarrow>
     \<forall>j < 2 ^ t. j * bsz t < k * bsz b \<longrightarrow> \<not> free_block M t j \<Longrightarrow>
     (search ns n (node b k) b (k * bsz b) = Some None \<and> (\<forall>j < 2 ^ t. \<not> free_block M t j)) \<or>
     (\<exists>j < 2 ^ t. search ns n (node b k) b (k * bsz b) = Some (Some (node t j, t, j * bsz t)) \<and>
        free_block M t j \<and> (\<forall>i < j. \<not> free_block M t i))"
proof (induction "(4096 - k * bsz b) * 10 + (8 - b)" arbitrary: b k rule: less_induct)
  case less
  have t8: "t \<le> 8" and b8: "b \<le> 8" using f less.prems(1) by (auto simp: fits_def)
  have off: "k * bsz b + bsz b \<le> 4096" by (rule offset_bound [OF b8 less.prems(2)])
  have split: "is_split ns (node b k) b = Some (\<not> leaf M b k)" if "node b k \<in> M"
    using leaf_split [OF len b8 less.prems(2)] that by (simp add: M_def)
  have descend: "n \<le> bucket_size (Suc b) \<longleftrightarrow> b < t" "bucket_size (Suc b) < n \<longleftrightarrow> b = t"
    using fits_descend [OF f less.prems(1)] less.prems(1) by auto
  have unfold: "search ns n (node b k) b (k * bsz b) =
      (if node b k \<in> M \<and> (b = t \<or> leaf M b k)
       then (case climb (node b k) (k * bsz b) b of (i', o', b') \<Rightarrow>
               if i' = 0 then Some None
               else search ns n (sibling i') b' (add64 o' (bucket_size b')))
       else if b < t then search ns n (node (Suc b) (2 * k)) (Suc b) (k * bsz b)
       else Some (Some (node b k, b, k * bsz b)))"
    using is_marked_node [OF len b8 less.prems(2)] split
    by (subst search.simps) (auto simp: M_def descend node_left)
  show ?case
  proof (cases "node b k \<in> M \<and> (b = t \<or> leaf M b k)")
    case True
    obtain c l where cl: "climb (node b k) (k * bsz b) b = (node c l, l * bsz c, c)" "c \<le> b" "l < 2 ^ c"
      "c = 0 \<or> even l" "(l + 1) * bsz c = (k + 1) * bsz b" "l = k div 2 ^ (b - c)"
      using climb_node [OF b8 less.prems(2)] by blast
    have passed: "\<forall>j < 2 ^ t. j * bsz t < (k + 1) * bsz b \<longrightarrow> \<not> free_block M t j"
      using less.prems(4) inside_block [OF less.prems(1) t8] taken_inside [OF less.prems(1)] True
      by blast
    show ?thesis
    proof (cases "c = 0")
      case True
      then have "(k + 1) * bsz b = 2 ^ t * bsz t"
        using cl(3,5) bsz_level [of 0] bsz_level [OF t8] by simp
      then have "\<forall>j < 2 ^ t. \<not> free_block M t j" using passed by simp
      moreover have "search ns n (node b k) b (k * bsz b) = Some None"
        using \<open>node b k \<in> M \<and> _\<close> cl(1,3) True by (simp add: unfold node_eq_0)
      ultimately show ?thesis by blast
    next
      case False
      then obtain c' where c: "c = Suc c'" by (cases c) auto
      have ev: "even l" using cl(4) False by simp
      have l1: "l + 1 < 2 ^ c"
        using cl(3) ev c by (auto elim!: evenE)
      have "add64 (l * bsz c) (bucket_size c) = (l + 1) * bsz c"
        using cl(2,5) b8 off by (subst add64_exact) (auto simp: bucket_size_bsz)
      then have eq: "search ns n (node b k) b (k * bsz b) = search ns n (node c (l + 1)) c ((l + 1) * bsz c)"
        using \<open>node b k \<in> M \<and> _\<close> cl(1,2,3) b8 ev c node_Suc_pos [of c' l]
        by (simp add: unfold node_sibling)
      have anc: "\<forall>d < c. \<not> leaf M d ((l + 1) div 2 ^ (c - d))"
      proof (intro allI impI)
        fix d assume d: "d < c"
        then obtain e where e: "c - d = Suc e" by (metis Suc_diff_Suc)
        have "(l + 1) div 2 ^ (c - d) = l div 2 ^ (c - d)"
          using ev by (simp add: e div_mult2_eq)
        also have "\<dots> = k div 2 ^ (b - d)" using cl(2,6) d div_div_level [of d c b k] by simp
        finally show "\<not> leaf M d ((l + 1) div 2 ^ (c - d))" using less.prems(3) cl(2) d by simp
      qed
      have pass': "\<forall>j < 2 ^ t. j * bsz t < (l + 1) * bsz c \<longrightarrow> \<not> free_block M t j"
        using passed cl(5) by simp
      have "k * bsz b < (l + 1) * bsz c" "k * bsz b < 4096"
        using cl(5) off bsz_pos [of b] by (simp_all del: bsz_pos)
      then have "(4096 - (l + 1) * bsz c) * 10 + (8 - c) < (4096 - k * bsz b) * 10 + (8 - b)"
        using b8 by linarith
      from less.hyps [OF this _ l1 anc pass'] cl(2) less.prems(1) show ?thesis
        unfolding eq by simp
    qed
  next
    case False
    show ?thesis
    proof (cases "b < t")
      case True
      have nl: "\<not> leaf M b k" using False True by (auto simp: leaf_def)
      have k2: "2 * k < 2 ^ Suc b" using less.prems(2) by simp
      have o2: "2 * k * bsz (Suc b) = k * bsz b" using True t8 by (simp add: bsz_Suc)
      have eq: "search ns n (node b k) b (k * bsz b) =
          search ns n (node (Suc b) (2 * k)) (Suc b) (2 * k * bsz (Suc b))"
        unfolding unfold o2 if_not_P [OF False] if_P [OF True] ..
      have anc: "\<forall>d < Suc b. \<not> leaf M d (2 * k div 2 ^ (Suc b - d))"
        using nl less.prems(3) by (auto simp: less_Suc_eq Suc_diff_le div_mult2_eq)
      have "(4096 - 2 * k * bsz (Suc b)) * 10 + (8 - Suc b) < (4096 - k * bsz b) * 10 + (8 - b)"
        using True t8 unfolding o2 by simp
      from less.hyps [OF this _ k2 anc] True less.prems(4) show ?thesis
        unfolding eq unfolding o2 by simp
    next
      case False2: False
      then have bt: "b = t" using less.prems(1) by simp
      then have "node t k \<notin> M" using False by simp
      then have fr: "free_block M t k" using less.prems(3) bt by (simp add: free_block_def)
      have first: "\<forall>i < k. \<not> free_block M t i"
        using less.prems(2,4) bt by simp
      have "search ns n (node b k) b (k * bsz b) = Some (Some (node t k, t, k * bsz t))"
        unfolding unfold if_not_P [OF False] if_not_P [OF False2] using bt by simp
      then show ?thesis using fr first less.prems(2) bt by blast
    qed
  qed
qed

end
