(* ===== verification/Heap_Contract.thy ===== *)
theory Heap_Contract
  imports Alloc_Common
begin

text \<open>
  What every allocator of \<open>task5-memory\<close> promises its caller. \<open>live\<close> reads the regions
  handed out and not yet returned off the allocator's state. A request in the range \<open>ok\<close>
  terminates; it either fails without a change of the live regions or adds one fresh region
  that is large enough; returning a live region removes exactly that region. The exception
  are the requests that are \<open>stuck\<close> in a state, which dereference a null pointer. The client
  lemmas are proved from the contract alone: a program that frees only what it owns never
  owns overlapping memory and stops at a stuck request only, and without stuck requests
  freeing everything empties the heap.
\<close>

datatype request = Malloc nat | Free nat

locale heap_contract =
  fixes inv :: "'s \<Rightarrow> bool"
    and live :: "'s \<Rightarrow> (nat \<times> nat) set"
    and ok :: "nat \<Rightarrow> bool"
    and alloc :: "'s \<Rightarrow> nat \<Rightarrow> (nat \<times> 's) option"
    and free :: "'s \<Rightarrow> nat \<Rightarrow> 's option"
    and stuck :: "'s \<Rightarrow> request \<Rightarrow> bool"
  assumes alloc_contract: "inv s \<Longrightarrow> ok n \<Longrightarrow> \<not> stuck s (Malloc n) \<Longrightarrow>
      \<exists>q s'. alloc s n = Some (q, s') \<and> inv s' \<and>
        (q = 0 \<and> live s' = live s \<or>
         q \<noteq> 0 \<and> (\<exists>m \<ge> n. (q, m) \<notin> live s \<and> live s' = insert (q, m) (live s)))"
    and free_contract: "inv s \<Longrightarrow> (q, m) \<in> live s \<Longrightarrow> \<not> stuck s (Free q) \<Longrightarrow>
      \<exists>s'. free s q = Some s' \<and> inv s' \<and> live s' = live s - {(q, m)}"
    and alloc_stuck: "inv s \<Longrightarrow> ok n \<Longrightarrow> stuck s (Malloc n) \<Longrightarrow> alloc s n = None"
    and free_stuck: "inv s \<Longrightarrow> (q, m) \<in> live s \<Longrightarrow> stuck s (Free q) \<Longrightarrow> free s q = None"
    and live_separate: "inv s \<Longrightarrow> r \<in> live s \<Longrightarrow> r' \<in> live s \<Longrightarrow> r \<noteq> r' \<Longrightarrow> apart r r'"
    and live_sized: "inv s \<Longrightarrow> (q, m) \<in> live s \<Longrightarrow> 0 < m"
begin

lemma live_functional:
  assumes "inv s" "(q, m) \<in> live s" "(q, m') \<in> live s"
  shows "m = m'"
  using live_separate [OF assms(1-3)] live_sized [OF assms(1,2)] live_sized [OF assms(1,3)]
  by (auto simp: apart_def)

text \<open>What \<open>free\<close> gives back can be handed out again without disturbing anything else.\<close>

lemma free_after_alloc:
  assumes "inv s" "ok n" "alloc s n = Some (q, s')" "q \<noteq> 0" "\<not> stuck s (Malloc n)" "\<not> stuck s' (Free q)"
  shows "\<exists>s''. free s' q = Some s'' \<and> inv s'' \<and> live s'' = live s"
proof -
  from alloc_contract [OF assms(1,2,5)] assms(3,4) obtain m where
    m: "inv s'" "(q, m) \<notin> live s" "live s' = insert (q, m) (live s)" by auto
  then show ?thesis using free_contract [of s' q m] assms(6) by auto
qed

definition call :: "request \<Rightarrow> 's \<Rightarrow> 's option" where
  "call r s = (case r of Malloc n \<Rightarrow> map_option snd (alloc s n) | Free p \<Rightarrow> free s p)"

primrec exec :: "request list \<Rightarrow> 's \<Rightarrow> 's option" where
  "exec [] s = Some s"
| "exec (r # rs) s = Option.bind (call r s) (exec rs)"

text \<open>A client obeys the rules when each size is in range and each freed pointer is live then.\<close>

definition permitted :: "request \<Rightarrow> 's \<Rightarrow> bool" where
  "permitted r s \<longleftrightarrow> (case r of Malloc n \<Rightarrow> ok n | Free p \<Rightarrow> p \<in> fst ` live s)"

primrec obeys :: "request list \<Rightarrow> 's \<Rightarrow> bool" where
  "obeys [] s = True"
| "obeys (r # rs) s \<longleftrightarrow> permitted r s \<and> (\<forall>s'. call r s = Some s' \<longrightarrow> obeys rs s')"

lemma call_stuck: "inv s \<Longrightarrow> permitted r s \<Longrightarrow> stuck s r \<Longrightarrow> call r s = None"
  using alloc_stuck free_stuck by (cases r) (auto simp: permitted_def call_def)

lemma call_served:
  assumes "inv s" "permitted r s" "\<not> stuck s r"
  shows "\<exists>s'. call r s = Some s' \<and> inv s'"
proof (cases r)
  case (Malloc n)
  then show ?thesis using alloc_contract [of s n] assms by (auto simp: permitted_def call_def)
next
  case (Free p)
  then obtain m where "(p, m) \<in> live s" using assms(2) by (auto simp: permitted_def)
  then show ?thesis using free_contract [of s p m] assms Free by (auto simp: call_def)
qed

lemma exec_safe:
  "inv s \<Longrightarrow> obeys rs s \<Longrightarrow>
    (case exec rs s of
       Some s' \<Rightarrow> inv s' \<and> pairwise apart (live s')
     | None \<Rightarrow> \<exists>rs1 r rs2 s1. rs = rs1 @ r # rs2 \<and> exec rs1 s = Some s1 \<and> inv s1 \<and> stuck s1 r)"
proof (induction rs arbitrary: s)
  case Nil
  then show ?case using live_separate by (auto simp: pairwise_def)
next
  case (Cons r rs)
  have p: "permitted r s" using Cons.prems(2) by simp
  show ?case
  proof (cases "stuck s r")
    case True
    have "\<exists>rs1 r' rs2 s1. r # rs = rs1 @ r' # rs2 \<and> exec rs1 s = Some s1 \<and> inv s1 \<and> stuck s1 r'"
      by (rule exI [of _ "[]"]) (use True Cons.prems(1) in simp)
    then show ?thesis using call_stuck [OF Cons.prems(1) p True] by simp
  next
    case False
    from call_served [OF Cons.prems(1) p False] obtain s' where s': "call r s = Some s'" "inv s'" by blast
    have ih: "case exec rs s' of Some s' \<Rightarrow> inv s' \<and> pairwise apart (live s')
      | None \<Rightarrow> \<exists>rs1 r rs2 s1. rs = rs1 @ r # rs2 \<and> exec rs1 s' = Some s1 \<and> inv s1 \<and> stuck s1 r"
      using Cons.IH [OF s'(2)] Cons.prems(2) s'(1) by simp
    show ?thesis
    proof (cases "exec rs s'")
      case None
      then obtain rs1 r' rs2 s1 where "rs = rs1 @ r' # rs2" "exec rs1 s' = Some s1" "inv s1" "stuck s1 r'" using ih by auto
      then have "r # rs = (r # rs1) @ r' # rs2 \<and> exec (r # rs1) s = Some s1 \<and> inv s1 \<and> stuck s1 r'" using s'(1) by simp
      then have "\<exists>rs1 r' rs2 s1. r # rs = rs1 @ r' # rs2 \<and> exec rs1 s = Some s1 \<and> inv s1 \<and> stuck s1 r'" by blast
      then show ?thesis using s'(1) None by simp
    qed (use ih s'(1) in simp)
  qed
qed

lemma free_all:
  assumes "inv s" "finite (live s)" and never: "\<And>s r. \<not> stuck s r"
  shows "\<exists>ps s'. exec (map Free ps) s = Some s' \<and> live s' = {} \<and> set ps = fst ` live s"
  using assms(2,1)
proof (induction "live s" arbitrary: s rule: finite_induct)
  case empty
  then show ?case by (intro exI [of _ "[]"]) simp
next
  case (insert r R)
  obtain q m where r: "r = (q, m)" by (cases r)
  with insert obtain s1 where s1: "free s q = Some s1" "inv s1" "live s1 = live s - {(q, m)}"
    using free_contract [of s q m] never by blast
  then have "R = live s1" using insert r by auto
  from insert.hyps(3) [OF this s1(2)] obtain ps s' where
    "exec (map Free ps) s1 = Some s'" "live s' = {}" "set ps = fst ` live s1" by blast
  moreover have "live s = insert (q, m) (live s1)" using \<open>R = live s1\<close> insert.hyps(4) r by simp
  ultimately show ?case using s1(1) by (intro exI [of _ "q # ps"] exI [of _ s']) (simp add: call_def)
qed

end

text \<open>
  What a caller of a reallocation can rely on: on success the new block is large enough and
  holds the old contents up to the smaller size, and nothing outside it has been written; on
  failure (a null result) the old block is gone and the memory is as before.
\<close>

definition realloc_ok :: "(nat \<times> nat) set \<Rightarrow> (nat \<times> nat) set \<Rightarrow> nat \<Rightarrow> nat \<Rightarrow> nat \<Rightarrow> nat \<Rightarrow> (nat \<Rightarrow> u8) \<Rightarrow> (nat \<Rightarrow> u8) \<Rightarrow> bool" where
  "realloc_ok L L' p s n q h h' \<longleftrightarrow>
     (if q = 0 then L' = L - {(p, s)} \<and> h' = h
      else (\<exists>m \<ge> n. (q, m) \<notin> L - {(p, s)} \<and> L' = insert (q, m) (L - {(p, s)}) \<and>
              (\<forall>x. \<not> in_region q m x \<longrightarrow> h' x = h x)) \<and>
           (\<forall>i < min s n. h' (q + i) = h (p + i)))"

lemma realloc_okI:
  assumes "q \<noteq> 0" "n \<le> m" "(q, m) \<notin> L - {(p, s)}" "L' = insert (q, m) (L - {(p, s)})"
    "h' = h \<and> q = p \<or> (s \<le> m \<and> (\<forall>i < s. h' (q + i) = h (p + i)) \<and> (\<forall>x. \<not> in_region q s x \<longrightarrow> h' x = h x))"
  shows "realloc_ok L L' p s n q h h'"
proof -
  have "\<forall>x. \<not> in_region q m x \<longrightarrow> h' x = h x" using assms(5) by (auto simp: in_region_def)
  moreover have "\<forall>i < min s n. h' (q + i) = h (p + i)" using assms(5) by auto
  ultimately show ?thesis unfolding realloc_ok_def using assms(1-4) by auto
qed

lemma realloc_ok_null: "realloc_ok L (L - {(p, s)}) p s n 0 h h"
  by (simp add: realloc_ok_def)

lemma realloc_ok_others:
  assumes "realloc_ok L L' p s n q h h'" "pairwise apart L'" "(p', s') \<in> L - {(p, s)}" "i < s'"
  shows "h' (p' + i) = h (p' + i)"
proof (cases "q = 0")
  case False
  then obtain m where m: "(q, m) \<notin> L - {(p, s)}" "L' = insert (q, m) (L - {(p, s)})"
    "\<forall>x. \<not> in_region q m x \<longrightarrow> h' x = h x" using assms(1) by (auto simp: realloc_ok_def)
  have "apart (p', s') (q, m)" using assms(2,3) m(1,2) by (auto simp: pairwise_def)
  moreover have "in_region p' s' (p' + i)" using assms(4) by (simp add: in_region_def)
  ultimately have "\<not> in_region q m (p' + i)" by (rule apart_no_common_byte)
  then show ?thesis using m(3) by simp
qed (use assms(1) in \<open>simp add: realloc_ok_def\<close>)

text \<open>The same as seen by the client, who reads only the memory it owns.\<close>

definition realloc_outcome :: "(nat \<times> nat) set \<Rightarrow> (nat \<times> nat) set \<Rightarrow> nat \<Rightarrow> nat \<Rightarrow> nat \<Rightarrow> nat \<Rightarrow> (nat \<Rightarrow> u8) \<Rightarrow> (nat \<Rightarrow> u8) \<Rightarrow> bool" where
  "realloc_outcome L L' p s n q h h' \<longleftrightarrow>
     (if q = 0 then L' = L - {(p, s)}
      else (\<exists>m \<ge> n. (q, m) \<notin> L - {(p, s)} \<and> L' = insert (q, m) (L - {(p, s)})) \<and>
           (\<forall>i < min s n. h' (q + i) = h (p + i))) \<and>
     (\<forall>(p', s') \<in> L - {(p, s)}. \<forall>i < s'. h' (p' + i) = h (p' + i))"

lemma realloc_ok_outcome:
  assumes "realloc_ok L L' p s n q h h'" "pairwise apart L'"
  shows "realloc_outcome L L' p s n q h h'"
proof -
  have "\<forall>(p', s') \<in> L - {(p, s)}. \<forall>i < s'. h' (p' + i) = h (p' + i)"
    using realloc_ok_others [OF assms] by blast
  moreover have "if q = 0 then L' = L - {(p, s)}
     else (\<exists>m \<ge> n. (q, m) \<notin> L - {(p, s)} \<and> L' = insert (q, m) (L - {(p, s)})) \<and>
          (\<forall>i < min s n. h' (q + i) = h (p + i))"
    using assms(1) unfolding realloc_ok_def by (cases "q = 0") auto
  ultimately show ?thesis unfolding realloc_outcome_def by blast
qed

text \<open>A block that is copied into a new one by \<open>memcpy\<close>, after memory that the client cannot see changed.\<close>

lemma realloc_outcome_moved:
  assumes "(p, s) \<in> L" "q \<noteq> 0" "n \<le> m" "s \<le> m" "(q, m) \<notin> L - {(p, s)}" "L' = insert (q, m) (L - {(p, s)})"
    and sep: "pairwise apart L'" and kept: "\<And>p' s' i. (p', s') \<in> L \<Longrightarrow> i < s' \<Longrightarrow> h0 (p' + i) = h (p' + i)"
    and cp: "memcpy q p s h0 = Some h'"
  shows "realloc_outcome L L' p s n q h h'"
proof -
  have h': "\<And>i. i < s \<Longrightarrow> h' (q + i) = h0 (p + i)" "\<And>x. \<not> in_region q s x \<Longrightarrow> h' x = h0 x"
    using cp by (auto simp: memcpy_def in_region_def split: if_splits)
  have "h' (p' + i) = h (p' + i)" if o: "(p', s') \<in> L - {(p, s)}" "i < s'" for p' s' i
  proof -
    have "apart (p', s') (q, m)" using sep o(1) assms(5,6) by (auto simp: pairwise_def)
    moreover have "in_region p' s' (p' + i)" using o(2) by (simp add: in_region_def)
    ultimately have "\<not> in_region q m (p' + i)" by (rule apart_no_common_byte)
    then have "\<not> in_region q s (p' + i)" using assms(4) by (auto simp: in_region_def)
    then show ?thesis using h'(2) kept [of p' s' i] o by simp
  qed
  then have "\<forall>(p', s') \<in> L - {(p, s)}. \<forall>i < s'. h' (p' + i) = h (p' + i)" by blast
  moreover have "\<forall>i < min s n. h' (q + i) = h (p + i)" using h'(1) kept [OF assms(1)] by simp
  ultimately show ?thesis unfolding realloc_outcome_def if_not_P [OF assms(2)] using assms(3,5,6) by blast
qed

end
