(* ===== verification/Buddy_Correct.thy ===== *)
theory Buddy_Correct
  imports Buddy_Tree Heap_Contract
begin

text \<open>
  Correctness of the buddy allocator. Allocation adds one leaf, the first one that is free and
  tight; deallocation removes exactly one leaf and merges buddies; reallocation replaces one
  leaf and carries the contents over.
\<close>

section \<open>Marking a path\<close>

lemma mark_node:
  assumes "length ns = 64" "b \<le> 8" "k < 2 ^ b"
  obtains ns' where "mark ns (node b k) = Some ns'" "length ns' = 64"
    "marks ns' = insert (node b k) (marks ns)"
proof -
  have "node b k div 8 < length ns" using node_bound [OF assms(2,3)] assms(1) by linarith
  from mark_marks [OF this] that assms(1) show thesis by auto
qed

lemma unmark_node:
  assumes "length ns = 64" "b \<le> 8" "k < 2 ^ b"
  obtains ns' where "unmark ns (node b k) = Some ns'" "length ns' = 64"
    "marks ns' = marks ns - {node b k}"
proof -
  have "node b k div 8 < length ns" using node_bound [OF assms(2,3)] assms(1) by linarith
  from unmark_marks [OF this] that assms(1) show thesis by auto
qed

definition path :: "nat \<Rightarrow> nat \<Rightarrow> nat set" where
  "path t j = (\<lambda>c. node c (j div 2 ^ (t - c))) ` {..t}"

lemma path_0: "path 0 j = {node 0 j}"
  by (auto simp: path_def)

lemma path_Suc: "path (Suc t) j = insert (node (Suc t) j) (path t (j div 2))"
proof -
  have "j div 2 ^ (Suc t - c) = j div 2 div 2 ^ (t - c)" if "c \<le> t" for c
    using that by (simp add: Suc_diff_le div_mult2_eq)
  then show ?thesis unfolding path_def by (simp add: atMost_Suc)
qed

lemma node_in_path:
  assumes "j < 2 ^ t" "k < 2 ^ b"
  shows "node b k \<in> path t j \<longleftrightarrow> b \<le> t \<and> k = j div 2 ^ (t - b)"
proof -
  have "node b k = node c (j div 2 ^ (t - c)) \<longleftrightarrow> b = c \<and> k = j div 2 ^ (t - c)" if "c \<le> t" for c
    using node_inj [of b k c] assms div_level [OF assms(1) that] by auto
  then show ?thesis unfolding path_def by auto
qed

lemma path_bound: "t \<le> 8 \<Longrightarrow> j < 2 ^ t \<Longrightarrow> path t j \<subseteq> {..<511}"
  unfolding path_def by (auto intro!: node_bound div_level)

lemma mark_path_marks:
  "length ns = 64 \<Longrightarrow> t \<le> 8 \<Longrightarrow> j < 2 ^ t \<Longrightarrow>
     \<exists>ns'. mark_path ns (node t j) = Some ns' \<and> length ns' = 64 \<and> marks ns' = marks ns \<union> path t j"
proof (induction t arbitrary: ns j)
  case 0
  obtain ns' where "mark ns (node 0 j) = Some ns'" "length ns' = 64" "marks ns' = insert (node 0 j) (marks ns)"
    using mark_node [OF 0] .
  then show ?case using 0 by (simp add: mark_path.simps node_def path_0)
next
  case (Suc t)
  obtain ns1 where m: "mark ns (node (Suc t) j) = Some ns1" "length ns1 = 64"
    "marks ns1 = insert (node (Suc t) j) (marks ns)"
    using mark_node [OF Suc.prems] .
  obtain ns' where "mark_path ns1 (node t (j div 2)) = Some ns'" "length ns' = 64"
    "marks ns' = marks ns1 \<union> path t (j div 2)"
    using Suc.IH [OF m(2), of "j div 2"] Suc.prems by (auto simp: less_mult_imp_div_less)
  then show ?case
    using m Suc.prems node_Suc_pos [of t j]
    by (simp add: mark_path.simps [of ns "node (Suc t) j"] node_parent path_Suc)
qed

lemma free_below_unmarked:
  assumes "tree_closed M" "node t j \<notin> M" "t \<le> c" "c \<le> 8" "l < 2 ^ c" "l div 2 ^ (c - t) = j"
  shows "node c l \<notin> M"
  using tree_closed_anc [OF assms(1,4,5) _ assms(3)] assms(2,6) by auto

lemma child_parent: "b < t \<Longrightarrow> j div 2 ^ (t - Suc b) div 2 = j div (2::nat) ^ (t - b)"
  using div_div_level [of b "Suc b" t j] by simp

lemma leaf_path:
  assumes "tree_closed M" "free_block M t j" "t \<le> 8" "j < 2 ^ t" "b \<le> 8" "k < 2 ^ b"
  shows "leaf (M \<union> path t j) b k \<longleftrightarrow> leaf M b k \<or> (b = t \<and> k = j)"
proof
  assume l: "leaf (M \<union> path t j) b k"
  show "leaf M b k \<or> (b = t \<and> k = j)"
  proof (cases "node b k \<in> M")
    case True
    then show ?thesis using l by (simp add: leaf_def)
  next
    case False
    then have bk: "b \<le> t" "k = j div 2 ^ (t - b)"
      using l assms(4,6) by (auto simp: leaf_def node_in_path)
    have "b = t"
    proof (rule ccontr)
      assume "b \<noteq> t"
      then have lt: "b < t" using bk by simp
      let ?c = "j div 2 ^ (t - Suc b)"
      have "node (Suc b) ?c \<in> path t j" unfolding path_def using lt by auto
      moreover have "?c = 2 * k \<or> ?c = 2 * k + 1"
        using child_parent [OF lt, of j] bk(2) by linarith
      ultimately show False using l lt assms(3) by (auto simp: leaf_def)
    qed
    then show ?thesis using bk by simp
  qed
next
  assume "leaf M b k \<or> (b = t \<and> k = j)"
  then show "leaf (M \<union> path t j) b k"
  proof
    assume l: "leaf M b k"
    have "node (Suc b) (2 * k + e) \<notin> path t j" if "b < 8" "e < 2" for e
    proof
      assume "node (Suc b) (2 * k + e) \<in> path t j"
      then have c: "Suc b \<le> t" "2 * k + e = j div 2 ^ (t - Suc b)"
        using that assms(4,6) by (auto simp: node_in_path)
      then have "k = j div 2 ^ (t - b)" using child_parent [of b t j] that by linarith
      then show False using c l assms(2) by (auto simp: free_block_def)
    qed
    from this [of 0] this [of 1] show ?thesis using l by (auto simp: leaf_def)
  next
    assume bk: "b = t \<and> k = j"
    have "node (Suc b) (2 * k + e) \<notin> M \<union> path t j" if "b < 8" "e < 2" for e
      using that bk assms free_below_unmarked [of M t j "Suc b" "2 * k + e"]
      by (auto simp: node_in_path free_block_def)
    from this [of 0] this [of 1] show ?thesis
      using bk by (auto simp: leaf_def node_in_path assms)
  qed
qed

lemma tree_closed_path:
  assumes "tree_closed M" "j < 2 ^ t"
  shows "tree_closed (M \<union> path t j)"
  unfolding tree_closed_def
proof (intro allI impI)
  fix b k assume b: "b < 8" and k: "k < 2 ^ Suc b" and m: "node (Suc b) k \<in> M \<union> path t j"
  have k2: "k div 2 < 2 ^ b" using k by simp
  show "node b (k div 2) \<in> M \<union> path t j"
  proof (cases "node (Suc b) k \<in> M")
    case True
    then show ?thesis using assms(1) b k by (auto simp: tree_closed_def)
  next
    case False
    then have "Suc b \<le> t" "k = j div 2 ^ (t - Suc b)"
      using m k assms(2) node_in_path [OF assms(2) k] by auto
    then show ?thesis
      using node_in_path [OF assms(2) k2] child_parent [of b t j] by auto
  qed
qed

section \<open>Allocation\<close>

lemma allocate_cases:
  assumes "buddy_inv a" "fits t n"
  obtains (none) "buddy_allocator_allocate a n = Some (0, a)"
      "\<forall>j < 2 ^ t. \<not> free_block (marks (nodes a)) t j"
  | (some) j ns where
      "buddy_allocator_allocate a n = Some (page a + j * bsz t, a\<lparr>nodes := ns\<rparr>)"
      "j < 2 ^ t" "free_block (marks (nodes a)) t j"
      "\<forall>i < j. \<not> free_block (marks (nodes a)) t i"
      "length ns = 64" "marks ns = marks (nodes a) \<union> path t j"
proof -
  have t8: "t \<le> 8" and n: "n \<le> 4096" and len: "length (nodes a) = 64"
    using assms bsz_le [of 0 t] by (auto simp: fits_def buddy_inv_def bsz_def)
  let ?M = "marks (nodes a)"
  have "(search (nodes a) n (node 0 0) 0 (0 * bsz 0) = Some None \<and> (\<forall>j < 2 ^ t. \<not> free_block ?M t j)) \<or>
     (\<exists>j < 2 ^ t. search (nodes a) n (node 0 0) 0 (0 * bsz 0) = Some (Some (node t j, t, j * bsz t)) \<and>
        free_block ?M t j \<and> (\<forall>i < j. \<not> free_block ?M t i))"
    by (rule search_correct [OF len assms(2)]) auto
  then show thesis
  proof (elim disjE exE conjE)
    assume "search (nodes a) n (node 0 0) 0 (0 * bsz 0) = Some None" "\<forall>j < 2 ^ t. \<not> free_block ?M t j"
    then show thesis using none n
      by (simp add: buddy_allocator_allocate_def config_defs node_0)
  next
    fix j assume j: "j < 2 ^ t" "search (nodes a) n (node 0 0) 0 (0 * bsz 0) = Some (Some (node t j, t, j * bsz t))"
      "free_block ?M t j" "\<forall>i < j. \<not> free_block ?M t i"
    obtain ns where ns: "mark_path (nodes a) (node t j) = Some ns" "length ns = 64" "marks ns = ?M \<union> path t j"
      using mark_path_marks [OF len t8 j(1)] by blast
    have "buddy_allocator_allocate a n = Some (page a + j * bsz t, a\<lparr>nodes := ns\<rparr>)"
      using j(2) ns(1) n by (simp add: buddy_allocator_allocate_def config_defs node_0)
    from some [OF this j(1,3,4) ns(2,3)] show thesis .
  qed
qed

text \<open>How a change of the leaves shows in the set of live allocations.\<close>

lemma bsz_inj: "b \<le> 8 \<Longrightarrow> c \<le> 8 \<Longrightarrow> bsz b = bsz c \<longleftrightarrow> b = c"
  by (auto simp: bsz_def)

lemma region_inj: "inj_on (region p) {(b, k). b \<le> 8 \<and> k < 2 ^ b}"
  by (auto simp: inj_on_def region_def bsz_inj)

lemma leaves_levels: "leaves M \<subseteq> {(b, k). b \<le> 8 \<and> k < 2 ^ b}"
  by (auto simp: leaves_def)

lemma region_remove:
  "(b, k) \<in> leaves M \<Longrightarrow> region p ` (leaves M - {(b, k)}) = region p ` leaves M - {region p (b, k)}"
  using inj_on_image_set_diff [OF region_inj [of p], of "leaves M" "{(b, k)}"] leaves_levels [of M] by auto

lemma region_in: "b \<le> 8 \<Longrightarrow> k < 2 ^ b \<Longrightarrow> region p (b, k) \<in> region p ` leaves M \<longleftrightarrow> (b, k) \<in> leaves M"
  using inj_on_image_mem_iff [OF region_inj [of p] _ leaves_levels [of M], of "(b, k)"] by simp

lemma liveE:
  assumes "(p, s) \<in> live a"
  obtains b k where "b \<le> 8" "k < 2 ^ b" "leaf (marks (nodes a)) b k" "(b, k) \<in> leaves (marks (nodes a))"
    "p = page a + k * bsz b" "s = bsz b" "(p, s) = region (page a) (b, k)"
  using assms by (auto simp: live_def leaves_def region_def)

lemma live_apart:
  assumes "buddy_inv a" "r \<in> live a" "s \<in> live a" "r \<noteq> s"
  shows "apart r s"
  using assms unfolding live_def buddy_inv_def leaves_def region_def
  by (auto intro!: leaves_apart [of "marks (nodes a)"])

lemma live_in_page:
  assumes "(p, s) \<in> live a"
  shows "page a \<le> p \<and> p + s \<le> page a + 4096 \<and> 0 < s"
  using assms offset_bound by (auto elim!: liveE)

lemma leaves_path:
  assumes "tree_closed M" "free_block M t j" "t \<le> 8" "j < 2 ^ t"
  shows "leaves (M \<union> path t j) = insert (t, j) (leaves M)"
  using assms by (auto simp: leaves_def leaf_path)

lemma allocate_live:
  assumes "buddy_inv a" "t \<le> 8" "j < 2 ^ t" "free_block (marks (nodes a)) t j" "length ns = 64"
    "marks ns = marks (nodes a) \<union> path t j"
  shows "buddy_inv (a\<lparr>nodes := ns\<rparr>)"
    "live (a\<lparr>nodes := ns\<rparr>) = insert (page a + j * bsz t, bsz t) (live a)"
    "(page a + j * bsz t, bsz t) \<notin> live a"
proof -
  have tc: "tree_closed (marks (nodes a))" using assms(1) by (simp add: buddy_inv_def)
  show "buddy_inv (a\<lparr>nodes := ns\<rparr>)"
    using assms path_bound tree_closed_path by (auto simp: buddy_inv_def)
  show "live (a\<lparr>nodes := ns\<rparr>) = insert (page a + j * bsz t, bsz t) (live a)"
    by (simp add: live_def leaves_path [OF tc assms(4,2,3)] assms(6)) (simp add: region_def)
  have "(t, j) \<notin> leaves (marks (nodes a))" using assms(4) by (auto simp: leaves_def leaf_def free_block_def)
  then show "(page a + j * bsz t, bsz t) \<notin> live a"
    using region_in [OF assms(2,3)] by (simp add: live_def region_def)
qed

section \<open>Giving a leaf up\<close>

definition buddy_of :: "nat \<Rightarrow> nat" where
  "buddy_of k = (if even k then k + 1 else k - 1)"

lemma node_eq_iff: "k < 2 ^ b \<Longrightarrow> l < 2 ^ c \<Longrightarrow> node b k = node c l \<longleftrightarrow> b = c \<and> k = l"
  using node_inj [of b k c l] by auto

lemma buddy_bound: "k < 2 ^ Suc b \<Longrightarrow> buddy_of k < 2 ^ Suc b"
  by (auto simp: buddy_of_def elim!: evenE)

lemma buddy_neq: "buddy_of k \<noteq> k"
  by (auto simp: buddy_of_def elim: oddE)

lemma unmark_closed:
  assumes "tree_closed M" "(b, k) \<in> leaves M"
  shows "tree_closed (M - {node b k})"
  unfolding tree_closed_def
proof (intro allI impI)
  fix c l assume c: "c < 8" "l < 2 ^ Suc c" "node (Suc c) l \<in> M - {node b k}"
  then have m: "node c (l div 2) \<in> M" using assms(1) by (auto simp: tree_closed_def)
  have "l = 2 * (l div 2) \<or> l = 2 * (l div 2) + 1" by linarith
  then have "\<not> leaf M c (l div 2)" using c by (auto simp: leaf_def)
  moreover have "l div 2 < 2 ^ c" using c by (simp add: less_mult_imp_div_less)
  ultimately have "node c (l div 2) \<noteq> node b k" using assms(2) by (auto simp: leaves_def node_eq_iff)
  with m show "node c (l div 2) \<in> M - {node b k}" by simp
qed

lemma leaves_unmark_root: "(0, k) \<in> leaves M \<Longrightarrow> leaves (M - {node 0 k}) = leaves M - {(0, k)}"
  by (auto simp: leaves_def leaf_def node_eq_iff)

lemma leaves_unmark:
  assumes "tree_closed M" "(Suc b, k) \<in> leaves M"
  shows "leaves (M - {node (Suc b) k}) =
    (if node (Suc b) (buddy_of k) \<in> M then {} else {(b, k div 2)}) \<union> (leaves M - {(Suc b, k)})"
proof -
  have bk: "b < 8" "k < 2 ^ Suc b" "node (Suc b) k \<in> M" using assms(2) by (auto simp: leaves_def leaf_def)
  have par: "node b (k div 2) \<in> M" using assms(1) bk by (auto simp: tree_closed_def)
  have k2: "k div 2 < 2 ^ b" using bk(2) by (simp add: less_mult_imp_div_less)
  have kk: "{2 * (k div 2), 2 * (k div 2) + 1} = {k, buddy_of k}" by (auto simp: buddy_of_def elim: oddE)
  have bd: "buddy_of k \<noteq> k" "buddy_of k < 2 ^ Suc b"
    using bk(2) buddy_bound by (auto simp: buddy_of_def elim: oddE)
  have lf: "leaf M' b (k div 2) \<longleftrightarrow> node b (k div 2) \<in> M' \<and> (\<forall>x \<in> {k, buddy_of k}. node (Suc b) x \<notin> M')" for M'
    using bk(1) unfolding kk [symmetric] by (auto simp: leaf_def)
  have "leaf (M - {node (Suc b) k}) c l \<longleftrightarrow>
      (if c = b \<and> l = k div 2 then node (Suc b) (buddy_of k) \<notin> M else leaf M c l \<and> (c, l) \<noteq> (Suc b, k))"
    if cl: "c \<le> 8" "l < 2 ^ c" for c l
  proof (cases "c = b \<and> l = k div 2")
    case True
    then show ?thesis using par k2 bk bd by (auto simp: lf node_eq_iff)
  next
    case False
    have "node (Suc c) (2 * l + e) \<noteq> node (Suc b) k" if "e < 2" for e
    proof -
      have "\<not> (c = b \<and> 2 * l + e = k)" using False that by auto
      moreover have "2 * l + e < 2 ^ Suc c" using cl that by auto
      ultimately show ?thesis using bk(2) by (simp add: node_eq_iff)
    qed
    from this [of 0] this [of 1] False show ?thesis using cl bk by (auto simp: leaf_def node_eq_iff)
  qed
  moreover have "\<not> leaf M b (k div 2)" using bk(3) by (simp add: lf)
  ultimately show ?thesis using bk k2 by (auto simp: leaves_def split: if_splits)
qed

lemma sibling_buddy: "b < 8 \<Longrightarrow> k < 2 ^ Suc b \<Longrightarrow> sibling (node (Suc b) k) = node (Suc b) (buddy_of k)"
  by (simp add: node_sibling buddy_of_def)

lemma merge_up_leaves:
  "length ns = 64 \<Longrightarrow> tree_closed (marks ns) \<Longrightarrow> (b, k) \<in> leaves (marks ns) \<Longrightarrow>
     \<exists>ns'. merge_up ns (node b k) = Some ns' \<and> length ns' = 64 \<and> tree_closed (marks ns') \<and>
       marks ns' \<subseteq> marks ns \<and> leaves (marks ns') = leaves (marks ns) - {(b, k)}"
proof (induction b arbitrary: ns k)
  case 0
  have b: "k < 2 ^ 0" using 0 by (auto simp: leaves_def)
  obtain ns' where n: "unmark ns (node 0 k) = Some ns'" "length ns' = 64" "marks ns' = marks ns - {node 0 k}"
    using unmark_node [OF 0(1) _ b] by auto
  then have "merge_up ns (node 0 k) = Some ns'" using b by (simp add: merge_up.simps [of ns] node_def)
  with n 0 show ?case by (auto simp: leaves_unmark_root unmark_closed)
next
  case (Suc b)
  have b: "b < 8" "Suc b \<le> 8" "k < 2 ^ Suc b" using Suc.prems by (auto simp: leaves_def)
  obtain ns1 where n: "unmark ns (node (Suc b) k) = Some ns1" "length ns1 = 64"
    "marks ns1 = marks ns - {node (Suc b) k}"
    using unmark_node [OF Suc.prems(1) b(2,3)] .
  have tc: "tree_closed (marks ns1)" unfolding n(3) by (rule unmark_closed [OF Suc.prems(2,3)])
  have sib: "node (Suc b) (buddy_of k) \<in> marks ns1 \<longleftrightarrow> node (Suc b) (buddy_of k) \<in> marks ns"
    by (simp add: n(3) node_eq_iff [OF buddy_bound [OF b(3)] b(3)] buddy_neq)
  have step: "merge_up ns (node (Suc b) k) =
      (if node (Suc b) (buddy_of k) \<in> marks ns then Some ns1 else merge_up ns1 (node b (k div 2)))"
    using n node_Suc_pos [of b k] b is_marked_node [OF n(2) b(2) buddy_bound [OF b(3)]] sib
    by (simp add: merge_up.simps [of ns] sibling_buddy node_parent)
  note lv = leaves_unmark [OF Suc.prems(2,3), folded n(3)]
  show ?case
  proof (cases "node (Suc b) (buddy_of k) \<in> marks ns")
    case True
    then show ?thesis using step n tc lv by auto
  next
    case False
    then have "(b, k div 2) \<in> leaves (marks ns1)" using lv by simp
    from Suc.IH [OF n(2) tc this] obtain ns' where "merge_up ns1 (node b (k div 2)) = Some ns'"
      "length ns' = 64" "tree_closed (marks ns')" "marks ns' \<subseteq> marks ns1"
      "leaves (marks ns') = leaves (marks ns1) - {(b, k div 2)}" by blast
    moreover have "(b, k div 2) \<notin> leaves (marks ns)"
    proof -
      have "k = 2 * (k div 2) \<or> k = 2 * (k div 2) + 1" by linarith
      then show ?thesis using Suc.prems(3) by (auto simp: leaves_def leaf_def)
    qed
    ultimately show ?thesis using False step n(3) lv by auto
  qed
qed

section \<open>Finding a live block\<close>

lemma descend_direction:
  assumes "b < t" "t \<le> 8" "k = j div 2 ^ (t - b)"
  shows "p + j * bsz t < p + k * bsz b + bsz (Suc b) \<longleftrightarrow> j div 2 ^ (t - Suc b) = 2 * k"
    "j div 2 ^ (t - Suc b) = 2 * k \<or> j div 2 ^ (t - Suc b) = 2 * k + 1"
proof -
  let ?c = "j div 2 ^ (t - Suc b)"
  have bs: "bsz b = 2 * bsz (Suc b)" using assms by (simp add: bsz_Suc)
  have e: "bsz (Suc b) = 2 ^ (t - Suc b) * bsz t" using assms by (intro bsz_below) auto
  have "?c div 2 = k" using child_parent [OF assms(1), of j] assms(3) by simp
  then show cc: "?c = 2 * k \<or> ?c = 2 * k + 1" by linarith
  have "p + j * bsz t < p + k * bsz b + bsz (Suc b) \<longleftrightarrow> j * bsz t < (2 * k + 1) * 2 ^ (t - Suc b) * bsz t"
    unfolding bs e by (simp add: algebra_simps)
  also have "\<dots> \<longleftrightarrow> j < (2 * k + 1) * 2 ^ (t - Suc b)" by simp
  also have "\<dots> \<longleftrightarrow> ?c < 2 * k + 1" by (rule div_less_iff_less_mult [symmetric]) simp
  finally show "p + j * bsz t < p + k * bsz b + bsz (Suc b) \<longleftrightarrow> ?c = 2 * k" using cc by auto
qed

lemma find_buddy_loop_step:
  assumes "b < t" "t \<le> 8" "k = j div 2 ^ (t - b)"
    and "p + k * bsz b = p + j * bsz t \<Longrightarrow> is_split ns (node b k) b = Some True"
  shows "find_buddy_loop ns (p + j * bsz t) (node b k) b (p + k * bsz b) =
      find_buddy_loop ns (p + j * bsz t) (node (Suc b) (j div 2 ^ (t - Suc b))) (Suc b)
        (p + j div 2 ^ (t - Suc b) * bsz (Suc b))"
proof -
  have bs: "bucket_size (Suc b) = bsz (Suc b)" "bsz b = 2 * bsz (Suc b)"
    using assms by (simp_all add: bucket_size_bsz bsz_Suc)
  show ?thesis
    using assms(4) descend_direction(1) [OF assms(1-3), of p] descend_direction(2) [OF assms(1-3)]
    by (subst find_buddy_loop.simps) (auto simp: bs node_left node_right algebra_simps)
qed

lemma find_buddy_loop_finds:
  assumes len: "length ns = 64" and tc: "tree_closed (marks ns)" and t: "(t, j) \<in> leaves (marks ns)"
  shows "b \<le> t \<Longrightarrow> k = j div 2 ^ (t - b) \<Longrightarrow>
    find_buddy_loop ns (p + j * bsz t) (node b k) b (p + k * bsz b) = Some (node t j, t)"
proof (induction "t - b" arbitrary: b k)
  case 0
  then have "b = t" "k = j" by auto
  moreover have "is_split ns (node t j) t = Some False"
    using t leaf_split [OF len, of t j] by (auto simp: leaves_def leaf_def)
  ultimately show ?case by (simp add: find_buddy_loop.simps)
next
  case (Suc d)
  have t8: "t \<le> 8" "j < 2 ^ t" "node t j \<in> marks ns" using t by (auto simp: leaves_def leaf_def)
  have bt: "b < t" "b < 8" using Suc.hyps(2) t8 by auto
  let ?c = "j div 2 ^ (t - Suc b)"
  have "node (Suc b) ?c \<in> marks ns" using bt by (intro tree_closed_anc [OF tc t8]) simp
  then have "is_split ns (node b k) b = Some True"
    using descend_direction(2) [OF bt(1) t8(1) Suc.prems(2)] is_split_node [OF len, of b k] bt Suc.prems
      div_level [OF t8(2), of b] by auto
  then have "find_buddy_loop ns (p + j * bsz t) (node b k) b (p + k * bsz b) =
      find_buddy_loop ns (p + j * bsz t) (node (Suc b) ?c) (Suc b) (p + ?c * bsz (Suc b))"
    by (rule find_buddy_loop_step [OF bt(1) t8(1) Suc.prems(2)])
  also have "\<dots> = Some (node t j, t)" using Suc.hyps(1) [of "Suc b" ?c] Suc.hyps(2) bt by simp
  finally show ?case .
qed

lemma find_buddy_finds:
  assumes "buddy_inv a" "(t, j) \<in> leaves (marks (nodes a))"
  shows "find_buddy a (page a + j * bsz t) = Some (node t j, t)"
proof -
  have "j < 2 ^ t" using assms(2) by (auto simp: leaves_def)
  then have "find_buddy_loop (nodes a) (page a + j * bsz t) (node 0 0) 0 (page a + 0 * bsz 0) = Some (node t j, t)"
    using assms by (intro find_buddy_loop_finds) (auto simp: buddy_inv_def)
  then show ?thesis by (simp add: find_buddy_def node_0)
qed

section \<open>Shrinking and growing a live block\<close>

lemma fits_stop: "fits t n \<Longrightarrow> b \<le> 8 \<Longrightarrow> n \<le> bucket_size b \<longleftrightarrow> b \<le> t"
proof -
  assume f: "fits t n" and b: "b \<le> 8"
  show ?thesis
  proof (cases "b \<le> t")
    case True
    then show ?thesis using f b bsz_le [of b t] by (simp add: fits_def bucket_size_bsz)
  next
    case False
    then have "Suc t \<le> 8" "bsz b \<le> bsz (Suc t)" using b by (auto intro: bsz_le)
    then show ?thesis using f b False by (simp add: fits_def bucket_size_bsz)
  qed
qed

lemma leaves_mark_left:
  assumes "tree_closed M" "(b, k) \<in> leaves M" "b < 8"
  shows "tree_closed (insert (node (Suc b) (2 * k)) M)"
    "leaves (insert (node (Suc b) (2 * k)) M) = insert (Suc b, 2 * k) (leaves M - {(b, k)})"
proof -
  have bk: "k < 2 ^ b" "2 * k < 2 ^ Suc b" "node b k \<in> M" using assms(2) by (auto simp: leaves_def leaf_def)
  show "tree_closed (insert (node (Suc b) (2 * k)) M)"
    unfolding tree_closed_def
  proof (intro allI impI)
    fix c l assume c: "c < 8" "l < 2 ^ Suc c" "node (Suc c) l \<in> insert (node (Suc b) (2 * k)) M"
    then show "node c (l div 2) \<in> insert (node (Suc b) (2 * k)) M"
      using assms(1) bk by (auto simp: tree_closed_def node_eq_iff)
  qed
  have "leaf (insert (node (Suc b) (2 * k)) M) c l \<longleftrightarrow>
      (c, l) = (Suc b, 2 * k) \<or> (leaf M c l \<and> (c, l) \<noteq> (b, k))" if cl: "c \<le> 8" "l < 2 ^ c" for c l
  proof -
    have ch: "node (Suc c) (2 * l + e) = node (Suc b) (2 * k) \<longleftrightarrow> c = b \<and> l = k \<and> e = 0" if "e < 2" for e
    proof -
      have "2 * l + e < 2 ^ Suc c" using cl that by auto
      moreover have "2 * l + e = 2 * k \<longleftrightarrow> l = k \<and> e = 0" using that by presburger
      ultimately show ?thesis using bk by (simp add: node_eq_iff)
    qed
    have below: "node (Suc (Suc b)) (2 * (2 * k) + e) \<notin> M" if "Suc b < 8" "e < 2" for e
    proof
      assume m: "node (Suc (Suc b)) (2 * (2 * k) + e) \<in> M"
      have "2 * (2 * k) + e < 2 ^ Suc (Suc b)" using bk that by auto
      with m have "node (Suc b) ((2 * (2 * k) + e) div 2) \<in> M"
        using assms(1) that by (auto simp: tree_closed_def)
      moreover have "(2 * (2 * k) + e) div 2 = 2 * k" using that by simp
      ultimately show False using assms(2,3) by (auto simp: leaves_def leaf_def)
    qed
    show ?thesis
    proof (cases "(c, l) = (Suc b, 2 * k)")
      case True
      then show ?thesis using below [of 0] below [of 1] ch [of 0] ch [of 1] by (auto simp: leaf_def)
    next
      case False
      then have "node c l \<noteq> node (Suc b) (2 * k)" using cl bk by (auto simp: node_eq_iff)
      then show ?thesis using False ch [of 0] ch [of 1] assms(3) by (auto simp: leaf_def)
    qed
  qed
  then show "leaves (insert (node (Suc b) (2 * k)) M) = insert (Suc b, 2 * k) (leaves M - {(b, k)})"
    using assms(3) bk by (auto simp: leaves_def)
qed

lemma shrink_loop_leaves:
  assumes f: "fits t n"
  shows "length ns = 64 \<Longrightarrow> tree_closed (marks ns) \<Longrightarrow> marks ns \<subseteq> {..<511} \<Longrightarrow>
    (b, k) \<in> leaves (marks ns) \<Longrightarrow> b \<le> t \<Longrightarrow>
    \<exists>ns'. shrink_loop ns n (node b k) b sh = Some (ns', sh \<or> b < t) \<and> length ns' = 64 \<and>
      tree_closed (marks ns') \<and> marks ns' \<subseteq> {..<511} \<and>
      leaves (marks ns') = insert (t, k * 2 ^ (t - b)) (leaves (marks ns) - {(b, k)})"
proof (induction "t - b" arbitrary: b k ns sh)
  case 0
  then have "b = t" by simp
  then have "shrink_loop ns n (node b k) b sh = Some (ns, sh)"
    using fits_descend [OF f, of t] by (simp add: shrink_loop.simps)
  then show ?case using 0 \<open>b = t\<close> by auto
next
  case (Suc d)
  have bt: "b < t" "b < 8" using Suc.hyps(2) f by (auto simp: fits_def)
  have k2: "2 * k < 2 ^ Suc b" using Suc.prems(4) by (auto simp: leaves_def)
  obtain ns1 where n: "mark ns (node (Suc b) (2 * k)) = Some ns1" "length ns1 = 64"
    "marks ns1 = insert (node (Suc b) (2 * k)) (marks ns)"
    using mark_node [OF Suc.prems(1) _ k2] bt by auto
  have tc: "tree_closed (marks ns1)" and lv: "leaves (marks ns1) = insert (Suc b, 2 * k) (leaves (marks ns) - {(b, k)})"
    unfolding n(3) by (rule leaves_mark_left [OF Suc.prems(2,4) bt(2)])+
  have bd: "marks ns1 \<subseteq> {..<511}" using n(3) Suc.prems(3) node_bound [OF _ k2] bt by auto
  have step: "shrink_loop ns n (node b k) b sh = shrink_loop ns1 n (node (Suc b) (2 * k)) (Suc b) True"
    using fits_descend [OF f, of b] bt n(1)
    by (simp add: shrink_loop.simps [of ns] config_defs node_left)
  have dd: "d = t - Suc b" "Suc b \<le> t" using Suc.hyps(2) bt by auto
  from Suc.hyps(1) [OF dd(1) n(2) tc bd _ dd(2), of "2 * k" True] lv obtain ns' where
    r: "shrink_loop ns1 n (node (Suc b) (2 * k)) (Suc b) True = Some (ns', True)" "length ns' = 64"
      "tree_closed (marks ns')" "marks ns' \<subseteq> {..<511}"
      "leaves (marks ns') = insert (t, 2 * k * 2 ^ (t - Suc b)) (leaves (marks ns1) - {(Suc b, 2 * k)})" by auto
  have "(Suc b, 2 * k) \<notin> leaves (marks ns)" using Suc.prems(4) bt by (auto simp: leaves_def leaf_def)
  moreover have "2 * k * 2 ^ (t - Suc b) = k * 2 ^ (t - b)"
    using bt by (simp add: Suc_diff_Suc flip: power_Suc)
  ultimately have "leaves (marks ns') = insert (t, k * 2 ^ (t - b)) (leaves (marks ns) - {(b, k)})"
    using r(5) lv by auto
  then show ?case using step r bt by auto
qed

lemma shrink_loop_stays: "fits t n \<Longrightarrow> t < b \<Longrightarrow> b \<le> 8 \<Longrightarrow> shrink_loop ns n i b False = Some (ns, False)"
  using fits_stop [of t n "Suc b"] by (auto simp: shrink_loop.simps [of ns] config_defs)

lemma buddy_div: "buddy_of k div 2 = k div 2"
  by (auto simp: buddy_of_def elim: oddE)

lemma grow_loop_leaves:
  assumes f: "fits t n"
  shows "length ns = 64 \<Longrightarrow> tree_closed (marks ns) \<Longrightarrow> (b, k) \<in> leaves (marks ns) \<Longrightarrow> t \<le> b \<Longrightarrow>
    \<exists>ns'. length ns' = 64 \<and> tree_closed (marks ns') \<and> marks ns' \<subseteq> marks ns \<and>
      ((grow_loop ns n (node b k) b = Some (ns', Some (node t (k div 2 ^ (b - t)), t)) \<and>
        leaves (marks ns') = insert (t, k div 2 ^ (b - t)) (leaves (marks ns) - {(b, k)})) \<or>
       (grow_loop ns n (node b k) b = Some (ns', None) \<and> node t (k div 2 ^ (b - t)) \<in> marks ns' \<and>
        leaves (marks ns') = leaves (marks ns) - {(b, k)}))"
proof (induction b arbitrary: ns k)
  case 0
  then have "grow_loop ns n (node 0 k) 0 = Some (ns, Some (node 0 k, 0))"
    using fits_stop [OF f, of 0] by (simp add: grow_loop.simps)
  with 0 show ?case by (intro exI [of _ ns]) auto
next
  case (Suc b)
  have b: "b < 8" "Suc b \<le> 8" "k < 2 ^ Suc b" using Suc.prems by (auto simp: leaves_def)
  show ?case
  proof (cases "Suc b = t")
    case True
    then have "grow_loop ns n (node (Suc b) k) (Suc b) = Some (ns, Some (node (Suc b) k, Suc b))"
      using fits_stop [OF f b(2)] by (simp add: grow_loop.simps [of ns])
    then show ?thesis using True Suc.prems by (intro exI [of _ ns]) auto
  next
    case False
    then have tb: "t \<le> b" "\<not> n \<le> bucket_size (Suc b)" using Suc.prems(4) fits_stop [OF f b(2)] by auto
    obtain ns1 where n: "unmark ns (node (Suc b) k) = Some ns1" "length ns1 = 64"
      "marks ns1 = marks ns - {node (Suc b) k}"
      using unmark_node [OF Suc.prems(1) b(2,3)] .
    have tc: "tree_closed (marks ns1)" unfolding n(3) by (rule unmark_closed [OF Suc.prems(2,3)])
    have sib: "node (Suc b) (buddy_of k) \<in> marks ns1 \<longleftrightarrow> node (Suc b) (buddy_of k) \<in> marks ns"
      by (simp add: n(3) node_eq_iff [OF buddy_bound [OF b(3)] b(3)] buddy_neq)
    have step: "grow_loop ns n (node (Suc b) k) (Suc b) =
        (if node (Suc b) (buddy_of k) \<in> marks ns then Some (ns1, None) else grow_loop ns1 n (node b (k div 2)) b)"
      using n b tb is_marked_node [OF n(2) b(2) buddy_bound [OF b(3)]] sib
      by (simp add: grow_loop.simps [of ns] sibling_buddy node_parent)
    note lv = leaves_unmark [OF Suc.prems(2,3), folded n(3)]
    have kd: "k div 2 div 2 ^ (b - t) = k div 2 ^ (Suc b - t)"
      using tb by (simp add: Suc_diff_le div_mult2_eq)
    show ?thesis
    proof (cases "node (Suc b) (buddy_of k) \<in> marks ns")
      case True
      then have "node t (buddy_of k div 2 ^ (Suc b - t)) \<in> marks ns1"
        using sib by (intro tree_closed_anc [OF tc b(2) buddy_bound [OF b(3)]]) (auto simp: tb(1) le_SucI)
      moreover have "buddy_of k div 2 ^ (Suc b - t) = k div 2 ^ (Suc b - t)"
        using tb by (simp add: Suc_diff_le div_mult2_eq buddy_div)
      ultimately show ?thesis using True step n tc lv by (intro exI [of _ ns1]) auto
    next
      case False
      have "(b, k div 2) \<notin> leaves (marks ns)"
      proof -
        have "k = 2 * (k div 2) \<or> k = 2 * (k div 2) + 1" by linarith
        then show ?thesis using Suc.prems(3) by (auto simp: leaves_def leaf_def)
      qed
      then have l1: "(b, k div 2) \<in> leaves (marks ns1)"
        "leaves (marks ns1) - {(b, k div 2)} = leaves (marks ns) - {(Suc b, k)}" using lv False by auto
      from Suc.IH [OF n(2) tc l1(1) tb(1)] False step n(3) show ?thesis
        unfolding l1(2) kd by auto
    qed
  qed
qed

section \<open>The operations on live blocks\<close>

lemma marked_has_leaf:
  "b \<le> 8 \<Longrightarrow> k < 2 ^ b \<Longrightarrow> node b k \<in> M \<Longrightarrow> \<exists>c l. b \<le> c \<and> (c, l) \<in> leaves M \<and> l div 2 ^ (c - b) = k"
proof (induction "8 - b" arbitrary: b k)
  case 0
  then show ?case by (intro exI [of _ b] exI [of _ k]) (auto simp: leaves_def leaf_def)
next
  case (Suc d)
  show ?case
  proof (cases "leaf M b k")
    case True
    then show ?thesis using Suc by (intro exI [of _ b] exI [of _ k]) (auto simp: leaves_def)
  next
    case False
    then have "\<exists>e < 2. b < 8 \<and> node (Suc b) (2 * k + e) \<in> M"
      using Suc.prems by (auto simp: leaf_def intro: exI [of _ 0] exI [of _ 1])
    then obtain e where e: "e < 2" "b < 8" "node (Suc b) (2 * k + e) \<in> M" by blast
    have "2 * k + e < 2 ^ Suc b" using e Suc.prems by auto
    moreover have "d = 8 - Suc b" using Suc.hyps(2) by linarith
    ultimately obtain c l where
      c: "Suc b \<le> c" "(c, l) \<in> leaves M" "l div 2 ^ (c - Suc b) = 2 * k + e"
      using Suc.hyps(1) [of "Suc b" "2 * k + e"] e by auto
    have "l div 2 ^ (c - b) = k" using child_parent [of b c l] c e by simp
    then show ?thesis using c by (intro exI [of _ c] exI [of _ l]) auto
  qed
qed

lemma block_range: "l div 2 ^ e = k \<Longrightarrow> k * 2 ^ e \<le> l \<and> l < k * 2 ^ e + (2::nat) ^ e"
  using div_times_less_eq_dividend [of l "2 ^ e"] dividend_less_div_times [of "2 ^ e" l] by auto

lemma nested_overlap:
  assumes "b \<le> c" "c \<le> 8" "l div 2 ^ (c - b) = k"
  shows "\<not> apart (p + k * bsz b, bsz b) (p + l * bsz c, bsz c)"
proof -
  let ?e = "2 ^ (c - b) :: nat"
  have bs: "bsz b = ?e * bsz c" using assms by (intro bsz_below)
  have "k * ?e \<le> l" "l < k * ?e + ?e"
    using block_range [OF assms(3)] by auto
  then have "k * ?e * bsz c \<le> l * bsz c" "l * bsz c < (k * ?e + ?e) * bsz c" by simp_all
  then have "k * bsz b \<le> l * bsz c" "l * bsz c < k * bsz b + bsz b" by (simp_all add: bs algebra_simps)
  then show ?thesis using bsz_pos [of c] by (simp add: apart_def del: bsz_pos)
qed

lemma not_free_overlaps:
  assumes "t \<le> 8" "j < 2 ^ t" "\<not> free_block (marks (nodes a)) t j"
  shows "\<exists>r \<in> live a. \<not> apart (page a + j * bsz t, bsz t) r"
proof -
  let ?M = "marks (nodes a)"
  consider (marked) "node t j \<in> ?M" | (above) b where "b < t" "leaf ?M b (j div 2 ^ (t - b))"
    using assms(3) by (auto simp: free_block_def)
  then show ?thesis
  proof cases
    case marked
    from marked_has_leaf [OF assms(1,2) this] obtain c l where
      c: "t \<le> c" "(c, l) \<in> leaves ?M" "l div 2 ^ (c - t) = j" by blast
    then have "\<not> apart (page a + j * bsz t, bsz t) (region (page a) (c, l))"
      unfolding region_def by (simp add: nested_overlap leaves_def)
    then show ?thesis using c by (auto simp: live_def)
  next
    case above
    let ?k = "j div 2 ^ (t - b)"
    have "(b, ?k) \<in> leaves ?M" using above assms div_level [OF assms(2), of b] by (auto simp: leaves_def)
    moreover have "\<not> apart (page a + j * bsz t, bsz t) (region (page a) (b, ?k))"
      unfolding region_def using nested_overlap [of b t j ?k "page a"] above(1) assms(1)
      by (simp add: apart_sym)
    ultimately show ?thesis by (auto simp: live_def)
  qed
qed

lemma deallocate_live:
  assumes "buddy_inv a" "(p, s) \<in> live a"
  obtains a' where "buddy_allocator_deallocate a p = Some a'" "buddy_inv a'" "page a' = page a"
    "live a' = live a - {(p, s)}"
proof -
  from assms(2) obtain b k where bk: "(b, k) \<in> leaves (marks (nodes a))" "p = page a + k * bsz b"
    "(p, s) = region (page a) (b, k)" by (rule liveE)
  have inv: "length (nodes a) = 64" "tree_closed (marks (nodes a))" "marks (nodes a) \<subseteq> {..<511}"
    using assms(1) by (auto simp: buddy_inv_def)
  from merge_up_leaves [OF inv(1,2) bk(1)] obtain ns where
    ns: "merge_up (nodes a) (node b k) = Some ns" "length ns = 64" "tree_closed (marks ns)"
      "marks ns \<subseteq> marks (nodes a)" "leaves (marks ns) = leaves (marks (nodes a)) - {(b, k)}" by blast
  have "buddy_allocator_deallocate a p = Some (a\<lparr>nodes := ns\<rparr>)"
    using find_buddy_finds [OF assms(1) bk(1)] ns(1) bk(2) by (simp add: buddy_allocator_deallocate_def)
  moreover have "live (a\<lparr>nodes := ns\<rparr>) = live a - {(p, s)}"
    using region_remove [OF bk(1)] by (simp add: live_def ns(5) bk(3))
  ultimately show thesis using ns inv that by (auto simp: buddy_inv_def)
qed

text \<open>The two ways a block is moved never copy between overlapping regions.\<close>

lemma grown_apart:
  assumes "t \<le> b" "b \<le> 8" "l = k div 2 ^ (b - t)" "l * bsz t \<noteq> k * bsz b"
  shows "l * bsz t + bsz b \<le> k * bsz b" "k * bsz b + bsz b \<le> l * bsz t + bsz t"
proof -
  let ?e = "2 ^ (b - t) :: nat"
  have bs: "bsz t = ?e * bsz b" using assms by (intro bsz_below)
  have le: "l * ?e \<le> k" "k < l * ?e + ?e"
    using block_range [OF assms(3) [symmetric]] by auto
  moreover have "l * ?e \<noteq> k" using assms(4) bs by auto
  ultimately have "l * ?e + 1 \<le> k" "k + 1 \<le> l * ?e + ?e" by linarith+
  then have "(l * ?e + 1) * bsz b \<le> k * bsz b" "(k + 1) * bsz b \<le> (l * ?e + ?e) * bsz b"
    by (intro mult_le_mono1; simp)+
  then show "l * bsz t + bsz b \<le> k * bsz b" "k * bsz b + bsz b \<le> l * bsz t + bsz t"
    by (simp_all add: bs algebra_simps)
qed

lemma moved_apart:
  assumes "tree_closed M" "node t (k div 2 ^ (b - t)) \<in> M" "free_block M t j" "t \<le> b" "b \<le> 8"
  shows "apart (p + j * bsz t, bsz t) (p + k * bsz b, bsz b)"
proof -
  have "k div 2 ^ (b - t) \<noteq> j" using assms(2,3) by (auto simp: free_block_def)
  from region_order [OF assms(4,5) this] show ?thesis by (auto simp: apart_def)
qed

lemma live_pairwise: "buddy_inv a \<Longrightarrow> pairwise apart (live a)"
  using live_apart by (auto simp: pairwise_def)

lemma reallocate_shrink:
  assumes inv: "buddy_inv a" and lv: "(b, k) \<in> leaves (marks (nodes a))" and f: "fits t n" and le: "b \<le> t"
    and p: "p = page a + k * bsz b" "p \<noteq> 0"
  shows "\<exists>a'. buddy_allocator_reallocate a p n h = Some (p, bsz b, a', h) \<and> buddy_inv a' \<and>
    page a' = page a \<and> live a' = insert (p, bsz t) (live a - {(p, bsz b)})"
proof -
  let ?M = "marks (nodes a)"
  have b: "b \<le> 8" "t \<le> 8" "k < 2 ^ b" using lv f by (auto simp: leaves_def fits_def)
  have i: "length (nodes a) = 64" "tree_closed ?M" "?M \<subseteq> {..<511}" using inv by (auto simp: buddy_inv_def)
  obtain ns where ns: "shrink_loop (nodes a) n (node b k) b False = Some (ns, b < t)" "length ns = 64"
    "tree_closed (marks ns)" "marks ns \<subseteq> {..<511}"
    "leaves (marks ns) = insert (t, k * 2 ^ (t - b)) (leaves ?M - {(b, k)})"
    using shrink_loop_leaves [OF f i lv le, of False] by auto
  let ?a = "if b < t then a\<lparr>nodes := ns\<rparr> else a"
  have "n \<le> bucket_size b" using fits_stop [OF f b(1)] le by simp
  then have "buddy_allocator_reallocate a p n h = Some (p, bsz b, ?a, h)"
    using find_buddy_finds [OF inv lv] ns(1) b(1) p
    by (simp add: buddy_allocator_reallocate_def bucket_size_bsz Let_def)
  moreover have "buddy_inv ?a" using inv ns by (simp add: buddy_inv_def)
  moreover have "live ?a = insert (p, bsz t) (live a - {(p, bsz b)})"
  proof (cases "b < t")
    case True
    have e: "k * 2 ^ (t - b) * bsz t = k * bsz b" using le b bsz_below [of b t] by simp
    show ?thesis using True ns(5) region_remove [OF lv, of "page a"] p by (simp add: live_def region_def e)
  next
    case False
    moreover have "(p, bsz b) \<in> live a" 
      using imageI [OF lv, of "region (page a)"] p by (simp add: live_def region_def)
    ultimately show ?thesis using le by auto
  qed
  ultimately show ?thesis by (intro exI [of _ ?a]) simp
qed

text \<open>Growing: either the buddies above were free, or the block is given up and a new one searched.\<close>

lemma reallocate_grow_unfold:
  assumes inv: "buddy_inv a" and lv: "(b, k) \<in> leaves (marks (nodes a))" and f: "fits t n" and lt: "t < b"
    and p: "p = page a + k * bsz b"
  shows "buddy_allocator_reallocate a p n h =
      Option.bind (grow_loop (nodes a) n (node b k) b) (\<lambda>(ns', r).
       case r of
         Some (i', bucket') \<Rightarrow>
           (let new = node_to_pointer a i' bucket'
            in map_option (\<lambda>h'. (new, bsz b, a\<lparr>nodes := ns'\<rparr>, h'))
                 (if new \<noteq> p then memcpy new p (bsz b) h else Some h))
       | None \<Rightarrow>
           Option.bind (buddy_allocator_allocate (a\<lparr>nodes := ns'\<rparr>) n) (\<lambda>(new, a').
           if new = 0 then Some (0, bsz b, a', h)
           else map_option (\<lambda>h'. (new, bsz b, a', h')) (memcpy new p (bsz b) h)))"
proof -
  have b: "b \<le> 8" "n \<le> 4096" using lv f bsz_le [of 0 t] by (auto simp: leaves_def fits_def bsz_def)
  have bs: "bucket_size b = bsz b" using b(1) by (simp add: bucket_size_bsz)
  have fnd: "find_buddy a p = Some (node b k, b)" using find_buddy_finds [OF inv lv] p by simp
  have "\<not> n \<le> bsz b" using fits_stop [OF f b(1)] lt bs by simp
  then show ?thesis
    unfolding buddy_allocator_reallocate_def fnd
    using shrink_loop_stays [OF f lt b(1)] b(2)
    by (simp add: bs Let_def config_defs cong del: option.case_cong_weak if_weak_cong)
qed

definition moves_ok :: "(nat \<times> nat) set \<Rightarrow> (nat \<times> nat) set \<Rightarrow> nat \<times> nat \<Rightarrow> nat \<times> nat \<Rightarrow> (nat \<Rightarrow> u8) \<Rightarrow> (nat \<Rightarrow> u8) \<Rightarrow> bool" where
  "moves_ok L L' r r' h h' \<longleftrightarrow> L' = insert r' (L - {r}) \<and> r' \<notin> L - {r} \<and> snd r \<le> snd r' \<and>
     (fst r' = fst r \<and> h' = h \<or> memcpy (fst r') (fst r) (snd r) h = Some h')"

lemma reallocate_merge:
  assumes inv: "buddy_inv a" and lv: "(b, k) \<in> leaves (marks (nodes a))" and f: "fits t n" and lt: "t < b"
    and p: "p = page a + k * bsz b"
    and g: "grow_loop (nodes a) n (node b k) b = Some (ns, Some (node t l, t))"
      "leaves (marks ns) = insert (t, l) (leaves (marks (nodes a)) - {(b, k)})" "l = k div 2 ^ (b - t)"
    and inv': "buddy_inv (a\<lparr>nodes := ns\<rparr>)"
  shows "\<exists>h'. buddy_allocator_reallocate a p n h = Some (page a + l * bsz t, bsz b, a\<lparr>nodes := ns\<rparr>, h') \<and>
    moves_ok (live a) (live (a\<lparr>nodes := ns\<rparr>)) (p, bsz b) (page a + l * bsz t, bsz t) h h'"
proof -
  let ?M = "marks (nodes a)" and ?q = "page a + l * bsz t"
  have b: "b \<le> 8" "t \<le> 8" "k < 2 ^ b" "l < 2 ^ t" "bsz b \<le> bsz t"
    using lv f lt g(3) div_level [of k b t] by (auto simp: leaves_def fits_def intro: bsz_le)
  have live': "live (a\<lparr>nodes := ns\<rparr>) = insert (?q, bsz t) (live a - {(p, bsz b)})"
    using region_remove [OF lv, of "page a"] p by (simp add: live_def region_def g(2))
  have new: "(?q, bsz t) \<notin> live a"
  proof -
    have "(t, l) \<notin> leaves ?M"
      using leaves_not_nested [of ?M t l b k] inv lv lt b g(3) by (auto simp: leaves_def leaf_def buddy_inv_def)
    then show ?thesis using region_in [OF b(2,4)] by (simp add: live_def region_def)
  qed
  show ?thesis
  proof (cases "?q = p")
    case True
    then have "buddy_allocator_reallocate a p n h = Some (?q, bsz b, a\<lparr>nodes := ns\<rparr>, h)"
      using b by (simp add: reallocate_grow_unfold [OF inv lv f lt p] g(1) node_pointer)
    then show ?thesis using True live' new b by (auto simp: moves_ok_def)
  next
    case False
    then have "apart (?q, bsz b) (p, bsz b)"
      using grown_apart [of t b l k] lt b g(3) p by (simp add: apart_def)
    then obtain h' where h: "memcpy ?q p (bsz b) h = Some h'" by (rule memcpy_apart)
    have "buddy_allocator_reallocate a p n h = Some (?q, bsz b, a\<lparr>nodes := ns\<rparr>, h')"
      using b False h by (simp add: reallocate_grow_unfold [OF inv lv f lt p] g(1) node_pointer)
    then show ?thesis using h live' new b by (auto simp: moves_ok_def)
  qed
qed

lemma reallocate_move:
  assumes inv: "buddy_inv a" and lv: "(b, k) \<in> leaves (marks (nodes a))" and f: "fits t n" and lt: "t < b"
    and p: "p = page a + k * bsz b" "page a \<noteq> 0"
    and g: "grow_loop (nodes a) n (node b k) b = Some (ns, None)" "node t (k div 2 ^ (b - t)) \<in> marks ns"
      "leaves (marks ns) = leaves (marks (nodes a)) - {(b, k)}"
    and inv': "buddy_inv (a\<lparr>nodes := ns\<rparr>)"
  shows "\<exists>q a' h'. buddy_allocator_reallocate a p n h = Some (q, bsz b, a', h') \<and> buddy_inv a' \<and>
    page a' = page a \<and> (q = 0 \<and> h' = h \<and> live a' = live a - {(p, bsz b)} \<and> buddy_allocator_allocate a' n = Some (0, a') \<or>
      q \<noteq> 0 \<and> moves_ok (live a) (live a') (p, bsz b) (q, bsz t) h h')"
proof -
  let ?a = "a\<lparr>nodes := ns\<rparr>"
  have b: "b \<le> 8" "t \<le> 8" "bsz b \<le> bsz t"
    using lv f lt by (auto simp: leaves_def fits_def intro: bsz_le)
  have live': "live ?a = live a - {(p, bsz b)}"
    using region_remove [OF lv, of "page a"] p by (simp add: live_def region_def g(3))
  show ?thesis
  proof (rule allocate_cases [OF inv' f])
    assume full: "buddy_allocator_allocate ?a n = Some (0, ?a)"
    then have "buddy_allocator_reallocate a p n h = Some (0, bsz b, ?a, h)"
      by (simp add: reallocate_grow_unfold [OF inv lv f lt p(1)] g(1))
    then show ?thesis using live' inv' full by simp
  next
    fix j ns' assume j: "buddy_allocator_allocate ?a n = Some (page ?a + j * bsz t, ?a\<lparr>nodes := ns'\<rparr>)"
      "j < 2 ^ t" "free_block (marks (nodes ?a)) t j" "length ns' = 64" "marks ns' = marks (nodes ?a) \<union> path t j"
    let ?q = "page a + j * bsz t"
    note al = allocate_live [OF inv' b(2) j(2-5)]
    have "apart (?q, bsz t) (p, bsz b)"
      using moved_apart [of "marks ns" t k b j "page a"] inv' g(2) j(3) lt b p by (simp add: buddy_inv_def)
    then have "apart (?q, bsz b) (p, bsz b)" using b by (auto simp: apart_def)
    then obtain h' where h: "memcpy ?q p (bsz b) h = Some h'" by (rule memcpy_apart)
    have "buddy_allocator_reallocate a p n h = Some (?q, bsz b, ?a\<lparr>nodes := ns'\<rparr>, h')"
      using p(2) j(1) h by (simp add: reallocate_grow_unfold [OF inv lv f lt p(1)] g(1))
    moreover have "moves_ok (live a) (live (?a\<lparr>nodes := ns'\<rparr>)) (p, bsz b) (?q, bsz t) h h'"
      using al(2,3) live' h b by (simp add: moves_ok_def)
    ultimately show ?thesis using al(1) p(2) by (intro exI [of _ ?q] exI [of _ "?a\<lparr>nodes := ns'\<rparr>"] exI [of _ h']) simp
  qed
qed

lemma moves_realloc_ok:
  assumes "moves_ok L L' (p, s) (q, m) h h'" "n \<le> m" "q \<noteq> 0"
  shows "realloc_ok L L' p s n q h h'"
proof (rule realloc_okI [OF assms(3,2)])
  show "h' = h \<and> q = p \<or> s \<le> m \<and> (\<forall>i < s. h' (q + i) = h (p + i)) \<and> (\<forall>x. \<not> in_region q s x \<longrightarrow> h' x = h x)"
    using assms(1) by (auto simp: moves_ok_def memcpy_def in_region_def split: if_splits)
qed (use assms in \<open>auto simp: moves_ok_def\<close>)

lemma reallocate_live:
  assumes inv: "buddy_inv a" and pg: "page a \<noteq> 0" and lv: "(p, s) \<in> live a" and f: "fits t n"
  shows "\<exists>q a' h'. buddy_allocator_reallocate a p n h = Some (q, s, a', h') \<and> buddy_inv a' \<and>
    page a' = page a \<and> realloc_ok (live a) (live a') p s n q h h' \<and>
    (q = 0 \<longrightarrow> buddy_allocator_allocate a' n = Some (0, a') \<and> s < n)"
proof -
  from lv obtain b k where b: "b \<le> 8" "(b, k) \<in> leaves (marks (nodes a))" "p = page a + k * bsz b" "s = bsz b"
    by (rule liveE)
  have n: "n \<le> bsz t" "p \<noteq> 0" using f pg b(3) by (auto simp: fits_def)
  consider "b \<le> t" | "t < b" by linarith
  then show ?thesis
  proof cases
    case 1
    from reallocate_shrink [OF inv b(2) f 1 b(3) n(2)] obtain a' where
      a': "buddy_allocator_reallocate a p n h = Some (p, bsz b, a', h)" "buddy_inv a'" "page a' = page a"
        "live a' = insert (p, bsz t) (live a - {(p, bsz b)})" by blast
    have "(p, bsz t) \<notin> live a - {(p, s)}"
      using live_apart [OF inv _ lv, of "(p, bsz t)"] live_in_page [OF lv] by (auto simp: apart_def)
    then have "realloc_ok (live a) (live a') p s n p h h"
      using a'(4) b(4) by (intro realloc_okI [OF n(2,1)]) auto
    with a' b(4) n(2) show ?thesis by blast
  next
    case 2
    have i: "length (nodes a) = 64" "tree_closed (marks (nodes a))" "t \<le> b"
      using inv 2 by (auto simp: buddy_inv_def)
    have sn: "s < n" using fits_stop [OF f b(1)] 2 b(1,4) by (simp add: bucket_size_bsz)
    from grow_loop_leaves [OF f i(1,2) b(2) i(3)] obtain ns where
      ns: "length ns = 64" "tree_closed (marks ns)" "marks ns \<subseteq> marks (nodes a)" and
      alt: "(grow_loop (nodes a) n (node b k) b = Some (ns, Some (node t (k div 2 ^ (b - t)), t)) \<and>
          leaves (marks ns) = insert (t, k div 2 ^ (b - t)) (leaves (marks (nodes a)) - {(b, k)})) \<or>
         (grow_loop (nodes a) n (node b k) b = Some (ns, None) \<and> node t (k div 2 ^ (b - t)) \<in> marks ns \<and>
          leaves (marks ns) = leaves (marks (nodes a)) - {(b, k)})"
      by blast
    have inv': "buddy_inv (a\<lparr>nodes := ns\<rparr>)" using inv ns by (auto simp: buddy_inv_def)
    from alt show ?thesis
    proof (elim disjE conjE)
      assume g: "grow_loop (nodes a) n (node b k) b = Some (ns, Some (node t (k div 2 ^ (b - t)), t))"
        "leaves (marks ns) = insert (t, k div 2 ^ (b - t)) (leaves (marks (nodes a)) - {(b, k)})"
      from reallocate_merge [OF inv b(2) f 2 b(3) g refl inv'] show ?thesis
        using moves_realloc_ok [OF _ n(1)] pg inv' b(4) by fastforce
    next
      assume g: "grow_loop (nodes a) n (node b k) b = Some (ns, None)" "node t (k div 2 ^ (b - t)) \<in> marks ns"
        "leaves (marks ns) = leaves (marks (nodes a)) - {(b, k)}"
      from reallocate_move [OF inv b(2) f 2 b(3) pg g inv', of h] obtain q a' h' where
        r: "buddy_allocator_reallocate a p n h = Some (q, bsz b, a', h')" "buddy_inv a'" "page a' = page a"
        "q = 0 \<and> h' = h \<and> live a' = live a - {(p, bsz b)} \<and> buddy_allocator_allocate a' n = Some (0, a') \<or>
          q \<noteq> 0 \<and> moves_ok (live a) (live a') (p, bsz b) (q, bsz t) h h'" by blast
      then have "realloc_ok (live a) (live a') p s n q h h'"
        using moves_realloc_ok [OF _ n(1)] b(4) realloc_ok_null by metis
      with r b(4) sn show ?thesis by blast
    qed
  qed
qed

lemma allocate_outcome:
  assumes inv: "buddy_inv a" and pg: "page a \<noteq> 0" and f: "fits t n"
  shows "\<exists>q a'. buddy_allocator_allocate a n = Some (q, a') \<and> buddy_inv a' \<and> page a' = page a \<and>
    (if q = 0
     then a' = a \<and> (\<forall>j < 2 ^ t. \<exists>r \<in> live a. \<not> apart (page a + j * bsz t, bsz t) r)
     else (\<exists>j < 2 ^ t. q = page a + j * bsz t) \<and> (q, bsz t) \<notin> live a \<and>
          live a' = insert (q, bsz t) (live a))"
proof -
  have t8: "t \<le> 8" using f by (simp add: fits_def)
  show ?thesis
  proof (rule allocate_cases [OF inv f])
    assume "buddy_allocator_allocate a n = Some (0, a)" "\<forall>j < 2 ^ t. \<not> free_block (marks (nodes a)) t j"
    then show ?thesis using not_free_overlaps [OF t8] inv by auto
  next
    fix j ns assume "buddy_allocator_allocate a n = Some (page a + j * bsz t, a\<lparr>nodes := ns\<rparr>)" and
      j: "j < 2 ^ t" "free_block (marks (nodes a)) t j" "length ns = 64" "marks ns = marks (nodes a) \<union> path t j"
    then show ?thesis using allocate_live [OF inv t8 j] pg by auto
  qed
qed

interpretation buddy: heap_contract "\<lambda>a. buddy_inv a \<and> page a \<noteq> 0" live "\<lambda>n. 0 < n \<and> n \<le> 4096"
  buddy_allocator_allocate buddy_allocator_deallocate "\<lambda>s r. False"
proof
  fix a and n :: nat assume a: "buddy_inv a \<and> page a \<noteq> 0" and n: "0 < n \<and> n \<le> 4096"
  obtain t where t: "fits t n" using fits_exists n by blast
  then have "n \<le> bsz t" by (simp add: fits_def)
  with allocate_outcome [of a t n] a t
  show "\<exists>q s'. buddy_allocator_allocate a n = Some (q, s') \<and> (buddy_inv s' \<and> page s' \<noteq> 0) \<and>
      (q = 0 \<and> live s' = live a \<or> q \<noteq> 0 \<and> (\<exists>m \<ge> n. (q, m) \<notin> live a \<and> live s' = insert (q, m) (live a)))"
    by (metis (full_types))
next
  fix a q m assume "buddy_inv a \<and> page a \<noteq> 0" "(q, m) \<in> live a"
  then show "\<exists>s'. buddy_allocator_deallocate a q = Some s' \<and> (buddy_inv s' \<and> page s' \<noteq> 0) \<and> live s' = live a - {(q, m)}"
    using deallocate_live [of a q m] by metis
next
  show "apart r r'" if "buddy_inv s \<and> page s \<noteq> 0" "r \<in> live s" "r' \<in> live s" "r \<noteq> r'" for s r r'
    using that live_apart by blast
  show "0 < m" if "buddy_inv s \<and> page s \<noteq> 0" "(q, m) \<in> live s" for s q m
    using that live_in_page by blast
qed simp_all

section \<open>Returning a block that is free already\<close>

text \<open>
  After a failed reallocation \<open>buddy_block_reallocate\<close> returns the old block a second time.
  The search then stops at an unmarked node, and neither unmarking nor merging changes a mark.
\<close>

lemma find_buddy_loop_free:
  assumes len: "length ns = 64" and tc: "tree_closed (marks ns)" and t: "t \<le> 8" "j < 2 ^ t" "free_block (marks ns) t j"
  shows "b \<le> t \<Longrightarrow> k = j div 2 ^ (t - b) \<Longrightarrow>
    \<exists>c. c \<le> t \<and> node c (j div 2 ^ (t - c)) \<notin> marks ns \<and>
      find_buddy_loop ns (p + j * bsz t) (node b k) b (p + k * bsz b) = Some (node c (j div 2 ^ (t - c)), c)"
proof (induction "t - b" arbitrary: b k)
  case 0
  then have "b = t" "k = j" by auto
  moreover have "node t j \<notin> marks ns" using t(3) by (simp add: free_block_def)
  moreover have "is_split ns (node t j) t = Some False"
  proof -
    have "node (Suc t) (2 * j + e) \<notin> marks ns" if "t < 8" "e < 2" for e
      using free_below_unmarked [OF tc \<open>node t j \<notin> marks ns\<close>, of "Suc t" "2 * j + e"] that t by auto
    from this [of 0] this [of 1] show ?thesis using is_split_node [OF len t(1,2)] by auto
  qed
  ultimately show ?case by (intro exI [of _ t]) (simp add: find_buddy_loop.simps)
next
  case (Suc d)
  then have bt: "b < t" "k < 2 ^ b" "b \<le> 8" using t div_level [OF t(2), of b] by auto
  show ?case
  proof (cases "k * bsz b = j * bsz t \<and> is_split ns (node b k) b = Some False")
    case True
    have "\<not> leaf (marks ns) b k" using t(3) bt Suc.prems by (simp add: free_block_def)
    then have "node b k \<notin> marks ns" using True leaf_split [OF len bt(3,2)] by auto
    then show ?thesis using True Suc.prems bt by (intro exI [of _ b]) (simp add: find_buddy_loop.simps)
  next
    case False
    let ?c = "j div 2 ^ (t - Suc b)"
    have "is_split ns (node b k) b = Some True" if "p + k * bsz b = p + j * bsz t"
      using False that is_split_node [OF len bt(3,2)] by auto
    from find_buddy_loop_step [OF bt(1) t(1) Suc.prems(2) this]
    show ?thesis using Suc.hyps(1) [of "Suc b" ?c] Suc.hyps(2) bt by simp
  qed
qed

lemma merge_up_free:
  "length ns = 64 \<Longrightarrow> tree_closed (marks ns) \<Longrightarrow> b \<le> 8 \<Longrightarrow> k < 2 ^ b \<Longrightarrow> node b k \<notin> marks ns \<Longrightarrow>
   \<forall>c < b. \<not> leaf (marks ns) c (k div 2 ^ (b - c)) \<Longrightarrow>
   \<exists>ns'. merge_up ns (node b k) = Some ns' \<and> length ns' = 64 \<and> marks ns' = marks ns"
proof (induction b arbitrary: ns k)
  case 0
  then obtain ns' where "unmark ns (node 0 k) = Some ns'" "length ns' = 64" "marks ns' = marks ns - {node 0 k}"
    using unmark_node [of ns 0 k] by auto
  then show ?case using 0 by (simp add: merge_up.simps [of ns] node_def)
next
  case (Suc b)
  obtain ns1 where n: "unmark ns (node (Suc b) k) = Some ns1" "length ns1 = 64" "marks ns1 = marks ns"
    using unmark_node [OF Suc.prems(1,3,4)] Suc.prems(5) by auto
  have step: "merge_up ns (node (Suc b) k) =
      (if node (Suc b) (buddy_of k) \<in> marks ns then Some ns1 else merge_up ns1 (node b (k div 2)))"
    using n node_Suc_pos [of b k] Suc.prems is_marked_node [OF n(2) Suc.prems(3) buddy_bound [OF Suc.prems(4)]]
    by (simp add: merge_up.simps [of ns] sibling_buddy node_parent)
  show ?case
  proof (cases "node (Suc b) (buddy_of k) \<in> marks ns")
    case False
    have kk: "{2 * (k div 2), 2 * (k div 2) + 1} = {k, buddy_of k}" by (auto simp: buddy_of_def elim: oddE)
    have "\<not> leaf (marks ns) b (k div 2)" using Suc.prems(6) by (elim allE [of _ b]) simp
    moreover have "\<forall>x \<in> {2 * (k div 2), 2 * (k div 2) + 1}. node (Suc b) x \<notin> marks ns"
      using False Suc.prems(5) unfolding kk by simp
    ultimately have "node b (k div 2) \<notin> marks ns" by (auto simp: leaf_def)
    moreover have "\<forall>c < b. \<not> leaf (marks ns1) c (k div 2 div 2 ^ (b - c))"
      using Suc.prems(6) n(3) by (auto simp: Suc_diff_le div_mult2_eq)
    moreover have "k div 2 < 2 ^ b" "b \<le> 8" using Suc.prems by (auto simp: less_mult_imp_div_less)
    ultimately show ?thesis using Suc.IH [OF n(2), of "k div 2"] Suc.prems(2) n(3) False step by auto
  qed (use step n in auto)
qed

lemma deallocate_free_harmless:
  assumes "buddy_inv a" "t \<le> 8" "j < 2 ^ t" "\<forall>r \<in> live a. apart (page a + j * bsz t, bsz t) r"
  shows "\<exists>a'. buddy_allocator_deallocate a (page a + j * bsz t) = Some a' \<and> buddy_inv a' \<and>
    page a' = page a \<and> live a' = live a"
proof -
  have i: "length (nodes a) = 64" "tree_closed (marks (nodes a))" using assms(1) by (auto simp: buddy_inv_def)
  have fr: "free_block (marks (nodes a)) t j" using not_free_overlaps [OF assms(2,3)] assms(4) by blast
  have "\<exists>c. c \<le> t \<and> node c (j div 2 ^ (t - c)) \<notin> marks (nodes a) \<and>
      find_buddy_loop (nodes a) (page a + j * bsz t) (node 0 0) 0 (page a + 0 * bsz 0) = Some (node c (j div 2 ^ (t - c)), c)"
    using assms(3) by (intro find_buddy_loop_free [OF i assms(2,3) fr]) auto
  then obtain c where c: "c \<le> t" "node c (j div 2 ^ (t - c)) \<notin> marks (nodes a)"
      "find_buddy a (page a + j * bsz t) = Some (node c (j div 2 ^ (t - c)), c)"
    by (auto simp: find_buddy_def node_0)
  have "\<forall>d < c. \<not> leaf (marks (nodes a)) d (j div 2 ^ (t - c) div 2 ^ (c - d))"
    using fr c(1) by (auto simp: free_block_def div_div_level)
  with merge_up_free [OF i _ div_level [OF assms(3) c(1)] c(2)] c(1) assms(2) obtain ns where
    "merge_up (nodes a) (node c (j div 2 ^ (t - c))) = Some ns" "length ns = 64" "marks ns = marks (nodes a)" by auto
  then show ?thesis
    using c(3) assms(1) by (auto simp: buddy_allocator_deallocate_def buddy_inv_def live_def)
qed

section \<open>Properties\<close>

text \<open>A page with nothing in it, and one that is handed out whole.\<close>

definition empty_buddy :: BuddyAllocator where
  "empty_buddy = \<lparr>page = 4096, nodes = replicate 64 0\<rparr>"

definition full_buddy :: BuddyAllocator where
  "full_buddy = \<lparr>page = 4096, nodes = 1 # replicate 63 0\<rparr>"

lemma marks_empty: "marks (replicate n 0) = {}"
  by (auto simp: marks_def)

lemma marks_one: "marks (1 # replicate n 0) = {0}"
proof (intro set_eqI iffI)
  fix i assume "i \<in> marks (1 # replicate n 0)"
  then have "i div 8 = 0 \<and> i mod 8 = 0"
    by (cases "i div 8") (auto simp: marks_def bit_1_iff)
  then show "i \<in> {0}" by (metis div_mult_mod_eq mult_0 add_0 singleton_iff)
qed (auto simp: marks_def bit_1_iff)

lemma empty_buddy_inv: "buddy_inv empty_buddy" "live empty_buddy = {}"
  by (simp_all add: empty_buddy_def buddy_inv_def marks_empty tree_closed_def live_def leaves_def leaf_def)

lemma full_buddy_inv: "buddy_inv full_buddy"
  by (simp add: full_buddy_def buddy_inv_def marks_one tree_closed_def less_imp_neq [OF node_Suc_pos, symmetric])

lemma full_buddy_live: "live full_buddy = {(4096, 4096)}"
proof -
  have "leaf {0} b k \<longleftrightarrow> b = 0" if "k < 2 ^ b" for b k
    using node_eq_0 [OF that] node_Suc_pos [of b] by (auto simp: leaf_def)
  then have "leaves {0} = {(0, 0)}" by (auto simp: leaves_def)
  then show ?thesis by (simp add: live_def full_buddy_def marks_one region_def bsz_def)
qed

text \<open>
  C29. A request of 1 to 4096 bytes to \<open>buddy_allocator_allocate\<close> terminates inside the
  bitmap. It returns NULL and leaves the allocator alone only if every block of the fitting
  size overlaps a live allocation; otherwise it returns an aligned block of the smallest
  sufficient size, which becomes live and was not before, and the invariant is kept.
\<close>

theorem buddy_allocate_correct:
  assumes "buddy_inv a" "page a \<noteq> 0" "0 < n" "n \<le> 4096"
  shows "\<exists>t q a'. fits t n \<and> buddy_allocator_allocate a n = Some (q, a') \<and> buddy_inv a' \<and>
    page a' = page a \<and>
    (if q = 0
     then a' = a \<and> (\<forall>j < 2 ^ t. \<exists>r \<in> live a. \<not> apart (page a + j * bsz t, bsz t) r)
     else (\<exists>j < 2 ^ t. q = page a + j * bsz t) \<and> (q, bsz t) \<notin> live a \<and>
          live a' = insert (q, bsz t) (live a) \<and> pairwise apart (live a'))"
proof -
  obtain t where t: "fits t n" using fits_exists assms(3,4) by blast
  from allocate_outcome [OF assms(1,2) t] obtain q a' where
    r: "buddy_allocator_allocate a n = Some (q, a')" "buddy_inv a'" "page a' = page a"
      "if q = 0 then a' = a \<and> (\<forall>j < 2 ^ t. \<exists>r \<in> live a. \<not> apart (page a + j * bsz t, bsz t) r)
       else (\<exists>j < 2 ^ t. q = page a + j * bsz t) \<and> (q, bsz t) \<notin> live a \<and> live a' = insert (q, bsz t) (live a)"
    by blast
  with t live_pairwise [OF r(2)] show ?thesis
    by (intro exI [of _ t] exI [of _ q] exI [of _ a']) (simp split: if_splits)
qed

theorem buddy_allocate_correct_witness:
  "buddy_inv empty_buddy \<and> page empty_buddy \<noteq> 0 \<and>
   (\<exists>t q a'. fits t 100 \<and> buddy_allocator_allocate empty_buddy 100 = Some (q, a') \<and> q \<noteq> 0 \<and>
      live a' = {(q, bsz t)})"
proof -
  have pre: "buddy_inv empty_buddy" "page empty_buddy \<noteq> 0"
    using empty_buddy_inv by (simp_all add: empty_buddy_def)
  from buddy_allocate_correct [OF pre, of 100] obtain t q a' where
    r: "fits t 100" "buddy_allocator_allocate empty_buddy 100 = Some (q, a')"
    "if q = 0 then a' = empty_buddy \<and> (\<forall>j < 2 ^ t. \<exists>r \<in> live empty_buddy. \<not> apart (page empty_buddy + j * bsz t, bsz t) r)
     else (\<exists>j < 2 ^ t. q = page empty_buddy + j * bsz t) \<and> (q, bsz t) \<notin> live empty_buddy \<and>
          live a' = insert (q, bsz t) (live empty_buddy) \<and> pairwise apart (live a')" by auto
  have "(0::nat) < 2 ^ t" by simp
  then have "q \<noteq> 0" using r(3) empty_buddy_inv(2) by (metis empty_iff)
  then show ?thesis using pre r empty_buddy_inv(2) by auto
qed

text \<open>
  \<open>buddy_allocator_deallocate\<close> of a live pointer terminates, makes exactly that region
  free and keeps the invariant. Buddies are merged: once nothing is live the bitmap is
  clear, so the whole page can be handed out again.
\<close>

theorem buddy_deallocate_correct:
  assumes "buddy_inv a" "(p, s) \<in> live a"
  shows "\<exists>a'. buddy_allocator_deallocate a p = Some a' \<and> buddy_inv a' \<and> page a' = page a \<and>
    live a' = live a - {(p, s)} \<and> (live a' = {} \<longrightarrow> marks (nodes a') = {})"
proof -
  obtain a' where a': "buddy_allocator_deallocate a p = Some a'" "buddy_inv a'" "page a' = page a"
    "live a' = live a - {(p, s)}" using deallocate_live [OF assms] .
  have "marks (nodes a') = {}" if "live a' = {}"
  proof (rule ccontr)
    assume "marks (nodes a') \<noteq> {}"
    then obtain i where i: "i \<in> marks (nodes a')" "i < 511" using a'(2) by (auto simp: buddy_inv_def)
    then obtain b k where "b \<le> 8" "k < 2 ^ b" "i = node b k" using node_exists by blast
    with marked_has_leaf [of b k "marks (nodes a')"] i that show False by (auto simp: live_def)
  qed
  with a' show ?thesis by blast
qed

theorem buddy_deallocate_correct_witness:
  "buddy_inv full_buddy \<and> (4096, 4096) \<in> live full_buddy \<and>
   (\<exists>a'. buddy_allocator_deallocate full_buddy 4096 = Some a' \<and> marks (nodes a') = {})"
  using buddy_deallocate_correct [OF full_buddy_inv, of 4096 4096] full_buddy_inv
  by (auto simp: full_buddy_live)

text \<open>
  C30. \<open>buddy_allocator_reallocate\<close> of a live pointer to 1 to 4096 bytes terminates and
  reports the old size. On success the result is a live block of sufficient size that holds
  the old contents up to the smaller of both sizes, every other live block keeps its
  contents, and no copy is made between overlapping regions. On failure it returns NULL and
  the old block is free afterwards, unlike C's \<open>realloc\<close>.
\<close>

theorem buddy_reallocate_correct:
  assumes "buddy_inv a" "page a \<noteq> 0" "(p, s) \<in> live a" "0 < n" "n \<le> 4096"
  shows "\<exists>q a' h'. buddy_allocator_reallocate a p n h = Some (q, s, a', h') \<and> buddy_inv a' \<and>
    page a' = page a \<and> realloc_outcome (live a) (live a') p s n q h h'"
proof -
  obtain t where t: "fits t n" using fits_exists assms(4,5) by blast
  from reallocate_live [OF assms(1-3) t] obtain q a' h' where
    r: "buddy_allocator_reallocate a p n h = Some (q, s, a', h')" "buddy_inv a'" "page a' = page a"
    "realloc_ok (live a) (live a') p s n q h h'" by blast
  then show ?thesis using realloc_ok_outcome [OF r(4) live_pairwise [OF r(2)]] by blast
qed

theorem buddy_reallocate_correct_witness:
  "buddy_inv full_buddy \<and> page full_buddy \<noteq> 0 \<and> (4096, 4096) \<in> live full_buddy \<and>
   (\<exists>q a' h'. buddy_allocator_reallocate full_buddy 4096 100 (\<lambda>x. 7) = Some (q, 4096, a', h') \<and> buddy_inv a')"
proof -
  have "page full_buddy \<noteq> 0" "(4096, 4096) \<in> live full_buddy"
    by (simp_all add: full_buddy_live) (simp add: full_buddy_def)
  then show ?thesis
    using buddy_reallocate_correct [OF full_buddy_inv, of 4096 4096 100 "\<lambda>x. 7"] full_buddy_inv by auto
qed

lemma search_0_descends:
  "is_marked ns i = Some False \<Longrightarrow> search ns 0 i b p = search ns 0 (left i) (b + 1) p"
  by (subst search.simps) simp

text \<open>
  A request of 0 bytes has no fitting level: on a page that is entirely free the search
  of \<open>buddy_allocator_allocate\<close> keeps descending past the last level and reads the bitmap out
  of bounds (the model has no result), although \<open>malloc(0)\<close> is legal.
\<close>

theorem buddy_allocate_zero_out_of_bounds:
  assumes "length (nodes a) = 64" "marks (nodes a) = {}"
  shows "buddy_allocator_allocate a 0 = None"
proof -
  have m: "is_marked (nodes a) i = Some False" if "i < 512" for i
    using is_marked_marks [of i "nodes a"] assms that by simp
  have "is_marked (nodes a) 1023 = None" using assms(1) by (simp add: is_marked_def)
  then have "search (nodes a) 0 1023 b 0 = None" for b by (subst search.simps) simp
  then have "search (nodes a) 0 0 0 0 = None"
    by (simp add: search_0_descends [OF m] left_def)
  then show ?thesis by (simp add: buddy_allocator_allocate_def)
qed

theorem buddy_allocate_zero_out_of_bounds_witness:
  "length (nodes empty_buddy) = 64 \<and> marks (nodes empty_buddy) = {} \<and> buddy_allocator_allocate empty_buddy 0 = None"
proof -
  have "length (nodes empty_buddy) = 64" "marks (nodes empty_buddy) = {}"
    by (simp_all add: empty_buddy_def marks_empty)
  then show ?thesis using buddy_allocate_zero_out_of_bounds [of empty_buddy] by blast
qed

end
