(* ===== verification/Buddy_Block.thy ===== *)
theory Buddy_Block
  imports Buddy_Correct
begin

text \<open>
  \<open>task5-memory/src/buddy_block.c\<close>: a chain of metadata pages, each with room for 30 buddy
  allocators. An entry whose \<open>page\<close> is NULL is unused and receives a page on demand. The chain
  is a list of blocks, the empty list being the static pointer before its first use. The
  addresses of all pages come from \<open>request_page\<close>.
\<close>

section \<open>The model\<close>

record BuddyBlock =
  bb_base :: nat
  bb_allocators :: "BuddyAllocator list"

definition sizeof_BuddyAllocator :: nat where "sizeof_BuddyAllocator = 72"
definition sizeof_BuddyBlock :: nat where "sizeof_BuddyBlock = 8"

definition BUDDY_CAPACITY :: nat where
  "BUDDY_CAPACITY = (PAGE_SIZE - sizeof_BuddyBlock) div (sizeof_BuddyAllocator + BUDDY_ALLOCATOR_BITMAP_SIZE)"

definition zero_allocator :: BuddyAllocator where
  "zero_allocator = \<lparr>page = 0, nodes = replicate BUDDY_ALLOCATOR_BITMAP_SIZE 0\<rparr>"

definition zero_block :: "nat \<Rightarrow> BuddyBlock" where
  "zero_block p = \<lparr>bb_base = p, bb_allocators = replicate BUDDY_CAPACITY zero_allocator\<rparr>"

definition buddy_block :: "picker \<Rightarrow> BuddyBlock list \<Rightarrow> os \<Rightarrow> BuddyBlock list \<times> os" where
  "buddy_block pick bs w =
     (if bs = [] then (case request_page pick PAGE_SIZE w of (p, w') \<Rightarrow> (if p = 0 then [] else [zero_block p], w'))
      else (bs, w))"

text \<open>
  The inner loop over the entries of one block. The first component is what the function
  returns from inside the loop, or nothing when the loop runs to its end.
\<close>

fun allocate_entries ::
  "picker \<Rightarrow> nat \<Rightarrow> BuddyAllocator list \<Rightarrow> os \<Rightarrow> (nat option \<times> BuddyAllocator list \<times> os) option" where
  "allocate_entries pick n [] w = Some (None, [], w)"
| "allocate_entries pick n (a # as) w =
     (if page a \<noteq> 0
      then
        Option.bind (buddy_allocator_allocate a n) (\<lambda>(q, a').
        if q \<noteq> 0 then Some (Some q, a' # as, w)
        else map_option (\<lambda>(r, as', w'). (r, a' # as', w')) (allocate_entries pick n as w))
      else
        (case request_page pick BUDDY_ALLOCATOR_MAXIMAL_ALLOCATION w of (p, w') \<Rightarrow>
           if p = 0 then Some (Some 0, a # as, w')
           else map_option (\<lambda>(q, a'). (Some q, a' # as, w')) (buddy_allocator_allocate (a\<lparr>page := p\<rparr>) n)))"

partial_function (option) allocate_blocks ::
  "picker \<Rightarrow> nat \<Rightarrow> BuddyBlock list \<Rightarrow> os \<Rightarrow> (nat \<times> BuddyBlock list \<times> os) option" where
  "allocate_blocks pick n bs w =
     (case bs of
        [] \<Rightarrow> None
      | b # rest \<Rightarrow>
          Option.bind (allocate_entries pick n (bb_allocators b) w) (\<lambda>(r, as, w').
          let b' = b\<lparr>bb_allocators := as\<rparr> in
          case r of
            Some q \<Rightarrow> Some (q, b' # rest, w')
          | None \<Rightarrow>
              if rest = []
              then (case request_page pick PAGE_SIZE w' of (p, w'') \<Rightarrow>
                      if p = 0 then Some (0, [b'], w'')
                      else Option.bind (allocate_blocks pick n [zero_block p] w'')
                             (\<lambda>(q, bs', w3). Some (q, b' # bs', w3)))
              else Option.bind (allocate_blocks pick n rest w') (\<lambda>(q, bs', w3). Some (q, b' # bs', w3))))"

declare allocate_blocks.simps [code]

definition buddy_block_allocate ::
  "picker \<Rightarrow> nat \<Rightarrow> BuddyBlock list \<Rightarrow> os \<Rightarrow> (nat \<times> BuddyBlock list \<times> os) option" where
  "buddy_block_allocate pick n bs w =
     (case buddy_block pick bs w of (bs', w') \<Rightarrow> allocate_blocks pick n bs' w')"

text \<open>Does an entry manage the page the pointer lies in?\<close>

definition manages :: "BuddyAllocator \<Rightarrow> nat \<Rightarrow> bool" where
  "manages a pointer \<longleftrightarrow> \<not> (page a = 0 \<or> page a > pointer \<or> page a + BUDDY_ALLOCATOR_MAXIMAL_ALLOCATION \<le> pointer)"

fun deallocate_entries :: "nat \<Rightarrow> BuddyAllocator list \<Rightarrow> (bool \<times> BuddyAllocator list) option" where
  "deallocate_entries pointer [] = Some (False, [])"
| "deallocate_entries pointer (a # as) =
     (if manages a pointer
      then map_option (\<lambda>a'. (True, a' # as)) (buddy_allocator_deallocate a pointer)
      else map_option (\<lambda>(r, as'). (r, a # as')) (deallocate_entries pointer as))"

fun deallocate_blocks :: "nat \<Rightarrow> BuddyBlock list \<Rightarrow> (bool \<times> BuddyBlock list) option" where
  "deallocate_blocks pointer [] = Some (False, [])"
| "deallocate_blocks pointer (b # bs) =
     Option.bind (deallocate_entries pointer (bb_allocators b)) (\<lambda>(r, as).
     if r then Some (True, b\<lparr>bb_allocators := as\<rparr> # bs)
     else map_option (\<lambda>(r', bs'). (r', b # bs')) (deallocate_blocks pointer bs))"

definition buddy_block_deallocate ::
  "picker \<Rightarrow> nat \<Rightarrow> BuddyBlock list \<Rightarrow> os \<Rightarrow> (bool \<times> BuddyBlock list \<times> os) option" where
  "buddy_block_deallocate pick pointer bs w =
     (case buddy_block pick bs w of (bs', w') \<Rightarrow>
        map_option (\<lambda>(r, bs''). (r, bs'', w')) (deallocate_blocks pointer bs'))"

text \<open>
  The search part of \<open>buddy_block_reallocate\<close>: the managing entry is reallocated in place.
  The result is the new pointer and the old size, or nothing when no entry manages the pointer.
\<close>

fun reallocate_entries ::
  "nat \<Rightarrow> nat \<Rightarrow> BuddyAllocator list \<Rightarrow> (nat \<Rightarrow> u8) \<Rightarrow>
     ((nat \<times> nat) option \<times> BuddyAllocator list \<times> (nat \<Rightarrow> u8)) option" where
  "reallocate_entries pointer n [] h = Some (None, [], h)"
| "reallocate_entries pointer n (a # as) h =
     (if manages a pointer
      then map_option (\<lambda>(q, current, a', h'). (Some (q, current), a' # as, h')) (buddy_allocator_reallocate a pointer n h)
      else map_option (\<lambda>(r, as', h'). (r, a # as', h')) (reallocate_entries pointer n as h))"

fun reallocate_blocks ::
  "nat \<Rightarrow> nat \<Rightarrow> BuddyBlock list \<Rightarrow> (nat \<Rightarrow> u8) \<Rightarrow>
     ((nat \<times> nat) option \<times> BuddyBlock list \<times> (nat \<Rightarrow> u8)) option" where
  "reallocate_blocks pointer n [] h = Some (None, [], h)"
| "reallocate_blocks pointer n (b # bs) h =
     Option.bind (reallocate_entries pointer n (bb_allocators b) h) (\<lambda>(r, as, h').
     if r \<noteq> None then Some (r, b\<lparr>bb_allocators := as\<rparr> # bs, h')
     else map_option (\<lambda>(r', bs', h''). (r', b # bs', h'')) (reallocate_blocks pointer n bs h'))"

definition buddy_block_reallocate ::
  "picker \<Rightarrow> nat \<Rightarrow> nat \<Rightarrow> BuddyBlock list \<Rightarrow> os \<Rightarrow> (nat \<times> nat \<times> BuddyBlock list \<times> os) option" where
  "buddy_block_reallocate pick pointer n bs w =
     (case buddy_block pick bs w of (bs1, w1) \<Rightarrow>
      Option.bind (reallocate_blocks pointer n bs1 (os_mem w1)) (\<lambda>(r, bs2, h).
      let w2 = w1\<lparr>os_mem := h\<rparr> in
      case r of
        None \<Rightarrow> Some (0, 0, bs2, w2)
      | Some (insertion, current) \<Rightarrow>
          if insertion \<noteq> 0 then Some (insertion, current, bs2, w2)
          else if n > DIRECT_ALLOCATION_THRESHOLD then Some (0, current, bs2, w2)
          else
            Option.bind (buddy_block_allocate pick n bs2 w2) (\<lambda>(q, bs3, w3).
            if q = 0 then Some (0, current, bs3, w3)
            else
              Option.bind (memcpy q pointer current (os_mem w3)) (\<lambda>h'.
              map_option (\<lambda>(r', bs4, w4). (q, current, bs4, w4))
                (buddy_block_deallocate pick pointer bs3 (w3\<lparr>os_mem := h'\<rparr>))))))"

section \<open>Entries\<close>

definition entry_ok :: "BuddyAllocator \<Rightarrow> bool" where
  "entry_ok a \<longleftrightarrow> buddy_inv a \<and> page a mod 4096 = 0 \<and> (page a = 0 \<longrightarrow> marks (nodes a) = {})"

definition entries :: "BuddyBlock list \<Rightarrow> BuddyAllocator list" where
  "entries bs = concat (map bb_allocators bs)"

definition entries_live :: "BuddyAllocator list \<Rightarrow> (nat \<times> nat) set" where
  "entries_live es = (\<Union>a \<in> set es. live a)"

lemma entries_simps [simp]:
  "entries [] = []" "entries (b # bs) = bb_allocators b @ entries bs" "entries (bs @ cs) = entries bs @ entries cs"
  by (simp_all add: entries_def)

lemma entries_live_simps [simp]:
  "entries_live [] = {}" "entries_live (a # as) = live a \<union> entries_live as"
  "entries_live (as @ as') = entries_live as \<union> entries_live as'"
  by (auto simp: entries_live_def)

lemma live_unmarked: "marks (nodes a) = {} \<Longrightarrow> live a = {}"
  by (simp add: live_def leaves_def leaf_def)

lemma zero_entry: "entry_ok zero_allocator" "live zero_allocator = {}" "page zero_allocator = 0"
  by (simp_all add: entry_ok_def zero_allocator_def config_defs buddy_inv_def marks_empty tree_closed_def
      live_def leaves_def leaf_def)

lemma capacity: "BUDDY_CAPACITY = 30"
  by (simp add: BUDDY_CAPACITY_def config_defs sizeof_BuddyAllocator_def sizeof_BuddyBlock_def)

text \<open>One entry serves the request: either its page has room, or it is unused and gets a page.\<close>

definition entry_alloc :: "picker \<Rightarrow> nat \<Rightarrow> os \<Rightarrow> BuddyAllocator \<Rightarrow> nat \<Rightarrow> BuddyAllocator \<Rightarrow> os \<Rightarrow> bool" where
  "entry_alloc pick n w a q a' w' \<longleftrightarrow> entry_ok a' \<and> page a' \<noteq> 0 \<and> q \<noteq> 0 \<and>
     (\<exists>m \<ge> n. (q, m) \<notin> live a \<and> live a' = insert (q, m) (live a)) \<and>
     (if page a = 0 then request_page pick 4096 w = (page a', w')
      else page a' = page a \<and> w' = w \<and> buddy_allocator_allocate a n = Some (q, a'))"

lemma entry_used:
  assumes "entry_ok a" "page a \<noteq> 0" "0 < n" "n \<le> 4096"
  obtains "buddy_allocator_allocate a n = Some (0, a)"
  | q a' where "buddy_allocator_allocate a n = Some (q, a')" "q \<noteq> 0" "entry_alloc pick n w a q a' w"
proof -
  obtain t where t: "fits t n" using fits_exists assms by blast
  have inv: "buddy_inv a" "page a mod 4096 = 0" using assms(1) by (simp_all add: entry_ok_def)
  obtain q a' where r: "buddy_allocator_allocate a n = Some (q, a')" "buddy_inv a'" "page a' = page a"
    "if q = 0 then a' = a \<and> (\<forall>j < 2 ^ t. \<exists>r \<in> live a. \<not> apart (page a + j * bsz t, bsz t) r)
     else (\<exists>j < 2 ^ t. q = page a + j * bsz t) \<and> (q, bsz t) \<notin> live a \<and> live a' = insert (q, bsz t) (live a)"
    using allocate_outcome [OF inv(1) assms(2) t] by auto
  have "n \<le> bsz t" using t by (simp add: fits_def)
  then have "entry_alloc pick n w a q a' w" if "q \<noteq> 0"
    using r inv assms(2) that by (auto simp: entry_alloc_def entry_ok_def)
  with r(1,4) that show thesis by (cases "q = 0") auto
qed

lemma entry_fresh:
  assumes "mmap_fresh pick" "entry_ok a" "page a = 0" "request_page pick 4096 w = (p, w')" "p \<noteq> 0" "0 < n" "n \<le> 4096"
  obtains q a' where "buddy_allocator_allocate (a\<lparr>page := p\<rparr>) n = Some (q, a')" "q \<noteq> 0" "entry_alloc pick n w a q a' w'"
proof -
  let ?a = "a\<lparr>page := p\<rparr>"
  have inv: "buddy_inv ?a" "page ?a \<noteq> 0" "live ?a = {}" "live a = {}" "p mod 4096 = 0"
    using assms(2,3,5) request_page_fresh(1) [OF assms(1,4,5)] live_unmarked [of a] live_unmarked [of ?a]
    by (auto simp: entry_ok_def buddy_inv_def)
  obtain t where t: "fits t n" using fits_exists assms by blast
  obtain q a' where r: "buddy_allocator_allocate ?a n = Some (q, a')" "buddy_inv a'" "page a' = p"
    "if q = 0 then a' = ?a \<and> (\<forall>j < 2 ^ t. \<exists>r \<in> live ?a. \<not> apart (page ?a + j * bsz t, bsz t) r)
     else (\<exists>j < 2 ^ t. q = page ?a + j * bsz t) \<and> (q, bsz t) \<notin> live ?a \<and> live a' = insert (q, bsz t) (live ?a)"
    using allocate_outcome [OF inv(1,2) t] by auto
  have "(0::nat) < 2 ^ t" by simp
  then have "q \<noteq> 0" using r(4) inv(3) by (metis empty_iff)
  moreover have "n \<le> bsz t" using t by (simp add: fits_def)
  ultimately have "entry_alloc pick n w a q a' w'"
    using r inv assms(3-5) by (auto simp: entry_alloc_def entry_ok_def)
  with r(1) \<open>q \<noteq> 0\<close> that show thesis by blast
qed

lemma allocate_entries_cases:
  assumes "mmap_fresh pick" "0 < n" "n \<le> 4096" "\<forall>a \<in> set as. entry_ok a"
  shows "allocate_entries pick n as w = Some (None, as, w) \<and> (\<forall>a \<in> set as. page a \<noteq> 0) \<or>
    (\<exists>w'. allocate_entries pick n as w = Some (Some 0, as, w') \<and> request_page pick 4096 w = (0, w')) \<or>
    (\<exists>us a a' vs q w'. allocate_entries pick n as w = Some (Some q, us @ a' # vs, w') \<and> as = us @ a # vs \<and>
       entry_alloc pick n w a q a' w')"
  using assms(4)
proof (induction as)
  case (Cons a as)
  then have ok: "entry_ok a" by simp
  show ?case
  proof (cases "page a = 0")
    case True
    obtain p w' where p: "request_page pick 4096 w = (p, w')" by fastforce
    show ?thesis
    proof (cases "p = 0")
      case False
      obtain q a' where "buddy_allocator_allocate (a\<lparr>page := p\<rparr>) n = Some (q, a')" "entry_alloc pick n w a q a' w'"
        using entry_fresh [OF assms(1) ok True p False assms(2,3)] .
      then have "allocate_entries pick n (a # as) w = Some (Some q, [] @ a' # as, w')"
        using True p False by (simp add: config_defs)
      with \<open>entry_alloc pick n w a q a' w'\<close> show ?thesis by blast
    qed (use True p in \<open>simp add: config_defs\<close>)
  next
    case False
    show ?thesis
    proof (rule entry_used [OF ok False assms(2,3), where pick = pick and w = w])
      fix q a' assume "buddy_allocator_allocate a n = Some (q, a')" "q \<noteq> 0" and e: "entry_alloc pick n w a q a' w"
      then have "allocate_entries pick n (a # as) w = Some (Some q, [] @ a' # as, w)" using False by simp
      with e show ?thesis by blast
    next
      assume "buddy_allocator_allocate a n = Some (0, a)"
      then have step: "allocate_entries pick n (a # as) w =
          map_option (\<lambda>(r, as', w'). (r, a # as', w')) (allocate_entries pick n as w)" using False by simp
      consider "allocate_entries pick n as w = Some (None, as, w)" "\<forall>a \<in> set as. page a \<noteq> 0"
        | w' where "allocate_entries pick n as w = Some (Some 0, as, w')" "request_page pick 4096 w = (0, w')"
        | us b b' vs q w' where "allocate_entries pick n as w = Some (Some q, us @ b' # vs, w')" "as = us @ b # vs"
            "entry_alloc pick n w b q b' w'" using Cons by auto
      then show ?thesis
      proof cases
        case 3
        then have "allocate_entries pick n (a # as) w = Some (Some q, (a # us) @ b' # vs, w')" "a # as = (a # us) @ b # vs"
          using step by simp_all
        with 3(3) show ?thesis by blast
      qed (use step False in auto)
    qed
  qed
qed simp

section \<open>The chain of blocks\<close>

definition grown :: "picker \<Rightarrow> BuddyBlock list \<Rightarrow> os \<Rightarrow> BuddyBlock list \<Rightarrow> os \<Rightarrow> bool" where
  "grown pick bs w bs' w' \<longleftrightarrow> bs' = bs \<and> w' = w \<or>
     (\<exists>p. p \<noteq> 0 \<and> request_page pick 4096 w = (p, w') \<and> bs' = bs @ [zero_block p])"

definition blocks_alloc :: "picker \<Rightarrow> nat \<Rightarrow> BuddyBlock list \<Rightarrow> os \<Rightarrow> nat \<Rightarrow> BuddyBlock list \<Rightarrow> os \<Rightarrow> bool" where
  "blocks_alloc pick n bs w q bs' w' \<longleftrightarrow>
     q = 0 \<and> bs' = bs \<and> request_page pick 4096 w = (0, w') \<or>
     (\<exists>us a a' vs. entries bs = us @ a # vs \<and> entries bs' = us @ a' # vs \<and>
        map bb_base bs' = map bb_base bs \<and> entry_alloc pick n w a q a' w')"

lemma blocks_alloc_Cons:
  assumes "blocks_alloc pick n bs w q bs' w'"
  shows "blocks_alloc pick n (b # bs) w q (b # bs') w'"
  using assms unfolding blocks_alloc_def
proof (elim disjE conjE exE)
  fix us a a' vs assume "entries bs = us @ a # vs" "entries bs' = us @ a' # vs"
    "map bb_base bs' = map bb_base bs" "entry_alloc pick n w a q a' w'"
  then have "entries (b # bs) = (bb_allocators b @ us) @ a # vs" "entries (b # bs') = (bb_allocators b @ us) @ a' # vs"
    "map bb_base (b # bs') = map bb_base (b # bs)" "entry_alloc pick n w a q a' w'" by simp_all
  then show "q = 0 \<and> b # bs' = b # bs \<and> request_page pick 4096 w = (0, w') \<or>
     (\<exists>us a a' vs. entries (b # bs) = us @ a # vs \<and> entries (b # bs') = us @ a' # vs \<and>
        map bb_base (b # bs') = map bb_base (b # bs) \<and> entry_alloc pick n w a q a' w')" by blast
qed simp

lemma zero_block_entries: "bb_allocators (zero_block p) = zero_allocator # replicate 29 zero_allocator"
  by (simp add: zero_block_def capacity flip: replicate_Suc)

lemma allocate_head:
  assumes "mmap_fresh pick" "0 < n" "n \<le> 4096" "\<forall>a \<in> set (bb_allocators b). entry_ok a"
    "\<exists>a \<in> set (bb_allocators b). page a = 0"
  shows "\<exists>q bs' w'. allocate_blocks pick n (b # rest) w = Some (q, bs', w') \<and> blocks_alloc pick n (b # rest) w q bs' w'"
proof -
  note c = allocate_entries_cases [OF assms(1-4), of w]
  from c assms(5) consider
      w' where "allocate_entries pick n (bb_allocators b) w = Some (Some 0, bb_allocators b, w')" "request_page pick 4096 w = (0, w')"
    | us a a' vs q w' where "allocate_entries pick n (bb_allocators b) w = Some (Some q, us @ a' # vs, w')"
        "bb_allocators b = us @ a # vs" "entry_alloc pick n w a q a' w'" by auto
  then show ?thesis
  proof cases
    case 1
    then show ?thesis by (subst allocate_blocks.simps) (simp add: blocks_alloc_def)
  next
    case 2
    let ?b = "b\<lparr>bb_allocators := us @ a' # vs\<rparr>"
    have "allocate_blocks pick n (b # rest) w = Some (q, ?b # rest, w')"
      using 2(1) by (subst allocate_blocks.simps) simp
    moreover have "entries (b # rest) = us @ a # (vs @ entries rest)" "entries (?b # rest) = us @ a' # (vs @ entries rest)"
      "map bb_base (?b # rest) = map bb_base (b # rest)" using 2(2) by simp_all
    ultimately show ?thesis using 2(3) unfolding blocks_alloc_def by blast
  qed
qed

lemma allocate_new_block:
  assumes pick: "mmap_fresh pick" and n: "0 < n" "n \<le> 4096"
    and full: "allocate_entries pick n (bb_allocators b) w = Some (None, bb_allocators b, w)"
  shows "\<exists>q bs' w' bs0 w0. allocate_blocks pick n [b] w = Some (q, bs', w') \<and>
      grown pick [b] w bs0 w0 \<and> blocks_alloc pick n bs0 w0 q bs' w'"
proof -
  obtain p w1 where p: "request_page pick 4096 w = (p, w1)" by fastforce
  show ?thesis
  proof (cases "p = 0")
    case True
    then have "allocate_blocks pick n [b] w = Some (0, [b], w1)" "blocks_alloc pick n [b] w 0 [b] w1"
      using full p by (simp_all add: allocate_blocks.simps [of _ _ "[b]"] blocks_alloc_def config_defs)
    then show ?thesis unfolding grown_def by blast
  next
    case False
    have "\<forall>a \<in> set (bb_allocators (zero_block p)). entry_ok a" "\<exists>a \<in> set (bb_allocators (zero_block p)). page a = 0"
      by (simp_all add: zero_block_entries zero_entry)
    from allocate_head [OF pick n this, of "[]" w1] obtain q bs' w' where
      r: "allocate_blocks pick n [zero_block p] w1 = Some (q, bs', w')" "blocks_alloc pick n [zero_block p] w1 q bs' w'"
      by blast
    then have "allocate_blocks pick n [b] w = Some (q, b # bs', w')"
      using full p False by (simp add: allocate_blocks.simps [of _ _ "[b]"] config_defs)
    moreover have "grown pick [b] w (b # [zero_block p]) w1" using p False by (auto simp: grown_def)
    ultimately show ?thesis using blocks_alloc_Cons [OF r(2), of b] by blast
  qed
qed

lemma allocate_blocks_total:
  assumes pick: "mmap_fresh pick" and n: "0 < n" "n \<le> 4096"
  shows "bs \<noteq> [] \<Longrightarrow> \<forall>a \<in> set (entries bs). entry_ok a \<Longrightarrow>
    \<exists>q bs' w' bs0 w0. allocate_blocks pick n bs w = Some (q, bs', w') \<and>
      grown pick bs w bs0 w0 \<and> blocks_alloc pick n bs0 w0 q bs' w'"
proof (induction bs)
  case (Cons b bs)
  have ok: "\<forall>a \<in> set (bb_allocators b). entry_ok a" using Cons.prems by simp
  show ?case
  proof (cases "\<exists>a \<in> set (bb_allocators b). page a = 0")
    case True
    then show ?thesis using allocate_head [OF pick n ok True, of bs w] by (force simp: grown_def)
  next
    case False
    from allocate_entries_cases [OF pick n ok, of w] show ?thesis
    proof (elim disjE exE conjE)
      fix us a a' vs q w' assume "allocate_entries pick n (bb_allocators b) w = Some (Some q, us @ a' # vs, w')"
        "bb_allocators b = us @ a # vs" "entry_alloc pick n w a q a' w'"
      then have "allocate_blocks pick n (b # bs) w = Some (q, b\<lparr>bb_allocators := us @ a' # vs\<rparr> # bs, w')"
        "entries (b # bs) = us @ a # vs @ entries bs" 
        "entries (b\<lparr>bb_allocators := us @ a' # vs\<rparr> # bs) = us @ a' # vs @ entries bs"
        "map bb_base (b\<lparr>bb_allocators := us @ a' # vs\<rparr> # bs) = map bb_base (b # bs)"
        by (simp_all add: allocate_blocks.simps [of _ _ "b # bs"])
      with \<open>entry_alloc pick n w a q a' w'\<close> show ?thesis unfolding blocks_alloc_def grown_def by blast
    next
      fix w' assume "allocate_entries pick n (bb_allocators b) w = Some (Some 0, bb_allocators b, w')"
        "request_page pick 4096 w = (0, w')"
      then have "allocate_blocks pick n (b # bs) w = Some (0, b # bs, w')" "blocks_alloc pick n (b # bs) w 0 (b # bs) w'"
        by (simp_all add: allocate_blocks.simps [of _ _ "b # bs"] blocks_alloc_def)
      then show ?thesis unfolding grown_def by blast
    next
      assume full: "allocate_entries pick n (bb_allocators b) w = Some (None, bb_allocators b, w)"
      show ?thesis
      proof (cases "bs = []")
        case nonempty: False
        then obtain q bs' w' bs0 w0 where r: "allocate_blocks pick n bs w = Some (q, bs', w')"
          "grown pick bs w bs0 w0" "blocks_alloc pick n bs0 w0 q bs' w'" using Cons by auto
        then have "allocate_blocks pick n (b # bs) w = Some (q, b # bs', w')"
          using full nonempty by (simp add: allocate_blocks.simps [of _ _ "b # bs"])
        moreover have "grown pick (b # bs) w (b # bs0) w0" using r(2) by (auto simp: grown_def)
        ultimately show ?thesis using blocks_alloc_Cons [OF r(3), of b] by blast
      qed (use allocate_new_block [OF pick n full] in simp)
    qed
  qed
qed simp

section \<open>The invariant\<close>

definition bb_pages :: "BuddyBlock list \<Rightarrow> nat list" where
  "bb_pages bs = map bb_base bs @ filter (\<lambda>p. p \<noteq> 0) (map page (entries bs))"

definition bb_inv :: "BuddyBlock list \<Rightarrow> os \<Rightarrow> bool" where
  "bb_inv bs w \<longleftrightarrow> (\<forall>a \<in> set (entries bs). entry_ok a) \<and> distinct (bb_pages bs) \<and>
     (\<forall>p \<in> set (bb_pages bs). p \<noteq> 0 \<and> p mod 4096 = 0 \<and> os_pages w (p div 4096))"

definition bb_live :: "BuddyBlock list \<Rightarrow> (nat \<times> nat) set" where
  "bb_live bs = entries_live (entries bs)"

lemma bb_inv_extends: "bb_inv bs w \<Longrightarrow> os_extends w w' \<Longrightarrow> bb_inv bs w'"
  by (auto simp: bb_inv_def os_extends_def)

lemma bb_pages_grown:
  "bb_pages (bs @ [zero_block p]) = map bb_base bs @ p # filter (\<lambda>p. p \<noteq> 0) (map page (entries bs))"
  by (simp add: bb_pages_def zero_block_def zero_entry)

lemma bb_inv_mapped: "bb_inv bs w \<Longrightarrow> \<not> os_pages w (p div 4096) \<Longrightarrow> p \<notin> set (bb_pages bs)"
  by (auto simp: bb_inv_def)

lemma grown_inv:
  assumes "mmap_fresh pick" "grown pick bs w bs' w'" "bb_inv bs w"
  shows "bb_inv bs' w'" "bb_live bs' = bb_live bs" "os_extends w w'"
proof -
  have ez: "entries_live (replicate k zero_allocator) = {}" for k by (induction k) (simp_all add: zero_entry)
  have "bb_inv bs' w' \<and> bb_live bs' = bb_live bs \<and> os_extends w w'"
    using assms(2) unfolding grown_def
  proof (elim disjE exE conjE)
    fix p assume p: "p \<noteq> 0" "request_page pick 4096 w = (p, w')" and bs': "bs' = bs @ [zero_block p]"
    note f = request_page_one [OF assms(1) p(2,1)] and x = request_page_extends [OF assms(1) p(2)]
    have new: "p \<notin> set (bb_pages bs)" by (rule bb_inv_mapped [OF assms(3) f(2)])
    have pg: "set (bb_pages bs') = insert p (set (bb_pages bs))"
      unfolding bs' bb_pages_grown by (auto simp: bb_pages_def)
    have "distinct (bb_pages bs)" using assms(3) by (simp add: bb_inv_def)
    then have "distinct (bb_pages bs')"
      using new unfolding bs' bb_pages_grown by (auto simp: bb_pages_def)
    moreover have "\<forall>a \<in> set (entries bs'). entry_ok a"
      using assms(3) by (auto simp: bb_inv_def bs' zero_block_def zero_entry)
    moreover have "\<forall>p \<in> set (bb_pages bs'). p \<noteq> 0 \<and> p mod 4096 = 0 \<and> os_pages w' (p div 4096)"
      using bb_inv_extends [OF assms(3) x] f(1,3) p(1) unfolding pg bb_inv_def by simp
    ultimately show ?thesis using x ez by (simp add: bb_inv_def bb_live_def bs' zero_block_def)
  qed (use assms(3) in \<open>auto simp: os_extends_refl\<close>)
  then show "bb_inv bs' w'" "bb_live bs' = bb_live bs" "os_extends w w'" by auto
qed

text \<open>Entries with different pages hold different regions.\<close>

lemma entry_live_in_page:
  assumes "entry_ok a" "(q, m) \<in> live a"
  shows "page a \<noteq> 0" "page a \<le> q" "q + m \<le> page a + 4096" "0 < m"
  using assms live_in_page [OF assms(2)] live_unmarked [of a] by (auto simp: entry_ok_def)

lemma bb_page_neq:
  assumes "bb_inv bs w" "entries bs = us @ a # vs" "b \<in> set us \<union> set vs" "page a \<noteq> 0"
  shows "page a \<noteq> page b"
proof -
  have "distinct (bb_pages bs)" using assms(1) unfolding bb_inv_def by blast
  then have "distinct (filter (\<lambda>p. p \<noteq> 0) (map page (us @ a # vs)))"
    unfolding bb_pages_def assms(2) by (simp only: distinct_append)
  then show ?thesis using assms(3,4) by auto
qed

lemma bb_entry_apart:
  assumes "bb_inv bs w" "entries bs = us @ a # vs" "b \<in> set us \<union> set vs" "r \<in> live a" "r' \<in> live b"
  shows "apart r r'"
proof -
  obtain q m q' m' where r: "r = (q, m)" "r' = (q', m')" by (metis surj_pair)
  have ok: "entry_ok a" "entry_ok b" using assms by (auto simp: bb_inv_def)
  note la = entry_live_in_page [OF ok(1) assms(4) [unfolded r]]
    and lb = entry_live_in_page [OF ok(2) assms(5) [unfolded r]]
  have ne: "page a \<noteq> page b" by (rule bb_page_neq [OF assms(1-3) la(1)])
  have "page a mod 4096 = 0" "page b mod 4096 = 0" using ok unfolding entry_ok_def by blast+
  from aligned_apart [OF this ne] show ?thesis using la lb unfolding apart_def r by auto
qed

lemma entry_split_live:
  assumes "bb_inv bs w" "entries bs = us @ a # vs" "r \<in> live a"
  shows "r \<notin> entries_live us \<union> entries_live vs"
proof
  assume "r \<in> entries_live us \<union> entries_live vs"
  then obtain b where b: "b \<in> set us \<union> set vs" "r \<in> live b" by (auto simp: entries_live_def)
  from bb_entry_apart [OF assms(1,2) b(1) assms(3) b(2)] have "apart r r" .
  moreover have "0 < snd r"
    using entry_live_in_page [of a "fst r" "snd r"] assms by (auto simp: bb_inv_def)
  ultimately show False by (simp add: apart_def)
qed

lemma bb_live_apart:
  assumes "bb_inv bs w" "r \<in> bb_live bs" "r' \<in> bb_live bs" "r \<noteq> r'"
  shows "apart r r'"
proof -
  obtain a b where ab: "a \<in> set (entries bs)" "r \<in> live a" "b \<in> set (entries bs)" "r' \<in> live b"
    using assms(2,3) by (auto simp: bb_live_def entries_live_def)
  obtain us vs where e: "entries bs = us @ a # vs" using ab(1) by (meson split_list)
  show ?thesis
  proof (cases "b \<in> set us \<union> set vs")
    case True
    then show ?thesis using bb_entry_apart [OF assms(1) e True ab(2,4)] by simp
  next
    case False
    then have "b = a" using ab(3) e by auto
    moreover have "buddy_inv a" using assms(1) ab(1) by (auto simp: bb_inv_def entry_ok_def)
    ultimately show ?thesis using live_apart ab(2,4) assms(4) by blast
  qed
qed

lemma blocks_alloc_inv:
  assumes "mmap_fresh pick" "blocks_alloc pick n bs w q bs' w'" "bb_inv bs w"
  shows "bb_inv bs' w'" "os_extends w w'"
    "if q = 0 then bb_live bs' = bb_live bs else \<exists>m \<ge> n. (q, m) \<notin> bb_live bs \<and> bb_live bs' = insert (q, m) (bb_live bs)"
proof -
  have "bb_inv bs' w' \<and> os_extends w w' \<and>
      (if q = 0 then bb_live bs' = bb_live bs else \<exists>m \<ge> n. (q, m) \<notin> bb_live bs \<and> bb_live bs' = insert (q, m) (bb_live bs))"
    using assms(2) unfolding blocks_alloc_def
  proof (elim disjE exE conjE)
    assume "q = 0" "bs' = bs" "request_page pick 4096 w = (0, w')"
    then show ?thesis using request_page_extends [OF assms(1)] bb_inv_extends [OF assms(3)] by auto
  next
    fix us a a' vs assume e: "entries bs = us @ a # vs" "entries bs' = us @ a' # vs"
      "map bb_base bs' = map bb_base bs" and al: "entry_alloc pick n w a q a' w'"
    obtain m where m: "n \<le> m" "(q, m) \<notin> live a" "live a' = insert (q, m) (live a)"
      "bb_live bs' = insert (q, m) (bb_live bs)" and q: "q \<noteq> 0" and ok: "entry_ok a'" "page a' \<noteq> 0"
      using al by (auto simp: bb_live_def e entry_alloc_def)
    have inv': "bb_inv bs' w' \<and> os_extends w w'"
    proof (cases "page a = 0")
      case True
      then have r: "request_page pick 4096 w = (page a', w')" using al by (simp add: entry_alloc_def)
      note f = request_page_one [OF assms(1) r ok(2)] and x = request_page_extends [OF assms(1) r]
      have new: "page a' \<notin> set (bb_pages bs)" by (rule bb_inv_mapped [OF assms(3) f(2)])
      have pg: "set (bb_pages bs') = insert (page a') (set (bb_pages bs))"
        using True ok by (auto simp: bb_pages_def e)
      have "distinct (bb_pages bs)" using assms(3) by (simp add: bb_inv_def)
      then have "distinct (bb_pages bs')" using new True ok by (auto simp: bb_pages_def e)
      moreover have "\<forall>a \<in> set (entries bs'). entry_ok a" using assms(3) ok by (auto simp: bb_inv_def e)
      moreover have "\<forall>p \<in> set (bb_pages bs'). p \<noteq> 0 \<and> p mod 4096 = 0 \<and> os_pages w' (p div 4096)"
        using bb_inv_extends [OF assms(3) x] f(1,3) ok(2) unfolding pg bb_inv_def by simp
      ultimately show ?thesis using x by (simp add: bb_inv_def)
    next
      case False
      then have "page a' = page a" "w' = w" using al by (simp_all add: entry_alloc_def)
      then have "bb_pages bs' = bb_pages bs" by (simp add: bb_pages_def e)
      then show ?thesis using assms(3) ok \<open>w' = w\<close> by (auto simp: bb_inv_def e os_extends_refl)
    qed
    moreover have "(q, m) \<notin> entries_live us \<union> entries_live vs"
      using entry_split_live [OF _ e(2)] inv' m(3) by blast
    ultimately show ?thesis using m q by (auto simp: bb_live_def e)
  qed
  then show "bb_inv bs' w'" "os_extends w w'"
    "if q = 0 then bb_live bs' = bb_live bs else \<exists>m \<ge> n. (q, m) \<notin> bb_live bs \<and> bb_live bs' = insert (q, m) (bb_live bs)" by auto
qed

section \<open>Finding the entry of a pointer\<close>

lemma deallocate_entries_hit:
  assumes "\<forall>b \<in> set us. \<not> manages b p" "manages a p" "buddy_allocator_deallocate a p = Some a'"
  shows "deallocate_entries p (us @ a # vs) = Some (True, us @ a' # vs)"
  using assms by (induction us) auto

lemma deallocate_entries_miss: "\<forall>b \<in> set as. \<not> manages b p \<Longrightarrow> deallocate_entries p as = Some (False, as)"
  by (induction as) auto

lemma deallocate_blocks_hit:
  assumes "\<forall>b \<in> set (entries cs). \<not> manages b p" "deallocate_entries p (bb_allocators b) = Some (True, as)"
  shows "deallocate_blocks p (cs @ b # ds) = Some (True, cs @ b\<lparr>bb_allocators := as\<rparr> # ds)"
  using assms by (induction cs) (auto simp: deallocate_entries_miss)

lemma reallocate_entries_hit:
  assumes "\<forall>b \<in> set us. \<not> manages b p" "manages a p" "buddy_allocator_reallocate a p n h = Some (q, s, a', h')"
  shows "reallocate_entries p n (us @ a # vs) h = Some (Some (q, s), us @ a' # vs, h')"
  using assms by (induction us) auto

lemma reallocate_entries_miss: "\<forall>b \<in> set as. \<not> manages b p \<Longrightarrow> reallocate_entries p n as h = Some (None, as, h)"
  by (induction as) auto

lemma reallocate_blocks_hit:
  assumes "\<forall>b \<in> set (entries cs). \<not> manages b p" "reallocate_entries p n (bb_allocators b) h = Some (Some r, as, h')"
  shows "reallocate_blocks p n (cs @ b # ds) h = Some (Some r, cs @ b\<lparr>bb_allocators := as\<rparr> # ds, h')"
  using assms by (induction cs) (auto simp: reallocate_entries_miss)

text \<open>Where a pointer is found: the first entry that manages it.\<close>

definition found_at :: "nat \<Rightarrow> BuddyBlock list \<Rightarrow> BuddyBlock list \<Rightarrow> BuddyBlock \<Rightarrow> BuddyBlock list \<Rightarrow>
    BuddyAllocator list \<Rightarrow> BuddyAllocator \<Rightarrow> BuddyAllocator list \<Rightarrow> bool" where
  "found_at p bs cs b ds us a vs \<longleftrightarrow> bs = cs @ b # ds \<and> bb_allocators b = us @ a # vs \<and> manages a p \<and>
     (\<forall>x \<in> set (entries cs) \<union> set us. \<not> manages x p)"

definition put_entry :: "BuddyBlock list \<Rightarrow> BuddyBlock \<Rightarrow> BuddyBlock list \<Rightarrow>
    BuddyAllocator list \<Rightarrow> BuddyAllocator \<Rightarrow> BuddyAllocator list \<Rightarrow> BuddyBlock list" where
  "put_entry cs b ds us a' vs = cs @ b\<lparr>bb_allocators := us @ a' # vs\<rparr> # ds"

lemma found_entries:
  assumes "found_at p bs cs b ds us a vs"
  shows "entries bs = (entries cs @ us) @ a # vs @ entries ds"
    "entries (put_entry cs b ds us a' vs) = (entries cs @ us) @ a' # vs @ entries ds"
    "map bb_base (put_entry cs b ds us a' vs) = map bb_base bs"
  using assms by (simp_all add: found_at_def put_entry_def)

lemma found_put:
  assumes "found_at p bs cs b ds us a vs" "page a' = page a"
  shows "found_at p (put_entry cs b ds us a' vs) cs (b\<lparr>bb_allocators := us @ a' # vs\<rparr>) ds us a' vs"
  using assms by (simp add: found_at_def put_entry_def manages_def)

lemma put_put: "put_entry cs (b\<lparr>bb_allocators := us @ a # vs\<rparr>) ds us a' vs = put_entry cs b ds us a' vs"
  by (simp add: put_entry_def)

lemma found_deallocate:
  assumes "found_at p bs cs b ds us a vs" "buddy_allocator_deallocate a p = Some a'"
  shows "deallocate_blocks p bs = Some (True, put_entry cs b ds us a' vs)"
  using deallocate_blocks_hit [of cs p b _ ds] deallocate_entries_hit [of us p a a' vs] assms
  by (auto simp: found_at_def put_entry_def)

lemma found_reallocate:
  assumes "found_at p bs cs b ds us a vs" "buddy_allocator_reallocate a p n h = Some (q, s, a', h')"
  shows "reallocate_blocks p n bs h = Some (Some (q, s), put_entry cs b ds us a' vs, h')"
  using reallocate_blocks_hit [of cs p n b h _ _ h' ds] reallocate_entries_hit [of us p a n h q s a' h' vs] assms
  by (auto simp: found_at_def put_entry_def)

lemma live_managed:
  assumes "entry_ok a" "(p, s) \<in> live a"
  shows "manages a p"
  using entry_live_in_page [OF assms] by (simp add: manages_def config_defs)

lemma found_managed:
  assumes "bb_inv bs w" "a \<in> set (entries bs)" "manages a p"
  obtains cs b ds us vs where "found_at p bs cs b ds us a vs"
proof -
  have ok: "entry_ok x" if "x \<in> set (entries bs)" for x using assms(1) that unfolding bb_inv_def by blast
  obtain b where b: "b \<in> set bs" "a \<in> set (bb_allocators b)" using assms(2) by (auto simp: entries_def)
  obtain cs ds where bs: "bs = cs @ b # ds" using b(1) by (meson split_list)
  obtain us vs where e: "bb_allocators b = us @ a # vs" using b(2) by (meson split_list)
  have es: "entries bs = (entries cs @ us) @ a # vs @ entries ds" using bs e by simp
  have a0: "page a \<noteq> 0" using assms(3) by (simp add: manages_def)
  have "\<not> manages x p" if x: "x \<in> set (entries cs) \<union> set us" for x
  proof
    assume m: "manages x p"
    have "page a \<noteq> page x" using x by (intro bb_page_neq [OF assms(1) es _ a0]) auto
    moreover have "page x mod 4096 = 0" "page a mod 4096 = 0"
      using ok [of x] ok [of a] x assms(2) es unfolding entry_ok_def by auto
    ultimately show False
      using aligned_apart [of "page x" "page a"] m assms(3) unfolding manages_def by (auto simp: config_defs)
  qed
  then have "found_at p bs cs b ds us a vs" using bs e assms(3) by (auto simp: found_at_def)
  with that show thesis by blast
qed

lemma found_live:
  assumes "bb_inv bs w" "(p, s) \<in> bb_live bs"
  obtains cs b ds us a vs where "found_at p bs cs b ds us a vs" "(p, s) \<in> live a" "entry_ok a"
proof -
  obtain a where a: "a \<in> set (entries bs)" "(p, s) \<in> live a" using assms(2) by (auto simp: bb_live_def entries_live_def)
  have "entry_ok a" using assms(1) a(1) unfolding bb_inv_def by blast
  with found_managed [OF assms(1) a(1) live_managed [OF this a(2)]] a(2) that show thesis by metis
qed

lemma put_inv:
  assumes "bb_inv bs w" "found_at p bs cs b ds us a vs" "entry_ok a'" "page a' = page a"
  shows "bb_inv (put_entry cs b ds us a' vs) w"
proof -
  note f = found_entries [OF assms(2)]
  have "bb_pages (put_entry cs b ds us a' vs) = bb_pages bs"
    unfolding bb_pages_def f by (simp add: assms(4))
  then show ?thesis using assms(1,3) unfolding bb_inv_def f by auto
qed

lemma put_live:
  assumes "bb_inv bs w" "found_at p bs cs b ds us a vs" "(p, s) \<in> live a"
  shows "live a' = live a - {(p, s)} \<Longrightarrow> bb_live (put_entry cs b ds us a' vs) = bb_live bs - {(p, s)}"
    "live a' = insert r (live a - {(p, s)}) \<Longrightarrow> bb_live (put_entry cs b ds us a' vs) = insert r (bb_live bs - {(p, s)})"
  using entry_split_live [OF assms(1) found_entries(1) [OF assms(2)] assms(3)]
  by (auto simp: bb_live_def found_entries [OF assms(2)])

lemma bb_deallocate_live:
  assumes "bb_inv bs w" "bs \<noteq> []" "(p, s) \<in> bb_live bs"
  shows "\<exists>bs'. buddy_block_deallocate pick p bs w = Some (True, bs', w) \<and> bb_inv bs' w \<and> bs' \<noteq> [] \<and>
    bb_live bs' = bb_live bs - {(p, s)}"
proof -
  obtain cs b ds us a vs where f: "found_at p bs cs b ds us a vs" "(p, s) \<in> live a" "entry_ok a"
    using found_live [OF assms(1,3)] .
  have a: "buddy_inv a" "page a mod 4096 = 0" "page a \<noteq> 0"
    using f(3) entry_live_in_page(1) [OF f(3,2)] unfolding entry_ok_def by auto
  obtain a' where a': "buddy_allocator_deallocate a p = Some a'" "buddy_inv a'" "page a' = page a"
    "live a' = live a - {(p, s)}" using deallocate_live [OF a(1) f(2)] .
  have "entry_ok a'" using a a' unfolding entry_ok_def by auto
  moreover have "buddy_block_deallocate pick p bs w = Some (True, put_entry cs b ds us a' vs, w)"
    using found_deallocate [OF f(1) a'(1)] assms(2) by (simp add: buddy_block_deallocate_def buddy_block_def)
  moreover have "put_entry cs b ds us a' vs \<noteq> []" by (simp add: put_entry_def)
  ultimately show ?thesis
    using put_inv [OF assms(1) f(1) _ a'(3)] put_live(1) [OF assms(1) f(1,2) a'(4)] by blast
qed

lemma bb_allocate_total:
  assumes "mmap_fresh pick" "0 < n" "n \<le> 4096" "bs \<noteq> []" "bb_inv bs w"
  shows "\<exists>q bs' w'. buddy_block_allocate pick n bs w = Some (q, bs', w') \<and> bb_inv bs' w' \<and> bs' \<noteq> [] \<and> os_extends w w' \<and>
    (if q = 0 then bb_live bs' = bb_live bs else \<exists>m \<ge> n. (q, m) \<notin> bb_live bs \<and> bb_live bs' = insert (q, m) (bb_live bs))"
proof -
  have ok: "\<forall>a \<in> set (entries bs). entry_ok a" using assms(5) unfolding bb_inv_def by blast
  from allocate_blocks_total [OF assms(1-4) ok, of w] obtain q bs' w' bs0 w0 where
    r: "allocate_blocks pick n bs w = Some (q, bs', w')" "grown pick bs w bs0 w0" "blocks_alloc pick n bs0 w0 q bs' w'" by blast
  note g = grown_inv [OF assms(1) r(2) assms(5)]
  note b = blocks_alloc_inv [OF assms(1) r(3) g(1)]
  have "buddy_block_allocate pick n bs w = Some (q, bs', w')"
    using r(1) assms(4) by (simp add: buddy_block_allocate_def buddy_block_def)
  moreover have "bs' \<noteq> []" using r(2,3) assms(4) by (auto simp: grown_def blocks_alloc_def)
  ultimately show ?thesis using b os_extends_trans [OF g(3) b(2)] unfolding g(2) by blast
qed

section \<open>Moving a block to another page\<close>

lemma bb_live_mapped:
  assumes "bb_inv bs w" "(p, s) \<in> bb_live bs" "i < s"
  shows "os_pages w ((p + i) div 4096)"
proof -
  obtain a where a: "a \<in> set (entries bs)" "(p, s) \<in> live a" using assms(2) by (auto simp: bb_live_def entries_live_def)
  have "entry_ok a" using assms(1) a(1) unfolding bb_inv_def by blast
  note l = entry_live_in_page [OF this a(2)]
  have "page a mod 4096 = 0" using \<open>entry_ok a\<close> unfolding entry_ok_def by blast
  then have "(p + i) div 4096 = page a div 4096" using l assms(3) by (intro aligned_div) auto
  moreover have "page a \<in> set (bb_pages bs)" using a(1) l(1) by (auto simp: bb_pages_def)
  ultimately show ?thesis using assms(1) unfolding bb_inv_def by metis
qed

text \<open>A page that has just refused the request is not the one that serves it.\<close>

lemma blocks_alloc_elsewhere:
  assumes "mmap_fresh pick" "blocks_alloc pick n bs w q bs' w'" "bb_inv bs w" "q \<noteq> 0" "(q, m) \<in> bb_live bs'"
    "(q, m) \<notin> bb_live bs" "a \<in> set (entries bs)" "page a \<noteq> 0" "buddy_allocator_allocate a n = Some (0, a)"
  shows "a \<in> set (entries bs')" "q + m \<le> page a \<or> page a + 4096 \<le> q"
proof -
  from assms(2,4) obtain us x x' vs where e: "entries bs = us @ x # vs" "entries bs' = us @ x' # vs"
    and al: "entry_alloc pick n w x q x' w'" unfolding blocks_alloc_def by blast
  have "a \<noteq> x" using al assms(4,8,9) by (auto simp: entry_alloc_def split: if_splits)
  then have a: "a \<in> set us \<union> set vs" using assms(7) e by auto
  then show "a \<in> set (entries bs')" using e by auto
  have inv': "bb_inv bs' w'" using blocks_alloc_inv [OF assms(1-3)] by blast
  have x': "page x' \<noteq> 0" "entry_ok x'" "(q, m) \<in> live x'"
    using al assms(5,6) by (auto simp: entry_alloc_def bb_live_def e)
  have "page x' \<noteq> page a" using bb_page_neq [OF inv' e(2) a x'(1)] .
  moreover have "page x' mod 4096 = 0" "page a mod 4096 = 0"
    using x'(2) assms(3,7) unfolding entry_ok_def bb_inv_def by auto
  ultimately show "q + m \<le> page a \<or> page a + 4096 \<le> q"
    using aligned_apart [of "page x'" "page a"] entry_live_in_page [OF x'(2,3)] by auto
qed

lemma bb_return_twice:
  assumes "bb_inv bs w" "bs \<noteq> []" "a \<in> set (entries bs)" "page a \<noteq> 0" "t \<le> 8" "j < 2 ^ t"
    "\<forall>r \<in> live a. apart (page a + j * bsz t, bsz t) r"
  shows "\<exists>r bs'. buddy_block_deallocate pick (page a + j * bsz t) bs w = Some (r, bs', w) \<and> bb_inv bs' w \<and>
    bs' \<noteq> [] \<and> bb_live bs' = bb_live bs"
proof -
  let ?p = "page a + j * bsz t"
  have ok: "entry_ok a" using assms(1,3) unfolding bb_inv_def by blast
  have "manages a ?p" using assms(4) offset_bound [OF assms(5,6)] bsz_pos [of t] by (simp add: manages_def config_defs del: bsz_pos)
  then obtain cs b ds us vs where f: "found_at ?p bs cs b ds us a vs" using found_managed [OF assms(1,3)] by blast
  have inv: "buddy_inv a" using ok by (simp add: entry_ok_def)
  obtain a' where a': "buddy_allocator_deallocate a ?p = Some a'" "buddy_inv a'" "page a' = page a" "live a' = live a"
    using deallocate_free_harmless [OF inv assms(5-7)] by blast
  have "entry_ok a'" using a' ok assms(4) by (simp add: entry_ok_def)
  then have "bb_inv (put_entry cs b ds us a' vs) w" using put_inv [OF assms(1) f _ a'(3)] by blast
  moreover have "bb_live (put_entry cs b ds us a' vs) = bb_live bs"
    by (simp add: bb_live_def found_entries [OF f] a'(4))
  moreover have "buddy_block_deallocate pick ?p bs w = Some (True, put_entry cs b ds us a' vs, w)"
    using found_deallocate [OF f a'(1)] assms(2) by (simp add: buddy_block_deallocate_def buddy_block_def)
  moreover have "put_entry cs b ds us a' vs \<noteq> []" by (simp add: put_entry_def)
  ultimately show ?thesis by blast
qed

lemma bb_live_pairwise: "bb_inv bs w \<Longrightarrow> pairwise apart (bb_live bs)"
  using bb_live_apart by (auto simp: pairwise_def)

lemma bb_reallocate_inside:
  assumes "bb_inv bs w" "bs \<noteq> []" "found_at p bs cs b ds us a vs" "(p, s) \<in> live a" "entry_ok a"
    "buddy_allocator_reallocate a p n (os_mem w) = Some (q, s, a', h')" "buddy_inv a'" "page a' = page a"
    "realloc_ok (live a) (live a') p s n q (os_mem w) h'" "q \<noteq> 0"
  shows "buddy_block_reallocate pick p n bs w = Some (q, s, put_entry cs b ds us a' vs, w\<lparr>os_mem := h'\<rparr>)"
    "bb_inv (put_entry cs b ds us a' vs) (w\<lparr>os_mem := h'\<rparr>)"
    "realloc_ok (bb_live bs) (bb_live (put_entry cs b ds us a' vs)) p s n q (os_mem w) h'"
proof -
  let ?bs = "put_entry cs b ds us a' vs"
  show "buddy_block_reallocate pick p n bs w = Some (q, s, ?bs, w\<lparr>os_mem := h'\<rparr>)"
    using found_reallocate [OF assms(3,6)] assms(2,10) by (simp add: buddy_block_reallocate_def buddy_block_def)
  have "page a \<noteq> 0" using entry_live_in_page(1) [OF assms(5,4)] .
  then have ok: "entry_ok a'" using assms(5,7,8) unfolding entry_ok_def by auto
  have inv: "bb_inv ?bs w" by (rule put_inv [OF assms(1,3) ok assms(8)])
  then show "bb_inv ?bs (w\<lparr>os_mem := h'\<rparr>)" by (simp add: bb_inv_def)
  from assms(9,10) obtain m where m: "n \<le> m" "(q, m) \<notin> live a - {(p, s)}" "live a' = insert (q, m) (live a - {(p, s)})"
    "\<forall>x. \<not> in_region q m x \<longrightarrow> h' x = os_mem w x" "\<forall>i < min s n. h' (q + i) = os_mem w (p + i)"
    by (auto simp: realloc_ok_def)
  have "(q, m) \<in> live a'" using m(3) by simp
  from entry_split_live [OF inv found_entries(2) [OF assms(3)] this]
  have "(q, m) \<notin> bb_live bs - {(p, s)}" using m(2) by (auto simp: bb_live_def found_entries [OF assms(3)])
  then show "realloc_ok (bb_live bs) (bb_live ?bs) p s n q (os_mem w) h'"
    unfolding realloc_ok_def if_not_P [OF assms(10)] put_live(2) [OF assms(1,3,4) m(3)] using m(1,4,5) by blast
qed

lemma bb_reallocate_elsewhere:
  assumes "mmap_fresh pick" "0 < n" "n \<le> 4096"
    and "bb_inv bs w" "bs \<noteq> []" "found_at p bs cs b ds us a vs" "(p, s) \<in> live a" "entry_ok a"
    and r: "buddy_allocator_reallocate a p n (os_mem w) = Some (0, s, a', os_mem w)" "buddy_inv a'" "page a' = page a"
      "live a' = live a - {(p, s)}" "buddy_allocator_allocate a' n = Some (0, a')" "s < n"
  shows "\<exists>q bs' w'. buddy_block_reallocate pick p n bs w = Some (q, s, bs', w') \<and> bb_inv bs' w' \<and> bs' \<noteq> [] \<and>
    realloc_outcome (bb_live bs) (bb_live bs') p s n q (os_mem w) (os_mem w')"
proof -
  let ?bs = "put_entry cs b ds us a' vs"
  note pg = entry_live_in_page [OF assms(8,7)]
  have ok: "entry_ok a'" using assms(8) pg(1) r(2,3) unfolding entry_ok_def by auto
  have inv: "bb_inv ?bs w" by (rule put_inv [OF assms(4,6) ok r(3)])
  have ne: "?bs \<noteq> []" and a'_in: "a' \<in> set (entries ?bs)" using found_entries [OF assms(6)] by (auto simp: put_entry_def)
  have lv: "bb_live ?bs = bb_live bs - {(p, s)}" by (rule put_live(1) [OF assms(4,6,7) r(4)])
  have okall: "\<forall>a \<in> set (entries ?bs). entry_ok a" using inv unfolding bb_inv_def by blast
  from allocate_blocks_total [OF assms(1-3) ne okall, of w] obtain q bs' w' bs0 w0 where
    al: "allocate_blocks pick n ?bs w = Some (q, bs', w')" "grown pick ?bs w bs0 w0" "blocks_alloc pick n bs0 w0 q bs' w'" by blast
  note g = grown_inv [OF assms(1) al(2) inv] and bl = blocks_alloc_inv [OF assms(1) al(3)]
  note bl = bl [OF g(1)]
  have x: "os_extends w w'" by (rule os_extends_trans [OF g(3) bl(2)])
  have kept: "os_mem w' (p' + i) = os_mem w (p' + i)" if "(p', s') \<in> bb_live bs" "i < s'" for p' s' i
    using bb_live_mapped [OF assms(4) that] x by (simp add: os_extends_def)
  have step: "buddy_block_reallocate pick p n bs w =
      (if q = 0 then Some (0, s, bs', w')
       else Option.bind (memcpy q p s (os_mem w')) (\<lambda>h'. map_option (\<lambda>(r', bs4, w4). (q, s, bs4, w4))
              (buddy_block_deallocate pick p bs' (w'\<lparr>os_mem := h'\<rparr>))))"
    using found_reallocate [OF assms(6) r(1)] assms(3,5) ne al(1)
    by (simp add: buddy_block_reallocate_def buddy_block_def buddy_block_allocate_def config_defs)
  have ne': "bs' \<noteq> []" using al(2,3) ne by (auto simp: grown_def blocks_alloc_def)
  show ?thesis
  proof (cases "q = 0")
    case True
    then show ?thesis using step bl ne' kept lv g(2) by (auto simp: realloc_outcome_def)
  next
    case False
    then obtain m where m: "n \<le> m" "(q, m) \<notin> bb_live bs0" "bb_live bs' = insert (q, m) (bb_live bs0)" using bl(3) by auto
    have a0: "a' \<in> set (entries bs0)" using al(2) a'_in by (auto simp: grown_def)
    have e: "a' \<in> set (entries bs')" "q + m \<le> page a' \<or> page a' + 4096 \<le> q"
      using blocks_alloc_elsewhere [OF assms(1) al(3) g(1) False _ m(2) a0 _ r(5)] m(3) pg(1) r(3) by auto
    have ap: "apart (q, s) (p, s)" using e(2) pg r(3,6) m(1) by (auto simp: apart_def)
    obtain h' where h': "memcpy q p s (os_mem w') = Some h'" using memcpy_apart [OF ap, of "os_mem w'"] by metis
    have inv': "bb_inv bs' (w'\<lparr>os_mem := h'\<rparr>)" using bl(1) by (simp add: bb_inv_def)
    obtain c k where c: "c \<le> 8" "k < 2 ^ c" "p = page a + k * bsz c" "s = bsz c" using liveE [OF assms(7)] by metis
    have "\<forall>r \<in> live a'. apart (page a' + k * bsz c, bsz c) r"
      using live_apart [of a "(p, s)"] assms(7,8) c r(3,4) by (auto simp: entry_ok_def)
    with bb_return_twice [OF inv' ne' e(1) _ c(1,2), of pick] pg(1) r(3) c(3) obtain r' bs4 where
      d: "buddy_block_deallocate pick p bs' (w'\<lparr>os_mem := h'\<rparr>) = Some (r', bs4, w'\<lparr>os_mem := h'\<rparr>)"
        "bb_inv bs4 (w'\<lparr>os_mem := h'\<rparr>)" "bs4 \<noteq> []" "bb_live bs4 = bb_live bs'" by auto
    have run: "buddy_block_reallocate pick p n bs w = Some (q, s, bs4, w'\<lparr>os_mem := h'\<rparr>)"
      using step False h' d(1) by simp
    have l4: "bb_live bs4 = insert (q, m) (bb_live bs - {(p, s)})" "(q, m) \<notin> bb_live bs - {(p, s)}"
      using d(4) m(2,3) g(2) lv by auto
    have "(p, s) \<in> bb_live bs" using assms(7) by (simp add: bb_live_def found_entries [OF assms(6)])
    then have "realloc_outcome (bb_live bs) (bb_live bs4) p s n q (os_mem w) (os_mem (w'\<lparr>os_mem := h'\<rparr>))"
      using False m(1) r(6) l4 bb_live_pairwise [OF d(2)] kept h'
      by (intro realloc_outcome_moved [where m = m and ?h0.0 = "os_mem w'"]) auto
    with run d(2,3) show ?thesis by blast
  qed
qed


section \<open>Properties\<close>

text \<open>The functions as operations on the state, the chain together with the machine.\<close>

definition bb_malloc :: "picker \<Rightarrow> BuddyBlock list \<times> os \<Rightarrow> nat \<Rightarrow> (nat \<times> BuddyBlock list \<times> os) option" where
  "bb_malloc pick st n = buddy_block_allocate pick n (fst st) (snd st)"

definition bb_free :: "picker \<Rightarrow> BuddyBlock list \<times> os \<Rightarrow> nat \<Rightarrow> (BuddyBlock list \<times> os) option" where
  "bb_free pick st p = map_option snd (buddy_block_deallocate pick p (fst st) (snd st))"

definition bb_state :: "BuddyBlock list \<times> os \<Rightarrow> bool" where
  "bb_state st \<longleftrightarrow> fst st \<noteq> [] \<and> bb_inv (fst st) (snd st)"

sublocale kernel \<subseteq> blocks: heap_contract bb_state "\<lambda>st. bb_live (fst st)" "\<lambda>n. 0 < n \<and> n \<le> 4096"
  "bb_malloc pick" "bb_free pick" "\<lambda>s r. False"
proof
  fix st and n :: nat assume s: "bb_state st" and n: "0 < n \<and> n \<le> 4096"
  from bb_allocate_total [OF fresh, of n "fst st" "snd st"] s n obtain q bs' w' where
    "buddy_block_allocate pick n (fst st) (snd st) = Some (q, bs', w')" "bb_inv bs' w'" "bs' \<noteq> []"
    "if q = 0 then bb_live bs' = bb_live (fst st)
     else \<exists>m \<ge> n. (q, m) \<notin> bb_live (fst st) \<and> bb_live bs' = insert (q, m) (bb_live (fst st))"
    unfolding bb_state_def by blast
  then show "\<exists>q s'. bb_malloc pick st n = Some (q, s') \<and> bb_state s' \<and>
      (q = 0 \<and> bb_live (fst s') = bb_live (fst st) \<or>
       q \<noteq> 0 \<and> (\<exists>m \<ge> n. (q, m) \<notin> bb_live (fst st) \<and> bb_live (fst s') = insert (q, m) (bb_live (fst st))))"
    by (intro exI [of _ q] exI [of _ "(bs', w')"]) (auto simp: bb_malloc_def bb_state_def split: if_splits)
next
  fix st q m assume "bb_state st" "(q, m) \<in> bb_live (fst st)"
  with bb_deallocate_live [of "fst st" "snd st" q m pick]
  show "\<exists>s'. bb_free pick st q = Some s' \<and> bb_state s' \<and> bb_live (fst s') = bb_live (fst st) - {(q, m)}"
    unfolding bb_state_def bb_free_def by force
next
  show "apart r r'" if "bb_state st" "r \<in> bb_live (fst st)" "r' \<in> bb_live (fst st)" "r \<noteq> r'" for st r r'
    using that bb_live_apart unfolding bb_state_def by blast
  show "0 < m" if "bb_state st" "(q, m) \<in> bb_live (fst st)" for st q m
    using that entry_live_in_page(4) unfolding bb_state_def bb_inv_def bb_live_def entries_live_def by blast
qed simp_all

text \<open>
  \<open>buddy_block_reallocate\<close> of a live pointer to 1 to 4096 bytes, for every kernel that hands
  out fresh pages: it terminates and reports the old size. On success the new block is
  live and large enough and has the old contents up to the smaller size; every other block
  keeps its contents. The old block, which has been given up before it is returned a second
  time, does no harm. On failure the caller gets NULL and no longer owns the old block.
\<close>

theorem buddy_block_reallocate_correct:
  assumes "mmap_fresh pick" "0 < n" "n \<le> 4096" "bb_inv bs w" "bs \<noteq> []" "(p, s) \<in> bb_live bs"
  shows "\<exists>q bs' w'. buddy_block_reallocate pick p n bs w = Some (q, s, bs', w') \<and> bb_inv bs' w' \<and> bs' \<noteq> [] \<and>
    realloc_outcome (bb_live bs) (bb_live bs') p s n q (os_mem w) (os_mem w')"
proof -
  obtain cs b ds us a vs where f: "found_at p bs cs b ds us a vs" "(p, s) \<in> live a" "entry_ok a"
    using found_live [OF assms(4,6)] .
  obtain t where t: "fits t n" using fits_exists assms(2,3) by blast
  have a: "buddy_inv a" "page a \<noteq> 0" using f(3) entry_live_in_page(1) [OF f(3,2)] by (auto simp: entry_ok_def)
  from reallocate_live [OF a f(2) t, of "os_mem w"] obtain q a' h' where
    r: "buddy_allocator_reallocate a p n (os_mem w) = Some (q, s, a', h')" "buddy_inv a'" "page a' = page a"
      "realloc_ok (live a) (live a') p s n q (os_mem w) h'"
      "q = 0 \<longrightarrow> buddy_allocator_allocate a' n = Some (0, a') \<and> s < n" by blast
  show ?thesis
  proof (cases "q = 0")
    case True
    then have "live a' = live a - {(p, s)}" "h' = os_mem w" using r(4) by (simp_all add: realloc_ok_def)
    then show ?thesis using bb_reallocate_elsewhere [OF assms(1-5) f] r True by blast
  next
    case False
    note i = bb_reallocate_inside [OF assms(4,5) f r(1-4) False]
    have "realloc_outcome (bb_live bs) (bb_live (put_entry cs b ds us a' vs)) p s n q (os_mem w) h'"
      by (rule realloc_ok_outcome [OF i(3) bb_live_pairwise [OF i(2)]])
    then show ?thesis using i(1,2)
      by (intro exI [of _ q] exI [of _ "put_entry cs b ds us a' vs"] exI [of _ "w\<lparr>os_mem := h'\<rparr>"]) (simp add: put_entry_def)
  qed
qed

text \<open>A machine with one metadata page and one page that is handed out whole.\<close>

definition one_block :: "BuddyBlock list" where
  "one_block = [\<lparr>bb_base = 8192, bb_allocators = [full_buddy]\<rparr>]"

definition two_pages :: os where
  "two_pages = \<lparr>os_clock = 5, os_pages = (\<lambda>p. p = 1 \<or> p = 2), os_mem = (\<lambda>x. 7)\<rparr>"

lemma one_block_inv: "bb_inv one_block two_pages" "one_block \<noteq> []" "bb_live one_block = {(4096, 4096)}"
  using full_buddy_inv full_buddy_live
  by (simp_all add: bb_inv_def one_block_def two_pages_def bb_pages_def bb_live_def entry_ok_def)
    (simp add: full_buddy_def)

theorem buddy_block_reallocate_correct_witness:
  "mmap_fresh bump_pick \<and> bb_inv one_block two_pages \<and> (4096, 4096) \<in> bb_live one_block \<and>
   (\<exists>q bs' w'. buddy_block_reallocate bump_pick 4096 100 one_block two_pages = Some (q, 4096, bs', w') \<and> bb_inv bs' w')"
proof -
  have "(4096, 4096) \<in> bb_live one_block" by (simp add: one_block_inv)
  then show ?thesis
    using buddy_block_reallocate_correct [OF bump_fresh _ _ one_block_inv(1,2), of 100 4096 4096]
      bump_fresh one_block_inv(1) by auto
qed

text \<open>
  \<open>buddy_block_allocate\<close> of 1 to 4096 bytes on an initialised chain always returns, for
  every kernel that hands out fresh pages: NULL with the live blocks unchanged, or a new
  block that is large enough. All live blocks are apart, and nothing that was mapped changes.
\<close>

theorem buddy_block_allocate_correct:
  assumes "mmap_fresh pick" "0 < n" "n \<le> 4096" "bs \<noteq> []" "bb_inv bs w"
  shows "\<exists>q bs' w'. buddy_block_allocate pick n bs w = Some (q, bs', w') \<and> bb_inv bs' w' \<and> os_extends w w' \<and>
    pairwise apart (bb_live bs') \<and>
    (if q = 0 then bb_live bs' = bb_live bs else \<exists>m \<ge> n. (q, m) \<notin> bb_live bs \<and> bb_live bs' = insert (q, m) (bb_live bs))"
  using bb_allocate_total [OF assms] bb_live_pairwise by blast

theorem buddy_block_allocate_correct_witness:
  "mmap_fresh bump_pick \<and> bb_inv one_block two_pages \<and>
   (\<exists>q bs' w'. buddy_block_allocate bump_pick 100 one_block two_pages = Some (q, bs', w') \<and> bb_inv bs' w' \<and>
      pairwise apart (bb_live bs'))"
  using buddy_block_allocate_correct [OF bump_fresh _ _ one_block_inv(2,1), of 100] bump_fresh one_block_inv(1) by auto

text \<open>
  The metadata page of the first block is not checked: when the kernel refuses it, the
  first \<open>buddy_block_allocate\<close> dereferences a null pointer (the model has no result) instead of
  returning NULL.
\<close>

theorem buddy_block_first_use_unchecked:
  assumes "request_page pick 4096 w = (0, w')"
  shows "buddy_block_allocate pick n [] w = None"
  using assms by (simp add: buddy_block_allocate_def buddy_block_def config_defs allocate_blocks.simps)

theorem buddy_block_first_use_unchecked_witness:
  "request_page (\<lambda>t pages n. None) 4096 boot_os = (0, boot_os\<lparr>os_clock := 1\<rparr>) \<and>
   buddy_block_allocate (\<lambda>t pages n. None) 10 [] boot_os = None"
  using buddy_block_first_use_unchecked [of "\<lambda>t pages n. None" boot_os "boot_os\<lparr>os_clock := 1\<rparr>" 10]
  by (simp add: request_page_def boot_os_def)

end
