(* ===== verification/Slot_Allocator.thy ===== *)
theory Slot_Allocator
  imports Heap_Contract
begin

text \<open>
  \<open>task5-memory/src/slot_allocator.c\<close>: a chain of areas of 32 pages, each divided into 248 slots
  of 528 bytes. A span is one or more consecutive slots; the header of its first slot holds its
  length and whether it is used. The headers of an area are a list indexed by slot; the header
  of a slot inside a span has no meaning. Access to a header outside the list has no result.
\<close>

section \<open>The model\<close>

record Slot =
  slot_length :: nat
  slot_used :: bool

record SlotAllocator =
  sa_base :: nat
  sa_cursor :: nat
  sa_slots :: "Slot list"

definition sizeof_Slot :: nat where "sizeof_Slot = 16"
definition sizeof_SlotAllocator :: nat where "sizeof_SlotAllocator = 16"
definition SLOT_SIZE :: nat where "SLOT_SIZE = SLOT_ALLOCATOR_SLOT_SIZE + sizeof_Slot"
definition SLOT_COUNT :: nat where "SLOT_COUNT = (SLOT_ALLOCATOR_SIZE - sizeof_SlotAllocator) div SLOT_SIZE"

lemmas slot_defs = config_defs sizeof_Slot_def sizeof_SlotAllocator_def SLOT_SIZE_def SLOT_COUNT_def

definition get_slot :: "Slot list \<Rightarrow> nat \<Rightarrow> Slot option" where
  "get_slot ss i = (if i < length ss then Some (ss ! i) else None)"

definition put_slot :: "Slot list \<Rightarrow> nat \<Rightarrow> Slot \<Rightarrow> Slot list option" where
  "put_slot ss i s = (if i < length ss then Some (ss[i := s]) else None)"

definition get_successor_slot :: "Slot list \<Rightarrow> nat \<Rightarrow> Slot option" where
  "get_successor_slot ss i = Option.bind (get_slot ss i) (\<lambda>s. get_slot ss (i + slot_length s))"

text \<open>The address of a header; the pointer handed out follows it.\<close>

definition slot_address :: "SlotAllocator \<Rightarrow> nat \<Rightarrow> nat" where
  "slot_address a i = sa_base a + sizeof_SlotAllocator + i * SLOT_SIZE"

definition slot_to_index :: "SlotAllocator \<Rightarrow> nat \<Rightarrow> nat" where
  "slot_to_index a slot = sub64 (sub64 slot (sa_base a)) sizeof_SlotAllocator div SLOT_SIZE"

definition create :: "picker \<Rightarrow> os \<Rightarrow> SlotAllocator list \<times> os" where
  "create pick w =
     (case request_page pick SLOT_ALLOCATOR_SIZE w of (p, w') \<Rightarrow>
        (if p = 0 then []
         else [\<lparr>sa_base = p, sa_cursor = 0,
                sa_slots = \<lparr>slot_length = SLOT_COUNT, slot_used = False\<rparr> #
                  replicate (SLOT_COUNT - 1) \<lparr>slot_length = 0, slot_used = False\<rparr>\<rparr>], w'))"

definition slot_allocator :: "picker \<Rightarrow> SlotAllocator list \<Rightarrow> os \<Rightarrow> SlotAllocator list \<times> os" where
  "slot_allocator pick as w = (if as = [] then create pick w else (as, w))"

definition required_slots :: "nat \<Rightarrow> nat" where
  "required_slots n =
     (let r = add64 sizeof_Slot n div SLOT_SIZE
      in if mul64 r SLOT_SIZE < add64 sizeof_Slot n then r + 1 else r)"

text \<open>Merging a free span with the free spans behind it.\<close>

partial_function (option) merge_free :: "Slot list \<Rightarrow> nat \<Rightarrow> Slot list option" where
  "merge_free ss i =
     Option.bind (get_slot ss i) (\<lambda>s.
     if i + slot_length s < SLOT_COUNT
     then
       Option.bind (get_successor_slot ss i) (\<lambda>t.
       if slot_used t then Some ss
       else merge_free (ss[i := s\<lparr>slot_length := slot_length s + slot_length t\<rparr>]) i)
     else Some ss)"

text \<open>Splitting a span that is longer than required, and marking its first part.\<close>

definition split_span :: "Slot list \<Rightarrow> nat \<Rightarrow> nat \<Rightarrow> Slot list option" where
  "split_span ss i required =
     Option.bind (get_slot ss i) (\<lambda>s.
     if slot_length s > required
     then
       Option.bind (put_slot ss (i + required) \<lparr>slot_length = slot_length s - required, slot_used = False\<rparr>) (\<lambda>ss'.
       put_slot ss' i (s\<lparr>slot_length := required\<rparr>))
     else Some ss)"

text \<open>The scan of one area from a slot on: the slot that serves the request, if there is one.\<close>

partial_function (option) scan :: "Slot list \<Rightarrow> nat \<Rightarrow> nat \<Rightarrow> (nat option \<times> Slot list) option" where
  "scan ss required i =
     (if i < SLOT_COUNT
      then
        Option.bind (get_slot ss i) (\<lambda>s.
        if slot_used s then scan ss required (i + slot_length s)
        else
          Option.bind (merge_free ss i) (\<lambda>ss'.
          Option.bind (get_slot ss' i) (\<lambda>s'.
          if slot_length s' < required then scan ss' required (i + slot_length s')
          else
            Option.bind (put_slot ss' i (s'\<lparr>slot_used := True\<rparr>)) (\<lambda>ss''.
            Option.bind (split_span ss'' i required) (\<lambda>ss3. Some (Some i, ss3))))))
      else Some (None, ss))"

partial_function (option) allocate_chain ::
  "picker \<Rightarrow> nat \<Rightarrow> SlotAllocator list \<Rightarrow> os \<Rightarrow> (nat \<times> SlotAllocator list \<times> os) option" where
  "allocate_chain pick required as w =
     (case as of
        [] \<Rightarrow> None
      | a # rest \<Rightarrow>
          Option.bind (scan (sa_slots a) required (sa_cursor a)) (\<lambda>(r, ss).
          case r of
            Some i \<Rightarrow>
              Some (slot_address a i + sizeof_Slot, a\<lparr>sa_slots := ss, sa_cursor := i + required\<rparr> # rest, w)
          | None \<Rightarrow>
              if rest = []
              then (case create pick w of (new, w') \<Rightarrow>
                      if new = [] then Some (0, [a\<lparr>sa_slots := ss\<rparr>], w')
                      else Option.bind (allocate_chain pick required new w')
                             (\<lambda>(q, as', w''). Some (q, a\<lparr>sa_slots := ss\<rparr> # as', w'')))
              else Option.bind (allocate_chain pick required rest w)
                     (\<lambda>(q, as', w'). Some (q, a\<lparr>sa_slots := ss\<rparr> # as', w'))))"

definition slot_allocator_allocate ::
  "picker \<Rightarrow> nat \<Rightarrow> SlotAllocator list \<Rightarrow> os \<Rightarrow> (nat \<times> SlotAllocator list \<times> os) option" where
  "slot_allocator_allocate pick n as w =
     (case slot_allocator pick as w of (as', w') \<Rightarrow>
        if as' = [] then Some (0, [], w')
        else allocate_chain pick (required_slots n) as' w')"

definition outside :: "SlotAllocator \<Rightarrow> nat \<Rightarrow> bool" where
  "outside a pointer \<longleftrightarrow> pointer < sa_base a \<or> pointer \<ge> sa_base a + SLOT_ALLOCATOR_SIZE"

text \<open>
  The first area that contains the pointer. A chain without areas (the kernel refused the
  first one) is a null pointer that the loops dereference.
\<close>

fun find_area :: "nat \<Rightarrow> SlotAllocator list \<Rightarrow> nat option option" where
  "find_area pointer [] = None"
| "find_area pointer (a # rest) =
     (if outside a pointer
      then (if rest = [] then Some None else map_option (map_option Suc) (find_area pointer rest))
      else Some (Some 0))"

text \<open>The header before a pointer; a pointer that is not behind a header addresses other memory.\<close>

definition header_index :: "SlotAllocator \<Rightarrow> nat \<Rightarrow> nat option" where
  "header_index a pointer =
     (let i = slot_to_index a (sub64 pointer sizeof_Slot)
      in if i < length (sa_slots a) \<and> pointer = slot_address a i + sizeof_Slot then Some i else None)"

definition slot_allocator_deallocate ::
  "picker \<Rightarrow> nat \<Rightarrow> SlotAllocator list \<Rightarrow> os \<Rightarrow> (bool \<times> SlotAllocator list \<times> os) option" where
  "slot_allocator_deallocate pick pointer as w =
     (case slot_allocator pick as w of (as1, w1) \<Rightarrow>
      Option.bind (find_area pointer as1) (\<lambda>r.
      case r of
        None \<Rightarrow> Some (False, as1, w1)
      | Some k \<Rightarrow>
          let a = as1 ! k in
          Option.bind (header_index a pointer) (\<lambda>i.
          Option.bind (get_slot (sa_slots a) i) (\<lambda>s.
          Option.bind (put_slot (sa_slots a) i (s\<lparr>slot_used := False\<rparr>)) (\<lambda>ss.
          Some (True,
                as1[k := a\<lparr>sa_slots := ss, sa_cursor := (if i < sa_cursor a then i else sa_cursor a)\<rparr>],
                w1))))))"

text \<open>The merging loop of the reallocation, which stops once the span is longer than required.\<close>

partial_function (option) expand_span :: "Slot list \<Rightarrow> nat \<Rightarrow> nat \<Rightarrow> Slot list option" where
  "expand_span ss required i =
     Option.bind (get_slot ss i) (\<lambda>s.
     if i + slot_length s < SLOT_COUNT
     then
       Option.bind (get_successor_slot ss i) (\<lambda>t.
       if \<not> slot_used t \<and> slot_length s \<le> required
       then expand_span (ss[i := s\<lparr>slot_length := slot_length s + slot_length t\<rparr>]) required i
       else Some ss)
     else Some ss)"

definition slot_allocator_reallocate ::
  "picker \<Rightarrow> nat \<Rightarrow> nat \<Rightarrow> SlotAllocator list \<Rightarrow> os \<Rightarrow> (nat \<times> SlotAllocator list \<times> os) option" where
  "slot_allocator_reallocate pick pointer n as w =
     (let required = required_slots n in
      case slot_allocator pick as w of (as1, w1) \<Rightarrow>
      Option.bind (find_area pointer as1) (\<lambda>r.
      case r of
        None \<Rightarrow> Some (0, as1, w1)
      | Some k \<Rightarrow>
          let a = as1 ! k in
          Option.bind (header_index a pointer) (\<lambda>i.
          Option.bind (expand_span (sa_slots a) required i) (\<lambda>ss1.
          Option.bind (split_span ss1 i required) (\<lambda>ss2.
          Option.bind (get_slot ss2 i) (\<lambda>s.
          if slot_length s = required
          then Some (pointer, as1[k := a\<lparr>sa_slots := ss2, sa_cursor := i + required\<rparr>], w1)
          else
            Option.bind (slot_allocator_allocate pick n (as1[k := a\<lparr>sa_slots := ss2\<rparr>]) w1) (\<lambda>(q, as2, w2).
            if q = 0 then Some (0, as2, w2)
            else
              Option.bind (get_slot (sa_slots (as2 ! k)) i) (\<lambda>s2.
              Option.bind (memcpy q pointer (slot_length s2 * SLOT_SIZE) (os_mem w2)) (\<lambda>h.
              Option.bind (put_slot (sa_slots (as2 ! k)) i (s2\<lparr>slot_used := False\<rparr>)) (\<lambda>ss3.
              Some (q, as2[k := (as2 ! k)\<lparr>sa_slots := ss3\<rparr>], w2\<lparr>os_mem := h\<rparr>)))))))))))"

text \<open>The self-check: every header from the first slot on is sane; \<open>None\<close> if it runs off the area.\<close>

partial_function (option) check_area :: "Slot list \<Rightarrow> nat \<Rightarrow> bool \<Rightarrow> bool option" where
  "check_area ss i trapped =
     Option.bind (get_slot ss i) (\<lambda>s.
     let trapped' = (trapped \<or> slot_length s = 0 \<or> i + slot_length s > SLOT_COUNT) in
     if i + slot_length s = SLOT_COUNT then Some trapped'
     else check_area ss (i + slot_length s) trapped')"

definition slot_allocator_check_integrity :: "SlotAllocator list \<Rightarrow> bool option" where
  "slot_allocator_check_integrity as =
     fold (\<lambda>a r. Option.bind r (\<lambda>t. map_option (\<lambda>t'. t \<or> t') (check_area (sa_slots a) 0 False))) as (Some False)"

declare merge_free.simps [code] scan.simps [code] allocate_chain.simps [code] expand_span.simps [code]
  check_area.simps [code]

end
