(* ===== verification/Slot_Correct.thy ===== *)
theory Slot_Correct
  imports Slot_Allocator
begin

text \<open>
  Correctness of the slot allocator. The headers of an area describe a list of spans
  (\<open>layout\<close>), and the operations refine simple list operations: merging joins adjacent free
  spans, allocation turns a free span into a used one and a rest, and freeing flips a flag.
  Allocation and deallocation meet the heap contract. Reallocation does not: the last section
  shows a run after which two live blocks overlap.
\<close>

section \<open>Spans\<close>

type_synonym span = "nat \<times> nat \<times> bool"

fun layout :: "Slot list \<Rightarrow> nat \<Rightarrow> span list \<Rightarrow> nat \<Rightarrow> bool" where
  "layout ss i [] e \<longleftrightarrow> i = e"
| "layout ss i ((j, l, u) # ps) e \<longleftrightarrow>
     j = i \<and> i < length ss \<and> ss ! i = \<lparr>slot_length = l, slot_used = u\<rparr> \<and> 0 < l \<and> layout ss (i + l) ps e"

definition used_spans :: "span list \<Rightarrow> (nat \<times> nat) set" where
  "used_spans ps = {(i, l). (i, l, True) \<in> set ps}"

lemma used_spans_simps [simp]:
  "used_spans [] = {}" "used_spans ((i, l, True) # ps) = insert (i, l) (used_spans ps)"
  "used_spans ((i, l, False) # ps) = used_spans ps" "used_spans (ps @ qs) = used_spans ps \<union> used_spans qs"
  by (auto simp: used_spans_def)

lemma layout_append: "layout ss i (ps @ qs) e \<longleftrightarrow> (\<exists>j. layout ss i ps j \<and> layout ss j qs e)"
  by (induction ss i ps e rule: layout.induct) auto

lemma layout_le: "layout ss i ps e \<Longrightarrow> i \<le> e"
  by (induction ss i ps e rule: layout.induct) auto

lemma layout_starts: "layout ss i ps e \<Longrightarrow> (j, l, u) \<in> set ps \<Longrightarrow> i \<le> j \<and> j + l \<le> e \<and> 0 < l"
proof (induction ss i ps e rule: layout.induct)
  case (2 ss i j' l' u' ps e)
  then show ?case using layout_le [of ss "i + l'" ps e] by auto
qed simp

lemma layout_frame: "layout ss i ps e \<Longrightarrow> k < i \<or> e \<le> k \<Longrightarrow> layout (ss[k := s]) i ps e"
proof (induction ss i ps e rule: layout.induct)
  case (2 ss i j l u ps e)
  then show ?case using layout_le [of ss "i + l" ps e] by (auto simp: nth_list_update)
qed simp

lemma layout_functional: "layout ss i ps e \<Longrightarrow> layout ss i ps e' \<Longrightarrow> e = e'"
  by (induction ss i ps e rule: layout.induct) auto

lemma layout_apart:
  "layout ss i ps e \<Longrightarrow> (j, l, u) \<in> set ps \<Longrightarrow> (j', l', u') \<in> set ps \<Longrightarrow> (j, l, u) \<noteq> (j', l', u') \<Longrightarrow>
     j + l \<le> j' \<or> j' + l' \<le> j"
proof (induction ss i ps e rule: layout.induct)
  case (2 ss i j0 l0 u0 ps e)
  then show ?case using layout_starts [of ss "i + l0" ps e] by fastforce
qed simp

text \<open>Both merging loops join a free span with the free spans that follow.\<close>

lemma get_slot_layout: "layout ss i ((i, l, u) # ps) e \<Longrightarrow> get_slot ss i = Some \<lparr>slot_length = l, slot_used = u\<rparr>"
  by (simp add: get_slot_def)

lemma layout_join:
  assumes "layout ss i ((i, l, u) # (j, m, False) # vs) e"
  shows "layout (ss[i := \<lparr>slot_length = l + m, slot_used = u\<rparr>]) i ((i, l + m, u) # vs) e"
  using assms layout_frame [of ss "i + l + m" vs e i] by (auto simp: add.assoc)

lemma successor_layout:
  assumes "layout ss i ((i, l, u) # (j, m, v) # vs) e"
  shows "get_successor_slot ss i = Some \<lparr>slot_length = m, slot_used = v\<rparr>"
  using assms by (auto simp: get_successor_slot_def get_slot_def)

definition joined :: "Slot list \<Rightarrow> span list \<Rightarrow> Slot list \<Rightarrow> span list \<Rightarrow> nat \<Rightarrow> bool" where
  "joined ss ps ss' ps' i \<longleftrightarrow> length ss' = length ss \<and> (\<forall>k. k \<noteq> i \<longrightarrow> ss' ! k = ss ! k) \<and>
     used_spans (tl ps') = used_spans (tl ps) \<and> set (tl ps') \<subseteq> set (tl ps)"

lemma merge_free_layout:
  "layout ss i ((i, l, False) # vs) SLOT_COUNT \<Longrightarrow>
     \<exists>ss' l' vs'. merge_free ss i = Some ss' \<and> layout ss' i ((i, l', False) # vs') SLOT_COUNT \<and> l \<le> l' \<and>
       joined ss ((i, l, False) # vs) ss' ((i, l', False) # vs') i \<and> length vs' \<le> length vs"
proof (induction vs arbitrary: ss l)
  case Nil
  then have "merge_free ss i = Some ss" by (subst merge_free.simps) (simp add: get_slot_def)
  then show ?case using Nil by (intro exI [of _ ss] exI [of _ l] exI [of _ "[]"]) (simp add: joined_def)
next
  case (Cons v vs)
  obtain j m u where v: "v = (j, m, u)" by (cases v)
  note lay = Cons.prems [unfolded v]
  have lt: "i + l < SLOT_COUNT" using layout_starts [OF lay, of j m u] lay by auto
  note g = get_slot_layout [OF lay] and sc = successor_layout [OF lay]
  show ?case
  proof (cases u)
    case True
    then have "merge_free ss i = Some ss" using g sc lt by (subst merge_free.simps) simp
    then show ?thesis using Cons.prems v by (intro exI [of _ ss] exI [of _ l] exI [of _ "v # vs"]) (simp add: joined_def)
  next
    case False
    let ?ss = "ss[i := \<lparr>slot_length = l + m, slot_used = False\<rparr>]"
    have step: "merge_free ss i = merge_free ?ss i"
      using g sc lt False by (subst merge_free.simps) simp
    have "layout ss i ((i, l, False) # (j, m, False) # vs) SLOT_COUNT" using lay False by simp
    from Cons.IH [OF layout_join [OF this]] obtain ss' l' vs' where
      r: "merge_free ?ss i = Some ss'" "layout ss' i ((i, l', False) # vs') SLOT_COUNT" "l + m \<le> l'"
        "joined ?ss ((i, l + m, False) # vs) ss' ((i, l', False) # vs') i" "length vs' \<le> length vs" by blast
    then have "joined ss ((i, l, False) # v # vs) ss' ((i, l', False) # vs') i"
      using v False by (auto simp: joined_def)
    with r step show ?thesis by (intro exI [of _ ss'] exI [of _ l'] exI [of _ vs']) auto
  qed
qed

lemma layout_cong:
  "layout ss i ps e \<Longrightarrow> length ss' = length ss \<Longrightarrow> \<forall>k. i \<le> k \<and> k < e \<longrightarrow> ss' ! k = ss ! k \<Longrightarrow> layout ss' i ps e"
proof (induction ss i ps e rule: layout.induct)
  case (2 ss i j l u ps e)
  then show ?case using layout_le [of ss "i + l" ps e] by auto
qed simp

definition split_spans :: "nat \<Rightarrow> nat \<Rightarrow> bool \<Rightarrow> nat \<Rightarrow> span list" where
  "split_spans i l u required = (i, required, u) # (if required < l then [(i + required, l - required, False)] else [])"

lemma split_span_layout:
  assumes "layout ss i ((i, l, u) # vs) e" "0 < required" "required \<le> l" "e \<le> length ss"
  shows "\<exists>ss'. split_span ss i required = Some ss' \<and> length ss' = length ss \<and>
    layout ss' i (split_spans i l u required @ vs) e \<and> (\<forall>k. k < i \<or> i + l \<le> k \<longrightarrow> ss' ! k = ss ! k)"
proof (cases "required < l")
  case True
  have il: "i + l \<le> e" "i < length ss" using layout_starts [OF assms(1), of i l u] assms(1) by auto
  let ?r = "\<lparr>slot_length = l - required, slot_used = False\<rparr>"
  let ?s = "ss[i + required := ?r, i := \<lparr>slot_length = required, slot_used = u\<rparr>]"
  have "split_span ss i required = Some ?s"
    using assms il True by (simp add: split_span_def get_slot_def put_slot_def)
  moreover have "layout ?s (i + l) vs e"
    using assms il True by (intro layout_frame) auto
  ultimately show ?thesis using assms il True by (auto simp: split_spans_def nth_list_update)
next
  case False
  then have "split_span ss i required = Some ss" using assms by (simp add: split_span_def get_slot_def)
  then show ?thesis using assms False by (simp add: split_spans_def)
qed

lemma split_spans_used: "used_spans (split_spans i l True r) = {(i, r)}" "used_spans (split_spans i l False r) = {}"
  by (simp_all add: split_spans_def)

section \<open>The scan\<close>

definition scanned :: "Slot list \<Rightarrow> nat \<Rightarrow> nat \<Rightarrow> span list \<Rightarrow> nat option \<Rightarrow> Slot list \<Rightarrow> bool" where
  "scanned ss required i vs r ss' \<longleftrightarrow> length ss' = length ss \<and> (\<forall>k < i. ss' ! k = ss ! k) \<and>
     (case r of
        None \<Rightarrow> \<exists>vs'. layout ss' i vs' SLOT_COUNT \<and> used_spans vs' = used_spans vs
      | Some k \<Rightarrow> \<exists>xs ys. layout ss' i xs (k + required) \<and> layout ss' (k + required) ys SLOT_COUNT \<and>
          used_spans (xs @ ys) = insert (k, required) (used_spans vs) \<and> (k, required) \<notin> used_spans vs)"

lemma used_later: "layout ss i ps e \<Longrightarrow> k < i \<Longrightarrow> (k, l) \<notin> used_spans ps"
  using layout_starts [of ss i ps e] by (fastforce simp: used_spans_def)

lemma scanned_skip:
  assumes "scanned ss required (i + l) vs r ss'" "ss' ! i = \<lparr>slot_length = l, slot_used = u\<rparr>" "0 < l" "i < length ss"
    "layout ss (i + l) vs SLOT_COUNT"
  shows "scanned ss required i ((i, l, u) # vs) r ss'"
proof -
  have fr: "length ss' = length ss" "\<forall>k < i. ss' ! k = ss ! k" using assms(1) by (auto simp: scanned_def)
  show ?thesis
  proof (cases r)
    case None
    then obtain vs' where "layout ss' (i + l) vs' SLOT_COUNT" "used_spans vs' = used_spans vs"
      using assms(1) by (auto simp: scanned_def)
    then have "layout ss' i ((i, l, u) # vs') SLOT_COUNT" "used_spans ((i, l, u) # vs') = used_spans ((i, l, u) # vs)"
      using assms by (auto simp: scanned_def used_spans_def)
    then show ?thesis using fr unfolding scanned_def None option.case by blast
  next
    case (Some k)
    then obtain xs ys where x: "layout ss' (i + l) xs (k + required)" "layout ss' (k + required) ys SLOT_COUNT"
      "used_spans (xs @ ys) = insert (k, required) (used_spans vs)" "(k, required) \<notin> used_spans vs"
      using assms(1) by (auto simp: scanned_def)
    have "layout ss' (i + l) (xs @ ys) SLOT_COUNT" using x(1,2) by (auto simp: layout_append)
    then have "i + l \<le> k" using layout_starts [of ss' "i + l" "xs @ ys" SLOT_COUNT k required True] x(3)
      by (auto simp: used_spans_def)
    then have "(k, required) \<notin> used_spans ((i, l, u) # vs)" using x(4) assms(3) by (auto simp: used_spans_def)
    moreover have "layout ss' i ((i, l, u) # xs) (k + required)" using x(1) assms by (auto simp: scanned_def)
    moreover have "used_spans (((i, l, u) # xs) @ ys) = insert (k, required) (used_spans ((i, l, u) # vs))"
      using x(3) by (cases u) (auto simp: used_spans_def)
    ultimately show ?thesis using fr x(2) unfolding scanned_def Some option.case by blast
  qed
qed

lemma scan_hit:
  assumes "layout ss i ((i, l, False) # vs) SLOT_COUNT" "length ss = SLOT_COUNT" "0 < required" "required \<le> l"
  shows "\<exists>ss'. Option.bind (put_slot ss i \<lparr>slot_length = l, slot_used = True\<rparr>) (\<lambda>s1.
      Option.bind (split_span s1 i required) (\<lambda>s2. Some (Some i, s2))) = Some (Some i, ss') \<and>
    scanned ss required i ((i, l, False) # vs) (Some i) ss'"
proof -
  let ?s1 = "ss[i := \<lparr>slot_length = l, slot_used = True\<rparr>]"
  have i: "i < length ss" "layout ss (i + l) vs SLOT_COUNT" "0 < l" using assms by auto
  have "layout ?s1 i ((i, l, True) # vs) SLOT_COUNT"
    using i layout_frame [OF i(2), of i "\<lparr>slot_length = l, slot_used = True\<rparr>"] by simp
  from split_span_layout [OF this assms(3,4)] assms(2) obtain ss' where
    s: "split_span ?s1 i required = Some ss'" "length ss' = length ss"
      "layout ss' i (split_spans i l True required @ vs) SLOT_COUNT" "\<forall>k. k < i \<or> i + l \<le> k \<longrightarrow> ss' ! k = ?s1 ! k" by auto
  have xs: "layout ss' i [(i, required, True)] (i + required)"
    "layout ss' (i + required) (tl (split_spans i l True required) @ vs) SLOT_COUNT"
    using s(3) by (auto simp: split_spans_def)
  have us: "used_spans ([(i, required, True)] @ tl (split_spans i l True required) @ vs) = insert (i, required) (used_spans ((i, l, False) # vs))"
    by (simp add: split_spans_def)
  have "(i, required) \<notin> used_spans ((i, l, False) # vs)" using used_later [OF i(2)] i(3) by simp
  moreover have "\<forall>k < i. ss' ! k = ss ! k" using s(4) by simp
  ultimately have "scanned ss required i ((i, l, False) # vs) (Some i) ss'"
    using s(2) xs us unfolding scanned_def option.case by blast
  with s(1) i(1) show ?thesis by (simp add: put_slot_def)
qed

lemma scan_layout:
  assumes "0 < required"
  shows "layout ss i vs SLOT_COUNT \<Longrightarrow> length ss = SLOT_COUNT \<Longrightarrow>
    \<exists>r ss'. scan ss required i = Some (r, ss') \<and> scanned ss required i vs r ss'"
proof (induction "length vs" arbitrary: ss i vs rule: less_induct)
  case less
  show ?case
  proof (cases vs)
    case Nil
    then have "i = SLOT_COUNT" using less.prems(1) by simp
    then have "scan ss required i = Some (None, ss)" by (subst scan.simps) simp
    then show ?thesis using less.prems Nil by (auto simp: scanned_def intro: exI [of _ "[]"])
  next
    case (Cons v rest)
    then obtain l u where v: "v = (i, l, u)" using less.prems(1) by (cases v) auto
    note lay = less.prems(1) [unfolded Cons v]
    have i: "i < SLOT_COUNT" "get_slot ss i = Some \<lparr>slot_length = l, slot_used = u\<rparr>" "0 < l" "layout ss (i + l) rest SLOT_COUNT"
      using lay less.prems(2) by (auto simp: get_slot_def)
    show ?thesis
    proof (cases u)
      case True
      have step: "scan ss required i = scan ss required (i + l)" using i True by (subst scan.simps) simp
      from less.hyps [OF _ i(4) less.prems(2)] Cons obtain r ss' where
        r: "scan ss required (i + l) = Some (r, ss')" "scanned ss required (i + l) rest r ss'" by auto
      have "ss' ! i = \<lparr>slot_length = l, slot_used = u\<rparr>" using r(2) i(3) lay by (auto simp: scanned_def)
      from scanned_skip [OF r(2) this i(3) _ i(4)] i(1) less.prems(2) show ?thesis using step r(1) Cons v by auto
    next
      case False
      from merge_free_layout [of ss i l rest] lay False obtain ss1 l1 rest1 where
        m: "merge_free ss i = Some ss1" "layout ss1 i ((i, l1, False) # rest1) SLOT_COUNT"
          "joined ss ((i, l, False) # rest) ss1 ((i, l1, False) # rest1) i" "length rest1 \<le> length rest" by auto
      have len: "length ss1 = SLOT_COUNT" "\<forall>k < i. ss1 ! k = ss ! k" "used_spans rest1 = used_spans rest"
        using m(3) less.prems(2) by (auto simp: joined_def)
      have up: "scanned ss required i vs r ss'" if "scanned ss1 required i ((i, l1, False) # rest1) r ss'" for r ss'
      proof -
        have us: "used_spans vs = used_spans ((i, l1, False) # rest1)" using len(3) False Cons v by simp
        show ?thesis using that len(1,2) less.prems(2) unfolding scanned_def us by simp
      qed
      have g: "get_slot ss1 i = Some \<lparr>slot_length = l1, slot_used = False\<rparr>" by (rule get_slot_layout [OF m(2)])
      have j: "0 < l1" "layout ss1 (i + l1) rest1 SLOT_COUNT" "i < length ss1" "ss1 ! i = \<lparr>slot_length = l1, slot_used = False\<rparr>"
        using m(2) by auto
      show ?thesis
      proof (cases "l1 < required")
        case True
        have step: "scan ss required i = scan ss1 required (i + l1)" using i False m(1) g True by (subst scan.simps) simp
        have "length rest1 < length vs" using m(4) Cons by simp
        from less.hyps [OF this j(2) len(1)] obtain r ss' where
          r: "scan ss1 required (i + l1) = Some (r, ss')" "scanned ss1 required (i + l1) rest1 r ss'" by auto
        have "ss' ! i = \<lparr>slot_length = l1, slot_used = False\<rparr>" using r(2) j by (auto simp: scanned_def)
        from up [OF scanned_skip [OF r(2) this j(1,3,2)]] show ?thesis using step r(1) by auto
      next
        case fit: False
        from scan_hit [OF m(2) len(1) assms] fit obtain ss' where
          h: "Option.bind (put_slot ss1 i \<lparr>slot_length = l1, slot_used = True\<rparr>) (\<lambda>s1.
            Option.bind (split_span s1 i required) (\<lambda>s2. Some (Some i, s2))) = Some (Some i, ss')"
            "scanned ss1 required i ((i, l1, False) # rest1) (Some i) ss'" by auto
        have "scan ss required i = Some (Some i, ss')" using i False m(1) g fit h(1) by (subst scan.simps) simp
        with up [OF h(2)] show ?thesis by blast
      qed
    qed
  qed
qed

section \<open>Areas\<close>

definition area_ok :: "SlotAllocator \<Rightarrow> bool" where
  "area_ok a \<longleftrightarrow> length (sa_slots a) = SLOT_COUNT \<and>
     (\<exists>us vs. layout (sa_slots a) 0 us (sa_cursor a) \<and> layout (sa_slots a) (sa_cursor a) vs SLOT_COUNT)"

definition area_used :: "SlotAllocator \<Rightarrow> (nat \<times> nat) set" where
  "area_used a = {(i, l). \<exists>ps. layout (sa_slots a) 0 ps SLOT_COUNT \<and> (i, l, True) \<in> set ps}"

definition slot_region :: "SlotAllocator \<Rightarrow> nat \<times> nat \<Rightarrow> nat \<times> nat" where
  "slot_region a = (\<lambda>(i, l). (slot_address a i + sizeof_Slot, l * SLOT_SIZE - sizeof_Slot))"

definition area_live :: "SlotAllocator \<Rightarrow> (nat \<times> nat) set" where
  "area_live a = slot_region a ` area_used a"

lemma layout_unique: "layout ss i ps e \<Longrightarrow> layout ss i qs e \<Longrightarrow> ps = qs"
proof (induction ss i ps e arbitrary: qs rule: layout.induct)
  case (1 ss i e)
  then show ?case using layout_le by (cases qs) fastforce+
next
  case (2 ss i j l u ps e)
  then have "i < e" using layout_le [of ss "i + l" ps e] by auto
  then obtain m v rs where "qs = (i, m, v) # rs" using 2 by (cases qs) auto
  then show ?case using 2 by auto
qed

lemma area_used_layout:
  assumes "layout (sa_slots a) 0 ps SLOT_COUNT"
  shows "area_used a = used_spans ps"
  unfolding area_used_def used_spans_def using layout_unique [OF assms] assms by blast

lemma area_okI:
  "length (sa_slots a) = SLOT_COUNT \<Longrightarrow> layout (sa_slots a) 0 us (sa_cursor a) \<Longrightarrow>
     layout (sa_slots a) (sa_cursor a) vs SLOT_COUNT \<Longrightarrow> area_ok a"
  unfolding area_ok_def by blast

lemma area_okE:
  assumes "area_ok a"
  obtains us vs where "length (sa_slots a) = SLOT_COUNT" "layout (sa_slots a) 0 us (sa_cursor a)"
    "layout (sa_slots a) (sa_cursor a) vs SLOT_COUNT" "layout (sa_slots a) 0 (us @ vs) SLOT_COUNT"
    "area_used a = used_spans (us @ vs)"
proof -
  from assms obtain us vs where l: "length (sa_slots a) = SLOT_COUNT" "layout (sa_slots a) 0 us (sa_cursor a)"
    "layout (sa_slots a) (sa_cursor a) vs SLOT_COUNT" by (auto simp: area_ok_def)
  then have "layout (sa_slots a) 0 (us @ vs) SLOT_COUNT" by (auto simp: layout_append)
  with l area_used_layout that show thesis by blast
qed

text \<open>Sizes and bounds of a span.\<close>

lemma slot_consts: "SLOT_COUNT = 248" "SLOT_SIZE = 528" "sizeof_Slot = 16" "sizeof_SlotAllocator = 16" "SLOT_ALLOCATOR_SIZE = 131072"
  by (simp_all add: slot_defs)

lemma area_used_bounds:
  assumes "area_ok a" "(i, l) \<in> area_used a"
  shows "0 < l" "i + l \<le> SLOT_COUNT"
proof -
  obtain us vs where "layout (sa_slots a) 0 (us @ vs) SLOT_COUNT" "area_used a = used_spans (us @ vs)"
    using area_okE [OF assms(1)] by metis
  then show "0 < l" "i + l \<le> SLOT_COUNT"
    using layout_starts [of "sa_slots a" 0 "us @ vs" SLOT_COUNT i l True] assms(2) by (auto simp: used_spans_def)
qed

lemma slot_region_bounds:
  assumes "0 < l" "i + l \<le> SLOT_COUNT"
  shows "sa_base a < fst (slot_region a (i, l))"
    "fst (slot_region a (i, l)) + snd (slot_region a (i, l)) \<le> sa_base a + SLOT_ALLOCATOR_SIZE" "0 < snd (slot_region a (i, l))"
proof -
  have "(i + l) * 528 \<le> 248 * 528" using assms by (intro mult_le_mono1) (simp add: slot_consts)
  then show "fst (slot_region a (i, l)) + snd (slot_region a (i, l)) \<le> sa_base a + SLOT_ALLOCATOR_SIZE"
    using assms(1) by (simp add: slot_region_def slot_address_def slot_consts add_mult_distrib)
  show "sa_base a < fst (slot_region a (i, l))" "0 < snd (slot_region a (i, l))"
    using assms(1) by (simp_all add: slot_region_def slot_address_def slot_consts)
qed

lemma slot_region_apart:
  assumes "i + l \<le> j" "0 < l"
  shows "fst (slot_region a (i, l)) + snd (slot_region a (i, l)) \<le> fst (slot_region a (j, m))"
proof -
  have "(i + l) * 528 \<le> j * 528" using assms by (intro mult_le_mono1)
  then show ?thesis using assms(2) by (simp add: slot_region_def slot_address_def slot_consts add_mult_distrib)
qed

lemma slot_region_inj: "0 < l \<Longrightarrow> 0 < m \<Longrightarrow> slot_region a (i, l) = slot_region a (j, m) \<longleftrightarrow> i = j \<and> l = m"
  by (auto simp: slot_region_def slot_address_def slot_consts)

lemma area_live_apart:
  assumes "area_ok a" "r \<in> area_live a" "r' \<in> area_live a" "r \<noteq> r'"
  shows "apart r r'"
proof -
  obtain us vs where l: "layout (sa_slots a) 0 (us @ vs) SLOT_COUNT" "area_used a = used_spans (us @ vs)"
    using area_okE [OF assms(1)] by metis
  obtain i l' j m where r: "r = slot_region a (i, l')" "r' = slot_region a (j, m)" "(i, l') \<in> area_used a" "(j, m) \<in> area_used a"
    using assms(2,3) by (auto simp: area_live_def)
  then have "(i, l', True) \<in> set (us @ vs)" "(j, m, True) \<in> set (us @ vs)" "(i, l') \<noteq> (j, m)"
    using l(2) assms(4) by (auto simp: used_spans_def)
  then have "i + l' \<le> j \<or> j + m \<le> i" using layout_apart [OF l(1), of i l' True j m True] by auto
  moreover have "0 < l'" "0 < m" using area_used_bounds [OF assms(1)] r(3,4) by auto
  ultimately show ?thesis
    using slot_region_apart [of i l' j a m] slot_region_apart [of j m i a l'] r(1,2) unfolding apart_def by blast
qed

text \<open>What the scan of an area does to it.\<close>

lemma area_scan:
  assumes "area_ok a" "0 < required"
  shows "(\<exists>ss. scan (sa_slots a) required (sa_cursor a) = Some (None, ss) \<and>
       area_ok (a\<lparr>sa_slots := ss\<rparr>) \<and> area_used (a\<lparr>sa_slots := ss\<rparr>) = area_used a) \<or>
    (\<exists>ss k. scan (sa_slots a) required (sa_cursor a) = Some (Some k, ss) \<and>
       area_ok (a\<lparr>sa_slots := ss, sa_cursor := k + required\<rparr>) \<and> (k, required) \<notin> area_used a \<and>
       area_used (a\<lparr>sa_slots := ss, sa_cursor := k + required\<rparr>) = insert (k, required) (area_used a))"
proof -
  obtain us vs where l: "length (sa_slots a) = SLOT_COUNT" "layout (sa_slots a) 0 us (sa_cursor a)"
    "layout (sa_slots a) (sa_cursor a) vs SLOT_COUNT" "area_used a = used_spans (us @ vs)"
    using area_okE [OF assms(1)] by metis
  obtain r ss where r: "scan (sa_slots a) required (sa_cursor a) = Some (r, ss)"
    "scanned (sa_slots a) required (sa_cursor a) vs r ss" using scan_layout [OF assms(2) l(3,1)] by blast
  have us: "layout ss 0 us (sa_cursor a)" "length ss = SLOT_COUNT"
    using layout_cong [OF l(2)] r(2) l(1) by (auto simp: scanned_def)
  show ?thesis
  proof (cases r)
    case None
    then obtain vs' where v: "layout ss (sa_cursor a) vs' SLOT_COUNT" "used_spans vs' = used_spans vs"
      using r(2) by (auto simp: scanned_def)
    then have "layout ss 0 (us @ vs') SLOT_COUNT" using us by (auto simp: layout_append)
    then show ?thesis using None r(1) us v l(4) area_used_layout [of "a\<lparr>sa_slots := ss\<rparr>" "us @ vs'"]
      by (auto simp: area_ok_def)
  next
    case (Some k)
    then obtain xs ys where x: "layout ss (sa_cursor a) xs (k + required)" "layout ss (k + required) ys SLOT_COUNT"
      "used_spans (xs @ ys) = insert (k, required) (used_spans vs)" "(k, required) \<notin> used_spans vs"
      using r(2) by (auto simp: scanned_def)
    let ?a = "a\<lparr>sa_slots := ss, sa_cursor := k + required\<rparr>"
    have f: "layout ss 0 (us @ xs) (k + required)" "layout ss 0 ((us @ xs) @ ys) SLOT_COUNT"
      "layout ss (sa_cursor a) (xs @ ys) SLOT_COUNT"
      using us x by (auto simp: layout_append)
    then have "area_ok ?a" using us(2) x(2) by (auto simp: area_ok_def)
    moreover have "area_used ?a = used_spans (us @ xs @ ys)" using area_used_layout [of ?a "us @ xs @ ys"] f(2) by simp
    moreover have "(k, required) \<notin> used_spans us"
    proof
      assume "(k, required) \<in> used_spans us"
      then have "k + required \<le> sa_cursor a" "0 < required"
        using layout_starts [OF us(1), of k required True] by (auto simp: used_spans_def)
      moreover have "sa_cursor a \<le> k"
        using layout_starts [OF f(3), of k required True] x(3) by (auto simp: used_spans_def)
      ultimately show False by simp
    qed
    ultimately show ?thesis using Some r(1) x(3,4) l(4) by auto
  qed
qed

section \<open>The chain of areas\<close>

definition area_region :: "SlotAllocator \<Rightarrow> nat \<times> nat" where
  "area_region a = (sa_base a, SLOT_ALLOCATOR_SIZE)"

definition area_mapped :: "os \<Rightarrow> SlotAllocator \<Rightarrow> bool" where
  "area_mapped w a \<longleftrightarrow> sa_base a \<noteq> 0 \<and> sa_base a + SLOT_ALLOCATOR_SIZE \<le> 2 ^ 47 \<and> (\<forall>p. page_in (sa_base a) SLOT_ALLOCATOR_SIZE p \<longrightarrow> os_pages w p)"

definition chain_ok :: "SlotAllocator list \<Rightarrow> os \<Rightarrow> bool" where
  "chain_ok as w \<longleftrightarrow> (\<forall>a \<in> set as. area_ok a \<and> area_mapped w a) \<and>
     sorted_wrt (\<lambda>a b. apart (area_region a) (area_region b)) as"

definition chain_live :: "SlotAllocator list \<Rightarrow> (nat \<times> nat) set" where
  "chain_live as = (\<Union>a \<in> set as. area_live a)"

lemma chain_live_simps [simp]:
  "chain_live [] = {}" "chain_live (a # as) = area_live a \<union> chain_live as"
  "chain_live (as @ bs) = chain_live as \<union> chain_live bs"
  by (auto simp: chain_live_def)

lemma chain_ok_extends: "chain_ok as w \<Longrightarrow> os_extends w w' \<Longrightarrow> chain_ok as w'"
  by (auto simp: chain_ok_def area_mapped_def os_extends_def)

text \<open>Only the bases decide where areas lie.\<close>

lemma chain_same_bases:
  assumes "chain_ok as w" "map sa_base as' = map sa_base as" "\<forall>a \<in> set as'. area_ok a"
  shows "chain_ok as' w"
proof -
  have "sorted_wrt (\<lambda>b b'. apart (b, SLOT_ALLOCATOR_SIZE) (b', SLOT_ALLOCATOR_SIZE)) (map sa_base as)"
    using assms(1) by (simp add: chain_ok_def sorted_wrt_map area_region_def)
  then have "sorted_wrt (\<lambda>a b. apart (area_region a) (area_region b)) as'"
    unfolding assms(2) [symmetric] by (simp add: sorted_wrt_map area_region_def)
  moreover have "area_mapped w a" if "a \<in> set as'" for a
  proof -
    have "sa_base a \<in> sa_base ` set as" using that assms(2) by (metis image_eqI list.set_map)
    then show ?thesis using assms(1) by (auto simp: chain_ok_def area_mapped_def)
  qed
  ultimately show ?thesis using assms(3) by (simp add: chain_ok_def)
qed

definition fresh_area :: "nat \<Rightarrow> SlotAllocator" where
  "fresh_area p = \<lparr>sa_base = p, sa_cursor = 0,
     sa_slots = \<lparr>slot_length = SLOT_COUNT, slot_used = False\<rparr> #
       replicate (SLOT_COUNT - 1) \<lparr>slot_length = 0, slot_used = False\<rparr>\<rparr>"

lemma create_fresh:
  "create pick w = (case request_page pick SLOT_ALLOCATOR_SIZE w of (p, w') \<Rightarrow> (if p = 0 then [] else [fresh_area p], w'))"
  unfolding create_def fresh_area_def ..

lemma fresh_area_layout: "layout (sa_slots (fresh_area p)) 0 [(0, SLOT_COUNT, False)] SLOT_COUNT" "length (sa_slots (fresh_area p)) = SLOT_COUNT"
  by (simp_all add: fresh_area_def slot_consts)

lemma fresh_area_ok: "area_ok (fresh_area p)" "area_used (fresh_area p) = {}"
proof -
  have "layout (sa_slots (fresh_area p)) 0 [] (sa_cursor (fresh_area p))"
    "layout (sa_slots (fresh_area p)) (sa_cursor (fresh_area p)) [(0, SLOT_COUNT, False)] SLOT_COUNT"
    using fresh_area_layout [of p] by (simp_all add: fresh_area_def)
  then show "area_ok (fresh_area p)" using fresh_area_layout(2) unfolding area_ok_def by blast
  show "area_used (fresh_area p) = {}" using area_used_layout [OF fresh_area_layout(1)] by simp
qed

lemma fresh_area_serves:
  assumes "0 < required" "required \<le> SLOT_COUNT"
  shows "\<exists>ss. scan (sa_slots (fresh_area p)) required 0 = Some (Some 0, ss)"
proof -
  let ?ss = "sa_slots (fresh_area p)"
  have g: "get_slot ?ss 0 = Some \<lparr>slot_length = SLOT_COUNT, slot_used = False\<rparr>"
    by (simp add: fresh_area_def get_slot_def)
  then have "merge_free ?ss 0 = Some ?ss" by (subst merge_free.simps) simp
  moreover obtain ss' where "Option.bind (put_slot ?ss 0 \<lparr>slot_length = SLOT_COUNT, slot_used = True\<rparr>) (\<lambda>s1.
      Option.bind (split_span s1 0 required) (\<lambda>s2. Some (Some 0, s2))) = Some (Some (0::nat), ss')"
    using scan_hit [OF fresh_area_layout assms] by blast
  ultimately have "scan ?ss required 0 = Some (Some 0, ss')"
    using g assms by (subst scan.simps) (simp add: slot_consts)
  then show ?thesis by blast
qed

definition served :: "nat \<Rightarrow> SlotAllocator list \<Rightarrow> nat \<Rightarrow> SlotAllocator list \<Rightarrow> bool" where
  "served required as q as' \<longleftrightarrow> map sa_base as' = map sa_base as \<and> (\<forall>a \<in> set as'. area_ok a) \<and>
     (if q = 0 then chain_live as' = chain_live as
      else \<exists>us a vs us' a' k. as = us @ a # vs \<and> as' = us' @ a' # vs \<and> map sa_base us' = map sa_base us \<and>
             chain_live us' = chain_live us \<and> sa_base a' = sa_base a \<and>
             (k, required) \<notin> area_used a \<and> area_used a' = insert (k, required) (area_used a) \<and>
             q = slot_address a k + sizeof_Slot)"

lemma area_live_same: "area_used a' = area_used a \<Longrightarrow> sa_base a' = sa_base a \<Longrightarrow> area_live a' = area_live a"
  by (simp add: area_live_def slot_region_def slot_address_def)

lemma served_Cons:
  assumes "served required as q as'" "sa_base b' = sa_base b" "area_ok b'" "area_used b' = area_used b"
  shows "served required (b # as) q (b' # as')"
proof (cases "q = 0")
  case True
  then show ?thesis using assms area_live_same [OF assms(4,2)] by (simp add: served_def)
next
  case False
  then obtain us a vs us' a' k where e: "as = us @ a # vs" "as' = us' @ a' # vs" "map sa_base us' = map sa_base us"
    "chain_live us' = chain_live us" "sa_base a' = sa_base a" "(k, required) \<notin> area_used a"
    "area_used a' = insert (k, required) (area_used a)" "q = slot_address a k + sizeof_Slot"
    using assms(1) unfolding served_def if_not_P [OF False] by blast
  then have "b # as = (b # us) @ a # vs" "b' # as' = (b' # us') @ a' # vs" "map sa_base (b' # us') = map sa_base (b # us)"
    "chain_live (b' # us') = chain_live (b # us)" using assms area_live_same [OF assms(4,2)] by simp_all
  moreover have "map sa_base (b' # as') = map sa_base (b # as)" "\<forall>a \<in> set (b' # as'). area_ok a"
    using assms by (auto simp: served_def)
  ultimately show ?thesis unfolding served_def if_not_P [OF False] using e(5-8) by blast
qed

definition chain_grown :: "picker \<Rightarrow> SlotAllocator list \<Rightarrow> os \<Rightarrow> SlotAllocator list \<Rightarrow> os \<Rightarrow> bool" where
  "chain_grown pick as w as' w' \<longleftrightarrow> as' = as \<and> (w' = w \<or> request_page pick SLOT_ALLOCATOR_SIZE w = (0, w')) \<or>
     (\<exists>p. p \<noteq> 0 \<and> request_page pick SLOT_ALLOCATOR_SIZE w = (p, w') \<and> as' = as @ [fresh_area p])"

lemma served_head:
  assumes "area_ok a" "0 < required" "scan (sa_slots a) required (sa_cursor a) = Some (Some k, ss)"
    "\<forall>b \<in> set rest. area_ok b"
  shows "served required (a # rest) (slot_address a k + sizeof_Slot) (a\<lparr>sa_slots := ss, sa_cursor := k + required\<rparr> # rest)"
proof -
  let ?a = "a\<lparr>sa_slots := ss, sa_cursor := k + required\<rparr>"
  have s: "area_ok ?a" "(k, required) \<notin> area_used a" "area_used ?a = insert (k, required) (area_used a)"
    using area_scan [OF assms(1,2)] assms(3) by auto
  have q: "slot_address a k + sizeof_Slot \<noteq> 0" by (simp add: slot_consts)
  have "a # rest = [] @ a # rest" "?a # rest = [] @ ?a # rest" "map sa_base [] = map sa_base []"
    "chain_live [] = chain_live []" "sa_base ?a = sa_base a" by simp_all
  moreover have "map sa_base (?a # rest) = map sa_base (a # rest)" "\<forall>b \<in> set (?a # rest). area_ok b"
    using s(1) assms(4) by simp_all
  ultimately show ?thesis unfolding served_def if_not_P [OF q] using s(2,3) by blast
qed

lemma allocate_chain_total:
  assumes "0 < required" "required \<le> SLOT_COUNT"
  shows "as \<noteq> [] \<Longrightarrow> \<forall>a \<in> set as. area_ok a \<Longrightarrow>
    \<exists>q as' w' as0. allocate_chain pick required as w = Some (q, as', w') \<and> chain_grown pick as w as0 w' \<and> served required as0 q as'"
proof (induction as)
  case (Cons a as)
  have ok: "area_ok a" "\<forall>b \<in> set as. area_ok b" using Cons.prems by auto
  from area_scan [OF ok(1) assms(1)] show ?case
  proof (elim disjE exE conjE)
    fix ss k assume s: "scan (sa_slots a) required (sa_cursor a) = Some (Some k, ss)"
    then show ?thesis using served_head [OF ok(1) assms(1) s ok(2)]
      by (subst allocate_chain.simps) (auto simp: chain_grown_def)
  next
    fix ss assume s: "scan (sa_slots a) required (sa_cursor a) = Some (None, ss)"
      "area_ok (a\<lparr>sa_slots := ss\<rparr>)" "area_used (a\<lparr>sa_slots := ss\<rparr>) = area_used a"
    let ?a = "a\<lparr>sa_slots := ss\<rparr>"
    have cons: "served required (a # as0) q (?a # as')" if "served required as0 q as'" for as0 q as'
      using served_Cons [OF that _ s(2,3)] by simp
    have nil: "served required [a] 0 [?a]" using cons [of "[]" 0 "[]"] by (simp add: served_def)
    show ?thesis
    proof (cases "as = []")
      case False
      then obtain q as' w' as0 where r: "allocate_chain pick required as w = Some (q, as', w')"
        "chain_grown pick as w as0 w'" "served required as0 q as'" using Cons ok(2) by auto
      then have "allocate_chain pick required (a # as) w = Some (q, ?a # as', w')"
        using s(1) False by (subst allocate_chain.simps) simp
      moreover have "chain_grown pick (a # as) w (a # as0) w'" using r(2) by (auto simp: chain_grown_def)
      ultimately show ?thesis using cons [OF r(3)] by blast
    next
      case True
      obtain p w' where p: "request_page pick SLOT_ALLOCATOR_SIZE w = (p, w')" by fastforce
      show ?thesis
      proof (cases "p = 0")
        case zero: True
        then have "allocate_chain pick required (a # as) w = Some (0, [?a], w')"
          using s(1) True p by (subst allocate_chain.simps) (simp add: create_fresh)
        then show ?thesis using nil True p zero by (auto simp: chain_grown_def)
      next
        case False
        obtain ss0 where f: "scan (sa_slots (fresh_area p)) required 0 = Some (Some 0, ss0)"
          using fresh_area_serves [OF assms] by blast
        let ?q = "slot_address (fresh_area p) 0 + sizeof_Slot" and ?f = "(fresh_area p)\<lparr>sa_slots := ss0, sa_cursor := 0 + required\<rparr>"
        have c: "sa_cursor (fresh_area p) = 0" by (simp add: fresh_area_def)
        have "allocate_chain pick required [fresh_area p] w' = Some (?q, [?f], w')"
          using f by (subst allocate_chain.simps) (simp add: c)
        then have "allocate_chain pick required (a # as) w = Some (?q, [?a, ?f], w')"
          using s(1) True p False by (subst allocate_chain.simps) (simp add: create_fresh)
        moreover have "served required [fresh_area p] ?q [?f]"
          using served_head [OF fresh_area_ok(1) assms(1), of p 0 ss0 "[]"] f by (simp add: c)
        ultimately show ?thesis using cons True p False by (force simp: chain_grown_def)
      qed
    qed
  qed
qed simp

lemma fresh_area_used: "area_live (fresh_area p) = {}"
  by (simp add: area_live_def fresh_area_ok)

lemma chain_grown_ok:
  assumes "mmap_fresh pick" "chain_grown pick as w as' w'" "chain_ok as w"
  shows "chain_ok as' w' \<and> chain_live as' = chain_live as \<and> os_extends w w'"
  using assms(2) unfolding chain_grown_def
proof (elim disjE exE conjE)
  fix p assume p: "p \<noteq> 0" "request_page pick SLOT_ALLOCATOR_SIZE w = (p, w')" and as': "as' = as @ [fresh_area p]"
  note f = request_page_fresh [OF assms(1) p(2,1)] and x = request_page_extends [OF assms(1) p(2)]
  have b: "sa_base (fresh_area p) = p" by (simp add: fresh_area_def)
  have ap: "apart (area_region a) (area_region (fresh_area p))" if "a \<in> set as" for a
  proof (rule ccontr)
    assume "\<not> ?thesis"
    then obtain g where "page_in (sa_base a) SLOT_ALLOCATOR_SIZE g" "page_in p SLOT_ALLOCATOR_SIZE g"
      using overlap_shares_page [of "sa_base a" SLOT_ALLOCATOR_SIZE p SLOT_ALLOCATOR_SIZE]
      unfolding area_region_def b by (auto simp: slot_consts)
    then show False using f(3) assms(3) that unfolding chain_ok_def area_mapped_def by blast
  qed
  have "area_mapped w' (fresh_area p)" using p(1) f(2,4) by (simp add: area_mapped_def b)
  moreover have "chain_ok as w'" by (rule chain_ok_extends [OF assms(3) x])
  ultimately have "chain_ok as' w'" unfolding as' chain_ok_def using ap fresh_area_ok(1) by (auto simp: sorted_wrt_append)
  then show ?thesis using x by (simp add: as' fresh_area_used)
qed (use assms(3) request_page_extends [OF assms(1)] chain_ok_extends os_extends_refl in blast)+

lemma area_live_in_region:
  assumes "area_ok a" "(q, m) \<in> area_live a"
  shows "sa_base a < q" "q + m \<le> sa_base a + SLOT_ALLOCATOR_SIZE" "0 < m"
proof -
  obtain i l where il: "(i, l) \<in> area_used a" "slot_region a (i, l) = (q, m)" using assms(2) by (auto simp: area_live_def)
  show "sa_base a < q" "q + m \<le> sa_base a + SLOT_ALLOCATOR_SIZE" "0 < m"
    using slot_region_bounds [OF area_used_bounds [OF assms(1) il(1)], of a] unfolding il(2) by simp_all
qed

lemma other_area_apart:
  assumes "chain_ok as w" "as = us @ a # vs" "b \<in> set us \<union> set vs" "r \<in> area_live a" "r' \<in> area_live b"
  shows "apart r r'"
proof -
  obtain q m q' m' where r: "r = (q, m)" "r' = (q', m')" by (metis surj_pair)
  have ok: "area_ok a" "area_ok b" using assms(1-3) by (auto simp: chain_ok_def)
  note la = area_live_in_region [OF ok(1) assms(4) [unfolded r]]
    and lb = area_live_in_region [OF ok(2) assms(5) [unfolded r]]
  have "apart (area_region a) (area_region b)"
    using assms(1-3) unfolding chain_ok_def by (auto simp: sorted_wrt_append apart_sym)
  then show ?thesis using la lb unfolding apart_def area_region_def r by auto
qed

lemma not_in_other_areas:
  assumes "chain_ok as w" "as = us @ a # vs" "r \<in> area_live a"
  shows "r \<notin> chain_live us \<union> chain_live vs"
proof
  assume "r \<in> chain_live us \<union> chain_live vs"
  then obtain b where b: "b \<in> set us \<union> set vs" "r \<in> area_live b" by (auto simp: chain_live_def)
  have "apart r r" by (rule other_area_apart [OF assms(1,2) b(1) assms(3) b(2)])
  moreover have "0 < snd r" using area_live_in_region(3) [of a "fst r" "snd r"] assms by (auto simp: chain_ok_def)
  ultimately show False by (simp add: apart_def)
qed

lemma chain_live_apart:
  assumes "chain_ok as w" "r \<in> chain_live as" "r' \<in> chain_live as" "r \<noteq> r'"
  shows "apart r r'"
proof -
  obtain a b where ab: "a \<in> set as" "r \<in> area_live a" "b \<in> set as" "r' \<in> area_live b"
    using assms(2,3) by (auto simp: chain_live_def)
  obtain us vs where e: "as = us @ a # vs" using ab(1) by (meson split_list)
  show ?thesis
  proof (cases "b \<in> set us \<union> set vs")
    case True
    then show ?thesis using other_area_apart [OF assms(1) e True ab(2,4)] by simp
  next
    case False
    then have "b = a" using ab(3) e by auto
    then show ?thesis using area_live_apart ab assms(1,4) unfolding chain_ok_def by blast
  qed
qed

lemma served_live:
  assumes "chain_ok as w" "served required as q as'" "0 < required"
  shows "chain_ok as' w"
    "if q = 0 then chain_live as' = chain_live as
     else (q, required * SLOT_SIZE - sizeof_Slot) \<notin> chain_live as \<and>
       chain_live as' = insert (q, required * SLOT_SIZE - sizeof_Slot) (chain_live as)"
proof -
  have "map sa_base as' = map sa_base as" "\<forall>a \<in> set as'. area_ok a" using assms(2) unfolding served_def by blast+
  then show ok: "chain_ok as' w" by (rule chain_same_bases [OF assms(1)])
  show "if q = 0 then chain_live as' = chain_live as
     else (q, required * SLOT_SIZE - sizeof_Slot) \<notin> chain_live as \<and>
       chain_live as' = insert (q, required * SLOT_SIZE - sizeof_Slot) (chain_live as)"
  proof (cases "q = 0")
    case False
    then obtain us a vs us' a' k where e: "as = us @ a # vs" "as' = us' @ a' # vs"
      "chain_live us' = chain_live us" "sa_base a' = sa_base a" "(k, required) \<notin> area_used a"
      "area_used a' = insert (k, required) (area_used a)" "q = slot_address a k + sizeof_Slot"
      using assms(2) unfolding served_def if_not_P [OF False] by blast
    let ?r = "(q, required * SLOT_SIZE - sizeof_Slot)"
    have reg: "?r = slot_region a (k, required)" "slot_region a' = slot_region a"
      using e(4,7) by (simp_all add: slot_region_def slot_address_def fun_eq_iff)
    then have la: "area_live a' = insert ?r (area_live a)" by (simp add: area_live_def e(6))
    have "?r \<notin> area_live a"
    proof
      assume "?r \<in> area_live a"
      then obtain i l where "(i, l) \<in> area_used a" "slot_region a (k, required) = slot_region a (i, l)"
        using reg(1) by (auto simp: area_live_def)
      moreover have "area_ok a" using assms(1) e(1) by (simp add: chain_ok_def)
      ultimately show False using slot_region_inj [OF assms(3), of l a k i] area_used_bounds e(5) by blast
    qed
    moreover have "?r \<notin> chain_live us' \<union> chain_live vs" using not_in_other_areas [OF ok e(2)] la by simp
    ultimately show ?thesis using False la e(1-3) by auto
  qed (use assms(2) in \<open>simp add: served_def\<close>)
qed

lemma required_slots_bounds:
  assumes "n \<le> 130928"
  shows "0 < required_slots n" "required_slots n \<le> SLOT_COUNT" "n \<le> required_slots n * SLOT_SIZE - sizeof_Slot"
proof -
  have ad: "add64 16 n = 16 + n" using assms by (intro add64_exact) auto
  have r: "(16 + n) div 528 * 528 \<le> 16 + n" "16 + n < (16 + n) div 528 * 528 + 528" by (simp_all add: dividend_less_div_times)
  have "mul64 ((16 + n) div 528) 528 = (16 + n) div 528 * 528" using r assms by (intro mul64_exact) auto
  then have e: "required_slots n = (if (16 + n) div 528 * 528 < 16 + n then (16 + n) div 528 + 1 else (16 + n) div 528)"
    by (simp add: required_slots_def slot_consts ad Let_def)
  show "0 < required_slots n" "required_slots n \<le> SLOT_COUNT" "n \<le> required_slots n * SLOT_SIZE - sizeof_Slot"
    using r assms unfolding e slot_consts by (auto split: if_splits)
qed

section \<open>Finding the span of a pointer\<close>

lemma find_area_hit:
  assumes "\<forall>b \<in> set us. outside b p" "\<not> outside a p"
  shows "find_area p (us @ a # vs) = Some (Some (length us))"
  using assms by (induction us) auto

lemma header_index_hit:
  assumes "i < length (sa_slots a)" "sa_base a + SLOT_ALLOCATOR_SIZE \<le> 2 ^ 47" "i < SLOT_COUNT"
  shows "header_index a (slot_address a i + sizeof_Slot) = Some i"
proof -
  have lt: "i * 528 + 48 \<le> 131072" using assms(3) by (simp add: slot_consts)
  have "sub64 (slot_address a i + 16) 16 = slot_address a i"
    using lt assms(2) by (subst sub64_exact) (auto simp: slot_address_def slot_consts)
  moreover have "sub64 (slot_address a i) (sa_base a) = 16 + i * 528"
    using lt assms(2) by (subst sub64_exact) (auto simp: slot_address_def slot_consts)
  moreover have "sub64 (16 + i * 528) 16 = i * 528" using lt by (subst sub64_exact) auto
  ultimately have "slot_to_index a (sub64 (slot_address a i + sizeof_Slot) sizeof_Slot) = i"
    by (simp add: slot_to_index_def slot_consts)
  then show ?thesis using assms(1) by (simp add: header_index_def)
qed

text \<open>Where a live block is: its area, its span, and the search that finds both.\<close>

lemma live_found:
  assumes "chain_ok as w" "(p, s) \<in> chain_live as"
  obtains us a vs i l where "as = us @ a # vs" "area_ok a" "(i, l) \<in> area_used a" "(p, s) = slot_region a (i, l)"
    "find_area p as = Some (Some (length us))" "header_index a p = Some i"
proof -
  obtain a where a: "a \<in> set as" "(p, s) \<in> area_live a" using assms(2) by (auto simp: chain_live_def)
  then obtain i l where il: "(i, l) \<in> area_used a" "(p, s) = slot_region a (i, l)" by (auto simp: area_live_def)
  obtain us vs where e: "as = us @ a # vs" using a(1) by (meson split_list)
  have ok: "area_ok a" "area_mapped w a" using assms(1) a(1) by (auto simp: chain_ok_def)
  note la = area_live_in_region [OF ok(1) a(2)]
  have "outside b p" if "b \<in> set us" for b
  proof -
    have "apart (area_region b) (area_region a)" using assms(1) that e by (auto simp: chain_ok_def sorted_wrt_append)
    then show ?thesis using la unfolding apart_def area_region_def outside_def by auto
  qed
  moreover have "\<not> outside a p" using la by (simp add: outside_def)
  ultimately have "find_area p as = Some (Some (length us))" unfolding e by (intro find_area_hit) auto
  moreover have "header_index a p = Some i"
  proof -
    have "p = slot_address a i + sizeof_Slot" using il(2) by (simp add: slot_region_def)
    moreover have "i < SLOT_COUNT" "length (sa_slots a) = SLOT_COUNT"
      using area_used_bounds [OF ok(1) il(1)] ok(1) by (auto simp: area_ok_def)
    ultimately show ?thesis using header_index_hit [of i a] ok(2) by (simp add: area_mapped_def)
  qed
  ultimately show thesis using that e ok(1) il by blast
qed

text \<open>Putting a changed area back, with one block replaced.\<close>

lemma chain_put:
  assumes "chain_ok as w" "as = us @ a # vs" "area_ok a'" "sa_base a' = sa_base a" "(p, s) \<in> area_live a"
    "area_live a' = R \<union> (area_live a - {(p, s)})"
  shows "chain_ok (as[length us := a']) w" "chain_live (as[length us := a']) = R \<union> (chain_live as - {(p, s)})"
proof -
  have e: "as[length us := a'] = us @ a' # vs" by (simp add: assms(2))
  show "chain_ok (as[length us := a']) w"
    using assms(1-4) by (intro chain_same_bases [OF assms(1)]) (auto simp: chain_ok_def)
  show "chain_live (as[length us := a']) = R \<union> (chain_live as - {(p, s)})"
    using not_in_other_areas [OF assms(1,2,5)] assms(6) by (auto simp: e assms(2))
qed

section \<open>Deallocation\<close>

lemma layout_flip:
  assumes "layout ss j (xs @ (i, l, u) # ys) e"
  shows "layout (ss[i := \<lparr>slot_length = l, slot_used = v\<rparr>]) j (xs @ (i, l, v) # ys) e"
proof -
  obtain k where k: "layout ss j xs k" "layout ss k ((i, l, u) # ys) e" using assms by (auto simp: layout_append)
  then have "k = i" "0 < l" "i < length ss" "layout ss (i + l) ys e" by auto
  then show ?thesis using k layout_frame [OF k(1), of i] layout_frame [of ss "i + l" ys e i]
    by (auto simp: layout_append)
qed

lemma used_flip:
  assumes "layout ss j (xs @ (i, l, True) # ys) e"
  shows "used_spans (xs @ (i, l, False) # ys) = used_spans (xs @ (i, l, True) # ys) - {(i, l)}"
proof -
  obtain k where k: "layout ss j xs k" "layout ss k ((i, l, True) # ys) e" using assms by (auto simp: layout_append)
  have "(i, l) \<notin> used_spans xs" "(i, l) \<notin> used_spans ys"
    using layout_starts [OF k(1), of i l True] k(2) layout_starts [of ss "i + l" ys e i l True] by (auto simp: used_spans_def)
  then show ?thesis by auto
qed

lemma area_release:
  assumes "area_ok a" "(i, l) \<in> area_used a"
  defines "a' \<equiv> a\<lparr>sa_slots := (sa_slots a)[i := \<lparr>slot_length = l, slot_used = False\<rparr>], sa_cursor := (if i < sa_cursor a then i else sa_cursor a)\<rparr>"
  shows "get_slot (sa_slots a) i = Some \<lparr>slot_length = l, slot_used = True\<rparr>" "i < length (sa_slots a)"
    "area_ok a'" "area_used a' = area_used a - {(i, l)}"
proof -
  let ?ss = "sa_slots a" and ?c = "sa_cursor a"
  let ?ss' = "?ss[i := \<lparr>slot_length = l, slot_used = False\<rparr>]"
  obtain us vs where o: "length ?ss = SLOT_COUNT" "layout ?ss 0 us ?c" "layout ?ss ?c vs SLOT_COUNT"
    "layout ?ss 0 (us @ vs) SLOT_COUNT" "area_used a = used_spans (us @ vs)" using area_okE [OF assms(1)] by metis
  then have "(i, l, True) \<in> set (us @ vs)" using assms(2) by (simp add: used_spans_def)
  then obtain xs ys where x: "us @ vs = xs @ (i, l, True) # ys" by (meson split_list)
  note lay = o(4) [unfolded x]
  from lay obtain k where k: "layout ?ss 0 xs k" "layout ?ss k ((i, l, True) # ys) SLOT_COUNT" by (auto simp: layout_append)
  then have ki: "k = i" "0 < l" "?ss ! i = \<lparr>slot_length = l, slot_used = True\<rparr>" "i < length ?ss" by auto
  then show "get_slot ?ss i = Some \<lparr>slot_length = l, slot_used = True\<rparr>" "i < length ?ss" by (auto simp: get_slot_def)
  have new: "layout ?ss' 0 (xs @ (i, l, False) # ys) SLOT_COUNT" by (rule layout_flip [OF lay])
  then show "area_used a' = area_used a - {(i, l)}"
    using area_used_layout [of a' "xs @ (i, l, False) # ys"] used_flip [OF lay] o(5) x by (simp add: a'_def)
  show "area_ok a'"
  proof (cases "i < ?c")
    case True
    have "layout ?ss' 0 xs i" using layout_frame [OF k(1)] ki(1) by simp
    moreover have "layout ?ss' i ((i, l, False) # ys) SLOT_COUNT" using new calculation layout_functional by (auto simp: layout_append)
    ultimately show ?thesis
      by (intro area_okI [of a' xs "(i, l, False) # ys"]) (use True o(1) in \<open>simp_all add: a'_def\<close>)
  next
    case False
    then have us: "layout ?ss' 0 us ?c" using layout_frame [OF o(2), of i] by simp
    have "(i, l, True) \<notin> set us" using layout_starts [OF o(2), of i l True] False ki(2) by auto
    then obtain xs' ys' where v: "vs = xs' @ (i, l, True) # ys'"
      using \<open>(i, l, True) \<in> set (us @ vs)\<close> by (auto dest: split_list)
    have "layout ?ss' ?c (xs' @ (i, l, False) # ys') SLOT_COUNT" using layout_flip o(3) unfolding v by blast
    then show ?thesis using us
      by (intro area_okI [of a' us "xs' @ (i, l, False) # ys'"]) (use False o(1) in \<open>simp_all add: a'_def\<close>)
  qed
qed

lemma region_image_remove:
  assumes "area_ok a" "(i, l) \<in> area_used a"
  shows "slot_region a ` (area_used a - {(i, l)}) = area_live a - {slot_region a (i, l)}"
proof -
  have "inj_on (slot_region a) (area_used a)"
  proof (rule inj_onI)
    fix x y assume "x \<in> area_used a" "y \<in> area_used a" "slot_region a x = slot_region a y"
    moreover obtain j m k n where "x = (j, m)" "y = (k, n)" by (metis surj_pair)
    ultimately show "x = y" using slot_region_inj [of m n a j k] area_used_bounds(1) [OF assms(1)] by auto
  qed
  then show ?thesis using inj_on_image_set_diff [of "slot_region a" _ "area_used a" "{(i, l)}"] assms(2)
    by (simp add: area_live_def)
qed

lemma slot_deallocate_live:
  assumes "chain_ok as w" "as \<noteq> []" "(p, s) \<in> chain_live as"
  shows "\<exists>as'. slot_allocator_deallocate pick p as w = Some (True, as', w) \<and> chain_ok as' w \<and> as' \<noteq> [] \<and>
    chain_live as' = chain_live as - {(p, s)}"
proof -
  obtain us a vs i l where f: "as = us @ a # vs" "area_ok a" "(i, l) \<in> area_used a" "(p, s) = slot_region a (i, l)"
    "find_area p as = Some (Some (length us))" "header_index a p = Some i" using live_found [OF assms(1,3)] .
  let ?a = "a\<lparr>sa_slots := (sa_slots a)[i := \<lparr>slot_length = l, slot_used = False\<rparr>], sa_cursor := (if i < sa_cursor a then i else sa_cursor a)\<rparr>"
  note r = area_release [OF f(2,3)]
  have at: "as ! length us = a" by (simp add: f(1))
  have run: "slot_allocator_deallocate pick p as w = Some (True, as[length us := ?a], w)"
    using f(5,6) r(1,2) assms(2) at by (simp add: slot_allocator_deallocate_def slot_allocator_def put_slot_def)
  have lv: "area_live ?a = {} \<union> (area_live a - {(p, s)})"
    using region_image_remove [OF f(2,3)] r(4) f(4) by (simp add: area_live_def slot_region_def slot_address_def)
  have mem: "(p, s) \<in> area_live a" using f(3,4) by (auto simp: area_live_def)
  have base: "sa_base ?a = sa_base a" by simp
  from chain_put [OF assms(1) f(1) r(3) base mem lv] run assms(2) show ?thesis by simp
qed

section \<open>The contract\<close>

lemma slot_allocate_total:
  assumes "mmap_fresh pick" "n \<le> 130928" "as \<noteq> []" "chain_ok as w"
  shows "\<exists>q as' w'. slot_allocator_allocate pick n as w = Some (q, as', w') \<and> chain_ok as' w' \<and> as' \<noteq> [] \<and> os_extends w w' \<and>
    (if q = 0 then chain_live as' = chain_live as
     else (q, required_slots n * SLOT_SIZE - sizeof_Slot) \<notin> chain_live as \<and>
       chain_live as' = insert (q, required_slots n * SLOT_SIZE - sizeof_Slot) (chain_live as))"
proof -
  note req = required_slots_bounds [OF assms(2)]
  have ok: "\<forall>a \<in> set as. area_ok a" using assms(4) by (simp add: chain_ok_def)
  from allocate_chain_total [OF req(1,2) assms(3) ok, of pick w] obtain q as' w' as0 where
    r: "allocate_chain pick (required_slots n) as w = Some (q, as', w')" "chain_grown pick as w as0 w'"
      "served (required_slots n) as0 q as'" by blast
  have g: "chain_ok as0 w'" "chain_live as0 = chain_live as" "os_extends w w'"
    using chain_grown_ok [OF assms(1) r(2) assms(4)] by auto
  have "as' \<noteq> []" using r(2,3) assms(3) by (auto simp: chain_grown_def served_def)
  moreover have "slot_allocator_allocate pick n as w = Some (q, as', w')"
    using r(1) assms(3) by (simp add: slot_allocator_allocate_def slot_allocator_def)
  ultimately show ?thesis using served_live [OF g(1) r(3) req(1)] g(2,3) by auto
qed

definition slot_malloc :: "picker \<Rightarrow> SlotAllocator list \<times> os \<Rightarrow> nat \<Rightarrow> (nat \<times> SlotAllocator list \<times> os) option" where
  "slot_malloc pick st n = slot_allocator_allocate pick n (fst st) (snd st)"

definition slot_free :: "picker \<Rightarrow> SlotAllocator list \<times> os \<Rightarrow> nat \<Rightarrow> (SlotAllocator list \<times> os) option" where
  "slot_free pick st p = map_option snd (slot_allocator_deallocate pick p (fst st) (snd st))"

definition slot_state :: "SlotAllocator list \<times> os \<Rightarrow> bool" where
  "slot_state st \<longleftrightarrow> fst st \<noteq> [] \<and> chain_ok (fst st) (snd st)"

sublocale kernel \<subseteq> slots: heap_contract slot_state "\<lambda>st. chain_live (fst st)" "\<lambda>n. n \<le> 130928"
  "slot_malloc pick" "slot_free pick" "\<lambda>s r. False"
proof
  fix st and n :: nat assume s: "slot_state st" and n: "n \<le> 130928"
  from slot_allocate_total [OF fresh n, of "fst st" "snd st"] s obtain q as' w' where
    r: "slot_allocator_allocate pick n (fst st) (snd st) = Some (q, as', w')" "chain_ok as' w'" "as' \<noteq> []"
    "if q = 0 then chain_live as' = chain_live (fst st)
     else (q, required_slots n * SLOT_SIZE - sizeof_Slot) \<notin> chain_live (fst st) \<and>
       chain_live as' = insert (q, required_slots n * SLOT_SIZE - sizeof_Slot) (chain_live (fst st))"
    unfolding slot_state_def by blast
  have "q = 0 \<and> chain_live as' = chain_live (fst st) \<or>
      q \<noteq> 0 \<and> (\<exists>m \<ge> n. (q, m) \<notin> chain_live (fst st) \<and> chain_live as' = insert (q, m) (chain_live (fst st)))"
    using r(4) required_slots_bounds(3) [OF n] by (cases "q = 0") auto
  then show "\<exists>q s'. slot_malloc pick st n = Some (q, s') \<and> slot_state s' \<and>
      (q = 0 \<and> chain_live (fst s') = chain_live (fst st) \<or>
       q \<noteq> 0 \<and> (\<exists>m \<ge> n. (q, m) \<notin> chain_live (fst st) \<and> chain_live (fst s') = insert (q, m) (chain_live (fst st))))"
    using r(1-3) by (intro exI [of _ q] exI [of _ "(as', w')"]) (simp add: slot_malloc_def slot_state_def)
next
  fix st q m assume "slot_state st" "(q, m) \<in> chain_live (fst st)"
  with slot_deallocate_live [of "fst st" "snd st" q m pick]
  show "\<exists>s'. slot_free pick st q = Some s' \<and> slot_state s' \<and> chain_live (fst s') = chain_live (fst st) - {(q, m)}"
    unfolding slot_state_def slot_free_def by force
next
  show "apart r r'" if "slot_state st" "r \<in> chain_live (fst st)" "r' \<in> chain_live (fst st)" "r \<noteq> r'" for st r r'
    using that chain_live_apart unfolding slot_state_def by blast
  show "0 < m" if "slot_state st" "(q, m) \<in> chain_live (fst st)" for st q m
    using that area_live_in_region(3) unfolding slot_state_def chain_ok_def chain_live_def by blast
qed simp_all

section \<open>Reallocation in place\<close>

lemma expand_span_layout:
  "layout ss i ((i, l, True) # vs) SLOT_COUNT \<Longrightarrow>
     \<exists>ss' l' vs'. expand_span ss required i = Some ss' \<and> layout ss' i ((i, l', True) # vs') SLOT_COUNT \<and> l \<le> l' \<and>
       length ss' = length ss \<and> (\<forall>k < i. ss' ! k = ss ! k) \<and> used_spans vs' = used_spans vs"
proof (induction vs arbitrary: ss l)
  case Nil
  then have "expand_span ss required i = Some ss" by (subst expand_span.simps) (simp add: get_slot_def)
  then show ?case using Nil by (intro exI [of _ ss] exI [of _ l] exI [of _ "[]"]) simp
next
  case (Cons v vs)
  obtain j m u where v: "v = (j, m, u)" by (cases v)
  note lay = Cons.prems [unfolded v]
  have lt: "i + l < SLOT_COUNT" using layout_starts [OF lay, of j m u] lay by auto
  note g = get_slot_layout [OF lay] and sc = successor_layout [OF lay]
  show ?case
  proof (cases "\<not> u \<and> l \<le> required")
    case False
    then have "expand_span ss required i = Some ss" using g sc lt by (subst expand_span.simps) auto
    then show ?thesis using Cons.prems v by (intro exI [of _ ss] exI [of _ l] exI [of _ "v # vs"]) simp
  next
    case True
    let ?ss = "ss[i := \<lparr>slot_length = l + m, slot_used = True\<rparr>]"
    have step: "expand_span ss required i = expand_span ?ss required i"
      using g sc lt True by (subst expand_span.simps) simp
    have "layout ss i ((i, l, True) # (j, m, False) # vs) SLOT_COUNT" using lay True by simp
    from Cons.IH [OF layout_join [OF this]] obtain ss' l' vs' where
      r: "expand_span ?ss required i = Some ss'" "layout ss' i ((i, l', True) # vs') SLOT_COUNT" "l + m \<le> l'"
        "length ss' = length ?ss" "\<forall>k < i. ss' ! k = ?ss ! k" "used_spans vs' = used_spans vs" by blast
    then show ?thesis using step True v by (intro exI [of _ ss'] exI [of _ l'] exI [of _ vs']) auto
  qed
qed

lemma area_resize:
  assumes "area_ok a" "(i, l) \<in> area_used a" "0 < required" "required \<le> l"
  shows "\<exists>ss1 ss2. expand_span (sa_slots a) required i = Some ss1 \<and> split_span ss1 i required = Some ss2 \<and>
    get_slot ss2 i = Some \<lparr>slot_length = required, slot_used = True\<rparr> \<and>
    area_ok (a\<lparr>sa_slots := ss2, sa_cursor := i + required\<rparr>) \<and>
    area_used (a\<lparr>sa_slots := ss2, sa_cursor := i + required\<rparr>) = insert (i, required) (area_used a - {(i, l)})"
proof -
  obtain us vs where o: "length (sa_slots a) = SLOT_COUNT" "layout (sa_slots a) 0 (us @ vs) SLOT_COUNT"
    "area_used a = used_spans (us @ vs)" using area_okE [OF assms(1)] by metis
  then have "(i, l, True) \<in> set (us @ vs)" using assms(2) by (simp add: used_spans_def)
  then obtain xs ys where x: "us @ vs = xs @ (i, l, True) # ys" by (meson split_list)
  note lay = o(2) [unfolded x]
  from lay have k: "layout (sa_slots a) 0 xs i" "layout (sa_slots a) i ((i, l, True) # ys) SLOT_COUNT"
    by (auto simp: layout_append)
  from expand_span_layout [OF k(2), of required] obtain ss1 l1 ys1 where
    e: "expand_span (sa_slots a) required i = Some ss1" "layout ss1 i ((i, l1, True) # ys1) SLOT_COUNT" "l \<le> l1"
      "length ss1 = length (sa_slots a)" "\<forall>k < i. ss1 ! k = sa_slots a ! k" "used_spans ys1 = used_spans ys" by blast
  from split_span_layout [OF e(2) assms(3)] assms(4) e(3,4) o(1) obtain ss2 where
    s: "split_span ss1 i required = Some ss2" "length ss2 = SLOT_COUNT" "layout ss2 i (split_spans i l1 True required @ ys1) SLOT_COUNT"
      "\<forall>k < i. ss2 ! k = ss1 ! k" by auto
  let ?a = "a\<lparr>sa_slots := ss2, sa_cursor := i + required\<rparr>" and ?t = "tl (split_spans i l1 True required) @ ys1"
  have h: "get_slot ss2 i = Some \<lparr>slot_length = required, slot_used = True\<rparr>" "layout ss2 (i + required) ?t SLOT_COUNT"
    "layout ss2 i [(i, required, True)] (i + required)"
    using s(3) by (auto simp: split_spans_def get_slot_def)
  have p: "layout ss2 0 xs i" using layout_cong [OF k(1), of ss2] s(2,4) e(5) o(1) by auto
  have q: "layout ss2 0 (xs @ [(i, required, True)]) (i + required)" using p h(3) by (auto simp: layout_append)
  then have "area_ok ?a" using h(2) s(2) by (intro area_okI [of ?a "xs @ [(i, required, True)]" ?t]) simp_all
  moreover have "area_used ?a = used_spans ((xs @ [(i, required, True)]) @ ?t)"
    using q h(2) by (intro area_used_layout) (auto simp: layout_append)
  moreover have "used_spans ((xs @ [(i, required, True)]) @ ?t) = insert (i, required) (area_used a - {(i, l)})"
    using used_flip [OF lay] e(6) unfolding o(3) x by (auto simp: split_spans_def)
  ultimately show ?thesis using e(1) s(1) h(1) by blast
qed

section \<open>Properties\<close>

text \<open>An area in which one span of three slots is in use.\<close>

definition used_area :: SlotAllocator where
  "used_area = \<lparr>sa_base = 4096, sa_cursor = 3,
     sa_slots = (replicate 248 \<lparr>slot_length = 0, slot_used = False\<rparr>)
       [0 := \<lparr>slot_length = 3, slot_used = True\<rparr>, 3 := \<lparr>slot_length = 245, slot_used = False\<rparr>]\<rparr>"

definition area_os :: os where
  "area_os = \<lparr>os_clock = 7, os_pages = page_in 4096 131072, os_mem = (\<lambda>x. 5)\<rparr>"

lemma used_area_ok: "chain_ok [used_area] area_os" "area_used used_area = {(0, 3)}"
proof -
  have l: "layout (sa_slots used_area) 0 [(0, 3, True)] 3" "layout (sa_slots used_area) 3 [(3, 245, False)] SLOT_COUNT"
    by (simp_all add: used_area_def slot_consts nth_list_update)
  have c: "sa_cursor used_area = 3" "length (sa_slots used_area) = SLOT_COUNT" by (simp_all add: used_area_def slot_consts)
  have "area_ok used_area" using l c by (intro area_okI [of used_area "[(0, 3, True)]" "[(3, 245, False)]"]) simp_all
  then show "chain_ok [used_area] area_os"
    by (simp add: chain_ok_def area_mapped_def used_area_def area_os_def slot_consts)
  have "layout (sa_slots used_area) 0 ([(0, 3, True)] @ [(3, 245, False)]) SLOT_COUNT"
    using l unfolding layout_append by blast
  from area_used_layout [OF this] show "area_used used_area = {(0, 3)}" by simp
qed

lemma used_area_live: "chain_live [used_area] = {(4128, 1568)}"
proof -
  have "sa_base used_area = 4096" by (simp add: used_area_def)
  then show ?thesis by (simp add: area_live_def used_area_ok slot_region_def slot_address_def slot_consts)
qed

text \<open>
  \<open>slot_allocator_allocate\<close> of up to 130928 bytes on an initialised chain returns for every
  kernel that hands out fresh pages: NULL with the live blocks unchanged, or a block of
  sufficient size that was not live before. All live blocks are apart and nothing that was
  mapped changes.
\<close>

theorem slot_allocate_correct:
  assumes "mmap_fresh pick" "n \<le> 130928" "as \<noteq> []" "chain_ok as w"
  shows "\<exists>q as' w'. slot_allocator_allocate pick n as w = Some (q, as', w') \<and> chain_ok as' w' \<and> os_extends w w' \<and>
    pairwise apart (chain_live as') \<and>
    (if q = 0 then chain_live as' = chain_live as
     else \<exists>m \<ge> n. (q, m) \<notin> chain_live as \<and> chain_live as' = insert (q, m) (chain_live as))"
proof -
  from slot_allocate_total [OF assms] obtain q as' w' where
    r: "slot_allocator_allocate pick n as w = Some (q, as', w')" "chain_ok as' w'" "os_extends w w'"
      "if q = 0 then chain_live as' = chain_live as
       else (q, required_slots n * SLOT_SIZE - sizeof_Slot) \<notin> chain_live as \<and>
         chain_live as' = insert (q, required_slots n * SLOT_SIZE - sizeof_Slot) (chain_live as)" by blast
  have "if q = 0 then chain_live as' = chain_live as
     else \<exists>m \<ge> n. (q, m) \<notin> chain_live as \<and> chain_live as' = insert (q, m) (chain_live as)"
    using r(4) required_slots_bounds(3) [OF assms(2)] by (cases "q = 0") auto
  moreover have "pairwise apart (chain_live as')" using chain_live_apart [OF r(2)] by (auto simp: pairwise_def)
  ultimately show ?thesis using r(1-3) by blast
qed

theorem slot_allocate_correct_witness:
  "mmap_fresh bump_pick \<and> chain_ok [used_area] area_os \<and>
   (\<exists>q as' w'. slot_allocator_allocate bump_pick 5000 [used_area] area_os = Some (q, as', w') \<and> chain_ok as' w')"
  using slot_allocate_correct [OF bump_fresh, of 5000 "[used_area]" area_os] bump_fresh used_area_ok(1) by auto

text \<open>
  \<open>slot_allocator_deallocate\<close> of a live pointer returns true and frees exactly that block;
  the headers still describe a list of spans, and the cursor still stands at the first slot
  of a span or at the end of the area.
\<close>

theorem slot_deallocate_correct:
  assumes "chain_ok as w" "as \<noteq> []" "(p, s) \<in> chain_live as"
  shows "\<exists>as'. slot_allocator_deallocate pick p as w = Some (True, as', w) \<and> chain_ok as' w \<and>
    chain_live as' = chain_live as - {(p, s)}"
  using slot_deallocate_live [OF assms] by blast

theorem slot_deallocate_correct_witness:
  "chain_ok [used_area] area_os \<and> (4128, 1568) \<in> chain_live [used_area] \<and>
   (\<exists>as'. slot_allocator_deallocate bump_pick 4128 [used_area] area_os = Some (True, as', area_os) \<and> chain_live as' = {})"
  using slot_deallocate_correct [OF used_area_ok(1), of 4128 1568 bump_pick] used_area_ok(1)
  unfolding used_area_live by auto

text \<open>
  \<open>slot_allocator_reallocate\<close> to a size that needs no more slots than the block has
  returns the same pointer without touching memory; the block shrinks to the required slots
  and every other block stays live.
\<close>

theorem slot_reallocate_in_place:
  assumes "chain_ok as w" "as \<noteq> []" "(p, s) \<in> chain_live as" "n \<le> 130928"
    "required_slots n * SLOT_SIZE - sizeof_Slot \<le> s"
  shows "\<exists>as'. slot_allocator_reallocate pick p n as w = Some (p, as', w) \<and> chain_ok as' w \<and>
    chain_live as' = insert (p, required_slots n * SLOT_SIZE - sizeof_Slot) (chain_live as - {(p, s)})"
proof -
  let ?r = "required_slots n"
  note req = required_slots_bounds [OF assms(4)]
  obtain us a vs i l where f: "as = us @ a # vs" "area_ok a" "(i, l) \<in> area_used a" "(p, s) = slot_region a (i, l)"
    "find_area p as = Some (Some (length us))" "header_index a p = Some i" using live_found [OF assms(1,3)] .
  have "?r \<le> l" using assms(5) f(4) req(1) by (simp add: slot_region_def slot_consts)
  from area_resize [OF f(2,3) req(1) this] obtain ss1 ss2 where
    z: "expand_span (sa_slots a) ?r i = Some ss1" "split_span ss1 i ?r = Some ss2"
      "get_slot ss2 i = Some \<lparr>slot_length = ?r, slot_used = True\<rparr>"
      "area_ok (a\<lparr>sa_slots := ss2, sa_cursor := i + ?r\<rparr>)"
      "area_used (a\<lparr>sa_slots := ss2, sa_cursor := i + ?r\<rparr>) = insert (i, ?r) (area_used a - {(i, l)})" by blast
  let ?a = "a\<lparr>sa_slots := ss2, sa_cursor := i + ?r\<rparr>"
  have at: "as ! length us = a" by (simp add: f(1))
  have run: "slot_allocator_reallocate pick p n as w = Some (p, as[length us := ?a], w)"
    using f(5,6) z(1-3) assms(2) at by (simp add: slot_allocator_reallocate_def slot_allocator_def)
  have reg: "slot_region ?a = slot_region a" by (simp add: slot_region_def slot_address_def fun_eq_iff)
  have lv: "area_live ?a = {(p, ?r * SLOT_SIZE - sizeof_Slot)} \<union> (area_live a - {(p, s)})"
    using region_image_remove [OF f(2,3)] f(4) unfolding area_live_def [of ?a] z(5) reg
    by (simp add: slot_region_def)
  have mem: "(p, s) \<in> area_live a" using f(3,4) by (auto simp: area_live_def)
  have base: "sa_base ?a = sa_base a" by simp
  from chain_put [OF assms(1) f(1) z(4) base mem lv] run show ?thesis by simp
qed

theorem slot_reallocate_in_place_witness:
  "chain_ok [used_area] area_os \<and> (4128, 1568) \<in> chain_live [used_area] \<and>
   (\<exists>as'. slot_allocator_reallocate bump_pick 4128 600 [used_area] area_os = Some (4128, as', area_os) \<and>
      chain_live as' = {(4128, 1040)})"
proof -
  have "required_slots 600 = 2" by (simp add: required_slots_def add64_def mul64_def slot_consts)
  then show ?thesis
    using slot_reallocate_in_place [OF used_area_ok(1), of 4128 1568 600 bump_pick] used_area_ok(1)
    unfolding used_area_live by (auto simp: slot_consts)
qed

end
