(* ===== verification/Direct_Allocator.thy ===== *)
theory Direct_Allocator
  imports Heap_Contract
begin

text \<open>
  \<open>task5-memory/src/direct_allocator.c\<close>: large blocks come straight from the kernel. A chain of
  metadata pages holds 255 entries each; an entry with a null pointer is free. The invariant
  says that the metadata pages and the live blocks own disjoint sets of mapped pages, which is
  what releasing and trimming whole pages needs.
\<close>

section \<open>The model\<close>

record DirectAllocation =
  da_size :: nat
  da_pages :: nat

record DirectAllocator =
  dr_base :: nat
  dr_allocations :: "DirectAllocation list"

definition DIRECT_CAPACITY :: nat where
  "DIRECT_CAPACITY = (PAGE_SIZE - 8) div 16"

definition zero_direct :: "nat \<Rightarrow> DirectAllocator" where
  "zero_direct p = \<lparr>dr_base = p, dr_allocations = replicate DIRECT_CAPACITY \<lparr>da_size = 0, da_pages = 0\<rparr>\<rparr>"

definition direct_allocator :: "picker \<Rightarrow> DirectAllocator list \<Rightarrow> os \<Rightarrow> DirectAllocator list \<times> os" where
  "direct_allocator pick as w =
     (if as = [] then (case request_page pick PAGE_SIZE w of (p, w') \<Rightarrow> (if p = 0 then [] else [zero_direct p], w'))
      else (as, w))"

text \<open>The inner loop: the first free entry receives the pages, also when the kernel refuses them.\<close>

fun direct_entries ::
  "picker \<Rightarrow> nat \<Rightarrow> DirectAllocation list \<Rightarrow> os \<Rightarrow> nat option \<times> DirectAllocation list \<times> os" where
  "direct_entries pick n [] w = (None, [], w)"
| "direct_entries pick n (e # es) w =
     (if da_pages e = 0
      then (case request_page pick n w of (p, w') \<Rightarrow> (Some p, \<lparr>da_size = n, da_pages = p\<rparr> # es, w'))
      else (case direct_entries pick n es w of (r, es', w') \<Rightarrow> (r, e # es', w')))"

partial_function (option) direct_chain ::
  "picker \<Rightarrow> nat \<Rightarrow> DirectAllocator list \<Rightarrow> os \<Rightarrow> (nat \<times> DirectAllocator list \<times> os) option" where
  "direct_chain pick n as w =
     (case as of
        [] \<Rightarrow> None
      | a # rest \<Rightarrow>
          (case direct_entries pick n (dr_allocations a) w of (r, es, w') \<Rightarrow>
           let a' = a\<lparr>dr_allocations := es\<rparr> in
           case r of
             Some p \<Rightarrow> Some (p, a' # rest, w')
           | None \<Rightarrow>
               if rest = []
               then (case request_page pick PAGE_SIZE w' of (p, w'') \<Rightarrow>
                       if p = 0 then Some (0, [a'], w'')
                       else Option.bind (direct_chain pick n [zero_direct p] w'')
                              (\<lambda>(q, as', w3). Some (q, a' # as', w3)))
               else Option.bind (direct_chain pick n rest w') (\<lambda>(q, as', w3). Some (q, a' # as', w3))))"

declare direct_chain.simps [code]

definition direct_allocator_allocate ::
  "picker \<Rightarrow> nat \<Rightarrow> DirectAllocator list \<Rightarrow> os \<Rightarrow> (nat \<times> DirectAllocator list \<times> os) option" where
  "direct_allocator_allocate pick n as w =
     (case direct_allocator pick as w of (as', w') \<Rightarrow> direct_chain pick n as' w')"

text \<open>The loops that look for the entry of a pointer: the block and the index of the first match.\<close>

fun find_entry :: "nat \<Rightarrow> DirectAllocation list \<Rightarrow> nat option" where
  "find_entry pointer [] = None"
| "find_entry pointer (e # es) =
     (if da_pages e = pointer then Some 0 else map_option Suc (find_entry pointer es))"

fun find_direct :: "nat \<Rightarrow> DirectAllocator list \<Rightarrow> (nat \<times> nat) option" where
  "find_direct pointer [] = None"
| "find_direct pointer (a # as) =
     (case find_entry pointer (dr_allocations a) of
        Some i \<Rightarrow> Some (0, i)
      | None \<Rightarrow> map_option (\<lambda>(k, i). (Suc k, i)) (find_direct pointer as))"

definition ith_allocation :: "DirectAllocator list \<Rightarrow> nat \<times> nat \<Rightarrow> DirectAllocation" where
  "ith_allocation as ki = dr_allocations (as ! fst ki) ! snd ki"

definition put_allocation :: "DirectAllocator list \<Rightarrow> nat \<times> nat \<Rightarrow> DirectAllocation \<Rightarrow> DirectAllocator list" where
  "put_allocation as ki e =
     as[fst ki := (as ! fst ki)\<lparr>dr_allocations := (dr_allocations (as ! fst ki))[snd ki := e]\<rparr>]"

definition direct_allocator_deallocate ::
  "picker \<Rightarrow> nat \<Rightarrow> DirectAllocator list \<Rightarrow> os \<Rightarrow> bool \<times> DirectAllocator list \<times> os" where
  "direct_allocator_deallocate pick pointer as w =
     (case direct_allocator pick as w of (as1, w1) \<Rightarrow>
      case find_direct pointer as1 of
        None \<Rightarrow> (False, as1, w1)
      | Some ki \<Rightarrow>
          let e = ith_allocation as1 ki
          in (True, put_allocation as1 ki (e\<lparr>da_pages := 0\<rparr>), release_page (da_pages e) (da_size e) w1))"

definition direct_allocator_reallocate ::
  "picker \<Rightarrow> nat \<Rightarrow> nat \<Rightarrow> DirectAllocator list \<Rightarrow> os \<Rightarrow> (nat \<times> DirectAllocator list \<times> os) option" where
  "direct_allocator_reallocate pick pointer n as w =
     (case direct_allocator pick as w of (as1, w1) \<Rightarrow>
      case find_direct pointer as1 of
        None \<Rightarrow> Some (0, as1, w1)
      | Some ki \<Rightarrow>
          let e = ith_allocation as1 ki in
          if da_size e \<ge> n
          then
            (if da_size e - n < PAGE_SIZE then Some (pointer, as1, w1)
             else
               let release_start = unat (align_up (of_nat n) (of_nat PAGE_SIZE))
               in Some (da_pages e, put_allocation as1 ki (e\<lparr>da_size := n\<rparr>),
                        release_page (da_pages e + release_start) (sub64 (da_size e) release_start) w1))
          else
            (case request_page pick n w1 of (insertion, w2) \<Rightarrow>
             if insertion = 0 then Some (0, as1, w2)
             else
               Option.bind (memcpy insertion (da_pages e) (da_size e) (os_mem w2)) (\<lambda>h.
               Some (insertion, put_allocation as1 ki \<lparr>da_size = n, da_pages = insertion\<rparr>,
                     release_page (da_pages e) (da_size e) (w2\<lparr>os_mem := h\<rparr>)))))"

section \<open>Owned pages\<close>

definition page_apart :: "nat \<times> nat \<Rightarrow> nat \<times> nat \<Rightarrow> bool" where
  "page_apart r s \<longleftrightarrow> (\<forall>g. \<not> (page_in (fst r) (snd r) g \<and> page_in (fst s) (snd s) g))"

definition region_ok :: "os \<Rightarrow> nat \<times> nat \<Rightarrow> bool" where
  "region_ok w r \<longleftrightarrow> 0 < fst r \<and> 0 < snd r \<and> fst r mod 4096 = 0 \<and> fst r + snd r \<le> 2 ^ 47 \<and>
     (\<forall>g. page_in (fst r) (snd r) g \<longrightarrow> os_pages w g)"

definition allocs :: "DirectAllocator list \<Rightarrow> DirectAllocation list" where
  "allocs as = concat (map dr_allocations as)"

definition entry_regions :: "DirectAllocation list \<Rightarrow> (nat \<times> nat) list" where
  "entry_regions es = map (\<lambda>e. (da_pages e, da_size e)) (filter (\<lambda>e. da_pages e \<noteq> 0) es)"

definition regions :: "DirectAllocator list \<Rightarrow> (nat \<times> nat) list" where
  "regions as = map (\<lambda>a. (dr_base a, 4096)) as @ entry_regions (allocs as)"

definition direct_inv :: "DirectAllocator list \<Rightarrow> os \<Rightarrow> bool" where
  "direct_inv as w \<longleftrightarrow> (\<forall>r \<in> set (regions as). region_ok w r) \<and> sorted_wrt page_apart (regions as)"

definition direct_live :: "DirectAllocator list \<Rightarrow> (nat \<times> nat) set" where
  "direct_live as = set (entry_regions (allocs as))"

lemma page_apart_sym: "page_apart r s \<longleftrightarrow> page_apart s r"
  by (auto simp: page_apart_def)

lemma page_apart_apart: "page_apart r s \<Longrightarrow> 0 < snd r \<Longrightarrow> 0 < snd s \<Longrightarrow> apart r s"
  using overlap_shares_page [of "fst r" "snd r" "fst s" "snd s"] by (auto simp: page_apart_def)

lemma sorted_wrt_middle:
  "sorted_wrt P (xs @ r # ys) \<longleftrightarrow> sorted_wrt P (xs @ ys) \<and> (\<forall>x \<in> set xs. P x r) \<and> (\<forall>y \<in> set ys. P r y)"
  by (auto simp: sorted_wrt_append)

lemma entry_regions_simps [simp]:
  "entry_regions [] = []" "entry_regions (es @ fs) = entry_regions es @ entry_regions fs"
  "entry_regions (e # es) = (if da_pages e \<noteq> 0 then [(da_pages e, da_size e)] else []) @ entry_regions es"
  by (simp_all add: entry_regions_def)

lemma allocs_simps [simp]: "allocs [] = []" "allocs (a # as) = dr_allocations a @ allocs as" "allocs (as @ bs) = allocs as @ allocs bs"
  by (simp_all add: allocs_def)

text \<open>A slot of the flat list of entries, and what it means to replace the entry in it.\<close>

definition at_entry :: "DirectAllocator list \<Rightarrow> nat \<times> nat \<Rightarrow> DirectAllocation list \<Rightarrow> DirectAllocation \<Rightarrow> DirectAllocation list \<Rightarrow> bool" where
  "at_entry as ki us e vs \<longleftrightarrow> allocs as = us @ e # vs \<and> ith_allocation as ki = e \<and>
     (\<forall>e'. allocs (put_allocation as ki e') = us @ e' # vs) \<and> (\<forall>e'. map dr_base (put_allocation as ki e') = map dr_base as)"

lemma find_entry_split:
  "find_entry p es = Some i \<Longrightarrow> i < length es \<and> da_pages (es ! i) = p \<and> (\<forall>x \<in> set (take i es). da_pages x \<noteq> p)"
  "find_entry p es = None \<Longrightarrow> \<forall>x \<in> set es. da_pages x \<noteq> p"
  by (induction es arbitrary: i) (auto split: if_splits)

lemma find_direct_split:
  "find_direct p as = Some ki \<Longrightarrow> \<exists>us e vs. at_entry as ki us e vs \<and> da_pages e = p \<and> (\<forall>x \<in> set us. da_pages x \<noteq> p)"
proof (induction as arbitrary: ki)
  case (Cons a as)
  show ?case
  proof (cases "find_entry p (dr_allocations a)")
    case (Some i)
    then have ki: "ki = (0, i)" using Cons.prems by simp
    let ?es = "dr_allocations a"
    have i: "i < length ?es" "da_pages (?es ! i) = p" "\<forall>x \<in> set (take i ?es). da_pages x \<noteq> p"
      using find_entry_split(1) [OF Some] by auto
    have "at_entry (a # as) ki (take i ?es) (?es ! i) (drop (Suc i) ?es @ allocs as)"
      using i(1) by (simp add: at_entry_def ki ith_allocation_def put_allocation_def upd_conv_take_nth_drop id_take_nth_drop [symmetric])
    with i show ?thesis by blast
  next
    case None
    then obtain k i where ki: "find_direct p as = Some (k, i)" "ki = (Suc k, i)" using Cons.prems by auto
    from Cons.IH [OF ki(1)] obtain us e vs where
      u: "at_entry as (k, i) us e vs" "da_pages e = p" "\<forall>x \<in> set us. da_pages x \<noteq> p" by blast
    have "put_allocation (a # as) ki e' = a # put_allocation as (k, i) e'" for e'
      by (simp add: put_allocation_def ki(2))
    then have "at_entry (a # as) ki (dr_allocations a @ us) e vs"
      using u(1) by (simp add: at_entry_def ki(2) ith_allocation_def)
    moreover have "\<forall>x \<in> set (dr_allocations a @ us). da_pages x \<noteq> p" using u(3) find_entry_split(2) [OF None] by auto
    ultimately show ?thesis using u(2) by blast
  qed
qed simp

lemma find_direct_none: "find_direct p as = None \<Longrightarrow> \<forall>e \<in> set (allocs as). da_pages e \<noteq> p"
  using find_entry_split(2) by (induction as) (auto split: option.splits)

section \<open>Allocation\<close>

lemma direct_entries_cases:
  "(direct_entries pick n es w = (None, es, w) \<and> (\<forall>e \<in> set es. da_pages e \<noteq> 0)) \<or>
   (\<exists>us e vs q w'. es = us @ e # vs \<and> da_pages e = 0 \<and> request_page pick n w = (q, w') \<and>
      direct_entries pick n es w = (Some q, us @ \<lparr>da_size = n, da_pages = q\<rparr> # vs, w'))"
proof (induction es)
  case (Cons e es)
  show ?case
  proof (cases "da_pages e = 0")
    case True
    obtain q w' where "request_page pick n w = (q, w')" by fastforce
    then have "e # es = [] @ e # es" "da_pages e = 0" "request_page pick n w = (q, w')"
      "direct_entries pick n (e # es) w = (Some q, [] @ \<lparr>da_size = n, da_pages = q\<rparr> # es, w')" using True by simp_all
    then show ?thesis by blast
  next
    case False
    from Cons show ?thesis
    proof (elim disjE exE conjE)
      fix us f vs q w' assume "es = us @ f # vs" "da_pages f = 0" "request_page pick n w = (q, w')"
        "direct_entries pick n es w = (Some q, us @ \<lparr>da_size = n, da_pages = q\<rparr> # vs, w')"
      then have "e # es = (e # us) @ f # vs" "da_pages f = 0" "request_page pick n w = (q, w')"
        "direct_entries pick n (e # es) w = (Some q, (e # us) @ \<lparr>da_size = n, da_pages = q\<rparr> # vs, w')" using False by simp_all
      then show ?thesis by blast
    qed (use False in simp)
  qed
qed simp

definition direct_filled :: "picker \<Rightarrow> nat \<Rightarrow> DirectAllocator list \<Rightarrow> os \<Rightarrow> nat \<Rightarrow> DirectAllocator list \<Rightarrow> os \<Rightarrow> bool" where
  "direct_filled pick n as w q as' w' \<longleftrightarrow>
     (\<exists>us e vs. allocs as = us @ e # vs \<and> da_pages e = 0 \<and> allocs as' = us @ \<lparr>da_size = n, da_pages = q\<rparr> # vs \<and>
        map dr_base as' = map dr_base as \<and> request_page pick n w = (q, w'))"

lemma direct_filled_Cons: "direct_filled pick n as w q as' w' \<Longrightarrow> direct_filled pick n (a # as) w q (a # as') w'"
  unfolding direct_filled_def
proof (elim exE conjE)
  fix us e vs assume "allocs as = us @ e # vs" "da_pages e = 0" "allocs as' = us @ \<lparr>da_size = n, da_pages = q\<rparr> # vs"
    "map dr_base as' = map dr_base as" "request_page pick n w = (q, w')"
  then have "allocs (a # as) = (dr_allocations a @ us) @ e # vs" "da_pages e = 0"
    "allocs (a # as') = (dr_allocations a @ us) @ \<lparr>da_size = n, da_pages = q\<rparr> # vs"
    "map dr_base (a # as') = map dr_base (a # as)" "request_page pick n w = (q, w')" by simp_all
  then show "\<exists>us e vs. allocs (a # as) = us @ e # vs \<and> da_pages e = 0 \<and>
      allocs (a # as') = us @ \<lparr>da_size = n, da_pages = q\<rparr> # vs \<and>
      map dr_base (a # as') = map dr_base (a # as) \<and> request_page pick n w = (q, w')" by blast
qed

lemma direct_head:
  assumes "\<exists>e \<in> set (dr_allocations a). da_pages e = 0"
  shows "\<exists>q as' w'. direct_chain pick n (a # rest) w = Some (q, as', w') \<and> direct_filled pick n (a # rest) w q as' w'"
proof -
  from direct_entries_cases [of pick n "dr_allocations a" w] assms obtain us e vs q w' where
    e: "dr_allocations a = us @ e # vs" "da_pages e = 0" "request_page pick n w = (q, w')"
      "direct_entries pick n (dr_allocations a) w = (Some q, us @ \<lparr>da_size = n, da_pages = q\<rparr> # vs, w')" by auto
  let ?a = "a\<lparr>dr_allocations := us @ \<lparr>da_size = n, da_pages = q\<rparr> # vs\<rparr>"
  have "direct_chain pick n (a # rest) w = Some (q, ?a # rest, w')"
    using e(4) by (subst direct_chain.simps) simp
  moreover have "allocs (a # rest) = us @ e # (vs @ allocs rest)"
    "allocs (?a # rest) = us @ \<lparr>da_size = n, da_pages = q\<rparr> # (vs @ allocs rest)"
    "map dr_base (?a # rest) = map dr_base (a # rest)" using e(1) by simp_all
  ultimately show ?thesis using e(2,3) unfolding direct_filled_def by blast
qed

definition direct_grown :: "picker \<Rightarrow> DirectAllocator list \<Rightarrow> os \<Rightarrow> DirectAllocator list \<Rightarrow> os \<Rightarrow> bool" where
  "direct_grown pick as w as' w' \<longleftrightarrow> as' = as \<and> w' = w \<or>
     (\<exists>p. p \<noteq> 0 \<and> request_page pick 4096 w = (p, w') \<and> as' = as @ [zero_direct p])"

lemma zero_direct_free: "\<exists>e \<in> set (dr_allocations (zero_direct p)). da_pages e = 0"
  by (simp add: zero_direct_def DIRECT_CAPACITY_def config_defs)

lemma direct_chain_total:
  "as \<noteq> [] \<Longrightarrow> \<exists>q as' w' as0 w0. direct_chain pick n as w = Some (q, as', w') \<and> direct_grown pick as w as0 w0 \<and>
     (direct_filled pick n as0 w0 q as' w' \<or> q = 0 \<and> as' = as0 \<and> request_page pick 4096 w0 = (0, w'))"
proof (induction as)
  case (Cons a as)
  show ?case
  proof (cases "\<exists>e \<in> set (dr_allocations a). da_pages e = 0")
    case True
    from direct_head [OF this, of pick n as w] show ?thesis unfolding direct_grown_def by blast
  next
    case False
    then have full: "direct_entries pick n (dr_allocations a) w = (None, dr_allocations a, w)"
      using direct_entries_cases [of pick n "dr_allocations a" w] by auto
    show ?thesis
    proof (cases "as = []")
      case nonempty: False
      then obtain q as' w' as0 w0 where r: "direct_chain pick n as w = Some (q, as', w')" "direct_grown pick as w as0 w0"
        "direct_filled pick n as0 w0 q as' w' \<or> q = 0 \<and> as' = as0 \<and> request_page pick 4096 w0 = (0, w')" using Cons by auto
      then have "direct_chain pick n (a # as) w = Some (q, a # as', w')"
        using full nonempty by (subst direct_chain.simps) simp
      moreover have "direct_grown pick (a # as) w (a # as0) w0" using r(2) by (auto simp: direct_grown_def)
      ultimately show ?thesis using r(3) direct_filled_Cons by blast
    next
      case True
      obtain p w1 where p: "request_page pick 4096 w = (p, w1)" by fastforce
      show ?thesis
      proof (cases "p = 0")
        case zero: True
        then have "direct_chain pick n (a # as) w = Some (0, a # as, w1)"
          using full p True by (subst direct_chain.simps) (simp add: config_defs)
        then show ?thesis using p zero unfolding direct_grown_def by blast
      next
        case False
        from direct_head [OF zero_direct_free, of pick n p "[]" w1] obtain q as' w' where
          r: "direct_chain pick n [zero_direct p] w1 = Some (q, as', w')" "direct_filled pick n [zero_direct p] w1 q as' w'" by blast
        then have "direct_chain pick n (a # as) w = Some (q, a # as', w')"
          using full p True False by (subst direct_chain.simps) (simp add: config_defs)
        moreover have "direct_grown pick (a # as) w (a # [zero_direct p]) w1" using True p False by (auto simp: direct_grown_def)
        ultimately show ?thesis using direct_filled_Cons [OF r(2)] by blast
      qed
    qed
  qed
qed simp

section \<open>The invariant under changes of the entries\<close>

lemma fresh_region:
  assumes "mmap_fresh pick" "request_page pick n w = (p, w')" "p \<noteq> 0"
  shows "region_ok w' (p, n)" "region_ok w r \<Longrightarrow> page_apart r (p, n)" "region_ok w r \<Longrightarrow> region_ok w' r"
proof -
  note f = request_page_fresh [OF assms] and x = request_page_extends [OF assms(1,2)]
  show "region_ok w' (p, n)" using f(1,2,4,6) assms(3) by (simp add: region_ok_def)
  show "region_ok w r \<Longrightarrow> page_apart r (p, n)" using f(3) by (auto simp: region_ok_def page_apart_def)
  show "region_ok w r \<Longrightarrow> region_ok w' r" using x by (auto simp: region_ok_def os_extends_def)
qed

lemma direct_inv_extends: "direct_inv as w \<Longrightarrow> os_extends w w' \<Longrightarrow> direct_inv as w'"
  unfolding direct_inv_def region_ok_def os_extends_def by blast

text \<open>The regions around one entry.\<close>

lemma regions_at:
  assumes "allocs as = us @ e # vs"
  shows "regions as = (map (\<lambda>a. (dr_base a, 4096)) as @ entry_regions us) @
    (if da_pages e \<noteq> 0 then [(da_pages e, da_size e)] else []) @ entry_regions vs"
  by (simp add: regions_def assms)

definition others :: "DirectAllocator list \<Rightarrow> DirectAllocation list \<Rightarrow> DirectAllocation list \<Rightarrow> (nat \<times> nat) list" where
  "others as us vs = (map (\<lambda>a. (dr_base a, 4096)) as @ entry_regions us) @ entry_regions vs"

lemma others_bases: "map dr_base as' = map dr_base as \<Longrightarrow> others as' us vs = others as us vs"
proof -
  assume "map dr_base as' = map dr_base as"
  then have "map (\<lambda>b. (b, 4096::nat)) (map dr_base as') = map (\<lambda>b. (b, 4096)) (map dr_base as)" by simp
  then show ?thesis by (simp add: others_def comp_def)
qed

lemma direct_inv_at:
  assumes "allocs as = us @ e # vs"
  shows "direct_inv as w \<longleftrightarrow> (\<forall>r \<in> set (others as us vs). region_ok w r) \<and> sorted_wrt page_apart (others as us vs) \<and>
    (da_pages e \<noteq> 0 \<longrightarrow> region_ok w (da_pages e, da_size e) \<and> (\<forall>r \<in> set (others as us vs). page_apart r (da_pages e, da_size e)))"
proof (cases "da_pages e = 0")
  case True
  then show ?thesis by (simp add: direct_inv_def regions_at [OF assms] others_def)
next
  case False
  then have r: "regions as = (map (\<lambda>a. (dr_base a, 4096)) as @ entry_regions us) @ (da_pages e, da_size e) # entry_regions vs"
    using regions_at [OF assms] by simp
  show ?thesis unfolding direct_inv_def r sorted_wrt_middle others_def [symmetric]
    using False page_apart_sym by (auto simp: others_def)
qed

lemma direct_live_at:
  assumes "allocs as = us @ e # vs"
  shows "direct_live as = (if da_pages e \<noteq> 0 then {(da_pages e, da_size e)} else {}) \<union> set (entry_regions us @ entry_regions vs)"
  by (auto simp: direct_live_def assms)

lemma entry_not_elsewhere:
  assumes "direct_inv as w" "allocs as = us @ e # vs" "da_pages e \<noteq> 0"
  shows "(da_pages e, da_size e) \<notin> set (entry_regions us @ entry_regions vs)"
proof
  assume "(da_pages e, da_size e) \<in> set (entry_regions us @ entry_regions vs)"
  then have "(da_pages e, da_size e) \<in> set (others as us vs)" by (auto simp: others_def)
  then have "page_apart (da_pages e, da_size e) (da_pages e, da_size e)" "region_ok w (da_pages e, da_size e)"
    using direct_inv_at [OF assms(2)] assms(1,3) by blast+
  then show False by (auto simp: page_apart_def page_in_def region_ok_def div_le_mono)
qed

lemma direct_live_apart:
  assumes "direct_inv as w" "r \<in> direct_live as" "r' \<in> direct_live as" "r \<noteq> r'"
  shows "apart r r'"
proof -
  have s: "sorted_wrt page_apart (entry_regions (allocs as))" "\<forall>r \<in> set (entry_regions (allocs as)). 0 < snd r"
    using assms(1) by (auto simp: direct_inv_def regions_def sorted_wrt_append region_ok_def)
  obtain us vs where e: "entry_regions (allocs as) = us @ r # vs" using assms(2) by (auto simp: direct_live_def dest: split_list)
  then have "r' \<in> set us \<union> set vs" using assms(3,4) by (auto simp: direct_live_def)
  then have "page_apart r r'" using s(1) page_apart_sym unfolding e sorted_wrt_middle by blast
  then show ?thesis using page_apart_apart s(2) assms(2,3) by (auto simp: direct_live_def)
qed

lemma direct_grown_inv:
  assumes "mmap_fresh pick" "direct_grown pick as w as' w'" "direct_inv as w"
  shows "direct_inv as' w'" "direct_live as' = direct_live as" "os_extends w w'" "as \<noteq> [] \<Longrightarrow> as' \<noteq> []"
proof -
  have "direct_inv as' w' \<and> direct_live as' = direct_live as \<and> os_extends w w'"
  proof (cases "as' = as \<and> w' = w")
    case True
    then show ?thesis using assms(3) os_extends_refl by simp
  next
    case False
    then obtain p where p: "p \<noteq> 0" "request_page pick 4096 w = (p, w')" "as' = as @ [zero_direct p]"
      using assms(2) by (auto simp: direct_grown_def)
    note f = fresh_region [OF assms(1) p(2,1)]
    have "entry_regions (allocs [zero_direct p]) = []" by (simp add: zero_direct_def entry_regions_def)
    then have e: "entry_regions (allocs as') = entry_regions (allocs as)" by (simp add: p(3))
    then have r: "regions as' = map (\<lambda>a. (dr_base a, 4096)) as @ (p, 4096) # entry_regions (allocs as)"
      by (simp add: regions_def p(3) zero_direct_def)
    have inv: "\<forall>r \<in> set (regions as). region_ok w r" "sorted_wrt page_apart (regions as)"
      using assms(3) by (simp_all add: direct_inv_def)
    then have "sorted_wrt page_apart (regions as')" unfolding r sorted_wrt_middle
      using f(2) page_apart_sym by (auto simp: regions_def)
    moreover have "\<forall>r \<in> set (regions as'). region_ok w' r" using r inv(1) f(1,3) by (auto simp: regions_def)
    ultimately show ?thesis using e request_page_extends [OF assms(1) p(2)] by (simp add: direct_inv_def direct_live_def)
  qed
  then show "direct_inv as' w'" "direct_live as' = direct_live as" "os_extends w w'" by auto
  show "as' \<noteq> []" if "as \<noteq> []" using assms(2) that by (auto simp: direct_grown_def)
qed

text \<open>An entry that is empty receives a fresh region.\<close>

lemma direct_fill_inv:
  assumes "mmap_fresh pick" "direct_inv as w" "allocs as = us @ e # vs"
    "allocs as' = us @ \<lparr>da_size = n, da_pages = q\<rparr> # vs" "map dr_base as' = map dr_base as" "request_page pick n w = (q, w')"
  shows "direct_inv as' w'" "q \<noteq> 0 \<Longrightarrow> (q, n) \<notin> direct_live as"
proof -
  have x: "os_extends w w'" by (rule request_page_extends [OF assms(1,6)])
  have o: "\<forall>r \<in> set (others as us vs). region_ok w r" "sorted_wrt page_apart (others as us vs)"
    using direct_inv_at [OF assms(3)] assms(2) by blast+
  have o': "others as' us vs = others as us vs" by (rule others_bases [OF assms(5)])
  show "direct_inv as' w'"
  proof (cases "q = 0")
    case True
    have "\<forall>r \<in> set (others as us vs). region_ok w' r" using o(1) x by (auto simp: region_ok_def os_extends_def)
    then show ?thesis using True o(2) unfolding direct_inv_at [OF assms(4)] o' by simp
  next
    case False
    note f = fresh_region [OF assms(1,6) False]
    show ?thesis using f o unfolding direct_inv_at [OF assms(4)] o' by simp
  qed
  show "(q, n) \<notin> direct_live as" if "q \<noteq> 0"
  proof
    assume "(q, n) \<in> direct_live as"
    then have "region_ok w (q, n)" using assms(2) by (auto simp: direct_inv_def regions_def direct_live_def)
    then have "page_apart (q, n) (q, n)" "0 < n" using fresh_region(2) [OF assms(1,6) that] by (auto simp: region_ok_def)
    then show False by (auto simp: page_apart_def page_in_def div_le_mono)
  qed
qed

lemma fresh_zero:
  assumes "mmap_fresh pick" "request_page pick n w = (q, w')" "q \<noteq> 0" "i < n"
  shows "os_mem w' (q + i) = 0"
proof -
  have "(q + i) div 4096 \<le> (q + n - 1) div 4096" using assms(4) by (intro div_le_mono) simp
  moreover have "q div 4096 \<le> (q + i) div 4096" by (intro div_le_mono) simp
  ultimately have "page_in q n ((q + i) div 4096)" using assms(4) by (simp add: page_in_def)
  then show ?thesis using request_page_fresh(5) [OF assms(1-3)] by simp
qed

lemma direct_allocate_total:
  assumes "mmap_fresh pick" "direct_inv as w" "as \<noteq> []"
  shows "\<exists>q as' w'. direct_allocator_allocate pick n as w = Some (q, as', w') \<and> direct_inv as' w' \<and> as' \<noteq> [] \<and>
    os_extends w w' \<and>
    (if q = 0 then direct_live as' = direct_live as
     else (q, n) \<notin> direct_live as \<and> direct_live as' = insert (q, n) (direct_live as) \<and> (\<forall>i < n. os_mem w' (q + i) = 0))"
proof -
  from direct_chain_total [OF assms(3), of pick n w] obtain q as' w' as0 w0 where
    r: "direct_chain pick n as w = Some (q, as', w')" "direct_grown pick as w as0 w0"
      "direct_filled pick n as0 w0 q as' w' \<or> q = 0 \<and> as' = as0 \<and> request_page pick 4096 w0 = (0, w')" by blast
  have c: "direct_allocator_allocate pick n as w = Some (q, as', w')"
    using r(1) assms(3) by (simp add: direct_allocator_allocate_def direct_allocator_def)
  note g = direct_grown_inv [OF assms(1) r(2) assms(2)]
  from r(3) show ?thesis
  proof
    assume "direct_filled pick n as0 w0 q as' w'"
    then obtain us e vs where f: "allocs as0 = us @ e # vs" "da_pages e = 0"
      "allocs as' = us @ \<lparr>da_size = n, da_pages = q\<rparr> # vs" "map dr_base as' = map dr_base as0" "request_page pick n w0 = (q, w')"
      by (auto simp: direct_filled_def)
    note i = direct_fill_inv [OF assms(1) g(1) f(1,3,4,5)]
    have l: "direct_live as' = (if q = 0 then {} else {(q, n)}) \<union> direct_live as"
      using direct_live_at [OF f(3)] direct_live_at [OF f(1)] f(2) g(2) by simp
    have "as' \<noteq> []" using f(3) by auto
    moreover have "os_extends w w'" using g(3) request_page_extends [OF assms(1) f(5)] by (rule os_extends_trans)
    moreover have "if q = 0 then direct_live as' = direct_live as
      else (q, n) \<notin> direct_live as \<and> direct_live as' = insert (q, n) (direct_live as) \<and> (\<forall>i < n. os_mem w' (q + i) = 0)"
      using l i(2) g(2) fresh_zero [OF assms(1) f(5)] by auto
    ultimately show ?thesis using c i(1) by blast
  next
    assume q: "q = 0 \<and> as' = as0 \<and> request_page pick 4096 w0 = (0, w')"
    then have x: "os_extends w0 w'" using request_page_extends [OF assms(1)] by blast
    then have "direct_inv as' w'" "os_extends w w'" using q g(1) direct_inv_extends os_extends_trans [OF g(3)] by auto
    moreover have "as' \<noteq> []" using q g(4) assms(3) by simp
    moreover have "direct_live as' = direct_live as" using q g(2) by simp
    ultimately show ?thesis using c q by auto
  qed
qed

section \<open>Release\<close>

lemma region_ok_release:
  assumes "region_ok w r" "page_apart r (p, s)"
  shows "region_ok (release_page p s w) r"
  using assms by (auto simp: region_ok_def release_page_def page_apart_def)

lemma direct_live_ok: "direct_inv as w \<Longrightarrow> r \<in> direct_live as \<Longrightarrow> region_ok w r"
  by (auto simp: direct_inv_def regions_def direct_live_def)

lemma live_entry:
  assumes "direct_inv as w" "(p, s) \<in> direct_live as"
  shows "\<exists>ki us vs. find_direct p as = Some ki \<and> at_entry as ki us \<lparr>da_size = s, da_pages = p\<rparr> vs"
proof -
  from assms(2) obtain e where e: "e \<in> set (allocs as)" "da_pages e = p" "p \<noteq> 0"
    by (auto simp: direct_live_def entry_regions_def)
  then obtain ki where ki: "find_direct p as = Some ki" using find_direct_none by fastforce
  from find_direct_split [OF this] obtain us f vs where f: "at_entry as ki us f vs" "da_pages f = p" by blast
  then have "(p, da_size f) \<in> direct_live as" using e(3) direct_live_at [of as us f vs] by (auto simp: at_entry_def)
  moreover from this have "0 < da_size f" "0 < s" using direct_live_ok [OF assms(1)] assms(2) by (force simp: region_ok_def)+
  ultimately have "da_size f = s" using direct_live_apart [OF assms(1) _ assms(2), of "(p, da_size f)"] by (auto simp: apart_def)
  then have "f = \<lparr>da_size = s, da_pages = p\<rparr>" using f(2) by simp
  then show ?thesis using ki f(1) by blast
qed

lemma direct_deallocate_live:
  assumes "direct_inv as w" "as \<noteq> []" "(p, s) \<in> direct_live as"
  shows "\<exists>as' w'. direct_allocator_deallocate pick p as w = (True, as', w') \<and> direct_inv as' w' \<and> as' \<noteq> [] \<and>
    direct_live as' = direct_live as - {(p, s)} \<and> os_mem w' = os_mem w \<and> w' = release_page p s w"
proof -
  from live_entry [OF assms(1,3)] obtain ki us vs where
    k: "find_direct p as = Some ki" "at_entry as ki us \<lparr>da_size = s, da_pages = p\<rparr> vs" by blast
  let ?e = "\<lparr>da_size = s, da_pages = p\<rparr>" and ?as = "put_allocation as ki \<lparr>da_size = s, da_pages = 0\<rparr>"
  have a: "allocs as = us @ ?e # vs" "allocs ?as = us @ \<lparr>da_size = s, da_pages = 0\<rparr> # vs" "map dr_base ?as = map dr_base as"
    "ith_allocation as ki = ?e" using k(2) by (simp_all add: at_entry_def)
  have p: "p \<noteq> 0" using assms(3) by (auto simp: direct_live_def entry_regions_def)
  have "direct_allocator_deallocate pick p as w = (True, ?as, release_page p s w)"
    using k(1) a(4) assms(2) by (simp add: direct_allocator_deallocate_def direct_allocator_def)
  moreover have "direct_inv ?as (release_page p s w)"
    using assms(1) p region_ok_release unfolding direct_inv_at [OF a(1)] direct_inv_at [OF a(2)] others_bases [OF a(3)] by simp
  moreover have "direct_live ?as = direct_live as - {(p, s)}"
    using direct_live_at [OF a(1)] direct_live_at [OF a(2)] entry_not_elsewhere [OF assms(1) a(1)] p by auto
  moreover have "?as \<noteq> []" using assms(2) a(3) by auto
  moreover have "os_mem (release_page p s w) = os_mem w" by (simp add: release_page_def)
  ultimately show ?thesis by blast
qed

section \<open>Reallocation\<close>

lemma page_in_prefix: "page_in p n g \<Longrightarrow> n \<le> s \<Longrightarrow> page_in p s g"
  using div_le_mono [of "p + n - 1" "p + s - 1" 4096] by (auto simp: page_in_def)

lemma page_in_suffix: "page_in (p + k) (s - k) g \<Longrightarrow> k \<le> s \<Longrightarrow> page_in p s g"
  using div_le_mono [of p "p + k" 4096] by (auto simp: page_in_def)

lemma page_apart_sub:
  assumes "page_apart r (p, s)" "\<And>g. page_in p' s' g \<Longrightarrow> page_in p s g"
  shows "page_apart r (p', s')"
  using assms(1) assms(2) unfolding page_apart_def by (simp, blast)

text \<open>The pages behind the rounded-up new size are exactly those the shrunk block no longer needs.\<close>

lemma trimmed_pages:
  assumes "p mod 4096 = 0" "k mod 4096 = 0" "0 < n" "n \<le> k" "page_in p n g"
  shows "\<not> page_in (p + k) (s - k) g"
proof
  assume g: "page_in (p + k) (s - k) g"
  obtain a b where ab: "p = 4096 * a" "k = 4096 * b" using aligned_page assms(1,2) by blast
  have "(p + n - 1) div 4096 \<le> (4096 * (a + b) - 1) div 4096" using ab assms(3,4) by (intro div_le_mono) simp
  also have "\<dots> < a + b" using ab assms(3,4) by (simp add: less_mult_imp_div_less)
  finally have "g < a + b" using assms(5) by (simp add: page_in_def)
  moreover have "(p + k) div 4096 = a + b" using ab by simp
  ultimately show False using g by (simp add: page_in_def)
qed

lemma align_page:
  assumes "n + 4096 \<le> 2 ^ 63"
  shows "unat (align_up (of_nat n) (of_nat PAGE_SIZE)) mod 4096 = 0 \<and>
    n \<le> unat (align_up (of_nat n) (of_nat PAGE_SIZE)) \<and> unat (align_up (of_nat n) (of_nat PAGE_SIZE)) < n + 4096"
proof -
  have u: "unat (of_nat n :: u64) = n" using assms by (simp add: unat_of_nat)
  then show ?thesis using align_up_next [of 12 "of_nat n"] assms by (simp add: config_defs)
qed

lemma direct_shrink:
  assumes "direct_inv as w" "at_entry as ki us \<lparr>da_size = s, da_pages = p\<rparr> vs" "p \<noteq> 0" "0 < n" "n \<le> k" "k \<le> s" "k mod 4096 = 0"
    "as' = put_allocation as ki \<lparr>da_size = n, da_pages = p\<rparr>" "w' = release_page (p + k) (s - k) w"
  shows "direct_inv as' w'" "direct_live as' = insert (p, n) (direct_live as - {(p, s)})" "os_mem w' = os_mem w"
    "(p, n) \<notin> direct_live as - {(p, s)}"
proof -
  have a: "allocs as = us @ \<lparr>da_size = s, da_pages = p\<rparr> # vs" "allocs as' = us @ \<lparr>da_size = n, da_pages = p\<rparr> # vs"
    "map dr_base as' = map dr_base as" using assms(2,8) by (simp_all add: at_entry_def)
  have o: "\<forall>r \<in> set (others as us vs). region_ok w r" "sorted_wrt page_apart (others as us vs)" "region_ok w (p, s)"
    "\<forall>r \<in> set (others as us vs). page_apart r (p, s)" using direct_inv_at [OF a(1)] assms(1,3) by auto
  have "\<forall>r \<in> set (others as us vs). page_apart r (p + k, s - k)" using o(4) page_apart_sub page_in_suffix [OF _ assms(6)] by blast
  then have "\<forall>r \<in> set (others as us vs). region_ok w' r" using o(1) region_ok_release assms(9) by blast
  moreover have "\<forall>r \<in> set (others as us vs). page_apart r (p, n)"
    using o(4) page_apart_sub page_in_prefix [OF _ order.trans [OF assms(5,6)]] by blast
  moreover have "region_ok w' (p, n)"
  proof -
    have "region_ok w (p, n)" using o(3) assms(4-6) page_in_prefix [of p n _ s] by (auto simp: region_ok_def)
    moreover have "page_apart (p, n) (p + k, s - k)"
      using trimmed_pages [of p k n] o(3) assms(4,5,7) by (auto simp: page_apart_def region_ok_def)
    ultimately show ?thesis using region_ok_release assms(9) by blast
  qed
  ultimately show "direct_inv as' w'" using o(2) unfolding direct_inv_at [OF a(2)] others_bases [OF a(3)] by simp
  have others: "direct_live as - {(p, s)} = set (entry_regions us @ entry_regions vs)"
    using direct_live_at [OF a(1)] entry_not_elsewhere [OF assms(1) a(1)] assms(3) by auto
  then show "direct_live as' = insert (p, n) (direct_live as - {(p, s)})" using direct_live_at [OF a(2)] assms(3) by simp
  show "os_mem w' = os_mem w" using assms(9) by (simp add: release_page_def)
  show "(p, n) \<notin> direct_live as - {(p, s)}"
    using entry_not_elsewhere [OF \<open>direct_inv as' w'\<close> a(2)] assms(3) others by simp
qed

lemma direct_grow:
  assumes "mmap_fresh pick" "direct_inv as w" "at_entry as ki us \<lparr>da_size = s, da_pages = p\<rparr> vs" "p \<noteq> 0"
    "request_page pick n w = (q, w1)" "q \<noteq> 0" "as' = put_allocation as ki \<lparr>da_size = n, da_pages = q\<rparr>"
    "w' = release_page p s (w1\<lparr>os_mem := h\<rparr>)"
  shows "direct_inv as' w'" "direct_live as' = insert (q, n) (direct_live as - {(p, s)})" "os_mem w' = h"
    "(q, n) \<notin> direct_live as - {(p, s)}" "apart (q, n) (p, s)"
proof -
  have a: "allocs as = us @ \<lparr>da_size = s, da_pages = p\<rparr> # vs" "allocs as' = us @ \<lparr>da_size = n, da_pages = q\<rparr> # vs"
    "map dr_base as' = map dr_base as" using assms(3,7) by (simp_all add: at_entry_def)
  have o: "\<forall>r \<in> set (others as us vs). region_ok w r" "sorted_wrt page_apart (others as us vs)" "region_ok w (p, s)"
    "\<forall>r \<in> set (others as us vs). page_apart r (p, s)" using direct_inv_at [OF a(1)] assms(2,4) by auto
  note f = fresh_region [OF assms(1,5,6)]
  have h: "region_ok (w1\<lparr>os_mem := h\<rparr>) r = region_ok w1 r" for r by (simp add: region_ok_def)
  have ps: "page_apart (p, s) (q, n)" using f(2) o(3) by blast
  have "\<forall>r \<in> set (others as us vs). region_ok w' r" using o(1,4) f(3) h region_ok_release assms(8) by blast
  moreover have "region_ok w' (q, n)" using f(1) h ps page_apart_sym region_ok_release assms(8) by blast
  moreover have "\<forall>r \<in> set (others as us vs). page_apart r (q, n)" using f(2) o(1) by blast
  ultimately show inv: "direct_inv as' w'" using o(2) unfolding direct_inv_at [OF a(2)] others_bases [OF a(3)] by simp
  have others: "direct_live as - {(p, s)} = set (entry_regions us @ entry_regions vs)"
    using direct_live_at [OF a(1)] entry_not_elsewhere [OF assms(2) a(1)] assms(4) by auto
  then show "direct_live as' = insert (q, n) (direct_live as - {(p, s)})" using direct_live_at [OF a(2)] assms(6) by simp
  show "os_mem w' = h" using assms(8) by (simp add: release_page_def)
  show "(q, n) \<notin> direct_live as - {(p, s)}" using entry_not_elsewhere [OF inv a(2)] assms(6) others by simp
  show "apart (q, n) (p, s)"
    using page_apart_apart [of "(q, n)" "(p, s)"] ps page_apart_sym f(1) o(3) by (auto simp: region_ok_def)
qed

lemma direct_pairwise: "direct_inv as w \<Longrightarrow> pairwise apart (direct_live as)"
  using direct_live_apart by (auto simp: pairwise_def)

lemma live_mem_extends:
  assumes "direct_inv as w" "os_extends w w'" "(p, s) \<in> direct_live as" "i < s"
  shows "os_mem w' (p + i) = os_mem w (p + i)"
proof -
  have "(p + i) div 4096 \<le> (p + s - 1) div 4096" using assms(4) by (intro div_le_mono) simp
  moreover have "p div 4096 \<le> (p + i) div 4096" by (intro div_le_mono) simp
  ultimately have "page_in p s ((p + i) div 4096)" using assms(4) by (simp add: page_in_def)
  then have "os_pages w ((p + i) div 4096)" using direct_live_ok [OF assms(1,3)] by (simp add: region_ok_def)
  then show ?thesis using assms(2) by (simp add: os_extends_def)
qed

lemma direct_reallocate_total:
  assumes "mmap_fresh pick" "direct_inv as w" "as \<noteq> []" "(p, s) \<in> direct_live as" "0 < n"
  shows "\<exists>q as' w'. direct_allocator_reallocate pick p n as w = Some (q, as', w') \<and> direct_inv as' w' \<and>
    (if q = 0 then direct_live as' = direct_live as \<and> os_extends w w'
     else realloc_outcome (direct_live as) (direct_live as') p s n q (os_mem w) (os_mem w'))"
proof -
  from live_entry [OF assms(2,4)] obtain ki us vs where
    k: "find_direct p as = Some ki" "at_entry as ki us \<lparr>da_size = s, da_pages = p\<rparr> vs" by blast
  have i: "ith_allocation as ki = \<lparr>da_size = s, da_pages = p\<rparr>" using k(2) by (simp add: at_entry_def)
  have ok: "p \<noteq> 0" "p + s \<le> 2 ^ 47" using direct_live_ok [OF assms(2,4)] by (simp_all add: region_ok_def)
  have d: "direct_allocator pick as w = (as, w)" using assms(3) by (simp add: direct_allocator_def)
  note e = direct_allocator_reallocate_def d k(1) i config_defs(1)
  show ?thesis
  proof (cases "s \<ge> n")
    case shrink: True
    show ?thesis
    proof (cases "s - n < 4096")
      case True
      then have "direct_allocator_reallocate pick p n as w = Some (p, as, w)" using shrink by (simp add: e)
      moreover have "realloc_ok (direct_live as) (direct_live as) p s n p (os_mem w) (os_mem w)"
        using assms(4) ok(1) shrink by (intro realloc_okI [of p n s]) auto
      ultimately show ?thesis using realloc_ok_outcome [OF _ direct_pairwise [OF assms(2)]] assms(2) ok(1)
        by (intro exI [of _ p] exI [of _ as] exI [of _ w]) simp
    next
      case False
      let ?k = "unat (align_up (of_nat n) (of_nat PAGE_SIZE))"
      have n: "?k mod 4096 = 0" "n \<le> ?k" "?k \<le> s" using align_page [of n] False ok(2) shrink by auto
      have "sub64 s ?k = s - ?k" using n(3) ok(2) by (simp add: sub64_exact)
      then have r: "direct_allocator_reallocate pick p n as w =
        Some (p, put_allocation as ki \<lparr>da_size = n, da_pages = p\<rparr>, release_page (p + ?k) (s - ?k) w)"
        using shrink False by (simp add: e Let_def)
      note sh = direct_shrink [OF assms(2) k(2) ok(1) assms(5) n(2,3,1) refl refl]
      have "realloc_ok (direct_live as) (direct_live (put_allocation as ki \<lparr>da_size = n, da_pages = p\<rparr>)) p s n p
        (os_mem w) (os_mem (release_page (p + ?k) (s - ?k) w))"
        using sh(2,3,4) ok(1) by (intro realloc_okI [of p n n]) auto
      then show ?thesis using realloc_ok_outcome [OF _ direct_pairwise [OF sh(1)]] r sh(1) if_not_P [OF ok(1)] by metis
    qed
  next
    case grow: False
    obtain q w1 where q: "request_page pick n w = (q, w1)" by fastforce
    show ?thesis
    proof (cases "q = 0")
      case True
      then have "direct_allocator_reallocate pick p n as w = Some (0, as, w1)" using grow q by (simp add: e)
      then show ?thesis using direct_inv_extends [OF assms(2)] request_page_extends [OF assms(1) q] by auto
    next
      case False
      note g = direct_grow [OF assms(1,2) k(2) ok(1) q False refl refl]
      have "apart (q, s) (p, s)" using g(5) grow by (auto simp: apart_def)
      then obtain h where h: "memcpy q p s (os_mem w1) = Some h" by (meson memcpy_apart)
      have r: "direct_allocator_reallocate pick p n as w = Some (q, put_allocation as ki \<lparr>da_size = n, da_pages = q\<rparr>,
          release_page p s (w1\<lparr>os_mem := h\<rparr>))" using grow q False h by (simp add: e)
      have "realloc_outcome (direct_live as) (direct_live (put_allocation as ki \<lparr>da_size = n, da_pages = q\<rparr>)) p s n q (os_mem w) h"
        using live_mem_extends [OF assms(2) request_page_extends [OF assms(1) q]] grow
        by (intro realloc_outcome_moved [OF assms(4) False _ _ g(4,2) direct_pairwise [OF g(1)] _ h]) auto
      then show ?thesis using r g(1) g(3) if_not_P [OF False] by metis
    qed
  qed
qed

section \<open>The contract\<close>

definition direct_state :: "DirectAllocator list \<times> os \<Rightarrow> bool" where
  "direct_state st \<longleftrightarrow> direct_inv (fst st) (snd st) \<and> fst st \<noteq> []"

definition direct_malloc :: "picker \<Rightarrow> DirectAllocator list \<times> os \<Rightarrow> nat \<Rightarrow> (nat \<times> DirectAllocator list \<times> os) option" where
  "direct_malloc pick st n = direct_allocator_allocate pick n (fst st) (snd st)"

definition direct_free :: "picker \<Rightarrow> DirectAllocator list \<times> os \<Rightarrow> nat \<Rightarrow> (DirectAllocator list \<times> os) option" where
  "direct_free pick st p =
     (case direct_allocator_deallocate pick p (fst st) (snd st) of (found, st') \<Rightarrow> if found then Some st' else None)"

sublocale kernel \<subseteq> directs: heap_contract direct_state "\<lambda>st. direct_live (fst st)" "\<lambda>n. True"
  "direct_malloc pick" "direct_free pick" "\<lambda>s r. False"
proof
  fix st and n :: nat assume s: "direct_state st"
  from direct_allocate_total [OF fresh, of "fst st" "snd st" n] s obtain q as' w' where
    r: "direct_allocator_allocate pick n (fst st) (snd st) = Some (q, as', w')" "direct_inv as' w'" "as' \<noteq> []"
    "if q = 0 then direct_live as' = direct_live (fst st)
     else (q, n) \<notin> direct_live (fst st) \<and> direct_live as' = insert (q, n) (direct_live (fst st)) \<and> (\<forall>i < n. os_mem w' (q + i) = 0)"
    unfolding direct_state_def by blast
  then show "\<exists>q s'. direct_malloc pick st n = Some (q, s') \<and> direct_state s' \<and>
      (q = 0 \<and> direct_live (fst s') = direct_live (fst st) \<or>
       q \<noteq> 0 \<and> (\<exists>m \<ge> n. (q, m) \<notin> direct_live (fst st) \<and> direct_live (fst s') = insert (q, m) (direct_live (fst st))))"
    by (intro exI [of _ q] exI [of _ "(as', w')"]) (auto simp: direct_malloc_def direct_state_def split: if_splits)
next
  fix st q m assume "direct_state st" "(q, m) \<in> direct_live (fst st)"
  with direct_deallocate_live [of "fst st" "snd st" q m pick]
  show "\<exists>s'. direct_free pick st q = Some s' \<and> direct_state s' \<and> direct_live (fst s') = direct_live (fst st) - {(q, m)}"
    unfolding direct_state_def direct_free_def by force
next
  show "apart r r'" if "direct_state st" "r \<in> direct_live (fst st)" "r' \<in> direct_live (fst st)" "r \<noteq> r'" for st r r'
    using that direct_live_apart unfolding direct_state_def by blast
  show "0 < m" if "direct_state st" "(q, m) \<in> direct_live (fst st)" for st q m
    using that direct_live_ok unfolding direct_state_def region_ok_def by fastforce
qed simp_all

section \<open>Properties\<close>

text \<open>A table with one block of three pages, for the concrete runs.\<close>

definition direct_example :: "DirectAllocator list" where
  "direct_example = [\<lparr>dr_base = 4096, dr_allocations =
     \<lparr>da_size = 10000, da_pages = 8192\<rparr> # replicate 254 \<lparr>da_size = 0, da_pages = 0\<rparr>\<rparr>]"

definition direct_example_os :: os where
  "direct_example_os = \<lparr>os_clock = 1, os_pages = (\<lambda>g. 1 \<le> g \<and> g \<le> 4), os_mem = (\<lambda>x. of_nat x)\<rparr>"

lemma entry_regions_replicate [simp]: "entry_regions (replicate k \<lparr>da_size = n, da_pages = 0\<rparr>) = []"
  by (simp add: entry_regions_def)

lemma direct_example_state:
  "direct_inv direct_example direct_example_os" "direct_example \<noteq> []" "direct_live direct_example = {(8192, 10000)}"
  by (auto simp: direct_inv_def regions_def direct_example_def direct_example_os_def region_ok_def page_apart_def page_in_def direct_live_def)

text \<open>
  An allocation of any size from the direct allocator terminates without undefined
  behaviour and keeps the invariant. It either returns NULL and leaves the live blocks alone,
  or returns a new block of the size asked for, disjoint from every live block and zeroed;
  what was mapped stays mapped with its contents.
\<close>

theorem direct_allocate_correct:
  assumes "mmap_fresh pick" "direct_inv as w" "as \<noteq> []"
  shows "\<exists>q as' w'. direct_allocator_allocate pick n as w = Some (q, as', w') \<and> direct_inv as' w' \<and> os_extends w w' \<and>
    pairwise apart (direct_live as') \<and>
    (if q = 0 then direct_live as' = direct_live as
     else (q, n) \<notin> direct_live as \<and> direct_live as' = insert (q, n) (direct_live as) \<and> (\<forall>i < n. os_mem w' (q + i) = 0))"
  using direct_allocate_total [OF assms, of n] direct_pairwise by blast

theorem direct_allocate_correct_witness:
  "mmap_fresh bump_pick \<and> direct_inv direct_example direct_example_os \<and>
   (\<exists>q as' w'. direct_allocator_allocate bump_pick 9000 direct_example direct_example_os = Some (q, as', w') \<and>
      direct_inv as' w' \<and> pairwise apart (direct_live as'))"
  using direct_allocate_correct [OF bump_fresh direct_example_state(1,2), of 9000] bump_fresh direct_example_state(1) by blast

text \<open>
  C31. Reallocating a live block to a positive size terminates and keeps the invariant. A NULL
  result leaves every block and its contents as they were. Otherwise the new block is large
  enough, the contents are kept up to the smaller size, and no other block is touched:
  shrinking unmaps only pages the block no longer needs.
\<close>

theorem direct_reallocate_correct:
  assumes "mmap_fresh pick" "direct_inv as w" "as \<noteq> []" "(p, s) \<in> direct_live as" "0 < n"
  shows "\<exists>q as' w'. direct_allocator_reallocate pick p n as w = Some (q, as', w') \<and> direct_inv as' w' \<and>
    (if q = 0 then direct_live as' = direct_live as \<and> os_extends w w'
     else realloc_outcome (direct_live as) (direct_live as') p s n q (os_mem w) (os_mem w'))"
  using assms by (rule direct_reallocate_total)

theorem direct_reallocate_correct_witness:
  "mmap_fresh bump_pick \<and> direct_inv direct_example direct_example_os \<and> (8192, 10000) \<in> direct_live direct_example \<and>
   (\<exists>q as' w'. direct_allocator_reallocate bump_pick 8192 3000 direct_example direct_example_os = Some (q, as', w') \<and> direct_inv as' w')"
  using direct_reallocate_correct [OF bump_fresh direct_example_state(1,2), of 8192 10000 3000] bump_fresh direct_example_state(1,3)
  by auto

text \<open>
  Freeing NULL is not harmless. An entry whose block has been freed keeps its size and has a
  null pointer, so the search for NULL finds it, and the call unmaps every page of the address
  space below that stale size.
\<close>

theorem direct_free_null_unmaps:
  assumes "as \<noteq> []" "allocs as = us @ e # vs" "\<forall>x \<in> set us. da_pages x \<noteq> 0" "da_pages e = 0"
    "direct_allocator_deallocate pick 0 as w = (found, as', w')" "4096 * g < da_size e"
  shows "found \<and> \<not> os_pages w' g"
proof -
  have "e \<in> set (allocs as)" using assms(2) by simp
  then obtain ki where ki: "find_direct 0 as = Some ki" using find_direct_none [of 0 as] assms(4) by fastforce
  from find_direct_split [OF this] obtain us' f vs' where
    f: "at_entry as ki us' f vs'" "da_pages f = 0" "\<forall>x \<in> set us'. da_pages x \<noteq> 0" by blast
  then have "us' @ f # vs' = us @ e # vs" using assms(2) by (simp add: at_entry_def)
  then have "f = e" using f(2,3) assms(3,4) by (auto simp: append_eq_append_conv2 Cons_eq_append_conv append_eq_Cons_conv)
  then have w': "found" "w' = release_page 0 (da_size e) w"
    using assms(1,4,5) ki f(1) by (auto simp: direct_allocator_deallocate_def direct_allocator_def at_entry_def Let_def)
  have "g \<le> (da_size e - 1) div 4096" using assms(6) by (simp add: less_eq_div_iff_mult_less_eq)
  then show ?thesis using w' assms(6) by (simp add: release_page_def page_in_def)
qed

definition freed_example :: "DirectAllocator list" where
  "freed_example = fst (snd (direct_allocator_deallocate bump_pick 8192 direct_example direct_example_os))"

lemma freed_example_entries:
  "allocs freed_example = [] @ \<lparr>da_size = 10000, da_pages = 0\<rparr> # replicate 254 \<lparr>da_size = 0, da_pages = 0\<rparr>" "freed_example \<noteq> []"
  by (simp_all add: freed_example_def direct_allocator_deallocate_def direct_allocator_def direct_example_def ith_allocation_def
      put_allocation_def)

theorem direct_free_null_unmaps_witness:
  "fst (direct_allocator_deallocate bump_pick 0 freed_example direct_example_os) \<and>
   os_pages direct_example_os 1 \<and> \<not> os_pages (snd (snd (direct_allocator_deallocate bump_pick 0 freed_example direct_example_os))) 1"
proof -
  obtain found as' w' where r: "direct_allocator_deallocate bump_pick 0 freed_example direct_example_os = (found, as', w')" by (metis prod_cases3)
  moreover have "os_pages direct_example_os 1" by (simp add: direct_example_os_def)
  ultimately show ?thesis using direct_free_null_unmaps [OF freed_example_entries(2,1) _ _ r, of 1] by simp
qed

end
