(* ===== verification/Allocator.thy ===== *)
theory Allocator
  imports Buddy_Block Slot_Correct Direct_Allocator
begin

text \<open>
  \<open>task5-memory/src/allocator.c\<close>: the allocator the library exports. Small requests go to the
  buddy blocks, medium ones to the slot allocator and large ones to the direct allocator; all
  three draw pages from the same kernel. The invariant of the whole heap adds to the three
  component invariants that no page belongs to two of them, which is what makes the search of
  \<open>free_impl\<close> through the three allocators find the right one. A process starts without any of
  the three chains; each is created by the first call that needs it, also by a call of
  \<open>free_impl\<close>, which looks into all three.
\<close>

section \<open>The model\<close>

record heap =
  hp_blocks :: "BuddyBlock list"
  hp_slots :: "SlotAllocator list"
  hp_direct :: "DirectAllocator list"
  hp_os :: os

definition malloc_impl :: "picker \<Rightarrow> nat \<Rightarrow> heap \<Rightarrow> (nat \<times> heap) option" where
  "malloc_impl pick n H =
     (if n < SLOT_ALLOCATOR_THRESHOLD
      then map_option (\<lambda>(q, bs, w). (q, H\<lparr>hp_blocks := bs, hp_os := w\<rparr>)) (buddy_block_allocate pick n (hp_blocks H) (hp_os H))
      else if n < DIRECT_ALLOCATION_THRESHOLD
      then map_option (\<lambda>(q, ss, w). (q, H\<lparr>hp_slots := ss, hp_os := w\<rparr>)) (slot_allocator_allocate pick n (hp_slots H) (hp_os H))
      else map_option (\<lambda>(q, ds, w). (q, H\<lparr>hp_direct := ds, hp_os := w\<rparr>)) (direct_allocator_allocate pick n (hp_direct H) (hp_os H)))"

text \<open>\<open>memset\<close> through a null pointer has no result.\<close>

definition calloc_impl :: "picker \<Rightarrow> nat \<Rightarrow> nat \<Rightarrow> heap \<Rightarrow> (nat \<times> heap) option" where
  "calloc_impl pick cnt n H =
     Option.bind (malloc_impl pick (mul64 cnt n) H) (\<lambda>(pointer, H').
     if n < DIRECT_ALLOCATION_THRESHOLD
     then (if pointer = 0 then None
           else Some (pointer, H'\<lparr>hp_os := (hp_os H')\<lparr>os_mem := memset pointer 0 (mul64 cnt n) (os_mem (hp_os H'))\<rparr>\<rparr>))
     else Some (pointer, H'))"

definition free_impl :: "picker \<Rightarrow> nat \<Rightarrow> heap \<Rightarrow> heap option" where
  "free_impl pick pointer H =
     (case direct_allocator_deallocate pick pointer (hp_direct H) (hp_os H) of (found, ds, w) \<Rightarrow>
      let H1 = H\<lparr>hp_direct := ds, hp_os := w\<rparr> in
      if found then Some H1
      else
        Option.bind (slot_allocator_deallocate pick pointer (hp_slots H1) (hp_os H1)) (\<lambda>(found, ss, w).
        let H2 = H1\<lparr>hp_slots := ss, hp_os := w\<rparr> in
        if found then Some H2
        else map_option (\<lambda>(found, bs, w). H2\<lparr>hp_blocks := bs, hp_os := w\<rparr>)
               (buddy_block_deallocate pick pointer (hp_blocks H2) (hp_os H2))))"

definition realloc_impl :: "picker \<Rightarrow> nat \<Rightarrow> nat \<Rightarrow> heap \<Rightarrow> (nat \<times> heap) option" where
  "realloc_impl pick pointer n H =
     Option.bind (buddy_block_reallocate pick pointer n (hp_blocks H) (hp_os H)) (\<lambda>(insertion, current, bs, w).
     let H1 = H\<lparr>hp_blocks := bs, hp_os := w\<rparr> in
     if insertion \<noteq> 0 then Some (insertion, H1)
     else if current = 0
     then
       Option.bind (slot_allocator_reallocate pick pointer n (hp_slots H1) (hp_os H1)) (\<lambda>(q, ss, w).
       let H2 = H1\<lparr>hp_slots := ss, hp_os := w\<rparr> in
       if q \<noteq> 0 then Some (q, H2)
       else map_option (\<lambda>(q, ds, w). (q, H2\<lparr>hp_direct := ds, hp_os := w\<rparr>))
              (direct_allocator_reallocate pick pointer n (hp_direct H2) (hp_os H2)))
     else
       Option.bind (direct_allocator_allocate pick n (hp_direct H1) (hp_os H1)) (\<lambda>(q, ds, w).
       let H2 = H1\<lparr>hp_direct := ds, hp_os := w\<rparr> in
       if q = 0 then Some (0, H2)
       else
         Option.bind (memcpy q pointer current (os_mem w)) (\<lambda>h.
         map_option (\<lambda>(found, bs, w). (q, H2\<lparr>hp_blocks := bs, hp_os := w\<rparr>))
           (buddy_block_deallocate pick pointer (hp_blocks H2) (w\<lparr>os_mem := h\<rparr>)))))"

section \<open>Page ownership\<close>

definition bb_owns :: "BuddyBlock list \<Rightarrow> nat \<Rightarrow> bool" where
  "bb_owns bs g \<longleftrightarrow> (\<exists>p \<in> set (bb_pages bs). g = p div 4096)"

definition slot_owns :: "SlotAllocator list \<Rightarrow> nat \<Rightarrow> bool" where
  "slot_owns ss g \<longleftrightarrow> (\<exists>a \<in> set ss. page_in (sa_base a) SLOT_ALLOCATOR_SIZE g)"

definition direct_owns :: "DirectAllocator list \<Rightarrow> nat \<Rightarrow> bool" where
  "direct_owns ds g \<longleftrightarrow> (\<exists>r \<in> set (regions ds). page_in (fst r) (snd r) g)"

definition heap_inv :: "heap \<Rightarrow> bool" where
  "heap_inv H \<longleftrightarrow> bb_inv (hp_blocks H) (hp_os H) \<and> chain_ok (hp_slots H) (hp_os H) \<and> direct_inv (hp_direct H) (hp_os H) \<and>
     (\<forall>g. \<not> (bb_owns (hp_blocks H) g \<and> slot_owns (hp_slots H) g)) \<and>
     (\<forall>g. \<not> (bb_owns (hp_blocks H) g \<and> direct_owns (hp_direct H) g)) \<and>
     (\<forall>g. \<not> (slot_owns (hp_slots H) g \<and> direct_owns (hp_direct H) g))"

definition heap_live :: "heap \<Rightarrow> (nat \<times> nat) set" where
  "heap_live H = bb_live (hp_blocks H) \<union> chain_live (hp_slots H) \<union> direct_live (hp_direct H)"

lemma owns_mapped:
  "bb_inv bs w \<Longrightarrow> bb_owns bs g \<Longrightarrow> os_pages w g"
  "chain_ok ss w \<Longrightarrow> slot_owns ss g \<Longrightarrow> os_pages w g"
  "direct_inv ds w \<Longrightarrow> direct_owns ds g \<Longrightarrow> os_pages w g"
  by (auto simp: bb_inv_def bb_owns_def chain_ok_def area_mapped_def slot_owns_def direct_inv_def region_ok_def direct_owns_def)

text \<open>The pages of a block handed out belong to the allocator it came from.\<close>

lemma page_of_region: "in_region q m x \<Longrightarrow> page_in q m (x div 4096)"
  using div_le_mono [of q x 4096] div_le_mono [of x "q + m - 1" 4096] by (auto simp: in_region_def page_in_def)

lemma page_in_region:
  assumes "page_in q m g" "a \<le> q" "q + m \<le> a + k"
  shows "page_in a k g"
proof -
  have "a div 4096 \<le> q div 4096" "(q + m - 1) div 4096 \<le> (a + k - 1) div 4096" using assms by (auto intro!: div_le_mono)
  then show ?thesis using assms by (auto simp: page_in_def)
qed

lemma bb_live_owned:
  assumes "bb_inv bs w" "(q, m) \<in> bb_live bs" "page_in q m g"
  shows "bb_owns bs g"
proof -
  obtain a where a: "a \<in> set (entries bs)" "(q, m) \<in> live a" using assms(2) by (auto simp: bb_live_def entries_live_def)
  then have ok: "entry_ok a" using assms(1) by (simp add: bb_inv_def)
  note l = entry_live_in_page [OF ok a(2)]
  have "page_in (page a) 4096 g" by (rule page_in_region [OF assms(3) l(2,3)])
  then have "g = page a div 4096" using page_in_one [of "page a"] ok by (simp add: entry_ok_def)
  moreover have "page a \<in> set (bb_pages bs)" using a(1) l(1) by (simp add: bb_pages_def)
  ultimately show ?thesis by (auto simp: bb_owns_def)
qed

lemma slot_live_owned:
  assumes "chain_ok ss w" "(q, m) \<in> chain_live ss" "page_in q m g"
  shows "slot_owns ss g"
proof -
  obtain a where a: "a \<in> set ss" "(q, m) \<in> area_live a" using assms(2) by (auto simp: chain_live_def)
  then have "area_ok a" using assms(1) by (simp add: chain_ok_def)
  note l = area_live_in_region [OF this a(2)]
  have "page_in (sa_base a) SLOT_ALLOCATOR_SIZE g" using page_in_region [OF assms(3) _ l(2)] l(1) by simp
  then show ?thesis using a(1) by (auto simp: slot_owns_def)
qed

lemma direct_live_owned: "(q, m) \<in> direct_live ds \<Longrightarrow> page_in q m g \<Longrightarrow> direct_owns ds g"
  by (force simp: direct_owns_def direct_live_def regions_def)

text \<open>Regions with no page in common have no byte in common.\<close>

lemma owners_apart:
  assumes "\<And>g. page_in q m g \<Longrightarrow> P g" "\<And>g. page_in q' m' g \<Longrightarrow> Q g" "\<forall>g. \<not> (P g \<and> Q g)" "0 < m" "0 < m'"
  shows "apart (q, m) (q', m')"
  using overlap_shares_page [of q m q' m'] assms by blast

lemma bb_live_sized: "bb_inv bs w \<Longrightarrow> (q, m) \<in> bb_live bs \<Longrightarrow> 0 < m"
  using entry_live_in_page(4) unfolding bb_inv_def bb_live_def entries_live_def by blast

lemma slot_live_sized: "chain_ok ss w \<Longrightarrow> (q, m) \<in> chain_live ss \<Longrightarrow> 0 < m"
  using area_live_in_region(3) unfolding chain_ok_def chain_live_def by blast

lemma direct_live_sized: "direct_inv ds w \<Longrightarrow> (q, m) \<in> direct_live ds \<Longrightarrow> 0 < m"
  using direct_live_ok [of ds w "(q, m)"] by (simp add: region_ok_def)

lemmas live_sized_lemmas = bb_live_sized slot_live_sized direct_live_sized

lemma heap_live_sized: "heap_inv H \<Longrightarrow> (q, m) \<in> heap_live H \<Longrightarrow> 0 < m"
  unfolding heap_inv_def heap_live_def using live_sized_lemmas by blast

lemma heap_live_apart:
  assumes "heap_inv H" "r \<in> heap_live H" "r' \<in> heap_live H" "r \<noteq> r'"
  shows "apart r r'"
proof -
  obtain q m q' m' where r: "r = (q, m)" "r' = (q', m')" by (metis surj_pair)
  have i: "bb_inv (hp_blocks H) (hp_os H)" "chain_ok (hp_slots H) (hp_os H)" "direct_inv (hp_direct H) (hp_os H)"
    "\<forall>g. \<not> (bb_owns (hp_blocks H) g \<and> slot_owns (hp_slots H) g)"
    "\<forall>g. \<not> (bb_owns (hp_blocks H) g \<and> direct_owns (hp_direct H) g)"
    "\<forall>g. \<not> (slot_owns (hp_slots H) g \<and> direct_owns (hp_direct H) g)"
    using assms(1) unfolding heap_inv_def by blast+
  have z: "0 < m" "0 < m'" using heap_live_sized [OF assms(1)] assms(2,3) r by blast+
  have own: "(q, m) \<in> bb_live (hp_blocks H) \<Longrightarrow> page_in q m g \<Longrightarrow> bb_owns (hp_blocks H) g"
    "(q, m) \<in> chain_live (hp_slots H) \<Longrightarrow> page_in q m g \<Longrightarrow> slot_owns (hp_slots H) g"
    "(q, m) \<in> direct_live (hp_direct H) \<Longrightarrow> page_in q m g \<Longrightarrow> direct_owns (hp_direct H) g" for q m g
    using bb_live_owned [OF i(1)] slot_live_owned [OF i(2)] direct_live_owned by blast+
  have pair: "(q, m) \<in> bb_live (hp_blocks H) \<Longrightarrow> (q', m') \<in> chain_live (hp_slots H) \<Longrightarrow> 0 < m \<Longrightarrow> 0 < m' \<Longrightarrow> apart (q, m) (q', m')"
    "(q, m) \<in> bb_live (hp_blocks H) \<Longrightarrow> (q', m') \<in> direct_live (hp_direct H) \<Longrightarrow> 0 < m \<Longrightarrow> 0 < m' \<Longrightarrow> apart (q, m) (q', m')"
    "(q, m) \<in> chain_live (hp_slots H) \<Longrightarrow> (q', m') \<in> direct_live (hp_direct H) \<Longrightarrow> 0 < m \<Longrightarrow> 0 < m' \<Longrightarrow> apart (q, m) (q', m')"
    for q m q' m'
    by (rule owners_apart [OF own(1) own(2) i(4)], assumption+) (rule owners_apart [OF own(1) own(3) i(5)], assumption+,
        rule owners_apart [OF own(2) own(3) i(6)], assumption+)
  consider "r \<in> bb_live (hp_blocks H)" "r' \<in> bb_live (hp_blocks H)" | "r \<in> chain_live (hp_slots H)" "r' \<in> chain_live (hp_slots H)"
    | "r \<in> direct_live (hp_direct H)" "r' \<in> direct_live (hp_direct H)"
    | "apart r r'"
    using assms(2,3) pair [of q m q' m'] pair [of q' m' q m] z apart_sym [of r r'] unfolding heap_live_def r by blast
  then show ?thesis
    using bb_live_apart [OF i(1)] chain_live_apart [OF i(2)] direct_live_apart [OF i(3)] assms(4) by cases blast+
qed

section \<open>New pages were unmapped before\<close>

lemma grown_fresh:
  assumes "mmap_fresh pick" "grown pick bs w bs' w'" "bb_owns bs' g"
  shows "bb_owns bs g \<or> \<not> os_pages w g"
  using assms(2) unfolding grown_def
proof (elim disjE exE conjE)
  fix p assume p: "p \<noteq> 0" "request_page pick 4096 w = (p, w')" "bs' = bs @ [zero_block p]"
  have "set (bb_pages bs') = insert p (set (bb_pages bs))" unfolding p(3) bb_pages_grown by (auto simp: bb_pages_def)
  then show ?thesis using assms(3) request_page_one(2) [OF assms(1) p(2,1)] by (auto simp: bb_owns_def)
qed (use assms(3) in simp)

lemma blocks_alloc_fresh:
  assumes "mmap_fresh pick" "blocks_alloc pick n bs w q bs' w'" "bb_owns bs' g"
  shows "bb_owns bs g \<or> \<not> os_pages w g"
  using assms(2) unfolding blocks_alloc_def
proof (elim disjE exE conjE)
  fix us a a' vs assume e: "entries bs = us @ a # vs" "entries bs' = us @ a' # vs" "map bb_base bs' = map bb_base bs"
    and al: "entry_alloc pick n w a q a' w'"
  then have sub: "set (bb_pages bs') \<subseteq> insert (page a') (set (bb_pages bs))"
    "page a \<noteq> 0 \<Longrightarrow> page a \<in> set (bb_pages bs)" by (auto simp: bb_pages_def)
  show ?thesis
  proof (cases "page a = 0")
    case True
    then have "request_page pick 4096 w = (page a', w')" "page a' \<noteq> 0" using al by (simp_all add: entry_alloc_def)
    from request_page_one(2) [OF assms(1) this] show ?thesis using sub(1) assms(3) unfolding bb_owns_def by blast
  next
    case False
    then have "page a' = page a" using al by (simp add: entry_alloc_def)
    then show ?thesis using sub False assms(3) unfolding bb_owns_def by auto
  qed
qed (use assms(3) in simp)

lemma bb_allocate_fresh:
  assumes "mmap_fresh pick" "0 < n" "n \<le> 4096" "bs \<noteq> []" "bb_inv bs w" "buddy_block_allocate pick n bs w = Some (q, bs', w')"
    "bb_owns bs' g"
  shows "bb_owns bs g \<or> \<not> os_pages w g"
proof -
  have ok: "\<forall>a \<in> set (entries bs). entry_ok a" using assms(5) unfolding bb_inv_def by blast
  from allocate_blocks_total [OF assms(1-4) ok, of w] obtain q1 bs1 w1 bs0 w0 where
    r: "allocate_blocks pick n bs w = Some (q1, bs1, w1)" "grown pick bs w bs0 w0" "blocks_alloc pick n bs0 w0 q1 bs1 w1" by blast
  have "bs1 = bs'" using r(1) assms(4,6) by (simp add: buddy_block_allocate_def buddy_block_def)
  then have "bb_owns bs0 g \<or> \<not> os_pages w0 g" using blocks_alloc_fresh [OF assms(1) r(3)] assms(7) by simp
  moreover have "os_pages w g \<Longrightarrow> os_pages w0 g" using grown_inv(3) [OF assms(1) r(2) assms(5)] by (simp add: os_extends_def)
  ultimately show ?thesis using grown_fresh [OF assms(1) r(2)] by blast
qed

lemma slot_owns_bases: "map sa_base ss' = map sa_base ss \<Longrightarrow> slot_owns ss' g = slot_owns ss g"
proof -
  assume "map sa_base ss' = map sa_base ss"
  then have "sa_base ` set ss' = sa_base ` set ss" by (metis list.set_map)
  moreover have "slot_owns as g \<longleftrightarrow> (\<exists>b \<in> sa_base ` set as. page_in b SLOT_ALLOCATOR_SIZE g)" for as
    by (simp add: slot_owns_def)
  ultimately show ?thesis by (simp only:)
qed

lemma chain_grown_fresh:
  assumes "mmap_fresh pick" "chain_grown pick ss w ss' w'" "slot_owns ss' g"
  shows "slot_owns ss g \<or> \<not> os_pages w g"
  using assms(2) unfolding chain_grown_def
proof (elim disjE exE conjE)
  fix p assume p: "p \<noteq> 0" "request_page pick SLOT_ALLOCATOR_SIZE w = (p, w')" "ss' = ss @ [fresh_area p]"
  show ?thesis using assms(3) request_page_fresh(3) [OF assms(1) p(2,1)] by (auto simp: slot_owns_def p(3) fresh_area_def)
qed (use assms(3) in simp_all)

lemma slot_allocate_fresh:
  assumes "mmap_fresh pick" "n \<le> 130928" "ss \<noteq> []" "chain_ok ss w" "slot_allocator_allocate pick n ss w = Some (q, ss', w')"
    "slot_owns ss' g"
  shows "slot_owns ss g \<or> \<not> os_pages w g"
proof -
  note req = required_slots_bounds [OF assms(2)]
  have ok: "\<forall>a \<in> set ss. area_ok a" using assms(4) by (simp add: chain_ok_def)
  from allocate_chain_total [OF req(1,2) assms(3) ok, of pick w] obtain q1 ss1 w1 ss0 where
    r: "allocate_chain pick (required_slots n) ss w = Some (q1, ss1, w1)" "chain_grown pick ss w ss0 w1"
      "served (required_slots n) ss0 q1 ss1" by blast
  have "ss1 = ss'" using r(1) assms(3,5) by (simp add: slot_allocator_allocate_def slot_allocator_def)
  then have "slot_owns ss0 g" using r(3) assms(6) slot_owns_bases [of ss' ss0] by (simp add: served_def)
  then show ?thesis by (rule chain_grown_fresh [OF assms(1) r(2)])
qed

lemma direct_owns_eq: "direct_owns ds g \<longleftrightarrow> (\<exists>b \<in> dr_base ` set ds. page_in b 4096 g) \<or>
    (\<exists>e \<in> set (allocs ds). da_pages e \<noteq> 0 \<and> page_in (da_pages e) (da_size e) g)"
  by (auto simp: direct_owns_def regions_def entry_regions_def bex_Un)

lemma direct_grown_fresh:
  assumes "mmap_fresh pick" "direct_grown pick ds w ds' w'" "direct_owns ds' g"
  shows "direct_owns ds g \<or> \<not> os_pages w g"
  using assms(2) unfolding direct_grown_def
proof (elim disjE exE conjE)
  fix p assume p: "p \<noteq> 0" "request_page pick 4096 w = (p, w')" "ds' = ds @ [zero_direct p]"
  show ?thesis using assms(3) request_page_fresh(3) [OF assms(1) p(2,1)]
    by (auto simp: direct_owns_eq p(3) zero_direct_def)
qed (use assms(3) in simp)

lemma direct_filled_fresh:
  assumes "mmap_fresh pick" "direct_filled pick n ds w q ds' w'" "direct_owns ds' g"
  shows "direct_owns ds g \<or> \<not> os_pages w g"
proof -
  obtain us e vs where f: "allocs ds = us @ e # vs" "allocs ds' = us @ \<lparr>da_size = n, da_pages = q\<rparr> # vs"
    "map dr_base ds' = map dr_base ds" "request_page pick n w = (q, w')" using assms(2) by (auto simp: direct_filled_def)
  have b: "dr_base ` set ds' = dr_base ` set ds" using f(3) by (metis list.set_map)
  show ?thesis using assms(3) request_page_fresh(3) [OF assms(1) f(4)] unfolding direct_owns_eq b f(1,2) by auto
qed

lemma direct_allocate_fresh:
  assumes "mmap_fresh pick" "ds \<noteq> []" "direct_inv ds w" "direct_allocator_allocate pick n ds w = Some (q, ds', w')" "direct_owns ds' g"
  shows "direct_owns ds g \<or> \<not> os_pages w g"
proof -
  from direct_chain_total [OF assms(2), of pick n w] obtain q1 ds1 w1 ds0 w0 where
    r: "direct_chain pick n ds w = Some (q1, ds1, w1)" "direct_grown pick ds w ds0 w0"
      "direct_filled pick n ds0 w0 q1 ds1 w1 \<or> q1 = 0 \<and> ds1 = ds0 \<and> request_page pick 4096 w0 = (0, w1)" by blast
  have "ds1 = ds'" using r(1) assms(2,4) by (simp add: direct_allocator_allocate_def direct_allocator_def)
  then have "direct_owns ds0 g \<or> \<not> os_pages w0 g" using direct_filled_fresh [OF assms(1)] r(3) assms(5) by blast
  moreover have "os_pages w g \<Longrightarrow> os_pages w0 g"
    using direct_grown_inv(3) [OF assms(1) r(2) assms(3)] by (simp add: os_extends_def)
  ultimately show ?thesis using direct_grown_fresh [OF assms(1) r(2)] by blast
qed

section \<open>Allocation\<close>

lemma heap_invD:
  assumes "heap_inv H"
  shows "bb_inv (hp_blocks H) (hp_os H)" "chain_ok (hp_slots H) (hp_os H)" "direct_inv (hp_direct H) (hp_os H)"
    "bb_owns (hp_blocks H) g \<Longrightarrow> \<not> slot_owns (hp_slots H) g" "bb_owns (hp_blocks H) g \<Longrightarrow> \<not> direct_owns (hp_direct H) g"
    "slot_owns (hp_slots H) g \<Longrightarrow> \<not> direct_owns (hp_direct H) g"
  using assms unfolding heap_inv_def by blast+

lemma heap_live_mapped:
  assumes "heap_inv H" "(p, s) \<in> heap_live H" "i < s"
  shows "os_pages (hp_os H) ((p + i) div 4096)"
proof -
  note h = heap_invD [OF assms(1)]
  have "page_in p s ((p + i) div 4096)" using assms(3) by (intro page_of_region) (simp add: in_region_def)
  then show ?thesis using assms(2) bb_live_owned [OF h(1)] slot_live_owned [OF h(2)] direct_live_owned
      owns_mapped(1) [OF h(1)] owns_mapped(2) [OF h(2)] owns_mapped(3) [OF h(3)] unfolding heap_live_def by blast
qed

lemma heap_blocks_step:
  assumes "heap_inv H" "bb_inv bs w" "os_extends (hp_os H) w" "\<And>g. bb_owns bs g \<Longrightarrow> bb_owns (hp_blocks H) g \<or> \<not> os_pages (hp_os H) g"
  shows "heap_inv (H\<lparr>hp_blocks := bs, hp_os := w\<rparr>)"
proof -
  note h = heap_invD [OF assms(1)]
  have "\<not> (bb_owns bs g \<and> slot_owns (hp_slots H) g)" "\<not> (bb_owns bs g \<and> direct_owns (hp_direct H) g)" for g
    using assms(4) h(4,5) owns_mapped(2) [OF h(2)] owns_mapped(3) [OF h(3)] by blast+
  moreover have "chain_ok (hp_slots H) w" "direct_inv (hp_direct H) w"
    using chain_ok_extends [OF h(2) assms(3)] direct_inv_extends [OF h(3) assms(3)] by blast+
  ultimately show ?thesis unfolding heap_inv_def using assms(2) h(6) by simp
qed

lemma heap_slots_step:
  assumes "heap_inv H" "chain_ok ss w" "os_extends (hp_os H) w" "\<And>g. slot_owns ss g \<Longrightarrow> slot_owns (hp_slots H) g \<or> \<not> os_pages (hp_os H) g"
  shows "heap_inv (H\<lparr>hp_slots := ss, hp_os := w\<rparr>)"
proof -
  note h = heap_invD [OF assms(1)]
  have "\<not> (bb_owns (hp_blocks H) g \<and> slot_owns ss g)" "\<not> (slot_owns ss g \<and> direct_owns (hp_direct H) g)" for g
    using assms(4) h(4,6) owns_mapped(1) [OF h(1)] owns_mapped(3) [OF h(3)] by blast+
  moreover have "bb_inv (hp_blocks H) w" "direct_inv (hp_direct H) w"
    using bb_inv_extends [OF h(1) assms(3)] direct_inv_extends [OF h(3) assms(3)] by blast+
  ultimately show ?thesis unfolding heap_inv_def using assms(2) h(5) by simp
qed

lemma heap_direct_step:
  assumes "heap_inv H" "direct_inv ds w" "os_extends (hp_os H) w" "\<And>g. direct_owns ds g \<Longrightarrow> direct_owns (hp_direct H) g \<or> \<not> os_pages (hp_os H) g"
  shows "heap_inv (H\<lparr>hp_direct := ds, hp_os := w\<rparr>)"
proof -
  note h = heap_invD [OF assms(1)]
  have "\<not> (bb_owns (hp_blocks H) g \<and> direct_owns ds g)" "\<not> (slot_owns (hp_slots H) g \<and> direct_owns ds g)" for g
    using assms(4) h(5,6) owns_mapped(1) [OF h(1)] owns_mapped(2) [OF h(2)] by blast+
  moreover have "bb_inv (hp_blocks H) w" "chain_ok (hp_slots H) w"
    using bb_inv_extends [OF h(1) assms(3)] chain_ok_extends [OF h(2) assms(3)] by blast+
  ultimately show ?thesis unfolding heap_inv_def using assms(2) h(4) by simp
qed

lemma region_first_page: "0 < m \<Longrightarrow> page_in q m (q div 4096)"
  by (intro page_of_region) (simp add: in_region_def)

lemma heap_live_disjoint:
  assumes "heap_inv H"
  shows "bb_live (hp_blocks H) \<inter> chain_live (hp_slots H) = {}" "bb_live (hp_blocks H) \<inter> direct_live (hp_direct H) = {}"
    "chain_live (hp_slots H) \<inter> direct_live (hp_direct H) = {}"
proof -
  note h = heap_invD [OF assms]
  have own: "(q, m) \<in> bb_live (hp_blocks H) \<Longrightarrow> bb_owns (hp_blocks H) (q div 4096)"
    "(q, m) \<in> chain_live (hp_slots H) \<Longrightarrow> slot_owns (hp_slots H) (q div 4096)"
    "(q, m) \<in> direct_live (hp_direct H) \<Longrightarrow> direct_owns (hp_direct H) (q div 4096)" for q m
    by (rule bb_live_owned [OF h(1) _ region_first_page [OF bb_live_sized [OF h(1)]]], assumption+)
      (rule slot_live_owned [OF h(2) _ region_first_page [OF slot_live_sized [OF h(2)]]], assumption+,
        rule direct_live_owned [OF _ region_first_page [OF direct_live_sized [OF h(3)]]], assumption+)
  show "bb_live (hp_blocks H) \<inter> chain_live (hp_slots H) = {}" "bb_live (hp_blocks H) \<inter> direct_live (hp_direct H) = {}"
    "chain_live (hp_slots H) \<inter> direct_live (hp_direct H) = {}" using own h(4-6) by fast+
qed

definition malloc_outcome :: "(nat \<times> nat) set \<Rightarrow> (nat \<times> nat) set \<Rightarrow> nat \<Rightarrow> nat \<Rightarrow> bool" where
  "malloc_outcome L L' n q \<longleftrightarrow> (if q = 0 then L' = L else \<exists>m \<ge> n. (q, m) \<notin> L \<and> L' = insert (q, m) L)"

lemma malloc_outcome_frame:
  assumes "malloc_outcome L L' n q" "L' \<inter> M = {}"
  shows "malloc_outcome (L \<union> M) (L' \<union> M) n q"
proof (cases "q = 0")
  case False
  then obtain m where "m \<ge> n" "(q, m) \<notin> L" "L' = insert (q, m) L" using assms(1) by (auto simp: malloc_outcome_def)
  then have "m \<ge> n \<and> (q, m) \<notin> L \<union> M \<and> L' \<union> M = insert (q, m) (L \<union> M)" using assms(2) by blast
  then show ?thesis unfolding malloc_outcome_def if_not_P [OF False] by blast
qed (use assms(1) in \<open>simp add: malloc_outcome_def\<close>)

lemma malloc_small:
  assumes "mmap_fresh pick" "heap_inv H" "0 < n" "n < 500" "hp_blocks H \<noteq> []"
  shows "\<exists>q H'. malloc_impl pick n H = Some (q, H') \<and> heap_inv H' \<and> os_extends (hp_os H) (hp_os H') \<and>
    malloc_outcome (heap_live H) (heap_live H') n q"
proof -
  note h = heap_invD [OF assms(2)]
  have n: "n \<le> 4096" using assms(4) by simp
  from bb_allocate_total [OF assms(1,3) n assms(5) h(1)] obtain q bs w where
    r: "buddy_block_allocate pick n (hp_blocks H) (hp_os H) = Some (q, bs, w)" "bb_inv bs w" "bs \<noteq> []" "os_extends (hp_os H) w"
    and o: "malloc_outcome (bb_live (hp_blocks H)) (bb_live bs) n q" unfolding malloc_outcome_def by blast
  let ?H = "H\<lparr>hp_blocks := bs, hp_os := w\<rparr>"
  have i: "heap_inv ?H"
    by (rule heap_blocks_step [OF assms(2) r(2,4)]) (rule bb_allocate_fresh [OF assms(1,3) n assms(5) h(1) r(1)])
  have "bb_live bs \<inter> (chain_live (hp_slots H) \<union> direct_live (hp_direct H)) = {}" using heap_live_disjoint(1,2) [OF i] by auto
  from malloc_outcome_frame [OF o this] have "malloc_outcome (heap_live H) (heap_live ?H) n q" by (simp add: heap_live_def Un_assoc)
  moreover have "malloc_impl pick n H = Some (q, ?H)" using assms(4) r(1) by (simp add: malloc_impl_def config_defs)
  moreover have "os_extends (hp_os H) (hp_os ?H)" using r(4) by simp
  ultimately show ?thesis using i by blast
qed

lemma malloc_medium:
  assumes "mmap_fresh pick" "heap_inv H" "500 \<le> n" "n < 8192" "hp_slots H \<noteq> []"
  shows "\<exists>q H'. malloc_impl pick n H = Some (q, H') \<and> heap_inv H' \<and> os_extends (hp_os H) (hp_os H') \<and>
    malloc_outcome (heap_live H) (heap_live H') n q"
proof -
  note h = heap_invD [OF assms(2)]
  have n: "n \<le> 130928" using assms(4) by simp
  from slot_allocate_total [OF assms(1) n assms(5) h(2)] obtain q ss w where
    r: "slot_allocator_allocate pick n (hp_slots H) (hp_os H) = Some (q, ss, w)" "chain_ok ss w" "ss \<noteq> []" "os_extends (hp_os H) w"
    "if q = 0 then chain_live ss = chain_live (hp_slots H)
     else (q, required_slots n * SLOT_SIZE - sizeof_Slot) \<notin> chain_live (hp_slots H) \<and>
       chain_live ss = insert (q, required_slots n * SLOT_SIZE - sizeof_Slot) (chain_live (hp_slots H))" by blast
  have o: "malloc_outcome (chain_live (hp_slots H)) (chain_live ss) n q"
    using r(5) required_slots_bounds(3) [OF n] unfolding malloc_outcome_def by auto
  let ?H = "H\<lparr>hp_slots := ss, hp_os := w\<rparr>"
  have i: "heap_inv ?H"
    by (rule heap_slots_step [OF assms(2) r(2,4)]) (rule slot_allocate_fresh [OF assms(1) n assms(5) h(2) r(1)])
  have "chain_live ss \<inter> (bb_live (hp_blocks H) \<union> direct_live (hp_direct H)) = {}" using heap_live_disjoint(1,3) [OF i] by auto
  from malloc_outcome_frame [OF o this] have "malloc_outcome (heap_live H) (heap_live ?H) n q"
    by (simp add: heap_live_def Un_assoc Un_left_commute)
  moreover have "malloc_impl pick n H = Some (q, ?H)" using assms(3,4) r(1) by (simp add: malloc_impl_def config_defs)
  moreover have "os_extends (hp_os H) (hp_os ?H)" using r(4) by simp
  ultimately show ?thesis using i by blast
qed

lemma malloc_large:
  assumes "mmap_fresh pick" "heap_inv H" "8192 \<le> n" "hp_direct H \<noteq> []"
  shows "\<exists>q H'. malloc_impl pick n H = Some (q, H') \<and> heap_inv H' \<and> os_extends (hp_os H) (hp_os H') \<and>
    malloc_outcome (heap_live H) (heap_live H') n q \<and> (q \<noteq> 0 \<longrightarrow> (\<forall>i < n. os_mem (hp_os H') (q + i) = 0))"
proof -
  note h = heap_invD [OF assms(2)]
  from direct_allocate_total [OF assms(1) h(3) assms(4), of n] obtain q ds w where
    r: "direct_allocator_allocate pick n (hp_direct H) (hp_os H) = Some (q, ds, w)" "direct_inv ds w" "ds \<noteq> []" "os_extends (hp_os H) w"
    "if q = 0 then direct_live ds = direct_live (hp_direct H)
     else (q, n) \<notin> direct_live (hp_direct H) \<and> direct_live ds = insert (q, n) (direct_live (hp_direct H)) \<and>
       (\<forall>i < n. os_mem w (q + i) = 0)" by blast
  have o: "malloc_outcome (direct_live (hp_direct H)) (direct_live ds) n q" using r(5) unfolding malloc_outcome_def by auto
  let ?H = "H\<lparr>hp_direct := ds, hp_os := w\<rparr>"
  have i: "heap_inv ?H"
    by (rule heap_direct_step [OF assms(2) r(2,4)]) (rule direct_allocate_fresh [OF assms(1) assms(4) h(3) r(1)])
  have "direct_live ds \<inter> (bb_live (hp_blocks H) \<union> chain_live (hp_slots H)) = {}" using heap_live_disjoint(2,3) [OF i] by auto
  from malloc_outcome_frame [OF o this] have "malloc_outcome (heap_live H) (heap_live ?H) n q"
    by (simp add: heap_live_def Un_commute)
  moreover have "malloc_impl pick n H = Some (q, ?H)" using assms(3) r(1) by (simp add: malloc_impl_def config_defs)
  moreover have "os_extends (hp_os H) (hp_os ?H)" "q \<noteq> 0 \<longrightarrow> (\<forall>i < n. os_mem (hp_os ?H) (q + i) = 0)" using r(4,5) by auto
  ultimately show ?thesis using i by blast
qed

section \<open>First use\<close>

text \<open>The chain of a component after the accessor that creates it.\<close>

lemma blocks_start:
  assumes "mmap_fresh pick" "heap_inv H" "buddy_block pick (hp_blocks H) (hp_os H) = (bs, w)"
  shows "heap_inv (H\<lparr>hp_blocks := bs, hp_os := w\<rparr>)" "bb_live bs = bb_live (hp_blocks H)" "os_extends (hp_os H) w"
    "bs = [] \<longleftrightarrow> hp_blocks H = [] \<and> fst (request_page pick 4096 (hp_os H)) = 0"
proof -
  note h = heap_invD [OF assms(2)]
  consider (grown) "grown pick (hp_blocks H) (hp_os H) bs w" "bs \<noteq> []" "hp_blocks H \<noteq> [] \<or> fst (request_page pick 4096 (hp_os H)) \<noteq> 0"
    | (refused) "hp_blocks H = []" "bs = []" "request_page pick 4096 (hp_os H) = (0, w)"
    using assms(3) by (auto simp: buddy_block_def grown_def config_defs split: if_splits prod.splits)
  then have "heap_inv (H\<lparr>hp_blocks := bs, hp_os := w\<rparr>) \<and> bb_live bs = bb_live (hp_blocks H) \<and> os_extends (hp_os H) w \<and>
    (bs = [] \<longleftrightarrow> hp_blocks H = [] \<and> fst (request_page pick 4096 (hp_os H)) = 0)"
  proof cases
    case grown
    note g = grown_inv [OF assms(1) grown(1) h(1)]
    have "heap_inv (H\<lparr>hp_blocks := bs, hp_os := w\<rparr>)"
      by (rule heap_blocks_step [OF assms(2) g(1,3)]) (rule grown_fresh [OF assms(1) grown(1)])
    then show ?thesis using g grown(2,3) by blast
  next
    case refused
    have x: "os_extends (hp_os H) w" by (rule request_page_extends [OF assms(1) refused(3)])
    have "heap_inv (H\<lparr>hp_blocks := bs, hp_os := w\<rparr>)"
      by (rule heap_blocks_step [OF assms(2) _ x]) (use h(1) bb_inv_extends [OF h(1) x] refused in simp_all)
    then show ?thesis using x refused by simp
  qed
  then show "heap_inv (H\<lparr>hp_blocks := bs, hp_os := w\<rparr>)" "bb_live bs = bb_live (hp_blocks H)" "os_extends (hp_os H) w"
    "bs = [] \<longleftrightarrow> hp_blocks H = [] \<and> fst (request_page pick 4096 (hp_os H)) = 0" by blast+
qed

lemma slots_start:
  assumes "mmap_fresh pick" "heap_inv H" "slot_allocator pick (hp_slots H) (hp_os H) = (ss, w)"
  shows "heap_inv (H\<lparr>hp_slots := ss, hp_os := w\<rparr>)" "chain_live ss = chain_live (hp_slots H)" "os_extends (hp_os H) w"
    "ss = [] \<longleftrightarrow> hp_slots H = [] \<and> fst (request_page pick SLOT_ALLOCATOR_SIZE (hp_os H)) = 0"
proof -
  note h = heap_invD [OF assms(2)]
  consider (grown) "chain_grown pick (hp_slots H) (hp_os H) ss w" "ss \<noteq> []" "hp_slots H \<noteq> [] \<or> fst (request_page pick SLOT_ALLOCATOR_SIZE (hp_os H)) \<noteq> 0"
    | (refused) "hp_slots H = []" "ss = []" "request_page pick SLOT_ALLOCATOR_SIZE (hp_os H) = (0, w)"
    using assms(3) by (auto simp: slot_allocator_def create_fresh chain_grown_def split: if_splits prod.splits)
  then have "heap_inv (H\<lparr>hp_slots := ss, hp_os := w\<rparr>) \<and> chain_live ss = chain_live (hp_slots H) \<and> os_extends (hp_os H) w \<and>
    (ss = [] \<longleftrightarrow> hp_slots H = [] \<and> fst (request_page pick SLOT_ALLOCATOR_SIZE (hp_os H)) = 0)"
  proof cases
    case grown
    note g = chain_grown_ok [OF assms(1) grown(1) h(2)]
    have "heap_inv (H\<lparr>hp_slots := ss, hp_os := w\<rparr>)"
      by (rule heap_slots_step [OF assms(2)]) (use g chain_grown_fresh [OF assms(1) grown(1)] in blast)+
    then show ?thesis using g grown(2,3) by blast
  next
    case refused
    have x: "os_extends (hp_os H) w" by (rule request_page_extends [OF assms(1) refused(3)])
    have "heap_inv (H\<lparr>hp_slots := ss, hp_os := w\<rparr>)"
      by (rule heap_slots_step [OF assms(2) _ x]) (use chain_ok_extends [OF h(2) x] refused in simp_all)
    then show ?thesis using x refused by simp
  qed
  then show "heap_inv (H\<lparr>hp_slots := ss, hp_os := w\<rparr>)" "chain_live ss = chain_live (hp_slots H)" "os_extends (hp_os H) w"
    "ss = [] \<longleftrightarrow> hp_slots H = [] \<and> fst (request_page pick SLOT_ALLOCATOR_SIZE (hp_os H)) = 0" by blast+
qed

lemma direct_start:
  assumes "mmap_fresh pick" "heap_inv H" "direct_allocator pick (hp_direct H) (hp_os H) = (ds, w)"
  shows "heap_inv (H\<lparr>hp_direct := ds, hp_os := w\<rparr>)" "direct_live ds = direct_live (hp_direct H)" "os_extends (hp_os H) w"
    "ds = [] \<longleftrightarrow> hp_direct H = [] \<and> fst (request_page pick 4096 (hp_os H)) = 0"
proof -
  note h = heap_invD [OF assms(2)]
  consider (grown) "direct_grown pick (hp_direct H) (hp_os H) ds w" "ds \<noteq> []" "hp_direct H \<noteq> [] \<or> fst (request_page pick 4096 (hp_os H)) \<noteq> 0"
    | (refused) "hp_direct H = []" "ds = []" "request_page pick 4096 (hp_os H) = (0, w)"
    using assms(3) by (auto simp: direct_allocator_def direct_grown_def config_defs split: if_splits prod.splits)
  then have "heap_inv (H\<lparr>hp_direct := ds, hp_os := w\<rparr>) \<and> direct_live ds = direct_live (hp_direct H) \<and> os_extends (hp_os H) w \<and>
    (ds = [] \<longleftrightarrow> hp_direct H = [] \<and> fst (request_page pick 4096 (hp_os H)) = 0)"
  proof cases
    case grown
    note g = direct_grown_inv [OF assms(1) grown(1) h(3)]
    have "heap_inv (H\<lparr>hp_direct := ds, hp_os := w\<rparr>)"
      by (rule heap_direct_step [OF assms(2) g(1,3)]) (rule direct_grown_fresh [OF assms(1) grown(1)])
    then show ?thesis using g grown(2,3) by blast
  next
    case refused
    have x: "os_extends (hp_os H) w" by (rule request_page_extends [OF assms(1) refused(3)])
    have "heap_inv (H\<lparr>hp_direct := ds, hp_os := w\<rparr>)"
      by (rule heap_direct_step [OF assms(2) _ x]) (use direct_inv_extends [OF h(3) x] refused in simp_all)
    then show ?thesis using x refused by simp
  qed
  then show "heap_inv (H\<lparr>hp_direct := ds, hp_os := w\<rparr>)" "direct_live ds = direct_live (hp_direct H)" "os_extends (hp_os H) w"
    "ds = [] \<longleftrightarrow> hp_direct H = [] \<and> fst (request_page pick 4096 (hp_os H)) = 0" by blast+
qed


text \<open>
  The accessors of the buddy blocks and of the direct allocator return NULL when the kernel
  refuses their first page, and the allocation loops dereference it.
\<close>

definition malloc_stuck :: "picker \<Rightarrow> nat \<Rightarrow> heap \<Rightarrow> bool" where
  "malloc_stuck pick n H \<longleftrightarrow> (n < SLOT_ALLOCATOR_THRESHOLD \<and> hp_blocks H = [] \<or> DIRECT_ALLOCATION_THRESHOLD \<le> n \<and> hp_direct H = []) \<and>
     fst (request_page pick PAGE_SIZE (hp_os H)) = 0"

definition malloc_served :: "picker \<Rightarrow> nat \<Rightarrow> heap \<Rightarrow> bool" where
  "malloc_served pick n H \<longleftrightarrow> (\<exists>q H'. malloc_impl pick n H = Some (q, H') \<and> heap_inv H' \<and> os_extends (hp_os H) (hp_os H') \<and>
     malloc_outcome (heap_live H) (heap_live H') n q \<and> (8192 \<le> n \<and> q \<noteq> 0 \<longrightarrow> (\<forall>i < n. os_mem (hp_os H') (q + i) = 0)))"

lemma malloc_started:
  assumes "malloc_served pick n H1" "malloc_impl pick n H = malloc_impl pick n H1" "heap_live H1 = heap_live H" "os_extends (hp_os H) (hp_os H1)"
  shows "malloc_served pick n H"
  using assms os_extends_trans [OF assms(4)] unfolding malloc_served_def by metis

lemma malloc_small_start:
  assumes "mmap_fresh pick" "heap_inv H" "0 < n" "n < 500"
  shows "if malloc_stuck pick n H then malloc_impl pick n H = None else malloc_served pick n H"
proof -
  obtain bs w where b: "buddy_block pick (hp_blocks H) (hp_os H) = (bs, w)" by fastforce
  note st = blocks_start [OF assms(1,2) b]
  show ?thesis
  proof (cases "bs = []")
    case True
    then have "malloc_impl pick n H = None" using b assms(4)
      by (simp add: malloc_impl_def buddy_block_allocate_def config_defs allocate_blocks.simps)
    then show ?thesis using st(4) True assms(4) by (simp add: malloc_stuck_def config_defs)
  next
    case False
    let ?H = "H\<lparr>hp_blocks := bs, hp_os := w\<rparr>"
    have "malloc_served pick n ?H" using malloc_small [OF assms(1) st(1) assms(3,4)] False assms(4) by (simp add: malloc_served_def)
    moreover have "malloc_impl pick n H = malloc_impl pick n ?H" using b False assms(4)
      by (cases "allocate_blocks pick n bs w") (auto simp: malloc_impl_def buddy_block_allocate_def buddy_block_def config_defs)
    moreover have "heap_live ?H = heap_live H" by (simp add: heap_live_def st(2))
    ultimately have "malloc_served pick n H" using malloc_started [of pick n ?H H] st(3) by simp
    then show ?thesis using st(4) False assms(4) by (auto simp: malloc_stuck_def config_defs)
  qed
qed

lemma malloc_medium_start:
  assumes "mmap_fresh pick" "heap_inv H" "500 \<le> n" "n < 8192"
  shows "malloc_served pick n H"
proof -
  obtain ss w where b: "slot_allocator pick (hp_slots H) (hp_os H) = (ss, w)" by fastforce
  note st = slots_start [OF assms(1,2) b]
  let ?H = "H\<lparr>hp_slots := ss, hp_os := w\<rparr>"
  have live: "heap_live ?H = heap_live H" by (simp add: heap_live_def st(2))
  show ?thesis
  proof (cases "ss = []")
    case True
    then have "malloc_impl pick n H = Some (0, ?H)" using b assms(3,4)
      by (simp add: malloc_impl_def slot_allocator_allocate_def config_defs)
    then show ?thesis using st(1,3) live by (simp add: malloc_served_def malloc_outcome_def)
  next
    case False
    have "malloc_served pick n ?H" using malloc_medium [OF assms(1) st(1) assms(3,4)] False assms(4) by (simp add: malloc_served_def)
    moreover have "malloc_impl pick n H = malloc_impl pick n ?H" using b False assms(3,4)
      by (cases "allocate_chain pick (required_slots n) ss w")
        (auto simp: malloc_impl_def slot_allocator_allocate_def slot_allocator_def config_defs)
    ultimately show ?thesis using malloc_started [of pick n ?H H] st(3) live by simp
  qed
qed

lemma malloc_large_start:
  assumes "mmap_fresh pick" "heap_inv H" "8192 \<le> n"
  shows "if malloc_stuck pick n H then malloc_impl pick n H = None else malloc_served pick n H"
proof -
  obtain ds w where b: "direct_allocator pick (hp_direct H) (hp_os H) = (ds, w)" by fastforce
  note st = direct_start [OF assms(1,2) b]
  show ?thesis
  proof (cases "ds = []")
    case True
    then have "malloc_impl pick n H = None" using b assms(3)
      by (simp add: malloc_impl_def direct_allocator_allocate_def config_defs direct_chain.simps)
    then show ?thesis using st(4) True assms(3) by (simp add: malloc_stuck_def config_defs)
  next
    case False
    let ?H = "H\<lparr>hp_direct := ds, hp_os := w\<rparr>"
    have "malloc_served pick n ?H" using malloc_large [OF assms(1) st(1) assms(3)] False assms(3) by (simp add: malloc_served_def)
    moreover have "malloc_impl pick n H = malloc_impl pick n ?H" using b False assms(3)
      by (cases "direct_chain pick n ds w") (auto simp: malloc_impl_def direct_allocator_allocate_def direct_allocator_def config_defs)
    moreover have "heap_live ?H = heap_live H" by (simp add: heap_live_def st(2))
    ultimately have "malloc_served pick n H" using malloc_started [of pick n ?H H] st(3) by simp
    then show ?thesis using st(4) False assms(3) by (auto simp: malloc_stuck_def config_defs)
  qed
qed

lemma malloc_total:
  assumes "mmap_fresh pick" "heap_inv H" "0 < n"
  shows "if malloc_stuck pick n H then malloc_impl pick n H = None else malloc_served pick n H"
proof -
  consider "n < 500" | "500 \<le> n" "n < 8192" | "8192 \<le> n" by linarith
  then show ?thesis
  proof cases
    case 2
    then have "\<not> malloc_stuck pick n H" by (simp add: malloc_stuck_def config_defs)
    then show ?thesis using malloc_medium_start [OF assms(1,2) 2] by simp
  qed (use malloc_small_start [OF assms] malloc_large_start [OF assms(1,2)] in auto)
qed

section \<open>Release\<close>

lemma find_direct_owner:
  assumes "direct_inv ds w" "p \<noteq> 0" "\<not> direct_owns ds (p div 4096)"
  shows "find_direct p ds = None"
proof (rule ccontr)
  assume "find_direct p ds \<noteq> None"
  then obtain ki where "find_direct p ds = Some ki" by blast
  from find_direct_split [OF this] obtain us e vs where e: "at_entry ds ki us e vs" "da_pages e = p" by blast
  then have l: "(p, da_size e) \<in> direct_live ds" using direct_live_at [of ds us e vs] assms(2) by (auto simp: at_entry_def)
  then show False using direct_live_owned [OF l] region_first_page direct_live_sized [OF assms(1) l] assms(3) by blast
qed

lemma find_area_owner:
  assumes "ss \<noteq> []" "\<not> slot_owns ss (p div 4096)"
  shows "find_area p ss = Some None"
  using assms
proof (induction ss)
  case (Cons a ss)
  have "outside a p"
  proof (rule ccontr)
    assume "\<not> outside a p"
    then have "page_in (sa_base a) SLOT_ALLOCATOR_SIZE (p div 4096)"
      by (intro page_of_region) (auto simp: outside_def in_region_def)
    then show False using Cons.prems(2) by (simp add: slot_owns_def)
  qed
  then show ?case using Cons by (auto simp: slot_owns_def)
qed simp

lemma direct_free_frame:
  assumes "heap_inv H" "(p, s) \<in> direct_live (hp_direct H)" "direct_inv ds (release_page p s (hp_os H))"
    "\<And>g. direct_owns ds g \<Longrightarrow> direct_owns (hp_direct H) g"
  shows "heap_inv (H\<lparr>hp_direct := ds, hp_os := release_page p s (hp_os H)\<rparr>)"
proof -
  note h = heap_invD [OF assms(1)]
  let ?w = "release_page p s (hp_os H)"
  have keep: "os_pages (hp_os H) g \<Longrightarrow> \<not> direct_owns (hp_direct H) g \<Longrightarrow> os_pages ?w g" for g
    using direct_live_owned [OF assms(2)] by (auto simp: release_page_def)
  have "bb_inv (hp_blocks H) ?w"
    using h(1) keep h(5) owns_mapped(1) [OF h(1)] unfolding bb_inv_def bb_owns_def by blast
  moreover have "chain_ok (hp_slots H) ?w"
  proof -
    have "area_mapped ?w a" if "a \<in> set (hp_slots H)" for a
    proof -
      have m: "area_mapped (hp_os H) a" using h(2) that unfolding chain_ok_def by blast
      have "os_pages ?w g" if "page_in (sa_base a) SLOT_ALLOCATOR_SIZE g" for g
      proof -
        have "slot_owns (hp_slots H) g" using that \<open>a \<in> set (hp_slots H)\<close> unfolding slot_owns_def by blast
        then show ?thesis using keep h(6) owns_mapped(2) [OF h(2)] by blast
      qed
      then show ?thesis using m unfolding area_mapped_def by blast
    qed
    then show ?thesis using h(2) unfolding chain_ok_def by blast
  qed
  ultimately show ?thesis unfolding heap_inv_def using h(4-6) assms(3,4) by auto
qed

lemma direct_deallocate_owns:
  assumes "direct_allocator_deallocate pick p ds w = (True, ds', w')" "ds \<noteq> []" "direct_owns ds' g"
  shows "direct_owns ds g"
proof -
  obtain ki where ki: "find_direct p ds = Some ki" "ds' = put_allocation ds ki ((ith_allocation ds ki)\<lparr>da_pages := 0\<rparr>)"
    using assms(1,2) by (auto simp: direct_allocator_deallocate_def direct_allocator_def Let_def split: option.splits)
  from find_direct_split [OF ki(1)] obtain us e vs where e: "at_entry ds ki us e vs" by blast
  then have a: "allocs ds = us @ e # vs" "allocs ds' = us @ e\<lparr>da_pages := 0\<rparr> # vs" "map dr_base ds' = map dr_base ds"
    using ki(2) by (simp_all add: at_entry_def)
  have "dr_base ` set ds' = dr_base ` set ds" using a(3) by (metis list.set_map)
  then show ?thesis using assms(3) unfolding direct_owns_eq a(1,2) by auto
qed

lemma slot_deallocate_miss:
  "ss \<noteq> [] \<Longrightarrow> find_area p ss = Some None \<Longrightarrow> slot_allocator_deallocate pick p ss w = Some (False, ss, w)"
  by (simp add: slot_allocator_deallocate_def slot_allocator_def)

lemma bb_owns_bases: "bb_pages bs' = bb_pages bs \<Longrightarrow> bb_owns bs' g = bb_owns bs g"
  by (simp add: bb_owns_def)

text \<open>
  \<open>free_impl\<close> creates the slot allocator when the direct allocator does not know the pointer,
  and \<open>slot_allocator_deallocate\<close> dereferences it without a check.
\<close>

definition free_stuck :: "picker \<Rightarrow> nat \<Rightarrow> heap \<Rightarrow> bool" where
  "free_stuck pick p H \<longleftrightarrow> hp_slots H = [] \<and> p \<notin> fst ` direct_live (hp_direct H) \<and>
     fst (request_page pick SLOT_ALLOCATOR_SIZE (snd (direct_allocator pick (hp_direct H) (hp_os H)))) = 0"

definition freed :: "picker \<Rightarrow> heap \<Rightarrow> nat \<Rightarrow> nat \<Rightarrow> bool" where
  "freed pick H p s \<longleftrightarrow> (\<exists>H'. free_impl pick p H = Some H' \<and> heap_inv H' \<and> heap_live H' = heap_live H - {(p, s)} \<and>
     (\<forall>(q, m) \<in> heap_live H'. \<forall>i < m. os_mem (hp_os H') (q + i) = os_mem (hp_os H) (q + i)))"

lemma free_direct:
  assumes "heap_inv H" "(p, s) \<in> direct_live (hp_direct H)"
  shows "freed pick H p s"
proof -
  note h = heap_invD [OF assms(1)]
  have ne: "hp_direct H \<noteq> []" using assms(2) by (auto simp: direct_live_def)
  from direct_deallocate_live [OF h(3) ne assms(2), of pick] obtain ds w where
    r: "direct_allocator_deallocate pick p (hp_direct H) (hp_os H) = (True, ds, w)" "direct_inv ds w" "ds \<noteq> []"
      "direct_live ds = direct_live (hp_direct H) - {(p, s)}" "os_mem w = os_mem (hp_os H)" "w = release_page p s (hp_os H)" by blast
  have "heap_inv (H\<lparr>hp_direct := ds, hp_os := w\<rparr>)"
    using direct_free_frame [OF assms] r(2,6) direct_deallocate_owns [OF r(1) ne] by blast
  moreover have "heap_live (H\<lparr>hp_direct := ds, hp_os := w\<rparr>) = heap_live H - {(p, s)}"
    using heap_live_disjoint(2,3) [OF assms(1)] assms(2) r(4) by (auto simp: heap_live_def)
  ultimately show ?thesis unfolding freed_def using r(1,5) by (simp add: free_impl_def)
qed

text \<open>The search of a pointer that the direct allocator does not own only creates its chain.\<close>

definition free_rest :: "picker \<Rightarrow> nat \<Rightarrow> heap \<Rightarrow> heap option" where
  "free_rest pick p H =
     Option.bind (slot_allocator_deallocate pick p (hp_slots H) (hp_os H)) (\<lambda>(found, ss, w).
     let H2 = H\<lparr>hp_slots := ss, hp_os := w\<rparr> in
     if found then Some H2
     else map_option (\<lambda>(found, bs, w). H2\<lparr>hp_blocks := bs, hp_os := w\<rparr>) (buddy_block_deallocate pick p (hp_blocks H2) (hp_os H2)))"

lemma free_passes_direct:
  assumes "mmap_fresh pick" "heap_inv H" "p \<noteq> 0" "direct_allocator pick (hp_direct H) (hp_os H) = (ds, w)"
    "bb_owns (hp_blocks H) (p div 4096) \<or> slot_owns (hp_slots H) (p div 4096)"
  shows "free_impl pick p H = free_rest pick p (H\<lparr>hp_direct := ds, hp_os := w\<rparr>)"
proof -
  have h: "heap_inv (H\<lparr>hp_direct := ds, hp_os := w\<rparr>)" by (rule direct_start(1) [OF assms(1,2,4)])
  have "\<not> direct_owns ds (p div 4096)" using heap_invD(5,6) [OF h] assms(5) by auto
  moreover have "direct_inv ds w" using heap_invD(3) [OF h] by simp
  ultimately have "find_direct p ds = None" using find_direct_owner assms(3) by blast
  then show ?thesis using assms(4) by (simp add: free_impl_def free_rest_def direct_allocator_deallocate_def)
qed

lemma rest_slots:
  assumes "heap_inv H" "(p, s) \<in> chain_live (hp_slots H)"
  shows "\<exists>H'. free_rest pick p H = Some H' \<and> heap_inv H' \<and> heap_live H' = heap_live H - {(p, s)} \<and> hp_os H' = hp_os H"
proof -
  note h = heap_invD [OF assms(1)]
  have ne: "hp_slots H \<noteq> []" using assms(2) by auto
  from slot_deallocate_live [OF h(2) ne assms(2), of pick] obtain ss where
    r: "slot_allocator_deallocate pick p (hp_slots H) (hp_os H) = Some (True, ss, hp_os H)" "chain_ok ss (hp_os H)" "ss \<noteq> []"
      "chain_live ss = chain_live (hp_slots H) - {(p, s)}" by blast
  obtain k a where "ss = (hp_slots H)[k := a]" "k < length (hp_slots H) \<longrightarrow> sa_base a = sa_base (hp_slots H ! k)"
    using r(1) ne unfolding slot_allocator_deallocate_def slot_allocator_def
    by (auto simp: Let_def bind_eq_Some_conv split: option.splits)
  then have "map sa_base ss = map sa_base (hp_slots H)" by (cases "k < length (hp_slots H)") (simp_all add: map_update list_update_same_conv list_update_beyond)
  then have o: "slot_owns ss g = slot_owns (hp_slots H) g" for g by (rule slot_owns_bases)
  have "heap_inv (H\<lparr>hp_slots := ss\<rparr>)" using heap_slots_step [OF assms(1) r(2) os_extends_refl] o by simp
  moreover have "heap_live (H\<lparr>hp_slots := ss\<rparr>) = heap_live H - {(p, s)}"
    using heap_live_disjoint(1,3) [OF assms(1)] assms(2) r(4) by (auto simp: heap_live_def)
  ultimately show ?thesis using r(1) by (simp add: free_rest_def)
qed

lemma bb_deallocate_pages:
  assumes "bb_inv bs w" "bs \<noteq> []" "(p, s) \<in> bb_live bs" "buddy_block_deallocate pick p bs w = Some (r, bs', w')"
  shows "bb_pages bs' = bb_pages bs"
proof -
  obtain cs b ds us a vs where f: "found_at p bs cs b ds us a vs" "(p, s) \<in> live a" "entry_ok a"
    using found_live [OF assms(1,3)] .
  obtain a' where a': "buddy_allocator_deallocate a p = Some a'" "page a' = page a"
    using deallocate_live [OF _ f(2)] f(3) unfolding entry_ok_def by metis
  have "buddy_block_deallocate pick p bs w = Some (True, put_entry cs b ds us a' vs, w)"
    using found_deallocate [OF f(1) a'(1)] assms(2) by (simp add: buddy_block_deallocate_def buddy_block_def)
  then have "bs' = put_entry cs b ds us a' vs" using assms(4) by simp
  then show ?thesis using f(1) a'(2) by (simp add: bb_pages_def put_entry_def found_at_def)
qed

lemma rest_blocks:
  assumes "heap_inv (H0\<lparr>hp_slots := ss, hp_os := v\<rparr>)" "(p, s) \<in> bb_live (hp_blocks H0)"
    "slot_allocator_deallocate pick p (hp_slots H0) (hp_os H0) = Some (False, ss, v)"
  shows "\<exists>H'. free_rest pick p H0 = Some H' \<and> heap_inv H' \<and> heap_live H' = heap_live (H0\<lparr>hp_slots := ss, hp_os := v\<rparr>) - {(p, s)} \<and> hp_os H' = v"
proof -
  define H where "H = H0\<lparr>hp_slots := ss, hp_os := v\<rparr>"
  have H: "hp_blocks H = hp_blocks H0" "hp_os H = v" "heap_inv H" using assms(1) by (simp_all add: H_def)
  note h = heap_invD [OF H(3)]
  have l: "(p, s) \<in> bb_live (hp_blocks H)" using assms(2) H(1) by simp
  then have ne: "hp_blocks H \<noteq> []" by (auto simp: bb_live_def entries_live_def)
  from bb_deallocate_live [OF h(1) ne l, of pick] obtain bs where
    r: "buddy_block_deallocate pick p (hp_blocks H) (hp_os H) = Some (True, bs, hp_os H)" "bb_inv bs (hp_os H)" "bs \<noteq> []"
      "bb_live bs = bb_live (hp_blocks H) - {(p, s)}" by blast
  have run: "free_rest pick p H0 = Some (H\<lparr>hp_blocks := bs\<rparr>)" using assms(3) r(1) by (simp add: free_rest_def H_def)
  have o: "bb_owns bs g = bb_owns (hp_blocks H) g" for g
    by (rule bb_owns_bases [OF bb_deallocate_pages [OF h(1) ne l r(1)]])
  have "heap_inv (H\<lparr>hp_blocks := bs\<rparr>)" using heap_blocks_step [OF H(3) r(2) os_extends_refl] o by simp
  moreover have "heap_live (H\<lparr>hp_blocks := bs\<rparr>) = heap_live H - {(p, s)}"
    using heap_live_disjoint(1,2) [OF H(3)] l r(4) by (auto simp: heap_live_def)
  ultimately show ?thesis using run H(2) by (simp add: H_def)
qed

lemma live_kept:
  assumes "heap_inv H" "os_extends (hp_os H) w" "(p, s) \<in> heap_live H" "i < s"
  shows "os_mem w (p + i) = os_mem (hp_os H) (p + i)"
  using heap_live_mapped [OF assms(1,3,4)] assms(2) by (simp add: os_extends_def)

lemma freed_by:
  assumes "heap_inv H" "free_impl pick p H = Some H'" "heap_inv H'" "heap_live H' = heap_live H - {(p, s)}" "os_extends (hp_os H) (hp_os H')"
  shows "freed pick H p s"
proof -
  have "\<forall>(q, m) \<in> heap_live H'. \<forall>i < m. os_mem (hp_os H') (q + i) = os_mem (hp_os H) (q + i)"
    using live_kept [OF assms(1,5)] unfolding assms(4) by blast
  then show ?thesis unfolding freed_def using assms(2-4) by (intro exI [of _ H'] conjI)
qed

lemma live_owner:
  assumes "heap_inv H" "(p, s) \<in> heap_live H" "(p, s) \<notin> direct_live (hp_direct H)"
  shows "p \<noteq> 0" "bb_owns (hp_blocks H) (p div 4096) \<or> slot_owns (hp_slots H) (p div 4096)" "p \<notin> fst ` direct_live (hp_direct H)"
proof -
  note h = heap_invD [OF assms(1)]
  note page = region_first_page [OF heap_live_sized [OF assms(1,2)]]
  have in_parts: "(p, s) \<in> bb_live (hp_blocks H) \<or> (p, s) \<in> chain_live (hp_slots H)" using assms(2,3) by (simp add: heap_live_def)
  then show own: "bb_owns (hp_blocks H) (p div 4096) \<or> slot_owns (hp_slots H) (p div 4096)"
    using bb_live_owned [OF h(1) _ page] slot_live_owned [OF h(2) _ page] by blast
  show "p \<noteq> 0" using in_parts
  proof
    assume "(p, s) \<in> bb_live (hp_blocks H)"
    then show ?thesis using h(1) entry_live_in_page(1,2) unfolding bb_live_def entries_live_def bb_inv_def by fastforce
  next
    assume "(p, s) \<in> chain_live (hp_slots H)"
    then show ?thesis using h(2) area_live_in_region(1) unfolding chain_live_def chain_ok_def by fastforce
  qed
  show "p \<notin> fst ` direct_live (hp_direct H)"
  proof
    assume "p \<in> fst ` direct_live (hp_direct H)"
    then obtain t where t: "(p, t) \<in> direct_live (hp_direct H)" by auto
    then have "direct_owns (hp_direct H) (p div 4096)" by (rule direct_live_owned [OF _ region_first_page [OF direct_live_sized [OF h(3) t]]])
    then show False using own h(5,6) by blast
  qed
qed

lemma free_total:
  assumes "mmap_fresh pick" "heap_inv H" "(p, s) \<in> heap_live H"
  shows "if free_stuck pick p H then free_impl pick p H = None else freed pick H p s"
proof (cases "(p, s) \<in> direct_live (hp_direct H)")
  case True
  then have "\<not> free_stuck pick p H" by (force simp: free_stuck_def)
  then show ?thesis using free_direct [OF assms(2) True] by simp
next
  case False
  note o = live_owner [OF assms(2,3) False]
  obtain ds w where d: "direct_allocator pick (hp_direct H) (hp_os H) = (ds, w)" by fastforce
  note st = direct_start [OF assms(1,2) d]
  let ?H1 = "H\<lparr>hp_direct := ds, hp_os := w\<rparr>"
  note run = free_passes_direct [OF assms(1,2) o(1) d o(2)]
  have live1: "heap_live ?H1 = heap_live H" by (simp add: heap_live_def st(2))
  show ?thesis
  proof (cases "(p, s) \<in> chain_live (hp_slots H)")
    case True
    then have "\<not> free_stuck pick p H" by (auto simp: free_stuck_def)
    moreover obtain H' where "free_rest pick p ?H1 = Some H'" "heap_inv H'" "heap_live H' = heap_live H - {(p, s)}" "hp_os H' = w"
      using rest_slots [OF st(1), of p s pick] True live1 by auto
    ultimately show ?thesis using freed_by [OF assms(2), of pick p H' s] run st(3) by simp
  next
    case slots: False
    then have b: "(p, s) \<in> bb_live (hp_blocks H)" using False assms(3) by (simp add: heap_live_def)
    obtain ss v where e: "slot_allocator pick (hp_slots H) w = (ss, v)" by fastforce
    then have e1: "slot_allocator pick (hp_slots ?H1) (hp_os ?H1) = (ss, v)" by simp
    note st2 = slots_start [OF assms(1) st(1) e1]
    let ?H2 = "?H1\<lparr>hp_slots := ss, hp_os := v\<rparr>"
    have stuck: "free_stuck pick p H \<longleftrightarrow> ss = []" using st2(4) o(3) d by (simp add: free_stuck_def)
    show ?thesis
    proof (cases "ss = []")
      case True
      then have "free_rest pick p ?H1 = None" using e by (simp add: free_rest_def slot_allocator_deallocate_def)
      then show ?thesis using run stuck True by simp
    next
      case False
      have "\<not> slot_owns ss (p div 4096)"
        using heap_invD(4) [OF st2(1)] bb_live_owned [OF heap_invD(1) [OF assms(2)] b region_first_page [OF heap_live_sized [OF assms(2,3)]]] by simp
      then have miss: "slot_allocator_deallocate pick p (hp_slots H) w = Some (False, ss, v)"
        using find_area_owner [OF False] e by (simp add: slot_allocator_deallocate_def)
      have "heap_live ?H2 = heap_live H" using st2(2) by (simp add: heap_live_def st(2))
      moreover have "(p, s) \<in> bb_live (hp_blocks ?H1)" "slot_allocator_deallocate pick p (hp_slots ?H1) (hp_os ?H1) = Some (False, ss, v)"
        using b miss by simp_all
      from rest_blocks [OF st2(1) this] obtain H' where
        r: "free_rest pick p ?H1 = Some H'" "heap_inv H'" "heap_live H' = heap_live ?H2 - {(p, s)}" "hp_os H' = v" by blast
      moreover have "os_extends (hp_os H) v" using os_extends_trans [OF st(3)] st2(3) by simp
      ultimately show ?thesis using freed_by [OF assms(2), of pick p H' s] run stuck False by simp
    qed
  qed
qed

section \<open>The contract\<close>

definition heap_stuck :: "picker \<Rightarrow> heap \<Rightarrow> request \<Rightarrow> bool" where
  "heap_stuck pick H r = (case r of Malloc n \<Rightarrow> malloc_stuck pick n H | Free p \<Rightarrow> free_stuck pick p H)"

sublocale kernel \<subseteq> heaps: heap_contract heap_inv heap_live "\<lambda>n. 0 < n" "\<lambda>H n. malloc_impl pick n H" "\<lambda>H p. free_impl pick p H" "heap_stuck pick"
proof
  fix H and n :: nat assume s: "heap_inv H" and n: "0 < n" and c: "\<not> heap_stuck pick H (Malloc n)"
  have "malloc_served pick n H" using malloc_total [OF fresh s n] c by (simp add: heap_stuck_def)
  then show "\<exists>q H'. malloc_impl pick n H = Some (q, H') \<and> heap_inv H' \<and>
      (q = 0 \<and> heap_live H' = heap_live H \<or>
       q \<noteq> 0 \<and> (\<exists>m \<ge> n. (q, m) \<notin> heap_live H \<and> heap_live H' = insert (q, m) (heap_live H)))"
    unfolding malloc_served_def malloc_outcome_def by (metis (full_types))
next
  fix H q m assume "heap_inv H" "(q, m) \<in> heap_live H" "\<not> heap_stuck pick H (Free q)"
  then show "\<exists>H'. free_impl pick q H = Some H' \<and> heap_inv H' \<and> heap_live H' = heap_live H - {(q, m)}"
    using free_total [OF fresh, of H q m] unfolding freed_def heap_stuck_def by auto
next
  fix H and n :: nat assume "heap_inv H" "0 < n" "heap_stuck pick H (Malloc n)"
  then show "malloc_impl pick n H = None" using malloc_total [OF fresh, of H n] by (simp add: heap_stuck_def)
next
  fix H q m assume "heap_inv H" "(q, m) \<in> heap_live H" "heap_stuck pick H (Free q)"
  then show "free_impl pick q H = None" using free_total [OF fresh, of H q m] by (simp add: heap_stuck_def)
qed (use heap_live_apart heap_live_sized in blast)+

context kernel begin

lemmas session_safe = heaps.exec_safe

end

lemma heap_inv_mem [simp]: "heap_inv (H\<lparr>hp_os := (hp_os H)\<lparr>os_mem := h\<rparr>\<rparr>) = heap_inv H"
  by (simp add: heap_inv_def bb_inv_def chain_ok_def area_mapped_def direct_inv_def region_ok_def)

lemma heap_live_mem [simp]: "heap_live (H\<lparr>hp_os := w\<rparr>) = heap_live H"
  by (simp add: heap_live_def)

text \<open>Clearing a live block leaves the others alone.\<close>

lemma memset_others:
  assumes "heap_inv H" "(q, m) \<in> heap_live H" "n \<le> m" "(p, s) \<in> heap_live H" "(p, s) \<noteq> (q, m)" "i < s"
  shows "memset q c n h (p + i) = h (p + i)"
proof -
  have "apart (p, s) (q, m)" by (rule heap_live_apart [OF assms(1,4,2,5)])
  then show ?thesis using assms(3,6) by (auto simp: memset_def apart_def in_region_def)
qed

definition calloc_served :: "picker \<Rightarrow> nat \<Rightarrow> nat \<Rightarrow> heap \<Rightarrow> bool" where
  "calloc_served pick cnt n H \<longleftrightarrow> (\<exists>q H'. malloc_impl pick (cnt * n) H = Some (q, H') \<and>
    (if q = 0 then calloc_impl pick cnt n H = (if n < 8192 then None else Some (0, H')) \<and> heap_inv H'
     else \<exists>H''. calloc_impl pick cnt n H = Some (q, H'') \<and> heap_inv H'' \<and> heap_live H'' = heap_live H' \<and>
       (\<forall>i < cnt * n. os_mem (hp_os H'') (q + i) = 0) \<and>
       (\<forall>(p, s) \<in> heap_live H. \<forall>i < s. os_mem (hp_os H'') (p + i) = os_mem (hp_os H) (p + i))))"

lemma calloc_total:
  assumes "mmap_fresh pick" "heap_inv H" "0 < cnt" "0 < n" "cnt * n < 2 ^ 64"
  shows "if malloc_stuck pick (cnt * n) H then calloc_impl pick cnt n H = None else calloc_served pick cnt n H"
proof (cases "malloc_stuck pick (cnt * n) H")
  case stuck: True
  have "malloc_impl pick (cnt * n) H = None" using malloc_total [OF assms(1,2), of "cnt * n"] stuck assms(3,4) by simp
  then show ?thesis using stuck assms(5) by (simp add: calloc_impl_def mul64_def)
next
  case served: False
  have m: "mul64 cnt n = cnt * n" "0 < cnt * n" using assms(3-5) by (simp_all add: mul64_def)
  have "malloc_served pick (cnt * n) H" using malloc_total [OF assms(1,2) m(2)] served by simp
  then obtain q H' where
    r: "malloc_impl pick (cnt * n) H = Some (q, H')" "heap_inv H'" "os_extends (hp_os H) (hp_os H')"
      "malloc_outcome (heap_live H) (heap_live H') (cnt * n) q"
      "8192 \<le> cnt * n \<and> q \<noteq> 0 \<longrightarrow> (\<forall>i < cnt * n. os_mem (hp_os H') (q + i) = 0)" unfolding malloc_served_def by blast
  have kept: "\<forall>(p, s) \<in> heap_live H. \<forall>i < s. os_mem (hp_os H') (p + i) = os_mem (hp_os H) (p + i)"
    using live_kept [OF assms(2) r(3)] by blast
  have D: "DIRECT_ALLOCATION_THRESHOLD = 8192" by (simp add: config_defs)
  have "calloc_served pick cnt n H"
  proof (cases "q = 0")
    case True
    then show ?thesis using r(1,2) m(1) by (simp add: calloc_served_def calloc_impl_def D)
  next
    case False
    then obtain k where k: "k \<ge> cnt * n" "(q, k) \<notin> heap_live H" "heap_live H' = insert (q, k) (heap_live H)"
      using r(4) by (auto simp: malloc_outcome_def)
    show ?thesis
    proof (cases "n < 8192")
      case small: True
      let ?h = "memset q 0 (cnt * n) (os_mem (hp_os H'))" and ?H = "H'\<lparr>hp_os := (hp_os H')\<lparr>os_mem := memset q 0 (cnt * n) (os_mem (hp_os H'))\<rparr>\<rparr>"
      have "calloc_impl pick cnt n H = Some (q, ?H)" using r(1) m(1) small False by (simp add: calloc_impl_def D)
      moreover have "?h (p + i) = os_mem (hp_os H) (p + i)" if "(p, s) \<in> heap_live H" "i < s" for p s i
      proof -
        have "(q, k) \<in> heap_live H'" "(p, s) \<in> heap_live H'" "(p, s) \<noteq> (q, k)" using k(2,3) that(1) by auto
        from memset_others [OF r(2) this(1) k(1) this(2,3) that(2)] show ?thesis using live_kept [OF assms(2) r(3) that] by simp
      qed
      moreover have "\<forall>i < cnt * n. ?h (q + i) = 0" by (simp add: memset_def in_region_def)
      ultimately show ?thesis unfolding calloc_served_def using r(1,2) False by auto
    next
      case large: False
      have "8192 \<le> cnt * n" using large assms(3) by (metis le_trans linorder_not_less mult_le_mono1 nat_mult_1 Suc_leI One_nat_def)
      then have "\<forall>i < cnt * n. os_mem (hp_os H') (q + i) = 0" using r(5) False by blast
      moreover have "calloc_impl pick cnt n H = Some (q, H')" using r(1) m(1) large by (simp add: calloc_impl_def D)
      ultimately show ?thesis unfolding calloc_served_def using r(1,2) False kept by auto
    qed
  qed
  then show ?thesis using served by simp
qed

section \<open>The heaps of a process\<close>

text \<open>
  A process starts without any chain. It calls the allocator with positive sizes, frees blocks
  that are live, and writes into its live blocks in between.
\<close>

definition start_heap :: "os \<Rightarrow> heap" where
  "start_heap w = \<lparr>hp_blocks = [], hp_slots = [], hp_direct = [], hp_os = w\<rparr>"

inductive heap_reach :: "picker \<Rightarrow> heap \<Rightarrow> bool" for pick where
  start: "heap_reach pick (start_heap w)"
| malloc: "heap_reach pick H \<Longrightarrow> 0 < n \<Longrightarrow> malloc_impl pick n H = Some (q, H') \<Longrightarrow> heap_reach pick H'"
| calloc: "heap_reach pick H \<Longrightarrow> 0 < cnt \<Longrightarrow> 0 < n \<Longrightarrow> cnt * n < 2 ^ 64 \<Longrightarrow> calloc_impl pick cnt n H = Some (q, H') \<Longrightarrow> heap_reach pick H'"
| free: "heap_reach pick H \<Longrightarrow> (p, s) \<in> heap_live H \<Longrightarrow> free_impl pick p H = Some H' \<Longrightarrow> heap_reach pick H'"
| client: "heap_reach pick H \<Longrightarrow> (\<And>x. h x \<noteq> os_mem (hp_os H) x \<Longrightarrow> \<exists>(p, s) \<in> heap_live H. in_region p s x) \<Longrightarrow>
    heap_reach pick (H\<lparr>hp_os := (hp_os H)\<lparr>os_mem := h\<rparr>\<rparr>)"

lemma start_heap_inv: "heap_inv (start_heap w)" "heap_live (start_heap w) = {}"
  by (simp_all add: start_heap_def heap_inv_def bb_inv_def bb_pages_def chain_ok_def direct_inv_def regions_def entry_regions_def
      bb_owns_def slot_owns_def heap_live_def bb_live_def entries_live_def direct_live_def)

lemma heap_reach_inv:
  assumes "mmap_fresh pick"
  shows "heap_reach pick H \<Longrightarrow> heap_inv H"
proof (induction rule: heap_reach.induct)
  case (start w)
  show ?case by (rule start_heap_inv)
next
  case (malloc H n q H')
  then show ?case using malloc_total [OF assms malloc.IH malloc.hyps(2)] by (auto simp: malloc_served_def split: if_splits)
next
  case (calloc H cnt n q H')
  then show ?case using calloc_total [OF assms calloc.IH calloc.hyps(2-4)] by (auto simp: calloc_served_def split: if_splits)
next
  case (free H p s H')
  then show ?case using free_total [OF assms free.IH free.hyps(2)] by (auto simp: freed_def split: if_splits)
qed simp


section \<open>Properties\<close>

lemma bump_grants:
  assumes "0 < n" "n \<le> 1048576" "t < 1024" "\<And>p. 1 + 256 * t \<le> p \<Longrightarrow> \<not> pages p"
  shows "bump_pick t pages n = Some (4096 * (1 + 256 * t))"
  using assms by (simp add: bump_pick_def list_all_iff)

text \<open>The first call of a process, for two pages and a bit.\<close>

lemma first_large_block:
  "\<exists>H. malloc_impl bump_pick 9000 (start_heap boot_os) = Some (1052672, H) \<and> heap_live H = {(1052672, 9000)}"
proof -
  have z: "zero_direct p = \<lparr>dr_base = p, dr_allocations = \<lparr>da_size = 0, da_pages = 0\<rparr> # replicate 254 \<lparr>da_size = 0, da_pages = 0\<rparr>\<rparr>" for p
    by (simp add: zero_direct_def DIRECT_CAPACITY_def config_defs flip: replicate_Suc)
  obtain w1 where one: "request_page bump_pick 4096 boot_os = (4096, w1)" "os_clock w1 = 1" "os_pages w1 = page_in 4096 4096"
    by (simp add: request_page_def boot_os_def bump_grants)
  have "bump_pick 1 (os_pages w1) 9000 = Some (4096 * (1 + 256 * 1))"
    by (rule bump_grants) (simp_all add: one(3) page_in_def)
  then obtain w2 where two: "request_page bump_pick 9000 w1 = (1052672, w2)" using one(2) by (simp add: request_page_def)
  have "direct_allocator_allocate bump_pick 9000 [] boot_os =
      Some (1052672, [\<lparr>dr_base = 4096, dr_allocations = \<lparr>da_size = 9000, da_pages = 1052672\<rparr> # replicate 254 \<lparr>da_size = 0, da_pages = 0\<rparr>\<rparr>], w2)"
    using one two by (simp add: direct_allocator_allocate_def direct_allocator_def direct_chain.simps z config_defs)
  then show ?thesis
    by (force simp: malloc_impl_def start_heap_def config_defs heap_live_def bb_live_def entries_live_def direct_live_def entry_regions_def)
qed





text \<open>
  C7. A process that starts without any allocator, asks for positive sizes and frees only blocks
  it owns, while the kernel may refuse any request for pages. Either all its calls return and
  all live blocks are apart, or it stops with a null pointer dereference at a call that needed
  the first page of a chain and was refused it; there is no other way to get stuck.
\<close>

theorem heap_session_safe:
  assumes "mmap_fresh pick"
    "heap_contract.obeys heap_live (\<lambda>n. 0 < n) (\<lambda>H n. malloc_impl pick n H) (\<lambda>H p. free_impl pick p H) rs (start_heap w)"
  shows "case heap_contract.exec (\<lambda>H n. malloc_impl pick n H) (\<lambda>H p. free_impl pick p H) rs (start_heap w) of
      Some H' \<Rightarrow> pairwise apart (heap_live H')
    | None \<Rightarrow> \<exists>rs1 r rs2 H1. rs = rs1 @ r # rs2 \<and>
        heap_contract.exec (\<lambda>H n. malloc_impl pick n H) (\<lambda>H p. free_impl pick p H) rs1 (start_heap w) = Some H1 \<and>
        heap_stuck pick H1 r"
proof -
  have "kernel pick" using assms(1) by unfold_locales
  from kernel.session_safe [OF this start_heap_inv(1) assms(2)] show ?thesis
    by (auto split: option.splits)
qed

theorem heap_session_safe_witness:
  "mmap_fresh bump_pick \<and>
   (\<exists>H'. heap_contract.exec (\<lambda>H n. malloc_impl bump_pick n H) (\<lambda>H p. free_impl bump_pick p H)
      [Malloc 9000, Free 1052672] (start_heap boot_os) = Some H' \<and> pairwise apart (heap_live H'))"
proof -
  obtain H where H: "malloc_impl bump_pick 9000 (start_heap boot_os) = Some (1052672, H)" "heap_live H = {(1052672, 9000)}"
    using first_large_block by blast
  let ?rs = "[Malloc 9000, Free 1052672]"
  have o: "heap_contract.obeys heap_live (\<lambda>n. 0 < n) (\<lambda>H n. malloc_impl bump_pick n H) (\<lambda>H p. free_impl bump_pick p H) ?rs (start_heap boot_os)"
    using H by (simp add: bump.heaps.obeys.simps bump.heaps.permitted_def bump.heaps.call_def)
  have "heap_inv H" using heap_reach_inv [OF bump_fresh heap_reach.malloc [OF heap_reach.start _ H(1)]] by simp
  moreover have "\<not> free_stuck bump_pick 1052672 H"
    using H by (force simp: free_stuck_def heap_live_def malloc_impl_def start_heap_def config_defs bb_live_def entries_live_def split: option.splits prod.splits)
  ultimately have "\<exists>H'. free_impl bump_pick 1052672 H = Some H'" using free_total [OF bump_fresh, of H 1052672 9000] H(2) by (auto simp: freed_def)
  then have "\<exists>H'. heap_contract.exec (\<lambda>H n. malloc_impl bump_pick n H) (\<lambda>H p. free_impl bump_pick p H) ?rs (start_heap boot_os) = Some H'"
    using H(1) by (auto simp: bump.heaps.exec.simps bump.heaps.call_def)
  then show ?thesis using heap_session_safe [OF bump_fresh o] bump_fresh by auto
qed



text \<open>
  The product in \<open>calloc_impl\<close> is not checked: for \<open>2^32\<close> elements of \<open>2^32 + 1\<close> bytes it wraps
  around, and the request is served like an allocation of \<open>2^32\<close> bytes.
\<close>

theorem calloc_overflow:
  "calloc_impl pick (2 ^ 32) (2 ^ 32 + 1) H = malloc_impl pick (2 ^ 32) H"
proof -
  have "mul64 (2 ^ 32) (2 ^ 32 + 1) = 2 ^ 32" by (simp add: mul64_def)
  then show ?thesis by (cases "malloc_impl pick (2 ^ 32) H") (auto simp: calloc_impl_def config_defs)
qed

end
