(* ===== verification/Slot_Session.thy ===== *)
theory Slot_Session
  imports Slot_Correct
begin

text \<open>
  A session with the slot allocator that ends with overlapping live blocks. The header lists
  of the area are followed call by call.
\<close>

section \<open>A reallocation that breaks the heap\<close>

text \<open>
  Six calls: two small blocks \<open>z\<close> and \<open>x\<close>, a reallocation of \<open>x\<close> that does not fit its area, a
  small block \<open>y\<close>, the release of \<open>z\<close> and a larger block \<open>v\<close>. The reallocation merges \<open>x\<close> with the
  free span behind it, where the cursor points; when it then moves \<open>x\<close> to another area the cursor
  stays inside the merged span, so \<open>y\<close> is carved out of a span that the headers call free.
\<close>

definition slot_session :: "picker \<Rightarrow> os \<Rightarrow> (nat \<times> nat) option" where
  "slot_session pick w0 =
     Option.bind (slot_allocator_allocate pick 500 [] w0) (\<lambda>(z, as1, w1).
     Option.bind (slot_allocator_allocate pick 500 as1 w1) (\<lambda>(x, as2, w2).
     Option.bind (slot_allocator_reallocate pick x 130928 as2 w2) (\<lambda>(x', as3, w3).
     Option.bind (slot_allocator_allocate pick 500 as3 w3) (\<lambda>(y, as4, w4).
     Option.bind (slot_allocator_deallocate pick z as4 w4) (\<lambda>(r, as5, w5).
     Option.bind (slot_allocator_allocate pick 8000 as5 w5) (\<lambda>(v, as6, w6).
     Some (y, v)))))))"

abbreviation hdr :: "nat \<Rightarrow> bool \<Rightarrow> Slot" where
  "hdr l u \<equiv> \<lparr>slot_length = l, slot_used = u\<rparr>"

lemmas slot_eval = get_slot_def put_slot_def get_successor_slot_def split_span_def nth_list_update slot_consts

lemma required_values: "required_slots 500 = 1" "required_slots 8000 = 16" "required_slots 130928 = 248"
  by (simp_all add: required_slots_def add64_def mul64_def slot_consts)

text \<open>The header lists that the session goes through, from the headers \<open>S\<close> of a fresh area on.\<close>

definition trace1 :: "Slot list \<Rightarrow> Slot list" where
  "trace1 S = S[0 := hdr 248 True, 1 := hdr 247 False, 0 := hdr 1 True]"
definition trace2 :: "Slot list \<Rightarrow> Slot list" where
  "trace2 S = (trace1 S)[1 := hdr 247 True, 2 := hdr 246 False, 1 := hdr 1 True]"
definition trace3 :: "Slot list \<Rightarrow> Slot list" where
  "trace3 S = (trace2 S)[1 := hdr 247 True]"
definition trace4 :: "Slot list \<Rightarrow> Slot list" where
  "trace4 S = (trace3 S)[1 := hdr 247 False]"
definition trace5 :: "Slot list \<Rightarrow> Slot list" where
  "trace5 S = (trace4 S)[2 := hdr 246 True, 3 := hdr 245 False, 2 := hdr 1 True]"
definition trace6 :: "Slot list \<Rightarrow> Slot list" where
  "trace6 S = (trace5 S)[0 := hdr 1 False]"

lemmas trace_defs = trace1_def trace2_def trace3_def trace4_def trace5_def trace6_def

definition fresh_slots :: "Slot list \<Rightarrow> bool" where
  "fresh_slots S \<longleftrightarrow> length S = 248 \<and> S \<noteq> [] \<and> S ! 0 = hdr 248 False"

lemma session_scan1: "fresh_slots S \<Longrightarrow> scan S 1 0 = Some (Some 0, trace1 S)"
proof -
  assume S: "fresh_slots S"
  then have "merge_free S 0 = Some S" by (subst merge_free.simps) (simp add: slot_eval fresh_slots_def)
  then show ?thesis using S by (subst scan.simps) (simp add: slot_eval fresh_slots_def trace_defs)
qed

lemma session_scan2: "fresh_slots S \<Longrightarrow> scan (trace1 S) 1 1 = Some (Some 1, trace2 S)"
proof -
  assume S: "fresh_slots S"
  then have "merge_free (trace1 S) 1 = Some (trace1 S)"
    by (subst merge_free.simps) (simp add: slot_eval fresh_slots_def trace_defs)
  then show ?thesis using S by (subst scan.simps) (simp add: slot_eval fresh_slots_def trace_defs numeral_2_eq_2)
qed

lemma session_expand: "fresh_slots S \<Longrightarrow> expand_span (trace2 S) 248 1 = Some (trace3 S)"
proof -
  assume S: "fresh_slots S"
  then have "expand_span (trace3 S) 248 1 = Some (trace3 S)"
    by (subst expand_span.simps) (simp add: slot_eval fresh_slots_def trace_defs)
  then show ?thesis using S by (subst expand_span.simps) (simp add: slot_eval fresh_slots_def trace_defs)
qed

lemma session_scan3: "fresh_slots S \<Longrightarrow> scan (trace3 S) 248 2 = Some (None, trace3 S)"
proof -
  assume S: "fresh_slots S"
  then have "merge_free (trace3 S) 2 = Some (trace3 S)"
    by (subst merge_free.simps) (simp add: slot_eval fresh_slots_def trace_defs)
  moreover have "scan (trace3 S) 248 248 = Some (None, trace3 S)" by (subst scan.simps) (simp add: slot_eval)
  ultimately show ?thesis using S by (subst scan.simps) (simp add: slot_eval fresh_slots_def trace_defs)
qed

lemma session_scan4: "fresh_slots S \<Longrightarrow> scan (trace4 S) 1 2 = Some (Some 2, trace5 S)"
proof -
  assume S: "fresh_slots S"
  then have "merge_free (trace4 S) 2 = Some (trace4 S)"
    by (subst merge_free.simps) (simp add: slot_eval fresh_slots_def trace_defs)
  then show ?thesis using S by (subst scan.simps) (simp add: slot_eval fresh_slots_def trace_defs)
qed

lemma session_scan5: "fresh_slots S \<Longrightarrow> \<exists>T. scan (trace6 S) 16 0 = Some (Some 0, T)"
proof -
  assume S: "fresh_slots S"
  let ?T = "(trace6 S)[0 := hdr 248 False]"
  have "merge_free ?T 0 = Some ?T" using S
    by (subst merge_free.simps) (simp add: slot_eval fresh_slots_def trace_defs)
  then have "merge_free (trace6 S) 0 = Some ?T" using S
    by (subst merge_free.simps) (simp add: slot_eval fresh_slots_def trace_defs)
  then show ?thesis using S by (subst scan.simps) (simp add: slot_eval fresh_slots_def trace_defs)
qed

abbreviation area_at :: "nat \<Rightarrow> nat \<Rightarrow> Slot list \<Rightarrow> SlotAllocator" where
  "area_at p c ss \<equiv> \<lparr>sa_base = p, sa_cursor = c, sa_slots = ss\<rparr>"

lemma fresh_area_trace: "fresh_area p = area_at p 0 (sa_slots (fresh_area p))" "fresh_slots (sa_slots (fresh_area p))"
  by (simp_all add: fresh_area_def fresh_slots_def slot_consts)

lemma trace_length: "fresh_slots S \<Longrightarrow> length (trace1 S) = 248 \<and> length (trace2 S) = 248 \<and> length (trace3 S) = 248 \<and> length (trace5 S) = 248"
  by (simp add: trace_defs fresh_slots_def)

lemma allocate_head_area:
  assumes "scan ss (required_slots n) c = Some (Some i, ss')"
  shows "slot_allocator_allocate pick n (area_at p c ss # rest) w =
    Some (p + 32 + i * 528, area_at p (i + required_slots n) ss' # rest, w)"
  using assms by (simp add: slot_allocator_allocate_def slot_allocator_def allocate_chain.simps slot_address_def slot_consts)

lemma session_reallocate:
  assumes "fresh_slots S" "request_page pick 131072 w = (p', w')" "p' \<noteq> 0" "apart (p, 131072) (p', 131072)" "p + 131072 \<le> 2 ^ 47"
  shows "\<exists>T h. slot_allocator_reallocate pick (p + 560) 130928 [area_at p 2 (trace2 S)] w =
    Some (p' + 32, [area_at p 2 (trace4 S), T], w'\<lparr>os_mem := h\<rparr>)"
proof -
  let ?a = "area_at p 2 (trace2 S)" and ?a3 = "area_at p 2 (trace3 S)"
  have hi: "header_index ?a (p + 560) = Some 1"
    using header_index_hit [of 1 ?a] trace_length [OF assms(1)] assms(5)
    by (simp add: slot_address_def slot_consts add.commute)
  have fa: "find_area (p + 560) [?a] = Some (Some 0)" by (simp add: outside_def slot_consts)
  have sp: "split_span (trace3 S) 1 248 = Some (trace3 S)" "get_slot (trace3 S) 1 = Some (hdr 247 True)"
    "put_slot (trace3 S) 1 (hdr 247 False) = Some (trace4 S)"
    using assms(1) by (simp_all add: slot_eval fresh_slots_def trace_defs)
  obtain ss where ss: "scan (sa_slots (fresh_area p')) 248 0 = Some (Some 0, ss)"
    using fresh_area_serves [of 248 p'] by (auto simp: slot_consts)
  let ?b = "(fresh_area p')\<lparr>sa_slots := ss, sa_cursor := 248\<rparr>"
  have c: "sa_cursor (fresh_area p') = 0" "sa_base (fresh_area p') = p'" by (simp_all add: fresh_area_def)
  have al: "slot_allocator_allocate pick 130928 [?a3] w = Some (p' + 32, [?a3, ?b], w')"
    using session_scan3 [OF assms(1)] assms(2,3) ss c
    by (simp add: slot_allocator_allocate_def slot_allocator_def required_values create_fresh slot_address_def
        slot_consts allocate_chain.simps [of pick 248 "[?a3]"] allocate_chain.simps [of pick 248 "[fresh_area p']"])
  have "apart (p' + 32, 247 * 528) (p + 560, 247 * 528)" using assms(4) by (auto simp: apart_def)
  then obtain h where h: "memcpy (p' + 32) (p + 560) (247 * 528) (os_mem w') = Some h" by (rule memcpy_apart)
  have "slot_allocator_reallocate pick (p + 560) 130928 [?a] w = Some (p' + 32, [area_at p 2 (trace4 S), ?b], w'\<lparr>os_mem := h\<rparr>)"
    using hi fa sp session_expand [OF assms(1)] al h
    by (simp add: slot_allocator_reallocate_def slot_allocator_def required_values slot_consts)
  then show ?thesis by blast
qed

text \<open>
  C32. \<open>slot_allocator_reallocate\<close> breaks the heap: for every kernel that grants two separate
  areas, the session ends with two live blocks \<open>y\<close> (500 bytes) and \<open>v\<close> (8000 bytes), neither
  of which has been freed, that share memory.
\<close>

theorem slot_reallocate_overlap:
  assumes "request_page pick 131072 w0 = (p, w1)" "p \<noteq> 0" "request_page pick 131072 w1 = (p', w2)" "p' \<noteq> 0"
    "apart (p, 131072) (p', 131072)" "p + 131072 \<le> 2 ^ 47"
  shows "\<exists>y v. slot_session pick w0 = Some (y, v) \<and> \<not> apart (y, 500) (v, 8000)"
proof -
  let ?S = "sa_slots (fresh_area p)"
  note S = fresh_area_trace(2) [of p]
  have s1: "slot_allocator_allocate pick 500 [] w0 = Some (p + 32, [area_at p 1 (trace1 ?S)], w1)"
    using session_scan1 [OF S] assms(1,2) allocate_head_area [of ?S 500 0 0 "trace1 ?S" pick p "[]" w1] fresh_area_trace(1) [of p]
    by (simp add: slot_allocator_allocate_def slot_allocator_def create_fresh slot_consts required_values)
  have s2: "slot_allocator_allocate pick 500 [area_at p 1 (trace1 ?S)] w1 = Some (p + 560, [area_at p 2 (trace2 ?S)], w1)"
    using session_scan2 [OF S] allocate_head_area [of "trace1 ?S" 500 1 1 "trace2 ?S" pick p "[]" w1] by (simp add: required_values)
  obtain T h where s3: "slot_allocator_reallocate pick (p + 560) 130928 [area_at p 2 (trace2 ?S)] w1 =
      Some (p' + 32, [area_at p 2 (trace4 ?S), T], w2\<lparr>os_mem := h\<rparr>)"
    using session_reallocate [OF S assms(3-6)] by blast
  let ?w = "w2\<lparr>os_mem := h\<rparr>"
  have s4: "slot_allocator_allocate pick 500 [area_at p 2 (trace4 ?S), T] ?w = Some (p + 1088, [area_at p 3 (trace5 ?S), T], ?w)"
    using session_scan4 [OF S] allocate_head_area [of "trace4 ?S" 500 2 2 "trace5 ?S" pick p "[T]" ?w] by (simp add: required_values)
  have hi: "header_index (area_at p 3 (trace5 ?S)) (p + 32) = Some 0"
    using header_index_hit [of 0 "area_at p 3 (trace5 ?S)"] trace_length [OF S] assms(6)
    by (simp add: slot_address_def slot_consts add.commute)
  have s5: "slot_allocator_deallocate pick (p + 32) [area_at p 3 (trace5 ?S), T] ?w = Some (True, [area_at p 0 (trace6 ?S), T], ?w)"
    using hi S by (simp add: slot_allocator_deallocate_def slot_allocator_def outside_def slot_eval trace_defs fresh_slots_def)
  obtain T' where "scan (trace6 ?S) 16 0 = Some (Some 0, T')" using session_scan5 [OF S] by blast
  then have s6: "slot_allocator_allocate pick 8000 [area_at p 0 (trace6 ?S), T] ?w = Some (p + 32, [area_at p 16 T', T], ?w)"
    using allocate_head_area [of "trace6 ?S" 8000 0 0 T' pick p "[T]" ?w] by (simp add: required_values)
  have "slot_session pick w0 = Some (p + 1088, p + 32)"
    unfolding slot_session_def s1 Option.bind.bind_lunit prod.case s2 s3 s4 s5 s6 ..
  then show ?thesis by (auto simp: apart_def)
qed

theorem slot_reallocate_overlap_witness:
  "request_page bump_pick 131072 boot_os = (4096, snd (request_page bump_pick 131072 boot_os)) \<and>
   (\<exists>y v. slot_session bump_pick boot_os = Some (y, v) \<and> \<not> apart (y, 500) (v, 8000))"
proof -
  have p: "bump_pick 0 (\<lambda>p. False) 131072 = Some 4096"
    "bump_pick 1 (\<lambda>p. page_in 4096 131072 p) 131072 = Some 1052672"
  proof -
    show "bump_pick 0 (\<lambda>p. False) 131072 = Some 4096" by (simp add: bump_pick_def Let_def list_all_iff)
    have "\<not> page_in 4096 131072 q" if "257 \<le> q" for q using that by (simp add: page_in_def)
    then show "bump_pick 1 (\<lambda>p. page_in 4096 131072 p) 131072 = Some 1052672"
      by (simp add: bump_pick_def Let_def list_all_iff)
  qed
  obtain w1 where w1: "request_page bump_pick 131072 boot_os = (4096, w1)" "os_clock w1 = 1" "os_pages w1 = page_in 4096 131072"
    using p(1) by (simp add: request_page_def boot_os_def)
  obtain w2 where w2: "request_page bump_pick 131072 w1 = (1052672, w2)"
    using p(2) w1(2,3) by (simp add: request_page_def)
  from slot_reallocate_overlap [OF w1(1) _ w2] w1(1) show ?thesis by (simp add: apart_def)
qed

end
