(* ===== verification/Memfs.thy ===== *)
theory Memfs
  imports String_Order
begin

text \<open>
  \<open>task2-fileio/memfs.cpp\<close>: an in-memory file system behind FUSE. The two global containers are
  the state; each callback is an operation that returns the code FUSE passes on (negative for an
  error). A callback that would leave the bounds of a buffer or throw has no result. FUSE itself
  calls the callbacks in some order: \<open>memfs_reach\<close> is every state it can lead to.
\<close>

section \<open>The model\<close>

record File =
  contents :: string

record memfs =
  directories :: "string list"
  files :: "(string \<times> File) list"

record stat =
  st_mode :: nat
  st_size :: nat

definition ENOENT :: int where "ENOENT = 2"
definition S_IFREG :: nat where "S_IFREG = 32768"
definition S_IFDIR :: nat where "S_IFDIR = 16384"

definition empty_stat :: stat where
  "empty_stat = \<lparr>st_mode = 0, st_size = 0\<rparr>"

definition memfs_getattr :: "memfs \<Rightarrow> string \<Rightarrow> int \<times> stat" where
  "memfs_getattr fs path =
     (case map_of (files fs) path of
        Some f \<Rightarrow> (0, empty_stat\<lparr>st_mode := S_IFREG OR 511, st_size := length (contents f)\<rparr>)
      | None \<Rightarrow>
          if path \<in> set (directories fs) then (0, empty_stat\<lparr>st_mode := S_IFDIR OR 493\<rparr>)
          else (- ENOENT, empty_stat))"

text \<open>
  The conditions of the two loops of \<open>readdir\<close>. Paths are C strings, so none contains a zero
  byte and \<open>strncmp\<close> over the first characters compares prefixes.
\<close>

definition listed :: "string \<Rightarrow> string \<Rightarrow> bool" where
  "listed query full \<longleftrightarrow>
     \<not> length full \<le> length query \<and> take (length query) full = query \<and> CHR ''/'' \<notin> set (drop (length query + 1) full)"

definition entry_name :: "string \<Rightarrow> string \<Rightarrow> string" where
  "entry_name query full = drop (length query + 1) full"

definition list_directories :: "string \<Rightarrow> string list \<Rightarrow> string list" where
  "list_directories query ds = map (entry_name query) (filter (\<lambda>d. d \<noteq> ''/'' \<and> listed query d) ds)"

definition list_files :: "string \<Rightarrow> (string \<times> File) list \<Rightarrow> string list" where
  "list_files query fs = map (entry_name query) (filter (listed query) (map fst fs))"

definition query_path :: "string \<Rightarrow> string option" where
  "query_path path = (if path = [] then None else Some (if last path = CHR ''/'' then butlast path else path))"

text \<open>The result is the code and the names passed to the filler.\<close>

definition memfs_readdir :: "memfs \<Rightarrow> string \<Rightarrow> (int \<times> string list) option" where
  "memfs_readdir fs path =
     (if path \<notin> set (directories fs) then Some (- ENOENT, [''.'', ''..''])
      else map_option (\<lambda>query. (0, [''.'', ''..''] @ list_directories query (directories fs) @ list_files query (files fs)))
             (query_path path))"

definition memfs_open :: int where
  "memfs_open = 0"

text \<open>\<open>size_t\<close> results are returned as a 32-bit \<open>int\<close>.\<close>

definition to_int :: "nat \<Rightarrow> int" where
  "to_int n = sint (of_nat n :: u32)"

definition to_size_t :: "int \<Rightarrow> nat" where
  "to_size_t i = nat (i mod 2 ^ 64)"

definition slice :: "string \<Rightarrow> nat \<Rightarrow> nat \<Rightarrow> string option" where
  "slice c offset n = (if offset + n \<le> length c then Some (take n (drop offset c)) else None)"

definition memfs_read :: "memfs \<Rightarrow> string \<Rightarrow> nat \<Rightarrow> int \<Rightarrow> (int \<times> string) option" where
  "memfs_read fs path n offset =
     (case map_of (files fs) path of
        None \<Rightarrow> Some (- ENOENT, [])
      | Some f \<Rightarrow>
          let c = contents f; from = to_size_t offset in
          if offset \<ge> int (length c) then Some (0, [])
          else if add64 from n > length c
          then map_option (\<lambda>b. (to_int (length c - from), b)) (slice c from (sub64 (length c) from))
          else map_option (\<lambda>b. (to_int n, b)) (slice c from n))"

definition resize :: "nat \<Rightarrow> string \<Rightarrow> string" where
  "resize n c = take n c @ replicate (n - length c) (CHR 0x00)"

text \<open>\<open>resize\<close> throws beyond the maximal size of a vector; the buffer holds \<open>size\<close> bytes.\<close>

definition memfs_write :: "memfs \<Rightarrow> string \<Rightarrow> string \<Rightarrow> int \<Rightarrow> (int \<times> memfs) option" where
  "memfs_write fs path buffer offset =
     (case map_of (files fs) path of
        None \<Rightarrow> Some (- ENOENT, fs)
      | Some f \<Rightarrow>
          let n = length buffer; from = to_size_t offset; total = add64 from n in
          if total \<ge> 2 ^ 63 then None
          else if from + n \<noteq> total then None
          else
            let c = resize total (contents f)
            in Some (to_int n,
                     fs\<lparr>files := map_assign str_less path (f\<lparr>contents := take from c @ buffer @ drop (from + n) c\<rparr>) (files fs)\<rparr>))"

definition memfs_create :: "memfs \<Rightarrow> string \<Rightarrow> int \<times> memfs" where
  "memfs_create fs path = (0, fs\<lparr>files := map_assign str_less path \<lparr>contents = []\<rparr> (files fs)\<rparr>)"

definition memfs_mkdir :: "memfs \<Rightarrow> string \<Rightarrow> int \<times> memfs" where
  "memfs_mkdir fs path = (0, fs\<lparr>directories := set_emplace str_less path (directories fs)\<rparr>)"

definition memfs_utimens :: int where
  "memfs_utimens = 0"

text \<open>Start-up: the state and the arguments \<open>fuse_main\<close> is called with, or the exit for wrong usage.\<close>

definition memfs_main :: "string list \<Rightarrow> memfs \<times> string list option" where
  "memfs_main argv =
     (\<lparr>directories = set_emplace str_less ''/'' [], files = []\<rparr>,
      if length argv \<noteq> 2 then None else Some [argv ! 0, ''-s'', ''-f'', argv ! 1])"

section \<open>Reachable states\<close>

text \<open>FUSE passes absolute paths without a trailing slash (but for the root).\<close>

definition fuse_path :: "string \<Rightarrow> bool" where
  "fuse_path path \<longleftrightarrow> path \<noteq> [] \<and> hd path = CHR ''/'' \<and> (path = ''/'' \<or> last path \<noteq> CHR ''/'')"

inductive memfs_step :: "memfs \<Rightarrow> memfs \<Rightarrow> bool" where
  step_mkdir: "fuse_path path \<Longrightarrow> memfs_mkdir fs path = (r, fs') \<Longrightarrow> memfs_step fs fs'"
| step_create: "fuse_path path \<Longrightarrow> path \<noteq> ''/'' \<Longrightarrow> memfs_create fs path = (r, fs') \<Longrightarrow> memfs_step fs fs'"
| step_write: "fuse_path path \<Longrightarrow> memfs_write fs path buffer offset = Some (r, fs') \<Longrightarrow> memfs_step fs fs'"

inductive memfs_reach :: "memfs \<Rightarrow> bool" where
  reach_start: "memfs_reach (fst (memfs_main argv))"
| reach_step: "memfs_reach fs \<Longrightarrow> memfs_step fs fs' \<Longrightarrow> memfs_reach fs'"

definition memfs_ok :: "memfs \<Rightarrow> bool" where
  "memfs_ok fs \<longleftrightarrow> sorted_wrt str_less (directories fs) \<and> sorted_wrt str_less (map fst (files fs)) \<and>
     ''/'' \<in> set (directories fs) \<and> list_all fuse_path (directories fs) \<and> list_all fuse_path (map fst (files fs)) \<and>
     ''/'' \<notin> fst ` set (files fs)"

lemma map_assign_all:
  "list_all P (map fst m) \<Longrightarrow> P k \<Longrightarrow> list_all P (map fst (map_assign str_less k v m))"
  using str_lt.map_assign_keys [of k v m] by (auto simp: list_all_iff)

lemma memfs_ok_assign:
  assumes "memfs_ok fs" "fuse_path path" "path \<noteq> ''/''"
  shows "memfs_ok (fs\<lparr>files := map_assign str_less path v (files fs)\<rparr>)"
proof -
  have "''/'' \<notin> fst ` set (map_assign str_less path v (files fs))"
    using assms unfolding str_lt.map_assign_keys memfs_ok_def by blast
  then show ?thesis using assms str_lt.map_assign_sorted [of "files fs" path v] map_assign_all [of fuse_path "files fs" path v]
    unfolding memfs_ok_def by simp
qed

lemma memfs_step_ok:
  assumes "memfs_step fs fs'" "memfs_ok fs"
  shows "memfs_ok fs'"
  using assms
proof cases
  case (step_mkdir path r)
  then show ?thesis using assms(2) str_lt.set_emplace_sorted str_lt.set_emplace_set [of path "directories fs"]
    by (auto simp: memfs_ok_def memfs_mkdir_def list_all_iff)
next
  case (step_create path r)
  then show ?thesis using memfs_ok_assign [OF assms(2)] by (auto simp: memfs_create_def)
next
  case (step_write path buffer offset r)
  show ?thesis
  proof (cases "map_of (files fs) path")
    case None
    then show ?thesis using step_write assms(2) by (simp add: memfs_write_def)
  next
    case (Some f)
    then have "path \<noteq> ''/''" using assms(2) by (force simp: memfs_ok_def dest: map_of_SomeD)
    moreover obtain v where "fs' = fs\<lparr>files := map_assign str_less path v (files fs)\<rparr>"
      using step_write(2) Some by (auto simp: memfs_write_def Let_def split: if_splits)
    ultimately show ?thesis using memfs_ok_assign [OF assms(2) step_write(1)] by simp
  qed
qed

lemma memfs_reach_ok: "memfs_reach fs \<Longrightarrow> memfs_ok fs"
proof (induction rule: memfs_reach.induct)
  case (reach_start argv)
  then show ?case by (simp add: memfs_ok_def memfs_main_def fuse_path_def)
qed (rule memfs_step_ok)

section \<open>Contents\<close>

lemma to_size_t_nat [simp]: "0 \<le> offset \<Longrightarrow> offset < 2 ^ 64 \<Longrightarrow> to_size_t offset = nat offset"
  by (simp add: to_size_t_def)

lemma to_int_small: "n < 2 ^ 31 \<Longrightarrow> to_int n = int n"
  by (simp add: to_int_def signed_of_nat signed_take_bit_int_eq_self)

lemma memfs_write_file:
  assumes "map_of (files fs) path = Some f" "0 \<le> offset" "nat offset + length buffer < 2 ^ 63"
  shows "memfs_write fs path buffer offset = Some (to_int (length buffer),
    fs\<lparr>files := map_assign str_less path \<lparr>contents = resize (nat offset) (contents f) @ buffer\<rparr> (files fs)\<rparr>)"
proof -
  have t: "to_size_t offset = nat offset" "add64 (nat offset) (length buffer) = nat offset + length buffer"
    using assms(2,3) by (simp_all add: add64_exact nat_less_iff)
  have "take (nat offset) (resize (nat offset + length buffer) c) = resize (nat offset) c" for c
    by (simp add: resize_def min_def)
  moreover have "drop (nat offset + length buffer) (resize (nat offset + length buffer) c) = []" for c
    by (simp add: resize_def)
  moreover obtain c where "f = \<lparr>contents = c\<rparr>" by (cases f)
  ultimately show ?thesis using assms t by (simp add: memfs_write_def Let_def)
qed

text \<open>
  C23. What is written is read back: after a write of \<open>buffer\<close> at \<open>offset\<close> to an existing file,
  which reports the number of bytes, a read of that many bytes there returns them. The file
  then consists of its old contents up to the offset, filled up with zero bytes if it was shorter,
  and the bytes written; what the file held behind them is cut off. All other files and the
  directories are unchanged.
\<close>

theorem memfs_write_read:
  assumes "map_of (files fs) path = Some f" "0 \<le> offset" "offset + int (length buffer) < 2 ^ 31" "buffer \<noteq> []"
  shows "\<exists>fs'. memfs_write fs path buffer offset = Some (int (length buffer), fs') \<and>
    memfs_read fs' path (length buffer) offset = Some (int (length buffer), buffer) \<and>
    map_of (files fs') path = Some \<lparr>contents = take (nat offset) (contents f) @ replicate (nat offset - length (contents f)) (CHR 0x00) @ buffer\<rparr> \<and>
    directories fs' = directories fs \<and> (\<forall>p. p \<noteq> path \<longrightarrow> map_of (files fs') p = map_of (files fs) p)"
proof -
  have n: "nat offset + length buffer < 2 ^ 63" "length buffer < 2 ^ 31" "offset < 2 ^ 64" using assms(2,3) by auto
  let ?c = "resize (nat offset) (contents f) @ buffer"
  let ?fs = "fs\<lparr>files := map_assign str_less path \<lparr>contents = ?c\<rparr> (files fs)\<rparr>"
  have w: "memfs_write fs path buffer offset = Some (int (length buffer), ?fs)"
    using memfs_write_file [OF assms(1,2) n(1)] to_int_small [OF n(2)] by simp
  have len: "length (resize (nat offset) (contents f)) = nat offset" by (simp add: resize_def)
  have "memfs_read ?fs path (length buffer) offset = Some (int (length buffer), buffer)"
    using assms(2,4) n len to_int_small [OF n(2)]
    by (simp add: memfs_read_def str_lt.map_assign_lookup slice_def add64_exact Let_def)
  then show ?thesis using w by (auto simp: str_lt.map_assign_lookup resize_def)
qed

definition example_fs :: memfs where
  "example_fs = \<lparr>directories = [''/'', ''/a''], files = [(''/a/x'', \<lparr>contents = ''hello''\<rparr>), (''/ab'', \<lparr>contents = []\<rparr>)]\<rparr>"

theorem memfs_write_read_witness:
  "map_of (files example_fs) ''/a/x'' = Some \<lparr>contents = ''hello''\<rparr> \<and>
   (\<exists>fs'. memfs_write example_fs ''/a/x'' ''EY'' 1 = Some (2, fs') \<and> memfs_read fs' ''/a/x'' 2 1 = Some (2, ''EY''))"
proof -
  have m: "map_of (files example_fs) ''/a/x'' = Some \<lparr>contents = ''hello''\<rparr>" by (simp add: example_fs_def)
  have "int (length ''EY'') = 2" "length ''EY'' = 2" by simp_all
  with memfs_write_read [OF m, of 1 "''EY''"] m show ?thesis by (auto simp: numeral_2_eq_2)
qed

text \<open>A write in the middle of a file cuts off what follows it.\<close>

lemma memfs_write_truncates:
  "\<exists>fs'. memfs_write example_fs ''/a/x'' ''EY'' 1 = Some (2, fs') \<and> memfs_read fs' ''/a/x'' 9 0 = Some (3, ''hEY'')"
proof -
  have m: "map_of (files example_fs) ''/a/x'' = Some \<lparr>contents = ''hello''\<rparr>" by (simp add: example_fs_def)
  have "resize (nat 1) ''hello'' @ ''EY'' = ''hEY''" "to_int (length ''EY'') = 2" by (simp_all add: resize_def to_int_small)
  with memfs_write_file [OF m, of 1 "''EY''"] have w: "memfs_write example_fs ''/a/x'' ''EY'' 1 =
    Some (2, example_fs\<lparr>files := map_assign str_less ''/a/x'' \<lparr>contents = ''hEY''\<rparr> (files example_fs)\<rparr>)" by simp
  have "add64 0 9 = 9" "sub64 3 0 = 3" "to_int 3 = 3" by (simp_all add: add64_def sub64_def to_int_small)
  then show ?thesis using w by (simp add: memfs_read_def str_lt.map_assign_lookup slice_def Let_def eval_nat_numeral(3) [symmetric] flip: numeral_3_eq_3)
qed

section \<open>Listing a directory\<close>

text \<open>The specification: the entries whose path is the directory, a slash and a name without one.\<close>

definition base_of :: "string \<Rightarrow> string" where
  "base_of path = (if path = ''/'' then [] else path)"

definition is_child :: "string \<Rightarrow> string \<Rightarrow> string \<Rightarrow> bool" where
  "is_child path name full \<longleftrightarrow> full = base_of path @ CHR ''/'' # name \<and> name \<noteq> [] \<and> CHR ''/'' \<notin> set name"

lemma query_base: "fuse_path path \<Longrightarrow> query_path path = Some (base_of path)"
  by (auto simp: fuse_path_def query_path_def base_of_def)

lemma listed_child:
  assumes "fuse_path full" "full \<noteq> ''/''" "take (length q) full = q \<and> length q < length full \<longrightarrow> full ! length q = CHR ''/''"
  shows "listed q full \<and> entry_name q full = name \<longleftrightarrow> full = q @ CHR ''/'' # name \<and> name \<noteq> [] \<and> CHR ''/'' \<notin> set name"
proof
  assume l: "listed q full \<and> entry_name q full = name"
  then have "length q < length full" "take (length q) full = q" "full ! length q = CHR ''/''" using assms(3) by (auto simp: listed_def)
  then have f: "full = q @ CHR ''/'' # name" using l id_take_nth_drop [of "length q" full] by (simp add: entry_name_def)
  moreover have "name \<noteq> []" using f assms(1,2) by (auto simp: fuse_path_def)
  ultimately show "full = q @ CHR ''/'' # name \<and> name \<noteq> [] \<and> CHR ''/'' \<notin> set name" using l by (simp add: listed_def)
qed (auto simp: listed_def entry_name_def)

definition no_prefix_sibling :: "memfs \<Rightarrow> string \<Rightarrow> bool" where
  "no_prefix_sibling fs path \<longleftrightarrow> (\<forall>full \<in> set (directories fs @ map fst (files fs)).
     take (length (base_of path)) full = base_of path \<and> length (base_of path) < length full \<longrightarrow> full ! length (base_of path) = CHR ''/'')"

text \<open>
  C22. In every state FUSE can reach, listing an existing directory succeeds and gives, after the
  two dot entries, exactly the names of the directories and files in it, provided no other
  entry merely has the directory's path as a string prefix. The root never has such an entry.
\<close>

theorem memfs_readdir_children:
  assumes "memfs_reach fs" "path \<in> set (directories fs)" "path = ''/'' \<or> no_prefix_sibling fs path"
  shows "\<exists>ds fl. memfs_readdir fs path = Some (0, [''.'', ''..''] @ ds @ fl) \<and>
    (\<forall>name. name \<in> set ds \<longleftrightarrow> (\<exists>full \<in> set (directories fs). is_child path name full)) \<and>
    (\<forall>name. name \<in> set fl \<longleftrightarrow> (\<exists>full \<in> fst ` set (files fs). is_child path name full))"
proof -
  have ok: "memfs_ok fs" using assms(1) by (rule memfs_reach_ok)
  have fp: "\<And>d. d \<in> set (directories fs) \<Longrightarrow> fuse_path d" "\<And>d. d \<in> fst ` set (files fs) \<Longrightarrow> fuse_path d \<and> d \<noteq> ''/''"
    using ok unfolding memfs_ok_def list_all_iff set_map by blast+
  let ?q = "base_of path"
  have sib: "take (length ?q) full = ?q \<and> length ?q < length full \<longrightarrow> full ! length ?q = CHR ''/''"
    if "full \<in> set (directories fs) \<or> full \<in> fst ` set (files fs)" for full
  proof (cases "path = ''/''")
    case True
    have "fuse_path full" using that fp by blast
    then show ?thesis using True by (cases full) (auto simp: base_of_def fuse_path_def)
  next
    case False
    then show ?thesis using assms(3) that by (auto simp: no_prefix_sibling_def)
  qed
  have "memfs_readdir fs path = Some (0, [''.'', ''..''] @ list_directories ?q (directories fs) @ list_files ?q (files fs))"
    using assms(2) query_base [OF fp(1) [OF assms(2)]] by (simp add: memfs_readdir_def)
  moreover have "name \<in> set (list_directories ?q (directories fs)) \<longleftrightarrow> (\<exists>full \<in> set (directories fs). is_child path name full)" for name
  proof -
    have "is_child path name full \<longleftrightarrow> full \<noteq> ''/'' \<and> listed ?q full \<and> entry_name ?q full = name" if "full \<in> set (directories fs)" for full
      using listed_child [OF fp(1) [OF that] _ sib] that by (cases "full = ''/''") (auto simp: is_child_def Cons_eq_append_conv)
    then show ?thesis by (auto simp: list_directories_def)
  qed
  moreover have "name \<in> set (list_files ?q (files fs)) \<longleftrightarrow> (\<exists>full \<in> fst ` set (files fs). is_child path name full)" for name
  proof -
    have "is_child path name full \<longleftrightarrow> listed ?q full \<and> entry_name ?q full = name" if "full \<in> fst ` set (files fs)" for full
      using listed_child [OF _ _ sib] fp(2) [OF that] that by (simp add: is_child_def)
    then show ?thesis by (auto simp: list_files_def)
  qed
  ultimately show ?thesis by blast
qed

lemma example_reach: "memfs_reach example_fs"
proof -
  let ?a = "\<lparr>directories = [''/''], files = []\<rparr>" and ?b = "\<lparr>directories = [''/'', ''/a''], files = []\<rparr>"
  let ?c = "?b\<lparr>files := [(''/a/x'', \<lparr>contents = []\<rparr>)]\<rparr>" and ?d = "?b\<lparr>files := [(''/a/x'', \<lparr>contents = []\<rparr>), (''/ab'', \<lparr>contents = []\<rparr>)]\<rparr>"
  have "memfs_reach ?a" using reach_start [of "[]"] by (simp add: memfs_main_def)
  moreover have "memfs_step ?a ?b" by (rule step_mkdir [of "''/a''" _ 0]) (simp_all add: fuse_path_def memfs_mkdir_def str_less_def)
  moreover have "memfs_step ?b ?c" by (rule step_create [of "''/a/x''" _ 0]) (simp_all add: fuse_path_def memfs_create_def str_less_def)
  moreover have "memfs_step ?c ?d" by (rule step_create [of "''/ab''" _ 0]) (simp_all add: fuse_path_def memfs_create_def str_less_def)
  moreover have "memfs_step ?d example_fs"
  proof (rule step_write)
    have m: "map_of (files ?d) ''/a/x'' = Some \<lparr>contents = []\<rparr>" by simp
    from memfs_write_file [OF m, of 0 "''hello''"] show "memfs_write ?d ''/a/x'' ''hello'' 0 = Some (to_int (length ''hello''), example_fs)"
      by (simp add: resize_def str_less_def example_fs_def)
  qed (simp add: fuse_path_def)
  ultimately show ?thesis using reach_step by blast
qed

theorem memfs_readdir_children_witness:
  "memfs_reach example_fs \<and> ''/'' \<in> set (directories example_fs) \<and>
   (\<exists>ds fl. memfs_readdir example_fs ''/'' = Some (0, [''.'', ''..''] @ ds @ fl) \<and> ''a'' \<in> set ds)"
proof -
  have d: "''/'' \<in> set (directories example_fs)" "''/a'' \<in> set (directories example_fs)" by (simp_all add: example_fs_def)
  have "is_child ''/'' ''a'' ''/a''" by (simp add: is_child_def base_of_def)
  then show ?thesis using memfs_readdir_children [OF example_reach d(1)] example_reach d by blast
qed

text \<open>The side condition is needed: the file \<open>/ab\<close> shows up, cut short, in the directory \<open>/a\<close>.\<close>

lemma memfs_readdir_prefix:
  "memfs_readdir example_fs ''/a'' = Some (0, [''.'', ''..'', ''x'', []])"
  by (simp add: memfs_readdir_def example_fs_def query_path_def list_directories_def list_files_def listed_def entry_name_def)

section \<open>Refinement of a map from paths to nodes\<close>

text \<open>What the file system stands for: a file hides a directory of the same path.\<close>

datatype node = Dir | Regular string

type_synonym tree = "string \<Rightarrow> node option"

definition tree_of :: "memfs \<Rightarrow> tree" where
  "tree_of fs path = (case map_of (files fs) path of
     Some f \<Rightarrow> Some (Regular (contents f)) | None \<Rightarrow> if path \<in> set (directories fs) then Some Dir else None)"

datatype call = Getattr string | Read string nat int | Write string string int | Create string | Mkdir string

datatype answer = Attributes int stat | Data int string | Code int

text \<open>The callbacks, and what they answer on the tree.\<close>

fun memfs_call :: "call \<Rightarrow> memfs \<Rightarrow> (answer \<times> memfs) option" where
  "memfs_call (Getattr path) fs = (case memfs_getattr fs path of (r, st) \<Rightarrow> Some (Attributes r st, fs))"
| "memfs_call (Read path n offset) fs = map_option (\<lambda>(r, b). (Data r b, fs)) (memfs_read fs path n offset)"
| "memfs_call (Write path buffer offset) fs = map_option (\<lambda>(r, fs'). (Code r, fs')) (memfs_write fs path buffer offset)"
| "memfs_call (Create path) fs = (case memfs_create fs path of (r, fs') \<Rightarrow> Some (Code r, fs'))"
| "memfs_call (Mkdir path) fs = (case memfs_mkdir fs path of (r, fs') \<Rightarrow> Some (Code r, fs'))"

fun tree_call :: "call \<Rightarrow> tree \<Rightarrow> answer \<times> tree" where
  "tree_call (Getattr path) t = (case t path of
     None \<Rightarrow> (Attributes (- 2) \<lparr>st_mode = 0, st_size = 0\<rparr>, t)
   | Some Dir \<Rightarrow> (Attributes 0 \<lparr>st_mode = 16877, st_size = 0\<rparr>, t)
   | Some (Regular c) \<Rightarrow> (Attributes 0 \<lparr>st_mode = 33279, st_size = length c\<rparr>, t))"
| "tree_call (Read path n offset) t = (case t path of
     Some (Regular c) \<Rightarrow> (Data (int (length (take n (drop (nat offset) c)))) (take n (drop (nat offset) c)), t)
   | _ \<Rightarrow> (Data (- 2) [], t))"
| "tree_call (Write path buffer offset) t = (case t path of
     Some (Regular c) \<Rightarrow> (Code (int (length buffer)),
       t(path \<mapsto> Regular (take (nat offset) c @ replicate (nat offset - length c) (CHR 0x00) @ buffer)))
   | _ \<Rightarrow> (Code (- 2), t))"
| "tree_call (Create path) t = (Code 0, t(path \<mapsto> Regular []))"
| "tree_call (Mkdir path) t = (Code 0, if t path = None then t(path \<mapsto> Dir) else t)"

text \<open>Offsets are not negative, and positions in files stay below \<open>2^31\<close>, where the results fit an \<open>int\<close>.\<close>

fun in_range :: "call \<Rightarrow> bool" where
  "in_range (Read path n offset) \<longleftrightarrow> 0 \<le> offset \<and> offset + int n < 2 ^ 31"
| "in_range (Write path buffer offset) \<longleftrightarrow> 0 \<le> offset \<and> offset + int (length buffer) < 2 ^ 31"
| "in_range c \<longleftrightarrow> True"

lemma tree_of_file: "map_of (files fs) path = Some f \<Longrightarrow> tree_of fs path = Some (Regular (contents f))"
  by (simp add: tree_of_def)

lemma tree_of_assign: "tree_of (fs\<lparr>files := map_assign str_less path f (files fs)\<rparr>) = (tree_of fs)(path \<mapsto> Regular (contents f))"
  by (rule ext) (simp add: tree_of_def str_lt.map_assign_lookup)

lemma read_refines:
  assumes "map_of (files fs) path = Some f" "0 \<le> offset" "offset + int n < 2 ^ 31"
  shows "memfs_read fs path n offset =
    Some (int (length (take n (drop (nat offset) (contents f)))), take n (drop (nat offset) (contents f)))"
proof -
  let ?c = "contents f"
  have t: "to_size_t offset = nat offset" "add64 (nat offset) n = nat offset + n" using assms(2,3) by (simp_all add: add64_exact)
  show ?thesis
  proof (cases "offset \<ge> int (length ?c)")
    case True
    then show ?thesis using assms(1) by (simp add: memfs_read_def Let_def)
  next
    case False
    then have o: "nat offset < length ?c" using assms(2) by linarith
    show ?thesis
    proof (cases "nat offset + n > length ?c")
      case True
      then have "length ?c < nat (2 ^ 31)" using assms(2,3) by linarith
      then have "length ?c < 2 ^ 31" by simp
      then have "sub64 (length ?c) (nat offset) = length ?c - nat offset" "to_int (length ?c - nat offset) = int (length ?c - nat offset)"
        using o by (simp_all add: sub64_exact to_int_small)
      moreover have "take n (drop (nat offset) ?c) = drop (nat offset) ?c" using True by (intro take_all) simp
      ultimately show ?thesis using assms(1,2) False True t o by (simp add: memfs_read_def Let_def slice_def)
    next
      case small: False
      have "n < nat (2 ^ 31)" using assms(2,3) by linarith
      then have "to_int n = int n" by (intro to_int_small) simp
      moreover have "min (length ?c - nat offset) n = n" using small by (intro min_absorb2) linarith
      ultimately show ?thesis using assms(1) False small t o by (simp add: memfs_read_def Let_def slice_def)
    qed
  qed
qed

lemma call_refines:
  assumes "in_range c"
  shows "\<exists>fs'. memfs_call c fs = Some (fst (tree_call c (tree_of fs)), fs') \<and> tree_of fs' = snd (tree_call c (tree_of fs))"
proof (cases c)
  case (Getattr path)
  then show ?thesis
    by (auto simp: tree_of_def memfs_getattr_def empty_stat_def S_IFREG_def S_IFDIR_def ENOENT_def split: option.splits if_splits)
next
  case (Read path n offset)
  show ?thesis
  proof (cases "map_of (files fs) path")
    case None
    then show ?thesis using Read by (simp add: memfs_read_def tree_of_def ENOENT_def)
  next
    case (Some f)
    then show ?thesis using Read assms read_refines [OF Some, of offset n] tree_of_file [OF Some] by simp
  qed
next
  case (Write path buffer offset)
  show ?thesis
  proof (cases "map_of (files fs) path")
    case None
    then show ?thesis using Write by (simp add: memfs_write_def tree_of_def ENOENT_def)
  next
    case (Some f)
    have "0 \<le> offset" "offset + int (length buffer) < 2 ^ 31" using assms Write by simp_all
    then have "nat offset + length buffer < nat (2 ^ 31)" by linarith
    then have "nat offset + length buffer < 2 ^ 63" "to_int (length buffer) = int (length buffer)"
      by (simp_all add: to_int_small)
    then show ?thesis using memfs_write_file [OF Some, of offset buffer] tree_of_file [OF Some] assms Write
      by (simp add: tree_of_assign resize_def)
  qed
next
  case (Create path)
  then show ?thesis by (simp add: memfs_create_def tree_of_assign)
next
  case (Mkdir path)
  then show ?thesis by (auto simp: memfs_mkdir_def tree_of_def str_lt.set_emplace_set fun_eq_iff split: option.splits)
qed

text \<open>A sequence of calls and the answers to it.\<close>

primrec memfs_calls :: "call list \<Rightarrow> memfs \<Rightarrow> answer list option" where
  "memfs_calls [] fs = Some []"
| "memfs_calls (c # cs) fs = Option.bind (memfs_call c fs) (\<lambda>(a, fs'). map_option (Cons a) (memfs_calls cs fs'))"

primrec tree_calls :: "call list \<Rightarrow> tree \<Rightarrow> answer list" where
  "tree_calls [] t = []"
| "tree_calls (c # cs) t = (case tree_call c t of (a, t') \<Rightarrow> a # tree_calls cs t')"

lemma calls_refine: "list_all in_range cs \<Longrightarrow> memfs_calls cs fs = Some (tree_calls cs (tree_of fs))"
proof (induction cs arbitrary: fs)
  case (Cons c cs)
  have "in_range c" using Cons.prems by simp
  from call_refines [OF this] obtain fs' where
    "memfs_call c fs = Some (fst (tree_call c (tree_of fs)), fs')" "tree_of fs' = snd (tree_call c (tree_of fs))" by blast
  then show ?case using Cons by (simp add: case_prod_beta)
qed simp

text \<open>
  C21. From its start on the file system answers every sequence of calls as a map from paths to
  nodes does that holds the root directory only. Attributes are the kind and mode of the node and
  the length of a file; a read returns what the file holds in that range; a write to a file keeps
  what is before the offset, padded with zero bytes, and replaces all the rest; creating a file
  empties it, also in the place of a directory; making a directory leaves an existing node alone;
  what does not exist, or is read or written without being a file, is reported as missing. Offsets
  are not negative, and no access reaches \<open>2^31\<close>.
\<close>

theorem memfs_refines_tree:
  assumes "list_all in_range cs"
  shows "memfs_calls cs (fst (memfs_main argv)) = Some (tree_calls cs [''/'' \<mapsto> Dir])"
proof -
  have "tree_of (fst (memfs_main argv)) = [''/'' \<mapsto> Dir]" by (rule ext) (simp add: tree_of_def memfs_main_def)
  then show ?thesis using calls_refine [OF assms, of "fst (memfs_main argv)"] by simp
qed

theorem memfs_refines_tree_witness:
  "memfs_calls [Create ''/x'', Write ''/x'' ''hello'' 0, Write ''/x'' ''EY'' 1, Read ''/x'' 9 0, Mkdir ''/d'', Getattr ''/d''] (fst (memfs_main [])) =
     Some [Code 0, Code 5, Code 2, Data 3 ''hEY'', Code 0, Attributes 0 \<lparr>st_mode = 16877, st_size = 0\<rparr>]"
  using memfs_refines_tree [of "[Create ''/x'', Write ''/x'' ''hello'' 0, Write ''/x'' ''EY'' 1, Read ''/x'' 9 0, Mkdir ''/d'', Getattr ''/d'']" "[]"]
  by (simp add: numeral_nat)

end
