(* ===== verification/Spinlock.thy ===== *)
theory Spinlock
  imports Prelude
begin

text \<open>
  \<open>task4-concurrency/src/spinlock.cpp\<close>: a spin lock on one atomic variable. Each operation makes
  one \<open>compare_exchange_weak\<close>, which is atomic; the parameter \<open>spurious\<close> of a call says whether
  this exchange fails although the value is the expected one, as the C++ standard allows. The
  threads of a program interleave as the step relation says; a thread releases the lock only
  when an acquisition has returned to it.
\<close>

section \<open>The model\<close>

datatype LockState = Locked | Unlocked

record SpinLock =
  lock_state :: LockState

definition cspin_alloc :: SpinLock where
  "cspin_alloc = \<lparr>lock_state = Unlocked\<rparr>"

text \<open>The result is the new value of the variable and of \<open>expected\<close>.\<close>

definition compare_exchange_weak :: "bool \<Rightarrow> LockState \<Rightarrow> LockState \<Rightarrow> LockState \<Rightarrow> LockState \<times> LockState" where
  "compare_exchange_weak spurious v expected desired =
     (if v = expected then (if spurious then (v, expected) else (desired, expected)) else (v, v))"

text \<open>One iteration of the loop; the flag says whether the loop is left.\<close>

definition cspin_lock_iteration :: "bool \<Rightarrow> SpinLock \<Rightarrow> SpinLock \<times> bool" where
  "cspin_lock_iteration spurious spin =
     (case compare_exchange_weak spurious (lock_state spin) Unlocked Locked of
        (v, expected) \<Rightarrow> (spin\<lparr>lock_state := v\<rparr>, expected = Unlocked))"

definition cspin_trylock :: "bool \<Rightarrow> SpinLock \<Rightarrow> SpinLock \<times> bool" where
  "cspin_trylock spurious spin =
     (case compare_exchange_weak spurious (lock_state spin) Unlocked Locked of
        (v, expected) \<Rightarrow> (spin\<lparr>lock_state := v\<rparr>, expected = Unlocked))"

definition cspin_unlock :: "bool \<Rightarrow> SpinLock \<Rightarrow> SpinLock" where
  "cspin_unlock spurious spin =
     (case compare_exchange_weak spurious (lock_state spin) Locked Unlocked of
        (v, expected) \<Rightarrow> spin\<lparr>lock_state := v\<rparr>)"

text \<open>
  The whole loop against an environment: \<open>env i v\<close> is what the other threads make of the value
  \<open>v\<close> before iteration \<open>i\<close>, and \<open>spurious i\<close> says whether the exchange of iteration \<open>i\<close> fails
  spuriously if it can. The result is the lock and the returned 0; a loop that is never left has
  no result.
\<close>

partial_function (option) cspin_lock ::
  "(nat \<Rightarrow> bool) \<Rightarrow> (nat \<Rightarrow> LockState \<Rightarrow> LockState) \<Rightarrow> nat \<Rightarrow> SpinLock \<Rightarrow> (SpinLock \<times> int) option" where
  "cspin_lock spurious env i spin =
     (case cspin_lock_iteration (spurious i) (spin\<lparr>lock_state := env i (lock_state spin)\<rparr>) of
        (spin', done) \<Rightarrow> if done then Some (spin', 0) else cspin_lock spurious env (Suc i) spin')"

declare cspin_lock.simps [code]

section \<open>Interleavings\<close>

datatype phase = Idle | Spinning | Critical

record spin_system =
  spin :: SpinLock
  phase_of :: "nat \<Rightarrow> phase"

inductive spin_step :: "bool \<Rightarrow> spin_system \<Rightarrow> spin_system \<Rightarrow> bool" for spurious :: bool where
  call_lock: "phase_of s t = Idle \<Longrightarrow> spin_step spurious s (s\<lparr>phase_of := (phase_of s)(t := Spinning)\<rparr>)"
| spin_once: "phase_of s t = Spinning \<Longrightarrow> f \<longrightarrow> spurious \<Longrightarrow> cspin_lock_iteration f (spin s) = (l, done) \<Longrightarrow>
    spin_step spurious s (s\<lparr>spin := l, phase_of := (phase_of s)(t := (if done then Critical else Spinning))\<rparr>)"
| call_trylock: "phase_of s t = Idle \<Longrightarrow> f \<longrightarrow> spurious \<Longrightarrow> cspin_trylock f (spin s) = (l, taken) \<Longrightarrow>
    spin_step spurious s (s\<lparr>spin := l, phase_of := (phase_of s)(t := (if taken then Critical else Idle))\<rparr>)"
| call_unlock: "phase_of s t = Critical \<Longrightarrow> f \<longrightarrow> spurious \<Longrightarrow> cspin_unlock f (spin s) = l \<Longrightarrow>
    spin_step spurious s (s\<lparr>spin := l, phase_of := (phase_of s)(t := Idle)\<rparr>)"

inductive_cases spin_stepE: "spin_step spurious s s'"

definition spin_start :: spin_system where
  "spin_start = \<lparr>spin = cspin_alloc, phase_of = (\<lambda>t. Idle)\<rparr>"

abbreviation spin_reach :: "bool \<Rightarrow> spin_system \<Rightarrow> bool" where
  "spin_reach spurious \<equiv> (spin_step spurious)\<^sup>*\<^sup>* spin_start"

definition spin_inv :: "spin_system \<Rightarrow> bool" where
  "spin_inv s \<longleftrightarrow>
     (case lock_state (spin s) of
        Unlocked \<Rightarrow> \<forall>t. phase_of s t \<noteq> Critical
      | Locked \<Rightarrow> \<exists>t. phase_of s t = Critical \<and> (\<forall>u. phase_of s u = Critical \<longrightarrow> u = t))"

lemmas spin_ops = cspin_lock_iteration_def cspin_trylock_def cspin_unlock_def compare_exchange_weak_def

text \<open>What acquiring and releasing does to the invariant.\<close>

lemma spin_inv_take:
  assumes "spin_inv s" "lock_state (spin s) = Unlocked"
  shows "spin_inv (s\<lparr>spin := \<lparr>lock_state = Locked\<rparr>, phase_of := (phase_of s)(t := Critical)\<rparr>)"
  using assms by (auto simp: spin_inv_def)

lemma spin_inv_wait:
  assumes "spin_inv s" "phase_of s t \<noteq> Critical" "p \<noteq> Critical"
  shows "spin_inv (s\<lparr>phase_of := (phase_of s)(t := p)\<rparr>)"
proof (cases "lock_state (spin s)")
  case Locked
  then obtain u where "phase_of s u = Critical" "\<forall>v. phase_of s v = Critical \<longrightarrow> v = u" using assms(1) by (auto simp: spin_inv_def)
  then show ?thesis using Locked assms(2,3) by (auto simp: spin_inv_def intro!: exI [of _ u])
qed (use assms in \<open>simp add: spin_inv_def\<close>)

lemma spin_inv_release:
  assumes "spin_inv s" "phase_of s t = Critical"
  shows "lock_state (spin s) = Locked" "spin_inv (s\<lparr>spin := \<lparr>lock_state = Unlocked\<rparr>, phase_of := (phase_of s)(t := Idle)\<rparr>)"
proof -
  show "lock_state (spin s) = Locked" using assms by (cases "lock_state (spin s)") (auto simp: spin_inv_def)
  then have "\<forall>u. phase_of s u = Critical \<longrightarrow> u = t" using assms by (auto simp: spin_inv_def)
  then show "spin_inv (s\<lparr>spin := \<lparr>lock_state = Unlocked\<rparr>, phase_of := (phase_of s)(t := Idle)\<rparr>)" by (auto simp: spin_inv_def)
qed

lemma spin_attempt:
  "cspin_lock_iteration False l = (if lock_state l = Unlocked then (l\<lparr>lock_state := Locked\<rparr>, True) else (l, False))"
  "cspin_trylock False l = cspin_lock_iteration False l"
  by (cases "lock_state l"; simp add: spin_ops)+

lemma spin_lock_eq: "(l :: SpinLock)\<lparr>lock_state := v\<rparr> = \<lparr>lock_state = v\<rparr>"
  by (cases l) simp

lemma spin_step_inv:
  assumes "spin_step False s s'" "spin_inv s"
  shows "spin_inv s'"
  using assms(1)
proof cases
  case (call_lock t)
  then show ?thesis using spin_inv_wait [OF assms(2), of t Spinning] by simp
next
  case (spin_once t f l broke)
  then show ?thesis using spin_inv_take [OF assms(2), of t] spin_inv_wait [OF assms(2), of t Spinning]
    by (auto simp: spin_attempt spin_lock_eq split: if_splits)
next
  case (call_trylock t f l taken)
  then show ?thesis using spin_inv_take [OF assms(2), of t] spin_inv_wait [OF assms(2), of t Idle]
    by (auto simp: spin_attempt spin_lock_eq split: if_splits)
next
  case (call_unlock t f l)
  then show ?thesis using spin_inv_release [OF assms(2), of t] by (simp add: spin_ops spin_lock_eq)
qed

lemma spin_reach_inv: "spin_reach False s \<Longrightarrow> spin_inv s"
proof (induction rule: rtranclp_induct)
  case base
  then show ?case by (simp add: spin_inv_def spin_start_def cspin_alloc_def)
qed (rule spin_step_inv)

section \<open>Properties\<close>

text \<open>
  C24. On a machine whose exchange does not fail spuriously, at most one thread is in its
  critical section, whatever the interleaving of lock, trylock and unlock calls; and as soon as
  no thread is, the next iteration of any spinning thread acquires the lock.
\<close>

theorem spin_mutual_exclusion:
  assumes "spin_reach False s"
  shows "(\<forall>t u. phase_of s t = Critical \<longrightarrow> phase_of s u = Critical \<longrightarrow> t = u) \<and>
    ((\<forall>t. phase_of s t \<noteq> Critical) \<longrightarrow> snd (cspin_lock_iteration False (spin s)))"
proof -
  have "spin_inv s" by (rule spin_reach_inv [OF assms])
  then show ?thesis by (cases "lock_state (spin s)") (auto simp: spin_inv_def spin_ops)
qed

definition two_threads :: spin_system where
  "two_threads = \<lparr>spin = \<lparr>lock_state = Locked\<rparr>, phase_of = (\<lambda>t. Idle)(0 := Critical, 1 := Spinning)\<rparr>"

lemma two_threads_reach: "spin_reach False two_threads"
proof -
  let ?a = "spin_start\<lparr>phase_of := (phase_of spin_start)(1 := Spinning)\<rparr>"
  have "spin_step False spin_start ?a" by (rule call_lock) (simp add: spin_start_def)
  moreover have "cspin_trylock False (spin ?a) = (\<lparr>lock_state = Locked\<rparr>, True)"
    by (simp add: spin_start_def cspin_alloc_def spin_ops)
  from call_trylock [OF _ _ this, of 0 False] have
    "spin_step False ?a (?a\<lparr>spin := \<lparr>lock_state = Locked\<rparr>, phase_of := (phase_of ?a)(0 := Critical)\<rparr>)"
    by (simp add: spin_start_def)
  moreover have "?a\<lparr>spin := \<lparr>lock_state = Locked\<rparr>, phase_of := (phase_of ?a)(0 := Critical)\<rparr> = two_threads"
    by (auto simp: two_threads_def spin_start_def)
  ultimately show ?thesis by (metis rtranclp.rtrancl_refl rtranclp.rtrancl_into_rtrancl)
qed

theorem spin_mutual_exclusion_witness:
  "spin_reach False two_threads \<and> phase_of two_threads 0 = Critical \<and> phase_of two_threads 1 \<noteq> Critical"
proof -
  have "phase_of two_threads 0 = Critical" by (simp add: two_threads_def)
  moreover have "phase_of two_threads 1 \<noteq> Critical"
    using spin_mutual_exclusion [OF two_threads_reach] calculation by (metis zero_neq_one)
  ultimately show ?thesis using two_threads_reach by blast
qed

text \<open>
  C35. With an exchange that may fail spuriously, which the C++ standard permits, mutual exclusion
  is lost: a failed exchange leaves \<open>expected\<close> at \<open>Unlocked\<close>, and the code takes that for success.
\<close>

theorem spin_spurious_failure:
  "\<exists>s. spin_reach True s \<and> phase_of s 0 = Critical \<and> phase_of s 1 = Critical"
proof -
  let ?a = "spin_start\<lparr>spin := cspin_alloc, phase_of := (phase_of spin_start)(0 := Critical)\<rparr>"
  let ?b = "?a\<lparr>spin := \<lparr>lock_state = Locked\<rparr>, phase_of := (phase_of ?a)(1 := Critical)\<rparr>"
  have "cspin_trylock True (spin spin_start) = (cspin_alloc, True)" by (simp add: spin_start_def cspin_alloc_def spin_ops)
  from call_trylock [OF _ _ this, of 0 True] have "spin_step True spin_start ?a" by (simp add: spin_start_def)
  moreover have "cspin_trylock False (spin ?a) = (\<lparr>lock_state = Locked\<rparr>, True)" by (simp add: cspin_alloc_def spin_ops)
  from call_trylock [OF _ _ this, of 1 True] have "spin_step True ?a ?b" by (simp add: spin_start_def)
  ultimately have "spin_reach True ?b" by (metis (no_types, lifting) rtranclp.rtrancl_refl rtranclp.rtrancl_into_rtrancl)
  moreover have "phase_of ?b 0 = Critical" "phase_of ?b 1 = Critical" by simp_all
  ultimately show ?thesis by blast
qed

text \<open>The value iteration \<open>i\<close> of the loop meets: all earlier ones have met and left a taken lock.\<close>

definition met :: "(nat \<Rightarrow> LockState \<Rightarrow> LockState) \<Rightarrow> nat \<Rightarrow> SpinLock \<Rightarrow> nat \<Rightarrow> LockState" where
  "met env i l n = env n (if n = i then lock_state l else Locked)"

lemma cspin_lock_step:
  "cspin_lock spurious env i l =
     (if met env i l i = Unlocked then Some (\<lparr>lock_state = (if spurious i then Unlocked else Locked)\<rparr>, 0)
      else cspin_lock spurious env (Suc i) \<lparr>lock_state = Locked\<rparr>)"
  by (subst cspin_lock.simps, cases "env i (lock_state l)") (simp_all add: met_def spin_ops spin_lock_eq)

lemma met_next: "n \<noteq> i \<Longrightarrow> met env (Suc i) \<lparr>lock_state = Locked\<rparr> n = met env i l n"
  by (simp add: met_def)

lemma cspin_lock_first:
  assumes "i \<le> n" "met env i l n = Unlocked" "\<forall>j. i \<le> j \<longrightarrow> j < n \<longrightarrow> met env i l j = Locked"
  shows "cspin_lock spurious env i l = Some (\<lparr>lock_state = (if spurious n then Unlocked else Locked)\<rparr>, 0)"
  using assms
proof (induction "n - i" arbitrary: i l)
  case 0
  then show ?case by (simp add: cspin_lock_step)
next
  case (Suc k)
  let ?l = "\<lparr>lock_state = Locked\<rparr>"
  have "met env (Suc i) ?l n = Unlocked" "\<forall>j. Suc i \<le> j \<longrightarrow> j < n \<longrightarrow> met env (Suc i) ?l j = Locked"
    using Suc.hyps(2) Suc.prems(2,3) met_next [of _ i env l] by simp_all
  then have "cspin_lock spurious env (Suc i) ?l = Some (\<lparr>lock_state = (if spurious n then Unlocked else Locked)\<rparr>, 0)"
    using Suc.hyps(1) [of "Suc i" ?l] Suc.hyps(2) by simp
  moreover have "met env i l i = Locked" using Suc.prems(3) Suc.hyps(2) by simp
  ultimately show ?case by (subst cspin_lock_step) simp
qed

lemma cspin_lock_left: "cspin_lock spurious env i l = Some r \<Longrightarrow> \<exists>n\<ge>i. met env i l n = Unlocked"
proof (induction spurious env i l r rule: cspin_lock.raw_induct [rotated 1, consumes 1])
  case (1 f spurious env i l r)
  show ?case
  proof (cases "env i (lock_state l)")
    case Unlocked
    then show ?thesis by (auto simp: met_def)
  next
    case Locked
    then have "f spurious env (Suc i) \<lparr>lock_state = Locked\<rparr> = Some r" using 1(2) by (simp add: spin_ops spin_lock_eq)
    from 1(1) [OF this] obtain n where "Suc i \<le> n" "met env (Suc i) \<lparr>lock_state = Locked\<rparr> n = Unlocked" by blast
    then show ?thesis using met_next [of n i env l] by (intro exI [of _ n]) simp
  qed
qed

text \<open>
  C34. When \<open>cspin_lock\<close> returns, whatever the other threads do and wherever the exchange fails
  spuriously: if some iteration meets a free lock, it returns 0 at the first one that does, and
  then the lock is taken exactly if the exchange of that iteration did not fail spuriously;
  otherwise the loop never ends.
\<close>

theorem cspin_lock_returns:
  "cspin_lock spurious env 0 l =
     (if \<exists>n. met env 0 l n = Unlocked
      then Some (\<lparr>lock_state = (if spurious (LEAST n. met env 0 l n = Unlocked) then Unlocked else Locked)\<rparr>, 0)
      else None)"
proof (cases "\<exists>n. met env 0 l n = Unlocked")
  case True
  let ?n = "LEAST n. met env 0 l n = Unlocked"
  have "met env 0 l ?n = Unlocked" using True by (rule LeastI_ex)
  moreover have "\<forall>j. 0 \<le> j \<longrightarrow> j < ?n \<longrightarrow> met env 0 l j = Locked"
  proof (intro allI impI)
    fix j assume "j < ?n"
    then show "met env 0 l j = Locked" by (cases "met env 0 l j") (auto dest: not_less_Least)
  qed
  ultimately have "cspin_lock spurious env 0 l = Some (\<lparr>lock_state = (if spurious ?n then Unlocked else Locked)\<rparr>, 0)"
    by (rule cspin_lock_first [OF le0])
  then show ?thesis by (simp only: True if_True)
next
  case False
  then have "cspin_lock spurious env 0 l = None" using cspin_lock_left [of spurious env 0 l] by (cases "cspin_lock spurious env 0 l") auto
  then show ?thesis using False by simp
qed

end
