(* ===== verification/Hash_Map.thy ===== *)
theory Hash_Map
  imports Prelude
begin

text \<open>
  \<open>task4-concurrency/src/hashmap.cpp\<close>: a chained hash map with one mutex per bucket. Every
  operation holds the mutex of its bucket from its first access to its last, so an execution of
  several threads is a sequence of whole operations. A bucket is the list of the values behind
  its sentinel. \<open>long\<close> values are integers of 64 bits. Access outside the array of buckets and
  division by zero have no result; \<open>new\<close> throws instead of returning null, so the null checks
  of the source are never taken.
\<close>

section \<open>The model\<close>

record List =
  chain :: "int list"

record Map =
  buckets :: "List list"
  map_length :: nat

fun alloc_buckets :: "nat \<Rightarrow> List list" where
  "alloc_buckets 0 = []"
| "alloc_buckets (Suc n) = alloc_buckets n @ [\<lparr>chain = []\<rparr>]"

definition alloc_hashmap :: "nat \<Rightarrow> Map" where
  "alloc_hashmap n_buckets = \<lparr>buckets = alloc_buckets n_buckets, map_length = n_buckets\<rparr>"

text \<open>The values of the nodes deleted, the sentinel (of value 0) first in each bucket.\<close>

definition free_hashmap :: "Map \<Rightarrow> int list" where
  "free_hashmap m = concat (map (\<lambda>b. 0 # chain b) (buckets m))"

text \<open>The value is converted to \<open>size_t\<close> before the remainder, the index to \<open>int\<close> afterwards.\<close>

definition getIndex :: "nat \<Rightarrow> int \<Rightarrow> int option" where
  "getIndex len v =
     (if len = 0 then None else Some (sint (of_nat (nat (v mod 2 ^ 64) mod len) :: u32)))"

definition bucket_at :: "Map \<Rightarrow> int \<Rightarrow> (nat \<times> List) option" where
  "bucket_at m v =
     Option.bind (getIndex (map_length m) v) (\<lambda>i.
     if 0 \<le> i \<and> nat i < length (buckets m) then Some (nat i, buckets m ! nat i) else None)"

definition insert_item :: "Map \<Rightarrow> int \<Rightarrow> (int \<times> Map) option" where
  "insert_item m v =
     map_option (\<lambda>(i, b). (0, m\<lparr>buckets := (buckets m)[i := b\<lparr>chain := v # chain b\<rparr>]\<rparr>)) (bucket_at m v)"

fun remove_node :: "int \<Rightarrow> int list \<Rightarrow> int list option" where
  "remove_node v [] = None"
| "remove_node v (x # xs) = (if x = v then Some xs else map_option (\<lambda>ys. x # ys) (remove_node v xs))"

definition remove_item :: "Map \<Rightarrow> int \<Rightarrow> (int \<times> Map) option" where
  "remove_item m v =
     map_option (\<lambda>(i, b).
       case remove_node v (chain b) of
         Some c \<Rightarrow> (0, m\<lparr>buckets := (buckets m)[i := b\<lparr>chain := c\<rparr>]\<rparr>)
       | None \<Rightarrow> (1, m)) (bucket_at m v)"

fun find_node :: "int \<Rightarrow> int list \<Rightarrow> int" where
  "find_node v [] = 1"
| "find_node v (x # xs) = (if x = v then 0 else find_node v xs)"

definition lookup_item :: "Map \<Rightarrow> int \<Rightarrow> int option" where
  "lookup_item m v = map_option (\<lambda>(i, b). find_node v (chain b)) (bucket_at m v)"

section \<open>The bag a map stands for\<close>

definition bag :: "Map \<Rightarrow> int multiset" where
  "bag m = mset (concat (map chain (buckets m)))"

definition bucket_of :: "nat \<Rightarrow> int \<Rightarrow> nat" where
  "bucket_of len v = nat (v mod 2 ^ 64) mod len"

definition map_ok :: "Map \<Rightarrow> bool" where
  "map_ok m \<longleftrightarrow> 0 < map_length m \<and> map_length m \<le> 2 ^ 31 \<and> length (buckets m) = map_length m \<and>
     (\<forall>i < map_length m. \<forall>v \<in> set (chain (buckets m ! i)). bucket_of (map_length m) v = i)"

lemma getIndex_ok:
  assumes "0 < len" "len \<le> 2 ^ 31"
  shows "getIndex len v = Some (int (bucket_of len v))" "bucket_of len v < len"
proof -
  show b: "bucket_of len v < len" using assms(1) by (simp add: bucket_of_def)
  then have "bucket_of len v < 2 ^ 31" using assms(2) by linarith
  then have "sint (of_nat (bucket_of len v) :: u32) = int (bucket_of len v)"
    by (simp add: signed_of_nat signed_take_bit_int_eq_self)
  then show "getIndex len v = Some (int (bucket_of len v))" using assms(1) by (simp add: getIndex_def bucket_of_def)
qed

lemma bucket_at_ok:
  assumes "map_ok m"
  shows "bucket_at m v = Some (bucket_of (map_length m) v, buckets m ! bucket_of (map_length m) v)"
    "bucket_of (map_length m) v < length (buckets m)"
  using assms getIndex_ok [of "map_length m" v] by (simp_all add: map_ok_def bucket_at_def)

definition others_bag :: "Map \<Rightarrow> nat \<Rightarrow> int multiset" where
  "others_bag m i = mset (concat (map chain (take i (buckets m)))) + mset (concat (map chain (drop (Suc i) (buckets m))))"

lemma bag_split:
  assumes "i < length (buckets m)"
  shows "bag m = mset (chain (buckets m ! i)) + others_bag m i"
    "bag (m\<lparr>buckets := (buckets m)[i := b]\<rparr>) = mset (chain b) + others_bag m i"
proof -
  have "buckets m = take i (buckets m) @ buckets m ! i # drop (Suc i) (buckets m)" using assms by (rule id_take_nth_drop)
  then have "bag m = mset (concat (map chain (take i (buckets m) @ buckets m ! i # drop (Suc i) (buckets m))))"
    by (simp only: bag_def)
  then show "bag m = mset (chain (buckets m ! i)) + others_bag m i" by (simp add: others_bag_def ac_simps)
  show "bag (m\<lparr>buckets := (buckets m)[i := b]\<rparr>) = mset (chain b) + others_bag m i"
    using assms by (simp add: bag_def others_bag_def upd_conv_take_nth_drop ac_simps)
qed

lemma bag_member:
  assumes "map_ok m"
  shows "v \<in># bag m \<longleftrightarrow> v \<in> set (chain (buckets m ! bucket_of (map_length m) v))"
proof -
  have "v \<in># bag m \<longleftrightarrow> (\<exists>i < length (buckets m). v \<in> set (chain (buckets m ! i)))"
  proof -
    have "v \<in># bag m \<longleftrightarrow> (\<exists>b \<in> set (buckets m). v \<in> set (chain b))" by (simp add: bag_def)
    then show ?thesis by (metis in_set_conv_nth)
  qed
  then show ?thesis using assms bucket_at_ok(2) [OF assms, of v] by (auto simp: map_ok_def)
qed

lemma map_ok_update:
  assumes "map_ok m" "i < length (buckets m)" "\<forall>v \<in> set (chain b). bucket_of (map_length m) v = i"
  shows "map_ok (m\<lparr>buckets := (buckets m)[i := b]\<rparr>)"
  using assms by (auto simp: map_ok_def nth_list_update)

lemma remove_node_correct:
  "remove_node v xs = (if v \<in> set xs then Some (remove1 v xs) else None)"
  by (induction xs) auto

lemma find_node_correct: "find_node v xs = (if v \<in> set xs then 0 else 1)"
  by (induction xs) auto

lemma alloc_buckets_replicate: "alloc_buckets n = replicate n \<lparr>chain = []\<rparr>"
  by (induction n) (simp_all add: replicate_append_same)

lemma alloc_ok: "0 < n \<Longrightarrow> n \<le> 2 ^ 31 \<Longrightarrow> map_ok (alloc_hashmap n)" "bag (alloc_hashmap n) = {#}"
  by (auto simp: map_ok_def alloc_hashmap_def alloc_buckets_replicate bag_def)

section \<open>Properties\<close>

text \<open>
  C14. A map with 1 to \<open>2^31\<close> buckets behaves as a bag of integers: no operation leaves the array
  of buckets, \<open>insert_item\<close> adds one occurrence, \<open>remove_item\<close> removes one occurrence and reports
  1 exactly when there is none, and \<open>lookup_item\<close> reports 0 exactly for members. Every value
  stays in the bucket it hashes to. A new map is the empty bag.
\<close>

theorem hashmap_refines_bag:
  assumes "map_ok m"
  shows "(\<exists>m'. insert_item m v = Some (0, m') \<and> map_ok m' \<and> bag m' = add_mset v (bag m)) \<and>
    (if v \<in># bag m then \<exists>m'. remove_item m v = Some (0, m') \<and> map_ok m' \<and> bag m' = bag m - {#v#}
     else remove_item m v = Some (1, m)) \<and>
    lookup_item m v = Some (if v \<in># bag m then 0 else 1) \<and> bag (alloc_hashmap n) = {#}"
proof -
  let ?i = "bucket_of (map_length m) v"
  let ?b = "buckets m ! ?i"
  note at = bucket_at_ok [OF assms, of v]
  have ok: "\<forall>x \<in> set (chain ?b). bucket_of (map_length m) x = ?i" using assms at(2) by (simp add: map_ok_def)
  have "insert_item m v = Some (0, m\<lparr>buckets := (buckets m)[?i := ?b\<lparr>chain := v # chain ?b\<rparr>]\<rparr>)"
    by (simp add: insert_item_def at(1))
  moreover have "map_ok (m\<lparr>buckets := (buckets m)[?i := ?b\<lparr>chain := v # chain ?b\<rparr>]\<rparr>)"
    using ok by (intro map_ok_update [OF assms at(2)]) simp
  moreover have "bag (m\<lparr>buckets := (buckets m)[?i := ?b\<lparr>chain := v # chain ?b\<rparr>]\<rparr>) = add_mset v (bag m)"
    using bag_split [OF at(2)] by simp
  moreover have "if v \<in># bag m then \<exists>m'. remove_item m v = Some (0, m') \<and> map_ok m' \<and> bag m' = bag m - {#v#}
    else remove_item m v = Some (1, m)"
  proof (cases "v \<in># bag m")
    case True
    then have mem: "v \<in> set (chain ?b)" using bag_member [OF assms] by simp
    let ?m = "m\<lparr>buckets := (buckets m)[?i := ?b\<lparr>chain := remove1 v (chain ?b)\<rparr>]\<rparr>"
    have "remove_item m v = Some (0, ?m)" using mem by (simp add: remove_item_def at(1) remove_node_correct)
    moreover have "map_ok ?m" using ok set_remove1_subset [of v "chain ?b"] by (intro map_ok_update [OF assms at(2)]) auto
    moreover have "bag ?m = bag m - {#v#}" using bag_split [OF at(2)] mem by simp
    ultimately show ?thesis using True by auto
  next
    case False
    then show ?thesis using bag_member [OF assms] by (simp add: remove_item_def at(1) remove_node_correct)
  qed
  moreover have "lookup_item m v = Some (if v \<in># bag m then 0 else 1)"
    using bag_member [OF assms] by (simp add: lookup_item_def at(1) find_node_correct)
  ultimately show ?thesis using alloc_ok(2) by blast
qed

theorem hashmap_refines_bag_witness:
  "map_ok (alloc_hashmap 7) \<and> (\<exists>m'. insert_item (alloc_hashmap 7) (- 5) = Some (0, m') \<and> bag m' = {#- 5#}) \<and>
   remove_item (alloc_hashmap 7) (- 5) = Some (1, alloc_hashmap 7)"
proof -
  have ok: "map_ok (alloc_hashmap 7)" by (simp add: alloc_ok)
  show ?thesis using hashmap_refines_bag [OF ok, of "- 5" 7] ok alloc_ok(2) by auto
qed

end
