(* ===== verification/Lockfree_List.thy ===== *)
theory Lockfree_List
  imports Hash_Map
begin

text \<open>
  \<open>task4-concurrency/src/lockfreehashmap.cpp\<close>: a hash map whose buckets are lock-free sorted
  linked lists. Threads share the nodes; the lowest bit of a \<open>next\<close> pointer marks its node as
  removed. An operation is a small program whose steps make at most one access to shared memory
  each (keys never change, so reading one is not counted), and the steps of the threads
  interleave in any order. Nodes are never given back to the allocator, as all \<open>delete\<close>s are
  commented out. A node under construction is visible to no other thread; its address is
  chosen when it is linked in, and may be any that is not in use.

  The proof is a rely-guarantee argument: a global invariant of the shared nodes, an assertion
  on what each thread knows at each point, and the rely \<open>lf_rely\<close> under which that knowledge
  is stable.
\<close>

section \<open>Marked references\<close>

type_synonym ref = u64

definition get_marked_reference :: "ref \<Rightarrow> ref" where
  "get_marked_reference p = p OR 1"

definition get_unmarked_reference :: "ref \<Rightarrow> ref" where
  "get_unmarked_reference p = p AND NOT 1"

definition is_marked_reference :: "ref \<Rightarrow> bool" where
  "is_marked_reference p \<longleftrightarrow> p AND 1 \<noteq> 0"

lemma marked_bit: "is_marked_reference p \<longleftrightarrow> bit p 0"
  by (simp add: is_marked_reference_def and_one_eq bit_0 mod_2_eq_odd)

lemma unmark_unmarked [simp]: "\<not> is_marked_reference p \<Longrightarrow> get_unmarked_reference p = p"
  by (rule bit_eqI) (auto simp: get_unmarked_reference_def marked_bit bit_simps intro: gr0I)

lemma unmark_mark [simp]: "\<not> is_marked_reference p \<Longrightarrow> get_unmarked_reference (get_marked_reference p) = p"
  by (rule bit_eqI) (auto simp: get_unmarked_reference_def get_marked_reference_def marked_bit bit_simps intro: gr0I)

lemma marked_mark [simp]: "is_marked_reference (get_marked_reference p)"
  by (simp add: marked_bit get_marked_reference_def bit_simps)

lemma unmark_not_marked [simp]: "\<not> is_marked_reference (get_unmarked_reference p)"
  by (simp add: marked_bit get_unmarked_reference_def bit_simps)

section \<open>The shared nodes\<close>

text \<open>\<open>linked\<close> is the set of nodes that have been part of the list at some time.\<close>

record nodes =
  lf_head :: ref
  lf_tail :: ref
  lf_key :: "ref \<Rightarrow> int"
  lf_next :: "ref \<Rightarrow> ref"
  linked :: "ref set"

text \<open>The constructor, for two addresses from \<open>new\<close>.\<close>

definition lf_list :: "ref \<Rightarrow> ref \<Rightarrow> nodes" where
  "lf_list h t = \<lparr>lf_head = h, lf_tail = t, lf_key = (\<lambda>x. 0), lf_next = (\<lambda>x. 0)(h := t, t := t), linked = {h, t}\<rparr>"

definition cas_next :: "ref \<Rightarrow> ref \<Rightarrow> ref \<Rightarrow> nodes \<Rightarrow> bool \<times> nodes" where
  "cas_next x expected desired s =
     (if lf_next s x = expected then (True, s\<lparr>lf_next := (lf_next s)(x := desired)\<rparr>) else (False, s))"

section \<open>The operations\<close>

text \<open>Which operation a search is part of.\<close>

datatype caller = ForInsert | ForRemove | ForFind | ForCleanup

text \<open>
  Where a thread is: before reading \<open>head->next\<close>; at the head of the inner loop with
  \<open>node\<close>, \<open>nodeNext\<close>, \<open>left\<close> and \<open>leftNext\<close>; behind the loop; behind a successful unlinking; back
  in the caller with the pair found; in \<open>remove\<close> before marking and before unlinking; returned.
\<close>

datatype pc =
    SearchStart caller int
  | SearchLoop caller int ref ref ref ref
  | SearchFound caller int ref ref ref
  | SearchCheck caller int ref ref
  | Found caller int ref ref
  | RemoveMark int ref ref ref
  | RemoveUnlink int ref ref ref
  | Returned bool

definition search_start :: "caller \<Rightarrow> int \<Rightarrow> nodes \<Rightarrow> nodes \<times> pc" where
  "search_start c k s = (s, SearchLoop c k (lf_head s) (lf_next s (lf_head s)) 0 0)"

definition search_loop :: "caller \<Rightarrow> int \<Rightarrow> ref \<Rightarrow> ref \<Rightarrow> ref \<Rightarrow> ref \<Rightarrow> nodes \<Rightarrow> nodes \<times> pc" where
  "search_loop c k node nodeNext left leftNext s =
     (let (left', leftNext') = (if \<not> is_marked_reference nodeNext then (node, nodeNext) else (left, leftNext));
          node' = get_unmarked_reference nodeNext
      in if node' = lf_tail s then (s, SearchFound c k left' leftNext' node')
         else
           let nodeNext' = lf_next s node'
           in if is_marked_reference nodeNext' \<or> lf_key s node' < k
              then (s, SearchLoop c k node' nodeNext' left' leftNext')
              else (s, SearchFound c k left' leftNext' node'))"

definition search_check :: "caller \<Rightarrow> int \<Rightarrow> ref \<Rightarrow> ref \<Rightarrow> nodes \<Rightarrow> nodes \<times> pc" where
  "search_check c k left right s =
     (if right \<noteq> lf_tail s \<and> is_marked_reference (lf_next s right) then (s, SearchStart c k)
      else (s, Found c k left right))"

definition search_found :: "caller \<Rightarrow> int \<Rightarrow> ref \<Rightarrow> ref \<Rightarrow> ref \<Rightarrow> nodes \<Rightarrow> nodes \<times> pc" where
  "search_found c k left leftNext right s =
     (if leftNext = right then search_check c k left right s
      else case cas_next left leftNext right s of
        (swapped, s') \<Rightarrow> (s', if swapped then SearchCheck c k left right else SearchStart c k))"

definition insert_found :: "ref \<Rightarrow> int \<Rightarrow> ref \<Rightarrow> ref \<Rightarrow> nodes \<Rightarrow> nodes \<times> pc" where
  "insert_found insertion k left right s =
     (if right \<noteq> lf_tail s \<and> lf_key s right = k then (s, Returned False)
      else
        let s1 = s\<lparr>lf_key := (lf_key s)(insertion := k), lf_next := (lf_next s)(insertion := right), linked := insert insertion (linked s)\<rparr>
        in if lf_next s left = right then (snd (cas_next left right insertion s1), Returned True)
           else (s, SearchStart ForInsert k))"

definition remove_found :: "int \<Rightarrow> ref \<Rightarrow> ref \<Rightarrow> nodes \<Rightarrow> nodes \<times> pc" where
  "remove_found k left right s =
     (if right = lf_tail s \<or> lf_key s right \<noteq> k then (s, Returned False)
      else (s, RemoveMark k left right (lf_next s right)))"

definition remove_mark :: "int \<Rightarrow> ref \<Rightarrow> ref \<Rightarrow> ref \<Rightarrow> nodes \<Rightarrow> nodes \<times> pc" where
  "remove_mark k left right rightNext s =
     (if \<not> is_marked_reference rightNext
      then (case cas_next right rightNext (get_marked_reference rightNext) s of
              (swapped, s') \<Rightarrow> (s', if swapped then RemoveUnlink k left right rightNext else SearchStart ForRemove k))
      else (s, SearchStart ForRemove k))"

definition remove_unlink :: "ref \<Rightarrow> ref \<Rightarrow> ref \<Rightarrow> nodes \<Rightarrow> nodes \<times> pc" where
  "remove_unlink left right rightNext s =
     (case cas_next left right rightNext s of
        (swapped, s') \<Rightarrow> (s', if swapped then Returned True else SearchStart ForCleanup (lf_key s right)))"

definition find_found :: "int \<Rightarrow> ref \<Rightarrow> nodes \<Rightarrow> nodes \<times> pc" where
  "find_found k right s = (s, Returned (right \<noteq> lf_tail s \<and> lf_key s right = k))"

text \<open>One step of a thread; \<open>a\<close> is the address of the node that \<open>insert\<close> would link in.\<close>

fun lf_step :: "ref \<Rightarrow> pc \<Rightarrow> nodes \<Rightarrow> nodes \<times> pc" where
  "lf_step a (SearchStart c k) s = search_start c k s"
| "lf_step a (SearchLoop c k node nodeNext left leftNext) s = search_loop c k node nodeNext left leftNext s"
| "lf_step a (SearchFound c k left leftNext right) s = search_found c k left leftNext right s"
| "lf_step a (SearchCheck c k left right) s = search_check c k left right s"
| "lf_step a (Found ForInsert k left right) s = insert_found a k left right s"
| "lf_step a (Found ForRemove k left right) s = remove_found k left right s"
| "lf_step a (Found ForFind k left right) s = find_found k right s"
| "lf_step a (Found ForCleanup k left right) s = (s, Returned True)"
| "lf_step a (RemoveMark k left right rightNext) s = remove_mark k left right rightNext s"
| "lf_step a (RemoveUnlink k left right rightNext) s = remove_unlink left right rightNext s"
| "lf_step a (Returned b) s = (s, Returned b)"

text \<open>What the three operations of a list start with.\<close>

definition lf_insert :: "int \<Rightarrow> pc" where "lf_insert k = SearchStart ForInsert k"
definition lf_remove :: "int \<Rightarrow> pc" where "lf_remove k = SearchStart ForRemove k"
definition lf_find :: "int \<Rightarrow> pc" where "lf_find k = SearchStart ForFind k"

text \<open>An address that \<open>new\<close> may return: aligned and not in use.\<close>

definition fresh_ref :: "nodes \<Rightarrow> ref \<Rightarrow> bool" where
  "fresh_ref s a \<longleftrightarrow> \<not> is_marked_reference a \<and> a \<notin> linked s"

record lf_system =
  lf_nodes :: nodes
  lf_pc :: "nat \<Rightarrow> pc"

inductive lf_run :: "lf_system \<Rightarrow> lf_system \<Rightarrow> bool" where
  lf_call: "lf_pc S t = Returned b \<Longrightarrow> p \<in> {lf_insert k, lf_remove k, lf_find k} \<Longrightarrow>
    lf_run S (S\<lparr>lf_pc := (lf_pc S)(t := p)\<rparr>)"
| lf_advance: "fresh_ref (lf_nodes S) a \<Longrightarrow> lf_step a (lf_pc S t) (lf_nodes S) = (s, p) \<Longrightarrow>
    lf_run S (S\<lparr>lf_nodes := s, lf_pc := (lf_pc S)(t := p)\<rparr>)"

inductive lf_reach :: "lf_system \<Rightarrow> bool" where
  lf_init: "h \<noteq> t \<Longrightarrow> \<not> is_marked_reference h \<Longrightarrow> \<not> is_marked_reference t \<Longrightarrow>
    lf_reach \<lparr>lf_nodes = lf_list h t, lf_pc = (\<lambda>i. Returned False)\<rparr>"
| lf_more: "lf_reach S \<Longrightarrow> lf_run S S' \<Longrightarrow> lf_reach S'"

text \<open>
  The hash map: \<open>new_node\<close> gives the addresses of the nodes the constructors allocate. An
  operation of the map runs the operation of one list and turns its result into a code.
\<close>

record lf_map =
  lf_buckets :: "nodes list"
  lf_length :: nat

definition lf_alloc_hashmap :: "(nat \<Rightarrow> ref) \<Rightarrow> nat \<Rightarrow> lf_map" where
  "lf_alloc_hashmap new_node n_buckets =
     \<lparr>lf_buckets = map (\<lambda>i. lf_list (new_node (2 * i)) (new_node (2 * i + 1))) [0..<n_buckets], lf_length = n_buckets\<rparr>"

definition lf_getIndex :: "lf_map \<Rightarrow> int \<Rightarrow> nat option" where
  "lf_getIndex m k =
     (if lf_length m = 0 then None
      else
        let index = sint (of_nat (nat (k mod 2 ^ 64) mod lf_length m) :: u32)
        in if 0 \<le> index \<and> nat index < length (lf_buckets m) then Some (nat index) else None)"

definition lf_insert_item :: "lf_map \<Rightarrow> int \<Rightarrow> (nat \<times> pc) option" where
  "lf_insert_item m k = map_option (\<lambda>i. (i, lf_insert k)) (lf_getIndex m k)"

definition lf_remove_item :: "lf_map \<Rightarrow> int \<Rightarrow> (nat \<times> pc) option" where
  "lf_remove_item m k = map_option (\<lambda>i. (i, lf_remove k)) (lf_getIndex m k)"

definition lf_lookup_item :: "lf_map \<Rightarrow> int \<Rightarrow> (nat \<times> pc) option" where
  "lf_lookup_item m k = map_option (\<lambda>i. (i, lf_find k)) (lf_getIndex m k)"

section \<open>The invariant\<close>

abbreviation succ :: "nodes \<Rightarrow> ref \<Rightarrow> ref" where
  "succ s x \<equiv> get_unmarked_reference (lf_next s x)"

abbreviation removed :: "nodes \<Rightarrow> ref \<Rightarrow> bool" where
  "removed s x \<equiv> is_marked_reference (lf_next s x)"

definition before :: "nodes \<Rightarrow> ref \<Rightarrow> ref \<Rightarrow> bool" where
  "before s x y \<longleftrightarrow> x \<noteq> lf_tail s \<and> y \<noteq> lf_head s \<and> (x = lf_head s \<or> y = lf_tail s \<or> lf_key s x < lf_key s y)"

definition edge :: "nodes \<Rightarrow> ref \<Rightarrow> ref \<Rightarrow> bool" where
  "edge s x y \<longleftrightarrow> x \<noteq> lf_tail s \<and> y = succ s x"

definition dead_edge :: "nodes \<Rightarrow> ref \<Rightarrow> ref \<Rightarrow> bool" where
  "dead_edge s x y \<longleftrightarrow> x \<in> linked s \<and> x \<noteq> lf_tail s \<and> removed s x \<and> y = succ s x"

definition ordered :: "nodes \<Rightarrow> bool" where
  "ordered s \<longleftrightarrow> (\<forall>x \<in> linked s. x \<noteq> lf_tail s \<longrightarrow> succ s x \<in> linked s \<and> before s x (succ s x))"

definition lf_inv :: "nodes \<Rightarrow> bool" where
  "lf_inv s \<longleftrightarrow> lf_head s \<in> linked s \<and> lf_tail s \<in> linked s \<and> lf_head s \<noteq> lf_tail s \<and>
     (\<forall>x \<in> linked s. \<not> is_marked_reference x) \<and> \<not> removed s (lf_head s) \<and> \<not> removed s (lf_tail s) \<and> ordered s \<and>
     (\<forall>x \<in> linked s. \<not> removed s x \<longrightarrow> (edge s)\<^sup>*\<^sup>* (lf_head s) x)"

text \<open>The set of integers the list stands for.\<close>

definition lf_set :: "nodes \<Rightarrow> int set" where
  "lf_set s = lf_key s ` {x \<in> linked s. x \<noteq> lf_head s \<and> x \<noteq> lf_tail s \<and> \<not> removed s x}"

lemma before_irrefl: "lf_head s \<noteq> lf_tail s \<Longrightarrow> \<not> before s x x"
  by (auto simp: before_def)

lemma before_trans: "before s x y \<Longrightarrow> before s y z \<Longrightarrow> before s x z"
  by (auto simp: before_def)

lemma lf_invD:
  assumes "lf_inv s"
  shows "lf_head s \<in> linked s" "lf_tail s \<in> linked s" "lf_head s \<noteq> lf_tail s" "x \<in> linked s \<Longrightarrow> \<not> is_marked_reference x"
    "\<not> removed s (lf_head s)" "\<not> removed s (lf_tail s)" "x \<in> linked s \<Longrightarrow> x \<noteq> lf_tail s \<Longrightarrow> succ s x \<in> linked s"
    "x \<in> linked s \<Longrightarrow> x \<noteq> lf_tail s \<Longrightarrow> before s x (succ s x)"
    "x \<in> linked s \<Longrightarrow> \<not> removed s x \<Longrightarrow> (edge s)\<^sup>*\<^sup>* (lf_head s) x"
    "ordered s"
  using assms unfolding lf_inv_def ordered_def by blast+

lemma edges_before:
  assumes "ordered s" "(edge s)\<^sup>*\<^sup>* x y" "x \<in> linked s"
  shows "y \<in> linked s \<and> (x = y \<or> before s x y)"
  using assms(2)
proof (induction rule: rtranclp_induct)
  case (step y z)
  then have "before s y z" "z \<in> linked s" using assms(1) by (auto simp: edge_def ordered_def)
  then show ?case using step.IH before_trans by blast
qed (use assms(3) in simp)

lemma dead_edges: "(dead_edge s)\<^sup>*\<^sup>* x y \<Longrightarrow> (edge s)\<^sup>*\<^sup>* x y"
  by (erule rtranclp_mono [THEN predicate2D, rotated]) (auto simp: dead_edge_def edge_def)

lemma edge_functional: "edge s x y \<Longrightarrow> edge s x z \<Longrightarrow> y = z"
  by (simp add: edge_def)

text \<open>Two nodes on the list: one is reached from the other.\<close>

lemma edge_linear:
  assumes "(edge s)\<^sup>*\<^sup>* h x" "(edge s)\<^sup>*\<^sup>* h y"
  shows "(edge s)\<^sup>*\<^sup>* x y \<or> (edge s)\<^sup>*\<^sup>* y x"
  using assms(1)
proof (induction rule: rtranclp_induct)
  case (step x z)
  then show ?case
  proof (elim disjE)
    assume "(edge s)\<^sup>*\<^sup>* x y"
    then show ?thesis
    proof (cases rule: converse_rtranclpE)
      case (step u)
      then show ?thesis using edge_functional [OF \<open>edge s x z\<close>] by blast
    qed (use step.hyps(2) in blast)
  qed (use step.hyps(2) rtranclp.rtrancl_into_rtrancl [of "edge s" y x z] in blast)
qed (use assms(2) in simp)

lemma linked_compare:
  assumes "lf_inv s" "x \<in> linked s" "\<not> removed s x" "y \<in> linked s" "\<not> removed s y"
  shows "x = y \<or> (\<exists>z. edge s x z \<and> (edge s)\<^sup>*\<^sup>* z y) \<or> before s y x"
proof -
  have "(edge s)\<^sup>*\<^sup>* x y \<or> (edge s)\<^sup>*\<^sup>* y x" using edge_linear lf_invD(9) [OF assms(1)] assms(2-5) by blast
  then show ?thesis
  proof
    assume "(edge s)\<^sup>*\<^sup>* x y"
    then show ?thesis by (cases rule: converse_rtranclpE) auto
  next
    assume "(edge s)\<^sup>*\<^sup>* y x"
    then show ?thesis using edges_before [OF lf_invD(10) [OF assms(1)] _ assms(4)] by blast
  qed
qed

section \<open>What the other threads may do\<close>

definition lf_rely :: "nodes \<Rightarrow> nodes \<Rightarrow> bool" where
  "lf_rely s s' \<longleftrightarrow> lf_head s' = lf_head s \<and> lf_tail s' = lf_tail s \<and> linked s \<subseteq> linked s' \<and>
     (\<forall>x \<in> linked s. lf_key s' x = lf_key s x \<and> (removed s x \<longrightarrow> lf_next s' x = lf_next s x))"

lemma lf_rely_refl: "lf_rely s s"
  by (simp add: lf_rely_def)

lemma rely_before: "lf_rely s s' \<Longrightarrow> x \<in> linked s \<Longrightarrow> y \<in> linked s \<Longrightarrow> before s' x y \<longleftrightarrow> before s x y"
  by (simp add: lf_rely_def before_def)

lemma rely_dead_edges: "lf_rely s s' \<Longrightarrow> (dead_edge s)\<^sup>*\<^sup>* x y \<Longrightarrow> (dead_edge s')\<^sup>*\<^sup>* x y"
  by (erule rtranclp_mono [THEN predicate2D, rotated]) (auto simp: lf_rely_def dead_edge_def)

section \<open>The three changes to the list\<close>

subsection \<open>Unlinking removed nodes\<close>

definition bypassed :: "nodes \<Rightarrow> ref \<Rightarrow> ref \<Rightarrow> bool" where
  "bypassed s right x \<longleftrightarrow> (dead_edge s)\<^sup>*\<^sup>* x right \<and> x \<noteq> right"

lemma bypassed_step: "bypassed s right x \<Longrightarrow> edge s x y \<Longrightarrow> bypassed s right y \<or> y = right"
proof -
  assume b: "bypassed s right x" and e: "edge s x y"
  from b have d: "(dead_edge s)\<^sup>*\<^sup>* x right" "x \<noteq> right" by (simp_all add: bypassed_def)
  from d(1) show ?thesis
  proof (cases rule: converse_rtranclpE)
    case (step u)
    moreover from this(1) e have "u = y" by (simp add: dead_edge_def edge_def)
    ultimately show ?thesis by (auto simp: bypassed_def)
  qed (use d(2) in simp)
qed

lemma bypassed_removed: "bypassed s right x \<Longrightarrow> removed s x"
proof -
  assume b: "bypassed s right x"
  then have "(dead_edge s)\<^sup>*\<^sup>* x right" by (simp add: bypassed_def)
  then show ?thesis by (cases rule: converse_rtranclpE) (use b in \<open>auto simp: bypassed_def dead_edge_def\<close>)
qed

lemma unlink_correct:
  assumes inv: "lf_inv s" and l: "left \<in> linked s" "left \<noteq> lf_tail s" "lf_next s left = ln" "ln \<in> linked s"
    and d: "(dead_edge s)\<^sup>*\<^sup>* ln right" and s': "s' = s\<lparr>lf_next := (lf_next s)(left := right)\<rparr>"
  shows "lf_inv s'" "lf_set s' = lf_set s" "lf_rely s s'"
proof -
  note I = lf_invD [OF inv]
  have alive: "\<not> removed s left" "succ s left = ln" using l(3) I(4) [OF l(4)] by simp_all
  have r: "right \<in> linked s" "ln = right \<or> before s ln right" using edges_before [OF I(10) dead_edges [OF d] l(4)] by auto
  have lr: "before s left right" using I(8) [OF l(1,2)] alive(2) r(2) before_trans by auto
  have u: "\<not> is_marked_reference right" by (rule I(4) [OF r(1)])
  have same: "lf_head s' = lf_head s" "lf_tail s' = lf_tail s" "linked s' = linked s" "lf_key s' = lf_key s"
    "\<And>x. removed s' x = removed s x" "\<And>x y. before s' x y = before s x y"
    using u alive(1) by (simp_all add: s' before_def)
  have edge': "edge s' x y \<longleftrightarrow> (if x = left then y = right else edge s x y)" for x y
    using u l(2) by (auto simp: s' edge_def)
  have ord: "ordered s'" using I(7,8) r(1) lr u unfolding ordered_def same by (auto simp: s')
  have later: "x \<noteq> left" if "(edge s')\<^sup>*\<^sup>* right x" for x
    using edges_before [OF ord that] same r(1) lr before_irrefl [OF I(3)] before_trans by metis
  have reach: "(edge s')\<^sup>*\<^sup>* (lf_head s) x \<or> bypassed s right x \<or> (edge s')\<^sup>*\<^sup>* right x" if "(edge s)\<^sup>*\<^sup>* (lf_head s) x" for x
    using that
  proof (induction rule: rtranclp_induct)
    case (step y z)
    from step.IH show ?case
    proof (elim disjE)
      assume y: "(edge s')\<^sup>*\<^sup>* (lf_head s) y"
      show ?thesis
      proof (cases "y = left")
        case True
        then have "z = ln" using step.hyps(2) alive(2) by (simp add: edge_def)
        then show ?thesis using d by (cases "ln = right") (auto simp: bypassed_def)
      next
        case False
        then have "edge s' y z" using step.hyps(2) edge' by simp
        with y have "(edge s')\<^sup>*\<^sup>* (lf_head s) z" by (rule rtranclp.rtrancl_into_rtrancl)
        then show ?thesis by blast
      qed
    next
      assume "bypassed s right y"
      then show ?thesis using bypassed_step step.hyps(2) by blast
    next
      assume y: "(edge s')\<^sup>*\<^sup>* right y"
      then have "edge s' y z" using later [OF y] step.hyps(2) edge' by simp
      with y have "(edge s')\<^sup>*\<^sup>* right z" by (rule rtranclp.rtrancl_into_rtrancl)
      then show ?thesis by blast
    qed
  qed simp
  have "(edge s')\<^sup>*\<^sup>* (lf_head s) left" using reach [OF I(9) [OF l(1) alive(1)]] bypassed_removed alive(1) later by blast
  moreover have "edge s' left right" using edge' by simp
  ultimately have hr: "(edge s')\<^sup>*\<^sup>* (lf_head s) right" by (rule rtranclp.rtrancl_into_rtrancl)
  have "(edge s')\<^sup>*\<^sup>* (lf_head s) x" if "x \<in> linked s" "\<not> removed s x" for x
    using reach [OF I(9) [OF that]] bypassed_removed that(2) rtranclp_trans [OF hr] by blast
  then show "lf_inv s'" unfolding lf_inv_def same using I ord by blast
  show "lf_set s' = lf_set s" by (simp add: lf_set_def same)
  show "lf_rely s s'" using alive(1) by (auto simp: lf_rely_def s')
qed

subsection \<open>Linking a new node\<close>

definition low :: "nodes \<Rightarrow> int \<Rightarrow> ref \<Rightarrow> bool" where
  "low s k x \<longleftrightarrow> x \<in> linked s \<and> (x = lf_head s \<or> x \<noteq> lf_tail s \<and> lf_key s x < k)"

definition high :: "nodes \<Rightarrow> int \<Rightarrow> ref \<Rightarrow> bool" where
  "high s k x \<longleftrightarrow> x \<in> linked s \<and> (x = lf_tail s \<or> x \<noteq> lf_head s \<and> k \<le> lf_key s x)"

text \<open>A gap between two neighbours: the key is not in the set.\<close>

lemma gap_absent:
  assumes inv: "lf_inv s" and l: "low s k left" "lf_next s left = right" and r: "high s k right" "right = lf_tail s \<or> lf_key s right \<noteq> k"
  shows "k \<notin> lf_set s"
proof
  note I = lf_invD [OF inv]
  assume "k \<in> lf_set s"
  then obtain x where x: "x \<in> linked s" "x \<noteq> lf_head s" "x \<noteq> lf_tail s" "\<not> removed s x" "lf_key s x = k" by (auto simp: lf_set_def)
  have lt: "left \<in> linked s" "\<not> removed s left" "succ s left = right" "left \<noteq> x"
    using l r(1) I(4) x(2,5) I(3) by (auto simp: low_def high_def)
  from linked_compare [OF inv lt(1,2) x(1,4)] lt(4) show False
  proof (elim disjE exE conjE)
    fix z assume "edge s left z" "(edge s)\<^sup>*\<^sup>* z x"
    then have "right = x \<or> before s right x" using lt(3) edges_before [OF I(10)] r(1) by (auto simp: edge_def high_def)
    then show False using r x by (auto simp: before_def high_def)
  next
    assume "before s x left"
    then show False using l(1) x I(3) by (auto simp: before_def low_def)
  qed simp
qed

lemma link_correct:
  assumes inv: "lf_inv s" and a: "fresh_ref s a" and l: "low s k left" "lf_next s left = right"
    and r: "high s k right" "right = lf_tail s \<or> lf_key s right \<noteq> k"
    and s': "s' = s\<lparr>lf_key := (lf_key s)(a := k), lf_next := (lf_next s)(a := right, left := a), linked := insert a (linked s)\<rparr>"
  shows "lf_inv s'" "lf_set s' = insert k (lf_set s)" "lf_rely s s'"
proof -
  note I = lf_invD [OF inv]
  have na: "\<not> is_marked_reference a" "a \<notin> linked s" using a by (simp_all add: fresh_ref_def)
  have lr: "left \<in> linked s" "left \<noteq> lf_tail s" "right \<in> linked s" "\<not> is_marked_reference right" "\<not> removed s left"
    "right \<noteq> lf_head s" "a \<noteq> left" "a \<noteq> lf_head s" "a \<noteq> lf_tail s"
    using l r(1) I(1-4) na(2) by (auto simp: low_def high_def)
  have same: "lf_head s' = lf_head s" "lf_tail s' = lf_tail s" "linked s' = insert a (linked s)"
    "\<And>x. x \<in> linked s \<Longrightarrow> lf_key s' x = lf_key s x" "\<And>x. x \<in> linked s \<Longrightarrow> removed s' x = removed s x" "lf_key s' a = k"
    "\<not> removed s' a" using na lr by (auto simp: s')
  have bef: "x \<in> linked s \<Longrightarrow> y \<in> linked s \<Longrightarrow> before s' x y = before s x y" for x y by (simp add: before_def same)
  have sc: "succ s' left = a" "succ s' a = right" "x \<in> linked s \<Longrightarrow> x \<noteq> left \<Longrightarrow> succ s' x = succ s x" for x
    using na lr by (auto simp: s')
  have new: "before s' left a" "before s' a right" using l(1) r lr same by (auto simp: before_def low_def high_def)
  have ord: "ordered s'" unfolding ordered_def
  proof (intro ballI impI)
    fix x assume "x \<in> linked s'" "x \<noteq> lf_tail s'"
    then consider "x = a" | "x = left" | "x \<in> linked s" "x \<noteq> left" "x \<noteq> lf_tail s" using same by auto
    then show "succ s' x \<in> linked s' \<and> before s' x (succ s' x)"
      using sc new lr(3) bef I(7,8) same(3) by cases auto
  qed
  have reach: "(edge s')\<^sup>*\<^sup>* (lf_head s) x \<and> x \<in> linked s" if "(edge s)\<^sup>*\<^sup>* (lf_head s) x" for x
    using that
  proof (induction rule: rtranclp_induct)
    case (step y z)
    have "(edge s')\<^sup>*\<^sup>* y z"
    proof (cases "y = left")
      case True
      then have "z = right" using step.hyps(2) l(2) lr(4) by (simp add: edge_def)
      moreover have "edge s' left a" "edge s' a right" using sc lr same na(1) by (simp_all add: edge_def)
      ultimately show ?thesis using True rtranclp.rtrancl_into_rtrancl [OF r_into_rtranclp] by simp
    next
      case False
      then have "edge s' y z" using step sc(3) same by (simp add: edge_def)
      then show ?thesis ..
    qed
    with step.IH have "(edge s')\<^sup>*\<^sup>* (lf_head s) z" by (meson rtranclp_trans)
    moreover have "z \<in> linked s" using step I(7) by (auto simp: edge_def)
    ultimately show ?case by blast
  qed (use I(1) in simp)
  have "(edge s')\<^sup>*\<^sup>* (lf_head s) left" using reach [OF I(9) [OF lr(1,5)]] by simp
  moreover have "edge s' left a" using sc lr same na(1) by (simp add: edge_def)
  ultimately have "(edge s')\<^sup>*\<^sup>* (lf_head s) a" by (rule rtranclp.rtrancl_into_rtrancl)
  then show "lf_inv s'" unfolding lf_inv_def using I ord reach same na by auto
  have "{x \<in> linked s'. x \<noteq> lf_head s' \<and> x \<noteq> lf_tail s' \<and> \<not> removed s' x} =
      insert a {x \<in> linked s. x \<noteq> lf_head s \<and> x \<noteq> lf_tail s \<and> \<not> removed s x}" using same lr(8,9) na(2) by auto
  then show "lf_set s' = insert k (lf_set s)" unfolding lf_set_def using same(4,6) by (auto simp: image_iff)
  show "lf_rely s s'" using same lr(5,7) na(2) by (auto simp: lf_rely_def s')
qed

subsection \<open>Marking a node\<close>

lemma mark_correct:
  assumes inv: "lf_inv s" and r: "right \<in> linked s" "right \<noteq> lf_tail s" "right \<noteq> lf_head s" "lf_next s right = rn"
      "\<not> is_marked_reference rn" and s': "s' = s\<lparr>lf_next := (lf_next s)(right := get_marked_reference rn)\<rparr>"
  shows "lf_inv s'" "lf_key s right \<in> lf_set s" "lf_set s' = lf_set s - {lf_key s right}" "lf_rely s s'"
proof -
  note I = lf_invD [OF inv]
  have same: "lf_head s' = lf_head s" "lf_tail s' = lf_tail s" "linked s' = linked s" "lf_key s' = lf_key s"
    "\<And>x. succ s' x = succ s x" "\<And>x. removed s' x \<longleftrightarrow> x = right \<or> removed s x" using r(4,5) by (auto simp: s')
  then have e: "edge s' = edge s" "before s' = before s" by (simp_all add: fun_eq_iff edge_def before_def)
  show "lf_inv s'" using inv r unfolding lf_inv_def ordered_def same e by auto
  show "lf_key s right \<in> lf_set s" using r by (auto simp: lf_set_def)
  have "x = right" if "x \<in> linked s" "x \<noteq> lf_head s" "x \<noteq> lf_tail s" "\<not> removed s x" "lf_key s x = lf_key s right" for x
  proof -
    have "\<not> removed s right" using r(4,5) by simp
    from linked_compare [OF inv r(1) this that(1,4)] have "right = x \<or> before s right x \<or> before s x right"
      using edges_before [OF I(10)] I(7,8) [OF r(1,2)] before_trans by (metis edge_def)
    then show ?thesis using that r(2,3) by (auto simp: before_def)
  qed
  then show "lf_set s' = lf_set s - {lf_key s right}" unfolding lf_set_def same by auto
  show "lf_rely s s'" using r(4,5) by (auto simp: lf_rely_def s')
qed

section \<open>What a thread knows\<close>

definition walk :: "nodes \<Rightarrow> int \<Rightarrow> ref \<Rightarrow> ref \<Rightarrow> ref \<Rightarrow> bool" where
  "walk s k left leftNext node \<longleftrightarrow> low s k left \<and> leftNext \<in> linked s \<and> (dead_edge s)\<^sup>*\<^sup>* leftNext node"

fun knows :: "nodes \<Rightarrow> pc \<Rightarrow> bool" where
  "knows s (SearchStart c k) = True"
| "knows s (SearchLoop c k node nodeNext left leftNext) =
     (node \<in> linked s \<and> node \<noteq> lf_tail s \<and> get_unmarked_reference nodeNext \<in> linked s \<and>
      get_unmarked_reference nodeNext \<noteq> lf_head s \<and>
      (if is_marked_reference nodeNext then lf_next s node = nodeNext \<and> walk s k left leftNext node else low s k node))"
| "knows s (SearchFound c k left leftNext right) = (walk s k left leftNext right \<and> high s k right)"
| "knows s (SearchCheck c k left right) = (low s k left \<and> high s k right)"
| "knows s (Found c k left right) = (low s k left \<and> high s k right)"
| "knows s (RemoveMark k left right rightNext) =
     (low s k left \<and> high s k right \<and> right \<noteq> lf_tail s \<and> lf_key s right = k \<and> get_unmarked_reference rightNext \<in> linked s)"
| "knows s (RemoveUnlink k left right rightNext) = (low s k left \<and> dead_edge s right rightNext)"
| "knows s (Returned b) = True"

lemma rely_low: "lf_rely s s' \<Longrightarrow> low s k x \<Longrightarrow> low s' k x"
  by (auto simp: lf_rely_def low_def)

lemma rely_high: "lf_rely s s' \<Longrightarrow> high s k x \<Longrightarrow> high s' k x"
  by (auto simp: lf_rely_def high_def)

lemma rely_walk: "lf_rely s s' \<Longrightarrow> walk s k left leftNext node \<Longrightarrow> walk s' k left leftNext node"
  using rely_low rely_dead_edges by (auto simp: walk_def lf_rely_def)

lemma rely_linked: "lf_rely s s' \<Longrightarrow> x \<in> linked s \<Longrightarrow> x \<in> linked s'" "lf_rely s s' \<Longrightarrow> lf_head s' = lf_head s"
  "lf_rely s s' \<Longrightarrow> lf_tail s' = lf_tail s" "lf_rely s s' \<Longrightarrow> x \<in> linked s \<Longrightarrow> lf_key s' x = lf_key s x"
  "lf_rely s s' \<Longrightarrow> x \<in> linked s \<Longrightarrow> removed s x \<Longrightarrow> lf_next s' x = lf_next s x"
  by (auto simp: lf_rely_def)

lemmas rely_stable = rely_low rely_high rely_walk rely_linked

lemma knows_stable:
  assumes "lf_rely s s'" "knows s p"
  shows "knows s' p"
proof (cases p)
  case (SearchLoop c k node nodeNext left leftNext)
  then show ?thesis using assms rely_stable [OF assms(1)] by (simp split: if_splits)
next
  case (RemoveMark k left right rightNext)
  then have "right \<in> linked s" using assms(2) by (simp add: high_def)
  then show ?thesis using RemoveMark assms rely_stable [OF assms(1)] by simp
next
  case (RemoveUnlink k left right rightNext)
  then show ?thesis using assms rely_stable [OF assms(1)] by (simp add: dead_edge_def)
qed (use assms rely_stable [OF assms(1)] in simp_all)

section \<open>Every step\<close>

definition step_ok :: "nodes \<Rightarrow> pc \<Rightarrow> nodes \<Rightarrow> pc \<Rightarrow> bool" where
  "step_ok s p s' p' \<longleftrightarrow> lf_inv s' \<and> knows s' p' \<and> lf_rely s s' \<and>
     (case (p, p') of
        (Found ForInsert k left right, Returned True) \<Rightarrow> k \<notin> lf_set s \<and> lf_set s' = insert k (lf_set s)
      | (RemoveMark k left right rightNext, RemoveUnlink k' left' right' rightNext') \<Rightarrow> k \<in> lf_set s \<and> lf_set s' = lf_set s - {k}
      | _ \<Rightarrow> lf_set s' = lf_set s) \<and>
     (\<forall>c k left right. p \<noteq> p' \<and> p' = Found c k left right \<and> right \<noteq> lf_tail s' \<and> lf_key s' right = k \<longrightarrow> k \<in> lf_set s')"

lemma step_search_start:
  assumes "lf_inv s" "search_start c k s = (s', p')"
  shows "step_ok s (SearchStart c k) s' p'"
proof -
  note I = lf_invD [OF assms(1)]
  have "before s (lf_head s) (succ s (lf_head s))" "succ s (lf_head s) \<in> linked s" by (rule I(8) [OF I(1,3)], rule I(7) [OF I(1,3)])
  then show ?thesis using assms I(1,3,5) lf_rely_refl
    by (auto simp: step_ok_def search_start_def low_def before_def)
qed

lemma step_search_loop:
  assumes "lf_inv s" "knows s (SearchLoop c k node nodeNext left leftNext)"
    "search_loop c k node nodeNext left leftNext s = (s', p')"
  shows "step_ok s (SearchLoop c k node nodeNext left leftNext) s' p'"
proof -
  note I = lf_invD [OF assms(1)]
  let ?n = "get_unmarked_reference nodeNext"
  define l where "l = (if \<not> is_marked_reference nodeNext then node else left)"
  define ln where "ln = (if \<not> is_marked_reference nodeNext then nodeNext else leftNext)"
  have w: "walk s k l ln ?n"
  proof (cases "is_marked_reference nodeNext")
    case True
    then have "dead_edge s node ?n" "walk s k left leftNext node" using assms(2) by (simp_all add: dead_edge_def)
    then show ?thesis using True by (auto simp: walk_def l_def ln_def)
  next
    case False
    then show ?thesis using assms(2) by (simp add: walk_def l_def ln_def)
  qed
  have n: "?n \<in> linked s" "?n \<noteq> lf_head s" using assms(2) by simp_all
  have r: "s' = s \<and> p' = (if ?n \<noteq> lf_tail s \<and> (removed s ?n \<or> lf_key s ?n < k)
      then SearchLoop c k ?n (lf_next s ?n) l ln else SearchFound c k l ln ?n)"
    using assms(3) by (auto simp: search_loop_def l_def ln_def Let_def split: if_splits)
  show ?thesis
  proof (cases "?n \<noteq> lf_tail s \<and> (removed s ?n \<or> lf_key s ?n < k)")
    case True
    then have "before s ?n (succ s ?n)" "succ s ?n \<in> linked s" using I(7,8) n(1) by blast+
    then show ?thesis using True r w n assms(1) lf_rely_refl by (auto simp: step_ok_def low_def before_def)
  next
    case False
    then show ?thesis using r w n assms(1) lf_rely_refl by (auto simp: step_ok_def high_def)
  qed
qed

lemma step_search_check:
  assumes "lf_inv s" "low s k left" "high s k right" "search_check c k left right s = (s', p')"
    "\<not> (\<exists>c k left right. p = Found c k left right)" "\<not> (\<exists>k left right rn. p = RemoveMark k left right rn)"
  shows "step_ok s p s' p'"
proof (cases "right \<noteq> lf_tail s \<and> removed s right")
  case True
  then have "s' = s" "p' = SearchStart c k" using assms(4) by (simp_all add: search_check_def)
  then show ?thesis using assms(1,5) lf_rely_refl by (cases p) (auto simp: step_ok_def)
next
  case False
  then have r: "s' = s" "p' = Found c k left right" using assms(4) by (simp_all add: search_check_def split: if_splits)
  have "k \<in> lf_set s" if "right \<noteq> lf_tail s" "lf_key s right = k"
    using that False assms(3) by (auto simp: lf_set_def high_def)
  then show ?thesis using r assms lf_rely_refl by (cases p) (auto simp: step_ok_def)
qed

lemma step_search_found:
  assumes "lf_inv s" "knows s (SearchFound c k left leftNext right)" "search_found c k left leftNext right s = (s', p')"
  shows "step_ok s (SearchFound c k left leftNext right) s' p'"
proof -
  have w: "low s k left" "leftNext \<in> linked s" "(dead_edge s)\<^sup>*\<^sup>* leftNext right" "high s k right"
    using assms(2) by (simp_all add: walk_def)
  show ?thesis
  proof (cases "leftNext = right")
    case True
    then show ?thesis using step_search_check [OF assms(1) w(1,4)] assms(3) by (simp add: search_found_def)
  next
    case False
    show ?thesis
    proof (cases "lf_next s left = leftNext")
      case True
      have l: "left \<in> linked s" "left \<noteq> lf_tail s" using w(1) lf_invD(3) [OF assms(1)] by (auto simp: low_def)
      have r: "s' = s\<lparr>lf_next := (lf_next s)(left := right)\<rparr>" "p' = SearchCheck c k left right"
        using assms(3) False True by (simp_all add: search_found_def cas_next_def)
      note u = unlink_correct [OF assms(1) l True w(2,3) r(1)]
      show ?thesis using u r(2) rely_stable [OF u(3)] w(1,4) by (simp add: step_ok_def)
    next
      case differs: False
      then have "s' = s" "p' = SearchStart c k" using assms(3) False by (simp_all add: search_found_def cas_next_def)
      then show ?thesis using assms(1) lf_rely_refl by (simp add: step_ok_def)
    qed
  qed
qed

lemma step_insert_found:
  assumes "lf_inv s" "knows s (Found ForInsert k left right)" "fresh_ref s a" "insert_found a k left right s = (s', p')"
  shows "step_ok s (Found ForInsert k left right) s' p'"
proof (cases "right \<noteq> lf_tail s \<and> lf_key s right = k")
  case True
  then have "s' = s" "p' = Returned False" using assms(4) by (simp_all add: insert_found_def)
  then show ?thesis using assms(1) lf_rely_refl by (simp add: step_ok_def)
next
  case gap: False
  have w: "low s k left" "high s k right" using assms(2) by simp_all
  show ?thesis
  proof (cases "lf_next s left = right")
    case True
    have ne: "a \<noteq> left" using w(1) assms(3) by (auto simp: low_def fresh_ref_def)
    then have r: "s' = s\<lparr>lf_key := (lf_key s)(a := k), lf_next := (lf_next s)(a := right, left := a), linked := insert a (linked s)\<rparr>"
      "p' = Returned True" using assms(4) gap True by (auto simp: insert_found_def cas_next_def Let_def)
    from gap have g: "right = lf_tail s \<or> lf_key s right \<noteq> k" by simp
    show ?thesis using link_correct [OF assms(1,3) w(1) True w(2) g r(1)] gap_absent [OF assms(1) w(1) True w(2) g] r(2)
      by (simp add: step_ok_def)
  next
    case False
    then have "s' = s" "p' = SearchStart ForInsert k" using assms(4) gap by (auto simp: insert_found_def Let_def)
    then show ?thesis using assms(1) lf_rely_refl by (simp add: step_ok_def)
  qed
qed

lemma step_remove_found:
  assumes "lf_inv s" "knows s (Found ForRemove k left right)" "remove_found k left right s = (s', p')"
  shows "step_ok s (Found ForRemove k left right) s' p'"
  using assms lf_invD(7) [OF assms(1)] lf_rely_refl
  by (auto simp: remove_found_def step_ok_def high_def split: if_splits)

lemma step_remove_mark:
  assumes "lf_inv s" "knows s (RemoveMark k left right rightNext)" "remove_mark k left right rightNext s = (s', p')"
  shows "step_ok s (RemoveMark k left right rightNext) s' p'"
proof (cases "\<not> is_marked_reference rightNext \<and> lf_next s right = rightNext")
  case True
  have r: "s' = s\<lparr>lf_next := (lf_next s)(right := get_marked_reference rightNext)\<rparr>" "p' = RemoveUnlink k left right rightNext"
    using assms(3) True by (simp_all add: remove_mark_def cas_next_def)
  have w: "low s k left" "right \<in> linked s" "right \<noteq> lf_tail s" "right \<noteq> lf_head s" "lf_key s right = k"
    using assms(2) by (auto simp: high_def)
  note m = mark_correct [OF assms(1) w(2-4) _ _ r(1)]
  have "dead_edge s' right rightNext" using w True by (simp add: dead_edge_def r(1))
  then show ?thesis using m True w(5) r(2) rely_low [OF m(4) w(1)] by (simp add: step_ok_def)
next
  case False
  then have "s' = s" "p' = SearchStart ForRemove k" using assms(3) by (auto simp: remove_mark_def cas_next_def split: if_splits)
  then show ?thesis using assms(1) lf_rely_refl by (simp add: step_ok_def)
qed

lemma step_remove_unlink:
  assumes "lf_inv s" "knows s (RemoveUnlink k left right rightNext)" "remove_unlink left right rightNext s = (s', p')"
  shows "step_ok s (RemoveUnlink k left right rightNext) s' p'"
proof (cases "lf_next s left = right")
  case True
  have r: "s' = s\<lparr>lf_next := (lf_next s)(left := rightNext)\<rparr>" "p' = Returned True"
    using assms(3) True by (simp_all add: remove_unlink_def cas_next_def)
  have w: "left \<in> linked s" "left \<noteq> lf_tail s" "right \<in> linked s" "(dead_edge s)\<^sup>*\<^sup>* right rightNext"
    using assms(2) lf_invD(3) [OF assms(1)] by (auto simp: low_def dead_edge_def)
  show ?thesis using unlink_correct [OF assms(1) w(1,2) True w(3,4) r(1)] r(2) by (simp add: step_ok_def)
next
  case False
  then have "s' = s" "p' = SearchStart ForCleanup (lf_key s right)" using assms(3) by (auto simp: remove_unlink_def cas_next_def)
  then show ?thesis using assms(1) lf_rely_refl by (simp add: step_ok_def)
qed

lemma every_step:
  assumes "lf_inv s" "knows s p" "fresh_ref s a" "lf_step a p s = (s', p')"
  shows "step_ok s p s' p'"
proof (cases p)
  case (Found c k left right)
  show ?thesis
  proof (cases c)
    case ForInsert
    then show ?thesis using step_insert_found [OF assms(1) _ assms(3)] assms(2,4) Found by simp
  next
    case ForRemove
    then show ?thesis using step_remove_found [OF assms(1)] assms(2,4) Found by simp
  next
    case ForFind
    then show ?thesis using assms(1,4) Found lf_rely_refl by (auto simp: step_ok_def find_found_def)
  next
    case ForCleanup
    then show ?thesis using assms(1,4) Found lf_rely_refl by (auto simp: step_ok_def)
  qed
next
  case (SearchCheck c k left right)
  then show ?thesis using assms(2,4) step_search_check [OF assms(1), of k left right c s' p' p] by simp
next
  case (Returned b)
  then show ?thesis using assms lf_rely_refl by (auto simp: step_ok_def)
qed (use assms step_search_start step_search_loop step_search_found step_remove_mark step_remove_unlink in auto)

section \<open>All interleavings\<close>

definition lf_system_ok :: "lf_system \<Rightarrow> bool" where
  "lf_system_ok S \<longleftrightarrow> lf_inv (lf_nodes S) \<and> (\<forall>t. knows (lf_nodes S) (lf_pc S t))"

lemma lf_list_inv: "h \<noteq> t \<Longrightarrow> \<not> is_marked_reference h \<Longrightarrow> \<not> is_marked_reference t \<Longrightarrow> lf_inv (lf_list h t)"
  "lf_set (lf_list h t) = {}"
proof -
  assume a: "h \<noteq> t" "\<not> is_marked_reference h" "\<not> is_marked_reference t"
  then have "edge (lf_list h t) h t" by (simp add: edge_def lf_list_def)
  then have "(edge (lf_list h t))\<^sup>*\<^sup>* h t" ..
  then show "lf_inv (lf_list h t)" using a by (auto simp: lf_inv_def ordered_def before_def lf_list_def)
qed (auto simp: lf_set_def lf_list_def)

lemma lf_run_ok:
  assumes "lf_run S S'" "lf_system_ok S"
  shows "lf_system_ok S'"
  using assms(1)
proof cases
  case (lf_call t b p k)
  then show ?thesis using assms(2) by (auto simp: lf_system_ok_def lf_insert_def lf_remove_def lf_find_def)
next
  case (lf_advance a t s p)
  have ok: "lf_inv (lf_nodes S)" "\<And>u. knows (lf_nodes S) (lf_pc S u)" using assms(2) by (auto simp: lf_system_ok_def)
  have "step_ok (lf_nodes S) (lf_pc S t) s p" using every_step [OF ok(1) ok(2) [of t] lf_advance(2,3)] .
  then have "lf_inv s" "knows s p" "lf_rely (lf_nodes S) s" by (simp_all add: step_ok_def)
  then show ?thesis using lf_advance(1) knows_stable [OF _ ok(2)] by (simp add: lf_system_ok_def)
qed

lemma lf_reach_ok: "lf_reach S \<Longrightarrow> lf_system_ok S"
proof (induction rule: lf_reach.induct)
  case (lf_init h t)
  then show ?case using lf_list_inv(1) [OF lf_init] by (simp add: lf_system_ok_def)
qed (rule lf_run_ok)

section \<open>Properties\<close>

text \<open>
  C20. Whatever the interleaving of any number of threads, the list is intact: every node that
  is not marked is reached from the head; following \<open>next\<close> pointers, also those of removed
  nodes a thread may still hold, stays among the nodes of the list and meets strictly growing
  keys until the tail; head and tail are never removed.
\<close>

theorem lf_list_intact:
  assumes "lf_reach S" "s = lf_nodes S"
  shows "(\<forall>x \<in> linked s. \<not> removed s x \<longrightarrow> (edge s)\<^sup>*\<^sup>* (lf_head s) x) \<and>
    (\<forall>x \<in> linked s. x \<noteq> lf_tail s \<longrightarrow> succ s x \<in> linked s \<and>
       (x \<noteq> lf_head s \<and> succ s x \<noteq> lf_tail s \<longrightarrow> lf_key s x < lf_key s (succ s x))) \<and>
    \<not> removed s (lf_head s) \<and> \<not> removed s (lf_tail s)"
proof -
  have inv: "lf_inv s" using lf_reach_ok [OF assms(1)] assms(2) by (simp add: lf_system_ok_def)
  note I = lf_invD [OF inv]
  show ?thesis using I(5-9) by (auto simp: before_def)
qed

text \<open>A run of one thread up to the point where it is about to link its node in.\<close>

definition small_list :: nodes where
  "small_list = lf_list 16 32"

definition at_pc :: "pc \<Rightarrow> lf_system" where
  "at_pc p = \<lparr>lf_nodes = small_list, lf_pc = (\<lambda>i. Returned False)(0 := p)\<rparr>"

lemma small_refs: "\<not> is_marked_reference 16" "\<not> is_marked_reference 32" "\<not> is_marked_reference 48"
  by (simp_all add: is_marked_reference_def)

lemma small_list_simps:
  "lf_head small_list = 16" "lf_tail small_list = 32" "lf_next small_list 16 = 32" "linked small_list = {16, 32}"
  by (simp_all add: small_list_def lf_list_def)

lemma at_pc_step:
  assumes "lf_step 48 p small_list = (small_list, p')"
  shows "lf_run (at_pc p) (at_pc p')"
proof -
  have "lf_step 48 (lf_pc (at_pc p) 0) (lf_nodes (at_pc p)) = (small_list, p')" using assms by (simp add: at_pc_def)
  from lf_advance [OF _ this] show ?thesis by (simp add: at_pc_def fresh_ref_def small_refs small_list_simps)
qed

lemma at_pc_found: "lf_reach (at_pc (Found ForInsert 5 16 32))"
proof -
  have "lf_reach (at_pc (Returned False))"
    using lf_init [of 16 32] small_refs by (simp add: at_pc_def small_list_def fun_upd_idem)
  moreover have "lf_run (at_pc (Returned False)) (at_pc (SearchStart ForInsert 5))"
    using lf_call [of "at_pc (Returned False)" 0 False "SearchStart ForInsert 5" 5] by (simp add: at_pc_def lf_insert_def)
  moreover have "lf_run (at_pc (SearchStart ForInsert 5)) (at_pc (SearchLoop ForInsert 5 16 32 0 0))"
    by (rule at_pc_step) (simp add: search_start_def small_list_simps)
  moreover have "lf_run (at_pc (SearchLoop ForInsert 5 16 32 0 0)) (at_pc (SearchFound ForInsert 5 16 32 32))"
    by (rule at_pc_step) (simp add: search_loop_def small_list_simps small_refs)
  moreover have "lf_run (at_pc (SearchFound ForInsert 5 16 32 32)) (at_pc (Found ForInsert 5 16 32))"
    by (rule at_pc_step) (simp add: search_found_def search_check_def small_list_simps)
  ultimately show ?thesis using lf_more by metis
qed

theorem lf_list_intact_witness:
  "lf_reach (at_pc (Found ForInsert 5 16 32)) \<and> (edge small_list)\<^sup>*\<^sup>* 16 32 \<and> \<not> removed small_list 16"
proof -
  have n: "lf_nodes (at_pc p) = small_list" for p by (simp add: at_pc_def)
  show ?thesis using lf_list_intact [OF at_pc_found n [symmetric]] at_pc_found by (simp add: small_list_simps small_refs)
qed

text \<open>
  C3. Seen as a set of integers, the list changes only at two kinds of steps, whatever the other
  threads do: the successful exchange of an insertion adds its key, which was absent; the
  marking exchange of a removal takes its key out, which was present. No other step of any
  operation changes the set. A search that ends at a node with its key found the key in the
  set when it checked that the node is not marked.
\<close>

theorem lf_step_effect:
  assumes "lf_reach S" "fresh_ref (lf_nodes S) a" "lf_step a (lf_pc S t) (lf_nodes S) = (s', p')"
  shows "(case (lf_pc S t, p') of
      (Found ForInsert k left right, Returned True) \<Rightarrow> k \<notin> lf_set (lf_nodes S) \<and> lf_set s' = insert k (lf_set (lf_nodes S))
    | (RemoveMark k left right rightNext, RemoveUnlink k' left' right' rightNext') \<Rightarrow>
        k \<in> lf_set (lf_nodes S) \<and> lf_set s' = lf_set (lf_nodes S) - {k}
    | _ \<Rightarrow> lf_set s' = lf_set (lf_nodes S)) \<and>
    (\<forall>c k left right. lf_pc S t \<noteq> p' \<and> p' = Found c k left right \<and> right \<noteq> lf_tail s' \<and> lf_key s' right = k \<longrightarrow> k \<in> lf_set s')"
proof -
  have "lf_system_ok S" by (rule lf_reach_ok [OF assms(1)])
  then have "step_ok (lf_nodes S) (lf_pc S t) s' p'" using every_step assms(2,3) by (simp add: lf_system_ok_def)
  then show ?thesis unfolding step_ok_def by blast
qed

theorem lf_step_effect_witness:
  "lf_reach (at_pc (Found ForInsert 5 16 32)) \<and> fresh_ref small_list 48 \<and>
   lf_set (fst (lf_step 48 (Found ForInsert 5 16 32) small_list)) = {5}"
proof -
  let ?S = "at_pc (Found ForInsert 5 16 32)"
  have n: "lf_nodes ?S = small_list" "lf_pc ?S 0 = Found ForInsert 5 16 32" by (simp_all add: at_pc_def)
  have f: "fresh_ref (lf_nodes ?S) 48" by (simp add: n fresh_ref_def small_refs small_list_simps)
  obtain s' where r: "lf_step 48 (lf_pc ?S 0) (lf_nodes ?S) = (s', Returned True)"
    by (simp add: n insert_found_def small_list_simps)
  have "lf_set (lf_nodes ?S) = {}" by (simp add: n small_list_def lf_list_inv)
  then show ?thesis using lf_step_effect [OF at_pc_found f r] at_pc_found f r by (simp add: n)
qed

end
