(* ===== verification/Byte_Order.thy ===== *)
theory Byte_Order
  imports Prelude
begin

text \<open>
  Byte sequences of integers, shared by the socket protocol (network byte order) and the
  storage engine (little endian). \<open>le_bytes n x\<close> are the \<open>n\<close> low bytes of \<open>x\<close>, lowest first;
  \<open>le_value\<close> reads them back. The lemmas connect them with the shifts and masks of the sources.
\<close>

primrec le_bytes :: "nat \<Rightarrow> nat \<Rightarrow> bytes" where
  "le_bytes 0 x = []"
| "le_bytes (Suc n) x = of_nat x # le_bytes n (x div 256)"

primrec le_value :: "bytes \<Rightarrow> nat" where
  "le_value [] = 0"
| "le_value (b # bs) = unat b + 256 * le_value bs"

lemma byte_less: "unat (b :: u8) < 256"
  using unsigned_less [of b, where ?'a = nat] by simp

lemma length_le_bytes [simp]: "length (le_bytes n x) = n"
  by (induction n arbitrary: x) simp_all

lemma byte_of_nat [simp]: "unat (of_nat x :: u8) = x mod 256"
  by (simp add: unat_of_nat)

lemma le_value_bytes: "le_value (le_bytes n x) = x mod 256 ^ n"
proof (induction n arbitrary: x)
  case (Suc n)
  have "x mod 256 ^ Suc n = 256 * (x div 256 mod 256 ^ n) + x mod 256" by (simp add: mod_mult2_eq)
  then show ?case using Suc by simp
qed simp

lemma le_value_exact: "x < 256 ^ n \<Longrightarrow> le_value (le_bytes n x) = x"
  by (simp add: le_value_bytes)

lemma le_value_less: "le_value bs < 256 ^ length bs"
proof (induction bs)
  case (Cons b bs)
  have "unat b < 256" by (rule byte_less)
  then show ?case using Cons by simp
qed simp

lemma le_bytes_value: "le_bytes (length bs) (le_value bs) = bs"
proof (induction bs)
  case (Cons b bs)
  have b: "unat b < 256" by (rule byte_less)
  have "unat (of_nat (unat b + 256 * le_value bs) :: u8) = unat b" using b unfolding byte_of_nat by simp
  then have "(of_nat (unat b + 256 * le_value bs) :: u8) = b" by (simp only: word_unat_eq_iff)
  moreover have "(unat b + 256 * le_value bs) div 256 = le_value bs" using b by simp
  ultimately show ?case using Cons by (simp only: le_bytes.simps le_value.simps list.size add_Suc_right add_0_right)
qed simp

lemma le_value_append: "le_value (as @ bs) = le_value as + 256 ^ length as * le_value bs"
  by (induction as) (simp_all add: algebra_simps)

lemma le_value_inj: "length as = length bs \<Longrightarrow> le_value as = le_value bs \<Longrightarrow> as = bs"
  by (metis le_bytes_value)

text \<open>A byte of a wider word.\<close>

lemma unat_byte:
  fixes x :: "'a::len word"
  shows "unat (ucast (drop_bit k x) :: u8) = unat x div 2 ^ k mod 256"
proof -
  have "unat (ucast (drop_bit k x) :: u8) = unat (drop_bit k x) mod 256"
    by (simp add: unsigned_ucast_eq take_bit_eq_mod)
  also have "\<dots> = unat x div 2 ^ k mod 256" unfolding unat_drop_bit_eq by (simp only: drop_bit_eq_div)
  finally show ?thesis .
qed

lemma byte_eqI: "unat (a :: u8) = unat b \<Longrightarrow> a = b"
  by (simp add: word_unat_eq_iff)

end
