(* ===== verification/Sockets.thy ===== *)
theory Sockets
  imports Byte_Order
begin

text \<open>
  \<open>task6-sockets\<close>: a server that keeps one number, and clients that send it requests to add and
  subtract, framed by a length field in network byte order. The network is a sequence of
  events, one per \<open>send\<close> or \<open>recv\<close> call: some bytes are transferred, or the call fails with an
  error number. The message codec is generated by protobuf and is a parameter; \<open>codec_ok\<close> is
  what it documents: parsing gives back what was serialised, in as many bytes as reported.
\<close>

section \<open>\<open>util.h\<close>: byte order and framing\<close>

definition convertIntToByteArray :: "u32 \<Rightarrow> bytes" where
  "convertIntToByteArray sz =
     [ucast (drop_bit 24 sz AND 0xFF), ucast (drop_bit 16 sz AND 0xFF), ucast (drop_bit 8 sz AND 0xFF), ucast (sz AND 0xFF)]"

text \<open>\<open>char\<close> is signed; the other bytes are masked after their promotion.\<close>

definition convertByteArrayToInt :: "bytes \<Rightarrow> u32" where
  "convertByteArrayToInt b =
     push_bit 24 (scast (b ! 0)) + push_bit 16 (scast (b ! 1) AND 0xFF) + push_bit 8 (scast (b ! 2) AND 0xFF) + (scast (b ! 3) AND 0xFF)"

definition htonl_bytes :: "u32 \<Rightarrow> bytes" where
  "htonl_bytes x = rev (le_bytes 4 (unat x))"

definition ntohl_bytes :: "bytes \<Rightarrow> u32" where
  "ntohl_bytes bs = of_nat (le_value (rev bs))"

definition construct_message :: "bytes \<Rightarrow> bytes" where
  "construct_message payload = htonl_bytes (of_nat (length payload)) @ payload"

definition get_payload_size :: "bytes \<Rightarrow> int option" where
  "get_payload_size msg = (if length msg < 4 then None else Some (sint (ntohl_bytes (take 4 msg))))"

section \<open>\<open>util.h\<close>: sending and receiving\<close>

datatype net = Chunk nat | Failure int

definition EAGAIN :: int where "EAGAIN = 11"
definition EINTR :: int where "EINTR = 4"
definition ECONNRESET :: int where "ECONNRESET = 104"

datatype 'a outcome = Ok 'a | Exit

text \<open>The wire so far and the events left. No result when the events run out.\<close>

fun send_all :: "net list \<Rightarrow> bytes \<Rightarrow> nat \<Rightarrow> bytes \<Rightarrow> (bytes \<times> net list) outcome option" where
  "send_all ev data sent wire =
     (if sent \<ge> length data then Some (Ok (wire, ev))
      else case ev of
        [] \<Rightarrow> None
      | Failure e # ev' \<Rightarrow>
          if e = EAGAIN \<or> e = EINTR \<or> e = ECONNRESET then send_all ev' data sent wire
          else if e \<noteq> 0 then Some Exit
          else send_all ev' data (sub64 sent 1) wire
      | Chunk k # ev' \<Rightarrow>
          let n = min k (length data - sent)
          in send_all ev' data (sent + n) (wire @ take n (drop sent data)))"

definition secure_send :: "net list \<Rightarrow> bytes \<Rightarrow> bytes \<Rightarrow> (int \<times> bytes \<times> net list) outcome option" where
  "secure_send ev payload wire =
     map_option (\<lambda>r. case r of Ok (w, ev') \<Rightarrow> Ok (sint (of_nat (length payload) :: u32), w, ev') | Exit \<Rightarrow> Exit)
       (send_all ev (construct_message payload) 0 wire)"

text \<open>
  A call that transfers data takes at least one and at most the requested number of the bytes
  that are still to come; none are left when the peer has closed the connection.
\<close>

definition recv_chunk :: "nat \<Rightarrow> nat \<Rightarrow> bytes \<Rightarrow> bytes" where
  "recv_chunk k requested rx = take (min (max 1 k) requested) rx"

fun recv_all :: "net list \<Rightarrow> bytes \<Rightarrow> bytes \<Rightarrow> nat \<Rightarrow> (bool \<times> bytes \<times> bytes \<times> net list) option" where
  "recv_all ev rx data recved =
     (if recved \<ge> length data then Some (True, data, rx, ev)
      else case ev of
        [] \<Rightarrow> None
      | Failure e # ev' \<Rightarrow>
          if e = EAGAIN \<or> e = ECONNRESET then recv_all ev' rx data recved
          else recv_all ev' rx data (sub64 recved 1)
      | Chunk k # ev' \<Rightarrow>
          let got = recv_chunk k (length data - recved) rx
          in if got = [] then Some (False, data, rx, ev')
             else recv_all ev' (drop (length got) rx)
                    (take recved data @ got @ drop (recved + length got) data) (recved + length got))"

declare send_all.simps [simp del] recv_all.simps [simp del]

text \<open>The buffer that \<open>new\<close> returns is filled with some byte \<open>junk\<close>.\<close>

definition secure_recv :: "u8 \<Rightarrow> net list \<Rightarrow> bytes \<Rightarrow> (int \<times> bytes \<times> bytes \<times> net list) option" where
  "secure_recv junk ev rx =
     Option.bind (recv_all ev rx (replicate 4 junk) 0) (\<lambda>(ok, head, rx1, ev1).
     if \<not> ok then Some (0, [], rx1, ev1)
     else
       let n = ntohl_bytes head in
       Option.bind (recv_all ev1 rx1 (replicate (unat n) junk) 0) (\<lambda>(ok, body, rx2, ev2).
       Some (if \<not> ok then 0 else sint n, body, rx2, ev2)))"

section \<open>Messages\<close>

datatype OperationType = ADD | SUB | TERMINATION | RANDOM_DATA

record OperationData =
  op_type :: OperationType
  op_argument :: u32

type_synonym client_msg = "OperationData list"

definition codec_ok :: "(bytes \<Rightarrow> client_msg option) \<Rightarrow> (client_msg \<Rightarrow> bytes) \<Rightarrow> (client_msg \<Rightarrow> nat) \<Rightarrow> bool" where
  "codec_ok parse serialize byteSize \<longleftrightarrow>
     (\<forall>m. parse (serialize m) = Some m) \<and> (\<forall>m. byteSize m = length (serialize m)) \<and> (\<forall>m. m \<noteq> [] \<longrightarrow> serialize m \<noteq> [])"

section \<open>\<open>util_msg.cc\<close> and \<open>client.cc\<close>\<close>

definition get_operation :: "nat \<Rightarrow> client_msg" where
  "get_operation i =
     (if i mod 2 = 0 then [\<lparr>op_type = ADD, op_argument = 2\<rparr>, \<lparr>op_type = ADD, op_argument = 3\<rparr>]
      else [\<lparr>op_type = SUB, op_argument = 2\<rparr>])"

definition termination_message :: client_msg where
  "termination_message = [\<lparr>op_type = TERMINATION, op_argument = 0\<rparr>]"

text \<open>
  What one client thread puts on the wire, when its calls of \<open>get_operation\<close>, \<open>request_count\<close> many,
  draw the values \<open>draws\<close> of the counter that all threads share.
\<close>

definition client_messages :: "nat list \<Rightarrow> client_msg list" where
  "client_messages draws = map get_operation draws @ [termination_message]"

definition client_wire :: "(client_msg \<Rightarrow> bytes) \<Rightarrow> nat list \<Rightarrow> bytes" where
  "client_wire serialize draws = concat (map (\<lambda>m. construct_message (serialize m)) (client_messages draws))"

text \<open>
  The reply is parsed with the length read from its first four bytes; \<open>parsed_result bs\<close> is the
  field \<open>result\<close> of a message after parsing \<open>bs\<close>. No result when bytes behind the buffer are read.
\<close>

definition client_reply :: "(bytes \<Rightarrow> int) \<Rightarrow> bytes \<Rightarrow> int option" where
  "client_reply parsed_result buffer =
     Option.bind (get_payload_size buffer) (\<lambda>n.
     if n < 0 \<or> int (length buffer) < n then None else Some (parsed_result (take (nat n) buffer)))"

text \<open>The arguments; a missing fourth one is read all the same.\<close>

definition client_main :: "(string \<Rightarrow> int) \<Rightarrow> string list \<Rightarrow> (int \<times> string \<times> int \<times> int) outcome option" where
  "client_main atoi argv =
     (if length argv < 4 then Some Exit
      else if length argv < 5 then None
      else Some (Ok (atoi (argv ! 1), if argv ! 2 = ''localhost'' then ''127.0.0.1'' else argv ! 2, atoi (argv ! 3), atoi (argv ! 4))))"

section \<open>\<open>server.cc\<close>\<close>

text \<open>The loop over the operations of a message: the number, and whether it ended with a termination.\<close>

fun process_ops :: "client_msg \<Rightarrow> u64 \<Rightarrow> u64 \<times> bool" where
  "process_ops [] number = (number, False)"
| "process_ops (op # ops) number =
     (case op_type op of
        ADD \<Rightarrow> process_ops ops (number + scast (op_argument op))
      | SUB \<Rightarrow> process_ops ops (number - scast (op_argument op))
      | TERMINATION \<Rightarrow> (number, True)
      | RANDOM_DATA \<Rightarrow> process_ops ops number)"

text \<open>The new number and, for a termination, the result that is sent back.\<close>

partial_function (option) process_request ::
  "(bytes \<Rightarrow> client_msg option) \<Rightarrow> (client_msg \<Rightarrow> nat) \<Rightarrow> bytes \<Rightarrow> nat \<Rightarrow> u64 \<Rightarrow> (u64 \<times> u32 option) outcome option" where
  "process_request parse byteSize buffer offset number =
     (if offset < length buffer
      then (case parse (drop offset buffer) of
              None \<Rightarrow> Some Exit
            | Some m \<Rightarrow>
                (case process_ops m number of (number', terminated) \<Rightarrow>
                   if terminated then Some (Ok (number', Some (ucast number')))
                   else process_request parse byteSize buffer (offset + byteSize m) number'))
      else Some (Ok (number, None)))"

declare process_request.simps [code]

text \<open>
  A server thread at a connection that has data, with the events of its \<open>recv\<close> and \<open>send\<close> calls: a
  message is received and processed, and a termination is answered. The state is the number, what
  is still to be received on each connection and what was sent on it.
\<close>

record server_state =
  server_number :: u64
  incoming :: "nat \<Rightarrow> bytes"
  outgoing :: "nat \<Rightarrow> bytes"

definition handle_connection ::
  "(bytes \<Rightarrow> client_msg option) \<Rightarrow> (client_msg \<Rightarrow> nat) \<Rightarrow> (u32 \<Rightarrow> bytes) \<Rightarrow> u8 \<Rightarrow> nat \<times> net list \<times> net list \<Rightarrow>
   server_state \<Rightarrow> server_state outcome option" where
  "handle_connection parse byteSize serialize_result junk = (\<lambda>(fd, recvs, sends) s.
     Option.bind (secure_recv junk recvs (incoming s fd)) (\<lambda>(len, buffer, rest, _).
     let s = s\<lparr>incoming := (incoming s)(fd := rest)\<rparr> in
     Option.bind (process_request parse byteSize (take (nat len) buffer) 0 (server_number s)) (\<lambda>r.
     case r of
       Exit \<Rightarrow> Some Exit
     | Ok (n, None) \<Rightarrow> Some (Ok (s\<lparr>server_number := n\<rparr>))
     | Ok (n, Some result) \<Rightarrow>
         Option.bind (secure_send sends (serialize_result result) (outgoing s fd)) (\<lambda>r.
         case r of
           Exit \<Rightarrow> Some Exit
         | Ok (_, wire, _) \<Rightarrow> Some (Ok (s\<lparr>server_number := n, outgoing := (outgoing s)(fd := wire)\<rparr>))))))"

datatype poll_result = PollError | PollTimeout | PollReady

text \<open>
  One pass of a server thread over its copy of the connections: \<open>handle fd\<close> receives and
  processes a request and says whether the connection stays open.
\<close>

fun server_pass :: "(nat \<Rightarrow> int \<Rightarrow> poll_result) \<Rightarrow> (int \<Rightarrow> 'w \<Rightarrow> 'w \<times> bool) \<Rightarrow> nat \<Rightarrow> int list \<Rightarrow> int list \<Rightarrow> 'w \<Rightarrow> ('w \<times> int list) outcome" where
  "server_pass poll handle i [] shared w = Ok (w, shared)"
| "server_pass poll handle i (fd # fds) shared w =
     (if fd < 0 then server_pass poll handle (Suc i) fds shared w
      else case poll i fd of
        PollError \<Rightarrow> Exit
      | PollTimeout \<Rightarrow> server_pass poll handle (Suc i) fds shared w
      | PollReady \<Rightarrow>
          (case handle fd w of (w', keep) \<Rightarrow>
             server_pass poll handle (Suc i) fds (if keep then shared else shared[i := -1]) w'))"

definition remove_closed :: "int list \<Rightarrow> int list" where
  "remove_closed sockets = filter (\<lambda>fd. fd \<noteq> -1) sockets"

definition server_round :: "(nat \<Rightarrow> int \<Rightarrow> poll_result) \<Rightarrow> (int \<Rightarrow> 'w \<Rightarrow> 'w \<times> bool) \<Rightarrow> int list \<Rightarrow> 'w \<Rightarrow> ('w \<times> int list) outcome" where
  "server_round poll handle sockets w =
     (case server_pass poll handle 0 sockets sockets w of
        Exit \<Rightarrow> Exit
      | Ok (w', shared) \<Rightarrow> Ok (w', remove_closed shared))"

text \<open>The accept loop of \<open>main\<close> deals the connections out to the threads in turn.\<close>

fun deal_connections :: "nat \<Rightarrow> int list \<Rightarrow> nat \<Rightarrow> int list list \<Rightarrow> int list list outcome option" where
  "deal_connections n [] i queues = Some (Ok queues)"
| "deal_connections n (fd # fds) i queues =
     (if fd < 0 then Some Exit
      else if i \<ge> length queues \<or> n = 0 then None
      else deal_connections n fds ((i + 1) mod n) (queues[i := queues ! i @ [fd]]))"

definition server_main :: "(string \<Rightarrow> int) \<Rightarrow> string list \<Rightarrow> int list \<Rightarrow> int list list outcome option" where
  "server_main atoi argv accepted =
     (if length argv < 3 then Some Exit
      else
        let n = nat (atoi (argv ! 1))
        in if atoi (argv ! 1) < 0 then None else deal_connections n accepted 0 (replicate n []))"

section \<open>Byte order\<close>

lemma low_byte: "unat (ucast (x AND 0xFF) :: u8) = unat (x :: u32) mod 256"
proof -
  have "x AND 0xFF = take_bit 8 x" by (simp add: take_bit_eq_mask mask_eq_exp_minus_1)
  then have "x AND 0xFF = x mod 256" by (simp add: take_bit_eq_mod)
  then have "unat (x AND 0xFF) = unat x mod 256" by (simp add: unat_mod_distrib)
  then show ?thesis by (simp add: unsigned_ucast_eq take_bit_eq_mod)
qed

lemma shifted_byte: "unat (ucast (drop_bit k x AND 0xFF) :: u8) = unat (x :: u32) div 2 ^ k mod 256"
proof -
  have "unat (drop_bit k x) = unat x div 2 ^ k" unfolding unat_drop_bit_eq by (simp only: drop_bit_eq_div)
  then show ?thesis by (simp only: low_byte)
qed

lemma htonl_ntohl [simp]: "ntohl_bytes (htonl_bytes x) = x" "length (htonl_bytes x) = 4"
proof -
  have "unat x < 256 ^ 4" using unsigned_less [of x, where ?'a = nat] by simp
  then show "ntohl_bytes (htonl_bytes x) = x" by (simp add: ntohl_bytes_def htonl_bytes_def le_value_exact)
qed (simp add: htonl_bytes_def)

text \<open>The conversion by shifts is the network byte order.\<close>

lemma convert_htonl: "convertIntToByteArray x = htonl_bytes x"
proof -
  have four: "(4::nat) = Suc (Suc (Suc (Suc 0)))" by simp
  have "le_bytes 4 (unat x) = [of_nat (unat x), of_nat (unat x div 256), of_nat (unat x div 256 div 256), of_nat (unat x div 256 div 256 div 256)]"
    by (simp only: four le_bytes.simps)
  moreover have "ucast (x AND 0xFF) = (of_nat (unat x) :: u8)" by (rule byte_eqI) (simp only: low_byte byte_of_nat)
  moreover have "ucast (drop_bit 8 x AND 0xFF) = (of_nat (unat x div 256) :: u8)"
    "ucast (drop_bit 16 x AND 0xFF) = (of_nat (unat x div 256 div 256) :: u8)"
    "ucast (drop_bit 24 x AND 0xFF) = (of_nat (unat x div 256 div 256 div 256) :: u8)"
    by (rule byte_eqI, simp only: shifted_byte byte_of_nat, simp add: div_mult2_eq [symmetric])+
  ultimately show ?thesis by (simp add: convertIntToByteArray_def htonl_bytes_def)
qed

section \<open>Transfer\<close>

definition benign :: "net list \<Rightarrow> bool" where
  "benign ev \<longleftrightarrow> (\<forall>e. Failure e \<in> set ev \<longrightarrow> e = EAGAIN \<or> e = ECONNRESET)"

definition chunks :: "net list \<Rightarrow> nat" where
  "chunks ev = length (filter (\<lambda>e. \<exists>k. e = Chunk k) ev)"

lemma benign_simps [simp]: "benign (Chunk k # ev) = benign ev" "benign (Failure e # ev) \<longleftrightarrow> (e = EAGAIN \<or> e = ECONNRESET) \<and> benign ev"
  by (auto simp: benign_def)

lemma chunks_simps [simp]: "chunks [] = 0" "chunks (Chunk k # ev) = Suc (chunks ev)" "chunks (Failure e # ev) = chunks ev"
  by (simp_all add: chunks_def)

lemma recv_all_delivers:
  "benign ev \<Longrightarrow> recved \<le> length data \<Longrightarrow> length data - recved \<le> chunks ev \<Longrightarrow> length data - recved \<le> length rx \<Longrightarrow>
   \<exists>ev'. recv_all ev rx data recved =
      Some (True, take recved data @ take (length data - recved) rx, drop (length data - recved) rx, ev') \<and>
      benign ev' \<and> chunks ev - (length data - recved) \<le> chunks ev'"
proof (induction ev arbitrary: rx data recved)
  case Nil
  then show ?case by (simp add: recv_all.simps)
next
  case (Cons e ev)
  show ?case
  proof (cases "recved = length data")
    case True
    then show ?thesis using Cons.prems(1) by (subst recv_all.simps) simp
  next
    case False
    show ?thesis
    proof (cases e)
      case (Failure x)
      then have "recv_all (e # ev) rx data recved = recv_all ev rx data recved"
        using Cons.prems False by (subst recv_all.simps) auto
      then show ?thesis using Cons.IH [of recved data rx] Cons.prems Failure by simp
    next
      case (Chunk k)
      define m where "m = min (max 1 k) (length data - recved)"
      let ?got = "take m rx" and ?data = "take recved data @ take m rx @ drop (recved + m) data"
      have m: "1 \<le> m" "m \<le> length rx" "recved + m \<le> length data" using False Cons.prems by (auto simp: m_def)
      then have got: "length ?got = m" "?got \<noteq> []" by auto
      have rc: "recv_chunk k (length data - recved) rx = ?got" by (simp add: recv_chunk_def m_def)
      have r: "recv_all (e # ev) rx data recved = recv_all ev (drop m rx) ?data (recved + m)"
        unfolding Chunk using False Cons.prems(2) got
        by (subst recv_all.simps) (simp add: rc Let_def del: take_eq_Nil take_eq_Nil2)
      have len: "length ?data = length data" using m Cons.prems(2) by simp
      have pre: "take (recved + m) ?data = take recved data @ ?got" using m Cons.prems(2) by simp
      have prems: "benign ev" "recved + m \<le> length ?data" "length ?data - (recved + m) \<le> chunks ev"
        "length ?data - (recved + m) \<le> length (drop m rx)" using Cons.prems Chunk m len by auto
      from Cons.IH [OF prems] obtain ev' where
        ev': "recv_all ev (drop m rx) ?data (recved + m) = Some (True, take (recved + m) ?data @
            take (length data - (recved + m)) (drop m rx), drop (length data - (recved + m)) (drop m rx), ev')"
          "benign ev'" "chunks ev - (length data - (recved + m)) \<le> chunks ev'" unfolding len by blast
      have d: "length data - recved = m + (length data - (recved + m))" using m by simp
      have "?got @ take (length data - (recved + m)) (drop m rx) = take (length data - recved) rx"
        unfolding d by (simp only: take_add)
      moreover have "drop (length data - (recved + m)) (drop m rx) = drop (length data - recved) rx"
        unfolding d by (simp add: add.commute)
      ultimately show ?thesis using r ev' pre Chunk m by auto
    qed
  qed
qed

lemma sint_of_length: "n < 2 ^ 31 \<Longrightarrow> sint (of_nat n :: u32) = int n"
  by (simp add: signed_of_nat signed_take_bit_int_eq_self)

lemma recv_message:
  assumes "length payload < 2 ^ 31" "rx = construct_message payload @ rest" "benign ev" "4 + length payload \<le> chunks ev"
  shows "\<exists>ev'. secure_recv junk ev rx = Some (int (length payload), payload, rest, ev')"
proof -
  let ?n = "of_nat (length payload) :: u32"
  have n: "unat ?n = length payload" using assms(1) by (simp add: unat_of_nat)
  have rx: "rx = htonl_bytes ?n @ payload @ rest" using assms(2) by (simp add: construct_message_def)
  have "length (htonl_bytes ?n) = 4" by simp
  then have "length (replicate 4 junk) - 0 \<le> length rx" using rx by simp
  from recv_all_delivers [OF assms(3) _ _ this] assms(4) obtain ev1 where
    h: "recv_all ev rx (replicate 4 junk) 0 = Some (True, htonl_bytes ?n, payload @ rest, ev1)" "benign ev1" "chunks ev - 4 \<le> chunks ev1"
    using rx by auto
  have "length (replicate (length payload) junk) - 0 \<le> chunks ev1" using h(3) assms(4) by simp
  from recv_all_delivers [OF h(2) _ this, of "payload @ rest"] obtain ev2 where
    "recv_all ev1 (payload @ rest) (replicate (length payload) junk) 0 = Some (True, payload, rest, ev2)" by auto
  then show ?thesis using h(1) n sint_of_length [OF assms(1)] by (simp add: secure_recv_def)
qed

text \<open>
  C13. A framed message arrives intact, however the network cuts the byte stream: when the peer
  has sent \<open>construct_message payload\<close> and enough \<open>recv\<close> calls transfer data, interrupted by any
  number of calls that have no data yet, \<open>secure_recv\<close> returns the length and the payload and
  takes exactly that message from the stream.
\<close>

theorem secure_recv_message:
  assumes "length payload < 2 ^ 31" "rx = construct_message payload @ rest" "benign ev" "4 + length payload \<le> chunks ev"
  shows "\<exists>ev'. secure_recv junk ev rx = Some (int (length payload), payload, rest, ev')"
  by (rule recv_message [OF assms])

theorem secure_recv_message_witness:
  "benign [Chunk 3, Failure 11, Chunk 1, Chunk 1, Chunk 2, Chunk 2, Chunk 2] \<and>
   (\<exists>ev'. secure_recv 0 [Chunk 3, Failure 11, Chunk 1, Chunk 1, Chunk 2, Chunk 2, Chunk 2] (construct_message [7, 8] @ [9]) =
      Some (2, [7, 8], [9], ev'))"
proof -
  have b: "benign [Chunk 3, Failure 11, Chunk 1, Chunk 1, Chunk 2, Chunk 2, Chunk 2]" by (simp add: benign_def EAGAIN_def)
  show ?thesis using secure_recv_message [of "[7, 8]" _ "[9]", OF _ refl b] b by simp
qed

text \<open>
  An error that is neither of the two handled ones makes the count of received bytes wrap
  around: \<open>recv_all\<close> reports success and leaves the buffer as it was.
\<close>

lemma recv_all_error_success:
  assumes "e \<noteq> EAGAIN" "e \<noteq> ECONNRESET" "data \<noteq> []" "length data < 2 ^ 64"
  shows "recv_all (Failure e # ev) rx data 0 = Some (True, data, rx, ev)"
proof -
  have "sub64 0 1 = 2 ^ 64 - 1" by (simp add: sub64_def)
  then have "recv_all ev rx data (sub64 0 1) = Some (True, data, rx, ev)" using assms(4) by (subst recv_all.simps) simp
  then show ?thesis using assms(1-3) by (subst recv_all.simps) simp
qed

section \<open>The number\<close>

definition op_delta :: "OperationData \<Rightarrow> u64" where
  "op_delta op = (case op_type op of ADD \<Rightarrow> scast (op_argument op) | SUB \<Rightarrow> - scast (op_argument op) | _ \<Rightarrow> 0)"

lemma process_ops_sum:
  assumes "\<forall>op \<in> set ops. op_type op \<noteq> TERMINATION"
  shows "process_ops ops number = (number + sum_list (map op_delta ops), False)"
  using assms
proof (induction ops arbitrary: number)
  case (Cons op ops)
  then show ?case by (cases "op_type op") (simp_all add: op_delta_def algebra_simps)
qed simp

text \<open>
  The order in which the server threads get to apply the operations does not matter: any
  interleaving of the same additions and subtractions gives the same number, also when it
  wraps around.
\<close>

theorem server_order_independent:
  assumes "mset ops = mset ops'" "\<forall>op \<in> set ops. op_type op \<noteq> TERMINATION"
  shows "process_ops ops number = process_ops ops' number"
proof -
  have "set ops' = set ops" using assms(1) by (metis set_mset_mset)
  moreover have "sum_list (map op_delta ops) = sum_list (map op_delta ops')"
    using assms(1) by (metis mset_map sum_mset_sum_list)
  ultimately show ?thesis using assms(2) process_ops_sum by simp
qed

theorem server_order_independent_witness:
  "mset (get_operation 0 @ get_operation 1) = mset (get_operation 1 @ get_operation 0) \<and>
   process_ops (get_operation 0 @ get_operation 1) 0 = process_ops (get_operation 1 @ get_operation 0) 0"
proof -
  have m: "mset (get_operation 0 @ get_operation 1) = mset (get_operation 1 @ get_operation 0)" by (simp add: ac_simps)
  show ?thesis using server_order_independent [OF m] m by (simp add: get_operation_def)
qed

lemma process_one:
  assumes "codec_ok parse serialize byteSize" "m \<noteq> []"
  shows "process_request parse byteSize (serialize m) 0 number =
    Some (Ok (case process_ops m number of (n, t) \<Rightarrow> (n, if t then Some (ucast n) else None)))"
proof -
  obtain n t where nt: "process_ops m number = (n, t)" by fastforce
  have c: "parse (serialize m) = Some m" "byteSize m = length (serialize m)" "serialize m \<noteq> []" using assms by (auto simp: codec_ok_def)
  have e: "process_request parse byteSize (serialize m) (length (serialize m)) n = Some (Ok (n, None))"
    by (subst process_request.simps) simp
  show ?thesis using c nt e by (subst process_request.simps) simp
qed

definition delta_of :: "nat \<Rightarrow> u64" where
  "delta_of i = (if i mod 2 = 0 then 5 else - 2)"

lemma operation_delta: "process_ops (get_operation i) number = (number + delta_of i, False)"
proof -
  have s: "scast (2 :: u32) = (2 :: u64)" "scast (3 :: u32) = (3 :: u64)" by simp_all
  show ?thesis by (simp add: get_operation_def delta_of_def s)
qed

lemma delta_total: "sum_list (map delta_of [0..<k]) = of_nat (3 * (k div 2) + 5 * (k mod 2))"
proof (induction k rule: nat_induct2)
  case (step k)
  have "sum_list (map delta_of [0..<k + 2]) = sum_list (map delta_of [0..<k]) + (delta_of k + delta_of (Suc k))"
    by (simp add: algebra_simps)
  moreover have "delta_of k + delta_of (Suc k) = 3" by (simp add: delta_of_def mod_Suc)
  ultimately show ?case using step by (simp add: algebra_simps)
qed (simp_all add: delta_of_def)

section \<open>Many clients\<close>

lemma four_elements: "length xs = 4 \<Longrightarrow> \<exists>a b c d. xs = [a, b, c, d]"
  by (auto simp: numeral_eq_Suc length_Suc_conv)

definition good_sends :: "net list \<Rightarrow> bool" where
  "good_sends ev \<longleftrightarrow> (\<forall>e. Failure e \<in> set ev \<longrightarrow> e = EAGAIN \<or> e = EINTR \<or> e = ECONNRESET)"

definition full_chunks :: "net list \<Rightarrow> nat" where
  "full_chunks ev = length (filter (\<lambda>e. \<exists>k>0. e = Chunk k) ev)"

lemma send_all_delivers:
  "good_sends ev \<Longrightarrow> sent \<le> length data \<Longrightarrow> length data - sent \<le> full_chunks ev \<Longrightarrow>
   \<exists>ev'. send_all ev data sent wire = Some (Ok (wire @ drop sent data, ev'))"
proof (induction ev arbitrary: sent wire)
  case Nil
  then show ?case by (simp add: send_all.simps full_chunks_def)
next
  case (Cons e ev)
  show ?case
  proof (cases "sent = length data")
    case True
    then show ?thesis by (subst send_all.simps) simp
  next
    case False
    have ev: "good_sends ev" using Cons.prems(1) by (auto simp: good_sends_def)
    show ?thesis
    proof (cases e)
      case (Failure x)
      have "send_all (e # ev) data sent wire = send_all ev data sent wire"
        using Cons.prems(1,2) False Failure by (subst send_all.simps) (auto simp: good_sends_def)
      moreover have "full_chunks (e # ev) = full_chunks ev" using Failure by (simp add: full_chunks_def)
      ultimately show ?thesis using Cons.IH [OF ev Cons.prems(2)] Cons.prems(3) by simp
    next
      case (Chunk k)
      define n where "n = min k (length data - sent)"
      have n: "sent + n \<le> length data" using Cons.prems(2) by (simp add: n_def)
      have "length data - (sent + n) \<le> full_chunks ev"
        using Cons.prems(2,3) Chunk False by (cases "k = 0") (auto simp: full_chunks_def n_def)
      from Cons.IH [OF ev n this, of "wire @ take n (drop sent data)"] obtain ev' where
        "send_all ev data (sent + n) (wire @ take n (drop sent data)) = Some (Ok (wire @ take n (drop sent data) @ drop (sent + n) data, ev'))"
        by auto
      moreover have "take n (drop sent data) @ drop (sent + n) data = drop sent data"
        by (metis append_take_drop_id drop_drop add.commute)
      ultimately show ?thesis using False Cons.prems(2) Chunk by (subst send_all.simps) (simp add: n_def)
    qed
  qed
qed

lemma client_wire_simps:
  "client_wire serialize (i # draws) = construct_message (serialize (get_operation i)) @ client_wire serialize draws"
  "client_wire serialize [] = construct_message (serialize termination_message)"
  by (simp_all add: client_wire_def client_messages_def)

text \<open>The network lets a call of \<open>handle_connection\<close> finish.\<close>

definition patient :: "(client_msg \<Rightarrow> bytes) \<Rightarrow> (u32 \<Rightarrow> bytes) \<Rightarrow> net list \<Rightarrow> net list \<Rightarrow> bool" where
  "patient serialize serialize_result recvs sends \<longleftrightarrow>
     benign recvs \<and> good_sends sends \<and>
     (\<forall>m \<in> {get_operation 0, get_operation 1, termination_message}. length (serialize m) < 2 ^ 31) \<and>
     (\<forall>m \<in> {get_operation 0, get_operation 1, termination_message}. 4 + length (serialize m) \<le> chunks recvs) \<and>
     (\<forall>r. 4 + length (serialize_result r) \<le> full_chunks sends)"

lemma operation_cases: "get_operation i \<in> {get_operation 0, get_operation 1}"
  by (simp add: get_operation_def)

lemma handle_operation:
  assumes "codec_ok parse serialize byteSize"
    "patient serialize reply recvs sends" "incoming s c = client_wire serialize (i # draws)"
  shows "handle_connection parse byteSize reply junk (c, recvs, sends) s =
    Some (Ok (s\<lparr>incoming := (incoming s)(c := client_wire serialize draws), server_number := server_number s + delta_of i\<rparr>))"
proof -
  let ?m = "get_operation i"
  have "incoming s c = construct_message (serialize ?m) @ client_wire serialize draws" using assms(3) by (simp add: client_wire_simps)
  moreover have "length (serialize ?m) < 2 ^ 31" "4 + length (serialize ?m) \<le> chunks recvs" using assms(2) operation_cases [of i] by (auto simp: patient_def)
  moreover have "benign recvs" using assms(2) by (simp add: patient_def)
  ultimately obtain ev' where "secure_recv junk recvs (incoming s c) = Some (int (length (serialize ?m)), serialize ?m, client_wire serialize draws, ev')"
    using recv_message by blast
  moreover have "?m \<noteq> []" by (simp add: get_operation_def)
  ultimately show ?thesis using process_one [OF assms(1), of ?m] by (simp add: handle_connection_def operation_delta)
qed

lemma handle_termination:
  assumes "codec_ok parse serialize byteSize"
    "patient serialize reply recvs sends" "incoming s c = client_wire serialize []"
  shows "handle_connection parse byteSize reply junk (c, recvs, sends) s =
    Some (Ok (s\<lparr>incoming := (incoming s)(c := []), outgoing := (outgoing s)(c := outgoing s c @ construct_message (reply (ucast (server_number s))))\<rparr>))"
proof -
  let ?m = termination_message
  have "incoming s c = construct_message (serialize ?m) @ []" using assms(3) by (simp add: client_wire_simps)
  moreover have "length (serialize ?m) < 2 ^ 31" "4 + length (serialize ?m) \<le> chunks recvs" "benign recvs" using assms(2) by (auto simp: patient_def)
  ultimately obtain ev' where "secure_recv junk recvs (incoming s c) = Some (int (length (serialize ?m)), serialize ?m, [], ev')"
    using recv_message by blast
  moreover have "process_request parse byteSize (serialize ?m) 0 (server_number s) = Some (Ok (server_number s, Some (ucast (server_number s))))"
    using process_one [OF assms(1), of ?m "server_number s"] by (simp add: termination_message_def)
  moreover have "length (construct_message (reply (ucast (server_number s)))) - 0 \<le> full_chunks sends" "good_sends sends"
    using assms(2) by (simp_all add: patient_def construct_message_def)
  then obtain ev2 where "send_all sends (construct_message (reply (ucast (server_number s)))) 0 (outgoing s c) =
      Some (Ok (outgoing s c @ construct_message (reply (ucast (server_number s))), ev2))"
    using send_all_delivers [of sends 0] by fastforce
  ultimately show ?thesis by (simp add: handle_connection_def secure_send_def)
qed

text \<open>A server thread handles connections in the order of a schedule.\<close>

fun serve :: "(bytes \<Rightarrow> client_msg option) \<Rightarrow> (client_msg \<Rightarrow> nat) \<Rightarrow> (u32 \<Rightarrow> bytes) \<Rightarrow> u8 \<Rightarrow> (nat \<times> net list \<times> net list) list \<Rightarrow>
  server_state \<Rightarrow> server_state outcome option" where
  "serve parse byteSize reply junk [] s = Some (Ok s)"
| "serve parse byteSize reply junk (e # es) s =
     Option.bind (handle_connection parse byteSize reply junk e s) (\<lambda>r.
     case r of Exit \<Rightarrow> Some Exit | Ok s' \<Rightarrow> serve parse byteSize reply junk es s')"

text \<open>How often a connection is handled, and what the operations to come on some connections add up to.\<close>

abbreviation turns :: "nat \<Rightarrow> (nat \<times> net list \<times> net list) list \<Rightarrow> nat" where
  "turns c es \<equiv> count_list (map fst es) c"

abbreviation pending :: "nat \<Rightarrow> (nat \<Rightarrow> nat list) \<Rightarrow> u64" where
  "pending T draws \<equiv> \<Sum>c<T. sum_list (map delta_of (draws c))"

text \<open>
  The replies: \<open>live c\<close> says that the termination of connection \<open>c\<close> is still to come. When the last
  connection is closed, its reply holds the final number.
\<close>

definition replied :: "(u32 \<Rightarrow> bytes) \<Rightarrow> (nat \<Rightarrow> bool) \<Rightarrow> nat \<Rightarrow> server_state \<Rightarrow> bool" where
  "replied reply live T s \<longleftrightarrow>
     (\<forall>c<T. \<not> live c \<longrightarrow> (\<exists>n. outgoing s c = construct_message (reply n))) \<and> (\<forall>c<T. live c \<longrightarrow> outgoing s c = [])"

lemma pending_take: "c < T \<Longrightarrow> draws c = i # js \<Longrightarrow> pending T draws = delta_of i + pending T (draws(c := js))"
  by (simp add: sum.remove [of "{..<T}" c])

lemma serve_schedule:
  assumes "codec_ok parse serialize byteSize"
    "\<forall>(c, recvs, sends) \<in> set es. patient serialize reply recvs sends \<and> c < T"
    "\<forall>c<T. turns c es = (if live c then Suc (length (draws c)) else 0)"
    "\<forall>c<T. live c \<longrightarrow> incoming s c = client_wire serialize (draws c)" "\<forall>c<T. \<not> live c \<longrightarrow> incoming s c = [] \<and> draws c = []"
    "replied reply live T s"
  shows "\<exists>s'. serve parse byteSize reply junk es s = Some (Ok s') \<and> server_number s' = server_number s + pending T draws \<and>
    (\<forall>c<T. incoming s' c = []) \<and> replied reply (\<lambda>c. False) T s' \<and>
    (es \<noteq> [] \<longrightarrow> outgoing s' (fst (last es)) = construct_message (reply (ucast (server_number s'))))"
  using assms(2-)
proof (induction es arbitrary: s live draws)
  case Nil
  then have "\<forall>c<T. \<not> live c" by (metis count_list.simps(1) list.map(1) nat.distinct(1))
  then show ?case using Nil by (simp add: replied_def)
next
  case (Cons e es)
  obtain c recvs sends where e: "e = (c, recvs, sends)" by (cases e)
  have p: "patient serialize reply recvs sends" "c < T" "\<forall>(c, recvs, sends) \<in> set es. patient serialize reply recvs sends \<and> c < T"
    using Cons.prems(1) e by auto
  have o: "live c" using Cons.prems(2) p(2) e by (auto split: if_splits)
  show ?case
  proof (cases "draws c")
    case (Cons i js)
    let ?s = "s\<lparr>incoming := (incoming s)(c := client_wire serialize js), server_number := server_number s + delta_of i\<rparr>" and ?draws = "draws(c := js)"
    have h: "handle_connection parse byteSize reply junk e s = Some (Ok ?s)"
      using handle_operation [OF assms(1) p(1), of s c i js junk] Cons.prems(3) p(2) o Cons e by simp
    have "\<forall>d<T. turns d es = (if live d then Suc (length (?draws d)) else 0)" using Cons.prems(2) e Cons o by auto
    moreover have "\<forall>d<T. live d \<longrightarrow> incoming ?s d = client_wire serialize (?draws d)" using Cons.prems(3) by simp
    moreover have "\<forall>d<T. \<not> live d \<longrightarrow> incoming ?s d = [] \<and> ?draws d = []" using Cons.prems(4) o by auto
    moreover have "replied reply live T ?s" using Cons.prems(5) by (simp add: replied_def)
    ultimately obtain s' where s': "serve parse byteSize reply junk es ?s = Some (Ok s')" "server_number s' = server_number ?s + pending T ?draws"
      "\<forall>c<T. incoming s' c = []" "replied reply (\<lambda>c. False) T s'"
      "es \<noteq> [] \<longrightarrow> outgoing s' (fst (last es)) = construct_message (reply (ucast (server_number s')))"
      using Cons.IH [OF p(3)] by blast
    have "es \<noteq> []" using Cons.prems(2) p(2) o Cons e by fastforce
    then show ?thesis using h s' pending_take [of c T draws i js] p(2) Cons by (simp add: add.assoc)
  next
    case Nil
    let ?s = "s\<lparr>incoming := (incoming s)(c := []), outgoing := (outgoing s)(c := outgoing s c @ construct_message (reply (ucast (server_number s))))\<rparr>"
      and ?live = "live(c := False)"
    have h: "handle_connection parse byteSize reply junk e s = Some (Ok ?s)"
      using handle_termination [OF assms(1) p(1), of s c junk] Cons.prems(3) p(2) o Nil e by simp
    have out: "outgoing s c = []" using Cons.prems(5) o p(2) by (simp add: replied_def)
    have "\<forall>d<T. turns d es = (if ?live d then Suc (length (draws d)) else 0)" using Cons.prems(2) e Nil o by auto
    moreover have "\<forall>d<T. ?live d \<longrightarrow> incoming ?s d = client_wire serialize (draws d)" using Cons.prems(3) by simp
    moreover have "\<forall>d<T. \<not> ?live d \<longrightarrow> incoming ?s d = [] \<and> draws d = []" using Cons.prems(4) Nil by auto
    moreover have "replied reply ?live T ?s" using Cons.prems(5) out by (auto simp: replied_def)
    ultimately obtain s' where s': "serve parse byteSize reply junk es ?s = Some (Ok s')" "server_number s' = server_number ?s + pending T draws"
      "\<forall>c<T. incoming s' c = []" "replied reply (\<lambda>c. False) T s'"
      "es \<noteq> [] \<longrightarrow> outgoing s' (fst (last es)) = construct_message (reply (ucast (server_number s')))"
      using Cons.IH [OF p(3)] by blast
    have "outgoing s' (fst (last (e # es))) = construct_message (reply (ucast (server_number s')))"
    proof (cases "es = []")
      case True
      then have "s' = ?s" using s'(1) by simp
      then show ?thesis using True e out by simp
    qed (use s'(5) in simp)
    then show ?thesis using h s' by simp
  qed
qed

text \<open>
  C25. A server thread and the client threads of one process, each of which makes \<open>k\<close> requests and
  then terminates: whichever values of the common counter the \<open>T\<close> clients draw and in whichever
  order the server handles their connections, over a network that cuts the messages in any way, the
  server processes all requests, adding \<open>5\<close> for every first and subtracting \<open>2\<close> for every second
  one, sends one reply to each client, and the reply sent last has the low 32 bits of the final number.
\<close>

theorem client_server_total:
  assumes "codec_ok parse serialize byteSize"
    "\<forall>c<T. length (draws c) = k" "mset (concat (map draws [0..<T])) = mset [0..<T * k]"
    "\<forall>(c, recvs, sends) \<in> set es. patient serialize serialize_result recvs sends \<and> c < T"
    "\<forall>c<T. count_list (map fst es) c = Suc k" "0 < T"
    "\<forall>c. incoming s c = client_wire serialize (draws c)" "\<forall>c. outgoing s c = []"
  shows "\<exists>s'. serve parse byteSize serialize_result junk es s = Some (Ok s') \<and>
    server_number s' = server_number s + of_nat (3 * (T * k div 2) + 5 * (T * k mod 2)) \<and> (\<forall>c<T. incoming s' c = []) \<and>
    (\<forall>c<T. \<exists>r. outgoing s' c = construct_message (serialize_result r)) \<and>
    outgoing s' (fst (last es)) = construct_message (serialize_result (ucast (server_number s')))"
proof -
  have "sum_list (map delta_of (concat (map draws [0..<T]))) = sum_list (map delta_of [0..<T * k])"
    using assms(3) by (metis mset_map sum_mset_sum_list)
  moreover have "sum_list (map delta_of (concat (map draws [0..<T]))) = pending T draws"
    by (induction T) simp_all
  ultimately have "pending T draws = of_nat (3 * (T * k div 2) + 5 * (T * k mod 2))" using delta_total [of "T * k"] by simp
  moreover have "es \<noteq> []" using assms(5,6) by fastforce
  ultimately show ?thesis
    using serve_schedule [OF assms(1,4), of "\<lambda>c. True" draws s junk] assms(2,5,7,8) by (simp add: replied_def)
qed

text \<open>
  C36. The client cannot read its reply. A serialised \<open>server_msg\<close> starts with the tag 8 of its field
  \<open>result\<close> and is a few bytes long. The client takes its first four bytes, which it may not even have, for the
  length of the message, and so parses bytes behind the end of the buffer, whatever the result is.
\<close>

theorem client_reply_overruns:
  assumes "\<forall>r. serialize_result r \<noteq> [] \<and> hd (serialize_result r) = 8 \<and> length (serialize_result r) \<le> 11"
  shows "client_reply parsed_result (serialize_result r) = None"
proof (cases "length (serialize_result r) < 4")
  case True
  then show ?thesis by (simp add: client_reply_def get_payload_size_def)
next
  case False
  then have "length (take 4 (serialize_result r)) = 4" by simp
  from four_elements [OF this] obtain a b c d where t: "take 4 (serialize_result r) = [a, b, c, d]" by blast
  have "a = 8" using assms(1) t by (metis hd_take list.sel(1) zero_less_numeral)
  then have v: "le_value (rev [a, b, c, d]) = unat d + 256 * (unat c + 256 * (unat b + 256 * 8))" by simp
  moreover have "unat b < 256" "unat c < 256" "unat d < 256" using unsigned_less [of b] unsigned_less [of c] unsigned_less [of d] by simp_all
  ultimately have "le_value (rev [a, b, c, d]) < 2 ^ 31" "11 < le_value (rev [a, b, c, d])" unfolding v by simp_all
  then have "11 < sint (ntohl_bytes [a, b, c, d])" unfolding ntohl_bytes_def using sint_of_length by (metis of_nat_less_iff of_nat_numeral)
  moreover have "int (length (serialize_result r)) \<le> 11" using assms(1) by simp
  ultimately have "int (length (serialize_result r)) < sint (ntohl_bytes (take 4 (serialize_result r)))" unfolding t by linarith
  then show ?thesis using False by (simp add: client_reply_def get_payload_size_def)
qed

text \<open>A codec that satisfies the hypothesis: five bytes per operation.\<close>

definition plain_code :: "OperationType \<Rightarrow> u8" where
  "plain_code t = (case t of ADD \<Rightarrow> 0 | SUB \<Rightarrow> 1 | TERMINATION \<Rightarrow> 2 | RANDOM_DATA \<Rightarrow> 3)"

definition plain_type :: "u8 \<Rightarrow> OperationType" where
  "plain_type b = (if b = 0 then ADD else if b = 1 then SUB else if b = 2 then TERMINATION else RANDOM_DATA)"

definition plain_serialize :: "client_msg \<Rightarrow> bytes" where
  "plain_serialize m = concat (map (\<lambda>op. plain_code (op_type op) # htonl_bytes (op_argument op)) m)"

fun plain_parse :: "bytes \<Rightarrow> client_msg option" where
  "plain_parse [] = Some []"
| "plain_parse (t # a # b # c # d # bs) =
     map_option (\<lambda>m. \<lparr>op_type = plain_type t, op_argument = ntohl_bytes [a, b, c, d]\<rparr> # m) (plain_parse bs)"
| "plain_parse bs = None"

lemma plain_codec: "codec_ok plain_parse plain_serialize (\<lambda>m. length (plain_serialize m))"
proof -
  have "plain_parse (plain_serialize m) = Some m" for m
  proof (induction m)
    case (Cons op m)
    obtain a b c d where h: "htonl_bytes (op_argument op) = [a, b, c, d]"
      using four_elements [OF htonl_ntohl(2)] by blast
    then have "ntohl_bytes [a, b, c, d] = op_argument op" using htonl_ntohl(1) [of "op_argument op"] by simp
    moreover have "plain_type (plain_code (op_type op)) = op_type op" by (cases "op_type op") (simp_all add: plain_type_def plain_code_def)
    ultimately show ?case using Cons h by (simp add: plain_serialize_def)
  qed (simp add: plain_serialize_def)
  then show ?thesis by (auto simp: codec_ok_def plain_serialize_def neq_Nil_conv)
qed

text \<open>Two clients with one request each, over a network that delivers single bytes.\<close>

definition example_schedule :: "(nat \<times> net list \<times> net list) list" where
  "example_schedule = map (\<lambda>c. (c, replicate 14 (Chunk 1), replicate 9 (Chunk 1))) [1, 0, 0, 1]"

definition example_state :: server_state where
  "example_state = \<lparr>server_number = 10, incoming = (\<lambda>c. client_wire plain_serialize [1 - c]), outgoing = (\<lambda>c. [])\<rparr>"

definition plain_result :: "u32 \<Rightarrow> bytes" where
  "plain_result r = 8 # htonl_bytes r"

lemma example_patient: "patient plain_serialize plain_result (replicate 14 (Chunk 1)) (replicate 9 (Chunk 1))"
  by (simp add: patient_def benign_def good_sends_def chunks_def full_chunks_def plain_serialize_def plain_result_def
      get_operation_def termination_message_def)

theorem client_server_total_witness:
  "\<exists>s'. serve plain_parse (\<lambda>m. length (plain_serialize m)) plain_result 0 example_schedule example_state = Some (Ok s') \<and>
     server_number s' = 13 \<and> outgoing s' 1 = construct_message (plain_result 13)"
proof -
  have draws: "\<forall>c<2. length ((\<lambda>c. [1 - c]) c) = 1" "mset (concat (map (\<lambda>c. [1 - c]) [0..<2])) = mset [0..<2 * 1]"
    by (simp_all add: numeral_nat)
  have es: "\<forall>(c, recvs, sends) \<in> set example_schedule. patient plain_serialize plain_result recvs sends \<and> c < 2"
    "\<forall>c<2. count_list (map fst example_schedule) c = Suc 1" "fst (last example_schedule) = 1"
    using example_patient by (auto simp: example_schedule_def less_Suc_eq numeral_nat)
  have s: "\<forall>c. incoming example_state c = client_wire plain_serialize ((\<lambda>c. [1 - c]) c)" "\<forall>c. outgoing example_state c = []"
    "server_number example_state = 10" by (simp_all add: example_state_def)
  obtain s' where
    "serve plain_parse (\<lambda>m. length (plain_serialize m)) plain_result 0 example_schedule example_state = Some (Ok s')"
    "server_number s' = 10 + of_nat (3 * (2 * 1 div 2) + 5 * (2 * 1 mod 2))"
    "outgoing s' 1 = construct_message (plain_result (ucast (server_number s')))"
    using client_server_total [OF plain_codec draws es(1,2) _ s(1,2), of 0] unfolding es(3) s(3) by auto
  then show ?thesis by simp
qed

theorem client_reply_overruns_witness:
  "client_reply (\<lambda>bs. 0) (plain_result 13) = None"
  using client_reply_overruns [of plain_result "\<lambda>bs. 0" 13] by (simp add: plain_result_def)

end
