(* ===== verification/Shell.thy ===== *)
theory Shell
  imports Prelude
begin

text \<open>
  \<open>task3-processes\<close>: a shell that runs pipelines. A process is its table of open files; \<open>pipe\<close>,
  \<open>open\<close>, \<open>dup2\<close> and \<open>close\<close> change that table, \<open>fork\<close> copies it. The parameters are what the kernel
  decides: the number each \<open>fork\<close> returns (negative when it fails) and which files can be
  opened. The result of running a pipeline is the list of children with what they execute and
  where their input and output go. The parser (\<open>parse.y\<close>, \<open>scan.l\<close>) delivers the pipeline.
\<close>

section \<open>\<open>parse.h\<close>\<close>

record command =
  argv :: "string list"
  output_redir :: "string option"
  input_redir :: "string option"

record pipeline =
  commands :: "command list"
  background :: bool

datatype builtin_type = BUILTIN_NONE | BUILTIN_EXIT | BUILTIN_WAIT | BUILTIN_KILL

section \<open>Open files\<close>

datatype target = Inherited nat | PipeRead nat | PipeWrite nat | ReadFile string | WriteFile string

type_synonym fds = "nat \<Rightarrow> target option"

definition lowest_fd :: "fds \<Rightarrow> nat option" where
  "lowest_fd t = find (\<lambda>n. t n = None) [0..<1024]"

definition close_fd :: "nat \<Rightarrow> fds \<Rightarrow> fds" where
  "close_fd n t = t(n := None)"

definition dup2 :: "nat \<Rightarrow> nat \<Rightarrow> fds \<Rightarrow> fds" where
  "dup2 old new t = (if t old = None then t else t(new := t old))"

text \<open>The two ends of pipe number \<open>k\<close> at the lowest free descriptors, or failure.\<close>

definition pipe :: "nat \<Rightarrow> fds \<Rightarrow> (nat \<times> nat \<times> fds) option" where
  "pipe k t =
     Option.bind (lowest_fd t) (\<lambda>r.
     let t1 = t(r \<mapsto> PipeRead k) in
     Option.bind (lowest_fd t1) (\<lambda>w. Some (r, w, t1(w \<mapsto> PipeWrite k))))"

section \<open>\<open>execute.c\<close>\<close>

datatype child = Execute "string list" fds | Failed

record shell =
  sh_fds :: fds
  sh_pipes :: nat
  sh_forks :: nat
  sh_children :: "(int \<times> child) list"
  sh_waited :: "int list"

text \<open>Opening a file for one of the standard descriptors.\<close>

definition redirect :: "bool \<Rightarrow> target \<Rightarrow> nat \<Rightarrow> fds \<Rightarrow> fds option" where
  "redirect ok file std t =
     (if \<not> ok then None
      else Option.bind (lowest_fd t) (\<lambda>fd. Some (close_fd fd (dup2 fd std (t(fd \<mapsto> file))))))"

text \<open>The child process, up to its \<open>execvp\<close> or \<open>exit\<close>.\<close>

definition child_process ::
  "(string \<Rightarrow> bool) \<Rightarrow> (string \<Rightarrow> bool) \<Rightarrow> command \<Rightarrow> nat option \<Rightarrow> (nat \<times> nat) option \<Rightarrow> fds \<Rightarrow> child" where
  "child_process can_read can_write c in_fd pipefd t0 =
     (let t1 = (case in_fd of Some fd \<Rightarrow> close_fd fd (dup2 fd 0 t0) | None \<Rightarrow> t0) in
      case (case input_redir c of Some f \<Rightarrow> redirect (can_read f) (ReadFile f) 0 t1 | None \<Rightarrow> Some t1) of
        None \<Rightarrow> Failed
      | Some t2 \<Rightarrow>
          let t3 = (case pipefd of Some (r, w) \<Rightarrow> close_fd w (dup2 w 1 (close_fd r t2)) | None \<Rightarrow> t2) in
          case (case output_redir c of Some f \<Rightarrow> redirect (can_write f) (WriteFile f) 1 t3 | None \<Rightarrow> Some t3) of
            None \<Rightarrow> Failed
          | Some t4 \<Rightarrow> Execute (argv c) t4)"

text \<open>
  The parent: the number of the process and the state of the shell, or no result when it exits
  because there is no pipe. A failed \<open>fork\<close> returns -1 and leaves no child.
\<close>

fun run_command ::
  "(string \<Rightarrow> bool) \<Rightarrow> (string \<Rightarrow> bool) \<Rightarrow> (nat \<Rightarrow> int) \<Rightarrow> command list \<Rightarrow> nat option \<Rightarrow> shell \<Rightarrow> (int \<times> shell) option" where
  "run_command can_read can_write fork [] in_fd sh = None"
| "run_command can_read can_write fork (c # next) in_fd sh =
     (let nonterminal = (next \<noteq> []) in
      Option.bind (if nonterminal then map_option (\<lambda>(r, w, t). (Some (r, w), sh\<lparr>sh_fds := t, sh_pipes := Suc (sh_pipes sh)\<rparr>)) (pipe (sh_pipes sh) (sh_fds sh))
                   else Some (None, sh)) (\<lambda>(pipefd, sh1).
      let pid = fork (sh_forks sh1);
          sh2 = sh1\<lparr>sh_forks := Suc (sh_forks sh1),
            sh_children := sh_children sh1 @ (if pid < 0 then [] else [(pid, child_process can_read can_write c in_fd pipefd (sh_fds sh1))])\<rparr>
      in case pipefd of
           None \<Rightarrow> Some (pid, sh2)
         | Some (r, w) \<Rightarrow>
             Option.bind (run_command can_read can_write fork next (Some r) (sh2\<lparr>sh_fds := close_fd w (sh_fds sh2)\<rparr>)) (\<lambda>(next_pid, sh3).
             Some (pid, sh3\<lparr>sh_waited := sh_waited sh3 @ [next_pid], sh_fds := close_fd r (sh_fds sh3)\<rparr>))))"

definition run_pipeline ::
  "(string \<Rightarrow> bool) \<Rightarrow> (string \<Rightarrow> bool) \<Rightarrow> (nat \<Rightarrow> int) \<Rightarrow> pipeline \<Rightarrow> shell \<Rightarrow> shell option" where
  "run_pipeline can_read can_write fork p sh =
     map_option (\<lambda>(pid, sh'). if background p then sh' else sh'\<lparr>sh_waited := sh_waited sh' @ [pid]\<rparr>)
       (run_command can_read can_write fork (commands p) None sh)"

datatype builtin_action = WaitFor int | ExitWith int | SendTerm int | Usage

definition run_builtin :: "(string \<Rightarrow> int) \<Rightarrow> builtin_type \<Rightarrow> string option \<Rightarrow> builtin_action option" where
  "run_builtin atoi builtin arg =
     (case builtin of
        BUILTIN_WAIT \<Rightarrow> Some (WaitFor (case arg of Some a \<Rightarrow> atoi a | None \<Rightarrow> 0))
      | BUILTIN_EXIT \<Rightarrow> Some (ExitWith (case arg of Some a \<Rightarrow> atoi a | None \<Rightarrow> 0))
      | BUILTIN_KILL \<Rightarrow> Some (case arg of Some a \<Rightarrow> SendTerm (atoi a) | None \<Rightarrow> Usage)
      | BUILTIN_NONE \<Rightarrow> None)"

section \<open>\<open>main.c\<close>\<close>

fun check_consistency :: "command list \<Rightarrow> bool" where
  "check_consistency [] = True"
| "check_consistency (c # next) = ((output_redir c = None \<or> next = []) \<and> check_consistency next)"

definition free_command_args :: "command \<Rightarrow> command" where
  "free_command_args c = c\<lparr>argv := [], input_redir := None, output_redir := None\<rparr>"

definition free_pipeline_cmds :: "pipeline \<Rightarrow> pipeline" where
  "free_pipeline_cmds p = p\<lparr>commands := map free_command_args (take 1 (commands p))\<rparr>"

text \<open>What the parser leaves behind for one line.\<close>

record parsed =
  at_eof :: bool
  current_builtin :: builtin_type
  builtin_arg :: "string option"
  current_pipeline :: pipeline

datatype line_result = Quit | Builtin builtin_action | Ran shell | Rejected

text \<open>One iteration of the loop of \<open>main\<close>; no result when the shell exits inside it.\<close>

definition shell_line ::
  "(string \<Rightarrow> bool) \<Rightarrow> (string \<Rightarrow> bool) \<Rightarrow> (nat \<Rightarrow> int) \<Rightarrow> (string \<Rightarrow> int) \<Rightarrow> parsed \<Rightarrow> shell \<Rightarrow> line_result option" where
  "shell_line can_read can_write fork atoi p sh =
     (if at_eof p then Some Quit
      else if current_builtin p \<noteq> BUILTIN_NONE then map_option Builtin (run_builtin atoi (current_builtin p) (builtin_arg p))
      else if check_consistency (commands (current_pipeline p))
      then (case commands (current_pipeline p) of
              [] \<Rightarrow> Some (Ran sh)
            | c # cs \<Rightarrow>
                if argv c \<noteq> [] then map_option Ran (run_pipeline can_read can_write fork (current_pipeline p) sh) else Some (Ran sh))
      else Some Rejected)"

section \<open>Descriptor tables without gaps\<close>

definition packed :: "nat \<Rightarrow> fds \<Rightarrow> bool" where
  "packed m t \<longleftrightarrow> (\<forall>n. t n \<noteq> None \<longleftrightarrow> n < m)"

lemma find_first: "find P xs = Some x \<longleftrightarrow> (\<exists>i < length xs. xs ! i = x \<and> P x \<and> (\<forall>j < i. \<not> P (xs ! j)))"
  by (auto simp: find_Some_iff)

lemma lowest_packed: "packed m t \<Longrightarrow> m < 1024 \<Longrightarrow> lowest_fd t = Some m"
  by (auto simp: lowest_fd_def find_first packed_def intro!: exI [of _ m])

lemma lowest_free:
  assumes "lowest_fd t = Some n"
  shows "t n = None"
  using assms by (auto simp: lowest_fd_def find_first)

lemma packed_free: "packed m t \<Longrightarrow> m \<le> n \<Longrightarrow> t n = None"
  by (meson not_le packed_def)

lemma packed_grow: "packed m t \<Longrightarrow> packed (Suc m) (t(m \<mapsto> x))"
  by (auto simp: packed_def)

lemma packed_shrink: "packed (Suc m) t \<Longrightarrow> packed m (close_fd m t)"
  by (auto simp: packed_def close_fd_def less_Suc_eq)

lemma packed_pipe:
  assumes "packed m t" "Suc m < 1024"
  shows "pipe k t = Some (m, Suc m, t(m \<mapsto> PipeRead k, Suc m \<mapsto> PipeWrite k))"
  using lowest_packed [OF assms(1)] lowest_packed [OF packed_grow [OF assms(1), of "PipeRead k"]] assms(2) by (simp add: pipe_def Let_def)

text \<open>A redirection changes one standard descriptor and nothing else.\<close>

lemma lowest_exists: "t n = None \<Longrightarrow> n < 1024 \<Longrightarrow> \<exists>m. lowest_fd t = Some m"
  by (cases "lowest_fd t") (auto simp: lowest_fd_def find_None_iff)

lemma redirect_effect:
  assumes "t 0 \<noteq> None" "t 1 \<noteq> None" "t n = None" "n < 1024" "std < 2"
  shows "redirect True file std t = Some (t(std \<mapsto> file))"
proof -
  obtain m where m: "lowest_fd t = Some m" using lowest_exists assms(3,4) by blast
  then have "t m = None" by (rule lowest_free)
  then have "m \<noteq> 0 \<and> m \<noteq> 1" using assms(1,2) by (intro conjI notI) simp_all
  then have "m \<noteq> std" using assms(5) by (cases std) auto
  then have "(t(m \<mapsto> file, std \<mapsto> file))(m := None) = t(std \<mapsto> file)" using \<open>t m = None\<close> by (auto simp: fun_eq_iff)
  then show ?thesis using m by (simp add: redirect_def close_fd_def dup2_def)
qed

section \<open>Wiring\<close>

definition no_write_end :: "nat set \<Rightarrow> fds \<Rightarrow> bool" where
  "no_write_end E t \<longleftrightarrow> (\<forall>n k. 2 \<le> n \<longrightarrow> n \<notin> E \<longrightarrow> t n \<noteq> Some (PipeWrite k))"

text \<open>A child executes its command with the given input and output, and holds no other write end of a pipe.\<close>

definition runs :: "command \<Rightarrow> target \<Rightarrow> target \<Rightarrow> child \<Rightarrow> bool" where
  "runs c inp out ch \<longleftrightarrow> (\<exists>t. ch = Execute (argv c) t \<and>
     t 0 = Some (case input_redir c of Some f \<Rightarrow> ReadFile f | None \<Rightarrow> inp) \<and>
     t 1 = Some (case output_redir c of Some f \<Rightarrow> WriteFile f | None \<Rightarrow> out) \<and> no_write_end {} t)"

fun wired :: "target \<Rightarrow> target \<Rightarrow> nat \<Rightarrow> command list \<Rightarrow> (int \<times> child) list \<Rightarrow> bool" where
  "wired inp out k [c] [(pid, ch)] = runs c inp out ch"
| "wired inp out k (c # c' # cs) ((pid, ch) # rest) = (runs c inp (PipeWrite k) ch \<and> wired (PipeRead k) out (Suc k) (c' # cs) rest)"
| "wired inp out k cs chs = False"

definition child_input :: "nat option \<Rightarrow> target \<Rightarrow> fds \<Rightarrow> bool" where
  "child_input in_fd inp t \<longleftrightarrow> (case in_fd of None \<Rightarrow> t 0 = Some inp | Some fd \<Rightarrow> 2 < fd \<and> t fd = Some inp)"

definition child_output :: "(nat \<times> nat) option \<Rightarrow> target \<Rightarrow> fds \<Rightarrow> bool" where
  "child_output pipefd out t \<longleftrightarrow> (case pipefd of None \<Rightarrow> t 1 = Some out \<and> no_write_end {} t
     | Some (r, w) \<Rightarrow> 2 < r \<and> 2 < w \<and> t w = Some out \<and> no_write_end {w} t)"

lemma child_process_runs:
  assumes "child_input in_fd inp t" "child_output pipefd out t" "t 0 \<noteq> None" "t 1 \<noteq> None" "t n = None" "n < 1024"
    "\<forall>fd. in_fd = Some fd \<longrightarrow> (\<forall>r w. pipefd = Some (r, w) \<longrightarrow> fd \<noteq> r \<and> fd \<noteq> w \<and> r \<noteq> w)" "\<forall>r w. pipefd = Some (r, w) \<longrightarrow> r \<noteq> w"
  shows "runs c inp out (child_process (\<lambda>f. True) (\<lambda>f. True) c in_fd pipefd t)"
proof -
  have n: "n \<noteq> 0 \<and> n \<noteq> 1" using assms(3-5) by (intro conjI notI) simp_all
  define t1 where "t1 = (case in_fd of Some fd \<Rightarrow> close_fd fd (dup2 fd 0 t) | None \<Rightarrow> t)"
  have t1: "t1 0 = Some inp" "t1 1 = t 1" "t1 n = None" "\<And>k. 2 \<le> k \<Longrightarrow> t1 k = t k \<or> t1 k = None"
    using assms(1,5) n by (auto simp: t1_def child_input_def close_fd_def dup2_def split: option.splits)
  have pw: "t1 w = t w" if "pipefd = Some (r, w)" for r w
    using that assms(1,2,7) by (auto simp: t1_def child_input_def child_output_def close_fd_def dup2_def split: option.splits)
  define t2 where "t2 = (case input_redir c of Some f \<Rightarrow> t1(0 \<mapsto> ReadFile f) | None \<Rightarrow> t1)"
  have r2: "(case input_redir c of Some f \<Rightarrow> redirect True (ReadFile f) 0 t1 | None \<Rightarrow> Some t1) = Some t2"
    using redirect_effect [of t1 n 0] t1(1-3) assms(4,6) by (simp add: t2_def split: option.split)
  have t2: "t2 0 = Some (case input_redir c of Some f \<Rightarrow> ReadFile f | None \<Rightarrow> inp)" "\<And>k. k \<noteq> 0 \<Longrightarrow> t2 k = t1 k"
    using t1(1) by (auto simp: t2_def split: option.split)
  define t3 where "t3 = (case pipefd of Some (r, w) \<Rightarrow> close_fd w (dup2 w 1 (close_fd r t2)) | None \<Rightarrow> t2)"
  have t3: "t3 0 = t2 0 \<and> t3 1 = Some out \<and> t3 n = None \<and> no_write_end {} t3"
  proof (cases pipefd)
    case None
    have "t2 k \<noteq> Some (PipeWrite j)" if "2 \<le> k" for k j
      using None assms(2) t1(4) [OF that] t2(2) [of k] that by (auto simp: child_output_def no_write_end_def)
    then show ?thesis using None assms(2) t1(2,3) t2(2) [of 1] t2(2) [of n] n by (simp add: t3_def child_output_def no_write_end_def)
  next
    case (Some p)
    obtain r w where rw: "p = (r, w)" by (cases p)
    then have w: "2 < r" "2 < w" "t2 w = Some out" "r \<noteq> w" using Some assms(2,8) t2(2) [of w] pw by (auto simp: child_output_def)
    then have e: "t3 = (t2(r := None))(1 \<mapsto> out, w := None)" by (auto simp: t3_def Some rw close_fd_def dup2_def fun_eq_iff)
    have "t3 k \<noteq> Some (PipeWrite j)" if "2 \<le> k" for k j
    proof (cases "k = w \<or> k = r")
      case False
      then have "t3 k = t1 k" using that e t2(2) [of k] by auto
      moreover have "t k \<noteq> Some (PipeWrite j)" using assms(2) Some rw that False by (auto simp: child_output_def no_write_end_def)
      ultimately show ?thesis using t1(4) [OF that] by auto
    qed (use that e in auto)
    then show ?thesis using e w t1(3) t2(2) [of n] n by (auto simp: no_write_end_def)
  qed
  define t4 where "t4 = (case output_redir c of Some f \<Rightarrow> t3(1 \<mapsto> WriteFile f) | None \<Rightarrow> t3)"
  have r4: "(case output_redir c of Some f \<Rightarrow> redirect True (WriteFile f) 1 t3 | None \<Rightarrow> Some t3) = Some t4"
    using redirect_effect [of t3 n 1] t3 t2(1) assms(6) by (simp add: t4_def split: option.split)
  have "child_process (\<lambda>f. True) (\<lambda>f. True) c in_fd pipefd t = Execute (argv c) t4"
    unfolding child_process_def Let_def t1_def [symmetric] r2 option.case t3_def [symmetric] r4 ..
  moreover have "t4 0 = t2 0" "t4 1 = Some (case output_redir c of Some f \<Rightarrow> WriteFile f | None \<Rightarrow> out)" "no_write_end {} t4"
    using t3 by (auto simp: t4_def no_write_end_def split: option.split)
  ultimately show ?thesis unfolding runs_def using t2(1) by metis
qed

lemma run_command_wired:
  assumes fork: "\<And>i. 0 < fork i"
  shows "cs \<noteq> [] \<Longrightarrow> packed m (sh_fds sh) \<Longrightarrow> 2 < m \<Longrightarrow> m + length cs < 1024 \<Longrightarrow> no_write_end {} (sh_fds sh) \<Longrightarrow>
    (in_fd = None \<and> sh_fds sh 0 = Some inp \<or> in_fd = Some (m - 1) \<and> 3 < m \<and> sh_fds sh (m - 1) = Some inp) \<Longrightarrow>
    sh_fds sh 1 = Some out \<Longrightarrow>
    \<exists>sh' chs. run_command (\<lambda>f. True) (\<lambda>f. True) fork cs in_fd sh = Some (fork (sh_forks sh), sh') \<and>
      sh_fds sh' = sh_fds sh \<and> sh_children sh' = sh_children sh @ chs \<and> wired inp out (sh_pipes sh) cs chs \<and>
      map fst chs = map fork [sh_forks sh..<sh_forks sh + length cs] \<and>
      sh_waited sh' = sh_waited sh @ rev (map fork [Suc (sh_forks sh)..<sh_forks sh + length cs])"
proof (induction cs arbitrary: m sh in_fd inp)
  case (Cons c rest)
  let ?t = "sh_fds sh" and ?pid = "fork (sh_forks sh)"
  have std: "?t 0 \<noteq> None" "?t 1 \<noteq> None" "?t m = None" using Cons.prems(2,3) by (auto simp: packed_def)
  have pid: "\<not> ?pid < 0" using fork [of "sh_forks sh"] by simp
  show ?case
  proof (cases "rest = []")
    case True
    have "runs c inp out (child_process (\<lambda>f. True) (\<lambda>f. True) c in_fd None ?t)"
      using Cons.prems(3-7) std by (intro child_process_runs [where n = m]) (auto simp: child_input_def child_output_def)
    then show ?thesis using True pid Cons.prems(3,4) by (simp add: Let_def)
  next
    case False
    then obtain c' cs' where rest: "rest = c' # cs'" by (cases "rest") auto
    let ?k = "sh_pipes sh" and ?t1 = "?t(m \<mapsto> PipeRead (sh_pipes sh), Suc m \<mapsto> PipeWrite (sh_pipes sh))"
    have p: "pipe ?k ?t = Some (m, Suc m, ?t1)" using Cons.prems(2,4) False by (intro packed_pipe) (auto simp: rest)
    let ?ch = "child_process (\<lambda>f. True) (\<lambda>f. True) c in_fd (Some (m, Suc m)) ?t1"
    let ?sh = "sh\<lparr>sh_pipes := Suc ?k, sh_forks := Suc (sh_forks sh), sh_children := sh_children sh @ [(?pid, ?ch)], sh_fds := ?t(m \<mapsto> PipeRead ?k)\<rparr>"
    have "runs c inp (PipeWrite ?k) ?ch"
      using Cons.prems(2-6) std rest packed_free [OF Cons.prems(2), of "Suc (Suc m)"]
      by (intro child_process_runs [where n = "Suc (Suc m)"]) (auto simp: child_input_def child_output_def no_write_end_def packed_def)
    moreover have t2: "close_fd (Suc m) ?t1 = ?t(m \<mapsto> PipeRead ?k)"
      using packed_free [OF Cons.prems(2), of "Suc m"] by (auto simp: close_fd_def fun_eq_iff)
    moreover have "\<exists>sh' chs. run_command (\<lambda>f. True) (\<lambda>f. True) fork rest (Some m) ?sh = Some (fork (sh_forks ?sh), sh') \<and>
      sh_fds sh' = sh_fds ?sh \<and> sh_children sh' = sh_children ?sh @ chs \<and> wired (PipeRead ?k) out (sh_pipes ?sh) rest chs \<and>
      map fst chs = map fork [sh_forks ?sh..<sh_forks ?sh + length rest] \<and>
      sh_waited sh' = sh_waited ?sh @ rev (map fork [Suc (sh_forks ?sh)..<sh_forks ?sh + length rest])"
    proof (rule Cons.IH [OF False])
      show "packed (Suc m) (sh_fds ?sh)" using packed_grow [OF Cons.prems(2)] by simp
      show "no_write_end {} (sh_fds ?sh)" using Cons.prems(5) by (auto simp: no_write_end_def)
    qed (use Cons.prems in auto)
    then obtain sh' chs where r: "run_command (\<lambda>f. True) (\<lambda>f. True) fork rest (Some m) ?sh = Some (fork (Suc (sh_forks sh)), sh')"
      "sh_fds sh' = ?t(m \<mapsto> PipeRead ?k)" "sh_children sh' = sh_children sh @ (?pid, ?ch) # chs" "wired (PipeRead ?k) out (Suc ?k) rest chs"
      "map fst chs = map fork [Suc (sh_forks sh)..<Suc (sh_forks sh) + length rest]"
      "sh_waited sh' = sh_waited sh @ rev (map fork [Suc (Suc (sh_forks sh))..<Suc (sh_forks sh) + length rest])" by auto
    let ?sh' = "sh'\<lparr>sh_waited := sh_waited sh' @ [fork (Suc (sh_forks sh))], sh_fds := close_fd m (sh_fds sh')\<rparr>"
    have "run_command (\<lambda>f. True) (\<lambda>f. True) fork (c # rest) in_fd sh = Some (?pid, ?sh')"
      using False pid p r(1) t2 by (simp add: Let_def)
    moreover have "sh_fds ?sh' = ?t" using r(2) std(3) by (auto simp: close_fd_def)
    moreover have "wired inp out ?k (c # rest) ((?pid, ?ch) # chs)" using calculation(1) r(4) by (simp add: rest)
    moreover have "map fst ((?pid, ?ch) # chs) = map fork [sh_forks sh..<sh_forks sh + length (c # rest)]"
    proof -
      have "[sh_forks sh..<sh_forks sh + length (c # rest)] = sh_forks sh # [Suc (sh_forks sh)..<Suc (sh_forks sh) + length rest]"
        by (simp add: upt_conv_Cons del: upt_Suc)
      then show ?thesis using r(5) by (simp only: list.map fst_conv)
    qed
    moreover have "sh_waited ?sh' = sh_waited sh @ rev (map fork [Suc (sh_forks sh)..<sh_forks sh + length (c # rest)])"
    proof -
      have "[Suc (sh_forks sh)..<sh_forks sh + length (c # rest)] = Suc (sh_forks sh) # [Suc (Suc (sh_forks sh))..<Suc (sh_forks sh) + length rest]"
        using rest by (simp add: upt_conv_Cons del: upt_Suc)
      then show ?thesis using r(6) by (simp del: upt_Suc)
    qed
    ultimately show ?thesis using r(3) by (intro exI [of _ ?sh'] exI [of _ "(?pid, ?ch) # chs"]) simp
  qed
qed simp

section \<open>Properties\<close>

text \<open>A shell with the three standard descriptors.\<close>

definition start_fds :: fds where
  "start_fds n = (if n < 3 then Some (Inherited n) else None)"

lemma start_packed: "packed 3 start_fds" "no_write_end {} start_fds"
  by (auto simp: packed_def start_fds_def no_write_end_def)

text \<open>
  C15. Running a pipeline of up to 1000 commands, when no \<open>fork\<close> and no \<open>open\<close> fails: each command is
  executed by one child; the output of each goes through a pipe of its own to the input of the
  next, but for redirections, which take precedence; the first reads and the last writes where
  the shell does. No child holds a further write end of any pipe, so that readers see the end
  of the data. The shell's own descriptors are as before, and for a pipeline in the foreground
  it has waited for every child.
\<close>

theorem shell_pipeline_wired:
  assumes "\<And>i. 0 < fork i" "sh_fds sh = start_fds" "commands p \<noteq> []" "length (commands p) \<le> 1000"
  shows "\<exists>sh' chs. run_pipeline (\<lambda>f. True) (\<lambda>f. True) fork p sh = Some sh' \<and> sh_fds sh' = start_fds \<and>
    sh_children sh' = sh_children sh @ chs \<and> wired (Inherited 0) (Inherited 1) (sh_pipes sh) (commands p) chs \<and>
    (\<not> background p \<longrightarrow> fst ` set chs \<subseteq> set (sh_waited sh'))"
proof -
  have "3 + length (commands p) < 1024" using assms(4) by simp
  with run_command_wired [where fork = fork, OF assms(1,3), of 3 sh None "Inherited 0" "Inherited 1"] start_packed assms(2) obtain sh' chs where
    r: "run_command (\<lambda>f. True) (\<lambda>f. True) fork (commands p) None sh = Some (fork (sh_forks sh), sh')" "sh_fds sh' = start_fds"
      "sh_children sh' = sh_children sh @ chs" "wired (Inherited 0) (Inherited 1) (sh_pipes sh) (commands p) chs"
      "map fst chs = map fork [sh_forks sh..<sh_forks sh + length (commands p)]"
      "sh_waited sh' = sh_waited sh @ rev (map fork [Suc (sh_forks sh)..<sh_forks sh + length (commands p)])"
    by (auto simp: start_fds_def)
  let ?sh = "if background p then sh' else sh'\<lparr>sh_waited := sh_waited sh' @ [fork (sh_forks sh)]\<rparr>"
  have run: "run_pipeline (\<lambda>f. True) (\<lambda>f. True) fork p sh = Some ?sh" using r(1) by (simp add: run_pipeline_def)
  have "[sh_forks sh..<sh_forks sh + length (commands p)] = sh_forks sh # [Suc (sh_forks sh)..<sh_forks sh + length (commands p)]"
    using assms(3) by (simp add: upt_conv_Cons)
  then have "set (map fst chs) \<subseteq> set (sh_waited sh' @ [fork (sh_forks sh)])" unfolding r(5,6) by auto
  then have "\<not> background p \<longrightarrow> fst ` set chs \<subseteq> set (sh_waited ?sh)" by simp
  moreover have "sh_fds ?sh = start_fds" "sh_children ?sh = sh_children sh @ chs" using r(2,3) by simp_all
  ultimately show ?thesis using run r(4) by blast
qed

definition example_pipeline :: pipeline where
  "example_pipeline = \<lparr>commands = [\<lparr>argv = [''cat''], output_redir = None, input_redir = Some ''in''\<rparr>,
     \<lparr>argv = [''sort''], output_redir = None, input_redir = None\<rparr>], background = False\<rparr>"

definition fresh_shell :: shell where
  "fresh_shell = \<lparr>sh_fds = start_fds, sh_pipes = 0, sh_forks = 0, sh_children = [], sh_waited = []\<rparr>"

theorem shell_pipeline_wired_witness:
  "\<exists>sh' chs. run_pipeline (\<lambda>f. True) (\<lambda>f. True) (\<lambda>i. 100 + int i) example_pipeline fresh_shell = Some sh' \<and>
     sh_fds sh' = start_fds \<and> wired (Inherited 0) (Inherited 1) 0 (commands example_pipeline) chs"
proof -
  have "sh_fds fresh_shell = start_fds" "sh_pipes fresh_shell = 0" "commands example_pipeline \<noteq> []" "length (commands example_pipeline) \<le> 1000"
    by (simp_all add: fresh_shell_def example_pipeline_def)
  then show ?thesis using shell_pipeline_wired [of "\<lambda>i. 100 + int i" fresh_shell example_pipeline] by auto
qed

text \<open>A pipeline with an output redirection before its end is rejected and starts no process.\<close>

lemma check_consistency_iff:
  "check_consistency cs \<longleftrightarrow> (\<forall>c \<in> set (butlast cs). output_redir c = None)"
  by (induction cs) auto

end
