(* ===== verification/Syscalls.thy ===== *)
theory Syscalls
  imports Prelude
begin

text \<open>
  The system-call wrappers of \<open>task1-syscalls\<close> (\<open>task-1_1.c\<close> and \<open>task-1_2.c\<close>), the program that uses
  them (\<open>main.c\<close>) and the system-call tracer (\<open>task-1_3.c\<close>). The kernel is a parameter:
  \<open>kread\<close> and \<open>kwrite\<close> are the system calls themselves, which return a count or a negated error
  number, and \<open>getfl\<close> is what \<open>fcntl\<close> reports of a descriptor.
\<close>

section \<open>Wrappers\<close>

definition EBADF :: int where "EBADF = 9"
definition EINVAL :: int where "EINVAL = 22"
definition EISDIR :: int where "EISDIR = 21"

definition O_WRONLY :: int where "O_WRONLY = 1"
definition O_RDWR :: int where "O_RDWR = 2"

text \<open>A process: its \<open>errno\<close> and the state of the kernel. A buffer is an address, \<open>0\<close> is \<open>NULL\<close>.\<close>

record 'k process =
  errno :: int
  kernel :: 'k

type_synonym 'k syscall3 = "int \<Rightarrow> nat \<Rightarrow> nat \<Rightarrow> 'k \<Rightarrow> int \<times> 'k"

text \<open>The function \<open>syscall\<close> of the C library: an error number goes to \<open>errno\<close> and \<open>-1\<close> is returned.\<close>

definition libc_syscall :: "'k syscall3 \<Rightarrow> int \<Rightarrow> nat \<Rightarrow> nat \<Rightarrow> 'k process \<Rightarrow> int \<times> 'k process" where
  "libc_syscall call fd buf cnt s = (case call fd buf cnt (kernel s) of (r, k) \<Rightarrow>
     if - 4096 < r \<and> r < 0 then (- 1, \<lparr>errno = - r, kernel = k\<rparr>) else (r, s\<lparr>kernel := k\<rparr>))"

definition read1 :: "'k syscall3 \<Rightarrow> int \<Rightarrow> nat \<Rightarrow> nat \<Rightarrow> 'k process \<Rightarrow> int \<times> 'k process" where
  "read1 kread fd buf cnt s = (if cnt = 0 then (0, s) else libc_syscall kread fd buf cnt s)"

definition write1 :: "'k syscall3 \<Rightarrow> int \<Rightarrow> nat \<Rightarrow> nat \<Rightarrow> 'k process \<Rightarrow> int \<times> 'k process" where
  "write1 kwrite fd buf cnt s = (if cnt = 0 then (0, s) else libc_syscall kwrite fd buf cnt s)"

text \<open>The assembly routines return what the kernel left in \<open>rax\<close>.\<close>

definition read_syscall :: "'k syscall3 \<Rightarrow> int \<Rightarrow> nat \<Rightarrow> nat \<Rightarrow> 'k process \<Rightarrow> int \<times> 'k process" where
  "read_syscall kread fd buffer cnt s = (case kread fd buffer cnt (kernel s) of (r, k) \<Rightarrow> (r, s\<lparr>kernel := k\<rparr>))"

definition write_syscall :: "'k syscall3 \<Rightarrow> int \<Rightarrow> nat \<Rightarrow> nat \<Rightarrow> 'k process \<Rightarrow> int \<times> 'k process" where
  "write_syscall kwrite fd buffer cnt s = (case kwrite fd buffer cnt (kernel s) of (r, k) \<Rightarrow> (r, s\<lparr>kernel := k\<rparr>))"

text \<open>\<open>fcntl(fd, F_GETFL)\<close>: the flags of an open descriptor, else \<open>-1\<close> with \<open>EBADF\<close>.\<close>

definition fcntl_getfl :: "(int \<Rightarrow> 'k \<Rightarrow> int option) \<Rightarrow> int \<Rightarrow> 'k process \<Rightarrow> int \<times> 'k process" where
  "fcntl_getfl getfl fd s = (case getfl fd (kernel s) of
     Some fl \<Rightarrow> (fl, s) | None \<Rightarrow> (- 1, s\<lparr>errno := EBADF\<rparr>))"

definition read2 :: "(int \<Rightarrow> 'k \<Rightarrow> int option) \<Rightarrow> 'k syscall3 \<Rightarrow> int \<Rightarrow> nat \<Rightarrow> nat \<Rightarrow> 'k process \<Rightarrow> int \<times> 'k process" where
  "read2 getfl kread fd buffer cnt s =
     (if cnt = 0 then (0, s)
      else if fd < 0 then (- 1, s\<lparr>errno := EBADF\<rparr>)
      else if buffer = 0 then (- 1, s\<lparr>errno := EINVAL\<rparr>)
      else case fcntl_getfl getfl fd s of (flags, s) \<Rightarrow>
        if flags AND O_WRONLY \<noteq> 0 then (- 1, s\<lparr>errno := EBADF\<rparr>)
        else read_syscall kread fd buffer cnt s)"

definition write2 :: "(int \<Rightarrow> 'k \<Rightarrow> int option) \<Rightarrow> 'k syscall3 \<Rightarrow> int \<Rightarrow> nat \<Rightarrow> nat \<Rightarrow> 'k process \<Rightarrow> int \<times> 'k process" where
  "write2 getfl kwrite fd buffer cnt s =
     (if cnt = 0 then (0, s)
      else if fd < 0 then (- 1, s\<lparr>errno := EBADF\<rparr>)
      else if buffer = 0 then (- 1, s\<lparr>errno := EINVAL\<rparr>)
      else case fcntl_getfl getfl fd s of (flags, s) \<Rightarrow>
        if flags AND O_RDWR = 0 \<and> flags AND O_WRONLY = 0 then (- 1, s\<lparr>errno := EBADF\<rparr>)
        else write_syscall kwrite fd buffer cnt s)"

section \<open>The program using the wrappers\<close>

text \<open>
  \<open>main.c\<close> opens a file, reads into a buffer of 32 bytes filled with zeros, prints it as a string, and
  overwrites the start of the file. \<open>printf\<close> reads the buffer up to a zero byte; without one it
  reads past the end of the array, here \<open>None\<close>.
\<close>

primrec c_string :: "bytes \<Rightarrow> bytes option" where
  "c_string [] = None"
| "c_string (b # bs) = (if b = 0 then Some [] else map_option (Cons b) (c_string bs))"

datatype message = Read_bytes int | Buffer bytes | Could_not_read int | Wrote_bytes int | Could_not_write int

text \<open>
  The file as the program sees it: the wrappers are parameters, \<open>rd\<close> also gives the bytes stored
  in the buffer.
\<close>

definition main_prog ::
  "('k \<Rightarrow> int \<times> 'k) \<Rightarrow> (int \<Rightarrow> nat \<Rightarrow> 'k \<Rightarrow> int \<times> bytes \<times> 'k) \<Rightarrow> (int \<Rightarrow> 'k \<Rightarrow> 'k) \<Rightarrow> (int \<Rightarrow> bytes \<Rightarrow> 'k \<Rightarrow> int \<times> 'k) \<Rightarrow>
   (int \<Rightarrow> 'k \<Rightarrow> 'k) \<Rightarrow> ('k \<Rightarrow> int) \<Rightarrow> 'k \<Rightarrow> (int \<times> message list \<times> 'k) option" where
  "main_prog open_file rd rewind wr close_file err k =
     (case open_file k of (fd, k) \<Rightarrow>
      case rd fd 32 k of (n, data, k) \<Rightarrow>
        if 0 \<le> n then
          case c_string (data @ replicate (32 - length data) 0) of
            None \<Rightarrow> None
          | Some str \<Rightarrow>
            (case wr fd [0x43, 0x69, 0x61, 0x6f] (rewind fd k) of (w, k) \<Rightarrow>
               if 0 \<le> w then Some (0, [Read_bytes n, Buffer str, Wrote_bytes w], close_file fd k)
               else Some (2, [Read_bytes n, Buffer str, Could_not_write (err k)], k))
        else Some (2, [Could_not_read (err k)], k))"

section \<open>The tracer\<close>

record registers =
  orig_rax :: u64
  rdi :: u64
  rsi :: u64
  rdx :: u64
  rax :: u64

datatype trace_item =
  Trace_read int u64 u64
| Trace_write int u64 u64
| Trace_result u64

text \<open>
  The loop of the tracer over the stops of the traced process, one set of registers for each.
  After the last stop the process is gone: \<open>PTRACE_SYSCALL\<close> fails at the head of the loop, and in
  its middle the registers stay as they are.
\<close>

definition entry_items :: "registers \<Rightarrow> trace_item list" where
  "entry_items r =
     (if orig_rax r = 0 then [Trace_read (sint (ucast (rdi r) :: u32)) (rsi r) (rdx r)]
      else if orig_rax r = 1 then [Trace_write (sint (ucast (rdi r) :: u32)) (rsi r) (rdx r)]
      else [])"

definition exit_items :: "registers \<Rightarrow> registers \<Rightarrow> trace_item list" where
  "exit_items entry r = (if entry_items entry \<noteq> [] then [Trace_result (rax r)] else [])"

fun tracer_loop :: "registers list \<Rightarrow> trace_item list" where
  "tracer_loop [] = []"
| "tracer_loop [r] = entry_items r @ exit_items r r"
| "tracer_loop (r # r' # stops) = entry_items r @ exit_items r r' @ tracer_loop stops"

datatype tracer_outcome = Tracer_usage | Tracer_fork_failed | Tracer_done "trace_item list"

definition tracer_main :: "string list \<Rightarrow> int \<Rightarrow> registers list \<Rightarrow> tracer_outcome" where
  "tracer_main argv pid stops =
     (if length argv < 2 then Tracer_usage
      else if pid = - 1 then Tracer_fork_failed
      else Tracer_done (tracer_loop stops))"

section \<open>Properties\<close>

text \<open>
  What the kernel promises: a call returns a count or a negated error number; it transfers data
  only on an open descriptor whose access mode permits it, and leaves no trace when it fails
  because of the descriptor.
\<close>

definition kernel_reads :: "(int \<Rightarrow> 'k \<Rightarrow> int option) \<Rightarrow> 'k syscall3 \<Rightarrow> bool" where
  "kernel_reads getfl kread \<longleftrightarrow> (\<forall>fd buf cnt k. - 4096 < fst (kread fd buf cnt k) \<and>
     ((case getfl fd k of None \<Rightarrow> True | Some fl \<Rightarrow> fd < 0 \<or> fl AND O_WRONLY \<noteq> 0) \<longrightarrow> kread fd buf cnt k = (- EBADF, k)))"

definition kernel_writes :: "(int \<Rightarrow> 'k \<Rightarrow> int option) \<Rightarrow> 'k syscall3 \<Rightarrow> bool" where
  "kernel_writes getfl kwrite \<longleftrightarrow> (\<forall>fd buf cnt k. - 4096 < fst (kwrite fd buf cnt k) \<and>
     ((case getfl fd k of None \<Rightarrow> True | Some fl \<Rightarrow> fd < 0 \<or> fl AND O_RDWR = 0 \<and> fl AND O_WRONLY = 0) \<longrightarrow>
        kwrite fd buf cnt k = (- EBADF, k)))"

text \<open>Two wrappers agree when a call succeeds in both with the same effect, or fails in both.\<close>

definition same_success :: "int \<times> 'k process \<Rightarrow> int \<times> 'k process \<Rightarrow> bool" where
  "same_success a b \<longleftrightarrow> kernel (snd a) = kernel (snd b) \<and> (0 \<le> fst a \<and> a = b \<or> fst a = - 1 \<and> fst b < 0)"

lemma wrappers_agree_at:
  assumes "kernel_reads getfl kread" "kernel_writes getfl kwrite" "buf \<noteq> 0 \<or> cnt = 0 \<or> fd < 0"
  shows "same_success (read1 kread fd buf cnt s) (read2 getfl kread fd buf cnt s)"
    "same_success (write1 kwrite fd buf cnt s) (write2 getfl kwrite fd buf cnt s)"
proof -
  let ?fl = "getfl fd (kernel s)"
  have r: "- 4096 < fst (kread fd buf cnt (kernel s))" "- 4096 < fst (kwrite fd buf cnt (kernel s))"
    and rd: "(case ?fl of None \<Rightarrow> True | Some fl \<Rightarrow> fd < 0 \<or> fl AND O_WRONLY \<noteq> 0) \<Longrightarrow> kread fd buf cnt (kernel s) = (- EBADF, kernel s)"
    and wr: "(case ?fl of None \<Rightarrow> True | Some fl \<Rightarrow> fd < 0 \<or> fl AND O_RDWR = 0 \<and> fl AND O_WRONLY = 0) \<Longrightarrow>
      kwrite fd buf cnt (kernel s) = (- EBADF, kernel s)"
    using assms(1,2) unfolding kernel_reads_def kernel_writes_def by blast+
  show "same_success (read1 kread fd buf cnt s) (read2 getfl kread fd buf cnt s)"
    using r(1) rd assms(3)
    by (auto simp: same_success_def read1_def read2_def libc_syscall_def read_syscall_def fcntl_getfl_def EBADF_def O_WRONLY_def
      split: option.splits prod.splits if_splits)
  show "same_success (write1 kwrite fd buf cnt s) (write2 getfl kwrite fd buf cnt s)"
    using r(2) wr assms(3)
    by (auto simp: same_success_def write1_def write2_def libc_syscall_def write_syscall_def fcntl_getfl_def EBADF_def O_WRONLY_def O_RDWR_def
      split: option.splits prod.splits if_splits)
qed

text \<open>
  C17. The wrappers written in assembly against those over the C library, for every descriptor,
  buffer and count. A null buffer with a positive count and a descriptor that is not negative is
  refused by the former with \<open>EINVAL\<close>, without a call of the kernel, whatever the kernel would
  say. In all other cases a call that succeeds in the one succeeds in the other, with the same
  count and the same state; a call that fails in the one fails in the other, and the kernel is in
  the same state. Failure shows as some negative result, not always as \<open>-1\<close>.
\<close>

theorem wrappers_agree:
  assumes "kernel_reads getfl kread" "kernel_writes getfl kwrite"
  shows "if buf = 0 \<and> 0 < cnt \<and> 0 \<le> fd
    then read2 getfl kread fd buf cnt s = (- 1, s\<lparr>errno := EINVAL\<rparr>) \<and> write2 getfl kwrite fd buf cnt s = (- 1, s\<lparr>errno := EINVAL\<rparr>)
    else same_success (read1 kread fd buf cnt s) (read2 getfl kread fd buf cnt s) \<and>
      same_success (write1 kwrite fd buf cnt s) (write2 getfl kwrite fd buf cnt s)"
  using wrappers_agree_at [OF assms, of buf cnt fd s] by (auto simp: read2_def write2_def)

text \<open>A kernel with one file open for reading and writing at descriptor 3 and a directory at 4.\<close>

definition demo_getfl :: "int \<Rightarrow> nat \<Rightarrow> int option" where
  "demo_getfl fd k = (if fd = 3 then Some 2 else if fd = 4 then Some 0 else None)"

definition demo_read :: "nat syscall3" where
  "demo_read fd buf cnt k = (if fd = 3 then (int (min cnt k), k - min cnt k) else if fd = 4 then (- EISDIR, k) else (- EBADF, k))"

definition demo_write :: "nat syscall3" where
  "demo_write fd buf cnt k = (if fd = 3 then (int cnt, k) else (- EBADF, k))"

theorem wrappers_agree_witness:
  "kernel_reads demo_getfl demo_read \<and> kernel_writes demo_getfl demo_write \<and>
   same_success (read1 demo_read 4 100 8 \<lparr>errno = 0, kernel = 5\<rparr>) (read2 demo_getfl demo_read 4 100 8 \<lparr>errno = 0, kernel = 5\<rparr>)"
proof -
  have "kernel_reads demo_getfl demo_read" "kernel_writes demo_getfl demo_write"
    by (auto simp: kernel_reads_def kernel_writes_def demo_getfl_def demo_read_def demo_write_def EBADF_def EISDIR_def O_WRONLY_def O_RDWR_def
      split: if_splits)
  then show ?thesis using wrappers_agree [of demo_getfl demo_read demo_write 100 8 4] by simp
qed

text \<open>At the end of a file the kernel does not look at the buffer; the two wrappers differ there on a null buffer.\<close>

lemma null_buffer_at_end:
  "read1 demo_read 3 0 8 \<lparr>errno = 0, kernel = 0\<rparr> = (0, \<lparr>errno = 0, kernel = 0\<rparr>)"
  "read2 demo_getfl demo_read 3 0 8 \<lparr>errno = 0, kernel = 0\<rparr> = (- 1, \<lparr>errno = EINVAL, kernel = 0\<rparr>)"
  by (simp_all add: read1_def read2_def libc_syscall_def demo_read_def)

text \<open>The assembly wrappers hand the error numbers of the kernel to the caller and leave \<open>errno\<close> alone.\<close>

lemma read2_raw_error:
  "read1 demo_read 4 100 8 \<lparr>errno = 0, kernel = 5\<rparr> = (- 1, \<lparr>errno = EISDIR, kernel = 5\<rparr>)"
  "read2 demo_getfl demo_read 4 100 8 \<lparr>errno = 0, kernel = 5\<rparr> = (- 21, \<lparr>errno = 0, kernel = 5\<rparr>)"
  by (simp_all add: read1_def read2_def libc_syscall_def read_syscall_def fcntl_getfl_def demo_read_def demo_getfl_def EISDIR_def O_WRONLY_def)

text \<open>A file of 32 bytes without a zero byte fills the buffer of \<open>main.c\<close>, and printing it reads past its end.\<close>

lemma c_string_None: "c_string bs = None \<longleftrightarrow> 0 \<notin> set bs"
  by (induction bs) auto

lemma main_prog_full_buffer:
  assumes "open_file k = (fd, k1)" "rd fd 32 k1 = (32, data, k2)" "length data = 32" "0 \<notin> set data"
  shows "main_prog open_file rd rewind wr close_file err k = None"
  using assms c_string_None [of data] by (simp add: main_prog_def)

text \<open>A traced system call: the registers at its entry and at its exit.\<close>

definition call_items :: "registers \<times> registers \<Rightarrow> trace_item list" where
  "call_items c = (case c of (en, ex) \<Rightarrow>
     if orig_rax en = 0 then [Trace_read (sint (ucast (rdi en) :: u32)) (rsi en) (rdx en), Trace_result (rax ex)]
     else [Trace_write (sint (ucast (rdi en) :: u32)) (rsi en) (rdx en), Trace_result (rax ex)])"

text \<open>
  C27. A traced process whose stops are the entry and the exit of each of its system calls, without
  a stop for a signal in between, and that ends at the entry of a last call from which it does
  not return. The tracer reports exactly its reads and writes, in order, each with its arguments
  and its result. If the last call itself is a read or a write, it is reported as well, with the
  stale value of \<open>rax\<close> at its entry as the result.
\<close>

theorem tracer_reports_calls:
  assumes "2 \<le> length argv" "pid \<noteq> - 1"
  shows "tracer_main argv pid (concat (map (\<lambda>(en, ex). [en, ex]) calls) @ [last_entry]) =
    Tracer_done (concat (map call_items (filter (\<lambda>(en, ex). orig_rax en \<in> {0, 1}) (calls @ [(last_entry, last_entry)]))))"
proof -
  have "tracer_loop (concat (map (\<lambda>(en, ex). [en, ex]) calls) @ [last_entry]) =
      concat (map call_items (filter (\<lambda>(en, ex). orig_rax en \<in> {0, 1}) (calls @ [(last_entry, last_entry)])))"
    by (induction calls) (auto simp: entry_items_def exit_items_def call_items_def split: if_splits)
  then show ?thesis using assms by (simp add: tracer_main_def)
qed

definition demo_regs :: "u64 \<Rightarrow> u64 \<Rightarrow> registers" where
  "demo_regs nr res = \<lparr>orig_rax = nr, rdi = 3, rsi = 0x1000, rdx = 832, rax = res\<rparr>"

theorem tracer_reports_calls_witness:
  "tracer_main [''tracer'', ''ls''] 7 [demo_regs 0 0, demo_regs 0 832, demo_regs 2 0, demo_regs 2 3, demo_regs 231 0] =
     Tracer_done [Trace_read 3 0x1000 832, Trace_result 832]"
  using tracer_reports_calls [of "[''tracer'', ''ls'']" 7 "[(demo_regs 0 0, demo_regs 0 832), (demo_regs 2 0, demo_regs 2 3)]" "demo_regs 231 0"]
  by (simp add: demo_regs_def call_items_def)

text \<open>A further stop, as a signal causes, makes the tracer take exits for entries.\<close>

lemma tracer_signal_stop:
  "tracer_loop [demo_regs 2 0, demo_regs 2 0, demo_regs 2 3, demo_regs 0 0, demo_regs 0 832, demo_regs 231 0] =
     [Trace_read 3 0x1000 832, Trace_result 0]"
  by (simp add: demo_regs_def entry_items_def exit_items_def)

end
