(* ===== verification/Container.thy ===== *)
theory Container
  imports Prelude "HOL-Library.Sublist"
begin

text \<open>
  The sandbox launcher of \<open>task8-container\<close> (\<open>nix-build-shell.cpp\<close>). The program is a sequence of
  calls to the operating system; each is an \<open>action\<close>, and whether it succeeds is a parameter that
  may depend on everything done before. A \<open>step\<close> says what the program does when its action
  fails: exit with an error, throw an exception of the file-system library, or go on. The
  state of the process that the actions build up is its view of the system: namespaces, names,
  mounts, root and working directory. The other inputs are the file \<open>env-vars\<close> as lines, the entries of the build directory, the user and group
  ids, and the result of \<open>fork\<close>.
\<close>

section \<open>Actions and steps\<close>

datatype namespace = NEWUSER | NEWUTS | NEWNET | NEWNS | NEWPID | NEWIPC

datatype mount_flag = MS_REC | MS_BIND | MS_PRIVATE

datatype action =
  Mkdtemp string
| Create_directory string
| Create_directories string
| Permissions string nat
| Copy string string
| Stat string
| Open_iterator string
| Advance_iterator string
| Unshare "namespace list"
| Write_file string string
| Sethostname string
| Setdomainname string
| Open_socket
| Set_interface_flags string
| Close_socket
| Mount string string string "mount_flag list"
| Chdir string
| Chroot string
| Create_symlink string string

datatype step =
  Checked action
| Throwing action
| Unchecked action

primrec step_action :: "step \<Rightarrow> action" where
  "step_action (Checked a) = a"
| "step_action (Throwing a) = a"
| "step_action (Unchecked a) = a"

primrec critical :: "step \<Rightarrow> bool" where
  "critical (Checked a) = True"
| "critical (Throwing a) = True"
| "critical (Unchecked a) = False"

datatype outcome = Exit int | Threw | Executed "string list"

text \<open>Executing steps: the actions attempted so far, and the outcome if the program ended.\<close>

fun run_steps :: "(action list \<Rightarrow> action \<Rightarrow> bool) \<Rightarrow> step list \<Rightarrow> action list \<Rightarrow> outcome option \<times> action list" where
  "run_steps ok [] h = (None, h)"
| "run_steps ok (Checked a # steps) h =
     (if ok h a then run_steps ok steps (h @ [a]) else (Some (Exit 1), h @ [a]))"
| "run_steps ok (Throwing a # steps) h =
     (if ok h a then run_steps ok steps (h @ [a]) else (Some Threw, h @ [a]))"
| "run_steps ok (Unchecked a # steps) h = run_steps ok steps (h @ [a])"

section \<open>Finding the shell\<close>

primrec contains :: "string \<Rightarrow> string \<Rightarrow> bool" where
  "contains p [] = (p = [])"
| "contains p (c # s) = (take (length p) (c # s) = p \<or> contains p s)"

definition shellVarPrefix :: string where
  "shellVarPrefix = ''declare -x SHELL=''"

text \<open>\<open>std::string::substr\<close> throws when it starts past the end and cuts off a count that is too long.\<close>

definition substr :: "string \<Rightarrow> nat \<Rightarrow> nat \<Rightarrow> string option" where
  "substr s pos cnt = (if length s < pos then None else Some (take cnt (drop pos s)))"

fun find_shell :: "string list \<Rightarrow> string \<Rightarrow> string option" where
  "find_shell [] shell = Some shell"
| "find_shell (line # rest) shell =
     (if contains shellVarPrefix line then
        case substr line (length shellVarPrefix + 1) (sub64 (length line) (length shellVarPrefix + 2)) of
          None \<Rightarrow> None
        | Some sh \<Rightarrow> find_shell rest sh
      else find_shell rest shell)"

section \<open>The steps of the program\<close>

text \<open>Paths: \<open>join root p\<close> is \<open>root / p.lexically_relative("/")\<close>, \<open>parent_path\<close> cuts off the last component.\<close>

definition join :: "string \<Rightarrow> string \<Rightarrow> string" where
  "join root p = root @ ''/'' @ (if take 1 p = ''/'' then drop 1 p else p)"

definition parent_path :: "string \<Rightarrow> string" where
  "parent_path p = rev (drop 1 (dropWhile (\<lambda>c. c \<noteq> CHR ''/'') (rev p)))"

text \<open>
  What the recursive iterator over the build directory yields: the names that lead from the
  directory to the entry, and what \<open>fs::status\<close> says of it.
\<close>

record entry =
  rel_names :: "string list"
  is_dir :: bool
  perms :: nat
  others_read :: bool

fun slashed :: "string list \<Rightarrow> string" where
  "slashed [] = []"
| "slashed [n] = n"
| "slashed (n # ns) = n @ ''/'' @ slashed ns"

definition copy_entry :: "string \<Rightarrow> string \<Rightarrow> entry \<Rightarrow> step list" where
  "copy_entry inputBuild build e =
     (let target = join build (slashed (rel_names e)); path = join inputBuild (slashed (rel_names e)) in
      [Throwing (Stat path)] @
      (if is_dir e then [Throwing (Create_directory target), Throwing (Stat path), Throwing (Permissions target (perms e))]
       else [Throwing (Stat path)] @ (if others_read e then [Throwing (Copy path target)] else [])) @
      [Throwing (Advance_iterator inputBuild)])"

definition copy_steps :: "string \<Rightarrow> string \<Rightarrow> entry list \<Rightarrow> step list" where
  "copy_steps inputBuild root entries =
     (let build = join root ''build'' in
      [Throwing (Create_directory build), Throwing (Open_iterator inputBuild)] @ concat (map (copy_entry inputBuild build) entries))"

definition namespaces :: "namespace list" where
  "namespaces = [NEWUSER, NEWUTS, NEWNET, NEWNS, NEWPID, NEWIPC]"

definition identity_steps :: "string \<Rightarrow> string \<Rightarrow> step list" where
  "identity_steps outerUID outerGID =
     [Unchecked (Write_file ''/proc/self/uid_map'' (''1000 '' @ outerUID @ '' 1'' @ [CHR 0x0A])),
      Unchecked (Write_file ''/proc/self/setgroups'' (''deny'' @ [CHR 0x0A])),
      Unchecked (Write_file ''/proc/self/gid_map'' (''100 '' @ outerGID @ '' 1'' @ [CHR 0x0A])),
      Checked (Sethostname ''localhost''),
      Checked (Setdomainname ''(none)'')]"

text \<open>The check of the socket is \<open>!fd\<close>, which no failing call to \<open>socket\<close> satisfies.\<close>

definition loopback_steps :: "step list" where
  "loopback_steps = [Unchecked Open_socket, Checked (Set_interface_flags ''lo''), Unchecked Close_socket]"

definition bindMount :: "(string \<Rightarrow> bool) \<Rightarrow> string \<Rightarrow> string \<Rightarrow> string option \<Rightarrow> step list" where
  "bindMount is_directory root path source =
     (let target = join root path in
      [Throwing (Create_directories (parent_path target)),
       Throwing (Stat path),
       if is_directory path then Throwing (Create_directory target) else Unchecked (Write_file target []),
       Checked (Mount (case source of Some s \<Rightarrow> s | None \<Rightarrow> path) target [] [MS_REC, MS_BIND])])"

definition device_files :: "string list" where
  "device_files = [''/dev/full'', ''/dev/kvm'', ''/dev/null'', ''/dev/random'', ''/dev/tty'', ''/dev/urandom'',
     ''/dev/zero'', ''/dev/ptmx'', ''/dev/pts'']"

definition other_mounts :: "string \<Rightarrow> step list" where
  "other_mounts root =
     [Throwing (Create_directories (join root ''dev/shm'')),
      Checked (Mount [] (join root ''dev/shm'') ''tmpfs'' []),
      Throwing (Create_directories (join root ''tmp'')),
      Throwing (Permissions (join root ''tmp'') 1023),
      Throwing (Create_directories (join root ''proc'')),
      Checked (Mount [] (join root ''proc'') ''proc'' [])]"

definition mount_steps :: "(string \<Rightarrow> bool) \<Rightarrow> string \<Rightarrow> string \<Rightarrow> step list" where
  "mount_steps is_directory root shell =
     bindMount is_directory root ''/nix'' None @ bindMount is_directory root ''/bin/sh'' (Some shell) @
     concat (map (\<lambda>p. bindMount is_directory root p None) device_files) @
     other_mounts root"

definition unlines :: "string list \<Rightarrow> string" where
  "unlines ls = concat (map (\<lambda>l. l @ [CHR 0x0A]) ls)"

definition etc_steps :: "string \<Rightarrow> step list" where
  "etc_steps root =
     (let etc = join root ''etc'' in
      [Throwing (Create_directories etc),
       Unchecked (Write_file (join etc ''group'') (unlines [''root:x:0:'', ''nixbld:!:100:'', ''nogroup:x:65534:''])),
       Unchecked (Write_file (join etc ''passwd'') (unlines [''root:x:0:0:Nix build user:/build:/noshell'',
         ''nixbld:x:1000:100:Nix build user:/build:/noshell'', ''nobody:x:65534:65534:Nobody:/:/noshell''])),
       Unchecked (Write_file (join etc ''hosts'') (unlines [''127.0.0.1 localhost'', ''::1 localhost'']))])"

definition root_steps :: "string \<Rightarrow> step list" where
  "root_steps root =
     [Unchecked (Chdir root), Unchecked (Chroot ''.''),
      Throwing (Create_symlink ''/proc/self/fd'' ''/dev/fd''),
      Throwing (Create_symlink ''/proc/self/fd/0'' ''/dev/stdin''),
      Throwing (Create_symlink ''/proc/self/fd/1'' ''/dev/stdout''),
      Throwing (Create_symlink ''/proc/self/fd/2'' ''/dev/stderr''),
      Checked (Mount ''/'' ''/'' [] [MS_PRIVATE, MS_REC, MS_BIND])]"

text \<open>What the parent does up to the fork, and what the child does from there to the execution.\<close>

definition prepare_steps :: "string \<Rightarrow> string \<Rightarrow> entry list \<Rightarrow> step list" where
  "prepare_steps inputBuild root entries =
     Checked (Mkdtemp root) # copy_steps inputBuild root entries @ [Checked (Unshare namespaces)]"

definition child_steps :: "(string \<Rightarrow> bool) \<Rightarrow> string \<Rightarrow> string \<Rightarrow> string \<Rightarrow> string \<Rightarrow> step list" where
  "child_steps is_directory root shell outerUID outerGID =
     identity_steps outerUID outerGID @ loopback_steps @ mount_steps is_directory root shell @ etc_steps root @ root_steps root"

definition commandLine :: "string \<Rightarrow> string list \<Rightarrow> string list" where
  "commandLine shell argv = [shell, ''-c'', ''source /build/env-vars; exec \"$@\"'', ''--''] @ drop 2 argv"

text \<open>The directory that \<open>mkdtemp\<close> makes: the six characters at the end of the template are replaced.\<close>

definition rootName :: "string \<Rightarrow> string" where
  "rootName sfx = ''/tmp/nix-build-shell-'' @ sfx"

text \<open>The result of \<open>fork\<close>: the parent, with the wait status of the child; the child; or a failure.\<close>

datatype fork_result = Forked_parent int | Forked_child | Fork_failed

text \<open>The exit code the caller of the program sees: \<open>exit\<close> passes on the low byte.\<close>

definition exit_code :: "int \<Rightarrow> int" where
  "exit_code result = result mod 256"

record environment =
  env_exists :: "bool option"
  env_vars :: "string list"
  env_entries :: "entry list"
  env_is_directory :: "string \<Rightarrow> bool"
  env_uid :: string
  env_gid :: string
  env_suffix :: string
  env_fork :: fork_result
  env_execv :: "string list \<Rightarrow> bool"

definition container_exec :: "(action list \<Rightarrow> action \<Rightarrow> bool) \<Rightarrow> environment \<Rightarrow> string list \<Rightarrow> string \<Rightarrow> action list \<Rightarrow> outcome \<times> action list" where
  "container_exec ok env argv shell h =
     (case run_steps ok (child_steps (env_is_directory env) (rootName (env_suffix env)) shell (env_uid env) (env_gid env)) h of
        (Some r, h) \<Rightarrow> (r, h)
      | (None, h) \<Rightarrow> (if env_execv env (commandLine shell argv) then (Executed (commandLine shell argv), h) else (Exit 1, h)))"

definition container_main :: "(action list \<Rightarrow> action \<Rightarrow> bool) \<Rightarrow> environment \<Rightarrow> string list \<Rightarrow> outcome \<times> action list" where
  "container_main ok env argv =
     (if length argv < 2 then (Exit 1, [])
      else case env_exists env of
        None \<Rightarrow> (Threw, [])
      | Some False \<Rightarrow> (Exit 1, [])
      | Some True \<Rightarrow>
        case find_shell (env_vars env) [] of
        None \<Rightarrow> (Threw, [])
      | Some shell \<Rightarrow>
        if shell = [] then (Exit 1, [])
        else case run_steps ok (prepare_steps (argv ! 1) (rootName (env_suffix env)) (env_entries env)) [] of
          (Some r, h) \<Rightarrow> (r, h)
        | (None, h) \<Rightarrow>
          (case env_fork env of
             Forked_parent result \<Rightarrow> (Exit (exit_code result), h)
           | Forked_child \<Rightarrow> container_exec ok env argv shell h
           | Fork_failed \<Rightarrow> container_exec ok env argv shell h))"

section \<open>Running steps\<close>

text \<open>A run that gets through its steps has attempted all of them in order, and no critical one failed.\<close>

definition passed :: "(action list \<Rightarrow> action \<Rightarrow> bool) \<Rightarrow> step list \<Rightarrow> action list \<Rightarrow> bool" where
  "passed ok steps h \<longleftrightarrow> (\<forall>i < length steps. critical (steps ! i) \<longrightarrow>
     ok (h @ map step_action (take i steps)) (step_action (steps ! i)))"

lemma passed_Cons:
  "passed ok (s # steps) h \<longleftrightarrow> (critical s \<longrightarrow> ok h (step_action s)) \<and> passed ok steps (h @ [step_action s])"
  unfolding passed_def by (simp add: All_less_Suc2)

lemma run_steps_None:
  "run_steps ok steps h = (None, h') \<Longrightarrow> h' = h @ map step_action steps \<and> passed ok steps h"
proof (induction steps arbitrary: h)
  case Nil
  then show ?case by (simp add: passed_def)
next
  case (Cons s steps)
  from Cons.prems have "run_steps ok steps (h @ [step_action s]) = (None, h')" "critical s \<longrightarrow> ok h (step_action s)"
    by (cases s; auto split: if_splits)+
  then show ?case using Cons.IH [of "h @ [step_action s]"] by (simp add: passed_Cons)
qed

lemma run_steps_prefix: "prefix (snd (run_steps ok steps h)) (h @ map step_action steps)"
proof (induction steps arbitrary: h)
  case (Cons s steps)
  have "prefix (snd (run_steps ok steps (h @ [step_action s]))) (h @ map step_action (s # steps))"
    using Cons.IH [of "h @ [step_action s]"] by simp
  then show ?case by (cases s) auto
qed simp

section \<open>The view of the process\<close>

text \<open>
  The components of a path, and where it leads: empty components and \<open>.\<close> do not count, and \<open>..\<close>
  goes back to the parent.
\<close>

fun split_path :: "string \<Rightarrow> string list" where
  "split_path [] = [[]]"
| "split_path (c # s) =
     (if c = CHR ''/'' then [] # split_path s
      else case split_path s of [] \<Rightarrow> [[c]] | n # ns \<Rightarrow> (c # n) # ns)"

definition walk :: "string list \<Rightarrow> string list \<Rightarrow> string list" where
  "walk dir cs = foldl (\<lambda>d c. if c = [] \<or> c = ''.'' then d else if c = ''..'' then butlast d else d @ [c]) dir cs"

definition resolve :: "string \<Rightarrow> string list" where
  "resolve p = walk [] (split_path p)"

record sandbox =
  sx_namespaces :: "namespace set"
  sx_ids :: "(string \<times> string) list"
  sx_hostname :: string
  sx_domainname :: string
  sx_up :: "string set"
  sx_mounts :: "(string \<times> string list \<times> string \<times> mount_flag list) list"
  sx_cwd :: "string list"
  sx_root :: "string list"

text \<open>
  What a successful action changes of it. Absolute paths start at the root of the process; the
  targets of the mounts are given from the root of the host.
\<close>

fun effect :: "action \<Rightarrow> sandbox \<Rightarrow> sandbox" where
  "effect (Unshare ns) s = s\<lparr>sx_namespaces := sx_namespaces s \<union> set ns\<rparr>"
| "effect (Write_file p c) s = (if prefix ''/proc/self/'' p then s\<lparr>sx_ids := sx_ids s @ [(p, c)]\<rparr> else s)"
| "effect (Sethostname n) s = s\<lparr>sx_hostname := n\<rparr>"
| "effect (Setdomainname n) s = s\<lparr>sx_domainname := n\<rparr>"
| "effect (Set_interface_flags n) s = s\<lparr>sx_up := insert n (sx_up s)\<rparr>"
| "effect (Mount src p t fl) s = s\<lparr>sx_mounts := sx_mounts s @ [(src, sx_root s @ resolve p, t, fl)]\<rparr>"
| "effect (Chdir p) s = s\<lparr>sx_cwd := sx_root s @ resolve p\<rparr>"
| "effect (Chroot p) s = s\<lparr>sx_root := (if p = ''.'' then sx_cwd s else sx_root s @ resolve p)\<rparr>"
| "effect a s = s"

fun replay :: "(action list \<Rightarrow> action \<Rightarrow> bool) \<Rightarrow> action list \<Rightarrow> action list \<Rightarrow> sandbox \<Rightarrow> sandbox" where
  "replay ok h [] s = s"
| "replay ok h (a # as) s = replay ok (h @ [a]) as (if ok h a then effect a s else s)"

text \<open>A process of the host, before the program does anything.\<close>

definition host_view :: "string list \<Rightarrow> string \<Rightarrow> string \<Rightarrow> sandbox" where
  "host_view cwd host domain = \<lparr>sx_namespaces = {}, sx_ids = [], sx_hostname = host, sx_domainname = domain, sx_up = {},
     sx_mounts = [], sx_cwd = cwd, sx_root = []\<rparr>"

lemma replay_append: "replay ok h (as @ bs) s = replay ok (h @ as) bs (replay ok h as s)"
  by (induction as arbitrary: h s) simp_all

lemma replay_inert: "(\<And>a s. a \<in> set as \<Longrightarrow> effect a s = s) \<Longrightarrow> replay ok h as s = s"
  by (induction as arbitrary: h) simp_all

text \<open>Steps that got through: the effects of the critical ones took place.\<close>

lemma replay_passed_Cons:
  "passed ok (st # steps) h \<Longrightarrow> replay ok h (map step_action (st # steps)) s =
     replay ok (h @ [step_action st]) (map step_action steps) (if critical st \<or> ok h (step_action st) then effect (step_action st) s else s)"
  by (simp add: passed_Cons)

lemma passed_append: "passed ok (xs @ ys) h \<longleftrightarrow> passed ok xs h \<and> passed ok ys (h @ map step_action xs)"
  by (induction xs arbitrary: h) (auto simp: passed_Cons, auto simp: passed_def)

section \<open>Paths below the root\<close>

lemma split_path_ne [simp]: "split_path s \<noteq> []"
  by (cases s) (auto split: list.splits)

lemma split_slash: "split_path (a @ CHR ''/'' # b) = split_path a @ split_path b"
  by (induction a) (auto split: list.splits)

lemma split_name: "CHR ''/'' \<notin> set n \<Longrightarrow> split_path n = [n]"
  by (induction n) auto

lemma walk_append: "walk d (as @ bs) = walk (walk d as) bs"
  by (simp add: walk_def)

lemma resolve_slash: "resolve (a @ CHR ''/'' # b) = walk (resolve a) (split_path b)"
  by (simp add: resolve_def split_slash walk_append)

text \<open>The names a directory has: not empty, without a slash, and neither \<open>.\<close> nor \<open>..\<close>.\<close>

definition is_name :: "string \<Rightarrow> bool" where
  "is_name n \<longleftrightarrow> n \<noteq> [] \<and> n \<noteq> ''.'' \<and> n \<noteq> ''..'' \<and> CHR ''/'' \<notin> set n"

lemma walk_names: "list_all is_name ns \<Longrightarrow> walk d ns = d @ ns"
  by (induction ns arbitrary: d) (auto simp: walk_def is_name_def)

lemma slashed_walk: "list_all is_name ns \<Longrightarrow> walk d (split_path (slashed ns)) = d @ ns"
proof (induction ns arbitrary: d rule: slashed.induct)
  case 1
  show ?case by (simp add: walk_def)
next
  case (2 n)
  then show ?case using walk_names [of "[n]"] by (simp add: is_name_def split_name)
next
  case (3 n m ns)
  have "split_path (slashed (n # m # ns)) = n # split_path (slashed (m # ns))"
    using 3(2) split_slash [of n "slashed (m # ns)"] split_name [of n] by (simp add: is_name_def)
  moreover have "walk d [n] = d @ [n]" using 3(2) walk_names [of "[n]"] by simp
  ultimately show ?case using 3(1) [of "d @ [n]"] 3(2) walk_append [of d "[n]"] by simp
qed

abbreviation root_dir :: "string \<Rightarrow> string list" where
  "root_dir sfx \<equiv> [''tmp'', ''nix-build-shell-'' @ sfx]"

text \<open>The characters \<open>mkdtemp\<close> puts in are letters and digits.\<close>

lemma resolve_root: "CHR ''/'' \<notin> set sfx \<Longrightarrow> resolve (rootName sfx) = root_dir sfx"
proof -
  assume "CHR ''/'' \<notin> set sfx"
  then have "split_path (''nix-build-shell-'' @ sfx) = [''nix-build-shell-'' @ sfx]" by (intro split_name) simp
  moreover have "rootName sfx = ''/tmp'' @ CHR ''/'' # (''nix-build-shell-'' @ sfx)" by (simp add: rootName_def)
  ultimately have "resolve (rootName sfx) = walk (resolve ''/tmp'') [''nix-build-shell-'' @ sfx]" using resolve_slash [of "''/tmp''"] by metis
  then show ?thesis by (simp add: resolve_def walk_def)
qed

lemma resolve_join: "CHR ''/'' \<notin> set sfx \<Longrightarrow>
    resolve (join (rootName sfx) p) = walk (root_dir sfx) (split_path (if take 1 p = ''/'' then drop 1 p else p))"
  using resolve_slash [of "rootName sfx"] by (simp add: join_def resolve_root)

lemma join_not_proc [simp]: "\<not> prefix ''/proc/self/'' (join (rootName sfx) p)" "\<not> prefix ''/proc/self/'' (join (join (rootName sfx) p) q)"
  by (simp_all add: join_def rootName_def)

section \<open>What the groups of steps do\<close>

lemma copy_actions: "a \<in> step_action ` set (copy_steps ib root es) \<Longrightarrow>
    (\<exists>p n q. a \<in> {Create_directory p, Open_iterator p, Advance_iterator p, Stat p, Permissions p n, Copy p q})"
  by (auto simp: copy_steps_def copy_entry_def Let_def split: if_splits)

lemma replay_prepare:
  assumes "passed ok (prepare_steps ib root es) h"
  shows "replay ok h (map step_action (prepare_steps ib root es)) s = s\<lparr>sx_namespaces := UNIV\<rparr>"
proof -
  have "effect a s = s" if "a \<in> step_action ` set (copy_steps ib root es)" for a s using copy_actions [OF that] by auto
  then have "replay ok h' (map step_action (copy_steps ib root es)) s' = s'" for h' s'
    by (intro replay_inert) simp
  moreover have "set namespaces = UNIV" by (auto simp: namespaces_def intro: namespace.exhaust)
  moreover have "ok (h @ [Mkdtemp root] @ map step_action (copy_steps ib root es)) (Unshare namespaces)"
    using assms by (simp add: prepare_steps_def passed_Cons passed_append)
  ultimately show ?thesis by (simp add: prepare_steps_def replay_append)
qed

text \<open>The files that map the ids of the sandbox.\<close>

definition id_files :: "string \<Rightarrow> string \<Rightarrow> (string \<times> string) list" where
  "id_files uid gid = [(''/proc/self/uid_map'', ''1000 '' @ uid @ '' 1'' @ [CHR 0x0A]), (''/proc/self/setgroups'', ''deny'' @ [CHR 0x0A]),
     (''/proc/self/gid_map'', ''100 '' @ gid @ '' 1'' @ [CHR 0x0A])]"

abbreviation id_action :: "string \<Rightarrow> string \<Rightarrow> nat \<Rightarrow> action" where
  "id_action uid gid i \<equiv> Write_file (fst (id_files uid gid ! i)) (snd (id_files uid gid ! i))"

lemma replay_identity:
  assumes "passed ok (identity_steps u g) h"
  shows "replay ok h (map step_action (identity_steps u g)) s = s\<lparr>
     sx_ids := sx_ids s @ (if ok h (id_action u g 0) then [id_files u g ! 0] else []) @
       (if ok (h @ [id_action u g 0]) (id_action u g 1) then [id_files u g ! 1] else []) @
       (if ok (h @ [id_action u g 0, id_action u g 1]) (id_action u g 2) then [id_files u g ! 2] else []),
     sx_hostname := ''localhost'', sx_domainname := ''(none)''\<rparr>"
  using assms by (simp add: identity_steps_def passed_Cons id_files_def)

lemma replay_loopback:
  assumes "passed ok loopback_steps h"
  shows "replay ok h (map step_action loopback_steps) s = s\<lparr>sx_up := insert ''lo'' (sx_up s)\<rparr>"
  using assms by (simp add: loopback_steps_def passed_Cons)

definition bind_of :: "string list \<Rightarrow> string \<Rightarrow> string \<Rightarrow> string \<times> string list \<times> string \<times> mount_flag list" where
  "bind_of base src p = (src, walk base (split_path (drop 1 p)), [], [MS_REC, MS_BIND])"

lemma replay_bind:
  assumes "passed ok (bindMount d (rootName sfx) p src) h" "CHR ''/'' \<notin> set sfx" "take 1 p = ''/''" "sx_root s = []"
  shows "replay ok h (map step_action (bindMount d (rootName sfx) p src)) s =
    s\<lparr>sx_mounts := sx_mounts s @ [bind_of (root_dir sfx) (case src of Some x \<Rightarrow> x | None \<Rightarrow> p) p]\<rparr>"
  using assms by (simp add: bindMount_def passed_Cons Let_def bind_of_def resolve_join)

lemma replay_binds:
  assumes "CHR ''/'' \<notin> set sfx"
  shows "passed ok (concat (map (\<lambda>p. bindMount d (rootName sfx) p None) ps)) h \<Longrightarrow> \<forall>p \<in> set ps. take 1 p = ''/'' \<Longrightarrow> sx_root s = [] \<Longrightarrow>
    replay ok h (map step_action (concat (map (\<lambda>p. bindMount d (rootName sfx) p None) ps))) s =
      s\<lparr>sx_mounts := sx_mounts s @ map (\<lambda>p. bind_of (root_dir sfx) p p) ps\<rparr>"
proof (induction ps arbitrary: h s)
  case (Cons p ps)
  then show ?case using replay_bind [of ok d sfx p None h s] assms by (simp add: passed_append replay_append)
qed simp

text \<open>The mounts of a sandbox below the directory \<open>base\<close>.\<close>

definition sandbox_mounts :: "string \<Rightarrow> string list \<Rightarrow> (string \<times> string list \<times> string \<times> mount_flag list) list" where
  "sandbox_mounts shell base =
     map (\<lambda>(src, p). (src, base @ p, [], [MS_REC, MS_BIND]))
       ([(''/nix'', [''nix'']), (shell, [''bin'', ''sh''])] @
        map (\<lambda>dev. (''/dev/'' @ dev, [''dev'', dev])) [''full'', ''kvm'', ''null'', ''random'', ''tty'', ''urandom'', ''zero'', ''ptmx'', ''pts'']) @
     [([], base @ [''dev'', ''shm''], ''tmpfs'', []), ([], base @ [''proc''], ''proc'', [])]"

lemma replay_others:
  assumes "passed ok (other_mounts (rootName sfx)) h" "CHR ''/'' \<notin> set sfx" "sx_root s = []"
  shows "replay ok h (map step_action (other_mounts (rootName sfx))) s = s\<lparr>sx_mounts := sx_mounts s @
      [([], root_dir sfx @ [''dev'', ''shm''], ''tmpfs'', []), ([], root_dir sfx @ [''proc''], ''proc'', [])]\<rparr>"
  using assms by (simp add: other_mounts_def passed_Cons resolve_join walk_def)

lemma replay_mounts:
  assumes "passed ok (mount_steps d (rootName sfx) shell) h" "CHR ''/'' \<notin> set sfx" "sx_root s = []"
  shows "replay ok h (map step_action (mount_steps d (rootName sfx) shell)) s =
    s\<lparr>sx_mounts := sx_mounts s @ sandbox_mounts shell (root_dir sfx)\<rparr>"
proof -
  let ?b = "\<lambda>p src. bindMount d (rootName sfx) p src" and ?m = "map step_action"
  let ?devs = "concat (map (\<lambda>p. ?b p None) device_files)"
  define h1 where "h1 = h @ ?m (?b ''/nix'' None)"
  define h2 where "h2 = h1 @ ?m (?b ''/bin/sh'' (Some shell))"
  define h3 where "h3 = h2 @ ?m ?devs"
  have split: "mount_steps d (rootName sfx) shell = ?b ''/nix'' None @ ?b ''/bin/sh'' (Some shell) @ ?devs @ other_mounts (rootName sfx)"
    by (simp add: mount_steps_def other_mounts_def)
  have p: "passed ok (?b ''/nix'' None) h" "passed ok (?b ''/bin/sh'' (Some shell)) h1" "passed ok ?devs h2"
    "passed ok (other_mounts (rootName sfx)) h3"
    using assms(1) unfolding split by (simp_all add: passed_append h1_def h2_def h3_def)
  have dev: "\<forall>p \<in> set device_files. take 1 p = ''/''" by (simp add: device_files_def)
  define s1 where "s1 = s\<lparr>sx_mounts := sx_mounts s @ [bind_of (root_dir sfx) ''/nix'' ''/nix'']\<rparr>"
  define s2 where "s2 = s1\<lparr>sx_mounts := sx_mounts s1 @ [bind_of (root_dir sfx) shell ''/bin/sh'']\<rparr>"
  define s3 where "s3 = s2\<lparr>sx_mounts := sx_mounts s2 @ map (\<lambda>p. bind_of (root_dir sfx) p p) device_files\<rparr>"
  have r: "sx_root s1 = []" "sx_root s2 = []" "sx_root s3 = []" using assms(3) by (simp_all add: s1_def s2_def s3_def)
  have "replay ok h (?m (?b ''/nix'' None)) s = s1" using replay_bind [OF p(1) assms(2) _ assms(3)] by (simp add: s1_def)
  moreover have "replay ok h1 (?m (?b ''/bin/sh'' (Some shell))) s1 = s2" using replay_bind [OF p(2) assms(2) _ r(1)] by (simp add: s2_def)
  moreover have "replay ok h2 (?m ?devs) s2 = s3" using replay_binds [OF assms(2) p(3) dev r(2)] by (simp add: s3_def)
  ultimately have "replay ok h (?m (mount_steps d (rootName sfx) shell)) s = replay ok h3 (?m (other_mounts (rootName sfx))) s3"
    unfolding split map_append replay_append h3_def h2_def h1_def by simp
  moreover have "sx_mounts s3 @ [([], root_dir sfx @ [''dev'', ''shm''], ''tmpfs'', []), ([], root_dir sfx @ [''proc''], ''proc'', [])] =
      sx_mounts s @ sandbox_mounts shell (root_dir sfx)"
    by (simp add: s3_def s2_def s1_def sandbox_mounts_def bind_of_def device_files_def walk_def)
  moreover have "s3\<lparr>sx_mounts := ms\<rparr> = s\<lparr>sx_mounts := ms\<rparr>" for ms by (simp add: s3_def s2_def s1_def)
  ultimately show ?thesis using replay_others [OF p(4) assms(2) r(3)] by simp
qed

lemma replay_etc: "replay ok h (map step_action (etc_steps (rootName sfx))) s = s"
  by (rule replay_inert) (auto simp: etc_steps_def Let_def)

lemma replay_root:
  assumes "passed ok (root_steps (rootName sfx)) h" "CHR ''/'' \<notin> set sfx" "sx_root s = []"
  shows "let c = ok h (Chdir (rootName sfx)); r = ok (h @ [Chdir (rootName sfx)]) (Chroot ''.'');
      root = (if r then if c then root_dir sfx else sx_cwd s else []) in
    replay ok h (map step_action (root_steps (rootName sfx))) s =
      s\<lparr>sx_mounts := sx_mounts s @ [(''/'', root, [], [MS_PRIVATE, MS_REC, MS_BIND])],
        sx_cwd := (if c then root_dir sfx else sx_cwd s), sx_root := root\<rparr>"
proof -
  have "resolve ''/'' = []" by (simp add: resolve_def walk_def)
  then show ?thesis using assms by (simp add: root_steps_def passed_Cons resolve_root Let_def)
qed

section \<open>Every action stays below the root\<close>

text \<open>The paths an action changes.\<close>

fun changes :: "action \<Rightarrow> string list" where
  "changes (Mkdtemp p) = [p]"
| "changes (Create_directory p) = [p]"
| "changes (Create_directories p) = [p]"
| "changes (Permissions p n) = [p]"
| "changes (Copy p q) = [q]"
| "changes (Write_file p c) = [p]"
| "changes (Mount src p t fl) = [p]"
| "changes (Create_symlink p q) = [q]"
| "changes a = []"

text \<open>Below the new root, seen from the root of the host, or one of the files that map the ids.\<close>

definition below :: "string \<Rightarrow> action \<Rightarrow> bool" where
  "below sfx a \<longleftrightarrow> (\<forall>p \<in> set (changes a). prefix (root_dir sfx) (resolve p) \<or>
     p \<in> {''/proc/self/uid_map'', ''/proc/self/setgroups'', ''/proc/self/gid_map''})"

lemma slashed_no_root: "list_all is_name ns \<Longrightarrow> take 1 (slashed ns) \<noteq> ''/''"
proof (cases ns)
  case (Cons n ms)
  assume "list_all is_name ns"
  then obtain c cs where "n = c # cs" "c \<noteq> CHR ''/''" using Cons by (cases n) (auto simp: is_name_def)
  then show ?thesis using Cons by (cases ms) simp_all
qed simp

lemma resolve_entry:
  assumes "CHR ''/'' \<notin> set sfx" "list_all is_name ns"
  shows "resolve (join (join (rootName sfx) ''build'') (slashed ns)) = root_dir sfx @ [''build''] @ ns"
proof -
  have "resolve (join (rootName sfx) ''build'') = root_dir sfx @ [''build'']" by (simp add: resolve_join [OF assms(1)] walk_def)
  then show ?thesis using resolve_slash [of "join (rootName sfx) ''build''" "slashed ns"] slashed_no_root [OF assms(2)] slashed_walk [OF assms(2)]
    by (simp add: join_def [of "join (rootName sfx) ''build''"])
qed

lemma prepare_below:
  assumes "CHR ''/'' \<notin> set sfx" "list_all (\<lambda>e. list_all is_name (rel_names e)) es"
  shows "\<forall>s \<in> set (prepare_steps ib (rootName sfx) es). below sfx (step_action s)"
proof -
  have "below sfx (step_action s)" if "e \<in> set es" "s \<in> set (copy_entry ib (join (rootName sfx) ''build'') e)" for e s
    using that assms(2) resolve_entry [OF assms(1), of "rel_names e"]
    by (auto simp: copy_entry_def below_def Let_def list_all_iff split: if_splits)
  moreover have "prefix (root_dir sfx) (resolve (join (rootName sfx) ''build''))" by (simp add: resolve_join [OF assms(1)] walk_def)
  ultimately show ?thesis using resolve_root [OF assms(1)]
    by (auto simp: prepare_steps_def copy_steps_def Let_def) (simp_all add: below_def)
qed

lemma bind_below:
  assumes "CHR ''/'' \<notin> set sfx" "p \<in> set ([''/nix'', ''/bin/sh''] @ device_files)"
  shows "\<forall>s \<in> set (bindMount d (rootName sfx) p src). below sfx (step_action s)"
proof -
  have "prefix (root_dir sfx) (resolve (join (rootName sfx) p))"
    using assms(2) by (auto simp: resolve_join [OF assms(1)] device_files_def walk_def)
  moreover have "prefix (root_dir sfx) (resolve (parent_path (join (rootName sfx) p)))"
    using assms(2) by (auto simp: parent_path_def join_def device_files_def resolve_slash resolve_root [OF assms(1)] walk_def)
  ultimately show ?thesis by (simp add: bindMount_def Let_def below_def)
qed

lemma mounts_below:
  assumes "CHR ''/'' \<notin> set sfx"
  shows "\<forall>s \<in> set (mount_steps d (rootName sfx) shell). below sfx (step_action s)"
proof -
  have "\<forall>s \<in> set (other_mounts (rootName sfx)). below sfx (step_action s)"
    by (simp add: other_mounts_def below_def resolve_join [OF assms] walk_def)
  then show ?thesis using bind_below [OF assms] unfolding mount_steps_def set_append set_concat set_map by fastforce
qed

lemma etc_below:
  assumes "CHR ''/'' \<notin> set sfx"
  shows "\<forall>s \<in> set (etc_steps (rootName sfx)). below sfx (step_action s)"
proof -
  have e: "resolve (join (rootName sfx) ''etc'') = root_dir sfx @ [''etc'']" by (simp add: resolve_join [OF assms] walk_def)
  have "resolve (join (join (rootName sfx) ''etc'') p) = root_dir sfx @ [''etc'', p]" if "p \<in> {''group'', ''passwd'', ''hosts''}" for p
    using that resolve_slash [of "join (rootName sfx) ''etc''" p] e
    by (auto simp: join_def [of "join (rootName sfx) ''etc''"] walk_def)
  then show ?thesis using e by (simp add: etc_steps_def Let_def below_def)
qed

lemma child_below:
  assumes "CHR ''/'' \<notin> set sfx"
  shows "\<forall>s \<in> set (identity_steps u g @ loopback_steps @ mount_steps d (rootName sfx) shell @ etc_steps (rootName sfx) @ [Unchecked (Chdir (rootName sfx))]).
    below sfx (step_action s)"
  using mounts_below [OF assms] etc_below [OF assms] by (auto simp: identity_steps_def loopback_steps_def below_def)

section \<open>Properties\<close>

definition all_steps :: "environment \<Rightarrow> string list \<Rightarrow> string \<Rightarrow> step list" where
  "all_steps env argv shell = prepare_steps (argv ! 1) (rootName (env_suffix env)) (env_entries env) @
     child_steps (env_is_directory env) (rootName (env_suffix env)) shell (env_uid env) (env_gid env)"

text \<open>The steps up to the change of the root.\<close>

definition early_steps :: "environment \<Rightarrow> string list \<Rightarrow> string \<Rightarrow> step list" where
  "early_steps env argv shell = prepare_steps (argv ! 1) (rootName (env_suffix env)) (env_entries env) @
     identity_steps (env_uid env) (env_gid env) @ loopback_steps @
     mount_steps (env_is_directory env) (rootName (env_suffix env)) shell @ etc_steps (rootName (env_suffix env)) @
     [Unchecked (Chdir (rootName (env_suffix env)))]"

lemma all_early: "all_steps env argv shell = early_steps env argv shell @ Unchecked (Chroot ''.'') # drop 2 (root_steps (rootName (env_suffix env)))"
  by (simp add: all_steps_def early_steps_def child_steps_def root_steps_def)

lemma no_chroot_early: "Chroot p \<notin> set (map step_action (early_steps env argv shell))"
  by (auto simp: early_steps_def prepare_steps_def copy_steps_def copy_entry_def identity_steps_def loopback_steps_def mount_steps_def
      other_mounts_def bindMount_def etc_steps_def Let_def split: if_splits)

lemma container_main_prefix:
  "\<exists>shell. prefix (snd (container_main ok env argv)) (map step_action (all_steps env argv shell))"
proof -
  let ?prep = "prepare_steps (argv ! 1) (rootName (env_suffix env)) (env_entries env)"
  let ?child = "\<lambda>shell. child_steps (env_is_directory env) (rootName (env_suffix env)) shell (env_uid env) (env_gid env)"
  have e: "prefix (snd (container_exec ok env argv shell h)) (h @ map step_action (?child shell))" for shell h
    using run_steps_prefix [of ok "?child shell" h]
    by (auto simp: container_exec_def split: prod.splits option.splits)
  show ?thesis
  proof (cases "length argv < 2 \<or> env_exists env \<noteq> Some True \<or> find_shell (env_vars env) [] = None \<or> find_shell (env_vars env) [] = Some []")
    case False
    then obtain shell where s: "find_shell (env_vars env) [] = Some shell" "shell \<noteq> []" by auto
    obtain r h where p: "run_steps ok ?prep [] = (r, h)" by force
    have pre: "prefix h (map step_action ?prep)" using run_steps_prefix [of ok _ "[]"] p by (metis append_Nil snd_conv)
    then have "prefix h (map step_action (all_steps env argv shell))" by (simp add: all_steps_def)
    moreover have "r = None \<Longrightarrow> h = map step_action ?prep" using run_steps_None [of ok _ "[]"] p by auto
    ultimately show ?thesis using False s p e [of shell h]
      by (intro exI [of _ shell]) (auto simp: container_main_def all_steps_def split: option.splits fork_result.splits)
  next
    case True
    then show ?thesis by (auto simp: container_main_def split: option.splits bool.splits)
  qed
qed

lemma replay_root_kept: "(\<And>p. Chroot p \<notin> set as) \<Longrightarrow> sx_root (replay ok h as s) = sx_root s"
proof (induction as arbitrary: h s)
  case (Cons a as)
  have "sx_root (effect a s) = sx_root s" using Cons.prems [of "''''"] Cons.prems by (cases a) auto
  then show ?case using Cons by (metis list.set_intros(2) replay.simps(2))
qed simp

text \<open>
  C18. The program, whatever fails and wherever it ends, changes only files, directories and mount
  points below the directory it has created, but for the files that map its user and group ids. Paths
  are resolved component by component from the root the process has at that time, so that \<open>..\<close>
  counts; the entries of the build directory are under names as a directory has them. The one
  exception: when the change of the root directory, which is not checked, has failed or led to
  another directory, the last steps act there.
\<close>

theorem container_confined:
  assumes "CHR ''/'' \<notin> set (env_suffix env)" "list_all (\<lambda>e. list_all is_name (rel_names e)) (env_entries env)"
    "i < length (snd (container_main ok env argv))" "p \<in> set (changes (snd (container_main ok env argv) ! i))"
  shows "let h = take i (snd (container_main ok env argv)); root = sx_root (replay ok [] h (host_view cwd host domain)) in
    prefix (root_dir (env_suffix env)) (root @ resolve p) \<or>
    p \<in> {''/proc/self/uid_map'', ''/proc/self/setgroups'', ''/proc/self/gid_map''} \<or>
    Chroot ''.'' \<in> set h \<and> root \<noteq> root_dir (env_suffix env)"
proof -
  let ?h = "snd (container_main ok env argv)" and ?root = "sx_root (replay ok [] (take i (snd (container_main ok env argv))) (host_view cwd host domain))"
  obtain shell where "prefix ?h (map step_action (all_steps env argv shell))" using container_main_prefix by blast
  then obtain zs where z: "map step_action (early_steps env argv shell) @ Chroot ''.'' # map step_action (drop 2 (root_steps (rootName (env_suffix env)))) = ?h @ zs"
    unfolding all_early by (auto simp: prefix_def)
  let ?n = "length (early_steps env argv shell)"
  show ?thesis
  proof (cases "i < ?n")
    case True
    have nth: "?h ! i = step_action (early_steps env argv shell ! i)" and tk: "take i ?h = take i (map step_action (early_steps env argv shell))"
      using arg_cong [OF z, of "\<lambda>l. l ! i"] arg_cong [OF z, of "take i"] True assms(3) by (simp_all add: nth_append)
    have "?root = []" unfolding tk
      using no_chroot_early [of _ env argv shell] by (subst replay_root_kept) (auto simp: host_view_def dest: in_set_takeD)
    moreover have "below (env_suffix env) (?h ! i)" unfolding nth
      using prepare_below [OF assms(1,2), of "argv ! 1"] child_below [OF assms(1), of "env_uid env" "env_gid env" "env_is_directory env" shell]
        nth_mem [OF True] unfolding early_steps_def set_append by blast
    ultimately show ?thesis using assms(4) unfolding below_def Let_def by auto
  next
    case False
    show ?thesis
    proof (cases "i = ?n")
      case True
      then have "?h ! i = Chroot ''.''" using arg_cong [OF z, of "\<lambda>l. l ! i"] assms(3) by (simp add: nth_append)
      then show ?thesis using assms(4) by simp
    next
      case after: False
      then have "?n < i" using False by simp
      then have "take i ?h ! ?n = Chroot ''.''" "?n < length (take i ?h)"
        using arg_cong [OF z, of "\<lambda>l. l ! ?n"] assms(3) by (simp_all add: nth_append)
      then have "Chroot ''.'' \<in> set (take i ?h)" by (metis nth_mem)
      then show ?thesis unfolding Let_def by (cases "?root = root_dir (env_suffix env)") simp_all
    qed
  qed
qed

text \<open>A run of the program on the build directory \<open>/b\<close> in which everything succeeds.\<close>

definition demo_env :: environment where
  "demo_env = \<lparr>env_exists = Some True, env_vars = [''declare -x HOME=\"/h\"'', ''declare -x SHELL=\"/bin/bash\"''],
     env_entries = [\<lparr>rel_names = [''src''], is_dir = True, perms = 493, others_read = True\<rparr>], env_is_directory = (\<lambda>p. p = ''/nix''),
     env_uid = ''1001'', env_gid = ''1001'', env_suffix = ''a1B2c3'', env_fork = Forked_child, env_execv = (\<lambda>c. True)\<rparr>"

definition demo_argv :: "string list" where
  "demo_argv = [''nix-build-shell'', ''/b'', ''make'']"

lemma demo_shell: "find_shell (env_vars demo_env) [] = Some ''/bin/bash''"
  by (simp add: demo_env_def shellVarPrefix_def substr_def sub64_def)

lemma demo_fields: "env_exists demo_env = Some True" "env_fork demo_env = Forked_child" "env_execv demo_env c"
  "CHR ''/'' \<notin> set (env_suffix demo_env)" "list_all (\<lambda>e. list_all is_name (rel_names e)) (env_entries demo_env)"
  "env_suffix demo_env = ''a1B2c3''"
  by (simp_all add: demo_env_def is_name_def)

lemma run_steps_ok: "run_steps (\<lambda>h a. True) steps h = (None, h @ map step_action steps)"
proof (induction steps arbitrary: h)
  case (Cons s steps)
  then show ?case by (cases s) simp_all
qed simp

lemma demo_run: "container_main (\<lambda>h a. True) demo_env demo_argv =
    (Executed (commandLine ''/bin/bash'' demo_argv), map step_action (all_steps demo_env demo_argv ''/bin/bash''))"
  using demo_shell demo_fields by (simp add: container_main_def run_steps_ok container_exec_def all_steps_def demo_argv_def)

theorem container_confined_witness:
  "snd (container_main (\<lambda>h a. True) demo_env demo_argv) ! 0 = Mkdtemp (rootName ''a1B2c3'') \<and>
   prefix (root_dir ''a1B2c3'') (resolve (rootName ''a1B2c3''))"
proof -
  let ?h = "snd (container_main (\<lambda>h a. True) demo_env demo_argv)"
  have z: "?h ! 0 = Mkdtemp (rootName ''a1B2c3'')" "0 < length ?h"
    by (simp_all add: demo_run all_steps_def prepare_steps_def demo_fields(6))
  have "rootName ''a1B2c3'' \<in> set (changes (?h ! 0))" by (simp add: z(1))
  from container_confined [OF demo_fields(4,5) z(2) this, of "[]" "[]" "[]"] show ?thesis
    using z(1) by (simp add: host_view_def demo_fields(6)) (simp add: rootName_def)
qed

text \<open>An attempted action took place.\<close>

definition succeeded :: "(action list \<Rightarrow> action \<Rightarrow> bool) \<Rightarrow> action list \<Rightarrow> action \<Rightarrow> bool" where
  "succeeded ok h a \<longleftrightarrow> (\<exists>i < length h. h ! i = a \<and> ok (take i h) a)"

lemma succeeded_once:
  assumes "h = pre @ a # post" "a \<notin> set pre" "a \<notin> set post"
  shows "succeeded ok h a \<longleftrightarrow> ok pre a"
proof
  assume "succeeded ok h a"
  then obtain i where i: "i < length h" "h ! i = a" "ok (take i h) a" by (auto simp: succeeded_def)
  have "i = length pre"
  proof (rule ccontr)
    assume "i \<noteq> length pre"
    then consider "i < length pre" | "length pre < i" by linarith
    then show False
    proof cases
      case 1
      then have "pre ! i = a" using i(2) assms(1) by (simp add: nth_append)
      then show False using 1 assms(2) by (metis nth_mem)
    next
      case 2
      then have "post ! (i - length pre - 1) = a" "i - length pre - 1 < length post"
        using i(1,2) assms(1) by (auto simp: nth_append nth_Cons')
      then show False using assms(3) by (metis nth_mem)
    qed
  qed
  then show "ok pre a" using i(3) assms(1) by simp
next
  assume "ok pre a"
  then show "succeeded ok h a" using assms(1) unfolding succeeded_def by (intro exI [of _ "length pre"]) simp
qed

lemma executed_run:
  assumes "container_main ok env argv = (Executed cmd, h)"
  obtains shell where "find_shell (env_vars env) [] = Some shell" "shell \<noteq> []" "cmd = commandLine shell argv"
    "h = map step_action (all_steps env argv shell)" "passed ok (all_steps env argv shell) []"
proof -
  let ?prep = "prepare_steps (argv ! 1) (rootName (env_suffix env)) (env_entries env)"
  have n: "run_steps ok steps h \<noteq> (Some (Executed cmd), h')" for steps h h'
    by (induction ok steps h rule: run_steps.induct) auto
  obtain shell h1 where r: "find_shell (env_vars env) [] = Some shell" "shell \<noteq> []" "run_steps ok ?prep [] = (None, h1)"
      "container_exec ok env argv shell h1 = (Executed cmd, h)"
    using assms n by (auto simp: container_main_def split: if_splits option.splits bool.splits prod.splits fork_result.splits)
  then have e: "run_steps ok (child_steps (env_is_directory env) (rootName (env_suffix env)) shell (env_uid env) (env_gid env)) h1 = (None, h)"
      "cmd = commandLine shell argv"
    using n by (auto simp: container_exec_def split: if_splits option.splits prod.splits)
  show thesis using that [OF r(1,2) e(2)] run_steps_None [OF r(3)] run_steps_None [OF e(1)]
    by (auto simp: all_steps_def passed_append)
qed

text \<open>The view of the process at the end of all steps, in terms of the outcome of the unchecked ones.\<close>

lemma final_view:
  fixes env argv shell
  defines "sfx \<equiv> env_suffix env" and "u \<equiv> env_uid env" and "g \<equiv> env_gid env"
  defines "p1 \<equiv> map step_action (prepare_steps (argv ! 1) (rootName sfx) (env_entries env))"
  defines "p2 \<equiv> p1 @ map step_action (identity_steps u g @ loopback_steps @ mount_steps (env_is_directory env) (rootName sfx) shell @ etc_steps (rootName sfx))"
  assumes p: "passed ok (all_steps env argv shell) []" and sfx: "CHR ''/'' \<notin> set sfx"
  shows "let c = ok p2 (Chdir (rootName sfx)); r = ok (p2 @ [Chdir (rootName sfx)]) (Chroot ''.'');
      root = (if r then if c then root_dir sfx else cwd else []) in
    replay ok [] (map step_action (all_steps env argv shell)) (host_view cwd host domain) =
      \<lparr>sx_namespaces = UNIV,
       sx_ids = (if ok p1 (id_action u g 0) then [id_files u g ! 0] else []) @
         (if ok (p1 @ [id_action u g 0]) (id_action u g 1) then [id_files u g ! 1] else []) @
         (if ok (p1 @ [id_action u g 0, id_action u g 1]) (id_action u g 2) then [id_files u g ! 2] else []),
       sx_hostname = ''localhost'', sx_domainname = ''(none)'', sx_up = {''lo''},
       sx_mounts = sandbox_mounts shell (root_dir sfx) @ [(''/'', root, [], [MS_PRIVATE, MS_REC, MS_BIND])],
       sx_cwd = (if c then root_dir sfx else cwd), sx_root = root\<rparr>"
proof -
  let ?id = "identity_steps u g" and ?mt = "mount_steps (env_is_directory env) (rootName sfx) shell"
  let ?et = "etc_steps (rootName sfx)" and ?rt = "root_steps (rootName sfx)" and ?m = "map step_action"
  have all: "all_steps env argv shell = prepare_steps (argv ! 1) (rootName sfx) (env_entries env) @ ?id @ loopback_steps @ ?mt @ ?et @ ?rt"
    by (simp add: all_steps_def child_steps_def sfx_def u_def g_def)
  have q: "passed ok (prepare_steps (argv ! 1) (rootName sfx) (env_entries env)) []" "passed ok ?id p1" "passed ok loopback_steps (p1 @ ?m ?id)"
    "passed ok ?mt (p1 @ ?m ?id @ ?m loopback_steps)" "passed ok ?rt p2"
    using p unfolding all by (simp_all add: passed_append p1_def p2_def)
  define s1 where "s1 = (host_view cwd host domain)\<lparr>sx_namespaces := UNIV\<rparr>"
  define s2 where "s2 = replay ok p1 (?m ?id) s1"
  define s3 where "s3 = s2\<lparr>sx_up := insert ''lo'' (sx_up s2)\<rparr>"
  define s4 where "s4 = s3\<lparr>sx_mounts := sx_mounts s3 @ sandbox_mounts shell (root_dir sfx)\<rparr>"
  note id = replay_identity [OF q(2), of s1]
  have r: "sx_root s3 = []" "sx_root s4 = []" unfolding s4_def s3_def s2_def id by (simp_all add: s1_def host_view_def)
  have st: "replay ok [] p1 (host_view cwd host domain) = s1" "replay ok p1 (?m ?id) s1 = s2" "replay ok (p1 @ ?m ?id) (?m loopback_steps) s2 = s3"
    "replay ok (p1 @ ?m ?id @ ?m loopback_steps) (?m ?mt) s3 = s4"
    unfolding p1_def s1_def s2_def s3_def s4_def
    using replay_prepare [OF q(1)] replay_loopback [OF q(3)] replay_mounts [OF q(4) sfx r(1)]
    by (simp_all add: p1_def s1_def s2_def s3_def)
  have "?m (all_steps env argv shell) = p1 @ ?m ?id @ ?m loopback_steps @ ?m ?mt @ ?m ?et @ ?m ?rt" unfolding all p1_def map_append ..
  then have "replay ok [] (?m (all_steps env argv shell)) (host_view cwd host domain) = replay ok p2 (?m ?rt) s4"
    by (simp add: replay_append st replay_etc p2_def)
  also have "\<dots> = (let c = ok p2 (Chdir (rootName sfx)); r = ok (p2 @ [Chdir (rootName sfx)]) (Chroot ''.'');
      root = (if r then if c then root_dir sfx else cwd else []) in
      s4\<lparr>sx_mounts := sx_mounts s4 @ [(''/'', root, [], [MS_PRIVATE, MS_REC, MS_BIND])],
        sx_cwd := (if c then root_dir sfx else cwd), sx_root := root\<rparr>)"
  proof -
    have "sx_cwd s4 = cwd" unfolding s4_def s3_def s2_def id by (simp add: s1_def host_view_def)
    then show ?thesis using replay_root [OF q(5) sfx r(2)] unfolding Let_def by simp
  qed
  finally show ?thesis unfolding Let_def s4_def s3_def s2_def id by (simp add: s1_def host_view_def)
qed

lemma writes_elsewhere:
  "Write_file q c \<in> set (map step_action (loopback_steps @ mount_steps d (rootName sfx) shell @ etc_steps (rootName sfx) @ root_steps (rootName sfx))) \<Longrightarrow>
    \<not> prefix ''/proc/self/'' q"
  by (auto simp: loopback_steps_def mount_steps_def other_mounts_def bindMount_def etc_steps_def root_steps_def Let_def split: if_splits)

lemma prepare_no_writes: "Write_file q c \<notin> set (map step_action (prepare_steps ib root es))" "Chdir q \<notin> set (map step_action (prepare_steps ib root es))"
  by (auto simp: prepare_steps_def copy_steps_def copy_entry_def Let_def split: if_splits)

lemma no_chdir_child:
  "Chdir q \<notin> set (map step_action (identity_steps u g @ loopback_steps @ mount_steps d root shell @ etc_steps root))"
  by (auto simp: identity_steps_def loopback_steps_def mount_steps_def other_mounts_def bindMount_def etc_steps_def Let_def split: if_splits)

lemma unchecked_outcomes:
  fixes env argv shell
  defines "sfx \<equiv> env_suffix env" and "u \<equiv> env_uid env" and "g \<equiv> env_gid env" and "h \<equiv> map step_action (all_steps env argv shell)"
  defines "p1 \<equiv> map step_action (prepare_steps (argv ! 1) (rootName sfx) (env_entries env))"
  defines "p2 \<equiv> p1 @ map step_action (identity_steps u g @ loopback_steps @ mount_steps (env_is_directory env) (rootName sfx) shell @ etc_steps (rootName sfx))"
  shows "succeeded ok h (id_action u g 0) \<longleftrightarrow> ok p1 (id_action u g 0)"
    "succeeded ok h (id_action u g 1) \<longleftrightarrow> ok (p1 @ [id_action u g 0]) (id_action u g 1)"
    "succeeded ok h (id_action u g 2) \<longleftrightarrow> ok (p1 @ [id_action u g 0, id_action u g 1]) (id_action u g 2)"
    "succeeded ok h (Chdir (rootName sfx)) \<longleftrightarrow> ok p2 (Chdir (rootName sfx))"
    "succeeded ok h (Chroot ''.'') \<longleftrightarrow> ok (p2 @ [Chdir (rootName sfx)]) (Chroot ''.'')"
proof -
  define late where "late = map step_action (loopback_steps @ mount_steps (env_is_directory env) (rootName sfx) shell @ etc_steps (rootName sfx) @ root_steps (rootName sfx))"
  let ?names = "[Sethostname ''localhost'', Setdomainname ''(none)'']"
  have h: "h = p1 @ id_action u g 0 # id_action u g 1 # id_action u g 2 # ?names @ late"
    by (simp add: h_def all_steps_def child_steps_def p1_def sfx_def u_def g_def late_def identity_steps_def id_files_def)
  have late: "Write_file q c \<notin> set late" if "prefix ''/proc/self/'' q" for q c
    using writes_elsewhere that unfolding late_def by blast
  have no: "id_action u g i \<notin> set p1" "id_action u g i \<notin> set late" if "i < 3" for i
    using that late prepare_no_writes(1) by (auto simp: p1_def id_files_def less_Suc_eq numeral_3_eq_3)
  show "succeeded ok h (id_action u g 0) \<longleftrightarrow> ok p1 (id_action u g 0)"
    by (rule succeeded_once [OF h]) (use no [of 0] in \<open>simp_all add: id_files_def\<close>)
  have "h = (p1 @ [id_action u g 0]) @ id_action u g 1 # id_action u g 2 # ?names @ late" by (simp add: h)
  then show "succeeded ok h (id_action u g 1) \<longleftrightarrow> ok (p1 @ [id_action u g 0]) (id_action u g 1)"
    by (rule succeeded_once) (use no [of 1] in \<open>simp_all add: id_files_def\<close>)
  have "h = (p1 @ [id_action u g 0, id_action u g 1]) @ id_action u g 2 # ?names @ late" by (simp add: h)
  then show "succeeded ok h (id_action u g 2) \<longleftrightarrow> ok (p1 @ [id_action u g 0, id_action u g 1]) (id_action u g 2)"
    by (rule succeeded_once) (use no [of 2] in \<open>simp_all add: id_files_def\<close>)
  have h2: "h = p2 @ Chdir (rootName sfx) # Chroot ''.'' # map step_action (drop 2 (root_steps (rootName sfx)))"
    by (simp add: h_def all_steps_def child_steps_def p1_def p2_def sfx_def u_def g_def root_steps_def)
  show "succeeded ok h (Chdir (rootName sfx)) \<longleftrightarrow> ok p2 (Chdir (rootName sfx))"
    by (rule succeeded_once [OF h2]) (use no_chdir_child prepare_no_writes(2) in \<open>auto simp: p2_def p1_def root_steps_def\<close>)
  have h3: "h = (p2 @ [Chdir (rootName sfx)]) @ Chroot ''.'' # map step_action (drop 2 (root_steps (rootName sfx)))" by (simp add: h2)
  have "map step_action (early_steps env argv shell) = p2 @ [Chdir (rootName sfx)]"
    by (simp add: early_steps_def p1_def p2_def sfx_def u_def g_def)
  then have "Chroot ''.'' \<notin> set (p2 @ [Chdir (rootName sfx)])" using no_chroot_early [of "''.''" env argv shell] by metis
  then show "succeeded ok h (Chroot ''.'') \<longleftrightarrow> ok (p2 @ [Chdir (rootName sfx)]) (Chroot ''.'')"
    by (rule succeeded_once [OF h3]) (simp add: root_steps_def)
qed

text \<open>A new process namespace is for the children: a process is in it only if it was forked after \<open>unshare\<close>.\<close>

definition joined :: "fork_result \<Rightarrow> sandbox \<Rightarrow> namespace set" where
  "joined f s = (if f = Forked_child then sx_namespaces s else sx_namespaces s - {NEWPID})"

text \<open>
  C19. The command line runs in the sandbox: when the program ends in executing something, that is the
  shell named in \<open>env-vars\<close> with the arguments given, and the process is then in new namespaces of
  all six kinds, but for the process namespace when \<open>fork\<close> failed, has the host name \<open>localhost\<close>, the domain name \<open>(none)\<close> and the loopback interface
  up, and has exactly the mounts of the sandbox below the new root, and its root remounted as
  private. Its root is the new directory if both \<open>chdir\<close> and \<open>chroot\<close> succeeded; otherwise the
  command still runs, in the working directory of the caller as its root or in the root of the host.
  The ids are mapped by those of the writes to \<open>/proc/self\<close> that succeeded.
\<close>

theorem container_executes_in_sandbox:
  assumes "container_main ok env argv = (Executed cmd, h)" "CHR ''/'' \<notin> set (env_suffix env)"
  shows "\<exists>shell. find_shell (env_vars env) [] = Some shell \<and> shell \<noteq> [] \<and> cmd = commandLine shell argv \<and>
    (let base = root_dir (env_suffix env); s = replay ok [] h (host_view cwd host domain);
         chdir = succeeded ok h (Chdir (rootName (env_suffix env))); chroot = succeeded ok h (Chroot ''.'') in
     joined (env_fork env) s = (if env_fork env = Forked_child then UNIV else - {NEWPID}) \<and> sx_hostname s = ''localhost'' \<and> sx_domainname s = ''(none)'' \<and> sx_up s = {''lo''} \<and>
     sx_root s = (if chroot then if chdir then base else cwd else []) \<and>
     sx_mounts s = sandbox_mounts shell base @ [(''/'', sx_root s, [], [MS_PRIVATE, MS_REC, MS_BIND])] \<and>
     sx_ids s = filter (\<lambda>(p, c). succeeded ok h (Write_file p c)) (id_files (env_uid env) (env_gid env)))"
proof -
  obtain shell where r: "find_shell (env_vars env) [] = Some shell" "shell \<noteq> []" "cmd = commandLine shell argv"
    "h = map step_action (all_steps env argv shell)" "passed ok (all_steps env argv shell) []"
    using executed_run [OF assms(1)] .
  note view = final_view [OF r(5) assms(2), of cwd host domain, unfolded Let_def] and out = unchecked_outcomes [of ok env argv shell]
  have ids: "filter P (id_files u g) = (if P (id_files u g ! 0) then [id_files u g ! 0] else []) @
      (if P (id_files u g ! 1) then [id_files u g ! 1] else []) @ (if P (id_files u g ! 2) then [id_files u g ! 2] else [])" for P u g
    by (simp add: id_files_def)
  show ?thesis using r(1-3) unfolding Let_def r(4) view
    by (intro exI [of _ shell] conjI) (simp_all add: out [unfolded One_nat_def] ids case_prod_beta joined_def Compl_eq_Diff_UNIV)
qed

theorem container_executes_in_sandbox_witness:
  "\<exists>h. container_main (\<lambda>h a. True) demo_env demo_argv = (Executed (commandLine ''/bin/bash'' demo_argv), h) \<and>
     joined (env_fork demo_env) (replay (\<lambda>h a. True) [] h (host_view [] [] [])) = UNIV \<and>
     sx_mounts (replay (\<lambda>h a. True) [] h (host_view [] [] [])) =
       sandbox_mounts ''/bin/bash'' (root_dir ''a1B2c3'') @
       [(''/'', sx_root (replay (\<lambda>h a. True) [] h (host_view [] [] [])), [], [MS_PRIVATE, MS_REC, MS_BIND])]"
  using container_executes_in_sandbox [OF demo_run demo_fields(4), of "[]" "[]" "[]"] demo_shell demo_run
  unfolding Let_def demo_fields(2,6) by auto

text \<open>The shell is found in a declaration as bash writes it, the last one counting.\<close>

lemma contains_self: "contains p (p @ s)"
  by (cases p; cases s) auto

lemma find_shell_declared:
  assumes "length sh < 2 ^ 32" "\<forall>l \<in> set post. \<not> contains shellVarPrefix l"
  shows "find_shell ((shellVarPrefix @ ''\"'' @ sh @ ''\"'') # post) shell = Some sh"
proof -
  have "find_shell post s = Some s" for s using assms(2) by (induction post) auto
  moreover have "sub64 (19 + length sh) 19 = length sh" using assms(1) by (subst sub64_exact) simp_all
  moreover have "length shellVarPrefix = 17" by (simp add: shellVarPrefix_def)
  ultimately show ?thesis using contains_self [of shellVarPrefix "''\"'' @ sh @ ''\"''"] by (simp add: substr_def)
qed

text \<open>
  The parent passes the wait status to \<open>exit\<close>, of which only the low byte survives: whatever code
  the sandboxed command ends with, the program reports success. A failed \<open>fork\<close> is taken for the child.
\<close>

lemma container_exit_code_lost: "exit_code (256 * code) = 0"
  by (simp add: exit_code_def)

lemma container_fork_failed:
  "container_main ok (env\<lparr>env_fork := Fork_failed\<rparr>) argv = container_main ok (env\<lparr>env_fork := Forked_child\<rparr>) argv"
  by (simp add: container_main_def container_exec_def split: option.splits prod.splits bool.splits)


end
