(* ===== verification/Coding.thy ===== *)
theory Coding
  imports Byte_Order
begin

text \<open>
  The encodings of the storage engine (\<open>rocksdb/util/coding.h\<close> and \<open>coding.cc\<close>): integers of fixed
  width in little-endian order, integers of variable length, and length-prefixed byte strings.
  A slice is the list of its bytes; a routine that advances a slice returns what is left of it,
  and \<open>None\<close> where the source returns false or a null pointer. The routines for fixed widths have
  the byte order of the machine as their first argument, as the source branches on it.
\<close>

section \<open>Fixed width\<close>

text \<open>Copying an integer from and to memory on a little-endian machine.\<close>

definition load_le :: "nat \<Rightarrow> bytes \<Rightarrow> 'a::len word" where
  "load_le n ptr = of_nat (le_value (take n ptr))"

definition store_le :: "nat \<Rightarrow> 'a::len word \<Rightarrow> bytes" where
  "store_le n value = le_bytes n (unat value)"

definition DecodeFixed32 :: "bool \<Rightarrow> bytes \<Rightarrow> u32" where
  "DecodeFixed32 kLittleEndian ptr =
     (if kLittleEndian then load_le 4 ptr
      else ((ucast (ptr ! 0) OR push_bit 8 (ucast (ptr ! 1))) OR push_bit 16 (ucast (ptr ! 2))) OR push_bit 24 (ucast (ptr ! 3)))"

definition DecodeFixed64 :: "bool \<Rightarrow> bytes \<Rightarrow> u64" where
  "DecodeFixed64 kLittleEndian ptr =
     (if kLittleEndian then load_le 8 ptr
      else let lo = ucast (DecodeFixed32 kLittleEndian ptr); hi = ucast (DecodeFixed32 kLittleEndian (drop 4 ptr)) in
        push_bit 32 hi OR lo)"

definition EncodeFixed32 :: "bool \<Rightarrow> u32 \<Rightarrow> bytes" where
  "EncodeFixed32 kLittleEndian value =
     (if kLittleEndian then store_le 4 value
      else [ucast (value AND 0xff), ucast (drop_bit 8 value AND 0xff), ucast (drop_bit 16 value AND 0xff), ucast (drop_bit 24 value AND 0xff)])"

definition EncodeFixed64 :: "bool \<Rightarrow> u64 \<Rightarrow> bytes" where
  "EncodeFixed64 kLittleEndian value =
     (if kLittleEndian then store_le 8 value
      else [ucast (value AND 0xff), ucast (drop_bit 8 value AND 0xff), ucast (drop_bit 16 value AND 0xff), ucast (drop_bit 24 value AND 0xff),
            ucast (drop_bit 32 value AND 0xff), ucast (drop_bit 40 value AND 0xff), ucast (drop_bit 48 value AND 0xff), ucast (drop_bit 56 value AND 0xff)])"

definition PutFixed32 :: "bool \<Rightarrow> bytes \<Rightarrow> u32 \<Rightarrow> bytes" where
  "PutFixed32 kLittleEndian dst value =
     (if kLittleEndian then dst @ store_le 4 value else dst @ EncodeFixed32 kLittleEndian value)"

definition PutFixed64 :: "bool \<Rightarrow> bytes \<Rightarrow> u64 \<Rightarrow> bytes" where
  "PutFixed64 kLittleEndian dst value =
     (if kLittleEndian then dst @ store_le 8 value else dst @ EncodeFixed64 kLittleEndian value)"

definition GetFixed64 :: "bool \<Rightarrow> bytes \<Rightarrow> (u64 \<times> bytes) option" where
  "GetFixed64 kLittleEndian input =
     (if length input < 8 then None else Some (DecodeFixed64 kLittleEndian input, drop 8 input))"

definition GetFixed32 :: "bool \<Rightarrow> bytes \<Rightarrow> (u32 \<times> bytes) option" where
  "GetFixed32 kLittleEndian input =
     (if length input < 4 then None else Some (DecodeFixed32 kLittleEndian input, drop 4 input))"

section \<open>Variable length\<close>

text \<open>\<open>EncodeVarint32\<close> stores truncated words; the conversion to a byte drops the upper bits.\<close>

definition EncodeVarint32 :: "u32 \<Rightarrow> bytes" where
  "EncodeVarint32 v =
     (let B = 128 in
      if v < push_bit 7 1 then [ucast v]
      else if v < push_bit 14 1 then [ucast (v OR B), ucast (drop_bit 7 v)]
      else if v < push_bit 21 1 then [ucast (v OR B), ucast (drop_bit 7 v OR B), ucast (drop_bit 14 v)]
      else if v < push_bit 28 1 then
        [ucast (v OR B), ucast (drop_bit 7 v OR B), ucast (drop_bit 14 v OR B), ucast (drop_bit 21 v)]
      else [ucast (v OR B), ucast (drop_bit 7 v OR B), ucast (drop_bit 14 v OR B), ucast (drop_bit 21 v OR B), ucast (drop_bit 28 v)])"

lemma drop_bit_7_less: "128 \<le> v \<Longrightarrow> unat (drop_bit 7 v :: u64) < unat v"
proof -
  assume "128 \<le> v"
  then have "unat (128 :: u64) \<le> unat v" by (simp only: word_le_nat_alt)
  then have "128 \<le> unat v" by simp
  then show ?thesis unfolding unat_drop_bit_eq by (simp add: drop_bit_eq_div)
qed

function EncodeVarint64 :: "u64 \<Rightarrow> bytes" where
  "EncodeVarint64 v = (if 128 \<le> v then ucast (v AND 127 OR 128) # EncodeVarint64 (drop_bit 7 v) else [ucast v])"
  by pat_completeness auto
termination by (relation "measure unat") (simp_all add: drop_bit_7_less)

function VarintLength_loop :: "u64 \<Rightarrow> nat \<Rightarrow> nat" where
  "VarintLength_loop v len = (if 128 \<le> v then VarintLength_loop (drop_bit 7 v) (len + 1) else len)"
  by pat_completeness auto
termination by (relation "measure (unat \<circ> fst)") (simp_all add: drop_bit_7_less)

declare EncodeVarint64.simps [simp del] VarintLength_loop.simps [simp del]

definition VarintLength :: "u64 \<Rightarrow> nat" where
  "VarintLength v = VarintLength_loop v 1"

definition PutVarint32 :: "bytes \<Rightarrow> u32 \<Rightarrow> bytes" where
  "PutVarint32 dst v = dst @ EncodeVarint32 v"

definition PutVarint32Varint32 :: "bytes \<Rightarrow> u32 \<Rightarrow> u32 \<Rightarrow> bytes" where
  "PutVarint32Varint32 dst v1 v2 = dst @ (EncodeVarint32 v1 @ EncodeVarint32 v2)"

definition PutVarint32Varint32Varint32 :: "bytes \<Rightarrow> u32 \<Rightarrow> u32 \<Rightarrow> u32 \<Rightarrow> bytes" where
  "PutVarint32Varint32Varint32 dst v1 v2 v3 = dst @ (EncodeVarint32 v1 @ EncodeVarint32 v2 @ EncodeVarint32 v3)"

definition PutVarint64 :: "bytes \<Rightarrow> u64 \<Rightarrow> bytes" where
  "PutVarint64 dst v = dst @ EncodeVarint64 v"

definition PutVarint64Varint64 :: "bytes \<Rightarrow> u64 \<Rightarrow> u64 \<Rightarrow> bytes" where
  "PutVarint64Varint64 dst v1 v2 = dst @ (EncodeVarint64 v1 @ EncodeVarint64 v2)"

definition PutVarint32Varint64 :: "bytes \<Rightarrow> u32 \<Rightarrow> u64 \<Rightarrow> bytes" where
  "PutVarint32Varint64 dst v1 v2 = dst @ (EncodeVarint32 v1 @ EncodeVarint64 v2)"

definition PutVarint32Varint32Varint64 :: "bytes \<Rightarrow> u32 \<Rightarrow> u32 \<Rightarrow> u64 \<Rightarrow> bytes" where
  "PutVarint32Varint32Varint64 dst v1 v2 v3 = dst @ (EncodeVarint32 v1 @ EncodeVarint32 v2 @ EncodeVarint64 v3)"

text \<open>
  The decoding loop, the same in both widths: \<open>last\<close> is the last shift, \<open>p\<close> the bytes up to the limit.
\<close>

fun varint_loop :: "nat \<Rightarrow> bytes \<Rightarrow> nat \<Rightarrow> 'a::len word \<Rightarrow> ('a word \<times> bytes) option" where
  "varint_loop last_shift [] shift result = None"
| "varint_loop last_shift (b # p) shift result =
     (if last_shift < shift then None
      else if (ucast b :: 'a word) AND 128 \<noteq> 0 then varint_loop last_shift p (shift + 7) (result OR push_bit shift (ucast b AND 127))
      else Some (result OR push_bit shift (ucast b), p))"

definition GetVarint32PtrFallback :: "bytes \<Rightarrow> (u32 \<times> bytes) option" where
  "GetVarint32PtrFallback p = varint_loop 28 p 0 0"

definition GetVarint64Ptr :: "bytes \<Rightarrow> (u64 \<times> bytes) option" where
  "GetVarint64Ptr p = varint_loop 63 p 0 0"

definition GetVarint32Ptr :: "bytes \<Rightarrow> (u32 \<times> bytes) option" where
  "GetVarint32Ptr p =
     (case p of
        b # rest \<Rightarrow> if (ucast b :: u32) AND 128 = 0 then Some (ucast b, rest) else GetVarint32PtrFallback p
      | [] \<Rightarrow> GetVarint32PtrFallback p)"

definition GetVarint32 :: "bytes \<Rightarrow> (u32 \<times> bytes) option" where
  "GetVarint32 input = (case GetVarint32Ptr input of None \<Rightarrow> None | Some (v, q) \<Rightarrow> Some (v, q))"

definition GetVarint64 :: "bytes \<Rightarrow> (u64 \<times> bytes) option" where
  "GetVarint64 input = (case GetVarint64Ptr input of None \<Rightarrow> None | Some (v, q) \<Rightarrow> Some (v, q))"

section \<open>Length-prefixed slices\<close>

definition PutLengthPrefixedSlice :: "bytes \<Rightarrow> bytes \<Rightarrow> bytes" where
  "PutLengthPrefixedSlice dst value = PutVarint32 dst (of_nat (length value)) @ value"

definition PutLengthPrefixedSliceParts :: "bytes \<Rightarrow> bytes list \<Rightarrow> bytes" where
  "PutLengthPrefixedSliceParts dst parts =
     PutVarint32 dst (of_nat (sum_list (map length parts))) @ concat parts"

definition GetLengthPrefixedSlice :: "bytes \<Rightarrow> (bytes \<times> bytes) option" where
  "GetLengthPrefixedSlice input =
     (case GetVarint32 input of
        None \<Rightarrow> None
      | Some (len, input) \<Rightarrow>
          if unat len \<le> length input then Some (take (unat len) input, drop (unat len) input) else None)"

definition GetSliceUntil :: "bytes \<Rightarrow> u8 \<Rightarrow> bytes \<times> bytes" where
  "GetSliceUntil input delimiter =
     (let ret = takeWhile (\<lambda>c. c \<noteq> delimiter) input; len = length ret in
      (ret, drop (len + (if len < length input then 1 else 0)) input))"

text \<open>Reading an integer byte by byte in the opposite order.\<close>

definition EndianTransform :: "u64 \<Rightarrow> nat \<Rightarrow> u64" where
  "EndianTransform input sz =
     foldl (\<lambda>ret i. ret OR push_bit (8 * (sz - i - 1)) (ucast (store_le 8 input ! i))) 0 [0..<sz]"

section \<open>Both byte orders agree\<close>

lemma le_bytes_unfold:
  "le_bytes 4 x = [of_nat x, of_nat (x div 2 ^ 8), of_nat (x div 2 ^ 16), of_nat (x div 2 ^ 24)]"
  "le_bytes 8 x = [of_nat x, of_nat (x div 2 ^ 8), of_nat (x div 2 ^ 16), of_nat (x div 2 ^ 24),
     of_nat (x div 2 ^ 32), of_nat (x div 2 ^ 40), of_nat (x div 2 ^ 48), of_nat (x div 2 ^ 56)]"
proof -
  have e: "(4::nat) = Suc (Suc (Suc (Suc 0)))" "(8::nat) = Suc (Suc (Suc (Suc (Suc (Suc (Suc (Suc 0)))))))" by simp_all
  show "le_bytes 4 x = [of_nat x, of_nat (x div 2 ^ 8), of_nat (x div 2 ^ 16), of_nat (x div 2 ^ 24)]"
    by (subst e(1)) (simp add: div_mult2_eq [symmetric])
  show "le_bytes 8 x = [of_nat x, of_nat (x div 2 ^ 8), of_nat (x div 2 ^ 16), of_nat (x div 2 ^ 24),
     of_nat (x div 2 ^ 32), of_nat (x div 2 ^ 40), of_nat (x div 2 ^ 48), of_nat (x div 2 ^ 56)]"
    by (subst e(2)) (simp add: div_mult2_eq [symmetric])
qed

lemma low_byte_mask:
  fixes v :: "'a::len word"
  assumes "8 \<le> LENGTH('a)"
  shows "ucast (drop_bit k v AND 0xff) = (of_nat (unat v div 2 ^ k) :: u8)" "ucast (v AND 0xff) = (of_nat (unat v) :: u8)"
proof -
  have m: "(0xff :: 'a word) = mask 8" using assms by (simp add: mask_eq_exp_minus_1)
  have l: "ucast (w AND 0xff) = (ucast w :: u8)" for w :: "'a word"
    unfolding m by (rule bit_word_eqI) (auto simp: bit_simps dest: bit_imp_le_length)
  show "ucast (drop_bit k v AND 0xff) = (of_nat (unat v div 2 ^ k) :: u8)"
    unfolding l by (rule byte_eqI) (simp add: unat_byte)
  show "ucast (v AND 0xff) = (of_nat (unat v) :: u8)"
    unfolding l by (rule byte_eqI) (use unat_byte [of 0 v] in simp)
qed

lemma byte_drop_bit: "ucast (drop_bit k v) = (of_nat (unat v div 2 ^ k) :: u8)"
  by (rule byte_eqI) (simp add: unat_byte)

lemma EncodeFixed32_le [simp]: "EncodeFixed32 le v = le_bytes 4 (unat v)"
  by (simp add: EncodeFixed32_def store_le_def le_bytes_unfold low_byte_mask byte_drop_bit)

lemma EncodeFixed64_le [simp]: "EncodeFixed64 le v = le_bytes 8 (unat v)"
  by (simp add: EncodeFixed64_def store_le_def le_bytes_unfold low_byte_mask byte_drop_bit)

lemma PutFixed_le [simp]: "PutFixed32 le dst v = dst @ le_bytes 4 (unat v)" "PutFixed64 le dst w = dst @ le_bytes 8 (unat w)"
  by (simp_all add: PutFixed32_def PutFixed64_def store_le_def)

text \<open>A word is determined by the bytes cut out of it.\<close>

lemma word32_bytes:
  fixes x :: u32
  assumes "ucast x = b0" "ucast (drop_bit 8 x) = b1" "ucast (drop_bit 16 x) = b2" "ucast (drop_bit 24 x) = (b3 :: u8)"
  shows "x = of_nat (le_value [b0, b1, b2, b3])"
proof -
  have "[b0, b1, b2, b3] = le_bytes 4 (unat x)"
    using assms byte_drop_bit [of 0 x] byte_drop_bit [of 8 x] byte_drop_bit [of 16 x] byte_drop_bit [of 24 x]
    unfolding le_bytes_unfold by simp
  moreover have "unat x < 256 ^ 4" using unsigned_less [of x, where ?'a = nat] by simp
  ultimately have "le_value [b0, b1, b2, b3] = unat x" by (simp only: le_value_exact)
  then show ?thesis by simp
qed

lemma take_4: "4 \<le> length p \<Longrightarrow> take 4 p = [p ! 0, p ! 1, p ! 2, p ! 3]"
proof -
  assume "4 \<le> length p"
  then obtain a b c d q where "p = a # b # c # d # q"
    by (metis (no_types, opaque_lifting) Suc_le_length_iff Suc_numeral numeral_eq_Suc pred_numeral_simps(2,3) BitM.simps le_zero_eq numeral_One One_nat_def)
  then show ?thesis by simp
qed

lemma DecodeFixed32_le [simp]:
  assumes "4 \<le> length p" shows "DecodeFixed32 le p = of_nat (le_value (take 4 p))"
proof (cases le)
  case False
  let ?x = "(((ucast (p ! 0) OR push_bit 8 (ucast (p ! 1))) OR push_bit 16 (ucast (p ! 2))) OR push_bit 24 (ucast (p ! 3))) :: u32"
  have "ucast ?x = p ! 0" "ucast (drop_bit 8 ?x) = p ! 1" "ucast (drop_bit 16 ?x) = p ! 2" "ucast (drop_bit 24 ?x) = p ! 3"
    by (rule bit_word_eqI; auto simp: bit_simps dest: bit_imp_le_length)+
  from word32_bytes [OF this] show ?thesis unfolding take_4 [OF assms] by (simp only: DecodeFixed32_def False if_False)
qed (simp add: DecodeFixed32_def load_le_def)

lemma DecodeFixed64_le [simp]:
  assumes "8 \<le> length p" shows "DecodeFixed64 le p = of_nat (le_value (take 8 p))"
proof (cases le)
  case False
  define lo hi where lh: "lo = le_value (take 4 p)" "hi = le_value (take 4 (drop 4 p))"
  have l: "length (take 4 p) = 4" "length (take 4 (drop 4 p)) = 4" using assms by simp_all
  have b: "lo < 2 ^ 32" "hi < 2 ^ 32" using le_value_less [of "take 4 p"] le_value_less [of "take 4 (drop 4 p)"] unfolding l lh by simp_all
  have "take 8 p = take 4 p @ take 4 (drop 4 p)" using take_add [of 4 4 p] by simp
  then have v: "le_value (take 8 p) = lo + 2 ^ 32 * hi" using l by (simp add: le_value_append lh)
  have "ucast (of_nat n :: u32) = (of_nat n :: u64)" if "n < 2 ^ 32" for n
    using that by (simp add: word_unat_eq_iff unsigned_ucast_eq unat_of_nat take_bit_eq_mod)
  then have e: "ucast (DecodeFixed32 le p) = (of_nat lo :: u64)" "ucast (DecodeFixed32 le (drop 4 p)) = (of_nat hi :: u64)"
    using b assms by (simp_all add: lh)
  have "push_bit 32 (of_nat hi :: u64) AND of_nat lo = 0"
  proof (rule bit_word_eqI)
    fix i
    have "bit (of_nat lo :: u64) i \<Longrightarrow> i < 32" using b(1) by (metis bit_of_nat_iff bit_take_bit_iff take_bit_nat_eq_self)
    then show "bit (push_bit 32 (of_nat hi :: u64) AND of_nat lo) i \<longleftrightarrow> bit (0 :: u64) i" by (auto simp: bit_simps)
  qed
  then have "push_bit 32 (of_nat hi :: u64) OR of_nat lo = push_bit 32 (of_nat hi) + of_nat lo"
    using word_plus_and_or [of "push_bit 32 (of_nat hi :: u64)" "of_nat lo"] by simp
  also have "\<dots> = of_nat (le_value (take 8 p))" unfolding v by (simp add: push_bit_eq_mult)
  finally show ?thesis unfolding DecodeFixed64_def using False e by (simp add: Let_def)
qed (simp add: DecodeFixed64_def load_le_def)

lemma GetFixed32_append [simp]: "GetFixed32 le (le_bytes 4 (unat v) @ rest) = Some (v, rest)"
  using unsigned_less [of v, where ?'a = nat] by (simp add: GetFixed32_def le_value_exact)

lemma GetFixed64_append [simp]: "GetFixed64 le (le_bytes 8 (unat v) @ rest) = Some (v, rest)"
  using unsigned_less [of v, where ?'a = nat] by (simp add: GetFixed64_def le_value_exact)

lemma EndianTransform_rev: "store_le 8 (EndianTransform x 8) = rev (store_le 8 x)"
proof -
  have le: "le_bytes 8 (unat y) = [ucast y, ucast (drop_bit 8 y), ucast (drop_bit 16 y), ucast (drop_bit 24 y),
      ucast (drop_bit 32 y), ucast (drop_bit 40 y), ucast (drop_bit 48 y), ucast (drop_bit 56 y)]" for y :: u64
    unfolding le_bytes_unfold by (simp add: byte_drop_bit)
  define y :: u64 where "y = EndianTransform x 8"
  have u: "[0..<8] = [0, 1, 2, 3, 4, 5, 6, 7 :: nat]" by (simp add: upt_rec)
  have y: "y = push_bit 56 (ucast (ucast x :: u8)) OR push_bit 48 (ucast (ucast (drop_bit 8 x) :: u8)) OR
      push_bit 40 (ucast (ucast (drop_bit 16 x) :: u8)) OR push_bit 32 (ucast (ucast (drop_bit 24 x) :: u8)) OR
      push_bit 24 (ucast (ucast (drop_bit 32 x) :: u8)) OR push_bit 16 (ucast (ucast (drop_bit 40 x) :: u8)) OR
      push_bit 8 (ucast (ucast (drop_bit 48 x) :: u8)) OR ucast (ucast (drop_bit 56 x) :: u8)"
    unfolding y_def EndianTransform_def store_le_def le u by (simp add: or.assoc)
  show ?thesis unfolding store_le_def le y_def [symmetric] rev.simps append.simps list.inject
    by (intro conjI refl; rule bit_word_eqI; auto simp: y bit_simps dest: bit_imp_le_length)
qed

section \<open>The encoding of variable length\<close>

text \<open>The reference: seven bits a byte, lowest first, the high bit set on all bytes but the last.\<close>

fun varint :: "nat \<Rightarrow> bytes" where
  "varint n = (if 128 \<le> n then of_nat (n mod 128 + 128) # varint (n div 128) else [of_nat n])"

declare varint.simps [simp del]

lemma varint_small: "n < 128 \<Longrightarrow> varint n = [of_nat n]"
  by (simp add: varint.simps)

lemma varint_big: "128 \<le> n \<Longrightarrow> varint n = of_nat (n mod 128 + 128) # varint (n div 128)"
  by (simp add: varint.simps)

lemma bit_128:
  assumes "8 \<le> LENGTH('a::len)" shows "bit (128 :: 'a word) i \<longleftrightarrow> i = 7"
proof -
  have "(128 :: 'a word) = 2 ^ 7" by simp
  then show ?thesis using assms by (auto simp only: bit_exp_iff possible_bit_word)
qed

lemma bit_127:
  assumes "8 \<le> LENGTH('a::len)" shows "bit (127 :: 'a word) i \<longleftrightarrow> i < 7"
proof -
  have "(127 :: 'a word) = mask 7" by (simp add: mask_eq_exp_minus_1)
  then show ?thesis using assms by (auto simp only: bit_mask_iff possible_bit_word)
qed

lemma or_128:
  fixes v :: "'a::len word"
  assumes "8 \<le> LENGTH('a)"
  shows "ucast (v OR 128) = (of_nat (unat v mod 128 + 128) :: u8)" "ucast (v AND 127 OR 128) = (of_nat (unat v mod 128 + 128) :: u8)"
proof -
  define x :: u8 where "x = of_nat (unat v mod 128)"
  have "x = of_nat (take_bit 7 (unat v))" by (simp add: x_def take_bit_eq_mod)
  then have b: "bit x i \<longleftrightarrow> i < 7 \<and> bit v i" for i
    by (auto simp: bit_of_nat_iff bit_take_bit_iff bit_unsigned_iff dest: bit_imp_le_length)
  have "x AND 128 = 0" by (rule bit_word_eqI) (auto simp: bit_and_iff b bit_128 simp del: bit_numeral_word_iff)
  then have s: "(of_nat (unat v mod 128 + 128) :: u8) = x OR 128"
    using word_plus_and_or [of x 128] by (simp add: x_def)
  show "ucast (v OR 128) = (of_nat (unat v mod 128 + 128) :: u8)"
    unfolding s by (rule bit_word_eqI) (use assms in \<open>auto simp: bit_or_iff bit_ucast_iff b bit_128 simp del: bit_numeral_word_iff dest: bit_imp_le_length\<close>)
  show "ucast (v AND 127 OR 128) = (of_nat (unat v mod 128 + 128) :: u8)"
    unfolding s by (rule bit_word_eqI) (use assms in \<open>auto simp: bit_or_iff bit_and_iff bit_ucast_iff b bit_128 bit_127 simp del: bit_numeral_word_iff dest: bit_imp_le_length\<close>)
qed

lemma unat_drop_bit: "unat (drop_bit k v) = unat v div 2 ^ k"
  unfolding unat_drop_bit_eq by (simp only: drop_bit_eq_div)

lemma EncodeVarint64_varint [simp]: "EncodeVarint64 v = varint (unat v)"
proof (induction v rule: EncodeVarint64.induct)
  case (1 v)
  have c: "128 \<le> v \<longleftrightarrow> 128 \<le> unat v" by (simp add: word_le_nat_alt)
  show ?case
  proof (cases "128 \<le> v")
    case True
    then show ?thesis using 1 c by (subst EncodeVarint64.simps) (simp add: varint_big or_128(2) unat_drop_bit)
  next
    case False
    then show ?thesis using c byte_drop_bit [of 0 v] by (subst EncodeVarint64.simps) (simp add: varint_small)
  qed
qed

lemma VarintLength_loop_varint: "VarintLength_loop v n + 1 = n + length (varint (unat v))"
proof (induction v n rule: VarintLength_loop.induct)
  case (1 v n)
  have c: "128 \<le> v \<longleftrightarrow> 128 \<le> unat v" by (simp add: word_le_nat_alt)
  show ?case
  proof (cases "128 \<le> v")
    case True
    then show ?thesis using 1 c by (subst VarintLength_loop.simps) (simp add: varint_big unat_drop_bit)
  next
    case False
    then show ?thesis using c by (subst VarintLength_loop.simps) (simp add: varint_small)
  qed
qed

lemma VarintLength_varint: "VarintLength v = length (varint (unat v))"
  using VarintLength_loop_varint [of v 1] by (simp add: VarintLength_def)

lemma EncodeVarint32_varint [simp]: "EncodeVarint32 v = varint (unat v)"
proof -
  let ?n = "unat v"
  have lt: "v < 128 \<longleftrightarrow> ?n < 128" "v < 16384 \<longleftrightarrow> ?n < 16384" "v < 2097152 \<longleftrightarrow> ?n < 2097152" "v < 268435456 \<longleftrightarrow> ?n < 268435456"
    by (simp_all add: word_less_nat_alt)
  have top: "?n < 2 ^ 32" using unsigned_less [of v, where ?'a = nat] by simp
  have d: "?n div 128 div 128 = ?n div 16384" "?n div 16384 div 128 = ?n div 2097152" "?n div 2097152 div 128 = ?n div 268435456"
    by (simp_all add: div_mult2_eq [symmetric])
  note b = or_128(1) unat_drop_bit byte_drop_bit byte_drop_bit [of 0 v, simplified]
  consider "?n < 2 ^ 7" | "2 ^ 7 \<le> ?n" "?n < 2 ^ 14" | "2 ^ 14 \<le> ?n" "?n < 2 ^ 21" | "2 ^ 21 \<le> ?n" "?n < 2 ^ 28" | "2 ^ 28 \<le> ?n"
    by linarith
  then show ?thesis
  proof cases
    case 1 then show ?thesis by (simp add: EncodeVarint32_def lt b varint_small)
  next
    case 2
    then have "varint ?n = [of_nat (?n mod 128 + 128), of_nat (?n div 128)]" by (simp add: varint_big varint_small)
    then show ?thesis using 2 by (simp add: EncodeVarint32_def lt b)
  next
    case 3
    then have "varint ?n = [of_nat (?n mod 128 + 128), of_nat (?n div 128 mod 128 + 128), of_nat (?n div 16384)]"
      by (simp add: varint_big [of ?n] varint_big [of "?n div 128"] varint_small d)
    then show ?thesis using 3 by (simp add: EncodeVarint32_def lt b)
  next
    case 4
    then have "varint ?n = [of_nat (?n mod 128 + 128), of_nat (?n div 128 mod 128 + 128), of_nat (?n div 16384 mod 128 + 128), of_nat (?n div 2097152)]"
      using d by (simp add: varint_big [of ?n] varint_big [of "?n div 128"] varint_big [of "?n div 16384"] varint_small)
    then show ?thesis using 4 by (simp add: EncodeVarint32_def lt b)
  next
    case 5
    then have g: "128 \<le> ?n" "128 \<le> ?n div 128" "128 \<le> ?n div 16384" "128 \<le> ?n div 2097152" "?n div 268435456 < 128"
      using top by (simp_all add: less_eq_div_iff_mult_less_eq)
    then have "varint ?n = [of_nat (?n mod 128 + 128), of_nat (?n div 128 mod 128 + 128), of_nat (?n div 16384 mod 128 + 128),
        of_nat (?n div 2097152 mod 128 + 128), of_nat (?n div 268435456)]"
      using d by (simp add: varint_big [of ?n] varint_big [of "?n div 128"] varint_big [of "?n div 16384"] varint_big [of "?n div 2097152"] varint_small)
    then show ?thesis using 5 by (simp add: EncodeVarint32_def lt b)
  qed
qed

lemma length_varint: "n < 128 ^ k \<Longrightarrow> 0 < k \<Longrightarrow> length (varint n) \<le> k"
proof (induction n arbitrary: k rule: varint.induct)
  case (1 n)
  obtain j where j: "k = Suc j" using 1 by (cases k) auto
  show ?case
  proof (cases "128 \<le> n")
    case True
    then have "0 < j" using 1 j by (cases j) auto
    moreover have "n div 128 < 128 ^ j" using 1(2) j by (simp add: less_mult_imp_div_less mult.commute)
    ultimately show ?thesis using 1(1) True j by (simp add: varint_big)
  qed (use j in \<open>simp add: varint_small\<close>)
qed

lemma varint_nonempty [simp]: "varint n \<noteq> []"
  by (subst varint.simps) simp

section \<open>Decoding what was encoded\<close>

lemma ucast_of_nat_byte:
  assumes "n < 256" "8 \<le> LENGTH('a::len)" shows "(ucast (of_nat n :: u8) :: 'a word) = of_nat n"
proof -
  have "(256 :: nat) = 2 ^ 8" by simp
  then have "n < 2 ^ LENGTH('a)" using assms power_increasing [of 8 "LENGTH('a)" "2 :: nat"] by linarith
  then show ?thesis using assms(1) by (simp add: word_unat_eq_iff unsigned_ucast_eq unat_of_nat take_bit_nat_eq_self)
qed

lemma low_bits:
  fixes x :: "'a::len word"
  assumes "8 \<le> LENGTH('a)"
  shows "n < 128 \<Longrightarrow> (of_nat n :: 'a word) AND 128 = 0" "(of_nat (n mod 128 + 128) :: 'a word) AND 128 \<noteq> 0"
    "(of_nat (n mod 128 + 128) :: 'a word) AND 127 = take_bit 7 (of_nat n)"
proof -
  have small: "i < 7" if "n < 128" "bit (of_nat n :: 'a word) i" for n i
  proof -
    have "take_bit 7 n = n" using that(1) by (simp add: take_bit_nat_eq_self)
    moreover have "bit n i" using that(2) by (simp add: bit_of_nat_iff)
    ultimately show ?thesis using bit_take_bit_iff [of 7 n i] by simp
  qed
  have z: "(of_nat n :: 'a word) AND 128 = 0" if "n < 128" for n
    by (rule bit_word_eqI) (use small [OF that] assms in \<open>auto simp: bit_and_iff bit_128 simp del: bit_numeral_word_iff\<close>)
  then show "n < 128 \<Longrightarrow> (of_nat n :: 'a word) AND 128 = 0" .
  have "(of_nat (n mod 128 + 128) :: 'a word) = of_nat (n mod 128) OR 128"
    using word_plus_and_or [of "of_nat (n mod 128) :: 'a word" 128] z [of "n mod 128"] by simp
  then have b: "bit (of_nat (n mod 128 + 128) :: 'a word) i \<longleftrightarrow> i = 7 \<or> bit (of_nat (n mod 128) :: 'a word) i" for i
    using assms by (auto simp: bit_or_iff bit_128 simp del: bit_numeral_word_iff)
  then have "bit ((of_nat (n mod 128 + 128) :: 'a word) AND 128) 7" using assms by (simp add: bit_and_iff bit_128 del: bit_numeral_word_iff)
  then show "(of_nat (n mod 128 + 128) :: 'a word) AND 128 \<noteq> 0" by (metis bit_0_eq bot_apply bot_bool_def)
  have t: "take_bit 7 (of_nat n :: 'a word) = of_nat (n mod 128)"
    using take_bit_eq_mod [of 7 n] by (simp add: take_bit_of_nat)
  show "(of_nat (n mod 128 + 128) :: 'a word) AND 127 = take_bit 7 (of_nat n)"
    unfolding t by (rule bit_word_eqI) (use b small [of "n mod 128"] assms in \<open>auto simp: bit_and_iff bit_127 simp del: bit_numeral_word_iff\<close>)
qed

lemma varint_loop_append:
  assumes L: "8 \<le> LENGTH('a::len)" and top: "\<And>t. 7 dvd t \<Longrightarrow> t < LENGTH('a) \<Longrightarrow> t \<le> m"
  shows "n < 2 ^ (LENGTH('a) - s) \<Longrightarrow> s < LENGTH('a) \<Longrightarrow> 7 dvd s \<Longrightarrow>
    varint_loop m (varint n @ rest) s (r :: 'a word) = Some (r OR push_bit s (of_nat n), rest)"
proof (induction n arbitrary: s r rule: varint.induct)
  case (1 n)
  have s: "\<not> m < s" using top 1(3,4) by (simp add: not_less)
  show ?case
  proof (cases "128 \<le> n")
    case False
    then show ?thesis using s by (simp add: varint_small ucast_of_nat_byte L low_bits)
  next
    case True
    then have "(2::nat) ^ 7 < 2 ^ (LENGTH('a) - s)" using 1(2) by simp
    then have "7 < LENGTH('a) - s" by (rule power_less_imp_less_exp [rotated]) simp
    then have s7: "s + 7 < LENGTH('a)" by simp
    have e: "(2::nat) ^ (LENGTH('a) - s) = 2 ^ (LENGTH('a) - (s + 7)) * 128" using s7 power_add [of "2::nat" "LENGTH('a) - (s + 7)" 7] by simp
    have "n div 128 < 2 ^ (LENGTH('a) - (s + 7))" using 1(2) unfolding e by (simp add: less_mult_imp_div_less)
    moreover have "7 dvd s + 7" using 1(4) by simp
    ultimately have IH: "varint_loop m (varint (n div 128) @ rest) (s + 7) r' = Some (r' OR push_bit (s + 7) (of_nat (n div 128)), rest)" for r' :: "'a word"
      using 1(1) True s7 by blast
    have "n < 2 ^ LENGTH('a)" using 1(2) by (meson diff_le_self le_trans less_le_trans not_le one_le_numeral power_increasing)
    then have "unat (of_nat n :: 'a word) = n" "unat (of_nat (n div 128) :: 'a word) = n div 128"
      by (simp_all add: unat_of_nat order.strict_trans1 [OF div_le_dividend])
    then have "(of_nat (n div 128) :: 'a word) = drop_bit 7 (of_nat n)" by (simp add: word_unat_eq_iff unat_drop_bit)
    moreover have "push_bit s (take_bit 7 w) OR push_bit (s + 7) (drop_bit 7 w) = push_bit s w" for w :: "'a word"
    proof -
      have "take_bit 7 w OR push_bit 7 (drop_bit 7 w) = w"
      proof (rule bit_word_eqI)
        show "bit (take_bit 7 w OR push_bit 7 (drop_bit 7 w)) i \<longleftrightarrow> bit w i" if "i < LENGTH('a)" for i
          using that by (cases "i < 7") (simp_all add: bit_simps)
      qed
      then have "push_bit s (take_bit 7 w OR push_bit 7 (drop_bit 7 w)) = push_bit s w" by simp
      then show ?thesis by (simp only: push_bit_or push_bit_push_bit)
    qed
    moreover define b :: u8 where "b = of_nat (n mod 128 + 128)"
    moreover have "(ucast b :: 'a word) = of_nat (n mod 128 + 128)" unfolding b_def by (rule ucast_of_nat_byte) (use L in simp_all)
    then have "(ucast b :: 'a word) AND 128 \<noteq> 0" "(ucast b :: 'a word) AND 127 = take_bit 7 (of_nat n)"
      by (simp_all only: low_bits [OF L] not_False_eq_True)
    moreover have "varint n = b # varint (n div 128)" unfolding b_def by (rule varint_big [OF True])
    ultimately show ?thesis using s by (simp add: IH or.assoc)
  qed
qed

lemma GetVarint32_append [simp]: "GetVarint32 (varint (unat v) @ rest) = Some (v, rest)"
proof -
  have n: "unat v < 2 ^ 32" using unsigned_less [of v, where ?'a = nat] by simp
  have t: "t \<le> 28" if "7 dvd t" "t < LENGTH(32)" for t :: nat using that by auto
  have f: "GetVarint32PtrFallback (varint (unat v) @ rest) = Some (v, rest)"
    using varint_loop_append [where ?'a = 32 and m = 28 and n = "unat v" and s = 0 and r = 0, OF _ t] n
    by (simp add: GetVarint32PtrFallback_def)
  show ?thesis
  proof (cases "128 \<le> unat v")
    case True
    have "hd (varint (unat v)) = of_nat (unat v mod 128 + 128)" using True by (simp only: varint_big list.sel)
    then have "(ucast (hd (varint (unat v))) :: u32) = of_nat (unat v mod 128 + 128)"
      by (simp only:) (rule ucast_of_nat_byte; simp)
    then have "(ucast (hd (varint (unat v))) :: u32) AND 128 \<noteq> 0"
      by (simp only:) (rule low_bits; simp)
    then show ?thesis using f by (cases "varint (unat v)") (auto simp: GetVarint32_def GetVarint32Ptr_def)
  next
    case False
    then have "varint (unat v) = [of_nat (unat v)]" by (simp only: varint_small not_le)
    moreover have "(ucast (of_nat (unat v) :: u8) :: u32) = of_nat (unat v)" using False by (intro ucast_of_nat_byte) simp_all
    moreover have "(of_nat (unat v) :: u32) AND 128 = 0" using False by (intro low_bits) simp_all
    ultimately show ?thesis by (simp add: GetVarint32_def GetVarint32Ptr_def)
  qed
qed

lemma GetVarint64_append [simp]: "GetVarint64 (varint (unat v) @ rest) = Some (v, rest)"
proof -
  have "unat v < 2 ^ 64" using unsigned_less [of v, where ?'a = nat] by simp
  moreover have "t \<le> 63" if "7 dvd t" "t < LENGTH(64)" for t :: nat using that by auto
  ultimately show ?thesis
    using varint_loop_append [where ?'a = 64 and m = 63 and n = "unat v" and s = 0 and r = 0]
    by (simp add: GetVarint64_def GetVarint64Ptr_def)
qed

lemma GetLengthPrefixedSlice_append:
  "length x < 2 ^ 32 \<Longrightarrow> GetLengthPrefixedSlice (PutLengthPrefixedSlice [] x @ rest) = Some (x, rest)"
proof -
  assume "length x < 2 ^ 32"
  then have u: "unat (of_nat (length x) :: u32) = length x" by (simp add: unat_of_nat)
  have "GetVarint32 (varint (length x) @ x @ rest) = Some (of_nat (length x), x @ rest)"
    using GetVarint32_append [of "of_nat (length x)" "x @ rest"] unfolding u .
  then show ?thesis by (simp add: GetLengthPrefixedSlice_def PutLengthPrefixedSlice_def PutVarint32_def u)
qed

lemma PutLengthPrefixedSliceParts_concat: "PutLengthPrefixedSliceParts dst parts = PutLengthPrefixedSlice dst (concat parts)"
  by (simp add: PutLengthPrefixedSliceParts_def PutLengthPrefixedSlice_def length_concat)

text \<open>Arrays of fixed-width numbers.\<close>

lemma unat_of_nat_32: "n < 2 ^ 32 \<Longrightarrow> unat (of_nat n :: u32) = n"
  by (simp add: unat_of_nat)

lemma foldl_PutFixed32: "foldl (PutFixed32 le) buf rs = buf @ concat (map (\<lambda>v. le_bytes 4 (unat v)) rs)"
  by (induction rs arbitrary: buf) auto

lemma concat_block:
  assumes "\<And>x. length (f x) = c" "j < m"
  shows "take c (drop (c * j) (concat (map f [0..<m]))) = f j"
proof -
  have "[0..<m] = [0..<j] @ j # [Suc j..<m]" using assms(2) upt_add_eq_append [of 0 j "m - j"] by (simp add: upt_conv_Cons)
  moreover have "length (concat (map f [0..<j])) = c * j" using assms(1) by (induction j) simp_all
  ultimately show ?thesis using assms(1) [of j] by simp
qed

section \<open>Properties\<close>

text \<open>
  C16. Every reader of the storage format inverts its writer: integers of 32 and 64 bits, of fixed and
  of variable length, and length-prefixed strings below 4 GiB come back as they were put, on machines
  of either byte order, and exactly the bytes behind them are left.
\<close>

theorem coding_roundtrip:
  assumes "length x < 2 ^ 32"
  shows "GetFixed32 le (PutFixed32 le' [] v @ rest) = Some (v, rest) \<and>
    GetFixed64 le (PutFixed64 le' [] w @ rest) = Some (w, rest) \<and>
    GetVarint32 (PutVarint32 [] v @ rest) = Some (v, rest) \<and>
    GetVarint64 (PutVarint64 [] w @ rest) = Some (w, rest) \<and>
    GetLengthPrefixedSlice (PutLengthPrefixedSlice [] x @ rest) = Some (x, rest)"
  using assms by (simp add: PutVarint32_def PutVarint64_def GetLengthPrefixedSlice_append)

theorem coding_roundtrip_witness: "GetLengthPrefixedSlice (PutLengthPrefixedSlice [] [1, 2, 3] @ [9]) = Some ([1, 2, 3], [9])"
proof -
  have "length [1 :: u8, 2, 3] < 2 ^ 32" by simp
  then show ?thesis using coding_roundtrip by blast
qed

text \<open>
  C37. The encoders stay inside the buffers the routines reserve for them: five bytes for a 32-bit
  and ten for a 64-bit number, in every combination; \<open>VarintLength\<close> is the length of the
  encoding, and both widths encode a number in the same way.
\<close>

theorem coding_bounds:
  "length (EncodeVarint32 v1) \<le> 5 \<and> length (EncodeVarint32 v1 @ EncodeVarint32 v2) \<le> 10 \<and>
   length (EncodeVarint32 v1 @ EncodeVarint32 v2 @ EncodeVarint32 v3) \<le> 15 \<and>
   length (EncodeVarint64 w1) \<le> 10 \<and> length (EncodeVarint64 w1 @ EncodeVarint64 w2) \<le> 20 \<and>
   length (EncodeVarint32 v1 @ EncodeVarint64 w1) \<le> 15 \<and>
   length (EncodeVarint32 v1 @ EncodeVarint32 v2 @ EncodeVarint64 w1) \<le> 20 \<and>
   VarintLength w1 = length (EncodeVarint64 w1) \<and> EncodeVarint32 v1 = EncodeVarint64 (ucast v1)"
proof -
  have a: "length (varint (unat v)) \<le> 5" for v :: u32
    using unsigned_less [of v, where ?'a = nat] by (intro length_varint) simp_all
  have b: "length (varint (unat v)) \<le> 10" for v :: u64
    using unsigned_less [of v, where ?'a = nat] by (intro length_varint) simp_all
  have "unat (ucast v1 :: u64) = unat v1"
    using unsigned_less [of v1, where ?'a = nat] by (simp add: unsigned_ucast_eq take_bit_nat_eq_self)
  then show ?thesis using a [of v1] a [of v2] a [of v3] b [of w1] b [of w2] by (simp add: VarintLength_varint)
qed

end
