(* ===== verification/Log_Format.thy ===== *)
theory Log_Format
  imports Crc32c
begin

text \<open>
  The write-ahead log of the storage engine: \<open>rocksdb/db/log_format.h\<close>, \<open>log_writer.cc\<close> and
  \<open>log_reader.cc\<close>. A log is a file of blocks of 32 KiB; a record is written as one or more physical
  records, each with a header and inside one block. The file of the writer is the list of bytes
  appended to it, and whether a file operation succeeds is read from a list of outcomes in the
  state; after its end all operations succeed. Failing assertions give \<open>None\<close>. The checksum is taken at
  address 0 throughout, as its value does not depend on the address (\<open>Extend_ref\<close> in \<open>Crc32c\<close>).
\<close>

section \<open>The format\<close>

definition kZeroType :: nat where [simp]: "kZeroType = 0"
definition kFullType :: nat where [simp]: "kFullType = 1"
definition kFirstType :: nat where [simp]: "kFirstType = 2"
definition kMiddleType :: nat where [simp]: "kMiddleType = 3"
definition kLastType :: nat where [simp]: "kLastType = 4"
definition kRecyclableFullType :: nat where [simp]: "kRecyclableFullType = 5"
definition kRecyclableFirstType :: nat where [simp]: "kRecyclableFirstType = 6"
definition kRecyclableMiddleType :: nat where [simp]: "kRecyclableMiddleType = 7"
definition kRecyclableLastType :: nat where [simp]: "kRecyclableLastType = 8"
definition kMaxRecordType :: nat where [simp]: "kMaxRecordType = kRecyclableLastType"

definition kBlockSize :: nat where "kBlockSize = 32768"
definition kHeaderSize :: nat where [simp]: "kHeaderSize = 4 + 2 + 1"
definition kRecyclableHeaderSize :: nat where [simp]: "kRecyclableHeaderSize = 4 + 1 + 4 + 2"

section \<open>The writer\<close>

record writer =
  w_dest :: bytes
  w_block_offset :: nat
  w_log_number :: u64
  w_recycle :: bool
  w_type_crc :: "u32 list"
  w_io :: "bool list"

type_synonym hw = "(u64 \<Rightarrow> u64 \<Rightarrow> u64) option"

definition Writer :: "hw \<Rightarrow> u64 \<Rightarrow> bool \<Rightarrow> bool list \<Rightarrow> writer" where
  "Writer hw log_number recycle_log_files io =
     \<lparr>w_dest = [], w_block_offset = 0, w_log_number = log_number, w_recycle = recycle_log_files,
      w_type_crc = map (\<lambda>i. Value hw 0 [of_nat i]) [0..<kMaxRecordType + 1], w_io = io\<rparr>"

text \<open>Appending to the file, and flushing it: the outcome and the new state.\<close>

definition file_append :: "bytes \<Rightarrow> writer \<Rightarrow> bool \<times> writer" where
  "file_append data w = (case w_io w of
      [] \<Rightarrow> (True, w\<lparr>w_dest := w_dest w @ data\<rparr>)
    | ok # io \<Rightarrow> (ok, w\<lparr>w_dest := (if ok then w_dest w @ data else w_dest w), w_io := io\<rparr>))"

definition file_flush :: "writer \<Rightarrow> bool \<times> writer" where
  "file_flush w = (case w_io w of [] \<Rightarrow> (True, w) | ok # io \<Rightarrow> (ok, w\<lparr>w_io := io\<rparr>))"

definition EmitPhysicalRecord :: "hw \<Rightarrow> nat \<Rightarrow> bytes \<Rightarrow> writer \<Rightarrow> (bool \<times> writer) option" where
  "EmitPhysicalRecord hw t ptr w =
     (let n = length ptr;
          recyclable = \<not> t < kRecyclableFullType;
          header_size = (if recyclable then kRecyclableHeaderSize else kHeaderSize);
          crc = w_type_crc w ! t;
          number = EncodeFixed32 True (ucast (w_log_number w));
          crc = (if recyclable then Extend hw crc 0 number else crc);
          crc = Mask (Extend hw crc 0 ptr);
          buf = EncodeFixed32 True crc @ [of_nat n AND 0xff, of_nat (drop_bit 8 n), of_nat t] @ (if recyclable then number else [])
      in if 0xffff < n \<or> kBlockSize < w_block_offset w + header_size + n then None
         else case file_append buf w of (ok, w) \<Rightarrow>
           let (ok, w) = (if ok then case file_append ptr w of (ok, w) \<Rightarrow> if ok then file_flush w else (False, w) else (False, w)) in
           Some (ok, w\<lparr>w_block_offset := w_block_offset w + header_size + n\<rparr>))"

definition header_size_of :: "writer \<Rightarrow> nat" where
  "header_size_of w = (if w_recycle w then kRecyclableHeaderSize else kHeaderSize)"

text \<open>Switching to a new block when no header fits into this one; the outcome of the append is dropped.\<close>

definition switch_block :: "writer \<Rightarrow> writer" where
  "switch_block w =
     (let leftover = kBlockSize - w_block_offset w in
      if leftover < header_size_of w then
        (if 0 < leftover then snd (file_append (replicate leftover 0) w) else w)\<lparr>w_block_offset := 0\<rparr>
      else w)"

definition fragment_type :: "bool \<Rightarrow> bool \<Rightarrow> bool \<Rightarrow> nat" where
  "fragment_type recycle first final =
     (if first \<and> final then if recycle then kRecyclableFullType else kFullType
      else if first then if recycle then kRecyclableFirstType else kFirstType
      else if final then if recycle then kRecyclableLastType else kLastType
      else if recycle then kRecyclableMiddleType else kMiddleType)"

lemma EmitPhysicalRecord_state:
  assumes "EmitPhysicalRecord hw t ptr w = Some (ok, w')"
  shows "w_block_offset w' = w_block_offset w + (if t < kRecyclableFullType then kHeaderSize else kRecyclableHeaderSize) + length ptr \<and>
    w_recycle w' = w_recycle w"
  using assms unfolding EmitPhysicalRecord_def Let_def file_append_def file_flush_def
  by (auto split: if_splits list.splits prod.splits)

function (sequential) AddRecord_loop :: "hw \<Rightarrow> bytes \<Rightarrow> bool \<Rightarrow> writer \<Rightarrow> (bool \<times> writer) option" where
  "AddRecord_loop hw ptr first w =
     (if kBlockSize < w_block_offset w then None
      else let w = switch_block w;
               avail = kBlockSize - w_block_offset w - header_size_of w;
               fragment_length = (if length ptr < avail then length ptr else avail);
               t = fragment_type (w_recycle w) first (length ptr = fragment_length)
           in case EmitPhysicalRecord hw t (take fragment_length ptr) w of
                None \<Rightarrow> None
              | Some (ok, w) \<Rightarrow>
                  if ok \<and> 0 < length ptr - fragment_length then AddRecord_loop hw (drop fragment_length ptr) False w
                  else Some (ok, w))"
  by pat_completeness auto
termination
proof (relation "measures [\<lambda>(hw, ptr, first, w). length ptr, \<lambda>(hw, ptr, first, w). if kBlockSize - w_block_offset w = header_size_of w then 1 else 0]",
    goal_cases)
  case 1
  show ?case by simp
next
  case (2 hw ptr first w w1 avail frag t r ok w2)
  have sw: "w_recycle w1 = w_recycle w" "w_block_offset w1 = (if kBlockSize - w_block_offset w < header_size_of w then 0 else w_block_offset w)"
    unfolding 2(2) by (auto simp: switch_block_def file_append_def Let_def split: list.splits)
  have em: "w_block_offset w2 = w_block_offset w1 + header_size_of w1 + length (take frag ptr) \<and> w_recycle w2 = w_recycle w1"
    using EmitPhysicalRecord_state [of hw t "take frag ptr" w1 ok w2] 2(6,7) unfolding 2(5)
    by (auto simp: header_size_of_def fragment_type_def split: if_splits)
  show ?case
  proof (cases "frag = 0")
    case True
    then have "avail = 0" using 2(4,8) by (auto split: if_splits)
    then have "w_block_offset w1 = kBlockSize - header_size_of w" using 2(3) sw 2(1)
      by (auto simp: header_size_of_def kBlockSize_def split: if_splits)
    moreover have "kBlockSize - w_block_offset w = header_size_of w" "w_block_offset w2 = kBlockSize"
      using calculation sw em True by (auto simp: header_size_of_def kBlockSize_def split: if_splits)
    ultimately show ?thesis using True em sw by (auto simp: header_size_of_def kBlockSize_def)
  next
    case False
    then show ?thesis using 2(4,8) by (auto split: if_splits)
  qed
qed

declare AddRecord_loop.simps [simp del]

definition AddRecord :: "hw \<Rightarrow> bytes \<Rightarrow> writer \<Rightarrow> (bool \<times> writer) option" where
  "AddRecord hw slic w = AddRecord_loop hw slic True w"

section \<open>The reader\<close>

text \<open>Results of reading a physical record beyond its type, numbered as in the source.\<close>

definition kEof :: nat where [simp]: "kEof = 9"
definition kBadRecord :: nat where [simp]: "kBadRecord = 10"
definition kBadHeader :: nat where [simp]: "kBadHeader = 11"
definition kOldRecord :: nat where [simp]: "kOldRecord = 12"
definition kBadRecordLen :: nat where [simp]: "kBadRecordLen = 13"
definition kBadRecordChecksum :: nat where [simp]: "kBadRecordChecksum = 14"

datatype WALRecoveryMode =
  kTolerateCorruptedTailRecords | kAbsoluteConsistency | kPointInTimeRecovery | kSkipAnyCorruptedRecords

text \<open>
  \<open>r_file\<close> is what has not been read of the file; \<open>r_io\<close> are the outcomes of the next operations
  on it, \<open>Some k\<close> standing for a failure after \<open>k\<close> bytes. \<open>r_reports\<close> is what the reporter was told.
\<close>

record reader =
  r_file :: bytes
  r_io :: "nat option list"
  r_checksum :: bool
  r_buffer :: bytes
  r_eof :: bool
  r_read_error :: bool
  r_eof_offset :: nat
  r_last_record_offset :: nat
  r_end_of_buffer_offset :: nat
  r_initial_offset :: nat
  r_log_number :: u64
  r_recycled :: bool
  r_reporter :: bool
  r_reports :: "(nat \<times> string) list"

definition Reader :: "bytes \<Rightarrow> nat option list \<Rightarrow> bool \<Rightarrow> bool \<Rightarrow> nat \<Rightarrow> u64 \<Rightarrow> reader" where
  "Reader file io reporter checksum initial_offset log_num =
     \<lparr>r_file = file, r_io = io, r_checksum = checksum, r_buffer = [], r_eof = False, r_read_error = False, r_eof_offset = 0,
      r_last_record_offset = 0, r_end_of_buffer_offset = 0, r_initial_offset = initial_offset, r_log_number = log_num,
      r_recycled = False, r_reporter = reporter, r_reports = []\<rparr>"

text \<open>Reading up to \<open>n\<close> bytes and skipping \<open>n\<close> bytes: success, the bytes, the new state.\<close>

definition file_read :: "nat \<Rightarrow> reader \<Rightarrow> bool \<times> bytes \<times> reader" where
  "file_read n r = (case r_io r of
      Some k # io \<Rightarrow> (False, take (min k n) (r_file r), r\<lparr>r_file := drop (min k n) (r_file r), r_io := io\<rparr>)
    | None # io \<Rightarrow> (True, take n (r_file r), r\<lparr>r_file := drop n (r_file r), r_io := io\<rparr>)
    | [] \<Rightarrow> (True, take n (r_file r), r\<lparr>r_file := drop n (r_file r)\<rparr>))"

definition file_skip :: "nat \<Rightarrow> reader \<Rightarrow> bool \<times> reader" where
  "file_skip n r = (case file_read n r of (ok, data, r) \<Rightarrow> (ok, r))"

definition ReportDrop :: "nat \<Rightarrow> string \<Rightarrow> reader \<Rightarrow> reader" where
  "ReportDrop n reason r =
     (if r_reporter r \<and> r_initial_offset r \<le> sub64 (sub64 (r_end_of_buffer_offset r) (length (r_buffer r))) n
      then r\<lparr>r_reports := r_reports r @ [(n, reason)]\<rparr> else r)"

definition ReportCorruption :: "nat \<Rightarrow> string \<Rightarrow> reader \<Rightarrow> reader" where
  "ReportCorruption n reason r = ReportDrop n (''Corruption: '' @ reason) r"

definition SkipToInitialBlock :: "reader \<Rightarrow> bool \<times> reader" where
  "SkipToInitialBlock r =
     (let initial_offset_in_block = r_initial_offset r mod kBlockSize;
          block_start_location = r_initial_offset r - initial_offset_in_block;
          block_start_location = (if kBlockSize - 6 < initial_offset_in_block then add64 block_start_location kBlockSize else block_start_location);
          r = r\<lparr>r_end_of_buffer_offset := block_start_location\<rparr>
      in if 0 < block_start_location then
           case file_skip block_start_location r of (ok, r) \<Rightarrow>
             if ok then (True, r) else (False, ReportDrop block_start_location ''skip failed'' r)
         else (True, r))"

text \<open>\<open>ReadMore\<close>: success, else the amount dropped and the result to return.\<close>

definition ReadMore :: "reader \<Rightarrow> (nat \<times> nat) option \<times> reader" where
  "ReadMore r =
     (if \<not> r_eof r \<and> \<not> r_read_error r then
        case file_read kBlockSize (r\<lparr>r_buffer := []\<rparr>) of (ok, data, r) \<Rightarrow>
          let r = r\<lparr>r_buffer := data, r_end_of_buffer_offset := add64 (r_end_of_buffer_offset r) (length data)\<rparr> in
          if \<not> ok then (Some (0, kEof), (ReportDrop kBlockSize ''read failed'' (r\<lparr>r_buffer := []\<rparr>))\<lparr>r_read_error := True\<rparr>)
          else if length data < kBlockSize then (None, r\<lparr>r_eof := True, r_eof_offset := length data\<rparr>)
          else (None, r)
      else if r_buffer r \<noteq> [] then (Some (length (r_buffer r), kBadHeader), r\<lparr>r_buffer := []\<rparr>)
      else (Some (0, kEof), r\<lparr>r_buffer := []\<rparr>))"

lemma ReadMore_progress:
  assumes "ReadMore r = (None, r')"
  shows "length (r_file r') + (if r_eof r' \<or> r_read_error r' then 0 else 1) < length (r_file r) + (if r_eof r \<or> r_read_error r then 0 else (1::nat))"
proof -
  have b: "0 < kBlockSize" by (simp add: kBlockSize_def)
  have e: "\<not> r_eof r \<and> \<not> r_read_error r" using assms by (auto simp: ReadMore_def split: if_splits)
  obtain ok data r1 where f: "file_read kBlockSize (r\<lparr>r_buffer := []\<rparr>) = (ok, data, r1)" by (metis prod_cases3)
  have r1: "ok \<Longrightarrow> data = take kBlockSize (r_file r) \<and> r_file r1 = drop kBlockSize (r_file r) \<and> \<not> r_eof r1 \<and> \<not> r_read_error r1"
    using f e by (auto simp: file_read_def split: list.splits option.splits)
  show ?thesis using assms e f r1 b by (cases "length data < kBlockSize") (auto simp: ReadMore_def Let_def split: if_splits)
qed

text \<open>\<open>ReadPhysicalRecord\<close>: the result or the type of the record, its payload, and the amount dropped.\<close>

function ReadPhysicalRecord :: "hw \<Rightarrow> reader \<Rightarrow> (nat \<times> bytes \<times> nat) \<times> reader" where
  "ReadPhysicalRecord hw r =
     (if length (r_buffer r) < kHeaderSize then
        case ReadMore r of (Some (drop_size, e), r) \<Rightarrow> ((e, [], drop_size), r) | (None, r') \<Rightarrow> ReadPhysicalRecord hw r'
      else
        let header = r_buffer r;
            a = unat (header ! 4); b = unat (header ! 5);
            type = unat (scast (header ! 6) :: u32);
            len = a OR push_bit 8 b;
            recyclable = (kRecyclableFullType \<le> type \<and> type \<le> kRecyclableLastType);
            r = (if recyclable \<and> sub64 (r_end_of_buffer_offset r) (length (r_buffer r)) = 0 then r\<lparr>r_recycled := True\<rparr> else r);
            header_size = (if recyclable then kRecyclableHeaderSize else kHeaderSize)
        in if recyclable \<and> length (r_buffer r) < kRecyclableHeaderSize then
             case ReadMore r of (Some (drop_size, e), r) \<Rightarrow> ((e, [], drop_size), r) | (None, r') \<Rightarrow> ReadPhysicalRecord hw r'
           else if recyclable \<and> (ucast (DecodeFixed32 True (drop 7 header)) :: u64) \<noteq> r_log_number r then ((kOldRecord, [], 0), r)
           else if length (r_buffer r) < header_size + len then
             let drop_size = length (r_buffer r); r = r\<lparr>r_buffer := []\<rparr> in
             if \<not> r_eof r then ((kBadRecordLen, [], drop_size), r)
             else if drop_size \<noteq> 0 then ((kBadHeader, [], drop_size), r)
             else ((kEof, [], drop_size), r)
           else if type = kZeroType \<and> len = 0 then ((kBadRecord, [], 0), r\<lparr>r_buffer := []\<rparr>)
           else if r_checksum r \<and> Value hw 0 (take (len + header_size - 6) (drop 6 header)) \<noteq> Unmask (DecodeFixed32 True header) then
             ((kBadRecordChecksum, [], length (r_buffer r)), r\<lparr>r_buffer := []\<rparr>)
           else
             let r = r\<lparr>r_buffer := drop (header_size + len) (r_buffer r)\<rparr> in
             if sub64 (sub64 (sub64 (r_end_of_buffer_offset r) (length (r_buffer r))) header_size) len < r_initial_offset r then ((kBadRecord, [], 0), r)
             else ((type, take len (drop header_size header), 0), r))"
  by pat_completeness auto
termination
proof (relation "measure (\<lambda>(hw, r). length (r_file r) + (if r_eof r \<or> r_read_error r then 0 else 1))", goal_cases)
  case (3 hw r x xa xb xc xd xaa r1 xac xe r')
  then have "r_file r1 = r_file r \<and> r_eof r1 = r_eof r \<and> r_read_error r1 = r_read_error r" by (auto split: if_splits)
  moreover have "ReadMore r1 = (None, r')" using 3 by simp
  ultimately show ?case using ReadMore_progress [of r1 r'] by simp
qed (use ReadMore_progress in \<open>fastforce split: if_splits\<close>)+

declare ReadPhysicalRecord.simps [simp del]

text \<open>
  One round of the loop of \<open>ReadRecord\<close>: it returns, with a record or without, or goes on with the
  fragments collected so far, whether it is inside a record, and where that record began.
\<close>

datatype read_action =
  Return "bytes option" reader
| Continue bytes bool nat reader

definition record_action :: "WALRecoveryMode \<Rightarrow> bytes \<Rightarrow> bool \<Rightarrow> nat \<Rightarrow> nat \<Rightarrow> nat \<Rightarrow> bytes \<Rightarrow> nat \<Rightarrow> reader \<Rightarrow> read_action" where
  "record_action mode scratch in_fragmented_record prospective physical_record_offset record_type fragment drop_size r =
     (let middle = (\<lambda>r. if in_fragmented_record
           then Continue [] False prospective (ReportCorruption (length scratch) ''error in middle of record'' r)
           else Continue scratch in_fragmented_record prospective r);
          trailing = (\<lambda>r. Return None (if in_fragmented_record \<and> mode = kAbsoluteConsistency
           then ReportCorruption (length scratch) ''error reading trailing data'' r else r))
      in
      if record_type = kFullType \<or> record_type = kRecyclableFullType then
        let r = (if in_fragmented_record \<and> scratch \<noteq> [] then ReportCorruption (length scratch) ''partial record without end(1)'' r else r) in
        Return (Some fragment) (r\<lparr>r_last_record_offset := physical_record_offset\<rparr>)
      else if record_type = kFirstType \<or> record_type = kRecyclableFirstType then
        Continue fragment True physical_record_offset
          (if in_fragmented_record \<and> scratch \<noteq> [] then ReportCorruption (length scratch) ''partial record without end(2)'' r else r)
      else if record_type = kMiddleType \<or> record_type = kRecyclableMiddleType then
        if \<not> in_fragmented_record then
          Continue scratch in_fragmented_record prospective (ReportCorruption (length fragment) ''missing start of fragmented record(1)'' r)
        else Continue (scratch @ fragment) in_fragmented_record prospective r
      else if record_type = kLastType \<or> record_type = kRecyclableLastType then
        if \<not> in_fragmented_record then
          Continue scratch in_fragmented_record prospective (ReportCorruption (length fragment) ''missing start of fragmented record(2)'' r)
        else Return (Some (scratch @ fragment)) (r\<lparr>r_last_record_offset := prospective\<rparr>)
      else if record_type = kBadHeader then
        trailing (if mode = kAbsoluteConsistency then ReportCorruption drop_size ''truncated header'' r else r)
      else if record_type = kEof then trailing r
      else if record_type = kOldRecord \<and> mode \<noteq> kSkipAnyCorruptedRecords then trailing r
      else if record_type = kOldRecord \<or> record_type = kBadRecord then middle r
      else if record_type = kBadRecordLen \<or> record_type = kBadRecordChecksum then
        if r_recycled r \<and> mode = kTolerateCorruptedTailRecords then Return None r
        else middle (ReportCorruption drop_size
          (if record_type = kBadRecordLen then ''bad record length'' else ''checksum mismatch'') r)
      else Continue [] False prospective
        (ReportCorruption (length fragment + (if in_fragmented_record then length scratch else 0)) ''unknown record type'' r))"

partial_function (option) ReadRecord_loop :: "hw \<Rightarrow> WALRecoveryMode \<Rightarrow> bytes \<Rightarrow> bool \<Rightarrow> nat \<Rightarrow> reader \<Rightarrow> (bytes option \<times> reader) option" where
  "ReadRecord_loop hw mode scratch in_fragmented_record prospective r =
     (case ReadPhysicalRecord hw r of ((record_type, fragment, drop_size), r') \<Rightarrow>
        case record_action mode scratch in_fragmented_record prospective
               (sub64 (r_end_of_buffer_offset r) (length (r_buffer r))) record_type fragment drop_size r' of
          Return res r'' \<Rightarrow> Some (res, r'')
        | Continue scratch in_fragmented_record prospective r'' \<Rightarrow> ReadRecord_loop hw mode scratch in_fragmented_record prospective r'')"

definition ReadRecord :: "hw \<Rightarrow> WALRecoveryMode \<Rightarrow> reader \<Rightarrow> (bytes option \<times> reader) option" where
  "ReadRecord hw wal_recovery_mode r =
     (case (if r_last_record_offset r < r_initial_offset r then SkipToInitialBlock r else (True, r)) of
        (False, r) \<Rightarrow> Some (None, r)
      | (True, r) \<Rightarrow> ReadRecord_loop hw wal_recovery_mode [] False 0 r)"

text \<open>
  Going on after the end of the file, when more has been written: the rest of the block is
  read behind what is left of the buffer.
\<close>

definition UnmarkEOF :: "reader \<Rightarrow> reader" where
  "UnmarkEOF r =
     (if r_read_error r then r
      else let r = r\<lparr>r_eof := False\<rparr> in
        if r_eof_offset r = 0 then r
        else let remaining = kBlockSize - r_eof_offset r in
          case file_read remaining r of (ok, read_buffer, r) \<Rightarrow>
            let added = length read_buffer;
                r = r\<lparr>r_end_of_buffer_offset := add64 (r_end_of_buffer_offset r) added\<rparr>
            in if \<not> ok then
                 (if 0 < added then ReportDrop added ''read failed'' r else r)\<lparr>r_read_error := True\<rparr>
               else let r = r\<lparr>r_buffer := r_buffer r @ read_buffer\<rparr> in
                 if added < remaining then r\<lparr>r_eof := True, r_eof_offset := r_eof_offset r + added\<rparr>
                 else r\<lparr>r_eof_offset := 0\<rparr>)"

end
