(* ===== verification/Log_Correct.thy ===== *)
theory Log_Correct
  imports Log_Format "HOL-Library.Sublist"
begin

text \<open>
  The log survives a crash: whatever part of the file has reached the disk, reading it returns the
  records written first, in order and unchanged, and then stops without a complaint. The proof
  follows the writer: \<open>before r s n\<close> says that reader \<open>r\<close> has the bytes \<open>s\<close> in front of it at offset \<open>n\<close>
  of a block, and each fragment the writer emits moves it on.
\<close>

section \<open>Logs as lists of records\<close>

primrec write_all :: "hw \<Rightarrow> writer \<Rightarrow> bytes list \<Rightarrow> writer option" where
  "write_all hw w [] = Some w"
| "write_all hw w (x # xs) = (case AddRecord hw x w of Some (True, w') \<Rightarrow> write_all hw w' xs | _ \<Rightarrow> None)"

text \<open>Reading until there are no more records; \<open>None\<close> if a call does not return or more than \<open>n\<close> are needed.\<close>

primrec read_all :: "hw \<Rightarrow> WALRecoveryMode \<Rightarrow> nat \<Rightarrow> reader \<Rightarrow> (bytes list \<times> reader) option" where
  "read_all hw mode 0 r = None"
| "read_all hw mode (Suc n) r =
     (case ReadRecord hw mode r of
        None \<Rightarrow> None
      | Some (None, r') \<Rightarrow> Some ([], r')
      | Some (Some x, r') \<Rightarrow> (case read_all hw mode n r' of None \<Rightarrow> None | Some (xs, r'') \<Rightarrow> Some (x # xs, r'')))"

section \<open>A physical record\<close>

definition number :: "bool \<Rightarrow> u64 \<Rightarrow> bytes" where
  "number rc ln = (if rc then le_bytes 4 (unat (ucast ln :: u32)) else [])"

definition phys :: "bool \<Rightarrow> u64 \<Rightarrow> nat \<Rightarrow> bytes \<Rightarrow> bytes" where
  "phys rc ln t data =
     le_bytes 4 (unat (Mask (crc32c_ref 0 (of_nat t # number rc ln @ data)))) @
     [of_nat (length data) AND 0xff, of_nat (drop_bit 8 (length data)), of_nat t] @ number rc ln @ data"

definition hsize :: "bool \<Rightarrow> nat" where
  "hsize rc = (if rc then 11 else 7)"

definition valid_type :: "bool \<Rightarrow> nat \<Rightarrow> bool" where
  "valid_type rc t \<longleftrightarrow> (if rc then 5 \<le> t \<and> t \<le> 8 else 1 \<le> t \<and> t \<le> 4)"

lemma length_number [simp]: "length (number rc ln) = hsize rc - 7"
  by (simp add: number_def hsize_def)

lemma length_phys [simp]: "length (phys rc ln t data) = hsize rc + length data"
  by (simp add: phys_def hsize_def)

lemma header_size_hsize [simp]: "header_size_of w = hsize (w_recycle w)"
  by (simp add: header_size_of_def hsize_def)

text \<open>The writer emits physical records, when the file operations succeed.\<close>

definition type_crcs :: "hw \<Rightarrow> u32 list" where
  "type_crcs hw = map (\<lambda>i. Value hw 0 [of_nat i]) [0..<kMaxRecordType + 1]"

lemma emit_phys:
  assumes "hw_valid hw" "w_io w = []" "w_type_crc w = type_crcs hw" "valid_type (w_recycle w) t"
    "w_block_offset w + hsize (w_recycle w) + length data \<le> kBlockSize"
  shows "EmitPhysicalRecord hw t data w = Some (True,
    w\<lparr>w_dest := w_dest w @ phys (w_recycle w) (w_log_number w) t data, w_block_offset := w_block_offset w + hsize (w_recycle w) + length data\<rparr>)"
proof -
  have "t < 9" using assms(4) by (auto simp: valid_type_def split: if_splits)
  then have crc: "w_type_crc w ! t = crc32c_ref 0 [of_nat t]"
    using assms(1) by (simp add: assms(3) type_crcs_def Value_ref del: upt_Suc)
  have "length data \<le> 65535" using assms(5) by (simp add: kBlockSize_def)
  then show ?thesis using assms crc
    by (auto simp: EmitPhysicalRecord_def Let_def file_append_def file_flush_def Extend_ref crc32c_ref_append phys_def number_def hsize_def valid_type_def)
qed

text \<open>Reading one back from the buffer.\<close>

lemma byte_pair: "n < 65536 \<Longrightarrow> unat ((of_nat n :: u8) AND 0xff) OR push_bit 8 (unat (of_nat (drop_bit 8 n) :: u8)) = n"
proof -
  assume n: "n < 65536"
  have "(0xff :: u8) = - 1" by simp
  then have "(of_nat n :: u8) AND 0xff = of_nat n" by (simp only: and.right_neutral)
  then have lo: "unat ((of_nat n :: u8) AND 0xff) = take_bit 8 n" by (simp add: unat_of_nat take_bit_eq_mod)
  have "drop_bit 8 n < 256" using n by (simp add: drop_bit_eq_div)
  then have hi: "unat (of_nat (drop_bit 8 n) :: u8) = drop_bit 8 n" by (simp add: unat_of_nat)
  have "take_bit 8 n OR push_bit 8 (drop_bit 8 n) = n"
  proof (rule bit_eqI)
    show "bit (take_bit 8 n OR push_bit 8 (drop_bit 8 n)) i \<longleftrightarrow> bit n i" for i
      by (cases "i < 8") (simp_all add: bit_simps)
  qed
  then show ?thesis unfolding lo hi .
qed

lemma type_byte: "t \<le> 8 \<Longrightarrow> unat (scast (of_nat t :: u8) :: u32) = t"
proof -
  assume "t \<le> 8"
  then consider "t = 0" | "t = 1" | "t = 2" | "t = 3" | "t = 4" | "t = 5" | "t = 6" | "t = 7" | "t = 8" by linarith
  then show ?thesis by cases simp_all
qed

lemma phys_parts:
  assumes "buf = phys rc ln t data @ rest"
  shows "buf ! 4 = of_nat (length data) AND 0xff" "buf ! 5 = of_nat (drop_bit 8 (length data))" "buf ! 6 = of_nat t"
    "drop 6 buf = of_nat t # number rc ln @ data @ rest" "drop 7 buf = number rc ln @ data @ rest"
    "take 4 buf = le_bytes 4 (unat (Mask (crc32c_ref 0 (of_nat t # number rc ln @ data))))"
    "drop (hsize rc) buf = data @ rest"
proof -
  define c where "c = le_bytes 4 (unat (Mask (crc32c_ref 0 (of_nat t # number rc ln @ data))))"
  have "length c = 4" by (simp add: c_def)
  then obtain c0 c1 c2 c3 where c4: "c = [c0, c1, c2, c3]" by (metis (no_types) take_4 order_refl take_all)
  have b: "buf = c0 # c1 # c2 # c3 # (of_nat (length data) AND 0xff) # of_nat (drop_bit 8 (length data)) # of_nat t # number rc ln @ data @ rest"
    using assms c4 unfolding phys_def c_def by simp
  then have "drop 7 buf = number rc ln @ data @ rest" by simp
  then have "drop (hsize rc - 7) (drop 7 buf) = data @ rest" by simp
  moreover have "hsize rc = hsize rc - 7 + 7" by (simp add: hsize_def)
  ultimately show "drop (hsize rc) buf = data @ rest" by (metis drop_drop)
  show "take 4 buf = le_bytes 4 (unat (Mask (crc32c_ref 0 (of_nat t # number rc ln @ data))))"
    unfolding c_def [symmetric] c4 b by simp
qed (simp_all add: assms phys_def le_bytes_unfold)

section \<open>Reading a physical record\<close>

lemma append_longer: "xs @ ys = us @ vs \<Longrightarrow> length us \<le> length xs \<Longrightarrow> \<exists>r. xs = us @ r \<and> r @ ys = vs"
  by (metis append_eq_append_conv_if append_take_drop_id)

text \<open>What happens once seven bytes of a header are there.\<close>

lemma read_header:
  assumes "7 \<le> length (r_buffer r)" "unat (scast (r_buffer r ! 6) :: u32) = t" "(5 \<le> t \<and> t \<le> 8) = rc" "t \<noteq> 0"
    "unat (r_buffer r ! 4) OR push_bit 8 (unat (r_buffer r ! 5)) = n"
  shows "\<exists>b. ReadPhysicalRecord hw r =
     (let q = r\<lparr>r_recycled := b\<rparr>; buf = r_buffer r in
      if rc \<and> length buf < 11 then (case ReadMore q of (Some (d, e), q) \<Rightarrow> ((e, [], d), q) | (None, q) \<Rightarrow> ReadPhysicalRecord hw q)
      else if rc \<and> (ucast (DecodeFixed32 True (drop 7 buf)) :: u64) \<noteq> r_log_number r then ((kOldRecord, [], 0), q)
      else if length buf < hsize rc + n then
        (if \<not> r_eof r then ((kBadRecordLen, [], length buf), q\<lparr>r_buffer := []\<rparr>)
         else if length buf \<noteq> 0 then ((kBadHeader, [], length buf), q\<lparr>r_buffer := []\<rparr>)
         else ((kEof, [], length buf), q\<lparr>r_buffer := []\<rparr>))
      else if r_checksum r \<and> Value hw 0 (take (n + hsize rc - 6) (drop 6 buf)) \<noteq> Unmask (DecodeFixed32 True buf) then
        ((kBadRecordChecksum, [], length buf), q\<lparr>r_buffer := []\<rparr>)
      else let q = q\<lparr>r_buffer := drop (hsize rc + n) buf\<rparr> in
        if sub64 (sub64 (sub64 (r_end_of_buffer_offset q) (length (r_buffer q))) (hsize rc)) n < r_initial_offset q then ((kBadRecord, [], 0), q)
        else ((t, take n (drop (hsize rc) buf), 0), q))"
proof -
  define b where "b = (rc \<and> sub64 (r_end_of_buffer_offset r) (length (r_buffer r)) = 0 \<or> r_recycled r)"
  have b: "(if rc \<and> sub64 (r_end_of_buffer_offset r) (length (r_buffer r)) = 0 then r\<lparr>r_recycled := True\<rparr> else r) = r\<lparr>r_recycled := b\<rparr>"
    by (cases "rc \<and> sub64 (r_end_of_buffer_offset r) (length (r_buffer r)) = 0") (auto simp: b_def)
  have c: "length (r_buffer r) < 7 \<longleftrightarrow> False" "t = 0 \<longleftrightarrow> False" using assms(1,4) by simp_all
  have k: "kHeaderSize = 7" "kRecyclableHeaderSize = 11" "kRecyclableFullType = 5" "kRecyclableLastType = 8" "kZeroType = 0" by simp_all
  have sel: "r_buffer (r\<lparr>r_recycled := b\<rparr>) = r_buffer r" "r_log_number (r\<lparr>r_recycled := b\<rparr>) = r_log_number r"
    "r_checksum (r\<lparr>r_recycled := b\<rparr>) = r_checksum r" "r_eof (r\<lparr>r_recycled := b, r_buffer := x\<rparr>) = r_eof r" for x by simp_all
  show ?thesis
    unfolding ReadPhysicalRecord.simps [of hw r] Let_def assms(2,5) k c(1) if_False assms(3) b
    unfolding hsize_def [symmetric] sel c(2) simp_thms if_False
    by (intro exI [of _ b] refl)
qed

locale log_file =
  fixes hw :: hw and rc :: bool and ln :: u64 and mode :: WALRecoveryMode
  assumes hw: "hw_valid hw"
    and ln: "rc \<Longrightarrow> unat ln < 2 ^ 32"
    and mode: "mode \<noteq> kAbsoluteConsistency"
begin

definition ready :: "reader \<Rightarrow> bool" where
  "ready r \<longleftrightarrow> r_io r = [] \<and> \<not> r_read_error r \<and> r_initial_offset r = 0 \<and> r_log_number r = ln"

definition before :: "reader \<Rightarrow> bytes \<Rightarrow> nat \<Rightarrow> bool" where
  "before r s n \<longleftrightarrow> ready r \<and> r_buffer r @ r_file r = s \<and> n \<le> kBlockSize \<and>
     (if r_eof r then r_file r = [] \<and> n + length (r_buffer r) < kBlockSize
      else n + length (r_buffer r) = kBlockSize \<or> n = 0 \<and> r_buffer r = [])"

lemma log_number_small: "rc \<Longrightarrow> (ucast (ucast ln :: u32) :: u64) = ln"
  using ln by (simp add: word_unat_eq_iff unsigned_ucast_eq unsigned_take_bit_eq take_bit_nat_eq_self)

lemma number_decode: "rc \<Longrightarrow> (ucast (DecodeFixed32 True (number rc ln @ rest)) :: u64) = ln"
  using unsigned_less [of "ucast ln :: u32", where ?'a = nat]
  by (simp add: number_def le_value_exact log_number_small)

text \<open>A record that is in the buffer completely.\<close>

lemma read_buffered:
  assumes "ready r" "r_buffer r = phys rc ln t data @ rest" "valid_type rc t" "length data < 65536"
  shows "\<exists>b. ReadPhysicalRecord hw r = ((t, data, 0), r\<lparr>r_buffer := rest, r_recycled := b\<rparr>)"
proof -
  note p = phys_parts [OF assms(2)]
  have len: "length (r_buffer r) = hsize rc + length data + length rest" by (simp add: assms(2))
  have t: "unat (scast (r_buffer r ! 6) :: u32) = t" using type_byte assms(3) by (simp add: p(3) valid_type_def split: if_splits)
  have n: "unat (r_buffer r ! 4) OR push_bit 8 (unat (r_buffer r ! 5)) = length data" unfolding p by (rule byte_pair [OF assms(4)])
  have rec: "(5 \<le> t \<and> t \<le> 8) = rc" "t \<noteq> 0" using assms(3) by (auto simp: valid_type_def split: if_splits)
  have "take (length data + hsize rc - 6) (drop 6 (r_buffer r)) = of_nat t # number rc ln @ data"
    unfolding p by (simp add: hsize_def take_Cons' number_def)
  moreover have l7: "7 \<le> length (r_buffer r)" using len by (simp add: hsize_def split: if_splits)
  then have "Unmask (DecodeFixed32 True (r_buffer r)) = crc32c_ref 0 (of_nat t # number rc ln @ data)"
    using unsigned_less [of "Mask (crc32c_ref 0 (of_nat t # number rc ln @ data))", where ?'a = nat] by (simp add: p(6) le_value_exact)
  ultimately have crc: "Value hw 0 (take (length data + hsize rc - 6) (drop 6 (r_buffer r))) = Unmask (DecodeFixed32 True (r_buffer r))"
    using hw by (simp add: Value_ref)
  have num: "rc \<Longrightarrow> (ucast (DecodeFixed32 True (drop 7 (r_buffer r))) :: u64) = r_log_number r"
    using assms(1) number_decode by (simp add: p(5) ready_def)
  have d: "drop (hsize rc + length data) (r_buffer r) = rest" "take (length data) (drop (hsize rc) (r_buffer r)) = data"
    using p(7) by (simp_all add: assms(2))
  have i: "r_initial_offset r = 0" using assms(1) by (simp add: ready_def)
  have c: "rc \<and> length (r_buffer r) < 11 \<longleftrightarrow> False" "length (r_buffer r) < hsize rc + length data \<longleftrightarrow> False"
    "rc \<and> (ucast (DecodeFixed32 True (drop 7 (r_buffer r))) :: u64) \<noteq> r_log_number r \<longleftrightarrow> False"
    using len num by (simp_all add: hsize_def)
  obtain b where "ReadPhysicalRecord hw r = ((t, data, 0), r\<lparr>r_recycled := b, r_buffer := rest\<rparr>)"
    using read_header [OF l7 t rec n, of hw] unfolding Let_def c crc d simp_thms if_False by (auto simp: i)
  then show ?thesis by (intro exI [of _ b]) simp
qed

text \<open>The next block comes into the buffer.\<close>

definition loaded :: "reader \<Rightarrow> nat \<Rightarrow> bool" where
  "loaded r n \<longleftrightarrow> r_eof r \<or> n + length (r_buffer r) = kBlockSize"

lemma load_block:
  assumes "ready r" "\<not> r_eof r"
  shows "\<exists>r'. ReadMore r = (None, r') \<and> before r' (r_file r) 0 \<and> loaded r' 0 \<and> r_reports r' = r_reports r"
proof -
  have e: "min (length (r_file r)) kBlockSize < kBlockSize \<longleftrightarrow> length (r_file r) < kBlockSize" by (simp add: min_def)
  show ?thesis using assms
    by (cases "length (r_file r) < kBlockSize") (auto simp: ReadMore_def file_read_def ready_def before_def loaded_def Let_def e)
qed

lemma read_short:
  "length (r_buffer r) < 7 \<Longrightarrow> ReadMore r = (None, r') \<Longrightarrow> ReadPhysicalRecord hw r = ReadPhysicalRecord hw r'"
  by (subst ReadPhysicalRecord.simps) simp

lemma read_zeros:
  assumes "r_buffer r = replicate l 0" "7 \<le> l"
  shows "ReadPhysicalRecord hw r = ((kBadRecord, [], 0), r\<lparr>r_buffer := []\<rparr>)"
proof -
  have n: "replicate l (0 :: u8) ! 4 = 0" "replicate l (0 :: u8) ! 5 = 0" "replicate l (0 :: u8) ! 6 = 0" using assms(2) by simp_all
  show ?thesis using assms(2) by (subst ReadPhysicalRecord.simps) (simp add: assms(1) n Let_def)
qed

lemma read_at_end:
  assumes "r_eof r" "length (r_buffer r) < 7"
  shows "\<exists>e d. ReadPhysicalRecord hw r = ((e, [], d), r\<lparr>r_buffer := []\<rparr>) \<and> e \<in> {kEof, kBadHeader}"
  using assms by (subst ReadPhysicalRecord.simps) (auto simp: ReadMore_def)

text \<open>The zeros that fill a block in which no header fits, and the offset behind them.\<close>

definition filler :: "nat \<Rightarrow> bytes" where
  "filler n = (if kBlockSize - n < hsize rc then replicate (kBlockSize - n) 0 else [])"

definition start :: "nat \<Rightarrow> nat" where
  "start n = (if kBlockSize - n < hsize rc then 0 else n)"

lemma before_filler:
  assumes "before r (filler n @ s) n" "kBlockSize - n < hsize rc"
  shows "\<not> r_eof r" "r_buffer r = replicate (kBlockSize - n) 0" "r_file r = s"
proof -
  have n: "0 < n" "n \<le> kBlockSize" using assms by (auto simp: before_def hsize_def kBlockSize_def split: if_splits)
  have st: "r_buffer r @ r_file r = replicate (kBlockSize - n) 0 @ s" using assms by (simp add: before_def filler_def)
  show e: "\<not> r_eof r"
  proof
    assume "r_eof r"
    then have "r_file r = []" "n + length (r_buffer r) < kBlockSize" using assms(1) by (simp_all add: before_def)
    then have "r_buffer r = replicate (kBlockSize - n) 0 @ s" using st by simp
    then have "kBlockSize - n \<le> length (r_buffer r)" by simp
    then show False using \<open>n + length (r_buffer r) < kBlockSize\<close> by simp
  qed
  then have "n + length (r_buffer r) = kBlockSize" using assms(1) n(1) by (auto simp: before_def)
  then have "length (r_buffer r) = length (replicate (kBlockSize - n) (0 :: u8))" by simp
  then show "r_buffer r = replicate (kBlockSize - n) 0" "r_file r = s" using st by simp_all
qed

lemma reach_start:
  assumes "before r (filler n @ s) n"
  shows "\<exists>r'. before r' s (start n) \<and> r_reports r' = r_reports r \<and>
    (ReadPhysicalRecord hw r = ReadPhysicalRecord hw r' \<and> loaded r' (start n) \<or>
     filler n \<noteq> [] \<and> ReadPhysicalRecord hw r = ((kBadRecord, [], 0), r'))"
proof (cases "kBlockSize - n < hsize rc")
  case True
  note b = before_filler [OF assms True]
  have rd: "ready r" using assms by (simp add: before_def)
  show ?thesis
  proof (cases "kBlockSize - n < 7")
    case short: True
    obtain r' where "ReadMore r = (None, r')" "before r' s 0" "loaded r' 0" "r_reports r' = r_reports r"
      using load_block [OF rd b(1)] b(3) by auto
    then show ?thesis using read_short [of r r'] short b(2) True by (auto simp: start_def)
  next
    case False
    then have "ReadPhysicalRecord hw r = ((kBadRecord, [], 0), r\<lparr>r_buffer := []\<rparr>)" using read_zeros b(2) by simp
    moreover have "before (r\<lparr>r_buffer := []\<rparr>) s 0" using b rd by (simp add: before_def ready_def)
    moreover have "filler n \<noteq> []" using False True by (auto simp: filler_def)
    ultimately show ?thesis using True by (intro exI [of _ "r\<lparr>r_buffer := []\<rparr>"]) (simp add: start_def)
  qed
next
  case False
  then have s: "start n = n" "before r s n" using assms by (simp_all add: start_def filler_def)
  show ?thesis
  proof (cases "loaded r n")
    case True
    then show ?thesis using s by auto
  next
    case nl: False
    then have z: "n = 0" "r_buffer r = []" "\<not> r_eof r" "ready r" "r_file r = s" using s(2) by (auto simp: before_def loaded_def split: if_splits)
    obtain r' where "ReadMore r = (None, r')" "before r' s 0" "loaded r' 0" "r_reports r' = r_reports r"
      using load_block [OF z(4,3)] z(5) by auto
    then show ?thesis using read_short [of r r'] z(1,2) s(1) by auto
  qed
qed

lemma read_complete:
  assumes "before r (phys rc ln t data @ s) n" "loaded r n" "n + hsize rc + length data \<le> kBlockSize" "valid_type rc t"
  shows "\<exists>r'. ReadPhysicalRecord hw r = ((t, data, 0), r') \<and> before r' s (n + hsize rc + length data) \<and> r_reports r' = r_reports r"
proof -
  have rd: "ready r" and st: "r_buffer r @ r_file r = phys rc ln t data @ s" using assms(1) by (simp_all add: before_def)
  have "length (phys rc ln t data) \<le> length (r_buffer r)"
  proof (cases "r_eof r")
    case True
    then have "r_buffer r = phys rc ln t data @ s" using assms(1) st by (simp add: before_def)
    then show ?thesis by simp
  qed (use assms(2,3) in \<open>simp add: loaded_def\<close>)
  then obtain rest where b: "r_buffer r = phys rc ln t data @ rest" "rest @ r_file r = s"
    using st append_longer [of "r_buffer r" "r_file r" "phys rc ln t data" s] by blast
  have "length data < 65536" using assms(3) by (simp add: kBlockSize_def)
  then obtain v where "ReadPhysicalRecord hw r = ((t, data, 0), r\<lparr>r_buffer := rest, r_recycled := v\<rparr>)"
    using read_buffered [OF rd b(1) assms(4)] by blast
  moreover have "before (r\<lparr>r_buffer := rest, r_recycled := v\<rparr>) s (n + hsize rc + length data)"
    using assms b rd by (auto simp: before_def ready_def loaded_def split: if_splits)
  ultimately show ?thesis by simp
qed

text \<open>A record of which only a beginning is there.\<close>

lemma read_partial:
  assumes "before r s n" "loaded r n" "strict_prefix s (phys rc ln t data)" "n + hsize rc + length data \<le> kBlockSize" "valid_type rc t"
  shows "\<exists>e d r'. ReadPhysicalRecord hw r = ((e, [], d), r') \<and> e \<in> {kEof, kBadHeader} \<and> r_reports r' = r_reports r"
proof -
  have l: "length s < hsize rc + length data" using prefix_length_less [OF assms(3)] by simp
  have eof: "r_eof r"
  proof (rule ccontr)
    assume "\<not> r_eof r"
    then have "n + length (r_buffer r) = kBlockSize" using assms(2) by (simp add: loaded_def)
    moreover have "length (r_buffer r) \<le> length s" using assms(1) by (auto simp: before_def)
    ultimately show False using l assms(4) by simp
  qed
  then have buf: "r_buffer r = s" and rd: "ready r" using assms(1) by (auto simp: before_def)
  show ?thesis
  proof (cases "length s < 7")
    case True
    then show ?thesis using read_at_end [OF eof] buf by fastforce
  next
    case False
    obtain u where u: "phys rc ln t data = s @ u" using assms(3) by (auto simp: strict_prefix_def prefix_def)
    note p = phys_parts [of "phys rc ln t data" rc ln t data "[]"]
    have nth: "s ! 4 = phys rc ln t data ! 4" "s ! 5 = phys rc ln t data ! 5" "s ! 6 = phys rc ln t data ! 6" using False by (simp_all add: u nth_append)
    have ty: "unat (scast (s ! 6) :: u32) = t" using type_byte assms(5) p(3) by (simp add: nth valid_type_def split: if_splits)
    have "length data < 65536" using assms(4) by (simp add: kBlockSize_def)
    then have n: "unat (s ! 4) OR push_bit 8 (unat (s ! 5)) = length data" unfolding nth p(1,2) [simplified] by (rule byte_pair)
    have rec: "(5 \<le> t \<and> t \<le> 8) = rc" using assms(5) by (auto simp: valid_type_def split: if_splits)
    have num: "(ucast (DecodeFixed32 True (drop 7 s)) :: u64) = r_log_number r" if rl: "rc" "11 \<le> length s"
    proof -
      have "drop 7 s @ u = number rc ln @ data" using p(5) False by (simp add: u)
      moreover have "length (number rc ln) \<le> length (drop 7 s)" using rl by (simp add: hsize_def)
      ultimately obtain q where "drop 7 s = number rc ln @ q" using append_longer by blast
      then show ?thesis using number_decode [OF rl(1)] rd by (simp add: ready_def)
    qed
    have h: "7 \<le> length (r_buffer r)" "t \<noteq> 0" using False buf assms(5) by (auto simp: valid_type_def split: if_splits)
    note hd = read_header [OF h(1) ty [folded buf] rec h(2) n [folded buf], of hw, unfolded Let_def buf]
    have ne: "length s \<noteq> 0 \<longleftrightarrow> True" "length s < hsize rc + length data \<longleftrightarrow> True" "\<not> r_eof r \<longleftrightarrow> False" using False l eof by auto
    show ?thesis
    proof (cases "rc \<and> length s < 11")
      case True
      have "ReadMore (r\<lparr>r_recycled := b\<rparr>) = (Some (length s, kBadHeader), r\<lparr>r_recycled := b, r_buffer := []\<rparr>)" for b
        using eof buf False by (auto simp: ReadMore_def)
      then show ?thesis using hd True by auto
    next
      case notshort: False
      then have "rc \<and> (ucast (DecodeFixed32 True (drop 7 s)) :: u64) \<noteq> r_log_number r \<longleftrightarrow> False" using num by auto
      note hd [unfolded this ne if_True if_False]
      then show ?thesis using notshort by auto
    qed
  qed
qed

section \<open>Reading the fragments of a record\<close>

lemma loop_stop:
  "ReadPhysicalRecord hw r = ((e, [], d), r') \<Longrightarrow> e \<in> {kEof, kBadHeader} \<Longrightarrow> ReadRecord_loop hw mode scratch frag pros r = Some (None, r')"
  using mode by (subst ReadRecord_loop.simps) (auto simp: record_action_def)

lemma loop_skip:
  "ReadPhysicalRecord hw r = ((kBadRecord, [], 0), r') \<Longrightarrow> ReadRecord_loop hw mode scratch False pros r = ReadRecord_loop hw mode scratch False pros r'"
  by (subst ReadRecord_loop.simps) (simp add: record_action_def)

abbreviation acted :: "read_action \<Rightarrow> (bytes option \<times> reader) option" where
  "acted act \<equiv> (case act of Return res q \<Rightarrow> Some (res, q) | Continue a b c q \<Rightarrow> ReadRecord_loop hw mode a b c q)"

lemma no_filler: "n + hsize rc \<le> kBlockSize \<Longrightarrow> filler n = [] \<and> start n = n"
  by (auto simp: filler_def start_def)

lemma start_fits: "n \<le> kBlockSize \<Longrightarrow> start n + hsize rc \<le> kBlockSize"
  by (auto simp: start_def hsize_def kBlockSize_def)

lemma read_next:
  assumes "before r (phys rc ln t data @ u) n" "n + hsize rc + length data \<le> kBlockSize" "valid_type rc t"
  shows "\<exists>r'. ReadPhysicalRecord hw r = ((t, data, 0), r') \<and> before r' u (n + hsize rc + length data) \<and> r_reports r' = r_reports r"
proof -
  have nf: "filler n = []" "start n = n" using no_filler [of n] assms(2) by simp_all
  obtain r1 where r1: "before r1 (phys rc ln t data @ u) n" "r_reports r1 = r_reports r" "ReadPhysicalRecord hw r = ReadPhysicalRecord hw r1" "loaded r1 n"
    using reach_start [of r n "phys rc ln t data @ u"] assms(1) nf by auto
  show ?thesis using read_complete [OF r1(1,4) assms(2,3)] r1(2,3) by simp
qed

lemma loop_record:
  "ReadPhysicalRecord hw r = ((t, data, d), r') \<Longrightarrow>
   \<exists>off. ReadRecord_loop hw mode scratch frag pros r = acted (record_action mode scratch frag pros off t data d r')"
  by (intro exI, subst ReadRecord_loop.simps) simp

lemma loop_complete:
  assumes "before r (filler n @ phys rc ln t data @ u) n" "start n + hsize rc + length data \<le> kBlockSize" "valid_type rc t" "frag \<Longrightarrow> filler n = []"
  shows "\<exists>r' off. before r' u (start n + hsize rc + length data) \<and> r_reports r' = r_reports r \<and>
    ReadRecord_loop hw mode scratch frag pros r = acted (record_action mode scratch frag pros off t data 0 r')"
proof -
  obtain r1 where r1: "before r1 (phys rc ln t data @ u) (start n)" "r_reports r1 = r_reports r"
      "ReadPhysicalRecord hw r = ReadPhysicalRecord hw r1 \<or> filler n \<noteq> [] \<and> ReadPhysicalRecord hw r = ((kBadRecord, [], 0), r1)"
    using reach_start [OF assms(1)] by auto
  obtain r' where r': "ReadPhysicalRecord hw r1 = ((t, data, 0), r')" "before r' u (start n + hsize rc + length data)" "r_reports r' = r_reports r1"
    using read_next [OF r1(1) assms(2,3)] by blast
  obtain q where q: "ReadRecord_loop hw mode scratch frag pros r = ReadRecord_loop hw mode scratch frag pros q" "ReadPhysicalRecord hw q = ((t, data, 0), r')"
    using r1(3) r'(1) loop_skip [of r r1 scratch pros] assms(4) by (cases frag) auto
  show ?thesis using q loop_record [OF q(2), of scratch frag pros] r'(2,3) r1(2) by auto
qed

text \<open>When the file ends inside the filler or the physical record, the reader stops.\<close>

lemma partial_filler:
  assumes "before r s n" "strict_prefix s (filler n)" "\<not> frag"
  shows "\<exists>r'. ReadRecord_loop hw mode scratch frag pros r = Some (None, r') \<and> r_reports r' = r_reports r"
proof -
  have f: "filler n = replicate (kBlockSize - n) 0" "kBlockSize - n < hsize rc" using assms(2) by (auto simp: filler_def split: if_splits)
  define j where "j = length s"
  obtain v where "filler n = s @ v" using assms(2) by (auto simp: strict_prefix_def prefix_def)
  then have "s = take j (filler n)" by (simp add: j_def)
  moreover have j: "j < kBlockSize - n" using prefix_length_less [OF assms(2)] f(1) by (simp add: j_def)
  ultimately have s: "s = replicate j 0" "j < kBlockSize - n" by (simp_all add: f(1) min_def)
  have eof: "r_eof r"
  proof (rule ccontr)
    assume "\<not> r_eof r"
    then have "n + length (r_buffer r) = kBlockSize \<or> n = 0" using assms(1) by (auto simp: before_def)
    moreover have "length (r_buffer r) \<le> j" using assms(1) s by (auto simp: before_def dest: arg_cong [of _ _ length])
    ultimately show False using s f(2) by (auto simp: hsize_def kBlockSize_def split: if_splits)
  qed
  then have buf: "r_buffer r = replicate j 0" using assms(1) s by (auto simp: before_def)
  show ?thesis
  proof (cases "j < 7")
    case True
    then show ?thesis using read_at_end [OF eof] buf loop_stop by fastforce
  next
    case False
    then have "ReadRecord_loop hw mode scratch frag pros r = ReadRecord_loop hw mode scratch frag pros (r\<lparr>r_buffer := []\<rparr>)"
      using read_zeros [OF buf] loop_skip assms(3) by simp
    moreover obtain e d where "ReadPhysicalRecord hw (r\<lparr>r_buffer := []\<rparr>) = ((e, [], d), r\<lparr>r_buffer := []\<rparr>)" "e \<in> {kEof, kBadHeader}"
      using read_at_end [of "r\<lparr>r_buffer := []\<rparr>"] eof by auto
    ultimately show ?thesis using loop_stop by simp
  qed
qed

lemma loop_partial:
  assumes "before r s n" "strict_prefix s (filler n @ phys rc ln t data)" "start n + hsize rc + length data \<le> kBlockSize" "valid_type rc t"
    "frag \<Longrightarrow> filler n = []"
  shows "\<exists>r'. ReadRecord_loop hw mode scratch frag pros r = Some (None, r') \<and> r_reports r' = r_reports r"
proof (cases "prefix (filler n) s")
  case False
  then have "strict_prefix s (filler n)" using assms(2) by (metis prefix_order.less_imp_le prefix_order.le_less prefix_same_cases prefixI)
  then show ?thesis using partial_filler [OF assms(1)] assms(5) by (cases frag) auto
next
  case True
  then obtain u where s: "s = filler n @ u" by (auto simp: prefix_def)
  then have u: "s = filler n @ u" "strict_prefix u (phys rc ln t data)" using assms(2) by (simp_all add: strict_prefix_def)
  obtain r1 where r1: "before r1 u (start n)" "r_reports r1 = r_reports r"
      "ReadPhysicalRecord hw r = ReadPhysicalRecord hw r1 \<and> loaded r1 (start n) \<or> filler n \<noteq> [] \<and> ReadPhysicalRecord hw r = ((kBadRecord, [], 0), r1)"
    using reach_start [of r n u] assms(1) u(1) by auto
  obtain r2 where r2: "before r2 u (start n)" "r_reports r2 = r_reports r1" "ReadPhysicalRecord hw r1 = ReadPhysicalRecord hw r2" "loaded r2 (start n)"
    using reach_start [of r1 "start n" u] r1(1) no_filler [of "start n"] assms(3) by auto
  obtain e d r' where r': "ReadPhysicalRecord hw r1 = ((e, [], d), r')" "e \<in> {kEof, kBadHeader}" "r_reports r' = r_reports r2"
    using read_partial [OF r2(1,4) u(2) assms(3,4)] r2(3) by auto
  obtain q where q: "ReadRecord_loop hw mode scratch frag pros r = ReadRecord_loop hw mode scratch frag pros q" "ReadPhysicalRecord hw q = ((e, [], d), r')"
    using r1(3) r'(1) loop_skip [of r r1 scratch pros] assms(5) by (cases frag) auto
  show ?thesis using q(1) loop_stop [OF q(2) r'(2)] r'(3) r2(2) r1(2) by simp
qed

section \<open>Writing and reading a record\<close>

text \<open>
  The bytes \<open>S\<close>, found at offset \<open>n\<close> of a block, give the reader the rest \<open>ptr\<close> of a record and leave it
  at offset \<open>n'\<close>; a part of them only makes it stop.
\<close>

definition delivers :: "bytes \<Rightarrow> nat \<Rightarrow> bool \<Rightarrow> bytes \<Rightarrow> nat \<Rightarrow> bool" where
  "delivers S n first ptr n' \<longleftrightarrow> (\<forall>r s scratch pros. before r s n \<longrightarrow> (first \<longrightarrow> scratch = []) \<longrightarrow>
     (prefix S s \<longrightarrow> (\<exists>r'. ReadRecord_loop hw mode scratch (\<not> first) pros r = Some (Some (scratch @ ptr), r') \<and>
        before r' (drop (length S) s) n' \<and> r_reports r' = r_reports r)) \<and>
     (strict_prefix s S \<longrightarrow> (\<exists>r'. ReadRecord_loop hw mode scratch (\<not> first) pros r = Some (None, r') \<and> r_reports r' = r_reports r)))"

lemma fragment_valid: "valid_type rc (fragment_type rc first final)"
  by (auto simp: valid_type_def fragment_type_def)

lemma before_last: "before (r\<lparr>r_last_record_offset := x\<rparr>) s n \<longleftrightarrow> before r s n"
  by (simp add: before_def ready_def)

lemma delivers_last:
  assumes "start n + hsize rc + length ptr \<le> kBlockSize" "\<not> first \<Longrightarrow> filler n = []"
  shows "delivers (filler n @ phys rc ln (fragment_type rc first True) ptr) n first ptr (start n + hsize rc + length ptr)"
  unfolding delivers_def
proof (intro allI impI conjI)
  fix r s and scratch :: bytes and pros
  assume b: "before r s n" and sc: "first \<longrightarrow> scratch = []"
  let ?t = "fragment_type rc first True"
  show "\<exists>r'. ReadRecord_loop hw mode scratch (\<not> first) pros r = Some (Some (scratch @ ptr), r') \<and>
      before r' (drop (length (filler n @ phys rc ln ?t ptr)) s) (start n + hsize rc + length ptr) \<and> r_reports r' = r_reports r"
    if "prefix (filler n @ phys rc ln ?t ptr) s"
  proof -
    from that obtain u where s: "s = filler n @ phys rc ln ?t ptr @ u" by (auto simp: prefix_def)
    obtain r' off where r': "before r' u (start n + hsize rc + length ptr)" "r_reports r' = r_reports r"
        "ReadRecord_loop hw mode scratch (\<not> first) pros r = acted (record_action mode scratch (\<not> first) pros off ?t ptr 0 r')"
      using loop_complete [OF b [unfolded s] assms(1) fragment_valid assms(2)] by blast
    have "\<exists>x. record_action mode scratch (\<not> first) pros off ?t ptr 0 r' = Return (Some (scratch @ ptr)) (r'\<lparr>r_last_record_offset := x\<rparr>)"
      using sc by (auto simp: record_action_def fragment_type_def)
    then show ?thesis using r' by (auto simp: s before_last)
  qed
  show "\<exists>r'. ReadRecord_loop hw mode scratch (\<not> first) pros r = Some (None, r') \<and> r_reports r' = r_reports r"
    if "strict_prefix s (filler n @ phys rc ln ?t ptr)"
    using loop_partial [OF b that assms(1) fragment_valid assms(2)] by blast
qed

lemma delivers_more:
  assumes "start n + hsize rc + length data \<le> kBlockSize" "\<not> first \<Longrightarrow> filler n = []"
    "delivers S (start n + hsize rc + length data) False rest n'"
  shows "delivers (filler n @ phys rc ln (fragment_type rc first False) data @ S) n first (data @ rest) n'"
  unfolding delivers_def
proof (intro allI impI)
  fix r s and scratch :: bytes and pros
  assume b: "before r s n" and sc: "first \<longrightarrow> scratch = []"
  let ?t = "fragment_type rc first False" and ?n = "start n + hsize rc + length data"
  let ?R = "filler n @ phys rc ln ?t data"
  have full: "\<exists>r' off. before r' u ?n \<and> r_reports r' = r_reports r \<and>
      ReadRecord_loop hw mode scratch (\<not> first) pros r = ReadRecord_loop hw mode (scratch @ data) True off r'" if s: "s = ?R @ u" for u
  proof -
    have b': "before r (filler n @ phys rc ln ?t data @ u) n" using b s by simp
    obtain r' off where r': "before r' u ?n" "r_reports r' = r_reports r"
        "ReadRecord_loop hw mode scratch (\<not> first) pros r = acted (record_action mode scratch (\<not> first) pros off ?t data 0 r')"
      using loop_complete [OF b' assms(1) fragment_valid assms(2)] by blast
    have "\<exists>x. record_action mode scratch (\<not> first) pros off ?t data 0 r' = Continue (scratch @ data) True x r'"
      using sc by (auto simp: record_action_def fragment_type_def)
    then obtain x where "record_action mode scratch (\<not> first) pros off ?t data 0 r' = Continue (scratch @ data) True x r'" ..
    then show ?thesis using r' by (intro exI [of _ r'] exI [of _ x]) simp
  qed
  have S: "before r' u ?n \<Longrightarrow> (prefix S u \<longrightarrow> (\<exists>q. ReadRecord_loop hw mode sc' True off r' = Some (Some (sc' @ rest), q) \<and>
        before q (drop (length S) u) n' \<and> r_reports q = r_reports r')) \<and>
     (strict_prefix u S \<longrightarrow> (\<exists>q. ReadRecord_loop hw mode sc' True off r' = Some (None, q) \<and> r_reports q = r_reports r'))" for r' u sc' off
    using assms(3) unfolding delivers_def by simp
  show "(prefix (filler n @ phys rc ln ?t data @ S) s \<longrightarrow> (\<exists>r'. ReadRecord_loop hw mode scratch (\<not> first) pros r = Some (Some (scratch @ data @ rest), r') \<and>
        before r' (drop (length (filler n @ phys rc ln ?t data @ S)) s) n' \<and> r_reports r' = r_reports r)) \<and>
     (strict_prefix s (filler n @ phys rc ln ?t data @ S) \<longrightarrow> (\<exists>r'. ReadRecord_loop hw mode scratch (\<not> first) pros r = Some (None, r') \<and> r_reports r' = r_reports r))"
  proof (cases "prefix ?R s")
    case True
    then obtain u where s: "s = ?R @ u" by (auto simp: prefix_def)
    obtain r' off where r': "before r' u ?n" "r_reports r' = r_reports r"
        "ReadRecord_loop hw mode scratch (\<not> first) pros r = ReadRecord_loop hw mode (scratch @ data) True off r'" using full [OF s] by blast
    have "drop (length (filler n @ phys rc ln ?t data @ S)) s = drop (length S) u" by (simp add: s)
    then show ?thesis using S [OF r'(1), of "scratch @ data" off] r'(2,3) by (auto simp: s strict_prefix_def)
  next
    case False
    then have "\<not> prefix (filler n @ phys rc ln ?t data @ S) s" by (metis append.assoc append_prefixD)
    moreover have "strict_prefix s (filler n @ phys rc ln ?t data @ S) \<Longrightarrow> strict_prefix s ?R"
      using False by (metis append.assoc prefix_order.le_less prefix_order.less_imp_le prefix_same_cases prefixI)
    ultimately show ?thesis using loop_partial [OF b _ assms(1) fragment_valid assms(2)] by blast
  qed
qed

definition writing :: "writer \<Rightarrow> bool" where
  "writing w \<longleftrightarrow> w_io w = [] \<and> w_type_crc w = type_crcs hw \<and> w_recycle w = rc \<and> w_log_number w = ln \<and> w_block_offset w \<le> kBlockSize"

lemma switch_filler:
  "writing w \<Longrightarrow> switch_block w = w\<lparr>w_dest := w_dest w @ filler (w_block_offset w), w_block_offset := start (w_block_offset w)\<rparr>"
  by (auto simp: switch_block_def file_append_def filler_def start_def writing_def Let_def)

lemma add_loop:
  "writing w \<Longrightarrow> (\<not> first \<Longrightarrow> filler (w_block_offset w) = []) \<Longrightarrow>
   \<exists>S n'. AddRecord_loop hw ptr first w = Some (True, w\<lparr>w_dest := w_dest w @ S, w_block_offset := n'\<rparr>) \<and>
     n' \<le> kBlockSize \<and> delivers S (w_block_offset w) first ptr n'"
proof (induction "2 * length ptr + (if kBlockSize - w_block_offset w = hsize rc then 1 else 0)" arbitrary: ptr first w rule: less_induct)
  case less
  let ?n = "w_block_offset w"
  have wr: "w_io w = []" "w_type_crc w = type_crcs hw" "w_recycle w = rc" "w_log_number w = ln" "?n \<le> kBlockSize" using less.prems(1) by (simp_all add: writing_def)
  define avail where "avail = kBlockSize - start ?n - hsize rc"
  define k where "k = (if length ptr < avail then length ptr else avail)"
  define t where "t = fragment_type rc first (length ptr = k)"
  define data where "data = take k ptr"
  define w2 where "w2 = w\<lparr>w_dest := w_dest w @ filler ?n @ phys rc ln t data, w_block_offset := start ?n + hsize rc + length data\<rparr>"
  have fit: "start ?n + hsize rc \<le> kBlockSize" using start_fits wr(5) .
  have dk: "length data = k" "start ?n + hsize rc + k \<le> kBlockSize" using fit by (auto simp: data_def k_def avail_def)
  have t: "valid_type rc t" unfolding t_def by (rule fragment_valid)
  have em: "EmitPhysicalRecord hw t data (switch_block w) = Some (True, w2)"
    using emit_phys [OF hw, of "switch_block w" t data] t dk wr by (simp add: switch_filler [OF less.prems(1)] w2_def)
  have step: "AddRecord_loop hw ptr first w = (if 0 < length ptr - k then AddRecord_loop hw (drop k ptr) False w2 else Some (True, w2))"
  proof -
    have f: "w_block_offset (switch_block w) = start ?n" "header_size_of (switch_block w) = hsize rc" "w_recycle (switch_block w) = rc"
      "kBlockSize < ?n \<longleftrightarrow> False" using wr by (simp_all add: switch_filler [OF less.prems(1)])
    show ?thesis
      unfolding AddRecord_loop.simps [of hw ptr first w] Let_def f if_False
      unfolding avail_def [symmetric] unfolding k_def [symmetric] unfolding t_def [symmetric] data_def [symmetric] em by simp
  qed
  have off: "w_block_offset w2 = start ?n + hsize rc + k" "w_dest w2 = w_dest w @ filler ?n @ phys rc ln t data" using dk by (simp_all add: w2_def)
  show ?case
  proof (cases "length ptr = k")
    case True
    then have "data = ptr" "t = fragment_type rc first True" by (simp_all add: data_def t_def)
    then have "delivers (filler ?n @ phys rc ln t data) ?n first ptr (start ?n + hsize rc + length ptr)"
      using delivers_last [of ?n ptr first] dk True less.prems(2) by simp
    moreover have "AddRecord_loop hw ptr first w = Some (True, w2)" using step True by simp
    ultimately show ?thesis using dk True by (intro exI [of _ "filler ?n @ phys rc ln t data"] exI [of _ "start ?n + hsize rc + k"]) (simp add: w2_def)
  next
    case False
    then have kp: "k = avail" "k < length ptr" by (auto simp: k_def split: if_splits)
    then have full: "w_block_offset w2 = kBlockSize" using fit by (simp add: off avail_def)
    have "writing w2" using wr full by (simp add: writing_def w2_def)
    moreover have "2 * length (drop k ptr) + (if kBlockSize - w_block_offset w2 = hsize rc then 1 else 0) <
        2 * length ptr + (if kBlockSize - ?n = hsize rc then 1 else 0)"
      using kp full fit by (auto simp: avail_def start_def hsize_def kBlockSize_def split: if_splits)
    moreover have "filler (w_block_offset w2) = []" unfolding full by (simp add: filler_def)
    ultimately obtain S n' where IH: "AddRecord_loop hw (drop k ptr) False w2 = Some (True, w2\<lparr>w_dest := w_dest w2 @ S, w_block_offset := n'\<rparr>)"
        "n' \<le> kBlockSize" "delivers S (w_block_offset w2) False (drop k ptr) n'"
      using less.hyps [of "drop k ptr" w2 False] by blast
    have "delivers (filler ?n @ phys rc ln (fragment_type rc first False) data @ S) ?n first (data @ drop k ptr) n'"
      using delivers_more [of ?n data first S "drop k ptr" n'] IH(3) dk less.prems(2) off(1) by simp
    then have "delivers (filler ?n @ phys rc ln t data @ S) ?n first ptr n'" using False by (simp add: t_def data_def)
    moreover have "AddRecord_loop hw ptr first w = Some (True, w\<lparr>w_dest := w_dest w @ filler ?n @ phys rc ln t data @ S, w_block_offset := n'\<rparr>)"
      using step kp IH(1) by (simp add: w2_def)
    ultimately show ?thesis using IH(2) by blast
  qed
qed

section \<open>Whole logs\<close>

lemma add_record:
  assumes "writing w"
  shows "\<exists>S w'. AddRecord hw x w = Some (True, w') \<and> writing w' \<and> w_dest w' = w_dest w @ S \<and> delivers S (w_block_offset w) True x (w_block_offset w')"
proof -
  obtain S n' where "AddRecord_loop hw x True w = Some (True, w\<lparr>w_dest := w_dest w @ S, w_block_offset := n'\<rparr>)"
      "n' \<le> kBlockSize" "delivers S (w_block_offset w) True x n'" using add_loop [OF assms, of True x] by blast
  then show ?thesis using assms by (auto simp: AddRecord_def writing_def)
qed

lemma write_grows: "writing w \<Longrightarrow> \<exists>w' T. write_all hw w xs = Some w' \<and> w_dest w' = w_dest w @ T"
proof (induction xs arbitrary: w)
  case (Cons x xs)
  obtain S w1 where "AddRecord hw x w = Some (True, w1)" "writing w1" "w_dest w1 = w_dest w @ S" using add_record [OF Cons.prems] by blast
  then show ?case using Cons.IH [of w1] by auto
qed simp

lemma read_one: "before r s n \<Longrightarrow> ReadRecord hw mode r = ReadRecord_loop hw mode [] False 0 r"
  by (simp add: ReadRecord_def before_def ready_def)

lemma read_nothing: "before r [] n \<Longrightarrow> \<exists>r'. ReadRecord hw mode r = Some (None, r') \<and> r_reports r' = r_reports r"
proof -
  assume b: "before r [] n"
  have "valid_type rc (fragment_type rc True True)" by (rule fragment_valid)
  moreover have "start n + hsize rc + length ([] :: bytes) \<le> kBlockSize" using b start_fits by (simp add: before_def)
  moreover have "strict_prefix [] (filler n @ phys rc ln (fragment_type rc True True) [])" by (simp add: strict_prefix_def phys_def)
  ultimately show ?thesis using loop_partial [OF b, of _ "[]" False "[]" 0] read_one [OF b] by simp
qed

lemma read_written:
  assumes "writing w" "write_all hw w xs = Some w'" "w_dest w' = w_dest w @ T" "prefix s T" "before r s (w_block_offset w)"
  shows "\<exists>m r'. read_all hw mode (Suc (length xs)) r = Some (take m xs, r') \<and> r_reports r' = r_reports r \<and>
    (\<forall>j v. j \<le> length xs \<longrightarrow> write_all hw w (take j xs) = Some v \<longrightarrow> (length (w_dest v) \<le> length (w_dest w) + length s \<longleftrightarrow> j \<le> m))"
  using assms
proof (induction xs arbitrary: w T s r)
  case Nil
  then have "before r [] (w_block_offset w)" by simp
  then show ?case using read_nothing by fastforce
next
  case (Cons x xs)
  obtain S w1 where w1: "AddRecord hw x w = Some (True, w1)" "writing w1" "w_dest w1 = w_dest w @ S" "delivers S (w_block_offset w) True x (w_block_offset w1)"
    using add_record [OF Cons.prems(1)] by blast
  have rest: "write_all hw w1 xs = Some w'" using Cons.prems(2) w1(1) by simp
  obtain T' where T': "w_dest w' = w_dest w1 @ T'" using write_grows [OF w1(2), of xs] rest by auto
  then have T: "T = S @ T'" using Cons.prems(3) w1(3) by simp
  note rd = read_one [OF Cons.prems(5)]
  show ?case
  proof (cases "prefix S s")
    case True
    then obtain u where u: "s = S @ u" "prefix u T'" using Cons.prems(4) T by (auto simp: prefix_def)
    obtain r1 where r1: "ReadRecord hw mode r = Some (Some x, r1)" "before r1 u (w_block_offset w1)" "r_reports r1 = r_reports r"
      using w1(4) Cons.prems(5) True unfolding delivers_def rd by (fastforce simp: u)
    obtain m r' where IH: "read_all hw mode (Suc (length xs)) r1 = Some (take m xs, r')" "r_reports r' = r_reports r1"
      "\<forall>j v. j \<le> length xs \<longrightarrow> write_all hw w1 (take j xs) = Some v \<longrightarrow> (length (w_dest v) \<le> length (w_dest w1) + length u \<longleftrightarrow> j \<le> m)"
      using Cons.IH [OF w1(2) rest T' u(2) r1(2)] by blast
    have "length (w_dest v) \<le> length (w_dest w) + length s \<longleftrightarrow> j \<le> Suc m"
      if "j \<le> length (x # xs)" "write_all hw w (take j (x # xs)) = Some v" for j v
      using that IH(3) w1(1,3) by (cases j) (auto simp: u(1))
    moreover have "read_all hw mode (Suc (length (x # xs))) r = Some (take (Suc m) (x # xs), r')"
      using r1(1) IH(1) by (simp del: read_all.simps(2) add: read_all.simps(2) [of hw mode "Suc (length xs)" r])
    ultimately show ?thesis using IH(2) r1(3) by (intro exI [of _ "Suc m"] exI [of _ r']) simp
  next
    case False
    then have sp: "strict_prefix s S" using Cons.prems(4) unfolding T by (metis prefix_order.le_less prefix_same_cases prefixI)
    obtain r' where r': "ReadRecord hw mode r = Some (None, r')" "r_reports r' = r_reports r"
      using w1(4) Cons.prems(5) sp unfolding delivers_def rd by fastforce
    have "length (w_dest v) \<le> length (w_dest w) + length s \<longleftrightarrow> j \<le> 0"
      if jv: "j \<le> length (x # xs)" "write_all hw w (take j (x # xs)) = Some v" for j v
    proof (cases j)
      case (Suc i)
      then obtain Y where "w_dest v = w_dest w1 @ Y" using jv(2) w1(1) write_grows [OF w1(2), of "take i xs"] by auto
      then show ?thesis using w1(3) prefix_length_less [OF sp] Suc by simp
    qed (use jv in simp)
    moreover have "read_all hw mode (Suc (length (x # xs))) r = Some (take 0 (x # xs), r')" using r'(1) by simp
    ultimately show ?thesis using r'(2) by blast
  qed
qed

lemma fresh_writing: "writing (Writer hw ln rc [])"
  by (simp add: writing_def Writer_def type_crcs_def kBlockSize_def)

lemma fresh_before: "before (Reader s [] reporter checksum 0 ln) s 0"
  by (simp add: before_def ready_def Reader_def)

end

interpretation plain_log: log_file None False 0 kPointInTimeRecovery
  by unfold_locales (simp_all add: hw_valid_def)

interpretation recycled_log: log_file None True 7 kTolerateCorruptedTailRecords
  by unfold_locales (simp_all add: hw_valid_def)

section \<open>Properties\<close>

text \<open>
  C1. A log survives a crash, for every recovery mode but absolute consistency and, in the recyclable
  format, for log numbers below \<open>2 ^ 32\<close>. Writing any list of records succeeds, in either format; and when,
  after a crash, only the first \<open>k\<close> bytes of the file are there, a new reader returns exactly the records
  that were written completely, in order and unchanged, then reports the end, and reports no corruption to
  its reporter.
\<close>

theorem log_crash_safe:
  assumes "hw_valid hw" "rc \<Longrightarrow> unat ln < 2 ^ 32" "mode \<noteq> kAbsoluteConsistency"
  shows "\<exists>w m r. write_all hw (Writer hw ln rc []) xs = Some w \<and>
    read_all hw mode (Suc (length xs)) (Reader (take k (w_dest w)) [] reporter checksum 0 ln) = Some (take m xs, r) \<and> r_reports r = [] \<and>
    (\<forall>j v. j \<le> length xs \<longrightarrow> write_all hw (Writer hw ln rc []) (take j xs) = Some v \<longrightarrow> (length (w_dest v) \<le> length (take k (w_dest w)) \<longleftrightarrow> j \<le> m))"
proof -
  have l: "log_file hw rc ln mode" using assms by unfold_locales
  note f = log_file.fresh_writing [OF l]
  obtain w T where w: "write_all hw (Writer hw ln rc []) xs = Some w" "w_dest w = w_dest (Writer hw ln rc []) @ T"
    using log_file.write_grows [OF l f] by blast
  have z: "w_dest (Writer hw ln rc []) = []" "r_reports (Reader (take k T) [] reporter checksum 0 ln) = []" by (simp_all add: Writer_def Reader_def)
  then have T: "T = w_dest w" using w(2) by simp
  have b: "log_file.before ln (Reader (take k T) [] reporter checksum 0 ln) (take k T) (w_block_offset (Writer hw ln rc []))"
    using log_file.fresh_before [OF l] by (simp add: Writer_def)
  obtain m r where r: "read_all hw mode (Suc (length xs)) (Reader (take k T) [] reporter checksum 0 ln) = Some (take m xs, r)" "r_reports r = []"
    "\<forall>j v. j \<le> length xs \<longrightarrow> write_all hw (Writer hw ln rc []) (take j xs) = Some v \<longrightarrow> (length (w_dest v) \<le> length (take k T) \<longleftrightarrow> j \<le> m)"
    using log_file.read_written [OF l f w take_is_prefix b] unfolding z by (auto simp del: read_all.simps length_take)
  then show ?thesis using w(1) unfolding T by blast
qed

theorem log_crash_safe_witness:
  "\<exists>w m r. write_all None (Writer None 7 True []) [[1, 2], [3]] = Some w \<and>
     read_all None kTolerateCorruptedTailRecords 3 (Reader (take 20 (w_dest w)) [] True True 0 7) = Some (take m [[1, 2], [3]], r) \<and> r_reports r = []"
proof -
  have "hw_valid None" "unat (7 :: u64) < 2 ^ 32" "kTolerateCorruptedTailRecords \<noteq> kAbsoluteConsistency" by (simp_all add: hw_valid_def)
  moreover have "Suc (length [[1 :: u8, 2], [3]]) = 3" by simp
  ultimately show ?thesis
    using log_crash_safe [of None True 7 kTolerateCorruptedTailRecords "[[1, 2], [3]]" 20 True True] by metis
qed

end
