(* ===== verification/Log_Recycled.thy ===== *)
theory Log_Recycled
  imports Log_Correct
begin

text \<open>
  What a reader makes of a recycled log file, in which records of an earlier log with another number
  follow the records of the log. \<open>tracks\<close> ties the block offset of a writer to the length of its file,
  so that a later log that ends where a record of the earlier one begins meets that record's first
  fragment; \<open>old_record\<close> is the state of a reader that has such a fragment in front of it.
\<close>

section \<open>Where the fragments of a log begin\<close>

lemma emit_appends: "EmitPhysicalRecord hw t ptr w = Some (ok, w') \<Longrightarrow> \<exists>T. w_dest w' = w_dest w @ T"
  unfolding EmitPhysicalRecord_def Let_def file_append_def file_flush_def by (auto split: if_splits list.splits prod.splits)

lemma add_appends: "AddRecord_loop hw ptr first w = Some (ok, w') \<Longrightarrow> \<exists>T. w_dest w' = w_dest w @ T"
proof (induction hw ptr first w rule: AddRecord_loop.induct)
  case (1 hw ptr first w)
  have sw: "\<exists>T. w_dest (switch_block w) = w_dest w @ T"
    by (auto simp: switch_block_def file_append_def Let_def split: list.splits)
  let ?w = "switch_block w"
  let ?a = "kBlockSize - w_block_offset ?w - header_size_of ?w"
  let ?k = "if length ptr < ?a then length ptr else ?a"
  obtain ok2 w2 where em: "EmitPhysicalRecord hw (fragment_type (w_recycle ?w) first (length ptr = ?k)) (take ?k ptr) ?w = Some (ok2, w2)"
      "\<not> kBlockSize < w_block_offset w"
      "AddRecord_loop hw (drop ?k ptr) False w2 = Some (ok, w') \<and> ok2 \<and> 0 < length ptr - ?k \<or> (ok, w') = (ok2, w2)"
    using 1(2) unfolding AddRecord_loop.simps [of hw ptr first w] Let_def by (auto split: if_splits option.splits)
  then have "\<exists>T. w_dest w' = w_dest w2 @ T" using 1(1) [OF em(2) refl refl refl refl em(1)] by auto
  then show ?case using emit_appends [OF em(1)] sw by auto
qed

text \<open>The offset in its block that the writer has after writing \<open>n\<close> bytes.\<close>

definition block_position :: "nat \<Rightarrow> nat" where
  "block_position n = (if n = 0 then 0 else (n - 1) mod kBlockSize + 1)"

definition tracks :: "hw \<Rightarrow> u64 \<Rightarrow> writer \<Rightarrow> bool" where
  "tracks hw ln w \<longleftrightarrow> w_io w = [] \<and> w_type_crc w = type_crcs hw \<and> w_recycle w \<and> w_log_number w = ln \<and>
     w_block_offset w = block_position (length (w_dest w))"

lemma block_position_le: "block_position n \<le> kBlockSize"
  by (simp add: block_position_def kBlockSize_def Suc_le_eq)

lemma block_position_add:
  assumes "block_position n + k \<le> kBlockSize" "0 < k"
  shows "block_position (n + k) = block_position n + k"
proof (cases "n = 0")
  case True
  then show ?thesis using assms by (simp add: block_position_def)
next
  case False
  then have "(n - 1) mod kBlockSize + k < kBlockSize" using assms by (simp add: block_position_def)
  then have "((n - 1) mod kBlockSize + k) mod kBlockSize = (n - 1) mod kBlockSize + k" by simp
  then have "((n - 1) + k) mod kBlockSize = (n - 1) mod kBlockSize + k" by (simp add: mod_simps)
  moreover have "n + k - 1 = (n - 1) + k" using False by simp
  ultimately show ?thesis using False by (simp add: block_position_def)
qed

lemma block_position_full: "n \<noteq> 0 \<Longrightarrow> kBlockSize dvd n + (kBlockSize - block_position n)"
proof -
  assume n: "n \<noteq> 0"
  define q m where "q = (n - 1) div kBlockSize" and "m = (n - 1) mod kBlockSize"
  have "m < kBlockSize" by (simp add: m_def kBlockSize_def)
  moreover have "n - 1 = kBlockSize * q + m" by (simp add: q_def m_def)
  ultimately have "n + (kBlockSize - (m + 1)) = kBlockSize * (q + 1)" using n by simp
  then show ?thesis using n unfolding block_position_def m_def by simp
qed

lemma block_position_new:
  assumes "kBlockSize dvd n" "0 < k" "k \<le> kBlockSize"
  shows "block_position (n + k) = k"
proof -
  obtain q where q: "n = kBlockSize * q" using assms(1) by auto
  have "n + k - 1 = kBlockSize * q + (k - 1)" using assms(2) q by simp
  moreover have "(kBlockSize * q + (k - 1)) mod kBlockSize = (k - 1) mod kBlockSize" by (rule mod_mult_self4)
  ultimately have "(n + k - 1) mod kBlockSize = k - 1" using assms(2,3) by simp
  then show ?thesis using assms(2) by (simp add: block_position_def)
qed

text \<open>One fragment.\<close>

definition padding :: "nat \<Rightarrow> bytes" where
  "padding n = (if kBlockSize - n < 11 then replicate (kBlockSize - n) 0 else [])"

definition fragment_start :: "nat \<Rightarrow> nat" where
  "fragment_start n = (if kBlockSize - n < 11 then 0 else n)"

lemma padding_position:
  assumes "n = block_position m" "fragment_start n + k \<le> kBlockSize" "0 < k"
  shows "block_position (m + length (padding n) + k) = fragment_start n + k"
proof (cases "kBlockSize - n < 11")
  case True
  then have "m \<noteq> 0" using assms(1) by (cases "m = 0") (simp_all add: block_position_def kBlockSize_def)
  then show ?thesis using True assms block_position_new [OF block_position_full] by (simp add: padding_def fragment_start_def)
next
  case False
  then show ?thesis using assms block_position_add [of m k] by (simp add: padding_def fragment_start_def)
qed

lemma emit_fragment:
  assumes "hw_valid hw" "tracks hw ln w" "valid_type True t" "fragment_start (w_block_offset w) + 11 + length data \<le> kBlockSize"
  shows "\<exists>w2. EmitPhysicalRecord hw t data (switch_block w) = Some (True, w2) \<and> tracks hw ln w2 \<and>
    w_dest w2 = w_dest w @ padding (w_block_offset w) @ phys True ln t data"
proof -
  let ?n = "w_block_offset w"
  have w: "w_io w = []" "w_type_crc w = type_crcs hw" "w_recycle w" "w_log_number w = ln" "?n = block_position (length (w_dest w))"
    using assms(2) by (simp_all add: tracks_def)
  let ?v = "w\<lparr>w_dest := w_dest w @ padding ?n, w_block_offset := fragment_start ?n\<rparr>"
  have sw: "switch_block w = ?v"
    using w(1,3) by (auto simp: switch_block_def file_append_def padding_def fragment_start_def hsize_def Let_def)
  have em: "EmitPhysicalRecord hw t data ?v = Some (True,
      ?v\<lparr>w_dest := w_dest ?v @ phys True ln t data, w_block_offset := w_block_offset ?v + 11 + length data\<rparr>)"
    using emit_phys [OF assms(1), of ?v t data] w assms(3,4) by (simp add: hsize_def)
  have "block_position (length (w_dest w) + length (padding ?n) + (11 + length data)) = fragment_start ?n + (11 + length data)"
    using padding_position [OF w(5), of "11 + length data"] assms(4) by simp
  then show ?thesis unfolding sw em using w by (simp add: tracks_def hsize_def add.assoc)
qed

lemma add_fragment:
  assumes "hw_valid hw" "tracks hw ln w"
  shows "\<exists>t k w2. valid_type True t \<and> fragment_start (w_block_offset w) + 11 + length (take k ptr) \<le> kBlockSize \<and> tracks hw ln w2 \<and>
    w_dest w2 = w_dest w @ padding (w_block_offset w) @ phys True ln t (take k ptr) \<and> k \<le> length ptr \<and>
    (k = 0 \<longrightarrow> 0 < length ptr \<longrightarrow> w_block_offset w = kBlockSize - 11) \<and>
    (fragment_start (w_block_offset w) + 11 + length ptr \<le> kBlockSize \<longrightarrow> k = length ptr) \<and>
    AddRecord_loop hw ptr first w = (if 0 < length ptr - k then AddRecord_loop hw (drop k ptr) False w2 else Some (True, w2))"
proof -
  let ?n = "w_block_offset w"
  have w: "w_recycle w" "?n \<le> kBlockSize" "w_io w = []" using assms(2) block_position_le by (simp_all add: tracks_def)
  define avail where "avail = kBlockSize - fragment_start ?n - 11"
  define k where "k = (if length ptr < avail then length ptr else avail)"
  define t where "t = fragment_type True first (length ptr = k)"
  have fit: "fragment_start ?n + 11 \<le> kBlockSize" by (auto simp: fragment_start_def kBlockSize_def)
  have k: "k \<le> length ptr" "fragment_start ?n + 11 + length (take k ptr) \<le> kBlockSize" using fit by (auto simp: k_def avail_def)
  have z: "k = 0 \<longrightarrow> 0 < length ptr \<longrightarrow> ?n = kBlockSize - 11"
    using w(2) by (auto simp: k_def avail_def fragment_start_def kBlockSize_def split: if_splits)
  have t: "valid_type True t" by (simp add: t_def fragment_type_def valid_type_def)
  obtain w2 where w2: "EmitPhysicalRecord hw t (take k ptr) (switch_block w) = Some (True, w2)" "tracks hw ln w2"
    "w_dest w2 = w_dest w @ padding ?n @ phys True ln t (take k ptr)" using emit_fragment [OF assms t k(2)] by blast
  have f: "w_block_offset (switch_block w) = fragment_start ?n" "header_size_of (switch_block w) = 11" "w_recycle (switch_block w) = True"
    "kBlockSize < ?n \<longleftrightarrow> False"
    using w by (auto simp: switch_block_def file_append_def fragment_start_def hsize_def Let_def)
  have "AddRecord_loop hw ptr first w = (if 0 < length ptr - k then AddRecord_loop hw (drop k ptr) False w2 else Some (True, w2))"
    unfolding AddRecord_loop.simps [of hw ptr first w] Let_def f if_False
    unfolding avail_def [symmetric] unfolding k_def [symmetric] unfolding t_def [symmetric] w2(1) by simp
  moreover have "fragment_start ?n + 11 + length ptr \<le> kBlockSize \<longrightarrow> k = length ptr" by (auto simp: k_def avail_def)
  ultimately show ?thesis using t k w2 z by blast
qed

lemma add_tracks:
  assumes "hw_valid hw" "tracks hw ln w"
  shows "\<exists>w'. AddRecord_loop hw ptr first w = Some (True, w') \<and> tracks hw ln w'"
  using assms(2)
proof (induction "2 * length ptr + (if w_block_offset w = kBlockSize - 11 then 1 else 0)" arbitrary: ptr first w rule: less_induct)
  case less
  obtain t k w2 where f: "fragment_start (w_block_offset w) + 11 + length (take k ptr) \<le> kBlockSize" "tracks hw ln w2"
    "w_dest w2 = w_dest w @ padding (w_block_offset w) @ phys True ln t (take k ptr)" "k \<le> length ptr"
    "k = 0 \<longrightarrow> 0 < length ptr \<longrightarrow> w_block_offset w = kBlockSize - 11"
    "AddRecord_loop hw ptr first w = (if 0 < length ptr - k then AddRecord_loop hw (drop k ptr) False w2 else Some (True, w2))"
    using add_fragment [OF assms(1) less.prems, of ptr first] by blast
  have p: "w_block_offset w2 = fragment_start (w_block_offset w) + 11 + length (take k ptr)"
    using padding_position [of "w_block_offset w" "length (w_dest w)" "11 + length (take k ptr)"] f(1,2,3) less.prems
    by (simp add: tracks_def hsize_def add.assoc)
  show ?case
  proof (cases "0 < length ptr - k")
    case True
    have "2 * length (drop k ptr) + (if w_block_offset w2 = kBlockSize - 11 then 1 else 0) <
        2 * length ptr + (if w_block_offset w = kBlockSize - 11 then 1 else 0)"
    proof (cases "k = 0")
      case z: True
      then have "w_block_offset w = kBlockSize - 11" using f(5) True by simp
      then show ?thesis using z p by (simp add: fragment_start_def kBlockSize_def)
    next
      case False
      then have "length (drop k ptr) < length ptr" using True by simp
      then show ?thesis by simp
    qed
    from less.hyps [OF this f(2)] show ?thesis using f(6) True by simp
  qed (use f in simp)
qed

lemma write_tracks: "hw_valid hw \<Longrightarrow> tracks hw ln w \<Longrightarrow> \<exists>w'. write_all hw w xs = Some w' \<and> tracks hw ln w'"
proof (induction xs arbitrary: w)
  case (Cons x xs)
  obtain w1 where "AddRecord hw x w = Some (True, w1)" "tracks hw ln w1" using add_tracks [OF Cons.prems] by (auto simp: AddRecord_def)
  then show ?case using Cons.IH [of w1] Cons.prems(1) by simp
qed simp

lemma fresh_tracks: "tracks hw ln (Writer hw ln True [])"
  by (simp add: tracks_def Writer_def type_crcs_def block_position_def)

lemma add_starts:
  assumes "hw_valid hw" "tracks hw ln w" "AddRecord hw x w = Some (ok, w')"
  shows "\<exists>t data u. w_dest w' = w_dest w @ padding (w_block_offset w) @ phys True ln t data @ u \<and> valid_type True t \<and>
    fragment_start (w_block_offset w) + 11 + length data \<le> kBlockSize"
proof -
  obtain t k w2 where f: "valid_type True t" "fragment_start (w_block_offset w) + 11 + length (take k x) \<le> kBlockSize"
    "w_dest w2 = w_dest w @ padding (w_block_offset w) @ phys True ln t (take k x)"
    "AddRecord_loop hw x True w = (if 0 < length x - k then AddRecord_loop hw (drop k x) False w2 else Some (True, w2))"
    using add_fragment [OF assms(1,2), of x True] by blast
  obtain u where "w_dest w' = w_dest w2 @ u"
    using assms(3) f(4) add_appends [of hw "drop k x" False w2 ok w'] by (auto simp: AddRecord_def split: if_splits)
  then have "w_dest w' = w_dest w @ padding (w_block_offset w) @ phys True ln t (take k x) @ u" using f(3) by simp
  then show ?thesis using f(1,2) by blast
qed

text \<open>A short record takes its length and 11 bytes.\<close>

lemma write_short:
  assumes "hw_valid hw" "11 + length x \<le> kBlockSize"
  shows "\<exists>w. write_all hw (Writer hw ln True []) [x] = Some w \<and> tracks hw ln w \<and> length (w_dest w) = 11 + length x"
proof -
  let ?w = "Writer hw ln True []"
  have z: "w_block_offset ?w = 0" "w_dest ?w = []" "padding 0 = []" "fragment_start 0 = 0" by (simp_all add: Writer_def padding_def fragment_start_def kBlockSize_def)
  obtain t k w2 where "tracks hw ln w2" "w_dest w2 = phys True ln t (take k x)" "k = length x"
    "AddRecord_loop hw x True ?w = (if 0 < length x - k then AddRecord_loop hw (drop k x) False w2 else Some (True, w2))"
    using add_fragment [OF assms(1) fresh_tracks, of ln x True] assms(2) unfolding z add_0 append_Nil by blast
  then show ?thesis by (simp add: AddRecord_def hsize_def)
qed

section \<open>Reading records of an earlier log\<close>

text \<open>A record of another log at the start of the buffer, which is not consumed.\<close>

definition old_record :: "reader \<Rightarrow> bool" where
  "old_record r \<longleftrightarrow> 11 \<le> length (r_buffer r) \<and> unat (scast (r_buffer r ! 6) :: u32) \<in> {5..8} \<and>
     (ucast (DecodeFixed32 True (drop 7 (r_buffer r))) :: u64) \<noteq> r_log_number r"

lemma read_old: "old_record r \<Longrightarrow> \<exists>b. ReadPhysicalRecord hw r = ((kOldRecord, [], 0), r\<lparr>r_recycled := b\<rparr>)"
proof -
  assume o: "old_record r"
  define t where "t = unat (scast (r_buffer r ! 6) :: u32)"
  have c: "7 \<le> length (r_buffer r)" "(5 \<le> t \<and> t \<le> 8) = True" "t \<noteq> 0" "length (r_buffer r) < 11 \<longleftrightarrow> False"
    "(ucast (DecodeFixed32 True (drop 7 (r_buffer r))) :: u64) \<noteq> r_log_number r \<longleftrightarrow> True"
    using o by (auto simp: old_record_def t_def)
  show ?thesis using read_header [OF c(1) t_def [symmetric] c(2,3) refl, of hw] unfolding Let_def c(4,5) simp_thms if_True if_False .
qed

lemma skip_diverges:
  assumes "ReadRecord_loop hw mode scratch frag pros r = Some y"
  shows "\<not> (old_record r \<and> mode = kSkipAnyCorruptedRecords)"
proof (rule ReadRecord_loop.raw_induct [where P = "\<lambda>hw mode scratch frag pros r y. \<not> (old_record r \<and> mode = kSkipAnyCorruptedRecords)", OF _ assms])
  fix loop hw mode scratch frag pros r and y :: "bytes option \<times> reader"
  assume IH: "\<And>hw mode scratch frag pros r y. loop hw mode scratch frag pros r = Some y \<Longrightarrow> \<not> (old_record r \<and> mode = kSkipAnyCorruptedRecords)"
    and body: "(case ReadPhysicalRecord hw r of ((t, fragment, d), r') \<Rightarrow>
      case record_action mode scratch frag pros (sub64 (r_end_of_buffer_offset r) (length (r_buffer r))) t fragment d r' of
        Return res r'' \<Rightarrow> Some (res, r'') | Continue scratch frag pros r'' \<Rightarrow> loop hw mode scratch frag pros r'') = Some y"
  show "\<not> (old_record r \<and> mode = kSkipAnyCorruptedRecords)"
  proof
    assume o: "old_record r \<and> mode = kSkipAnyCorruptedRecords"
    then obtain b where b: "ReadPhysicalRecord hw r = ((kOldRecord, [], 0), r\<lparr>r_recycled := b\<rparr>)" using read_old by blast
    have "old_record (r\<lparr>r_recycled := b\<rparr>)" "old_record (ReportCorruption n reason (r\<lparr>r_recycled := b\<rparr>))" for n reason
      using o by (simp_all add: old_record_def ReportCorruption_def ReportDrop_def)
    moreover have "loop hw mode [] False pros (ReportCorruption (length scratch) ''error in middle of record'' (r\<lparr>r_recycled := b\<rparr>)) = Some y \<or>
        loop hw mode scratch frag pros (r\<lparr>r_recycled := b\<rparr>) = Some y"
      using body o b by (auto simp: record_action_def split: if_splits)
    ultimately show False using IH o by blast
  qed
qed

lemma old_next:
  assumes "ReadPhysicalRecord hw r = ReadPhysicalRecord hw r'" "old_record r'"
  shows "if mode = kSkipAnyCorruptedRecords then ReadRecord_loop hw mode [] False p r = None
    else \<exists>q. ReadRecord_loop hw mode [] False p r = Some (None, q)"
proof -
  obtain b where b: "ReadPhysicalRecord hw r = ((kOldRecord, [], 0), r'\<lparr>r_recycled := b\<rparr>)" using read_old [OF assms(2)] assms(1) by metis
  have "old_record (r'\<lparr>r_recycled := b\<rparr>)" using assms(2) by (simp add: old_record_def)
  then have "ReadRecord_loop hw kSkipAnyCorruptedRecords s f p (r'\<lparr>r_recycled := b\<rparr>) = None" for s f p
    using skip_diverges by (metis option.exhaust)
  then show ?thesis unfolding ReadRecord_loop.simps [of hw mode "[]" False p r] b by (auto simp: record_action_def)
qed

lemma phys_old:
  assumes "r_buffer r = phys True lo t data @ v" "valid_type True t" "(ucast (ucast lo :: u32) :: u64) \<noteq> r_log_number r"
  shows "old_record r"
proof -
  note p = phys_parts [OF assms(1)]
  have "unat (scast (r_buffer r ! 6) :: u32) = t" using type_byte assms(2) by (simp add: p(3) valid_type_def)
  moreover have "11 \<le> length (r_buffer r)" by (simp add: assms(1) hsize_def)
  moreover have "DecodeFixed32 True (drop 7 (r_buffer r)) = ucast lo"
    using unsigned_less [of "ucast lo :: u32", where ?'a = nat] by (simp add: p(5) number_def le_value_exact)
  ultimately show ?thesis using assms(2,3) by (simp add: old_record_def valid_type_def)
qed

lemma fresh_old:
  assumes "file = phys True lo t data @ u" "valid_type True t" "hsize True + length data \<le> kBlockSize" "(ucast (ucast lo :: u32) :: u64) \<noteq> ln"
  shows "\<exists>r. ReadPhysicalRecord hw (Reader file [] reporter checksum 0 ln) = ReadPhysicalRecord hw r \<and> old_record r"
proof -
  let ?r = "Reader file [] reporter checksum 0 ln"
  have "\<exists>r. ReadMore ?r = (None, r) \<and> r_buffer r = take kBlockSize file \<and> r_log_number r = ln"
    by (cases "length file < kBlockSize") (auto simp: ReadMore_def file_read_def Reader_def Let_def min_def)
  then obtain r where r: "ReadMore ?r = (None, r)" "r_buffer r = take kBlockSize file" "r_log_number r = ln" by blast
  obtain v where "r_buffer r = phys True lo t data @ v" using assms(1,3) by (auto simp: r(2) take_append)
  then have "old_record r" using phys_old assms(2,4) r(3) by blast
  moreover have "ReadPhysicalRecord hw ?r = ReadPhysicalRecord hw r"
    using r(1) by (subst ReadPhysicalRecord.simps) (simp add: Reader_def)
  ultimately show ?thesis by blast
qed

lemma old_first:
  assumes "file = phys True lo t data @ u" "valid_type True t" "hsize True + length data \<le> kBlockSize" "(ucast (ucast lo :: u32) :: u64) \<noteq> ln"
  shows "if mode = kSkipAnyCorruptedRecords then \<forall>n. read_all hw mode n (Reader file [] reporter checksum 0 ln) = None
    else \<exists>r. read_all hw mode (Suc 0) (Reader file [] reporter checksum 0 ln) = Some ([], r)"
proof -
  let ?r = "Reader file [] reporter checksum 0 ln"
  obtain r where r: "ReadPhysicalRecord hw ?r = ReadPhysicalRecord hw r" "old_record r" using fresh_old [OF assms] by blast
  have "ReadRecord hw mode ?r = ReadRecord_loop hw mode [] False 0 ?r" by (simp add: ReadRecord_def Reader_def)
  then have "if mode = kSkipAnyCorruptedRecords then ReadRecord hw mode ?r = None else \<exists>q. ReadRecord hw mode ?r = Some (None, q)"
    using old_next [OF r] by metis
  moreover have "read_all hw mode n ?r = None" if "ReadRecord hw mode ?r = None" for n using that by (cases n) simp_all
  ultimately show ?thesis by auto
qed

context log_file
begin

text \<open>The log's own records are read whatever follows them.\<close>

lemma read_own:
  "writing w \<Longrightarrow> write_all hw w xs = Some w' \<Longrightarrow> w_dest w' = w_dest w @ T \<Longrightarrow> before r (T @ u) (w_block_offset w) \<Longrightarrow>
   \<exists>r'. before r' u (w_block_offset w') \<and>
     (\<forall>n. read_all hw mode (length xs + n) r = map_option (\<lambda>(ys, q). (xs @ ys, q)) (read_all hw mode n r'))"
proof (induction xs arbitrary: w T r)
  case Nil
  then show ?case by (auto simp: option.map_ident case_prod_beta intro!: exI [of _ r])
next
  case (Cons x xs)
  obtain S w1 where w1: "AddRecord hw x w = Some (True, w1)" "writing w1" "w_dest w1 = w_dest w @ S" "delivers S (w_block_offset w) True x (w_block_offset w1)"
    using add_record [OF Cons.prems(1)] by blast
  have rest: "write_all hw w1 xs = Some w'" using Cons.prems(2) w1(1) by simp
  obtain T' where T': "w_dest w' = w_dest w1 @ T'" using write_grows [OF w1(2), of xs] rest by auto
  then have T: "T = S @ T'" using Cons.prems(3) w1(3) by simp
  have "prefix S (T @ u)" by (simp add: T)
  then obtain r1 where r1: "ReadRecord hw mode r = Some (Some x, r1)" "before r1 (T' @ u) (w_block_offset w1)"
    using w1(4) Cons.prems(4) unfolding delivers_def read_one [OF Cons.prems(4)] by (fastforce simp: T)
  obtain r' where r': "before r' u (w_block_offset w')"
    "\<And>n. read_all hw mode (length xs + n) r1 = map_option (\<lambda>(ys, q). (xs @ ys, q)) (read_all hw mode n r')"
    using Cons.IH [OF w1(2) rest T' r1(2)] by blast
  have "read_all hw mode (length (x # xs) + n) r = map_option (\<lambda>(ys, q). ((x # xs) @ ys, q)) (read_all hw mode n r')" for n
    using r1(1) r'(2) [of n] by (cases "read_all hw mode n r'") auto
  then show ?case using r'(1) by blast
qed

lemma read_foreign:
  assumes rc "before r (filler n @ phys True lo t data @ v) n" "start n + 11 + length data \<le> kBlockSize" "valid_type True t"
    "(ucast (ucast lo :: u32) :: u64) \<noteq> ln"
  shows "if mode = kSkipAnyCorruptedRecords then ReadRecord hw mode r = None else \<exists>q. ReadRecord hw mode r = Some (None, q)"
proof -
  let ?s = "phys True lo t data @ v"
  have h: "hsize rc = 11" using assms(1) by (simp add: hsize_def)
  have old: "old_record q" if q: "before q ?s (start n)" "loaded q (start n)" for q
  proof -
    have st: "r_buffer q @ r_file q = ?s" "r_log_number q = ln" using q(1) by (simp_all add: before_def ready_def)
    have "length (phys True lo t data) \<le> length (r_buffer q)"
    proof (cases "r_eof q")
      case True
      then have "r_buffer q = ?s" using q(1) st by (simp add: before_def)
      then show ?thesis by simp
    qed (use q(2) assms(3) in \<open>simp add: loaded_def hsize_def\<close>)
    then obtain rest where "r_buffer q = phys True lo t data @ rest" using st append_longer by blast
    then show ?thesis using phys_old assms(4,5) st(2) by blast
  qed
  obtain r1 where r1: "before r1 ?s (start n)"
      "ReadPhysicalRecord hw r = ReadPhysicalRecord hw r1 \<and> loaded r1 (start n) \<or> ReadPhysicalRecord hw r = ((kBadRecord, [], 0), r1)"
    using reach_start [OF assms(2)] by blast
  have nf: "filler (start n) = []" "start (start n) = start n" using no_filler [of "start n"] start_fits assms(2) by (simp_all add: before_def)
  then obtain r2 where r2: "before r2 ?s (start n)" "ReadPhysicalRecord hw r1 = ReadPhysicalRecord hw r2" "loaded r2 (start n)"
    using reach_start [of r1 "start n" ?s] r1(1) by auto
  have "if mode = kSkipAnyCorruptedRecords then ReadRecord_loop hw mode [] False 0 r = None else \<exists>q. ReadRecord_loop hw mode [] False 0 r = Some (None, q)"
    using r1(2)
  proof
    assume "ReadPhysicalRecord hw r = ReadPhysicalRecord hw r1 \<and> loaded r1 (start n)"
    then show ?thesis using old_next old [OF r1(1)] by blast
  next
    assume "ReadPhysicalRecord hw r = ((kBadRecord, [], 0), r1)"
    then have "ReadRecord_loop hw mode [] False 0 r = ReadRecord_loop hw mode [] False 0 r1" by (rule loop_skip)
    then show ?thesis using old_next [OF r2(2) old [OF r2(1,3)], of mode 0] by (simp only:)
  qed
  then show ?thesis unfolding read_one [OF assms(2)] .
qed

lemma read_own_foreign:
  assumes rc "write_all hw (Writer hw ln rc []) xs = Some w" "w_block_offset w \<le> kBlockSize"
    "valid_type True t" "fragment_start (w_block_offset w) + 11 + length data \<le> kBlockSize" "(ucast (ucast lo :: u32) :: u64) \<noteq> ln"
    "file = w_dest w @ padding (w_block_offset w) @ phys True lo t data @ v"
  shows "if mode = kSkipAnyCorruptedRecords then \<forall>n. read_all hw mode (length xs + n) (Reader file [] reporter checksum 0 ln) = None
    else \<exists>q. read_all hw mode (Suc (length xs)) (Reader file [] reporter checksum 0 ln) = Some (xs, q)"
proof -
  have e: "padding n = filler n" "fragment_start n = start n" for n 
    unfolding padding_def filler_def fragment_start_def start_def hsize_def using assms(1) by simp_all
  let ?w = "Writer hw ln rc []" and ?u = "filler (w_block_offset w) @ phys True lo t data @ v"
  have z: "w_dest w = w_dest ?w @ w_dest w" "w_block_offset ?w = 0" by (simp_all add: Writer_def)
  have "before (Reader file [] reporter checksum 0 ln) (w_dest w @ ?u) (w_block_offset ?w)"
    unfolding z(2) assms(7) e by (rule fresh_before)
  from read_own [OF fresh_writing assms(2) z(1) this] obtain r' where r': "before r' ?u (w_block_offset w)"
    "\<And>n. read_all hw mode (length xs + n) (Reader file [] reporter checksum 0 ln) = map_option (\<lambda>(ys, q). (xs @ ys, q)) (read_all hw mode n r')"
    by blast
  have "if mode = kSkipAnyCorruptedRecords then ReadRecord hw mode r' = None else \<exists>q. ReadRecord hw mode r' = Some (None, q)"
    using read_foreign [OF assms(1) r'(1)] assms(4-6) by (simp add: e)
  then show ?thesis
  proof (cases "mode = kSkipAnyCorruptedRecords")
    case True
    then have "read_all hw mode n r' = None" for n using \<open>if _ then _ else _\<close> by (cases n) simp_all
    then show ?thesis using r'(2) True by simp
  next
    case False
    then show ?thesis using r'(2) [of 1] \<open>if _ then _ else _\<close> by auto
  qed
qed

end


text \<open>
  C26. What happens to records of an earlier log in a recycled file. The records \<open>xs\<close> are written over
  the file of a log with another number, up to a place where a record \<open>y\<close> of the earlier log begins,
  and the rest of that file is still there. A reader returns \<open>xs\<close> and takes \<open>y\<close> for the end of the log;
  but if it is to skip corrupted records, it never ends, because it leaves \<open>y\<close> in its buffer. The
  numbers are compared in 64 bits where only 32 are stored, so that from \<open>2 ^ 32\<close> on the same happens to a
  log's own records. If there are records \<open>xs\<close>, their log number is below \<open>2 ^ 32\<close> and the reader is
  not asked for absolute consistency.
\<close>

theorem log_old_records:
  assumes "hw_valid hw" "write_all hw (Writer hw ln True []) xs = Some w"
    "write_all hw (Writer hw lo True []) ys = Some w0" "AddRecord hw y w0 = Some (ok, w1)" "length (w_dest w0) = length (w_dest w)"
    "(ucast (ucast lo :: u32) :: u64) \<noteq> ln" "xs = [] \<or> unat ln < 2 ^ 32 \<and> mode \<noteq> kAbsoluteConsistency"
    "file = w_dest w @ drop (length (w_dest w)) (w_dest w1 @ tail)"
  shows "if mode = kSkipAnyCorruptedRecords then \<forall>n. read_all hw mode (length xs + n) (Reader file [] reporter checksum 0 ln) = None
    else \<exists>r. read_all hw mode (Suc (length xs)) (Reader file [] reporter checksum 0 ln) = Some (xs, r)"
proof -
  have tr: "tracks hw ln w" "tracks hw lo w0" 
    using write_tracks [OF assms(1) fresh_tracks, of ln xs] write_tracks [OF assms(1) fresh_tracks, of lo ys] assms(2,3) by simp_all
  then have n: "w_block_offset w0 = w_block_offset w" "w_block_offset w \<le> kBlockSize" using assms(5) block_position_le by (simp_all add: tracks_def)
  obtain t data u where f: "w_dest w1 = w_dest w0 @ padding (w_block_offset w) @ phys True lo t data @ u" "valid_type True t"
    "fragment_start (w_block_offset w) + 11 + length data \<le> kBlockSize"
    using add_starts [OF assms(1) tr(2) assms(4)] unfolding n(1) by blast
  have whole: "file = w_dest w @ padding (w_block_offset w) @ phys True lo t data @ (u @ tail)" using assms(5,8) f(1) by simp
  show ?thesis
  proof (cases "xs = []")
    case True
    then have "w_dest w = []" "w_block_offset w = 0" using assms(2) by (auto simp: Writer_def)
    then have fl: "file = phys True lo t data @ (u @ tail)" using whole by (simp add: padding_def kBlockSize_def)
    have fit: "hsize True + length data \<le> kBlockSize" using f(3) by (simp add: hsize_def)
    show ?thesis using old_first [OF fl f(2) fit assms(6), of mode hw reporter checksum] by (simp only: True list.size(3) add_0)
  next
    case False
    then have "log_file hw True ln mode" using assms(1,7) by unfold_locales auto
    then show ?thesis using log_file.read_own_foreign assms(2,6) n(2) f(2,3) whole by blast
  qed
qed

theorem log_old_records_witness:
  "\<exists>w w0 w1. write_all None (Writer None 4 True []) [[1, 2]] = Some w \<and> write_all None (Writer None 3 True []) [[8, 9]] = Some w0 \<and>
     AddRecord None [5] w0 = Some (True, w1) \<and>
     (\<forall>n. read_all None kSkipAnyCorruptedRecords (1 + n) (Reader (w_dest w @ drop (length (w_dest w)) (w_dest w1)) [] True True 0 4) = None)"
proof -
  have hw: "hw_valid None" by (simp add: hw_valid_def)
  have b: "11 + length [x :: u8, y] \<le> kBlockSize" for x y by (simp add: kBlockSize_def)
  obtain w where w: "write_all None (Writer None 4 True []) [[1, 2]] = Some w" "length (w_dest w) = 11 + length [1 :: u8, 2]"
    using write_short [OF hw b] by blast
  obtain w0 where w0: "write_all None (Writer None 3 True []) [[8, 9]] = Some w0" "tracks None 3 w0" "length (w_dest w0) = 11 + length [8 :: u8, 9]"
    using write_short [OF hw b] by blast
  obtain w1 where w1: "AddRecord None [5] w0 = Some (True, w1)" using add_tracks [OF hw w0(2)] by (auto simp: AddRecord_def)
  have "length (w_dest w0) = length (w_dest w)" "(ucast (ucast (3 :: u64) :: u32) :: u64) \<noteq> 4"
    "[[1 :: u8, 2]] = [] \<or> unat (4 :: u64) < 2 ^ 32 \<and> kSkipAnyCorruptedRecords \<noteq> kAbsoluteConsistency" using w(2) w0(3) by simp_all
  from log_old_records [OF hw w(1) w0(1) w1 this, of _ "[]" True True] w(1) w0(1) w1 show ?thesis by auto
qed

end
