(* ===== verification/Key_Order.thy ===== *)
theory Key_Order
  imports Coding
begin

text \<open>
  The orders of keys of the storage engine: comparing slices (\<open>rocksdb/include/rocksdb/slice.h\<close>) and the
  two built-in comparators (\<open>rocksdb/util/comparator.cc\<close>). The interface \<open>Comparator\<close> of
  \<open>include/rocksdb/comparator.h\<close> is the locale \<open>comparator\<close> with its extension \<open>separating_comparator\<close>; both
  are interpreted on the built-in comparators here and on internal keys in \<open>Internal_Key\<close>.
\<close>

section \<open>Slices\<close>

text \<open>\<open>memcmp\<close> of the C library compares bytes as unsigned numbers; only the sign of its result counts.\<close>

fun memcmp :: "nat \<Rightarrow> bytes \<Rightarrow> bytes \<Rightarrow> int" where
  "memcmp (Suc n) (x # xs) (y # ys) = (if x = y then memcmp n xs ys else if x < y then - 1 else 1)"
| "memcmp n xs ys = 0"

definition slice_compare :: "bytes \<Rightarrow> bytes \<Rightarrow> int" where
  "slice_compare a b =
     (let min_len = (if length a < length b then length a else length b);
          r = memcmp min_len a b in
      if r = 0 then (if length a < length b then - 1 else if length a > length b then 1 else r) else r)"

text \<open>The loop over the common prefix, which \<open>FindShortestSeparator\<close> repeats.\<close>

fun difference_offset :: "bytes \<Rightarrow> bytes \<Rightarrow> nat" where
  "difference_offset (x # xs) (y # ys) = (if x \<noteq> y then 0 else difference_offset xs ys + 1)"
| "difference_offset xs ys = 0"

section \<open>The built-in comparators\<close>

definition bytewise_Compare :: "bytes \<Rightarrow> bytes \<Rightarrow> int" where
  "bytewise_Compare a b = slice_compare a b"

definition reverse_Compare :: "bytes \<Rightarrow> bytes \<Rightarrow> int" where
  "reverse_Compare a b = - slice_compare a b"

text \<open>The first byte from position \<open>i\<close> on that is not \<open>0xff\<close> is incremented and becomes the last.\<close>

function increment_from :: "bytes \<Rightarrow> nat \<Rightarrow> bytes" where
  "increment_from key i =
     (if i < length key then
        if key ! i < 0xff then take (i + 1) (key[i := key ! i + 1]) else increment_from key (i + 1)
      else key)"
  by pat_completeness auto
termination
  by (relation "measure (\<lambda>(key, i). length key - i)") auto

declare increment_from.simps [simp del]

text \<open>The comparator \<open>cmp\<close> only occurs in the assertion at the end, where the call is virtual.\<close>

definition FindShortestSeparator :: "(bytes \<Rightarrow> bytes \<Rightarrow> int) \<Rightarrow> bytes \<Rightarrow> bytes \<Rightarrow> bytes option" where
  "FindShortestSeparator cmp start limit =
     (let min_length = min (length start) (length limit);
          diff_index = difference_offset start limit in
      if diff_index \<ge> min_length then Some start
      else
        let start_byte = start ! diff_index; limit_byte = limit ! diff_index in
        if start_byte \<ge> limit_byte then Some start
        else
          let start' = (if diff_index < length limit - 1 \<or> unat start_byte + 1 < unat limit_byte
                        then take (diff_index + 1) (start[diff_index := start_byte + 1])
                        else increment_from start (diff_index + 1)) in
          if cmp start' limit < 0 then Some start' else None)"

definition FindShortSuccessor :: "bytes \<Rightarrow> bytes" where
  "FindShortSuccessor key = increment_from key 0"

section \<open>Byte-wise order\<close>

lemma slice_compare_simps [simp]:
  "slice_compare [] [] = 0"
  "slice_compare [] (y # ys) = - 1"
  "slice_compare (x # xs) [] = 1"
  "slice_compare (x # xs) (y # ys) = (if x = y then slice_compare xs ys else if x < y then - 1 else 1)"
  by (auto simp: slice_compare_def Let_def)

lemma slice_compare_zero [simp]: "slice_compare a b = 0 \<longleftrightarrow> a = b"
proof (induction a arbitrary: b)
  case Nil show ?case by (cases b) auto
next
  case (Cons x xs) then show ?case by (cases b) auto
qed

lemma slice_compare_refl [simp]: "slice_compare a a = 0"
  by (simp only: slice_compare_zero)

lemma slice_compare_flip: "slice_compare b a = - slice_compare a b"
proof (induction a arbitrary: b)
  case Nil show ?case by (cases b) auto
next
  case (Cons x xs)
  show ?case
  proof (cases b)
    case b: (Cons y ys)
    then show ?thesis using Cons [of ys] by auto
  qed simp
qed

lemma slice_compare_trans: "slice_compare a b < 0 \<Longrightarrow> slice_compare b c < 0 \<Longrightarrow> slice_compare a c < 0"
proof (induction a arbitrary: b c)
  case Nil then show ?case by (cases b; cases c) auto
next
  case (Cons x xs)
  then show ?case by (cases b; cases c) (auto split: if_splits)
qed

lemma slice_compare_append: "slice_compare (p @ a) (p @ b) = slice_compare a b"
  by (induction p) auto

lemma difference_offset_split:
  "difference_offset a b \<le> length a \<and> difference_offset a b \<le> length b \<and> take (difference_offset a b) a = take (difference_offset a b) b"
  by (induction a b rule: difference_offset.induct) auto

lemma difference_offset_byte:
  "difference_offset a b < length a \<Longrightarrow> difference_offset a b < length b \<Longrightarrow> a ! difference_offset a b \<noteq> b ! difference_offset a b"
  by (induction a b rule: difference_offset.induct) auto

lemma increment_from_cases:
  "increment_from key i = key \<or>
   (\<exists>j < length key. i \<le> j \<and> key ! j < 0xff \<and> increment_from key i = take j key @ [key ! j + 1])"
proof (induction key i rule: increment_from.induct)
  case (1 key i)
  show ?case
  proof (cases "i < length key \<and> \<not> key ! i < 0xff")
    case True
    then have "increment_from key i = increment_from key (i + 1)" by (subst increment_from.simps) simp
    then show ?thesis using 1 True by (metis Suc_eq_plus1 Suc_leD)
  next
    case False
    show ?thesis
    proof (cases "i < length key")
      case True
      then have "increment_from key i = take i key @ [key ! i + 1]"
        using False by (subst increment_from.simps) (simp add: take_Suc_conv_app_nth)
      then show ?thesis using True False by blast
    next
      case ge: False
      then show ?thesis by (subst increment_from.simps) simp
    qed
  qed
qed

lemma byte_increment_less: "x < (0xff :: u8) \<Longrightarrow> x < x + 1"
proof -
  assume "x < 0xff"
  then have "unat x < 255" by (simp add: word_less_nat_alt)
  then have "unat (x + 1) = unat x + 1" by (simp add: unat_word_ariths)
  then show ?thesis by (simp add: word_less_nat_alt)
qed

lemma incremented_greater:
  assumes "j < length key" "key ! j < 0xff"
  shows "slice_compare key (take j key @ [key ! j + 1]) = - 1"
proof -
  have "key = take j key @ key ! j # drop (Suc j) key" using assms(1) by (rule id_take_nth_drop)
  then have "slice_compare key (take j key @ [key ! j + 1]) = slice_compare (key ! j # drop (Suc j) key) [key ! j + 1]"
    by (metis slice_compare_append)
  then show ?thesis using byte_increment_less [OF assms(2)] by auto
qed

lemma increment_from_greater: "slice_compare key (increment_from key i) \<le> 0"
  using increment_from_cases [of key i] incremented_greater [of _ key] by auto

lemma FindShortSuccessor_ge: "slice_compare key (FindShortSuccessor key) \<le> 0"
  unfolding FindShortSuccessor_def by (rule increment_from_greater)

section \<open>What a comparator promises\<close>

text \<open>
  \<open>keys\<close> are the byte strings the comparator is meant for. Comparison is a strict total order; a
  separating comparator also shortens a key below a limit, and leaves equal keys alone.
\<close>

locale comparator =
  fixes keys :: "bytes \<Rightarrow> bool" and cmp :: "bytes \<Rightarrow> bytes \<Rightarrow> int"
  assumes cmp_zero: "keys a \<Longrightarrow> keys b \<Longrightarrow> cmp a b = 0 \<longleftrightarrow> a = b"
    and cmp_flip: "keys a \<Longrightarrow> keys b \<Longrightarrow> cmp a b < 0 \<longleftrightarrow> 0 < cmp b a"
    and cmp_trans: "keys a \<Longrightarrow> keys b \<Longrightarrow> keys c \<Longrightarrow> cmp a b < 0 \<Longrightarrow> cmp b c < 0 \<Longrightarrow> cmp a c < 0"
begin

lemma cmp_refl: "keys a \<Longrightarrow> cmp a a = 0"
  by (simp add: cmp_zero)

lemma cmp_not_less: "keys a \<Longrightarrow> keys b \<Longrightarrow> \<not> cmp a b < 0 \<longleftrightarrow> a = b \<or> cmp b a < 0"
  using cmp_zero [of a b] cmp_flip [of a b] cmp_flip [of b a] by fastforce

lemma cmp_le_less: "keys a \<Longrightarrow> keys b \<Longrightarrow> keys c \<Longrightarrow> cmp a b \<le> 0 \<Longrightarrow> cmp b c < 0 \<Longrightarrow> cmp a c < 0"
  using cmp_zero [of a b] cmp_trans [of a b c] by fastforce

lemma cmp_less_le: "keys a \<Longrightarrow> keys b \<Longrightarrow> keys c \<Longrightarrow> cmp a b < 0 \<Longrightarrow> cmp b c \<le> 0 \<Longrightarrow> cmp a c < 0"
  using cmp_zero [of b c] cmp_trans [of a b c] by fastforce

end

locale separating_comparator = comparator +
  fixes sep :: "bytes \<Rightarrow> bytes \<Rightarrow> bytes option"
  assumes sep_between: "keys a \<Longrightarrow> keys b \<Longrightarrow> cmp a b < 0 \<Longrightarrow> \<exists>s. sep a b = Some s \<and> keys s \<and> cmp a s \<le> 0 \<and> cmp s b < 0"
    and sep_equal: "keys a \<Longrightarrow> sep a a = Some a"

text \<open>Separating two keys byte-wise.\<close>

lemma separator_equal [simp]: "FindShortestSeparator cmp a a = Some a"
proof -
  have "difference_offset a a = length a" by (induction a) auto
  then show ?thesis by (simp add: FindShortestSeparator_def)
qed

lemma separator_step:
  assumes "d < length a" "d < length b" "take d a = take d b" "a ! d < b ! d" "d < length b - 1 \<or> unat (a ! d) + 1 < unat (b ! d)"
  shows "slice_compare a (take d a @ [a ! d + 1]) = - 1 \<and> slice_compare (take d a @ [a ! d + 1]) b < 0"
proof -
  have less: "unat (a ! d) < unat (b ! d)" using assms(4) by (simp add: word_less_nat_alt)
  then have ff: "a ! d < 0xff" using byte_less [of "b ! d"] by (simp add: word_less_nat_alt)
  have inc: "unat (a ! d + 1) = unat (a ! d) + 1" using ff by (simp add: unat_word_ariths word_less_nat_alt)
  have b: "b = take d a @ b ! d # drop (Suc d) b" using assms(2,3) by (simp add: id_take_nth_drop)
  have "slice_compare (take d a @ [a ! d + 1]) b = slice_compare [a ! d + 1] (b ! d # drop (Suc d) b)"
    by (subst b) (rule slice_compare_append)
  also have "\<dots> < 0"
  proof (cases "a ! d + 1 = b ! d")
    case True
    then have "d < length b - 1" using assms(5) inc by auto
    then have "drop (Suc d) b \<noteq> []" by simp
    then show ?thesis using True by (cases "drop (Suc d) b") auto
  next
    case False
    then have "a ! d + 1 < b ! d" using inc less by (simp add: word_less_nat_alt word_unat_eq_iff)
    then show ?thesis by auto
  qed
  finally show ?thesis using incremented_greater [OF assms(1) ff] by simp
qed

lemma separator_skip:
  assumes "d < length a" "d < length b" "take d a = take d b" "a ! d < b ! d"
  shows "slice_compare (increment_from a (d + 1)) b < 0"
proof -
  have b: "b = take d a @ b ! d # drop (Suc d) b" using assms(2,3) by (simp add: id_take_nth_drop)
  obtain u where "increment_from a (d + 1) = take d a @ a ! d # u"
  proof (cases "increment_from a (d + 1) = a")
    case True
    then show ?thesis using that id_take_nth_drop [OF assms(1)] by simp
  next
    case False
    then obtain j where j: "d + 1 \<le> j" "j < length a" "increment_from a (d + 1) = take j a @ [a ! j + 1]"
      using increment_from_cases [of a "d + 1"] by blast
    then have "take j a = take d a @ a ! d # take (j - Suc d) (drop (Suc d) a)"
      by (subst id_take_nth_drop [OF assms(1)]) (simp add: min_def take_Cons')
    then show ?thesis using that j by simp
  qed
  then have "slice_compare (increment_from a (d + 1)) b = slice_compare (a ! d # u) (b ! d # drop (Suc d) b)"
    by (subst b) (simp only: slice_compare_append)
  then show ?thesis using assms(4) by auto
qed

lemma separator_between:
  assumes "slice_compare a b < 0"
  shows "\<exists>s. FindShortestSeparator slice_compare a b = Some s \<and> slice_compare a s \<le> 0 \<and> slice_compare s b < 0"
proof -
  define d where "d = difference_offset a b"
  show ?thesis
  proof (cases "d < length a \<and> d < length b \<and> a ! d < b ! d")
    case False
    then have "FindShortestSeparator slice_compare a b = Some a"
      unfolding FindShortestSeparator_def Let_def d_def [symmetric] by auto
    then show ?thesis using assms by simp
  next
    case True
    have t: "take d a = take d b" unfolding d_def using difference_offset_split by blast
    define s where "s = (if d < length b - 1 \<or> unat (a ! d) + 1 < unat (b ! d) then take d a @ [a ! d + 1] else increment_from a (d + 1))"
    have "take (d + 1) (a[d := a ! d + 1]) = take d a @ [a ! d + 1]" using True by (simp add: take_Suc_conv_app_nth)
    then have "FindShortestSeparator slice_compare a b = (if slice_compare s b < 0 then Some s else None)"
      unfolding FindShortestSeparator_def Let_def d_def [symmetric] s_def using True by auto
    moreover have "slice_compare a s \<le> 0 \<and> slice_compare s b < 0"
      unfolding s_def using True t separator_step [of d a b] separator_skip [of d a b] increment_from_greater [of a "d + 1"] by auto
    ultimately show ?thesis by auto
  qed
qed

text \<open>The reverse comparator inherits the routine, which then never finds anything to shorten.\<close>

lemma separator_reverse:
  assumes "slice_compare b a < 0"
  shows "FindShortestSeparator cmp a b = Some a"
proof -
  define d where "d = difference_offset a b"
  have "\<not> a ! d < b ! d" if less: "d < length a" "d < length b"
  proof
    assume lt: "a ! d < b ! d"
    have t: "take d a = take d b" unfolding d_def using difference_offset_split by blast
    have "a = take d a @ a ! d # drop (Suc d) a" using less(1) by (rule id_take_nth_drop)
    moreover have "b = take d a @ b ! d # drop (Suc d) b" unfolding t using less(2) by (rule id_take_nth_drop)
    ultimately have "slice_compare b a = slice_compare (b ! d # drop (Suc d) b) (a ! d # drop (Suc d) a)"
      by (metis slice_compare_append)
    then show False using assms lt by (auto split: if_splits)
  qed
  then have "min (length a) (length b) \<le> d \<or> b ! d \<le> a ! d" by (metis leI min_less_iff_conj)
  then show ?thesis unfolding FindShortestSeparator_def Let_def d_def [symmetric] by auto
qed

interpretation bytewise: separating_comparator "\<lambda>_. True" bytewise_Compare "FindShortestSeparator bytewise_Compare"
proof
  have b: "bytewise_Compare = slice_compare" by (simp add: fun_eq_iff bytewise_Compare_def)
  show "bytewise_Compare a b = 0 \<longleftrightarrow> a = b" for a b by (simp add: b)
  show "bytewise_Compare a b < 0 \<longleftrightarrow> 0 < bytewise_Compare b a" for a b
    using slice_compare_flip [of a b] by (simp add: b)
  show "bytewise_Compare a c < 0" if "bytewise_Compare a d < 0" "bytewise_Compare d c < 0" for a d c
    using slice_compare_trans that by (simp add: b)
  show "\<exists>s. FindShortestSeparator bytewise_Compare a c = Some s \<and> True \<and> bytewise_Compare a s \<le> 0 \<and> bytewise_Compare s c < 0"
    if "bytewise_Compare a c < 0" for a c using separator_between that by (simp add: b)
qed simp

interpretation reverse: separating_comparator "\<lambda>_. True" reverse_Compare "FindShortestSeparator reverse_Compare"
proof
  show "reverse_Compare a b = 0 \<longleftrightarrow> a = b" for a b by (simp add: reverse_Compare_def)
  show "reverse_Compare a b < 0 \<longleftrightarrow> 0 < reverse_Compare b a" for a b
    using slice_compare_flip [of a b] by (simp add: reverse_Compare_def)
  show "reverse_Compare a c < 0" if "reverse_Compare a d < 0" "reverse_Compare d c < 0" for a d c
    using slice_compare_trans [of c d a] slice_compare_flip [of a d] slice_compare_flip [of d c] slice_compare_flip [of a c] that
    by (simp add: reverse_Compare_def)
  show "\<exists>s. FindShortestSeparator reverse_Compare a c = Some s \<and> True \<and> reverse_Compare a s \<le> 0 \<and> reverse_Compare s c < 0"
    if "reverse_Compare a c < 0" for a c
    using separator_reverse [of c a] that slice_compare_flip [of a c] by (simp add: reverse_Compare_def)
qed simp

end
