(* ===== verification/Internal_Key.thy ===== *)
theory Internal_Key
  imports Key_Order
begin

text \<open>
  Internal keys of the storage engine (\<open>rocksdb/db/dbformat.h\<close> and \<open>dbformat.cc\<close>): a user key followed by
  eight bytes with a sequence number and a value type, their order, the keys used for lookups, the
  buffer \<open>IterKey\<close> and range tombstones. A failed assertion has no result. The first argument of
  the routines is the byte order of the machine.
\<close>

section \<open>Value types and packing\<close>

type_synonym ValueType = u8

definition kTypeDeletion :: ValueType where "kTypeDeletion = 0x0"
definition kTypeValue :: ValueType where "kTypeValue = 0x1"
definition kTypeMerge :: ValueType where "kTypeMerge = 0x2"
definition kTypeSingleDeletion :: ValueType where "kTypeSingleDeletion = 0x7"
definition kTypeRangeDeletion :: ValueType where "kTypeRangeDeletion = 0xF"
definition kMaxValue :: ValueType where "kMaxValue = 0x7F"

definition kValueTypeForSeek :: ValueType where "kValueTypeForSeek = kTypeSingleDeletion"

definition IsValueType :: "ValueType \<Rightarrow> bool" where
  "IsValueType t \<longleftrightarrow> t \<le> kTypeMerge \<or> t = kTypeSingleDeletion"

definition IsExtendedValueType :: "ValueType \<Rightarrow> bool" where
  "IsExtendedValueType t \<longleftrightarrow> IsValueType t \<or> t = kTypeRangeDeletion"

definition kMaxSequenceNumber :: u64 where
  "kMaxSequenceNumber = push_bit 56 1 - 1"

record ParsedInternalKey =
  user_key :: bytes
  sequence :: u64
  vtype :: ValueType

definition InternalKeyEncodingLength :: "ParsedInternalKey \<Rightarrow> nat" where
  "InternalKeyEncodingLength key = length (user_key key) + 8"

definition PackSequenceAndType :: "u64 \<Rightarrow> ValueType \<Rightarrow> u64 option" where
  "PackSequenceAndType seq t =
     (if seq \<le> kMaxSequenceNumber \<and> IsExtendedValueType t then Some (push_bit 8 seq OR ucast t) else None)"

definition UnPackSequenceAndType :: "u64 \<Rightarrow> (u64 \<times> ValueType) option" where
  "UnPackSequenceAndType packed =
     (let seq = drop_bit 8 packed; t = ucast (packed AND 0xff) in
      if seq \<le> kMaxSequenceNumber \<and> IsExtendedValueType t then Some (seq, t) else None)"

section \<open>Serialized internal keys\<close>

definition AppendInternalKey :: "bool \<Rightarrow> bytes \<Rightarrow> ParsedInternalKey \<Rightarrow> bytes option" where
  "AppendInternalKey le result key =
     map_option (PutFixed64 le (result @ user_key key)) (PackSequenceAndType (sequence key) (vtype key))"

definition AppendInternalKeyFooter :: "bool \<Rightarrow> bytes \<Rightarrow> u64 \<Rightarrow> ValueType \<Rightarrow> bytes option" where
  "AppendInternalKeyFooter le result s t = map_option (PutFixed64 le result) (PackSequenceAndType s t)"

text \<open>The number in the last eight bytes.\<close>

definition footer :: "bool \<Rightarrow> bytes \<Rightarrow> u64" where
  "footer le internal_key = DecodeFixed64 le (drop (length internal_key - 8) internal_key)"

definition ExtractUserKey :: "bytes \<Rightarrow> bytes option" where
  "ExtractUserKey internal_key =
     (if length internal_key \<ge> 8 then Some (take (length internal_key - 8) internal_key) else None)"

definition ExtractValueType :: "bool \<Rightarrow> bytes \<Rightarrow> ValueType option" where
  "ExtractValueType le internal_key =
     (if length internal_key \<ge> 8 then Some (ucast (footer le internal_key AND 0xff)) else None)"

text \<open>The inner option is empty where the source returns false.\<close>

definition ParseInternalKey :: "bool \<Rightarrow> bytes \<Rightarrow> ParsedInternalKey option option" where
  "ParseInternalKey le internal_key =
     (let n = length internal_key in
      if n < 8 then Some None
      else
        let num = footer le internal_key; c = ucast (num AND 0xff) :: u8 in
        if \<not> c \<le> kMaxValue then None
        else Some (if IsExtendedValueType c
                   then Some \<lparr>user_key = take (n - 8) internal_key, sequence = drop_bit 8 num, vtype = c\<rparr> else None))"

definition UpdateInternalKey :: "bool \<Rightarrow> bytes \<Rightarrow> u64 \<Rightarrow> ValueType \<Rightarrow> bytes option" where
  "UpdateInternalKey le ikey seq t =
     (if length ikey \<ge> 8 then Some (take (length ikey - 8) ikey @ EncodeFixed64 le (push_bit 8 seq OR ucast t)) else None)"

definition GetInternalKeySeqno :: "bool \<Rightarrow> bytes \<Rightarrow> u64 option" where
  "GetInternalKeySeqno le internal_key =
     (if length internal_key \<ge> 8 then Some (drop_bit 8 (footer le internal_key)) else None)"

section \<open>The class \<open>InternalKey\<close>\<close>

text \<open>An object is its string \<open>rep_\<close>, which is empty after construction.\<close>

definition InternalKey :: "bool \<Rightarrow> bytes \<Rightarrow> u64 \<Rightarrow> ValueType \<Rightarrow> bytes option" where
  "InternalKey le ukey s t = AppendInternalKey le [] \<lparr>user_key = ukey, sequence = s, vtype = t\<rparr>"

definition SetMaxPossibleForUserKey :: "bool \<Rightarrow> bytes \<Rightarrow> bytes \<Rightarrow> bytes option" where
  "SetMaxPossibleForUserKey le rep ukey =
     AppendInternalKey le rep \<lparr>user_key = ukey, sequence = kMaxSequenceNumber, vtype = kValueTypeForSeek\<rparr>"

definition SetMinPossibleForUserKey :: "bool \<Rightarrow> bytes \<Rightarrow> bytes \<Rightarrow> bytes option" where
  "SetMinPossibleForUserKey le rep ukey = AppendInternalKey le rep \<lparr>user_key = ukey, sequence = 0, vtype = 0\<rparr>"

definition Valid_InternalKey :: "bool \<Rightarrow> bytes \<Rightarrow> bool option" where
  "Valid_InternalKey le rep = map_option (\<lambda>r. r \<noteq> None) (ParseInternalKey le rep)"

definition SetFrom :: "bool \<Rightarrow> ParsedInternalKey \<Rightarrow> bytes option" where
  "SetFrom le p = AppendInternalKey le [] p"

definition ConvertFromUserKey :: "bool \<Rightarrow> bytes \<Rightarrow> u64 \<Rightarrow> ValueType \<Rightarrow> bytes option" where
  "ConvertFromUserKey le rep s t = AppendInternalKeyFooter le rep s t"

section \<open>The comparator of internal keys\<close>

definition internal_Compare :: "bool \<Rightarrow> (bytes \<Rightarrow> bytes \<Rightarrow> int) \<Rightarrow> bytes \<Rightarrow> bytes \<Rightarrow> int option" where
  "internal_Compare le user_Compare akey bkey =
     (case (ExtractUserKey akey, ExtractUserKey bkey) of
        (Some a, Some b) \<Rightarrow>
          let r = user_Compare a b in
          Some (if r = 0 then
                  let anum = footer le akey; bnum = footer le bkey in
                  if anum > bnum then - 1 else if anum < bnum then 1 else r
                else r)
      | _ \<Rightarrow> None)"

definition parsed_Compare :: "(bytes \<Rightarrow> bytes \<Rightarrow> int) \<Rightarrow> ParsedInternalKey \<Rightarrow> ParsedInternalKey \<Rightarrow> int" where
  "parsed_Compare user_Compare a b =
     (let r = user_Compare (user_key a) (user_key b) in
      if r = 0 then
        if sequence a > sequence b then - 1
        else if sequence a < sequence b then 1
        else if vtype a > vtype b then - 1
        else if vtype a < vtype b then 1
        else r
      else r)"

text \<open>The assertions that compare the result are virtual calls of the same comparator.\<close>

definition internal_FindShortestSeparator ::
  "bool \<Rightarrow> (bytes \<Rightarrow> bytes \<Rightarrow> int) \<Rightarrow> (bytes \<Rightarrow> bytes \<Rightarrow> bytes option) \<Rightarrow> bytes \<Rightarrow> bytes \<Rightarrow> bytes option" where
  "internal_FindShortestSeparator le user_Compare user_FindShortestSeparator start limit =
     (case (ExtractUserKey start, ExtractUserKey limit) of
        (Some user_start, Some user_limit) \<Rightarrow>
          (case user_FindShortestSeparator user_start user_limit of
             None \<Rightarrow> None
           | Some tmp \<Rightarrow>
               if length tmp \<le> length user_start \<and> user_Compare user_start tmp < 0 then
                 (case PackSequenceAndType kMaxSequenceNumber kValueTypeForSeek of
                    None \<Rightarrow> None
                  | Some packed \<Rightarrow>
                      let tmp = PutFixed64 le tmp packed in
                      (case (internal_Compare le user_Compare start tmp, internal_Compare le user_Compare tmp limit) of
                         (Some r1, Some r2) \<Rightarrow> if r1 < 0 \<and> r2 < 0 then Some tmp else None
                       | _ \<Rightarrow> None))
               else Some start)
      | _ \<Rightarrow> None)"

definition internal_FindShortSuccessor ::
  "bool \<Rightarrow> (bytes \<Rightarrow> bytes \<Rightarrow> int) \<Rightarrow> (bytes \<Rightarrow> bytes) \<Rightarrow> bytes \<Rightarrow> bytes option" where
  "internal_FindShortSuccessor le user_Compare user_FindShortSuccessor key =
     (case ExtractUserKey key of
        None \<Rightarrow> None
      | Some ukey \<Rightarrow>
          let tmp = user_FindShortSuccessor ukey in
          if length tmp \<le> length ukey \<and> user_Compare ukey tmp < 0 then
            (case PackSequenceAndType kMaxSequenceNumber kValueTypeForSeek of
               None \<Rightarrow> None
             | Some packed \<Rightarrow>
                 let tmp = PutFixed64 le tmp packed in
                 (case internal_Compare le user_Compare key tmp of
                    Some r \<Rightarrow> if r < 0 then Some tmp else None
                  | None \<Rightarrow> None))
          else Some key)"

section \<open>Lookup keys and range tombstones\<close>

text \<open>The array between \<open>start_\<close> and \<open>end_\<close>, and the distance of \<open>kstart_\<close> from its beginning.\<close>

record LookupKey =
  lk_array :: bytes
  lk_kstart :: nat

definition make_LookupKey :: "bool \<Rightarrow> bytes \<Rightarrow> u64 \<Rightarrow> LookupKey option" where
  "make_LookupKey le ukey s =
     map_option (\<lambda>packed.
       let prefix = EncodeVarint32 (of_nat (length ukey + 8)) in
       \<lparr>lk_array = prefix @ ukey @ EncodeFixed64 le packed, lk_kstart = length prefix\<rparr>)
     (PackSequenceAndType s kValueTypeForSeek)"

definition lk_memtable_key :: "LookupKey \<Rightarrow> bytes" where
  "lk_memtable_key k = lk_array k"

definition lk_internal_key :: "LookupKey \<Rightarrow> bytes" where
  "lk_internal_key k = drop (lk_kstart k) (lk_array k)"

definition lk_user_key :: "LookupKey \<Rightarrow> bytes" where
  "lk_user_key k = take (length (lk_array k) - lk_kstart k - 8) (drop (lk_kstart k) (lk_array k))"

record RangeTombstone =
  start_key :: bytes
  end_key :: bytes
  rt_seq :: u64

definition make_RangeTombstone :: "ParsedInternalKey \<Rightarrow> bytes \<Rightarrow> RangeTombstone" where
  "make_RangeTombstone parsed_key value =
     \<lparr>start_key = user_key parsed_key, end_key = value, rt_seq = sequence parsed_key\<rparr>"

definition Serialize :: "bool \<Rightarrow> RangeTombstone \<Rightarrow> (bytes \<times> bytes) option" where
  "Serialize le t = map_option (\<lambda>key. (key, end_key t)) (InternalKey le (start_key t) (rt_seq t) kTypeRangeDeletion)"

definition SerializeKey :: "bool \<Rightarrow> RangeTombstone \<Rightarrow> bytes option" where
  "SerializeKey le t = InternalKey le (start_key t) (rt_seq t) kTypeRangeDeletion"

definition SerializeEndKey :: "bool \<Rightarrow> RangeTombstone \<Rightarrow> bytes option" where
  "SerializeEndKey le t = InternalKey le (end_key t) (rt_seq t) kTypeRangeDeletion"

section \<open>The buffer \<open>IterKey\<close>\<close>

text \<open>
  \<open>ik_buf\<close> is the memory at \<open>buf_\<close>, whose length is \<open>buf_size_\<close>. \<open>key_\<close> points to it or to memory of somebody else
  with the contents \<open>ik_ext\<close>. A newly allocated buffer is filled with some byte \<open>junk\<close>.
\<close>

record IterKey =
  ik_buf :: bytes
  ik_ext :: "bytes option"
  ik_size :: nat
  ik_is_user_key :: bool

definition make_IterKey :: "u8 \<Rightarrow> IterKey" where
  "make_IterKey junk = \<lparr>ik_buf = replicate 32 junk, ik_ext = None, ik_size = 0, ik_is_user_key = True\<rparr>"

definition ik_key :: "IterKey \<Rightarrow> bytes" where
  "ik_key k = take (ik_size k) (case ik_ext k of Some e \<Rightarrow> e | None \<Rightarrow> ik_buf k)"

text \<open>
  A key in memory of somebody else may be larger than what can be read there; then there is no
  result when all of it is read.
\<close>

definition ik_ok :: "IterKey \<Rightarrow> bool" where
  "ik_ok k \<longleftrightarrow> ik_size k \<le> length (case ik_ext k of Some e \<Rightarrow> e | None \<Rightarrow> ik_buf k)"

definition IsKeyPinned :: "IterKey \<Rightarrow> bool" where
  "IsKeyPinned k \<longleftrightarrow> ik_ext k \<noteq> None"

definition GetInternalKey :: "IterKey \<Rightarrow> bytes option" where
  "GetInternalKey k = (if ik_is_user_key k \<or> \<not> ik_ok k then None else Some (ik_key k))"

definition GetUserKey :: "IterKey \<Rightarrow> bytes option" where
  "GetUserKey k =
     (if ik_is_user_key k then (if ik_ok k then Some (ik_key k) else None)
      else if ik_size k \<ge> 8 \<and> length (ik_key k) \<ge> ik_size k - 8 then Some (take (ik_size k - 8) (ik_key k)) else None)"

definition Clear :: "IterKey \<Rightarrow> IterKey" where
  "Clear k = k\<lparr>ik_size := 0\<rparr>"

text \<open>Writing into the buffer; past its end this is undefined.\<close>

definition write_buf :: "nat \<Rightarrow> bytes \<Rightarrow> IterKey \<Rightarrow> IterKey option" where
  "write_buf off bs k =
     (if off + length bs \<le> length (ik_buf k)
      then Some (k\<lparr>ik_buf := take off (ik_buf k) @ bs @ drop (off + length bs) (ik_buf k)\<rparr>) else None)"

text \<open>A larger buffer replaces the old one; the key is empty then.\<close>

definition EnlargeBufferIfNeeded :: "u8 \<Rightarrow> nat \<Rightarrow> IterKey \<Rightarrow> IterKey" where
  "EnlargeBufferIfNeeded junk key_size k =
     (if key_size > length (ik_buf k) then k\<lparr>ik_buf := replicate key_size junk, ik_size := 0\<rparr> else k)"

definition TrimAppend :: "u8 \<Rightarrow> nat \<Rightarrow> bytes \<Rightarrow> IterKey \<Rightarrow> IterKey option" where
  "TrimAppend junk shared_len non_shared_data k =
     (if shared_len > ik_size k \<or> shared_len > length (ik_key k) then None
      else
        let total_size = shared_len + length non_shared_data; kept = take shared_len (ik_key k) in
        Option.bind
          (if IsKeyPinned k then write_buf 0 kept (EnlargeBufferIfNeeded junk total_size k)
           else if total_size > length (ik_buf k) then write_buf 0 kept (k\<lparr>ik_buf := replicate total_size junk\<rparr>)
           else Some k)
          (\<lambda>k1. map_option (\<lambda>k2. k2\<lparr>ik_ext := None, ik_size := total_size\<rparr>) (write_buf shared_len non_shared_data k1)))"

definition SetKeyImpl :: "u8 \<Rightarrow> bytes \<Rightarrow> bool \<Rightarrow> IterKey \<Rightarrow> IterKey option" where
  "SetKeyImpl junk key copy k =
     (if copy
      then map_option (\<lambda>k'. k'\<lparr>ik_ext := None, ik_size := length key\<rparr>) (write_buf 0 key (EnlargeBufferIfNeeded junk (length key) k))
      else Some (k\<lparr>ik_ext := Some key, ik_size := length key\<rparr>))"

definition SetUserKey :: "u8 \<Rightarrow> bytes \<Rightarrow> bool \<Rightarrow> IterKey \<Rightarrow> IterKey option" where
  "SetUserKey junk key copy k = SetKeyImpl junk key copy (k\<lparr>ik_is_user_key := True\<rparr>)"

definition SetInternalKey :: "u8 \<Rightarrow> bytes \<Rightarrow> bool \<Rightarrow> IterKey \<Rightarrow> IterKey option" where
  "SetInternalKey junk key copy k = SetKeyImpl junk key copy (k\<lparr>ik_is_user_key := False\<rparr>)"

definition Reserve :: "u8 \<Rightarrow> nat \<Rightarrow> IterKey \<Rightarrow> IterKey" where
  "Reserve junk n k = (EnlargeBufferIfNeeded junk n k)\<lparr>ik_size := n\<rparr>"

definition OwnKey :: "u8 \<Rightarrow> IterKey \<Rightarrow> IterKey option" where
  "OwnKey junk k =
     (if \<not> IsKeyPinned k \<or> \<not> ik_ok k then None
      else map_option (\<lambda>k'. k'\<lparr>ik_ext := None\<rparr>) (write_buf 0 (ik_key k) (Reserve junk (ik_size k) k)))"

definition ik_UpdateInternalKey :: "bool \<Rightarrow> u64 \<Rightarrow> ValueType \<Rightarrow> IterKey \<Rightarrow> IterKey option" where
  "ik_UpdateInternalKey le seq t k =
     (if IsKeyPinned k \<or> ik_size k < 8 then None
      else write_buf (ik_size k - 8) (EncodeFixed64 le (push_bit 8 seq OR ucast t)) k)"

definition SetInternalKey_parts :: "u8 \<Rightarrow> bool \<Rightarrow> bytes \<Rightarrow> bytes \<Rightarrow> u64 \<Rightarrow> ValueType \<Rightarrow> IterKey \<Rightarrow> IterKey option" where
  "SetInternalKey_parts junk le key_prefix ukey s value_type k =
     (let k1 = EnlargeBufferIfNeeded junk (length key_prefix + length ukey + 8) k in
      Option.bind (write_buf 0 key_prefix k1) (\<lambda>k2.
      Option.bind (write_buf (length key_prefix) ukey k2) (\<lambda>k3.
      Option.bind (PackSequenceAndType s value_type) (\<lambda>packed.
      map_option (\<lambda>k4. k4\<lparr>ik_ext := None, ik_size := length key_prefix + length ukey + 8, ik_is_user_key := False\<rparr>)
        (write_buf (length ukey + length key_prefix) (EncodeFixed64 le packed) k3)))))"

definition EncodeLengthPrefixedKey :: "u8 \<Rightarrow> bytes \<Rightarrow> IterKey \<Rightarrow> IterKey option" where
  "EncodeLengthPrefixedKey junk key k =
     (let k1 = EnlargeBufferIfNeeded junk (length key + VarintLength (of_nat (length key))) k;
          prefix = EncodeVarint32 (of_nat (length key)) in
      Option.bind (write_buf 0 prefix k1) (\<lambda>k2.
      map_option (\<lambda>k3. k3\<lparr>ik_ext := None, ik_is_user_key := True\<rparr>) (write_buf (length prefix) key k2)))"

section \<open>Packed numbers\<close>

lemmas value_type_defs = IsExtendedValueType_def IsValueType_def kTypeDeletion_def kTypeValue_def kTypeMerge_def
  kTypeSingleDeletion_def kTypeRangeDeletion_def kMaxValue_def kValueTypeForSeek_def

lemma max_sequence: "unat kMaxSequenceNumber = 2 ^ 56 - 1"
  by (simp add: kMaxSequenceNumber_def push_bit_eq_mult unat_word_ariths)

lemma sequence_bound: "seq \<le> kMaxSequenceNumber \<longleftrightarrow> unat seq < 2 ^ 56"
proof -
  have "seq \<le> kMaxSequenceNumber \<longleftrightarrow> unat seq \<le> 2 ^ 56 - 1" by (simp only: word_le_nat_alt max_sequence)
  also have "\<dots> \<longleftrightarrow> unat seq < 2 ^ 56" by (simp, arith)
  finally show ?thesis .
qed

lemma unat_packed:
  assumes "unat (seq :: u64) < 2 ^ 56"
  shows "unat (push_bit 8 seq OR ucast (t :: u8)) = 256 * unat seq + unat t"
proof -
  have "push_bit 8 seq AND ucast t = 0" by (rule bit_eqI) (auto simp: bit_simps dest: bit_imp_le_length)
  then have "push_bit 8 seq OR ucast t = push_bit 8 seq + ucast t" by (simp add: disjunctive_add_eq_or)
  moreover have "unat (ucast t :: u64) = unat t" using byte_less [of t] by (simp add: unsigned_ucast_eq take_bit_eq_mod)
  moreover have "unat (push_bit 8 seq) = 256 * unat seq" using assms by (simp add: push_bit_eq_mult unat_word_ariths)
  ultimately show ?thesis using assms byte_less [of t] by (simp only: unat_word_ariths) simp
qed

lemma drop_packed: "unat (drop_bit 8 (x :: u64)) = unat x div 256"
  by (simp add: unat_drop_bit)

lemma low_packed: "unat (ucast ((x :: u64) AND 0xff) :: u8) = unat x mod 256"
proof -
  have "ucast (x AND 0xff) = (of_nat (unat x) :: u8)" by (rule low_byte_mask) simp
  then show ?thesis by (simp only: byte_of_nat)
qed

lemma PackSequenceAndType_cases:
  "PackSequenceAndType seq t = Some x \<longleftrightarrow> unat seq < 2 ^ 56 \<and> IsExtendedValueType t \<and> unat x = 256 * unat seq + unat t"
  unfolding PackSequenceAndType_def sequence_bound by (auto simp: unat_packed word_unat_eq_iff)

lemma byte_split: "t < 256 \<Longrightarrow> (x div 256 = s \<and> x mod 256 = t) \<longleftrightarrow> x = 256 * s + (t :: nat)"
  by (metis add.commute div_mult_mod_eq mod_less mod_mult_self4 mult.commute div_mult_self4 div_less add_0 zero_neq_numeral)

lemma UnPackSequenceAndType_iff: "UnPackSequenceAndType x = Some (seq, t) \<longleftrightarrow> PackSequenceAndType seq t = Some x"
proof -
  have "unat x div 256 < 2 ^ 56" using unsigned_less [of x, where ?'a = nat] by (simp add: div_less_iff_less_mult)
  moreover have "(drop_bit 8 x = seq \<and> ucast (x AND 0xff) = t) \<longleftrightarrow> unat x = 256 * unat seq + unat t"
    unfolding word_unat_eq_iff [of "drop_bit 8 x"] word_unat_eq_iff [of "ucast (x AND 0xff)"] drop_packed low_packed
    using byte_less [of t] by (rule byte_split)
  ultimately show ?thesis
    unfolding UnPackSequenceAndType_def PackSequenceAndType_cases Let_def sequence_bound drop_packed
    by (auto simp: drop_packed [symmetric])
qed

lemma seek_packed: "PackSequenceAndType kMaxSequenceNumber kValueTypeForSeek = Some (push_bit 8 kMaxSequenceNumber OR ucast kValueTypeForSeek)"
  by (simp add: PackSequenceAndType_def value_type_defs)

section \<open>Internal keys\<close>

lemma footer_append [simp]: "footer le (u @ le_bytes 8 (unat x)) = x"
  using unsigned_less [of x, where ?'a = nat] by (simp add: footer_def le_value_exact)

lemma le_bytes_8_inject [simp]: "le_bytes 8 (unat x) = le_bytes 8 (unat y) \<longleftrightarrow> x = (y :: u64)"
proof
  assume "le_bytes 8 (unat x) = le_bytes 8 (unat y)"
  then have "footer le ([] @ le_bytes 8 (unat x)) = footer le ([] @ le_bytes 8 (unat y))" for le by (rule arg_cong)
  then show "x = y" unfolding footer_append .
qed simp

lemma footer_split:
  assumes "8 \<le> length k"
  shows "k = take (length k - 8) k @ le_bytes 8 (unat (footer le k))"
proof -
  define b where "b = drop (length k - 8) k"
  have b: "length b = 8" using assms by (simp add: b_def)
  then have "le_value b < 2 ^ 64" using le_value_less [of b] by simp
  then have "unat (footer le k) = le_value b" using b unfolding footer_def b_def [symmetric] by (simp add: unat_of_nat)
  then have "le_bytes 8 (unat (footer le k)) = b" using le_bytes_value [of b] b by simp
  then show ?thesis unfolding b_def by simp
qed

lemma internal_keyE:
  assumes "8 \<le> length k"
  obtains u x where "k = u @ le_bytes 8 (unat (x :: u64))"
  using footer_split [OF assms] by blast

lemma ExtractUserKey_append [simp]: "ExtractUserKey (u @ le_bytes 8 x) = Some u"
  by (simp add: ExtractUserKey_def)

lemma internal_Compare_append:
  "internal_Compare le ucmp (u @ le_bytes 8 (unat (x :: u64))) (v @ le_bytes 8 (unat (y :: u64))) =
     Some (if ucmp u v = 0 then if y < x then - 1 else if x < y then 1 else 0 else ucmp u v)"
  by (simp add: internal_Compare_def Let_def)

lemma extended_small: "IsExtendedValueType t \<Longrightarrow> t \<le> kMaxValue"
  by (auto simp: value_type_defs word_le_nat_alt)

lemma parse_append_iff: "ParseInternalKey le k = Some (Some p) \<longleftrightarrow> AppendInternalKey le [] p = Some k"
proof (cases "8 \<le> length k")
  case False
  then show ?thesis by (auto simp: ParseInternalKey_def AppendInternalKey_def)
next
  case True
  then obtain u x where k: "k = u @ le_bytes 8 (unat (x :: u64))" by (rule internal_keyE)
  have "ParseInternalKey le k = Some (Some p) \<longleftrightarrow>
      user_key p = u \<and> UnPackSequenceAndType x = Some (sequence p, vtype p)"
  proof -
    have "drop_bit 8 x \<le> kMaxSequenceNumber"
      unfolding sequence_bound drop_packed using unsigned_less [of x, where ?'a = nat] by (simp add: div_less_iff_less_mult)
    then show ?thesis using extended_small [of "ucast (x AND 0xff)"]
      unfolding ParseInternalKey_def k Let_def UnPackSequenceAndType_def by (cases p) auto
  qed
  also have "\<dots> \<longleftrightarrow> user_key p = u \<and> PackSequenceAndType (sequence p) (vtype p) = Some x"
    by (simp only: UnPackSequenceAndType_iff)
  also have "\<dots> \<longleftrightarrow> AppendInternalKey le [] p = Some k"
    unfolding AppendInternalKey_def k by (auto simp: append_eq_append_conv)
  finally show ?thesis .
qed

text \<open>Packed numbers are ordered by the sequence number first, then by the type.\<close>

lemma packed_less:
  assumes "PackSequenceAndType s t = Some x" "PackSequenceAndType s' t' = Some y"
  shows "x < y \<longleftrightarrow> s < s' \<or> s = s' \<and> t < t'"
proof -
  have "unat x = 256 * unat s + unat t" "unat y = 256 * unat s' + unat t'" using assms by (simp_all add: PackSequenceAndType_cases)
  then have "x < y \<longleftrightarrow> unat s < unat s' \<or> unat s = unat s' \<and> unat t < unat t'"
    unfolding word_less_nat_alt using byte_less [of t] byte_less [of t'] by (simp, arith)
  then show ?thesis by (simp only: word_less_nat_alt word_unat_eq_iff)
qed

lemma internal_Compare_parsed:
  assumes "AppendInternalKey le [] p = Some a" "AppendInternalKey le [] q = Some b"
  shows "internal_Compare le ucmp a b = Some (parsed_Compare ucmp p q)"
proof -
  obtain x y where xy: "PackSequenceAndType (sequence p) (vtype p) = Some x" "PackSequenceAndType (sequence q) (vtype q) = Some y"
    and ab: "a = user_key p @ le_bytes 8 (unat x)" "b = user_key q @ le_bytes 8 (unat y)"
    using assms by (auto simp: AppendInternalKey_def)
  show ?thesis unfolding ab internal_Compare_append packed_less [OF xy] packed_less [OF xy(2,1)] parsed_Compare_def Let_def
    by auto
qed

context separating_comparator
begin

definition ikeys :: "bytes \<Rightarrow> bool" where
  "ikeys k \<longleftrightarrow> (\<exists>u x. k = u @ le_bytes 8 (unat (x :: u64)) \<and> keys u)"

definition icmp :: "bool \<Rightarrow> bytes \<Rightarrow> bytes \<Rightarrow> int" where
  "icmp le a b = the (internal_Compare le cmp a b)"

lemma icmp_append:
  "icmp le (u @ le_bytes 8 (unat (x :: u64))) (v @ le_bytes 8 (unat (y :: u64))) =
     (if cmp u v = 0 then if y < x then - 1 else if x < y then 1 else 0 else cmp u v)"
  by (simp add: icmp_def internal_Compare_append)

lemma internal_comparator: "comparator ikeys (icmp le)"
proof
  fix a b c assume "ikeys a" "ikeys b"
  then obtain u v x y where ab: "a = u @ le_bytes 8 (unat (x :: u64))" "b = v @ le_bytes 8 (unat (y :: u64))" "keys u" "keys v"
    unfolding ikeys_def by blast
  have f: "footer le a = x" "footer le b = y" by (simp_all add: ab)
  have uv: "cmp u v = 0 \<longleftrightarrow> u = v" "cmp v u = 0 \<longleftrightarrow> u = v" "cmp u v < 0 \<longleftrightarrow> 0 < cmp v u"
    using cmp_zero [OF ab(3,4)] cmp_zero [OF ab(4,3)] cmp_flip [OF ab(3,4)] by auto
  show "icmp le a b = 0 \<longleftrightarrow> a = b" using uv f unfolding ab icmp_append by auto
  show "icmp le a b < 0 \<longleftrightarrow> 0 < icmp le b a" using uv unfolding ab icmp_append by auto
  assume "ikeys c" and less: "icmp le a b < 0" "icmp le b c < 0"
  then obtain w z where c: "c = w @ le_bytes 8 (unat (z :: u64))" "keys w" unfolding ikeys_def by blast
  have vw: "cmp v w = 0 \<longleftrightarrow> v = w" "cmp u w = 0 \<longleftrightarrow> u = w"
    using cmp_zero [OF ab(4) c(2)] cmp_zero [OF ab(3) c(2)] .
  have "cmp u v \<le> 0" "cmp v w \<le> 0" using less unfolding ab c icmp_append by (auto split: if_splits)
  then consider "cmp u w < 0" | "u = v" "v = w" | "u = v" "cmp v w < 0" | "v = w" "cmp u v < 0"
    using cmp_trans [OF ab(3,4) c(2)] uv vw by fastforce
  then show "icmp le a c < 0"
  proof cases
    case 2
    then have "y < x" "z < y" using less cmp_refl [OF c(2)] unfolding ab c icmp_append by (auto split: if_splits)
    then have "z < x" by (rule less_trans [rotated])
    then show ?thesis using 2 cmp_refl [OF c(2)] unfolding ab c icmp_append by simp
  qed (simp_all add: ab c icmp_append)
qed

text \<open>The user key of a shortened key is strictly larger, and smaller than that of the limit.\<close>

lemma internal_separator:
  assumes a: "a = u @ le_bytes 8 (unat (x :: u64))" "keys u" and b: "b = v @ le_bytes 8 (unat (y :: u64))" "keys v"
    and less: "icmp le a b < 0"
  shows "\<exists>s. internal_FindShortestSeparator le cmp sep a b = Some s \<and> ikeys s \<and> length s \<le> length a \<and> icmp le a s \<le> 0 \<and> icmp le s b < 0"
proof -
  have "cmp u v \<le> 0" using less unfolding a b icmp_append by (auto split: if_splits)
  then have "cmp u v < 0 \<or> u = v" using cmp_zero [OF a(2) b(2)] by linarith
  then have "\<exists>t. sep u v = Some t \<and> keys t \<and> cmp u t \<le> 0 \<and> (u \<noteq> v \<longrightarrow> cmp t v < 0) \<and> (u = v \<longrightarrow> t = u)"
  proof
    assume "cmp u v < 0"
    then show ?thesis using sep_between [OF a(2) b(2)] cmp_refl [OF a(2)] by auto
  next
    assume "u = v"
    then show ?thesis using sep_equal [OF a(2)] cmp_refl [OF a(2)] a(2) by simp
  qed
  then obtain t where t: "sep u v = Some t" "keys t" "cmp u t \<le> 0" "u \<noteq> v \<longrightarrow> cmp t v < 0" "u = v \<longrightarrow> t = u" by blast
  show ?thesis
  proof (cases "length t \<le> length u \<and> cmp u t < 0")
    case False
    then have "internal_FindShortestSeparator le cmp sep a b = Some a"
      unfolding internal_FindShortestSeparator_def a b by (auto simp: t)
    moreover have "icmp le a a = 0" "ikeys a" using a cmp_refl unfolding a icmp_append by (auto simp: ikeys_def)
    ultimately show ?thesis using less by simp
  next
    case True
    then have uv: "cmp t v < 0" using t cmp_refl [OF a(2)] by auto
    define m where "m = (push_bit 8 kMaxSequenceNumber OR ucast kValueTypeForSeek)"
    have "internal_FindShortestSeparator le cmp sep a b = Some (t @ le_bytes 8 (unat m))"
      unfolding internal_FindShortestSeparator_def a b using True uv
      by (simp add: t seek_packed internal_Compare_append Let_def flip: m_def)
    moreover have "icmp le a (t @ le_bytes 8 (unat m)) < 0" "icmp le (t @ le_bytes 8 (unat m)) b < 0"
      using True uv unfolding a b icmp_append by auto
    ultimately show ?thesis using True t by (auto simp: a ikeys_def)
  qed
qed

lemma internal_equal: "ikeys a \<Longrightarrow> internal_FindShortestSeparator le cmp sep a a = Some a"
  unfolding ikeys_def internal_FindShortestSeparator_def by (auto simp: sep_equal cmp_refl)

lemma internal_separating: "separating_comparator ikeys (icmp le) (internal_FindShortestSeparator le cmp sep)"
proof (intro separating_comparator.intro internal_comparator separating_comparator_axioms.intro internal_equal)
  fix a b assume "ikeys a" "ikeys b" and less: "icmp le a b < 0"
  then obtain u v x y where "a = u @ le_bytes 8 (unat (x :: u64))" "keys u" "b = v @ le_bytes 8 (unat (y :: u64))" "keys v"
    unfolding ikeys_def by blast
  from internal_separator [OF this less] show
    "\<exists>s. internal_FindShortestSeparator le cmp sep a b = Some s \<and> ikeys s \<and> icmp le a s \<le> 0 \<and> icmp le s b < 0" by blast
qed

text \<open>Whatever the user comparator makes of a key, a result that is not larger is not used.\<close>

lemma internal_successor:
  assumes "ikeys a" "\<And>u. keys (succ u)"
  shows "\<exists>s. internal_FindShortSuccessor le cmp succ a = Some s \<and> ikeys s \<and> length s \<le> length a \<and> icmp le a s \<le> 0"
proof -
  obtain u x where a: "a = u @ le_bytes 8 (unat (x :: u64))" "keys u" using assms(1) unfolding ikeys_def by blast
  define m where "m = (push_bit 8 kMaxSequenceNumber OR ucast kValueTypeForSeek)"
  show ?thesis
  proof (cases "length (succ u) \<le> length u \<and> cmp u (succ u) < 0")
    case True
    then have "internal_FindShortSuccessor le cmp succ a = Some (succ u @ le_bytes 8 (unat m))"
      unfolding internal_FindShortSuccessor_def a by (simp add: seek_packed internal_Compare_append Let_def flip: m_def)
    moreover have "icmp le a (succ u @ le_bytes 8 (unat m)) < 0" using True unfolding a icmp_append by auto
    ultimately show ?thesis using True assms(2) by (auto simp: a ikeys_def)
  next
    case False
    then have "internal_FindShortSuccessor le cmp succ a = Some a"
      unfolding internal_FindShortSuccessor_def a by (auto simp: Let_def)
    moreover have "icmp le a a = 0" using a cmp_refl unfolding a icmp_append by auto
    ultimately show ?thesis using assms(1) by simp
  qed
qed

lemma icmp_Some: "ikeys a \<Longrightarrow> ikeys b \<Longrightarrow> internal_Compare le cmp a b = Some (icmp le a b)"
  unfolding ikeys_def icmp_def by (auto simp: internal_Compare_append)

lemma internal_Compare_ikeys: "\<forall>u. keys u \<Longrightarrow> internal_Compare le cmp a b = Some r \<Longrightarrow> ikeys a \<and> ikeys b"
  unfolding ikeys_def by (auto simp: internal_Compare_def ExtractUserKey_def split: if_splits) (metis internal_keyE)+

text \<open>The whole contract, for a user comparator on all byte strings.\<close>

lemma internal_contract:
  assumes all: "\<forall>u. keys u" and a: "8 \<le> length a" and b: "8 \<le> length b"
  shows "(\<exists>r. internal_Compare le cmp a b = Some r \<and> (r = 0 \<longleftrightarrow> a = b) \<and>
     (\<exists>r'. internal_Compare le cmp b a = Some r' \<and> (r < 0 \<longleftrightarrow> 0 < r')) \<and>
     (\<forall>c r'. internal_Compare le cmp b c = Some r' \<and> r < 0 \<and> r' < 0 \<longrightarrow> (\<exists>r3. internal_Compare le cmp a c = Some r3 \<and> r3 < 0)) \<and>
     (r < 0 \<longrightarrow> (\<exists>s r1 r2. internal_FindShortestSeparator le cmp sep a b = Some s \<and> length s \<le> length a \<and>
        internal_Compare le cmp a s = Some r1 \<and> r1 \<le> 0 \<and> internal_Compare le cmp s b = Some r2 \<and> r2 < 0)) \<and>
     (\<exists>s r1. internal_FindShortSuccessor le cmp succ a = Some s \<and> length s \<le> length a \<and> internal_Compare le cmp a s = Some r1 \<and> r1 \<le> 0)) \<and>
   (\<forall>p q. AppendInternalKey le [] p = Some a \<and> AppendInternalKey le [] q = Some b \<longrightarrow>
      internal_Compare le cmp a b = Some (parsed_Compare cmp p q))"
proof -
  have ik: "ikeys k" if "8 \<le> length k" for k using that all unfolding ikeys_def by (metis internal_keyE)
  note order = comparator.cmp_zero [OF internal_comparator] comparator.cmp_flip [OF internal_comparator] comparator.cmp_trans [OF internal_comparator]
  define r where "r = icmp le a b"
  have ab: "internal_Compare le cmp a b = Some r" "internal_Compare le cmp b a = Some (icmp le b a)"
    using icmp_Some ik a b by (simp_all add: r_def)
  have "\<exists>r3. internal_Compare le cmp a c = Some r3 \<and> r3 < 0" if "internal_Compare le cmp b c = Some r'" "r < 0" "r' < 0" for c r'
  proof -
    have c: "ikeys c" using internal_Compare_ikeys [OF all that(1)] by simp
    then have "r' = icmp le b c" using that(1) icmp_Some [OF ik [OF b] c] by simp
    then show ?thesis using order(3) [OF ik [OF a] ik [OF b] c] that icmp_Some [OF ik [OF a] c] by (simp add: r_def)
  qed
  moreover have "\<exists>s r1 r2. internal_FindShortestSeparator le cmp sep a b = Some s \<and> length s \<le> length a \<and>
        internal_Compare le cmp a s = Some r1 \<and> r1 \<le> 0 \<and> internal_Compare le cmp s b = Some r2 \<and> r2 < 0" if "r < 0"
  proof -
    obtain u x v y where "a = u @ le_bytes 8 (unat (x :: u64))" "b = v @ le_bytes 8 (unat (y :: u64))" using a b by (metis internal_keyE)
    then obtain s where "internal_FindShortestSeparator le cmp sep a b = Some s" "ikeys s" "length s \<le> length a" "icmp le a s \<le> 0" "icmp le s b < 0"
      using internal_separator [of a u x b v y] all \<open>r < 0\<close> by (auto simp: r_def)
    then show ?thesis using icmp_Some ik a b by blast
  qed
  moreover have "\<exists>s r1. internal_FindShortSuccessor le cmp succ a = Some s \<and> length s \<le> length a \<and> internal_Compare le cmp a s = Some r1 \<and> r1 \<le> 0"
    using internal_successor [OF ik [OF a], of succ le] all icmp_Some [OF ik [OF a]] by blast
  ultimately show ?thesis using ab order(1) [OF ik [OF a] ik [OF b]] order(2) [OF ik [OF a] ik [OF b]] internal_Compare_parsed
    unfolding r_def by blast
qed

end

interpretation internal_bytewise: separating_comparator bytewise.ikeys "bytewise.icmp le"
  "internal_FindShortestSeparator le bytewise_Compare (FindShortestSeparator bytewise_Compare)" for le
  by (rule bytewise.internal_separating)

interpretation internal_reverse: separating_comparator reverse.ikeys "reverse.icmp le"
  "internal_FindShortestSeparator le reverse_Compare (FindShortestSeparator reverse_Compare)" for le
  by (rule reverse.internal_separating)

section \<open>Contents of an \<open>IterKey\<close>\<close>

lemma length_ik_key: "ik_ok k \<Longrightarrow> length (ik_key k) = ik_size k"
  by (auto simp: ik_ok_def ik_key_def)

lemma write_buf_key:
  assumes "off + length bs \<le> length (ik_buf k)"
  shows "\<exists>k'. write_buf off bs k = Some k' \<and> length (ik_buf k') = length (ik_buf k) \<and> ik_ext k' = ik_ext k \<and>
      ik_size k' = ik_size k \<and> ik_is_user_key k' = ik_is_user_key k \<and> take (off + length bs) (ik_buf k') = take off (ik_buf k) @ bs"
  using assms by (auto simp: write_buf_def)

lemma SetInternalKey_pinned:
  "\<exists>k'. SetInternalKey junk key False k = Some k' \<and> ik_ok k' \<and> ik_key k' = key \<and> IsKeyPinned k' \<and> \<not> ik_is_user_key k'"
  by (simp add: SetInternalKey_def SetKeyImpl_def ik_ok_def ik_key_def IsKeyPinned_def)

lemma TrimAppend_key:
  assumes "ik_ok k" "shared \<le> ik_size k"
  shows "\<exists>k'. TrimAppend junk shared bs k = Some k' \<and> ik_ok k' \<and> ik_key k' = take shared (ik_key k) @ bs \<and>
      \<not> IsKeyPinned k' \<and> ik_is_user_key k' = ik_is_user_key k"
proof -
  define total where "total = shared + length bs"
  define kept where "kept = take shared (ik_key k)"
  have kept: "length kept = shared" using assms by (simp add: kept_def length_ik_key)
  have "\<exists>k1. (if IsKeyPinned k then write_buf 0 kept (EnlargeBufferIfNeeded junk total k)
           else if total > length (ik_buf k) then write_buf 0 kept (k\<lparr>ik_buf := replicate total junk\<rparr>)
           else Some k) = Some k1 \<and> total \<le> length (ik_buf k1) \<and> take shared (ik_buf k1) = kept \<and> ik_is_user_key k1 = ik_is_user_key k"
    using kept assms by (auto simp: write_buf_def EnlargeBufferIfNeeded_def total_def kept_def ik_key_def IsKeyPinned_def)
  then obtain k1 where k1: "(if IsKeyPinned k then write_buf 0 kept (EnlargeBufferIfNeeded junk total k)
           else if total > length (ik_buf k) then write_buf 0 kept (k\<lparr>ik_buf := replicate total junk\<rparr>)
           else Some k) = Some k1" "total \<le> length (ik_buf k1)" "take shared (ik_buf k1) = kept" "ik_is_user_key k1 = ik_is_user_key k" by blast
  obtain k2 where k2: "write_buf shared bs k1 = Some k2" "length (ik_buf k2) = length (ik_buf k1)" "ik_is_user_key k2 = ik_is_user_key k1"
      "take total (ik_buf k2) = kept @ bs" using write_buf_key [of shared bs k1] k1(2,3) by (auto simp: total_def)
  have "TrimAppend junk shared bs k = Some (k2\<lparr>ik_ext := None, ik_size := total\<rparr>)"
    unfolding TrimAppend_def Let_def total_def [symmetric] kept_def [symmetric] k1(1) using assms(2) length_ik_key [OF assms(1)] k2(1) by simp
  then show ?thesis using k1 k2 by (auto simp: ik_ok_def ik_key_def IsKeyPinned_def kept_def)
qed

lemma OwnKey_key:
  assumes "ik_ok k" "IsKeyPinned k"
  shows "\<exists>k'. OwnKey junk k = Some k' \<and> ik_ok k' \<and> ik_key k' = ik_key k \<and> \<not> IsKeyPinned k' \<and> ik_is_user_key k' = ik_is_user_key k"
  using assms by (auto simp: OwnKey_def Reserve_def EnlargeBufferIfNeeded_def write_buf_def ik_ok_def ik_key_def IsKeyPinned_def)

lemma ik_UpdateInternalKey_key:
  assumes "ik_ok k" "\<not> IsKeyPinned k" "8 \<le> ik_size k"
  shows "\<exists>k'. ik_UpdateInternalKey le seq t k = Some k' \<and> ik_ok k' \<and> Some (ik_key k') = UpdateInternalKey le (ik_key k) seq t \<and>
      \<not> IsKeyPinned k' \<and> ik_is_user_key k' = ik_is_user_key k"
proof -
  have len: "ik_size k \<le> length (ik_buf k)" using assms by (simp add: ik_ok_def IsKeyPinned_def)
  then show ?thesis using assms
    by (auto simp: ik_UpdateInternalKey_def write_buf_def ik_ok_def ik_key_def IsKeyPinned_def UpdateInternalKey_def min_def)
qed

section \<open>Properties\<close>

lemma AppendInternalKeyE:
  assumes "AppendInternalKey le r p = Some k"
  obtains x where "k = r @ user_key p @ le_bytes 8 (unat (x :: u64))" "PackSequenceAndType (sequence p) (vtype p) = Some x"
  using assms by (auto simp: AppendInternalKey_def)

lemma unpacked:
  assumes "PackSequenceAndType s t = Some x"
  shows "drop_bit 8 x = s" "ucast (x AND 0xff) = t"
proof -
  have "UnPackSequenceAndType x = Some (s, t)" using assms by (simp only: UnPackSequenceAndType_iff)
  then show "drop_bit 8 x = s" "ucast (x AND 0xff) = t" by (auto simp: UnPackSequenceAndType_def Let_def split: if_splits)
qed

lemma key_accessors:
  assumes "AppendInternalKey le [] p = Some k"
  shows "ExtractUserKey k = Some (user_key p) \<and> ExtractValueType le k = Some (vtype p) \<and>
    GetInternalKeySeqno le k = Some (sequence p) \<and> length k = InternalKeyEncodingLength p"
proof -
  obtain x where k: "k = user_key p @ le_bytes 8 (unat (x :: u64))" and x: "PackSequenceAndType (sequence p) (vtype p) = Some x"
    using assms by (rule AppendInternalKeyE) simp
  show ?thesis by (simp add: k ExtractValueType_def GetInternalKeySeqno_def InternalKeyEncodingLength_def unpacked [OF x])
qed

lemma key_update:
  assumes "AppendInternalKey le [] p = Some k" "AppendInternalKey le [] (p\<lparr>sequence := s, vtype := t\<rparr>) = Some k'"
  shows "UpdateInternalKey le k s t = Some k'"
proof -
  obtain x where k: "k = user_key p @ le_bytes 8 (unat (x :: u64))" using assms(1) by (rule AppendInternalKeyE) simp
  obtain y where k': "k' = user_key p @ le_bytes 8 (unat (y :: u64))" and y: "PackSequenceAndType s t = Some y"
    using assms(2) by (rule AppendInternalKeyE) simp
  have "push_bit 8 s OR ucast t = y" using y by (auto simp: PackSequenceAndType_def split: if_splits)
  then show ?thesis by (simp add: k k' UpdateInternalKey_def)
qed

text \<open>
  C38. Internal keys are well typed. Exactly the keys with a sequence number below \<open>2^56\<close> and a type that
  users can write can be serialized; parsing accepts exactly the serialized keys and returns what
  was put in; the accessors read the parts off, and rewriting the footer in place gives the key with
  the new number and type.
\<close>

theorem internal_key_typed:
  "(ParseInternalKey le k = Some (Some p) \<longleftrightarrow> AppendInternalKey le [] p = Some k) \<and>
   ((\<exists>k. AppendInternalKey le [] p = Some k) \<longleftrightarrow> sequence p \<le> kMaxSequenceNumber \<and> IsExtendedValueType (vtype p)) \<and>
   (AppendInternalKey le [] p = Some k \<longrightarrow>
      ExtractUserKey k = Some (user_key p) \<and> ExtractValueType le k = Some (vtype p) \<and>
      GetInternalKeySeqno le k = Some (sequence p) \<and> length k = InternalKeyEncodingLength p \<and>
      (\<forall>k'. AppendInternalKey le [] (p\<lparr>sequence := s, vtype := t\<rparr>) = Some k' \<longrightarrow> UpdateInternalKey le k s t = Some k'))"
  using parse_append_iff [of le k p] key_accessors [of le p k] key_update [where s = s and t = t, of le p k]
  by (auto simp: AppendInternalKey_def PackSequenceAndType_def)

theorem internal_key_typed_witness:
  "AppendInternalKey True [] \<lparr>user_key = [97], sequence = 5, vtype = 1\<rparr> = Some [97, 1, 5, 0, 0, 0, 0, 0, 0] \<and>
   ExtractUserKey [97, 1, 5, 0, 0, 0, 0, 0, 0] = Some [97] \<and>
   UpdateInternalKey True [97, 1, 5, 0, 0, 0, 0, 0, 0] 6 0 = Some [97, 0, 6, 0, 0, 0, 0, 0, 0]"
proof -
  have "AppendInternalKey True [] \<lparr>user_key = [97], sequence = 5, vtype = 1\<rparr> = Some [97, 1, 5, 0, 0, 0, 0, 0, 0]"
    "AppendInternalKey True [] \<lparr>user_key = [97], sequence = 6, vtype = 0\<rparr> = Some [97, 0, 6, 0, 0, 0, 0, 0, 0]" by code_simp+
  then show ?thesis
    using internal_key_typed [of True "[97, 1, 5, 0, 0, 0, 0, 0, 0]" "\<lparr>user_key = [97], sequence = 5, vtype = 1\<rparr>" 0 6] by simp
qed

text \<open>
  C11. Internal keys over either built-in comparator of user keys are strictly totally ordered: by the
  user key, then by descending sequence number and type, exactly as the parsed keys are compared.
  The routines that shorten keys fail none of their assertions: a separator is no longer than the
  first key, not smaller than it and smaller than the limit, and a successor is not smaller than the
  key, although \<open>FindShortSuccessor\<close> of the reverse comparator returns smaller keys.
\<close>

theorem internal_key_order:
  assumes "ucmp = bytewise_Compare \<or> ucmp = reverse_Compare" "8 \<le> length a" "8 \<le> length b"
  shows "(\<exists>r. internal_Compare le ucmp a b = Some r \<and> (r = 0 \<longleftrightarrow> a = b) \<and>
     (\<exists>r'. internal_Compare le ucmp b a = Some r' \<and> (r < 0 \<longleftrightarrow> 0 < r')) \<and>
     (\<forall>c r'. internal_Compare le ucmp b c = Some r' \<and> r < 0 \<and> r' < 0 \<longrightarrow> (\<exists>r3. internal_Compare le ucmp a c = Some r3 \<and> r3 < 0)) \<and>
     (r < 0 \<longrightarrow> (\<exists>s r1 r2. internal_FindShortestSeparator le ucmp (FindShortestSeparator ucmp) a b = Some s \<and> length s \<le> length a \<and>
        internal_Compare le ucmp a s = Some r1 \<and> r1 \<le> 0 \<and> internal_Compare le ucmp s b = Some r2 \<and> r2 < 0)) \<and>
     (\<exists>s r1. internal_FindShortSuccessor le ucmp FindShortSuccessor a = Some s \<and> length s \<le> length a \<and>
        internal_Compare le ucmp a s = Some r1 \<and> r1 \<le> 0)) \<and>
   (\<forall>p q. AppendInternalKey le [] p = Some a \<and> AppendInternalKey le [] q = Some b \<longrightarrow>
      internal_Compare le ucmp a b = Some (parsed_Compare ucmp p q))"
proof (rule disjE [OF assms(1)])
  assume u: "ucmp = bytewise_Compare"
  show ?thesis unfolding u using assms(2,3) by (intro bytewise.internal_contract) simp_all
next
  assume u: "ucmp = reverse_Compare"
  show ?thesis unfolding u using assms(2,3) by (intro reverse.internal_contract) simp_all
qed

theorem internal_key_order_witness:
  "\<exists>r. internal_Compare True reverse_Compare [97, 1, 5, 0, 0, 0, 0, 0, 0] [97, 1, 4, 0, 0, 0, 0, 0, 0] = Some r \<and> r \<noteq> 0"
  using internal_key_order [of reverse_Compare "[97, 1, 5, 0, 0, 0, 0, 0, 0]" "[97, 1, 4, 0, 0, 0, 0, 0, 0]" True] by auto

lemma value_type_le_seek: "IsValueType t \<Longrightarrow> t \<le> kValueTypeForSeek"
  by (auto simp: value_type_defs word_le_nat_alt)

lemma make_LookupKeyE:
  assumes "make_LookupKey le u s = Some lk"
  obtains x where "PackSequenceAndType s kValueTypeForSeek = Some x" "lk_internal_key lk = u @ le_bytes 8 (unat (x :: u64))"
    "lk_memtable_key lk = EncodeVarint32 (of_nat (length u + 8)) @ u @ le_bytes 8 (unat x)" "lk_user_key lk = u"
  using assms by (auto simp: make_LookupKey_def lk_internal_key_def lk_memtable_key_def lk_user_key_def Let_def)

text \<open>
  C39. A lookup key finds exactly what its snapshot shows: among the stored values of a user key, the
  key for sequence number \<open>s\<close> sorts in front of exactly those written at \<open>s\<close> or before. It reads as a
  length-prefixed internal key, and its bytes fit into the buffer reserved for them.
\<close>

theorem lookup_key_visible:
  assumes "ucmp = bytewise_Compare \<or> ucmp = reverse_Compare"
    and "make_LookupKey le u s = Some lk" "length u + 8 < 2 ^ 32"
    and "AppendInternalKey le [] p = Some k" "user_key p = u" "IsValueType (vtype p)"
  shows "(\<exists>r. internal_Compare le ucmp (lk_internal_key lk) k = Some r \<and> (r \<le> 0 \<longleftrightarrow> sequence p \<le> s)) \<and>
    GetLengthPrefixedSlice (lk_memtable_key lk) = Some (lk_internal_key lk, []) \<and>
    lk_user_key lk = u \<and> length (lk_memtable_key lk) \<le> length u + 13"
proof -
  obtain x where x: "PackSequenceAndType s kValueTypeForSeek = Some x" and lk: "lk_internal_key lk = u @ le_bytes 8 (unat x)"
    "lk_memtable_key lk = EncodeVarint32 (of_nat (length u + 8)) @ u @ le_bytes 8 (unat x)" "lk_user_key lk = u"
    using assms(2) by (rule make_LookupKeyE)
  obtain y where y: "PackSequenceAndType (sequence p) (vtype p) = Some y" and k: "k = u @ le_bytes 8 (unat y)"
    using assms(4,5) by (auto elim: AppendInternalKeyE)
  have z: "ucmp u u = 0" using assms(1) by (auto simp: bytewise_Compare_def reverse_Compare_def)
  have "\<not> x < y \<longleftrightarrow> sequence p \<le> s"
    using packed_less [OF x y] value_type_le_seek [OF assms(6)] by auto
  then have "\<exists>r. internal_Compare le ucmp (lk_internal_key lk) k = Some r \<and> (r \<le> 0 \<longleftrightarrow> sequence p \<le> s)"
    unfolding lk k internal_Compare_append using z by auto
  moreover have "lk_memtable_key lk = PutLengthPrefixedSlice [] (lk_internal_key lk) @ []"
    unfolding lk by (simp add: PutLengthPrefixedSlice_def PutVarint32_def)
  then have "GetLengthPrefixedSlice (lk_memtable_key lk) = Some (lk_internal_key lk, [])"
    using GetLengthPrefixedSlice_append [of "lk_internal_key lk" "[]"] assms(3) by (simp add: lk)
  moreover have "length (EncodeVarint32 (of_nat (length u + 8))) \<le> 5"
    using length_varint [of "unat (of_nat (length u + 8) :: u32)" 5] unsigned_less [of "of_nat (length u + 8) :: u32", where ?'a = nat] by simp
  ultimately show ?thesis by (simp add: lk)
qed

theorem lookup_key_visible_witness:
  "\<exists>lk k r. make_LookupKey True [97] 7 = Some lk \<and> AppendInternalKey True [] \<lparr>user_key = [97], sequence = 5, vtype = kTypeValue\<rparr> = Some k \<and>
     internal_Compare True bytewise_Compare (lk_internal_key lk) k = Some r \<and> r \<le> 0"
proof -
  have seq: "(7 :: u64) \<le> kMaxSequenceNumber" "(5 :: u64) \<le> kMaxSequenceNumber" by (simp_all add: kMaxSequenceNumber_def push_bit_eq_mult)
  obtain lk where lk: "make_LookupKey True [97] 7 = Some lk"
    by (simp add: make_LookupKey_def PackSequenceAndType_def seq value_type_defs)
  obtain k where k: "AppendInternalKey True [] \<lparr>user_key = [97], sequence = 5, vtype = kTypeValue\<rparr> = Some k"
    by (simp add: AppendInternalKey_def PackSequenceAndType_def seq value_type_defs)
  have "IsValueType kTypeValue" by (simp add: value_type_defs)
  then show ?thesis using lookup_key_visible [of bytewise_Compare True "[97]" 7 lk _ k] lk k by fastforce
qed

end
