(* ===== verification/Block_Format.thy ===== *)
theory Block_Format
  imports Internal_Key "HOL-Library.Monad_Syntax"
begin

text \<open>
  Blocks of sorted tables: \<open>rocksdb/table/block_builder.cc\<close>, which writes entries with shared key prefixes
  and restart points, and \<open>rocksdb/table/block.cc\<close> with \<open>block.h\<close>, which iterates over them. Pointers into a
  block are offsets from its start; reading outside of it, and a failed assertion, have no result.
  Offsets are natural numbers, cut off to 32 bits where the source casts them. The statistics on the
  bytes read (\<open>BlockReadAmpBitmap\<close>) are not modelled.
\<close>

definition u32_of :: "nat \<Rightarrow> nat" where
  "u32_of n = n mod 2 ^ 32"

section \<open>The builder\<close>

record BlockBuilder =
  block_restart_interval :: nat
  use_delta_encoding :: bool
  buffer :: bytes
  restart_points :: "u32 list"
  estimate :: nat
  counter :: nat
  finished :: bool
  last_key :: bytes

definition make_BlockBuilder :: "nat \<Rightarrow> bool \<Rightarrow> BlockBuilder option" where
  "make_BlockBuilder interval delta =
     (if interval \<ge> 1
      then Some \<lparr>block_restart_interval = interval, use_delta_encoding = delta, buffer = [], restart_points = [0],
                 estimate = 4 + 4, counter = 0, finished = False, last_key = []\<rparr>
      else None)"

definition Reset_builder :: "BlockBuilder \<Rightarrow> BlockBuilder" where
  "Reset_builder b = b\<lparr>buffer := [], restart_points := [0], estimate := 4 + 4, counter := 0, finished := False, last_key := []\<rparr>"

definition EstimateSizeAfterKV :: "bytes \<Rightarrow> bytes \<Rightarrow> BlockBuilder \<Rightarrow> nat" where
  "EstimateSizeAfterKV key value b =
     estimate b + (length key + length value) + (if counter b \<ge> block_restart_interval b then 4 else 0) +
     4 + VarintLength (of_nat (length key)) + VarintLength (of_nat (length value))"

definition Finish :: "bool \<Rightarrow> BlockBuilder \<Rightarrow> bytes \<times> BlockBuilder" where
  "Finish le b =
     (let b1 = b\<lparr>buffer := foldl (PutFixed32 le) (buffer b) (restart_points b)\<rparr>;
          b2 = b1\<lparr>buffer := PutFixed32 le (buffer b1) (of_nat (length (restart_points b1))), finished := True\<rparr>
      in (buffer b2, b2))"

definition Add :: "bytes \<Rightarrow> bytes \<Rightarrow> BlockBuilder \<Rightarrow> BlockBuilder option" where
  "Add key value b =
     (if finished b \<or> counter b > block_restart_interval b then None
      else
        let (shared, b1) =
          (if counter b \<ge> block_restart_interval b
           then (0, b\<lparr>restart_points := restart_points b @ [of_nat (length (buffer b))], estimate := estimate b + 4, counter := 0,
                      last_key := if use_delta_encoding b then key else last_key b\<rparr>)
           else if use_delta_encoding b then (difference_offset key (last_key b), b\<lparr>last_key := key\<rparr>)
           else (0, b));
            non_shared = length key - shared;
            curr_size = length (buffer b1);
            buffer1 = PutVarint32Varint32Varint32 (buffer b1) (of_nat shared) (of_nat non_shared) (of_nat (length value));
            buffer2 = buffer1 @ drop shared key @ value
        in Some (b1\<lparr>buffer := buffer2, counter := counter b1 + 1, estimate := estimate b1 + (length buffer2 - curr_size)\<rparr>))"

section \<open>Decoding\<close>

text \<open>
  The argument is what lies between \<open>p\<close> and \<open>limit\<close>; the result has what lies behind the three numbers.
  The sum of the two lengths is taken in 32 bits.
\<close>

definition DecodeEntry :: "bytes \<Rightarrow> (u32 \<times> u32 \<times> u32 \<times> bytes) option" where
  "DecodeEntry q =
     (if length q < 3 then None
      else
        let shared = ucast (q ! 0) :: u32; non_shared = ucast (q ! 1) :: u32; value_length = ucast (q ! 2) :: u32 in
        do {
          (shared, non_shared, value_length, p) \<leftarrow>
            (if (shared OR non_shared OR value_length) < 128 then Some (shared, non_shared, value_length, drop 3 q)
             else do {
               (shared, p1) \<leftarrow> GetVarint32Ptr q;
               (non_shared, p2) \<leftarrow> GetVarint32Ptr p1;
               (value_length, p3) \<leftarrow> GetVarint32Ptr p2;
               Some (shared, non_shared, value_length, p3)
             });
          if (of_nat (length p) :: u32) < non_shared + value_length then None else Some (shared, non_shared, value_length, p)
        })"

text \<open>A slice of the block.\<close>

definition slice_at :: "bytes \<Rightarrow> nat \<Rightarrow> nat \<Rightarrow> bytes option" where
  "slice_at data off n = (if off + n \<le> length data then Some (take n (drop off data)) else None)"

section \<open>The iterator\<close>

text \<open>An entry visited on the way back: its key lies in the block or in the buffer for such keys.\<close>

record CachedPrevEntry =
  ce_offset :: nat
  ce_key_ptr :: "nat option"
  ce_key_offset :: nat
  ce_key_size :: nat
  ce_value :: "nat \<times> nat"

text \<open>\<open>value_\<close> is an offset and a length; it points nowhere before the first positioning and after an error.\<close>

record BlockIter =
  bi_data :: "bytes option"
  bi_restarts :: nat
  bi_num_restarts :: nat
  bi_current :: nat
  bi_restart_index :: nat
  bi_key :: IterKey
  bi_key_at :: nat
  bi_value :: "(nat \<times> nat) option"
  bi_status_ok :: bool
  bi_prefix_index :: "(bytes \<Rightarrow> nat list) option"
  bi_key_pinned :: bool
  bi_global_seqno :: u64
  bi_prev_buff :: bytes
  bi_prev_entries :: "CachedPrevEntry list"
  bi_prev_idx :: int

definition kDisableGlobalSequenceNumber :: u64 where
  "kDisableGlobalSequenceNumber = - 1"

definition make_BlockIter :: "u8 \<Rightarrow> BlockIter" where
  "make_BlockIter junk =
     \<lparr>bi_data = None, bi_restarts = 0, bi_num_restarts = 0, bi_current = 0, bi_restart_index = 0, bi_key = make_IterKey junk,
      bi_key_at = 0, bi_value = None, bi_status_ok = True, bi_prefix_index = None, bi_key_pinned = False,
      bi_global_seqno = kDisableGlobalSequenceNumber, bi_prev_buff = [], bi_prev_entries = [], bi_prev_idx = - 1\<rparr>"

definition Initialize :: "bytes \<Rightarrow> nat \<Rightarrow> nat \<Rightarrow> (bytes \<Rightarrow> nat list) option \<Rightarrow> u64 \<Rightarrow> BlockIter \<Rightarrow> BlockIter option" where
  "Initialize data restarts num_restarts prefix_index global_seqno it =
     (if bi_data it \<noteq> None \<or> num_restarts = 0 then None
      else Some (it\<lparr>bi_data := Some data, bi_restarts := restarts, bi_num_restarts := num_restarts, bi_current := restarts,
                    bi_restart_index := num_restarts, bi_prefix_index := prefix_index, bi_global_seqno := global_seqno\<rparr>))"

definition Valid :: "BlockIter \<Rightarrow> bool" where
  "Valid it \<longleftrightarrow> bi_current it < bi_restarts it"

definition iter_key :: "BlockIter \<Rightarrow> bytes option" where
  "iter_key it = (if Valid it then GetInternalKey (bi_key it) else None)"

definition iter_value :: "BlockIter \<Rightarrow> bytes option" where
  "iter_value it =
     (if Valid it then do { data \<leftarrow> bi_data it; (off, n) \<leftarrow> bi_value it; slice_at data off n } else None)"

definition NextEntryOffset :: "BlockIter \<Rightarrow> nat option" where
  "NextEntryOffset it = map_option (\<lambda>(off, n). u32_of (off + n)) (bi_value it)"

definition GetRestartPoint :: "bool \<Rightarrow> nat \<Rightarrow> BlockIter \<Rightarrow> nat option" where
  "GetRestartPoint le index it =
     (if index < bi_num_restarts it
      then do { data \<leftarrow> bi_data it; bs \<leftarrow> slice_at data (bi_restarts it + index * 4) 4; Some (unat (DecodeFixed32 le bs)) }
      else None)"

definition SeekToRestartPoint :: "bool \<Rightarrow> nat \<Rightarrow> BlockIter \<Rightarrow> BlockIter option" where
  "SeekToRestartPoint le index it =
     map_option (\<lambda>offset. it\<lparr>bi_key := Clear (bi_key it), bi_restart_index := index, bi_value := Some (offset, 0)\<rparr>)
       (GetRestartPoint le index it)"

definition CorruptionError :: "BlockIter \<Rightarrow> BlockIter" where
  "CorruptionError it =
     it\<lparr>bi_current := bi_restarts it, bi_restart_index := bi_num_restarts it, bi_status_ok := False,
        bi_key := Clear (bi_key it), bi_value := None\<rparr>"

text \<open>The loop at the end of \<open>ParseNextKey\<close>.\<close>

function advance_restart :: "bool \<Rightarrow> BlockIter \<Rightarrow> BlockIter option" where
  "advance_restart le it =
     (if bi_restart_index it + 1 < bi_num_restarts it then
        (case GetRestartPoint le (bi_restart_index it + 1) it of
           None \<Rightarrow> None
         | Some r \<Rightarrow> if r < bi_current it then advance_restart le (it\<lparr>bi_restart_index := bi_restart_index it + 1\<rparr>) else Some it)
      else Some it)"
  by pat_completeness auto
termination
  by (relation "measure (\<lambda>(le, it). bi_num_restarts it - bi_restart_index it)") auto

declare advance_restart.simps [simp del]

text \<open>The key with the global sequence number, where a file has one.\<close>

definition apply_global_seqno :: "u8 \<Rightarrow> bool \<Rightarrow> BlockIter \<Rightarrow> BlockIter option" where
  "apply_global_seqno junk le it =
     (if bi_global_seqno it = kDisableGlobalSequenceNumber then Some it
      else do {
        k \<leftarrow> GetInternalKey (bi_key it);
        seqno \<leftarrow> GetInternalKeySeqno le k;
        value_type \<leftarrow> ExtractValueType le k;
        if seqno = 0 \<and> (value_type = kTypeValue \<or> value_type = kTypeMerge \<or> value_type = kTypeDeletion)
        then do {
          it1 \<leftarrow> (if bi_key_pinned it
                  then map_option (\<lambda>ik. it\<lparr>bi_key := ik, bi_key_pinned := False\<rparr>) (OwnKey junk (bi_key it)) else Some it);
          map_option (\<lambda>ik. it1\<lparr>bi_key := ik\<rparr>) (ik_UpdateInternalKey le (bi_global_seqno it1) value_type (bi_key it1))
        }
        else None
      })"

text \<open>
  A key used in place, \<open>n\<close> bytes at offset \<open>off\<close>. Nothing is read of it, so that it may reach past
  the end of the memory.
\<close>

definition point_key :: "u8 \<Rightarrow> bytes \<Rightarrow> nat \<Rightarrow> nat \<Rightarrow> IterKey \<Rightarrow> IterKey option" where
  "point_key junk memory off n k = map_option (\<lambda>ik. ik\<lparr>ik_size := n\<rparr>) (SetInternalKey junk (take n (drop off memory)) False k)"

text \<open>\<open>bi_key_at\<close> records where in the block a key used in place lies.\<close>

definition ParseNextKey :: "u8 \<Rightarrow> bool \<Rightarrow> BlockIter \<Rightarrow> (bool \<times> BlockIter) option" where
  "ParseNextKey junk le it = do {
     next \<leftarrow> NextEntryOffset it;
     data \<leftarrow> bi_data it;
     let it = it\<lparr>bi_current := next\<rparr>;
     if next \<ge> bi_restarts it
     then Some (False, it\<lparr>bi_current := bi_restarts it, bi_restart_index := bi_num_restarts it\<rparr>)
     else do {
       q \<leftarrow> slice_at data next (bi_restarts it - next);
       (case DecodeEntry q of
          None \<Rightarrow> Some (False, CorruptionError it)
        | Some (shared, non_shared, value_length, rest) \<Rightarrow>
            if ik_size (bi_key it) < unat shared then Some (False, CorruptionError it)
            else do {
              let p = bi_restarts it - length rest;
              it1 \<leftarrow> (if shared = 0
                      then map_option (\<lambda>ik. it\<lparr>bi_key := ik, bi_key_at := p, bi_key_pinned := True\<rparr>) (point_key junk data p (unat non_shared) (bi_key it))
                      else do {
                        delta \<leftarrow> slice_at data p (unat non_shared);
                        map_option (\<lambda>ik. it\<lparr>bi_key := ik, bi_key_pinned := False\<rparr>) (TrimAppend junk (unat shared) delta (bi_key it))
                      });
              it2 \<leftarrow> apply_global_seqno junk le it1;
              it3 \<leftarrow> advance_restart le (it2\<lparr>bi_value := Some (p + unat non_shared, unat value_length)\<rparr>);
              Some (True, it3)
            })
     }
   }"

definition Next :: "u8 \<Rightarrow> bool \<Rightarrow> BlockIter \<Rightarrow> BlockIter option" where
  "Next junk le it = (if Valid it then map_option snd (ParseNextKey junk le it) else None)"

section \<open>Seeking\<close>

type_synonym compare = "bytes \<Rightarrow> bytes \<Rightarrow> int option"

text \<open>
  The first result is whether the search succeeded, the second the restart point. The sum that
  gives the middle is taken in 32 bits.
\<close>

partial_function (option) BinarySeek ::
  "bool \<Rightarrow> compare \<Rightarrow> bytes \<Rightarrow> nat \<Rightarrow> nat \<Rightarrow> BlockIter \<Rightarrow> (bool \<times> nat \<times> BlockIter) option" where
  "BinarySeek le compare target left right it =
     (if left < right then
        let mid = u32_of (left + right + 1) div 2 in
        case GetRestartPoint le mid it of
          None \<Rightarrow> None
        | Some region_offset \<Rightarrow>
            (case bi_data it of
               None \<Rightarrow> None
             | Some data \<Rightarrow>
                 (case DecodeEntry (take (bi_restarts it - region_offset) (drop region_offset data)) of
                    None \<Rightarrow> Some (False, left, CorruptionError it)
                  | Some (shared, non_shared, value_length, rest) \<Rightarrow>
                      if shared \<noteq> 0 then Some (False, left, CorruptionError it)
                      else
                        (case slice_at data (bi_restarts it - length rest) (unat non_shared) of
                           None \<Rightarrow> None
                         | Some mid_key \<Rightarrow>
                             (case compare mid_key target of
                                None \<Rightarrow> None
                              | Some cmp \<Rightarrow>
                                  if cmp < 0 then BinarySeek le compare target mid right it
                                  else if cmp > 0 then BinarySeek le compare target left (mid - 1) it
                                  else BinarySeek le compare target mid mid it))))
      else Some (True, left, it))"

text \<open>The comparison with the first key behind a restart point; an error counts as a smaller target.\<close>

definition CompareBlockKey :: "bool \<Rightarrow> compare \<Rightarrow> nat \<Rightarrow> bytes \<Rightarrow> BlockIter \<Rightarrow> (int \<times> BlockIter) option" where
  "CompareBlockKey le compare block_index target it = do {
     region_offset \<leftarrow> GetRestartPoint le block_index it;
     data \<leftarrow> bi_data it;
     (case DecodeEntry (take (bi_restarts it - region_offset) (drop region_offset data)) of
        None \<Rightarrow> Some (1, CorruptionError it)
      | Some (shared, non_shared, value_length, rest) \<Rightarrow>
          if shared \<noteq> 0 then Some (1, CorruptionError it)
          else do {
            block_key \<leftarrow> slice_at data (bi_restarts it - length rest) (unat non_shared);
            cmp \<leftarrow> compare block_key target;
            Some (cmp, it)
          })
   }"

text \<open>The loop gives the bounds at which it ends, or nothing after an error.\<close>

partial_function (option) block_index_loop ::
  "bool \<Rightarrow> compare \<Rightarrow> bytes \<Rightarrow> nat list \<Rightarrow> nat \<Rightarrow> nat \<Rightarrow> BlockIter \<Rightarrow> ((nat \<times> nat) option \<times> BlockIter) option" where
  "block_index_loop le compare target block_ids left right it =
     (if left \<le> right then
        let mid = u32_of (right + left) div 2 in
        if mid \<ge> length block_ids then None
        else case CompareBlockKey le compare (block_ids ! mid) target it of
          None \<Rightarrow> None
        | Some (cmp, it) \<Rightarrow>
            if \<not> bi_status_ok it then Some (None, it)
            else if cmp < 0 then block_index_loop le compare target block_ids (mid + 1) right it
            else if left = right then Some (Some (left, right), it)
            else block_index_loop le compare target block_ids left mid it
      else Some (Some (left, right), it))"

definition BinaryBlockIndexSeek ::
  "bool \<Rightarrow> compare \<Rightarrow> bytes \<Rightarrow> nat list \<Rightarrow> nat \<Rightarrow> nat \<Rightarrow> BlockIter \<Rightarrow> (bool \<times> nat \<times> BlockIter) option" where
  "BinaryBlockIndexSeek le compare target block_ids left right it =
     (if left > right then None
      else do {
        (bounds, it) \<leftarrow> block_index_loop le compare target block_ids left right it;
        (case bounds of
           None \<Rightarrow> Some (False, 0, it)
         | Some (l, r) \<Rightarrow>
             if l = r then do {
               (gap, it) \<leftarrow>
                 (if block_ids ! l > 0 \<and> (l = left \<or> block_ids ! (l - 1) \<noteq> block_ids ! l - 1)
                  then map_option (\<lambda>(cmp, it). (cmp > 0, it)) (CompareBlockKey le compare (block_ids ! l - 1) target it)
                  else Some (False, it));
               Some (if gap then (False, 0, it\<lparr>bi_current := bi_restarts it\<rparr>) else (True, block_ids ! l, it))
             }
             else Some (False, 0, it\<lparr>bi_current := bi_restarts it\<rparr>))
      })"

definition PrefixSeek :: "bool \<Rightarrow> compare \<Rightarrow> bytes \<Rightarrow> (bytes \<Rightarrow> nat list) \<Rightarrow> BlockIter \<Rightarrow> (bool \<times> nat \<times> BlockIter) option" where
  "PrefixSeek le compare target prefix_index it =
     (let block_ids = prefix_index target in
      if block_ids = [] then Some (False, 0, it\<lparr>bi_current := bi_restarts it\<rparr>)
      else BinaryBlockIndexSeek le compare target block_ids 0 (length block_ids - 1) it)"

partial_function (option) seek_loop :: "u8 \<Rightarrow> bool \<Rightarrow> compare \<Rightarrow> bytes \<Rightarrow> BlockIter \<Rightarrow> BlockIter option" where
  "seek_loop junk le compare target it =
     (case ParseNextKey junk le it of
        None \<Rightarrow> None
      | Some (parsed, it) \<Rightarrow>
          if \<not> parsed then Some it
          else (case GetInternalKey (bi_key it) of
             None \<Rightarrow> None
           | Some k \<Rightarrow>
               (case compare k target of
                  None \<Rightarrow> None
                | Some cmp \<Rightarrow> if cmp \<ge> 0 then Some it else seek_loop junk le compare target it)))"

definition Seek :: "u8 \<Rightarrow> bool \<Rightarrow> compare \<Rightarrow> bytes \<Rightarrow> BlockIter \<Rightarrow> BlockIter option" where
  "Seek junk le compare target it =
     (if bi_data it = None then Some it
      else do {
        (ok, index, it) \<leftarrow>
          (case bi_prefix_index it of
             Some prefix_index \<Rightarrow> PrefixSeek le compare target prefix_index it
           | None \<Rightarrow> BinarySeek le compare target 0 (bi_num_restarts it - 1) it);
        if \<not> ok then Some it
        else do { it \<leftarrow> SeekToRestartPoint le index it; seek_loop junk le compare target it }
      })"

definition SeekToFirst :: "u8 \<Rightarrow> bool \<Rightarrow> BlockIter \<Rightarrow> BlockIter option" where
  "SeekToFirst junk le it =
     (if bi_data it = None then Some it
      else do { it \<leftarrow> SeekToRestartPoint le 0 it; map_option snd (ParseNextKey junk le it) })"

partial_function (option) last_loop :: "u8 \<Rightarrow> bool \<Rightarrow> BlockIter \<Rightarrow> BlockIter option" where
  "last_loop junk le it =
     (case ParseNextKey junk le it of
        None \<Rightarrow> None
      | Some (parsed, it) \<Rightarrow>
          if \<not> parsed then Some it
          else (case NextEntryOffset it of
             None \<Rightarrow> None
           | Some next \<Rightarrow> if next < bi_restarts it then last_loop junk le it else Some it))"

definition SeekToLast :: "u8 \<Rightarrow> bool \<Rightarrow> BlockIter \<Rightarrow> BlockIter option" where
  "SeekToLast junk le it =
     (if bi_data it = None then Some it
      else do { it \<leftarrow> SeekToRestartPoint le (bi_num_restarts it - 1) it; last_loop junk le it })"

section \<open>Going back\<close>

text \<open>The search for a restart point in front of \<open>original\<close>: its index, or nothing when there is none.\<close>

fun restart_before :: "bool \<Rightarrow> nat \<Rightarrow> nat \<Rightarrow> BlockIter \<Rightarrow> nat option option" where
  "restart_before le original index it =
     (case GetRestartPoint le index it of
        None \<Rightarrow> None
      | Some r \<Rightarrow>
          if r \<ge> original then (if index = 0 then Some None else restart_before le original (index - 1) it)
          else Some (Some index))"

declare restart_before.simps [simp del]

text \<open>What is remembered of the entry just parsed.\<close>

definition remember :: "BlockIter \<Rightarrow> BlockIter option" where
  "remember it = do {
     v \<leftarrow> bi_value it;
     if \<not> Valid it \<or> ik_is_user_key (bi_key it) then None
     else if IsKeyPinned (bi_key it)
     then Some (it\<lparr>bi_prev_entries := bi_prev_entries it @
                  [\<lparr>ce_offset = bi_current it, ce_key_ptr = Some (bi_key_at it), ce_key_offset = 0, ce_key_size = ik_size (bi_key it), ce_value = v\<rparr>]\<rparr>)
     else do {
       current_key \<leftarrow> iter_key it;
       Some (it\<lparr>bi_prev_buff := bi_prev_buff it @ current_key,
                bi_prev_entries := bi_prev_entries it @
                  [\<lparr>ce_offset = bi_current it, ce_key_ptr = None, ce_key_offset = length (bi_prev_buff it), ce_key_size = ik_size (bi_key it), ce_value = v\<rparr>]\<rparr>)
     }
   }"

partial_function (option) prev_loop :: "u8 \<Rightarrow> bool \<Rightarrow> nat \<Rightarrow> BlockIter \<Rightarrow> BlockIter option" where
  "prev_loop junk le original it =
     (case ParseNextKey junk le it of
        None \<Rightarrow> None
      | Some (parsed, it) \<Rightarrow>
          if \<not> parsed then Some it
          else (case remember it of
             None \<Rightarrow> None
           | Some it \<Rightarrow>
               (case NextEntryOffset it of
                  None \<Rightarrow> None
                | Some next \<Rightarrow> if next < original then prev_loop junk le original it else Some it)))"

text \<open>Taking the entry before from those remembered.\<close>

definition prev_cached :: "u8 \<Rightarrow> BlockIter \<Rightarrow> BlockIter option" where
  "prev_cached junk it = do {
     data \<leftarrow> bi_data it;
     let idx = bi_prev_idx it - 1;
     let e = bi_prev_entries it ! nat idx;
     ik \<leftarrow> (case ce_key_ptr e of
        Some ptr \<Rightarrow> point_key junk data ptr (ce_key_size e) (bi_key it)
      | None \<Rightarrow> point_key junk (bi_prev_buff it) (ce_key_offset e) (ce_key_size e) (bi_key it));
     Some (it\<lparr>bi_prev_idx := idx, bi_key_pinned := (ce_key_ptr e \<noteq> None), bi_current := ce_offset e, bi_key := ik, bi_value := Some (ce_value e)\<rparr>)
   }"

definition Prev :: "u8 \<Rightarrow> bool \<Rightarrow> BlockIter \<Rightarrow> BlockIter option" where
  "Prev junk le it =
     (if \<not> Valid it \<or> \<not> (bi_prev_idx it = - 1 \<or> (0 \<le> bi_prev_idx it \<and> bi_prev_idx it < int (length (bi_prev_entries it)))) then None
      else if bi_prev_idx it > 0 \<and> ce_offset (bi_prev_entries it ! nat (bi_prev_idx it)) = bi_current it then prev_cached junk it
      else do {
        let it = it\<lparr>bi_prev_idx := - 1, bi_prev_entries := [], bi_prev_buff := []\<rparr>;
        let original = bi_current it;
        found \<leftarrow> restart_before le original (bi_restart_index it) it;
        (case found of
           None \<Rightarrow> Some (it\<lparr>bi_current := bi_restarts it, bi_restart_index := bi_num_restarts it\<rparr>)
         | Some index \<Rightarrow> do {
             it \<leftarrow> SeekToRestartPoint le index it;
             it \<leftarrow> prev_loop junk le original it;
             Some (it\<lparr>bi_prev_idx := int (length (bi_prev_entries it)) - 1\<rparr>)
           })
      })"

text \<open>The first loop of \<open>SeekForPrev\<close> stops like that of \<open>Seek\<close>; the second goes back while the key is larger.\<close>

partial_function (option) back_loop :: "u8 \<Rightarrow> bool \<Rightarrow> compare \<Rightarrow> bytes \<Rightarrow> BlockIter \<Rightarrow> BlockIter option" where
  "back_loop junk le compare target it =
     (if Valid it then
        (case GetInternalKey (bi_key it) of
           None \<Rightarrow> None
         | Some k \<Rightarrow>
             (case compare k target of
                None \<Rightarrow> None
              | Some cmp \<Rightarrow>
                  if cmp > 0 then (case Prev junk le it of None \<Rightarrow> None | Some it \<Rightarrow> back_loop junk le compare target it)
                  else Some it))
      else Some it)"

definition SeekForPrev :: "u8 \<Rightarrow> bool \<Rightarrow> compare \<Rightarrow> bytes \<Rightarrow> BlockIter \<Rightarrow> BlockIter option" where
  "SeekForPrev junk le compare target it =
     (if bi_data it = None then Some it
      else do {
        (ok, index, it) \<leftarrow> BinarySeek le compare target 0 (bi_num_restarts it - 1) it;
        if \<not> ok then Some it
        else do {
          it \<leftarrow> SeekToRestartPoint le index it;
          it \<leftarrow> seek_loop junk le compare target it;
          if \<not> Valid it then SeekToLast junk le it else back_loop junk le compare target it
        }
      })"

section \<open>Blocks\<close>

record Block =
  blk_data :: bytes
  blk_size :: nat
  blk_restart_offset :: nat
  blk_prefix_index :: "(bytes \<Rightarrow> nat list) option"
  blk_global_seqno :: u64

definition NumRestarts :: "bool \<Rightarrow> bytes \<Rightarrow> nat \<Rightarrow> nat option" where
  "NumRestarts le data n = (if n \<ge> 2 * 4 then Some (unat (DecodeFixed32 le (drop (n - 4) data))) else None)"

definition make_Block :: "bool \<Rightarrow> bytes \<Rightarrow> u64 \<Rightarrow> Block option" where
  "make_Block le contents seqno =
     (let n = length contents in
      if n < 4
      then Some \<lparr>blk_data = contents, blk_size = 0, blk_restart_offset = 0, blk_prefix_index = None, blk_global_seqno = seqno\<rparr>
      else do {
        num \<leftarrow> NumRestarts le contents n;
        let restart_offset = u32_of (sub64 (u32_of n) (u32_of (1 + num) * 4));
        Some \<lparr>blk_data = contents, blk_size = (if restart_offset > n - 4 then 0 else n), blk_restart_offset = restart_offset,
              blk_prefix_index = None, blk_global_seqno = seqno\<rparr>
      })"

definition SetBlockPrefixIndex :: "(bytes \<Rightarrow> nat list) option \<Rightarrow> Block \<Rightarrow> Block" where
  "SetBlockPrefixIndex prefix_index blk = blk\<lparr>blk_prefix_index := prefix_index\<rparr>"

definition NewIterator :: "u8 \<Rightarrow> bool \<Rightarrow> bool \<Rightarrow> Block \<Rightarrow> BlockIter option" where
  "NewIterator junk le total_order_seek blk =
     (if blk_size blk < 2 * 4 then Some ((make_BlockIter junk)\<lparr>bi_status_ok := False\<rparr>)
      else do {
        num_restarts \<leftarrow> NumRestarts le (blk_data blk) (blk_size blk);
        if num_restarts = 0 then Some (make_BlockIter junk)
        else Initialize (blk_data blk) (blk_restart_offset blk) num_restarts
               (if total_order_seek then None else blk_prefix_index blk) (blk_global_seqno blk) (make_BlockIter junk)
      })"

end
