(* ===== verification/Block_Correct.thy ===== *)
theory Block_Correct
  imports Block_Format
begin

text \<open>
  A block gives back what was put into it. \<open>block_image\<close> describes the bytes of a block for a list of
  entries; the builder produces it, and the iterator on it moves like a cursor on the list. \<open>ready\<close>
  says which entry \<open>ParseNextKey\<close> will read next, \<open>at_entry\<close> at which entry the iterator stands.
\<close>

section \<open>The bytes of a block\<close>

type_synonym entries = "(bytes \<times> bytes) list"

definition shared_len :: "nat \<Rightarrow> bool \<Rightarrow> entries \<Rightarrow> nat \<Rightarrow> nat" where
  "shared_len r delta es i =
     (if delta \<and> i mod r \<noteq> 0 then difference_offset (fst (es ! i)) (fst (es ! (i - 1))) else 0)"

definition entry_head :: "nat \<Rightarrow> bool \<Rightarrow> entries \<Rightarrow> nat \<Rightarrow> bytes" where
  "entry_head r delta es i =
     (let s = shared_len r delta es i in varint s @ varint (length (fst (es ! i)) - s) @ varint (length (snd (es ! i))))"

definition entry_delta :: "nat \<Rightarrow> bool \<Rightarrow> entries \<Rightarrow> nat \<Rightarrow> bytes" where
  "entry_delta r delta es i = drop (shared_len r delta es i) (fst (es ! i))"

definition entry :: "nat \<Rightarrow> bool \<Rightarrow> entries \<Rightarrow> nat \<Rightarrow> bytes" where
  "entry r delta es i = entry_head r delta es i @ entry_delta r delta es i @ snd (es ! i)"

definition body :: "nat \<Rightarrow> bool \<Rightarrow> entries \<Rightarrow> nat \<Rightarrow> bytes" where
  "body r delta es n = concat (map (entry r delta es) [0..<n])"

definition off :: "nat \<Rightarrow> bool \<Rightarrow> entries \<Rightarrow> nat \<Rightarrow> nat" where
  "off r delta es i = length (body r delta es i)"

definition num_res :: "nat \<Rightarrow> nat \<Rightarrow> nat" where
  "num_res r n = (n - 1) div r + 1"

definition restart_array :: "nat \<Rightarrow> bool \<Rightarrow> entries \<Rightarrow> bytes" where
  "restart_array r delta es = concat (map (\<lambda>j. le_bytes 4 (off r delta es (j * r))) [0..<num_res r (length es)])"

definition block_image :: "nat \<Rightarrow> bool \<Rightarrow> entries \<Rightarrow> bytes" where
  "block_image r delta es = body r delta es (length es) @ restart_array r delta es @ le_bytes 4 (num_res r (length es))"

lemma shared_len_le: "shared_len r delta es i \<le> length (fst (es ! i))"
  unfolding shared_len_def using difference_offset_split by auto

lemma shared_len_prefix: "take (shared_len r delta es i) (fst (es ! (i - 1))) = take (shared_len r delta es i) (fst (es ! i))"
  unfolding shared_len_def using difference_offset_split [of "fst (es ! i)" "fst (es ! (i - 1))"] by simp

lemma shared_len_le_prev: "shared_len r delta es i \<le> length (fst (es ! (i - 1)))"
  unfolding shared_len_def using difference_offset_split [of "fst (es ! i)" "fst (es ! (i - 1))"] by simp

lemma off_Suc: "off r delta es (Suc i) = off r delta es i + length (entry r delta es i)"
  by (simp add: off_def body_def)

lemma off_0 [simp]: "off r delta es 0 = 0"
  by (simp add: off_def body_def)

lemma length_entry: "3 \<le> length (entry r delta es i)"
proof -
  have "1 \<le> length (varint n)" for n by (simp add: Suc_leI)
  from this [of "shared_len r delta es i"] this [of "length (fst (es ! i)) - shared_len r delta es i"] this [of "length (snd (es ! i))"]
  show ?thesis by (simp add: entry_def entry_head_def Let_def)
qed

lemma off_less: "i < j \<Longrightarrow> off r delta es i < off r delta es j"
proof (induction j)
  case (Suc j)
  then show ?case using length_entry [of r delta es j] by (cases "i = j") (auto simp: off_Suc less_Suc_eq)
qed simp

lemma off_le: "i \<le> j \<Longrightarrow> off r delta es i \<le> off r delta es j"
  using off_less [of i j r delta es] by (cases "i = j") auto

lemma off_less_iff: "off r delta es i < off r delta es j \<longleftrightarrow> i < j"
  using off_less [of i j r delta es] off_le [of j i r delta es] by (cases "i < j") auto

lemma off_inj: "off r delta es i = off r delta es j \<longleftrightarrow> i = j"
  using off_less [of i j r delta es] off_less [of j i r delta es] by (cases i j rule: linorder_cases) auto

section \<open>What the builder writes\<close>

definition small_entries :: "entries \<Rightarrow> bool" where
  "small_entries es \<longleftrightarrow> list_all (\<lambda>(k, v). length k < 2 ^ 32 \<and> length v < 2 ^ 32) es"

fun add_all :: "entries \<Rightarrow> BlockBuilder \<Rightarrow> BlockBuilder option" where
  "add_all [] b = Some b"
| "add_all ((k, v) # es) b = Option.bind (Add k v b) (add_all es)"

lemma add_all_append: "add_all (es @ fs) b = Option.bind (add_all es b) (add_all fs)"
  by (induction es b rule: add_all.induct) (auto split: bind_split)

definition built :: "nat \<Rightarrow> bool \<Rightarrow> entries \<Rightarrow> BlockBuilder \<Rightarrow> bool" where
  "built r delta es b \<longleftrightarrow>
     block_restart_interval b = r \<and> use_delta_encoding b = delta \<and> \<not> finished b \<and>
     buffer b = body r delta es (length es) \<and>
     restart_points b = map (\<lambda>j. of_nat (off r delta es (j * r))) [0..<num_res r (length es)] \<and>
     counter b = (if es = [] then 0 else (length es - 1) mod r + 1) \<and>
     last_key b = (if delta \<and> es \<noteq> [] then fst (last es) else []) \<and>
     estimate b = length (buffer b) + 4 * length (restart_points b) + 4"

lemma entry_append: "i < length es \<Longrightarrow> entry r delta (es @ fs) i = entry r delta es i"
proof -
  assume "i < length es"
  then have "(es @ fs) ! i = es ! i" "(es @ fs) ! (i - 1) = es ! (i - 1)" by (auto simp: nth_append)
  then show ?thesis by (simp add: entry_def entry_head_def entry_delta_def shared_len_def)
qed

lemma body_append: "i \<le> length es \<Longrightarrow> body r delta (es @ fs) i = body r delta es i"
  unfolding body_def by (intro arg_cong [where f = concat] map_cong) (auto simp: entry_append)

lemma off_append: "i \<le> length es \<Longrightarrow> off r delta (es @ fs) i = off r delta es i"
  by (simp add: off_def body_append)

lemma num_res_Suc:
  assumes "1 \<le> r" "0 < n"
  shows "num_res r (Suc n) = (if n mod r = 0 then Suc (num_res r n) else num_res r n)"
proof -
  obtain m where n: "n = Suc m" using assms(2) by (cases n) auto
  show ?thesis unfolding n num_res_def using div_Suc [of m r] assms(1) by (simp split: if_splits)
qed

lemma restart_entry_le: "j < num_res r n \<Longrightarrow> j * r \<le> n - 1"
proof -
  assume "j < num_res r n"
  then have "j * r \<le> (n - 1) div r * r" by (simp add: num_res_def)
  then show ?thesis by (meson div_times_less_eq_dividend le_trans)
qed

lemma num_res_multiple: "1 \<le> r \<Longrightarrow> 0 < n \<Longrightarrow> n mod r = 0 \<Longrightarrow> num_res r n * r = n"
proof -
  assume r: "1 \<le> r" "0 < n" "n mod r = 0"
  then obtain m where n: "n = Suc m" by (cases n) auto
  have "num_res r n = n div r" using r div_Suc [of m r] by (simp add: n num_res_def split: if_splits)
  then show ?thesis using r by (metis add.right_neutral div_mult_mod_eq)
qed

text \<open>The parts of the state after one more entry.\<close>

lemma body_snoc: "body r delta (es @ [e]) (length (es @ [e])) = body r delta es (length es) @ entry r delta (es @ [e]) (length es)"
proof -
  have "body r delta (es @ [e]) (length (es @ [e])) = body r delta (es @ [e]) (length es) @ entry r delta (es @ [e]) (length es)"
    by (simp add: body_def)
  then show ?thesis by (simp only: body_append [OF order_refl])
qed

lemma restarts_snoc:
  assumes "1 \<le> r"
  shows "map (\<lambda>j. f (off r delta (es @ [e]) (j * r))) [0..<num_res r (length (es @ [e]))] =
    map (\<lambda>j. f (off r delta es (j * r))) [0..<num_res r (length es)] @
    (if es \<noteq> [] \<and> length es mod r = 0 then [f (off r delta es (length es))] else [])"
proof -
  have same: "map (\<lambda>j. f (off r delta (es @ [e]) (j * r))) [0..<num_res r (length es)] = map (\<lambda>j. f (off r delta es (j * r))) [0..<num_res r (length es)]"
    using restart_entry_le [of _ r "length es"] by (auto simp: off_append dest!: restart_entry_le)
  have last: "off r delta (es @ [e]) (length es) = off r delta es (length es)" by (simp add: off_append)
  show ?thesis
  proof (cases "es = []")
    case True
    then show ?thesis using same by (simp add: num_res_def)
  next
    case False
    then have n: "0 < length es" by simp
    show ?thesis using num_res_Suc [OF assms n] num_res_multiple [OF assms n] same last False by simp
  qed
qed

lemma counter_next:
  fixes n r :: nat
  assumes "1 \<le> r" "n \<noteq> 0"
  shows "(n - 1) mod r + 1 \<ge> r \<longleftrightarrow> n mod r = 0" "n mod r \<noteq> 0 \<Longrightarrow> (n - 1) mod r + 1 = n mod r"
proof -
  obtain m where n: "n = Suc m" using assms(2) by (cases n) auto
  have "m mod r < r" using assms(1) by simp
  then show "(n - 1) mod r + 1 \<ge> r \<longleftrightarrow> n mod r = 0" "n mod r \<noteq> 0 \<Longrightarrow> (n - 1) mod r + 1 = n mod r"
    using mod_Suc [of m r] by (auto simp: n split: if_splits)
qed

lemma Add_built:
  assumes b: "built r delta es b" and r: "1 \<le> r" and small: "length k < 2 ^ 32" "length v < 2 ^ 32"
  shows "\<exists>b'. Add k v b = Some b' \<and> built r delta (es @ [(k, v)]) b'"
proof -
  define n where "n = length es"
  define es' where "es' = es @ [(k, v)]"
  define s where "s = shared_len r delta es' n"
  define restart where "restart \<longleftrightarrow> es \<noteq> [] \<and> n mod r = 0"
  have nth: "es' ! n = (k, v)" by (simp add: es'_def n_def)
  have cnt: "counter b = (if es = [] then 0 else (n - 1) mod r + 1)" using b by (simp add: built_def n_def)
  have full: "r \<le> counter b \<longleftrightarrow> restart" "counter b \<le> r"
    using counter_next(1) [OF r, of n] r mod_less_divisor [of r "n - 1"] by (auto simp: cnt restart_def n_def Suc_le_eq)
  have sh: "s = (if restart then 0 else if delta then difference_offset k (last_key b) else 0)"
  proof (cases "es = []")
    case True
    then show ?thesis using b r by (cases k) (auto simp: s_def shared_len_def built_def n_def restart_def)
  next
    case False
    then have "es' ! (n - 1) = last es" by (simp add: es'_def n_def nth_append last_conv_nth)
    then show ?thesis using b False nth by (auto simp: s_def shared_len_def built_def n_def restart_def)
  qed
  have "s \<le> length k" using shared_len_le [of r delta es' n] by (simp add: s_def nth)
  then have u: "unat (of_nat s :: u32) = s" "unat (of_nat (length k - s) :: u32) = length k - s" "unat (of_nat (length v) :: u32) = length v"
    using small by (simp_all add: unat_of_nat_32 del: of_nat_diff)
  define e where "e = entry r delta es' n"
  have e: "e = varint s @ varint (length k - s) @ varint (length v) @ drop s k @ v"
    by (simp add: e_def entry_def entry_head_def entry_delta_def nth Let_def flip: s_def)
  define b' where "b' = b\<lparr>restart_points := restart_points b @ (if restart then [of_nat (length (buffer b))] else []),
      estimate := estimate b + (if restart then 4 else 0) + length e, counter := (if restart then 0 else counter b) + 1,
      last_key := (if delta then k else last_key b), buffer := buffer b @ e\<rparr>"
  have "\<not> finished b" "use_delta_encoding b = delta" "block_restart_interval b = r" using b by (simp_all add: built_def)
  then have "Add k v b = Some b'"
    unfolding Add_def using full sh u
    by (auto simp: Let_def PutVarint32Varint32Varint32_def b'_def e simp del: of_nat_diff intro!: BlockBuilder.equality)
  moreover have "built r delta es' b'"
    unfolding built_def
  proof (intro conjI)
    show "buffer b' = body r delta es' (length es')"
      using b by (simp add: b'_def built_def es'_def n_def e_def body_snoc del: length_append)
    show "restart_points b' = map (\<lambda>j. of_nat (off r delta es' (j * r))) [0..<num_res r (length es')]"
      unfolding es'_def restarts_snoc [OF r] using b by (simp add: b'_def built_def restart_def n_def off_def)
    show "counter b' = (if es' = [] then 0 else (length es' - 1) mod r + 1)"
      using counter_next(2) [OF r, of n] by (cases "es = []") (auto simp: b'_def es'_def cnt restart_def n_def)
    show "estimate b' = length (buffer b') + 4 * length (restart_points b') + 4"
      using b by (simp add: b'_def built_def)
  qed (use b in \<open>simp_all add: b'_def built_def es'_def\<close>)
  ultimately show ?thesis by (auto simp: es'_def)
qed

lemma add_all_built:
  assumes "built r delta es b" "1 \<le> r" "small_entries fs"
  shows "\<exists>b'. add_all fs b = Some b' \<and> built r delta (es @ fs) b'"
  using assms
proof (induction fs arbitrary: es b)
  case (Cons e fs)
  obtain k v where e: "e = (k, v)" by (cases e)
  then obtain b1 where b1: "Add k v b = Some b1" "built r delta (es @ [(k, v)]) b1"
    using Add_built [OF Cons.prems(1,2), of k v] Cons.prems(3) by (auto simp: small_entries_def)
  then obtain b2 where "add_all fs b1 = Some b2" "built r delta ((es @ [(k, v)]) @ fs) b2"
    using Cons.IH [OF b1(2) Cons.prems(2)] Cons.prems(3) by (auto simp: small_entries_def)
  then show ?case using b1 by (simp add: e)
qed simp

lemma make_built: "1 \<le> r \<Longrightarrow> \<exists>b. make_BlockBuilder r delta = Some b \<and> built r delta [] b"
  by (simp add: make_BlockBuilder_def built_def body_def num_res_def)

lemma off_image_less:
  assumes "length (block_image r delta es) < 2 ^ 32" "i \<le> length es"
  shows "off r delta es i < 2 ^ 32"
  using assms off_le [OF assms(2), of r delta es] by (simp add: block_image_def off_def)

lemma length_restart_array: "length (restart_array r delta es) = 4 * num_res r (length es)"
  by (simp add: restart_array_def length_concat o_def sum_list_triv)

lemma num_res_image_less: "length (block_image r delta es) < 2 ^ 32 \<Longrightarrow> num_res r (length es) < 2 ^ 30"
  using length_restart_array [of r delta es] by (simp add: block_image_def)

lemma Finish_built:
  assumes "built r delta es b" "length (block_image r delta es) < 2 ^ 32"
  shows "\<exists>b'. Finish le b = (block_image r delta es, b') \<and> estimate b = length (block_image r delta es)"
proof -
  have "off r delta es (j * r) < 2 ^ 32" if "j < num_res r (length es)" for j
    using off_image_less [OF assms(2)] restart_entry_le [OF that] by simp
  then have "concat (map (\<lambda>v. le_bytes 4 (unat v)) (restart_points b)) = restart_array r delta es"
    using assms(1) by (auto simp: built_def restart_array_def o_def unat_of_nat_32 intro!: arg_cong [where f = concat])
  moreover have "length (restart_points b) = num_res r (length es)" using assms(1) by (simp add: built_def)
  moreover have "unat (of_nat (num_res r (length es)) :: u32) = num_res r (length es)"
    using num_res_image_less [OF assms(2)] by (simp add: unat_of_nat)
  ultimately show ?thesis using assms(1)
    by (simp add: Finish_def foldl_PutFixed32 Let_def block_image_def built_def length_restart_array)
qed

section \<open>Decoding entries\<close>

lemma small_word: "(x :: u32) < 128 \<longleftrightarrow> drop_bit 7 x = 0"
proof -
  have "drop_bit 7 x = 0 \<longleftrightarrow> unat (drop_bit 7 x) = 0" by (simp only: unat_eq_0)
  also have "\<dots> \<longleftrightarrow> unat x < 128" by (simp add: unat_drop_bit div_eq_0_iff)
  finally show ?thesis by (simp add: word_less_nat_alt)
qed

lemma or_small: "((x :: u32) OR y OR z) < 128 \<longleftrightarrow> x < 128 \<and> y < 128 \<and> z < 128"
  by (simp add: small_word drop_bit_or or_eq_0_iff)

lemma ucast_small: "(ucast (b :: u8) :: u32) < 128 \<longleftrightarrow> unat b < 128"
  using byte_less [of b] by (simp add: word_less_nat_alt unsigned_ucast_eq take_bit_eq_mod)

lemma varint_first: "varint n ! 0 = of_nat (if n < 128 then n else n mod 128 + 128)"
  by (cases "n < 128") (simp_all add: varint_small varint_big)

lemma varint_first_small: "unat (varint n ! 0) < 128 \<longleftrightarrow> n < 128"
proof -
  have "n mod 128 + 128 < 256" by simp
  then show ?thesis unfolding varint_first by (simp add: unat_of_nat)
qed

lemma GetVarint32Ptr_append: "n < 2 ^ 32 \<Longrightarrow> GetVarint32Ptr (varint n @ rest) = Some (of_nat n, rest)"
  using GetVarint32_append [of "of_nat n" rest] by (auto simp: GetVarint32_def unat_of_nat_32 split: option.splits)

lemma varint_length_1: "Suc 0 \<le> length (varint n)"
  by (simp add: Suc_leI)

lemma DecodeEntry_append:
  assumes "s < 2 ^ 32" "ns < 2 ^ 32" "vl < 2 ^ 32" "length p < 2 ^ 32" "ns + vl \<le> length p"
  shows "DecodeEntry (varint s @ varint ns @ varint vl @ p) = Some (of_nat s, of_nat ns, of_nat vl, p)"
proof -
  define q where "q = varint s @ varint ns @ varint vl @ p"
  have len: "\<not> length q < 3" using varint_length_1 [of s] varint_length_1 [of ns] varint_length_1 [of vl] by (simp add: q_def)
  have q0: "q ! 0 = varint s ! 0" by (simp add: q_def nth_append)
  have q1: "q ! 1 = varint ns ! 0" if "s < 128" using that by (simp add: q_def varint_small nth_append)
  have q2: "q ! 2 = varint vl ! 0" if "s < 128" "ns < 128" using that by (simp add: q_def varint_small nth_append)
  have fast: "(ucast (q ! 0) OR ucast (q ! 1) OR ucast (q ! 2) :: u32) < 128 \<longleftrightarrow> s < 128 \<and> ns < 128 \<and> vl < 128"
    unfolding or_small ucast_small q0 varint_first_small
    by (cases "s < 128"; cases "ns < 128") (simp_all only: q1 q2 varint_first_small simp_thms)
  have byte: "ucast (varint n ! 0) = (of_nat n :: u32)" if "n < 128" for n
  proof -
    have "unat (ucast (varint n ! 0) :: u32) = n" using that unfolding varint_first by (simp add: unsigned_ucast_eq take_bit_eq_mod unat_of_nat)
    moreover have "unat (of_nat n :: u32) = n" using that by (simp add: unat_of_nat)
    ultimately show ?thesis by (simp only: word_unat_eq_iff)
  qed
  have fits: "\<not> (of_nat (length p) :: u32) < of_nat ns + of_nat vl"
  proof -
    have "unat (of_nat ns + of_nat vl :: u32) = ns + vl" using unat_of_nat_32 [of "ns + vl"] assms(4,5) by simp
    then show ?thesis using assms(4,5) by (simp add: word_less_nat_alt unat_of_nat_32)
  qed
  show ?thesis
  proof (cases "s < 128 \<and> ns < 128 \<and> vl < 128")
    case True
    then have "drop 3 q = p" by (simp add: q_def varint_small)
    then show ?thesis
      unfolding q_def [symmetric] DecodeEntry_def Let_def fast using len True fits by (simp add: q0 q1 q2 byte del: One_nat_def)
  next
    case False
    have "(do { (shared, p1) \<leftarrow> GetVarint32Ptr q; (non_shared, p2) \<leftarrow> GetVarint32Ptr p1; (value_length, p3) \<leftarrow> GetVarint32Ptr p2;
               Some (shared, non_shared, value_length, p3) }) = Some (of_nat s, of_nat ns, of_nat vl, p)"
      using assms by (simp add: q_def GetVarint32Ptr_append)
    then show ?thesis
      unfolding q_def [symmetric] DecodeEntry_def Let_def fast if_not_P [OF False] using len fits by simp
  qed
qed

section \<open>Reading the image\<close>

definition block_ok :: "nat \<Rightarrow> bool \<Rightarrow> entries \<Rightarrow> bool" where
  "block_ok r delta es \<longleftrightarrow> 1 \<le> r \<and> small_entries es \<and> length (block_image r delta es) < 2 ^ 32"

lemma body_split:
  assumes "i \<le> j"
  shows "\<exists>rest. body r delta es j = body r delta es i @ rest"
proof -
  have "[0..<j] = [0..<i] @ [i..<j]" using assms upt_add_eq_append [of 0 i "j - i"] by simp
  then show ?thesis by (simp add: body_def)
qed

lemma body_at:
  assumes "i < n"
  shows "\<exists>rest. body r delta es n = body r delta es i @ entry r delta es i @ rest"
  using body_split [of "Suc i" n r delta es] assms by (auto simp: body_def)

lemma slice_body:
  assumes "i \<le> length es"
  shows "slice_at (block_image r delta es) (off r delta es i) (off r delta es (length es) - off r delta es i) =
    Some (drop (off r delta es i) (body r delta es (length es)))"
  using off_le [OF assms, of r delta es] by (simp add: slice_at_def block_image_def off_def)

lemma take_image:
  assumes "i \<le> length es"
  shows "take (off r delta es (length es) - off r delta es i) (drop (off r delta es i) (block_image r delta es)) =
    drop (off r delta es i) (body r delta es (length es))"
  using slice_body [OF assms, of r delta] by (simp add: slice_at_def split: if_splits)

lemma small_entry: "small_entries es \<Longrightarrow> i < length es \<Longrightarrow> length (fst (es ! i)) < 2 ^ 32 \<and> length (snd (es ! i)) < 2 ^ 32"
  by (auto simp: small_entries_def list_all_length case_prod_beta)

definition value_loc :: "nat \<Rightarrow> bool \<Rightarrow> entries \<Rightarrow> nat \<Rightarrow> nat \<times> nat" where
  "value_loc r delta es i = (off r delta es (Suc i) - length (snd (es ! i)), length (snd (es ! i)))"

lemma DecodeEntry_at:
  assumes ok: "block_ok r delta es" and i: "i < length es"
  obtains p rest where "DecodeEntry (drop (off r delta es i) (body r delta es (length es))) =
       Some (of_nat (shared_len r delta es i), of_nat (length (entry_delta r delta es i)), of_nat (length (snd (es ! i))), rest)"
    "p = off r delta es (length es) - length rest"
    "slice_at (block_image r delta es) p (length (entry_delta r delta es i)) = Some (entry_delta r delta es i)"
    "(p + length (entry_delta r delta es i), length (snd (es ! i))) = value_loc r delta es i"
proof -
  define n where "n = off r delta es (length es)"
  obtain tl where tl: "body r delta es (length es) = body r delta es i @ entry r delta es i @ tl" using body_at [OF i] by blast
  then have n: "n = off r delta es i + length (entry r delta es i @ tl)" by (simp add: n_def off_def)
  define rest where "rest = entry_delta r delta es i @ snd (es ! i) @ tl"
  define p where "p = n - length rest"
  have p: "p = off r delta es i + length (entry_head r delta es i)" using n by (simp add: p_def rest_def entry_def)
  have small: "length (fst (es ! i)) < 2 ^ 32" "length (snd (es ! i)) < 2 ^ 32" using ok small_entry [OF _ i] by (auto simp: block_ok_def)
  have "n < 2 ^ 32" using ok off_image_less [of r delta es "length es"] by (simp add: block_ok_def n_def)
  then have len: "length rest < 2 ^ 32" using n by (simp add: rest_def entry_def)
  have "entry r delta es i @ tl = varint (shared_len r delta es i) @ varint (length (entry_delta r delta es i)) @ varint (length (snd (es ! i))) @ rest"
    by (simp add: entry_def entry_head_def entry_delta_def rest_def Let_def)
  then have "drop (off r delta es i) (body r delta es (length es)) =
      varint (shared_len r delta es i) @ varint (length (entry_delta r delta es i)) @ varint (length (snd (es ! i))) @ rest"
    by (simp add: tl off_def)
  moreover have "DecodeEntry (varint (shared_len r delta es i) @ varint (length (entry_delta r delta es i)) @ varint (length (snd (es ! i))) @ rest) =
      Some (of_nat (shared_len r delta es i), of_nat (length (entry_delta r delta es i)), of_nat (length (snd (es ! i))), rest)"
    using small len shared_len_le [of r delta es i] by (intro DecodeEntry_append) (simp_all add: entry_delta_def rest_def)
  moreover have "slice_at (block_image r delta es) p (length (entry_delta r delta es i)) = Some (entry_delta r delta es i)"
    by (simp add: slice_at_def block_image_def p entry_def off_def tl)
  moreover have "(p + length (entry_delta r delta es i), length (snd (es ! i))) = value_loc r delta es i"
    by (simp add: p value_loc_def off_Suc entry_def)
  ultimately show ?thesis using that [of rest p] by (simp add: p_def n_def)
qed

lemma slice_restart:
  assumes "block_ok r delta es" "j < num_res r (length es)"
  shows "slice_at (block_image r delta es) (off r delta es (length es) + j * 4) 4 = Some (le_bytes 4 (off r delta es (j * r)))"
proof -
  define f where "f = (\<lambda>j. le_bytes 4 (off r delta es (j * r)))"
  have len: "length (restart_array r delta es) = 4 * num_res r (length es)" by (rule length_restart_array)
  have "take 4 (drop (j * 4) (restart_array r delta es)) = f j"
    unfolding restart_array_def f_def [symmetric] using concat_block [of f 4 j] assms(2) by (simp add: f_def mult.commute)
  then show ?thesis using len assms(2) by (simp add: slice_at_def block_image_def off_def f_def)
qed

section \<open>Positions of the iterator\<close>

definition on_block :: "nat \<Rightarrow> bool \<Rightarrow> entries \<Rightarrow> BlockIter \<Rightarrow> bool" where
  "on_block r delta es it \<longleftrightarrow> bi_data it = Some (block_image r delta es) \<and> bi_restarts it = off r delta es (length es) \<and>
     bi_num_restarts it = num_res r (length es) \<and> bi_prefix_index it = None \<and>
     bi_global_seqno it = kDisableGlobalSequenceNumber \<and> bi_status_ok it \<and> ik_ok (bi_key it)"

definition ready :: "nat \<Rightarrow> bool \<Rightarrow> entries \<Rightarrow> nat \<Rightarrow> BlockIter \<Rightarrow> bool" where
  "ready r delta es i it \<longleftrightarrow> on_block r delta es it \<and> i \<le> length es \<and> bi_restart_index it < num_res r (length es) \<and> NextEntryOffset it = Some (off r delta es i) \<and>
     (i < length es \<and> shared_len r delta es i \<noteq> 0 \<longrightarrow> ik_key (bi_key it) = fst (es ! (i - 1)) \<and> \<not> ik_is_user_key (bi_key it))"

definition at_entry :: "nat \<Rightarrow> bool \<Rightarrow> entries \<Rightarrow> nat \<Rightarrow> BlockIter \<Rightarrow> bool" where
  "at_entry r delta es i it \<longleftrightarrow> on_block r delta es it \<and> i < length es \<and> bi_current it = off r delta es i \<and>
     bi_value it = Some (value_loc r delta es i) \<and> ik_key (bi_key it) = fst (es ! i) \<and> \<not> ik_is_user_key (bi_key it) \<and>
     bi_restart_index it < num_res r (length es) \<and> (\<forall>j. bi_restart_index it < j \<and> j < num_res r (length es) \<longrightarrow> i \<le> j * r)"

lemma GetRestartPoint_at:
  assumes "block_ok r delta es" "on_block r delta es it" "j < num_res r (length es)"
  shows "GetRestartPoint le j it = Some (off r delta es (j * r))"
proof -
  have "off r delta es (j * r) < 2 ^ 32" using assms(1) off_image_less [of r delta es "j * r"] restart_entry_le [OF assms(3)] by (simp add: block_ok_def)
  then have "unat (DecodeFixed32 le (le_bytes 4 (off r delta es (j * r)))) = off r delta es (j * r)"
    by (simp add: le_value_exact unat_of_nat_32)
  then show ?thesis using assms slice_restart [OF assms(1,3)] by (simp add: GetRestartPoint_def on_block_def)
qed

lemma value_loc_slice:
  assumes "i < length es"
  shows "slice_at (block_image r delta es) (fst (value_loc r delta es i)) (snd (value_loc r delta es i)) = Some (snd (es ! i))"
    "fst (value_loc r delta es i) + snd (value_loc r delta es i) = off r delta es (Suc i)"
proof -
  obtain rest where b: "body r delta es (length es) = body r delta es i @ entry r delta es i @ rest" using body_at [OF assms] by blast
  have o: "off r delta es (Suc i) = length (body r delta es i @ entry_head r delta es i @ entry_delta r delta es i) + length (snd (es ! i))"
    by (simp add: off_def body_def entry_def)
  have "block_image r delta es = (body r delta es i @ entry_head r delta es i @ entry_delta r delta es i) @ snd (es ! i) @
      rest @ restart_array r delta es @ le_bytes 4 (num_res r (length es))" by (simp add: block_image_def b entry_def)
  then show "slice_at (block_image r delta es) (fst (value_loc r delta es i)) (snd (value_loc r delta es i)) = Some (snd (es ! i))"
    by (simp add: slice_at_def value_loc_def o)
  show "fst (value_loc r delta es i) + snd (value_loc r delta es i) = off r delta es (Suc i)" by (simp add: value_loc_def o)
qed

lemma at_entry_ready:
  assumes "block_ok r delta es" "at_entry r delta es i it"
  shows "ready r delta es (Suc i) it"
proof -
  have "off r delta es (Suc i) < 2 ^ 32" using assms off_image_less [of r delta es "Suc i"] by (simp add: block_ok_def at_entry_def)
  then show ?thesis using assms(2) value_loc_slice(2) [of i es r delta]
    by (auto simp: ready_def at_entry_def NextEntryOffset_def u32_of_def case_prod_beta)
qed

text \<open>The entries remembered on the way back stay as they are.\<close>

definition same_cache :: "BlockIter \<Rightarrow> BlockIter \<Rightarrow> bool" where
  "same_cache it it' \<longleftrightarrow> bi_prev_entries it' = bi_prev_entries it \<and> bi_prev_buff it' = bi_prev_buff it \<and> bi_prev_idx it' = bi_prev_idx it"

definition pin_ok :: "BlockIter \<Rightarrow> bool" where
  "pin_ok it \<longleftrightarrow> (IsKeyPinned (bi_key it) \<longrightarrow>
     slice_at (the (bi_data it)) (bi_key_at it) (length (ik_key (bi_key it))) = Some (ik_key (bi_key it)))"

definition ended :: "nat \<Rightarrow> bool \<Rightarrow> entries \<Rightarrow> BlockIter \<Rightarrow> bool" where
  "ended r delta es it \<longleftrightarrow> on_block r delta es it \<and> bi_current it = bi_restarts it"

lemma advance_restart_at:
  assumes "block_ok r delta es" "on_block r delta es it" "bi_restart_index it < num_res r (length es)" "bi_current it = off r delta es i"
  shows "\<exists>k. advance_restart le it = Some (it\<lparr>bi_restart_index := k\<rparr>) \<and> k < num_res r (length es) \<and>
    (\<forall>j. k < j \<and> j < num_res r (length es) \<longrightarrow> i \<le> j * r)"
  using assms(2-)
proof (induction "num_res r (length es) - bi_restart_index it" arbitrary: it rule: less_induct)
  case less
  define k where "k = bi_restart_index it"
  have num: "bi_num_restarts it = num_res r (length es)" using less.prems by (simp add: on_block_def)
  have same: "it\<lparr>bi_restart_index := k\<rparr> = it" by (simp add: k_def)
  show ?case
  proof (cases "k + 1 < num_res r (length es)")
    case False
    then have "advance_restart le it = Some it" by (subst advance_restart.simps) (simp add: num k_def)
    then show ?thesis using False less.prems same by (intro exI [of _ k]) (auto simp: k_def)
  next
    case True
    have get: "GetRestartPoint le (k + 1) it = Some (off r delta es ((k + 1) * r))"
      using GetRestartPoint_at [OF assms(1) less.prems(1) True] .
    show ?thesis
    proof (cases "off r delta es ((k + 1) * r) < bi_current it")
      case next_restart: True
      define it1 where "it1 = it\<lparr>bi_restart_index := k + 1\<rparr>"
      have "advance_restart le it = advance_restart le it1"
        using True get next_restart by (subst advance_restart.simps) (simp add: num k_def it1_def)
      moreover have "on_block r delta es it1" "bi_restart_index it1 < num_res r (length es)" "bi_current it1 = off r delta es i"
        using less.prems True by (simp_all add: it1_def on_block_def)
      moreover have "num_res r (length es) - bi_restart_index it1 < num_res r (length es) - bi_restart_index it"
        using True by (simp add: it1_def k_def)
      ultimately show ?thesis using less.hyps [of it1] by (simp add: it1_def)
    next
      case False
      then have "advance_restart le it = Some it" using True get by (subst advance_restart.simps) (simp add: num k_def)
      moreover have "i \<le> j * r" if "k < j" for j
      proof -
        have "i \<le> (k + 1) * r" using False less.prems(3) off_less_iff [of r delta es "(k + 1) * r" i] by simp
        also have "\<dots> \<le> j * r" using that by (intro mult_right_mono) simp_all
        finally show ?thesis .
      qed
      ultimately show ?thesis using less.prems(2) same by (intro exI [of _ k]) (auto simp: k_def)
    qed
  qed
qed

lemma parse_end:
  assumes "block_ok r delta es" "ready r delta es (length es) it"
  shows "\<exists>it'. ParseNextKey junk le it = Some (False, it') \<and> ended r delta es it' \<and> same_cache it it'"
  using assms(2) by (auto simp: ready_def ParseNextKey_def Let_def on_block_def ended_def same_cache_def)

lemma point_key_slice: "slice_at memory p n = Some key \<Longrightarrow> point_key junk memory p n k = SetInternalKey junk key False k"
  by (auto simp: point_key_def slice_at_def SetInternalKey_def SetKeyImpl_def split: if_splits)

text \<open>The key of the next entry, in place or put together from the key before.\<close>

lemma parse_key:
  assumes ready: "ready r delta es i it" and i: "i < length es"
  shows "\<exists>ik. (if shared_len r delta es i = 0 then SetInternalKey junk (entry_delta r delta es i) False (bi_key it)
        else TrimAppend junk (shared_len r delta es i) (entry_delta r delta es i) (bi_key it)) = Some ik \<and>
    shared_len r delta es i \<le> ik_size (bi_key it) \<and> ik_ok ik \<and> ik_key ik = fst (es ! i) \<and> \<not> ik_is_user_key ik \<and> (IsKeyPinned ik \<longrightarrow> shared_len r delta es i = 0)"
proof (cases "shared_len r delta es i = 0")
  case True
  then have "entry_delta r delta es i = fst (es ! i)" by (simp add: entry_delta_def)
  then show ?thesis using True SetInternalKey_pinned [of junk "entry_delta r delta es i" "bi_key it"] by auto
next
  case False
  define s where "s = shared_len r delta es i"
  have k: "ik_ok (bi_key it)" "ik_key (bi_key it) = fst (es ! (i - 1))" "\<not> ik_is_user_key (bi_key it)"
    using ready i False by (auto simp: ready_def on_block_def)
  then have size: "ik_size (bi_key it) = length (fst (es ! (i - 1)))" using length_ik_key [OF k(1)] by simp
  have le: "s \<le> ik_size (bi_key it)" unfolding size s_def by (rule shared_len_le_prev)
  obtain ik where ik: "TrimAppend junk s (entry_delta r delta es i) (bi_key it) = Some ik" "ik_ok ik"
      "ik_key ik = take s (ik_key (bi_key it)) @ entry_delta r delta es i" "\<not> IsKeyPinned ik" "ik_is_user_key ik = ik_is_user_key (bi_key it)"
    using TrimAppend_key [OF k(1) le] by blast
  have "ik_key ik = fst (es ! i)" unfolding ik(3) k(2) s_def shared_len_prefix entry_delta_def by simp
  then show ?thesis using False ik k le by (intro exI [of _ ik]) (simp add: s_def)
qed

lemma apply_global_disabled: "bi_global_seqno it = kDisableGlobalSequenceNumber \<Longrightarrow> apply_global_seqno junk le it = Some it"
  by (simp add: apply_global_seqno_def)

lemma parse_entry:
  assumes ok: "block_ok r delta es" and ready: "ready r delta es i it" and i: "i < length es"
  shows "\<exists>it'. ParseNextKey junk le it = Some (True, it') \<and> at_entry r delta es i it' \<and> pin_ok it' \<and> same_cache it it'"
proof -
  define n where "n = off r delta es (length es)"
  obtain p rest where dec: "DecodeEntry (drop (off r delta es i) (body r delta es (length es))) =
       Some (of_nat (shared_len r delta es i), of_nat (length (entry_delta r delta es i)), of_nat (length (snd (es ! i))), rest)"
    and p_def: "p = n - length rest"
    and slice: "slice_at (block_image r delta es) p (length (entry_delta r delta es i)) = Some (entry_delta r delta es i)"
    and vl: "(p + length (entry_delta r delta es i), length (snd (es ! i))) = value_loc r delta es i"
    using DecodeEntry_at [OF ok i] unfolding n_def .
  have lt: "off r delta es i < n" unfolding n_def using i by (rule off_less)
  have small: "shared_len r delta es i < 2 ^ 32" "length (entry_delta r delta es i) < 2 ^ 32" "length (snd (es ! i)) < 2 ^ 32"
    using ok small_entry [OF _ i] shared_len_le [of r delta es i] by (auto simp: block_ok_def entry_delta_def)
  note u = unat_of_nat_32 [OF small(1)] unat_of_nat_32 [OF small(2)] unat_of_nat_32 [OF small(3)]
  have zero: "(of_nat (shared_len r delta es i) :: u32) = 0 \<longleftrightarrow> shared_len r delta es i = 0" by (simp only: unat_eq_0 [symmetric] u(1))
  obtain ik where ik: "(if shared_len r delta es i = 0 then SetInternalKey junk (entry_delta r delta es i) False (bi_key it)
        else TrimAppend junk (shared_len r delta es i) (entry_delta r delta es i) (bi_key it)) = Some ik"
    and ik': "shared_len r delta es i \<le> ik_size (bi_key it)" "ik_ok ik" "ik_key ik = fst (es ! i)" "\<not> ik_is_user_key ik" "IsKeyPinned ik \<longrightarrow> shared_len r delta es i = 0"
    using parse_key [OF ready i] by blast
  define it1 where "it1 = it\<lparr>bi_current := off r delta es i, bi_key := ik, bi_key_at := (if shared_len r delta es i = 0 then p else bi_key_at it),
      bi_key_pinned := (shared_len r delta es i = 0), bi_value := Some (value_loc r delta es i)\<rparr>"
  have on: "on_block r delta es it" using ready by (simp add: ready_def)
  have "on_block r delta es it1" "bi_restart_index it1 < num_res r (length es)" "bi_current it1 = off r delta es i"
    using ready ik' by (simp_all add: it1_def on_block_def ready_def)
  then obtain k where k: "advance_restart le it1 = Some (it1\<lparr>bi_restart_index := k\<rparr>)" "k < num_res r (length es)"
      "\<forall>j. k < j \<and> j < num_res r (length es) \<longrightarrow> i \<le> j * r"
    using advance_restart_at [OF ok] by blast
  have "ParseNextKey junk le it = Some (True, it1\<lparr>bi_restart_index := k\<rparr>)"
  proof -
    have q: "slice_at (block_image r delta es) (off r delta es i) (n - off r delta es i) = Some (drop (off r delta es i) (body r delta es (length es)))"
      using slice_body [of i es r delta] i by (simp add: n_def)
    have data: "bi_data it = Some (block_image r delta es)" "bi_restarts it = n" "bi_global_seqno it = kDisableGlobalSequenceNumber"
      using on by (simp_all add: on_block_def n_def)
    have next_off: "NextEntryOffset it = Some (off r delta es i)" using ready by (simp add: ready_def)
    have adv: "advance_restart le (it\<lparr>bi_current := off r delta es i, bi_key := ik, bi_key_at := (if shared_len r delta es i = 0 then p else bi_key_at it),
      bi_key_pinned := (shared_len r delta es i = 0), bi_value := Some (p + length (entry_delta r delta es i), length (snd (es ! i)))\<rparr>) = Some (it1\<lparr>bi_restart_index := k\<rparr>)"
      using k(1) by (simp add: it1_def vl)
    show ?thesis
      unfolding ParseNextKey_def next_off data Let_def bind.bind_lunit
      using lt ik ik'(1) adv
      by (cases "shared_len r delta es i = 0") (simp_all add: q dec data u zero apply_global_disabled slice point_key_slice [OF slice] not_less flip: p_def)
  qed
  moreover have "at_entry r delta es i (it1\<lparr>bi_restart_index := k\<rparr>)"
    using on k ik' i by (simp add: at_entry_def it1_def on_block_def)
  moreover have "pin_ok (it1\<lparr>bi_restart_index := k\<rparr>)"
    using slice ik' on by (auto simp: pin_ok_def it1_def on_block_def entry_delta_def)
  moreover have "same_cache it (it1\<lparr>bi_restart_index := k\<rparr>)" by (simp add: same_cache_def it1_def)
  ultimately show ?thesis by blast
qed

section \<open>Moving forward\<close>

text \<open>The iterator stands at position \<open>p\<close> of the list, or at no entry.\<close>

definition positioned :: "nat \<Rightarrow> bool \<Rightarrow> entries \<Rightarrow> nat option \<Rightarrow> BlockIter \<Rightarrow> bool" where
  "positioned r delta es p it \<longleftrightarrow> (case p of None \<Rightarrow> ended r delta es it | Some i \<Rightarrow> at_entry r delta es i it)"

lemma positioned_on_block: "positioned r delta es p it \<Longrightarrow> on_block r delta es it"
  by (auto simp: positioned_def ended_def at_entry_def split: option.splits)

lemma positioned_Valid: "positioned r delta es p it \<Longrightarrow> Valid it \<longleftrightarrow> p \<noteq> None"
  using off_less [of _ "length es" r delta es] by (auto simp: positioned_def ended_def at_entry_def Valid_def on_block_def split: option.splits)

lemma parse_ready:
  assumes "block_ok r delta es" "ready r delta es i it"
  shows "\<exists>it'. ParseNextKey junk le it = Some (i < length es, it') \<and> same_cache it it' \<and> (i < length es \<longrightarrow> pin_ok it') \<and>
    positioned r delta es (if i < length es then Some i else None) it'"
proof (cases "i < length es")
  case True
  then show ?thesis using parse_entry [OF assms True, of junk le] by (auto simp: positioned_def)
next
  case False
  then have "i = length es" using assms(2) by (simp add: ready_def)
  then show ?thesis using parse_end [OF assms(1), of it junk le] assms(2) by (auto simp: positioned_def)
qed

lemma same_cache_refl [simp]: "same_cache it it"
  by (simp add: same_cache_def)

lemma same_cache_trans: "same_cache it it1 \<Longrightarrow> same_cache it1 it2 \<Longrightarrow> same_cache it it2"
  by (simp add: same_cache_def)

lemma seek_restart:
  assumes "block_ok r delta es" "on_block r delta es it" "j < num_res r (length es)"
  shows "\<exists>it'. SeekToRestartPoint le j it = Some it' \<and> ready r delta es (j * r) it' \<and> same_cache it it'"
proof -
  have le: "j * r \<le> length es" using restart_entry_le [OF assms(3)] by simp
  have "off r delta es (j * r) < 2 ^ 32" using assms(1) le off_image_less by (simp add: block_ok_def)
  moreover have "shared_len r delta es (j * r) = 0" by (simp add: shared_len_def)
  ultimately show ?thesis using assms le GetRestartPoint_at [OF assms]
    by (auto simp: SeekToRestartPoint_def ready_def on_block_def same_cache_def Clear_def ik_ok_def NextEntryOffset_def u32_of_def)
qed

lemma num_res_pos: "0 < num_res r n"
  by (simp add: num_res_def)

lemma SeekToFirst_at:
  assumes "block_ok r delta es" "on_block r delta es it"
  shows "\<exists>it'. SeekToFirst junk le it = Some it' \<and> same_cache it it' \<and> positioned r delta es (if es = [] then None else Some 0) it'"
proof -
  obtain it1 where it1: "SeekToRestartPoint le 0 it = Some it1" "ready r delta es 0 it1" "same_cache it it1"
    using seek_restart [OF assms num_res_pos, of le] by auto
  obtain it2 where "ParseNextKey junk le it1 = Some (0 < length es, it2)" "same_cache it1 it2"
      "positioned r delta es (if 0 < length es then Some 0 else None) it2" using parse_ready [OF assms(1) it1(2)] by blast
  then show ?thesis using it1 assms(2) same_cache_trans by (auto simp: SeekToFirst_def on_block_def)
qed

lemma Next_at:
  assumes "block_ok r delta es" "at_entry r delta es i it"
  shows "\<exists>it'. Next junk le it = Some it' \<and> same_cache it it' \<and> positioned r delta es (if Suc i < length es then Some (Suc i) else None) it'"
proof -
  have "Valid it" using positioned_Valid [of r delta es "Some i" it] assms(2) by (simp add: positioned_def)
  then show ?thesis using parse_ready [OF assms(1) at_entry_ready [OF assms], of junk le] by (auto simp: Next_def)
qed

lemma last_loop_at:
  assumes "block_ok r delta es" "ready r delta es i it" "es = [] \<or> i < length es"
  shows "\<exists>it'. last_loop junk le it = Some it' \<and> same_cache it it' \<and> positioned r delta es (if es = [] then None else Some (length es - 1)) it'"
  using assms(2,3)
proof (induction "length es - i" arbitrary: i it rule: less_induct)
  case less
  obtain it1 where it1: "ParseNextKey junk le it = Some (i < length es, it1)" "same_cache it it1"
      "positioned r delta es (if i < length es then Some i else None) it1" using parse_ready [OF assms(1) less.prems(1)] by blast
  show ?case
  proof (cases "i < length es")
    case False
    then show ?thesis using it1 less.prems by (subst last_loop.simps) auto
  next
    case True
    then have at: "at_entry r delta es i it1" using it1 by (simp add: positioned_def)
    have rd: "ready r delta es (Suc i) it1" by (rule at_entry_ready [OF assms(1) at])
    then have nx: "NextEntryOffset it1 = Some (off r delta es (Suc i))" "bi_restarts it1 = off r delta es (length es)"
      by (auto simp: ready_def on_block_def)
    show ?thesis
    proof (cases "Suc i < length es")
      case more: True
      then have "last_loop junk le it = last_loop junk le it1"
        using it1 True nx by (subst last_loop.simps) (simp add: off_less_iff)
      moreover obtain it2 where "last_loop junk le it1 = Some it2" "same_cache it1 it2"
          "positioned r delta es (if es = [] then None else Some (length es - 1)) it2"
        using less.hyps [OF diff_less_mono2 [OF lessI True] rd] more by blast
      ultimately show ?thesis using same_cache_trans [OF it1(2)] by auto
    next
      case False
      then have "last_loop junk le it = Some it1" using it1 True nx by (subst last_loop.simps) (simp add: off_less_iff)
      moreover have "i = length es - 1" using True False by simp
      ultimately show ?thesis using at it1(2) True by (auto simp: positioned_def)
    qed
  qed
qed

lemma SeekToLast_at:
  assumes "block_ok r delta es" "on_block r delta es it"
  shows "\<exists>it'. SeekToLast junk le it = Some it' \<and> same_cache it it' \<and> positioned r delta es (if es = [] then None else Some (length es - 1)) it'"
proof -
  define j where "j = num_res r (length es) - 1"
  have j: "j < num_res r (length es)" using num_res_pos [of r "length es"] by (simp add: j_def)
  obtain it1 where it1: "SeekToRestartPoint le j it = Some it1" "ready r delta es (j * r) it1" "same_cache it it1"
    using seek_restart [OF assms j, of le] by auto
  have "es = [] \<or> j * r < length es" using restart_entry_le [OF j] by (cases es) auto
  then obtain it2 where "last_loop junk le it1 = Some it2" "same_cache it1 it2"
      "positioned r delta es (if es = [] then None else Some (length es - 1)) it2" using last_loop_at [OF assms(1) it1(2)] by blast
  then show ?thesis using it1 assms(2) same_cache_trans [OF it1(3)] by (simp add: SeekToLast_def on_block_def j_def)
qed

end
