(* ===== verification/Block_Cursor.thy ===== *)
theory Block_Cursor
  imports Block_Correct
begin

text \<open>
  The iterator of a block as a cursor: going back over remembered entries, searching under the
  contract of a comparator, and whole sequences of moves. A block that a builder made of sorted
  entries behaves like the list of these entries.
\<close>

section \<open>Going back\<close>

text \<open>A remembered entry describes entry \<open>i\<close> of the block.\<close>

definition cached_entry :: "nat \<Rightarrow> bool \<Rightarrow> entries \<Rightarrow> bytes \<Rightarrow> nat \<Rightarrow> CachedPrevEntry \<Rightarrow> bool" where
  "cached_entry r delta es buff i e \<longleftrightarrow> i < length es \<and> ce_offset e = off r delta es i \<and> ce_value e = value_loc r delta es i \<and>
     (case ce_key_ptr e of Some p \<Rightarrow> slice_at (block_image r delta es) p (ce_key_size e)
      | None \<Rightarrow> slice_at buff (ce_key_offset e) (ce_key_size e)) = Some (fst (es ! i))"

definition cached_from :: "nat \<Rightarrow> bool \<Rightarrow> entries \<Rightarrow> nat \<Rightarrow> BlockIter \<Rightarrow> bool" where
  "cached_from r delta es a it \<longleftrightarrow> (\<forall>m < length (bi_prev_entries it). cached_entry r delta es (bi_prev_buff it) (a + m) (bi_prev_entries it ! m))"

definition cache_ok :: "nat \<Rightarrow> bool \<Rightarrow> entries \<Rightarrow> BlockIter \<Rightarrow> bool" where
  "cache_ok r delta es it \<longleftrightarrow> - 1 \<le> bi_prev_idx it \<and> bi_prev_idx it < int (length (bi_prev_entries it)) \<and> (\<exists>a. cached_from r delta es a it)"

lemma cache_ok_same: "same_cache it it' \<Longrightarrow> cache_ok r delta es it \<Longrightarrow> cache_ok r delta es it'"
  by (simp add: same_cache_def cache_ok_def cached_from_def)

lemma slice_at_append: "slice_at xs p n = Some s \<Longrightarrow> slice_at (xs @ ys) p n = Some s"
  by (auto simp: slice_at_def split: if_splits)

lemma cached_entry_append: "cached_entry r delta es buff i e \<Longrightarrow> cached_entry r delta es (buff @ extra) i e"
  by (auto simp: cached_entry_def slice_at_append split: option.splits)

lemma remember_at:
  assumes at: "at_entry r delta es i it" and pin: "pin_ok it" and cf: "cached_from r delta es a it" and len: "a + length (bi_prev_entries it) = i"
  shows "\<exists>it'. remember it = Some it' \<and> at_entry r delta es i it' \<and> cached_from r delta es a it' \<and>
    a + length (bi_prev_entries it') = Suc i \<and> bi_prev_idx it' = bi_prev_idx it"
proof -
  have key: "iter_key it = Some (fst (es ! i))" "ik_size (bi_key it) = length (fst (es ! i))" "Valid it" "\<not> ik_is_user_key (bi_key it)" and v: "bi_value it = Some (value_loc r delta es i)" and i: "i < length es"
    and data: "bi_data it = Some (block_image r delta es)"
    using at positioned_Valid [of r delta es "Some i" it] length_ik_key [of "bi_key it"]
    by (auto simp: iter_key_def GetInternalKey_def at_entry_def positioned_def on_block_def)
  define e where "e = (if IsKeyPinned (bi_key it)
      then \<lparr>ce_offset = bi_current it, ce_key_ptr = Some (bi_key_at it), ce_key_offset = 0, ce_key_size = length (fst (es ! i)), ce_value = value_loc r delta es i\<rparr>
      else \<lparr>ce_offset = bi_current it, ce_key_ptr = None, ce_key_offset = length (bi_prev_buff it), ce_key_size = length (fst (es ! i)), ce_value = value_loc r delta es i\<rparr>)"
  define extra where "extra = (if IsKeyPinned (bi_key it) then [] else fst (es ! i))"
  define it' where "it' = it\<lparr>bi_prev_buff := bi_prev_buff it @ extra, bi_prev_entries := bi_prev_entries it @ [e]\<rparr>"
  have "remember it = Some it'" using key v by (simp add: remember_def it'_def e_def extra_def)
  moreover have "cached_entry r delta es (bi_prev_buff it') i e"
    using at pin i data by (auto simp: cached_entry_def e_def it'_def extra_def at_entry_def pin_ok_def slice_at_def)
  then have "cached_from r delta es a it'"
    using cf len cached_entry_append by (auto simp: cached_from_def it'_def nth_append less_Suc_eq)
  moreover have "at_entry r delta es i it'" using at by (simp add: at_entry_def it'_def on_block_def)
  ultimately show ?thesis using len by (simp add: it'_def)
qed

lemma prev_loop_at:
  assumes ok: "block_ok r delta es" and i: "i < length es"
  shows "ready r delta es j it \<Longrightarrow> j < i \<Longrightarrow> cached_from r delta es a it \<Longrightarrow> a + length (bi_prev_entries it) = j \<Longrightarrow>
    \<exists>it'. prev_loop junk le (off r delta es i) it = Some it' \<and> at_entry r delta es (i - 1) it' \<and> cached_from r delta es a it'"
proof (induction "i - j" arbitrary: j it rule: less_induct)
  case less
  have j: "j < length es" using less.prems(2) i by simp
  obtain it1 where it1: "ParseNextKey junk le it = Some (True, it1)" "at_entry r delta es j it1" "pin_ok it1" "same_cache it it1"
    using parse_entry [OF ok less.prems(1) j] by blast
  have "cached_from r delta es a it1" "a + length (bi_prev_entries it1) = j"
    using less.prems(3,4) it1(4) by (simp_all add: same_cache_def cached_from_def)
  then obtain it2 where it2: "remember it1 = Some it2" "at_entry r delta es j it2" "cached_from r delta es a it2"
      "a + length (bi_prev_entries it2) = Suc j" using remember_at [OF it1(2,3)] by blast
  have rd: "ready r delta es (Suc j) it2" by (rule at_entry_ready [OF ok it2(2)])
  then have nx: "NextEntryOffset it2 = Some (off r delta es (Suc j))" by (simp add: ready_def)
  show ?case
  proof (cases "Suc j < i")
    case True
    then have "prev_loop junk le (off r delta es i) it = prev_loop junk le (off r delta es i) it2"
      using it1(1) it2(1) nx by (subst prev_loop.simps) (simp add: off_less_iff)
    then show ?thesis using less.hyps [OF diff_less_mono2 [OF lessI less.prems(2)] rd True it2(3,4)] by simp
  next
    case False
    then have "i = Suc j" using less.prems(2) by simp
    then have "prev_loop junk le (off r delta es i) it = Some it2" using it1(1) it2(1) nx by (subst prev_loop.simps) simp
    then show ?thesis using it2 \<open>i = Suc j\<close> by simp
  qed
qed

lemma restart_before_at:
  assumes ok: "block_ok r delta es" and on: "on_block r delta es it" and k: "k < num_res r (length es)"
  shows "\<exists>found. restart_before le (off r delta es i) k it = Some found \<and>
    (case found of None \<Rightarrow> i = 0 | Some k' \<Rightarrow> k' < num_res r (length es) \<and> k' * r < i)"
  using k
proof (induction k)
  case 0
  have "GetRestartPoint le 0 it = Some 0" using GetRestartPoint_at [OF ok on 0] by simp
  then show ?case using off_less_iff [of r delta es 0 i] 0 by (subst restart_before.simps) (auto split: option.splits)
next
  case (Suc k)
  have get: "GetRestartPoint le (Suc k) it = Some (off r delta es (Suc k * r))" using GetRestartPoint_at [OF ok on Suc.prems] .
  show ?case
  proof (cases "Suc k * r < i")
    case True
    then have "restart_before le (off r delta es i) (Suc k) it = Some (Some (Suc k))"
      using get off_less [OF True, of r delta es] by (subst restart_before.simps) (simp del: mult_Suc)
    then show ?thesis using True Suc.prems by simp
  next
    case False
    then have "restart_before le (off r delta es i) (Suc k) it = restart_before le (off r delta es i) k it"
      using get off_le [of i "Suc k * r" r delta es] by (subst restart_before.simps) (simp del: mult_Suc)
    then show ?thesis using Suc by simp
  qed
qed

lemma prev_cached_at:
  assumes at: "at_entry r delta es i it" and cache: "cache_ok r delta es it" and idx: "0 < bi_prev_idx it"
    and here: "ce_offset (bi_prev_entries it ! nat (bi_prev_idx it)) = bi_current it"
  shows "0 < i \<and> (\<exists>it'. prev_cached junk it = Some it' \<and> at_entry r delta es (i - 1) it' \<and> cache_ok r delta es it')"
proof -
  obtain a where cf: "cached_from r delta es a it" and len: "bi_prev_idx it < int (length (bi_prev_entries it))"
    using cache by (auto simp: cache_ok_def)
  define m where "m = nat (bi_prev_idx it)"
  have m: "0 < m" "m < length (bi_prev_entries it)" "bi_prev_idx it = int m" using idx len by (simp_all add: m_def)
  have "cached_entry r delta es (bi_prev_buff it) (a + m) (bi_prev_entries it ! m)" using cf m by (simp add: cached_from_def)
  then have i: "i = a + m" using here at by (simp add: cached_entry_def m_def at_entry_def off_inj)
  define e where "e = bi_prev_entries it ! (m - 1)"
  have "cached_entry r delta es (bi_prev_buff it) (a + (m - 1)) e"
    using cf m(2) unfolding cached_from_def e_def by (meson less_imp_diff_less)
  then have e: "cached_entry r delta es (bi_prev_buff it) (i - 1) e" using m i by simp
  obtain ik where ik: "SetInternalKey junk (fst (es ! (i - 1))) False (bi_key it) = Some ik" "ik_ok ik" "ik_key ik = fst (es ! (i - 1))" "\<not> ik_is_user_key ik"
    using SetInternalKey_pinned by blast
  define it' where "it' = it\<lparr>bi_prev_idx := bi_prev_idx it - 1, bi_key_pinned := (ce_key_ptr e \<noteq> None), bi_current := ce_offset e, bi_key := ik, bi_value := Some (ce_value e)\<rparr>"
  have data: "bi_data it = Some (block_image r delta es)" using at by (simp add: at_entry_def on_block_def)
  have nth: "bi_prev_entries it ! nat (bi_prev_idx it - 1) = e" using m by (simp add: e_def nat_diff_distrib)
  have key: "(case ce_key_ptr e of Some p \<Rightarrow> slice_at (block_image r delta es) p (ce_key_size e)
      | None \<Rightarrow> slice_at (bi_prev_buff it) (ce_key_offset e) (ce_key_size e)) = Some (fst (es ! (i - 1)))"
    using e by (simp add: cached_entry_def)
  have "prev_cached junk it = Some it'"
    using key unfolding prev_cached_def Let_def data nth bind.bind_lunit it'_def
    by (auto simp: point_key_slice ik(1) [unfolded One_nat_def] split: option.splits)
  moreover have "at_entry r delta es (i - 1) it'"
    using at e ik by (auto simp: at_entry_def it'_def on_block_def cached_entry_def)
  moreover have "cache_ok r delta es it'" using cf m by (auto simp: cache_ok_def cached_from_def it'_def)
  ultimately show ?thesis using i m by auto
qed

lemma Prev_at:
  assumes ok: "block_ok r delta es" and at: "at_entry r delta es i it" and cache: "cache_ok r delta es it"
  shows "\<exists>it'. Prev junk le it = Some it' \<and> positioned r delta es (if i = 0 then None else Some (i - 1)) it' \<and> cache_ok r delta es it'"
proof -
  have guard: "Valid it" "bi_prev_idx it = - 1 \<or> (0 \<le> bi_prev_idx it \<and> bi_prev_idx it < int (length (bi_prev_entries it)))"
    using positioned_Valid [of r delta es "Some i" it] at cache by (auto simp: positioned_def cache_ok_def)
  show ?thesis
  proof (cases "bi_prev_idx it > 0 \<and> ce_offset (bi_prev_entries it ! nat (bi_prev_idx it)) = bi_current it")
    case True
    then show ?thesis using prev_cached_at [OF at cache, of junk] guard by (auto simp: Prev_def positioned_def)
  next
    case False
    define it1 where "it1 = it\<lparr>bi_prev_idx := - 1, bi_prev_entries := [], bi_prev_buff := []\<rparr>"
    have on: "on_block r delta es it1" and cur: "bi_current it1 = off r delta es i" and i: "i < length es"
      and k: "bi_restart_index it1 < num_res r (length es)" using at by (auto simp: at_entry_def it1_def on_block_def)
    obtain found where found: "restart_before le (off r delta es i) (bi_restart_index it1) it1 = Some found"
      "case found of None \<Rightarrow> i = 0 | Some k' \<Rightarrow> k' < num_res r (length es) \<and> k' * r < i" using restart_before_at [OF ok on k] by blast
    have start: "Prev junk le it = (case found of
           None \<Rightarrow> Some (it1\<lparr>bi_current := bi_restarts it1, bi_restart_index := bi_num_restarts it1\<rparr>)
         | Some index \<Rightarrow> Option.bind (SeekToRestartPoint le index it1) (\<lambda>it. Option.bind (prev_loop junk le (off r delta es i) it) (\<lambda>it.
             Some (it\<lparr>bi_prev_idx := int (length (bi_prev_entries it)) - 1\<rparr>))))"
      using guard False found(1) cur by (auto simp: Prev_def Let_def simp flip: it1_def split: option.splits)
    show ?thesis
    proof (cases found)
      case None
      then show ?thesis using start found(2) on
        by (simp add: positioned_def ended_def on_block_def cache_ok_def cached_from_def it1_def)
    next
      case (Some k')
      then have k': "k' < num_res r (length es)" "k' * r < i" using found(2) by simp_all
      obtain it2 where it2: "SeekToRestartPoint le k' it1 = Some it2" "ready r delta es (k' * r) it2" "same_cache it1 it2"
        using seek_restart [OF ok on k'(1)] by blast
      have "bi_prev_entries it2 = []" using it2(3) by (simp add: same_cache_def it1_def)
      then have "cached_from r delta es (k' * r) it2" "k' * r + length (bi_prev_entries it2) = k' * r" by (simp_all add: cached_from_def)
      then obtain it3 where it3: "prev_loop junk le (off r delta es i) it2 = Some it3" "at_entry r delta es (i - 1) it3" "cached_from r delta es (k' * r) it3"
        using prev_loop_at [OF ok i it2(2) k'(2)] by blast
      then have "Prev junk le it = Some (it3\<lparr>bi_prev_idx := int (length (bi_prev_entries it3)) - 1\<rparr>)" using start Some it2(1) by simp
      then show ?thesis using it3 k' by (auto simp: positioned_def at_entry_def on_block_def cache_ok_def cached_from_def)
    qed
  qed
qed

section \<open>Searching\<close>

text \<open>The comparator of a block: a comparator of keys whose calls succeed on keys.\<close>

locale block_comparator = comparator keys cmp for keys :: "bytes \<Rightarrow> bool" and cmp :: "bytes \<Rightarrow> bytes \<Rightarrow> int" +
  fixes compare :: compare
  assumes compare_Some: "keys a \<Longrightarrow> keys b \<Longrightarrow> compare a b = Some (cmp a b)"
begin

definition ordered :: "entries \<Rightarrow> bool" where
  "ordered es \<longleftrightarrow> sorted_wrt (\<lambda>a b. cmp (fst a) (fst b) < 0) es \<and> list_all (\<lambda>e. keys (fst e)) es"

text \<open>The number of entries below a target, and of those not above it.\<close>

definition below :: "entries \<Rightarrow> bytes \<Rightarrow> nat" where
  "below es target = length (takeWhile (\<lambda>e. cmp (fst e) target < 0) es)"

definition upto :: "entries \<Rightarrow> bytes \<Rightarrow> nat" where
  "upto es target = length (takeWhile (\<lambda>e. cmp (fst e) target \<le> 0) es)"

lemma takeWhile_less:
  assumes down: "\<And>i j. i < j \<Longrightarrow> j < length xs \<Longrightarrow> P (xs ! j) \<Longrightarrow> P (xs ! i)" and "j < length xs"
  shows "P (xs ! j) \<longleftrightarrow> j < length (takeWhile P xs)"
proof
  assume "j < length (takeWhile P xs)"
  then have "takeWhile P xs ! j \<in> set (takeWhile P xs)" "takeWhile P xs ! j = xs ! j" by (rule nth_mem, rule takeWhile_nth)
  then show "P (xs ! j)" using set_takeWhileD by metis
next
  assume j: "P (xs ! j)"
  have "length (takeWhile P xs) \<le> length xs" by (rule length_takeWhile_le)
  show "j < length (takeWhile P xs)"
  proof (rule ccontr)
    assume "\<not> j < length (takeWhile P xs)"
    then have le: "length (takeWhile P xs) \<le> j" by simp
    then have "\<not> P (xs ! length (takeWhile P xs))" using assms(2) by (intro nth_length_takeWhile) simp
    then show False using down [of "length (takeWhile P xs)" j] j assms(2) le by (cases "length (takeWhile P xs) = j") auto
  qed
qed

lemma ordered_less: "ordered es \<Longrightarrow> i < j \<Longrightarrow> j < length es \<Longrightarrow> cmp (fst (es ! i)) (fst (es ! j)) < 0"
  by (auto simp: ordered_def sorted_wrt_iff_nth_less)

lemma ordered_keys: "ordered es \<Longrightarrow> i < length es \<Longrightarrow> keys (fst (es ! i))"
  by (auto simp: ordered_def list_all_length)

lemma below_iff:
  assumes "ordered es" "keys target" "j < length es"
  shows "cmp (fst (es ! j)) target < 0 \<longleftrightarrow> j < below es target"
  unfolding below_def
proof (rule takeWhile_less [OF _ assms(3)])
  fix i j assume "i < j" "j < length es" "cmp (fst (es ! j)) target < 0"
  then show "cmp (fst (es ! i)) target < 0"
    using cmp_trans [OF ordered_keys ordered_keys assms(2)] ordered_less [OF assms(1)] assms(1) by (meson less_trans)
qed

lemma upto_iff:
  assumes "ordered es" "keys target" "j < length es"
  shows "cmp (fst (es ! j)) target \<le> 0 \<longleftrightarrow> j < upto es target"
  unfolding upto_def
proof (rule takeWhile_less [OF _ assms(3)])
  fix i j assume "i < j" "j < length es" "cmp (fst (es ! j)) target \<le> 0"
  then have "cmp (fst (es ! i)) target < 0"
    using cmp_less_le [OF ordered_keys ordered_keys assms(2)] ordered_less [OF assms(1)] assms(1) by (meson less_trans)
  then show "cmp (fst (es ! i)) target \<le> 0" by simp
qed

lemma below_le: "below es target \<le> length es" "upto es target \<le> length es"
  by (simp_all add: below_def upto_def length_takeWhile_le)

text \<open>At most one entry has the key of the target.\<close>

lemma upto_below:
  assumes "ordered es" "keys target"
  shows "upto es target \<le> Suc (below es target)"
proof (rule ccontr)
  assume "\<not> upto es target \<le> Suc (below es target)"
  then have less: "Suc (below es target) < upto es target" "Suc (below es target) < length es" using below_le(2) [of es target] by simp_all
  then have "cmp (fst (es ! Suc (below es target))) target \<le> 0" using upto_iff [OF assms less(2)] by simp
  moreover have "cmp (fst (es ! below es target)) (fst (es ! Suc (below es target))) < 0" using ordered_less [OF assms(1)] less(2) by simp
  ultimately have "cmp (fst (es ! below es target)) target < 0"
    using cmp_less_le [OF ordered_keys ordered_keys assms(2)] assms(1) less(2) by (meson Suc_lessD)
  then show False using below_iff [OF assms, of "below es target"] less(2) by simp
qed

lemma seek_loop_at:
  assumes ok: "block_ok r delta es" and es: "ordered es" "keys target"
  shows "ready r delta es i it \<Longrightarrow> i \<le> below es target \<Longrightarrow>
    \<exists>it'. seek_loop junk le compare target it = Some it' \<and> same_cache it it' \<and>
      positioned r delta es (if below es target < length es then Some (below es target) else None) it'"
proof (induction "below es target - i" arbitrary: i it rule: less_induct)
  case less
  obtain it1 where it1: "ParseNextKey junk le it = Some (i < length es, it1)" "same_cache it it1"
      "positioned r delta es (if i < length es then Some i else None) it1" using parse_ready [OF ok less.prems(1)] by blast
  show ?case
  proof (cases "i < length es")
    case False
    then show ?thesis using it1 less.prems(2) below_le(1) [of es target] by (subst seek_loop.simps) auto
  next
    case True
    then have at: "at_entry r delta es i it1" using it1(3) by (simp add: positioned_def)
    then have key: "GetInternalKey (bi_key it1) = Some (fst (es ! i))" by (simp add: at_entry_def on_block_def GetInternalKey_def)
    have c: "compare (fst (es ! i)) target = Some (cmp (fst (es ! i)) target)" using compare_Some es ordered_keys True by blast
    show ?thesis
    proof (cases "i < below es target")
      case lt: True
      then have "seek_loop junk le compare target it = seek_loop junk le compare target it1"
        using it1(1) True key c below_iff [OF es True] by (subst seek_loop.simps) simp
      moreover obtain it2 where "seek_loop junk le compare target it1 = Some it2" "same_cache it1 it2"
          "positioned r delta es (if below es target < length es then Some (below es target) else None) it2"
        using less.hyps [OF diff_less_mono2 [OF lessI lt] at_entry_ready [OF ok at]] lt by auto
      ultimately show ?thesis using same_cache_trans [OF it1(2)] by auto
    next
      case False
      then have "seek_loop junk le compare target it = Some it1"
        using it1(1) True key c below_iff [OF es True] by (subst seek_loop.simps) simp
      moreover have "i = below es target" using False less.prems(2) by simp
      ultimately show ?thesis using it1(2) at True by (auto simp: positioned_def)
    qed
  qed
qed

lemma BinarySeek_at:
  assumes ok: "block_ok r delta es" and es: "ordered es" "keys target" and on: "on_block r delta es it"
  shows "left \<le> right \<Longrightarrow> right < num_res r (length es) \<Longrightarrow> left * r \<le> below es target \<Longrightarrow>
    \<exists>k. BinarySeek le compare target left right it = Some (True, k, it) \<and> k < num_res r (length es) \<and> k * r \<le> below es target"
proof (induction "right - left" arbitrary: left right rule: less_induct)
  case less
  show ?case
  proof (cases "left < right")
    case False
    then show ?thesis using less.prems by (subst BinarySeek.simps) auto
  next
    case True
    define mid where "mid = (left + right + 1) div 2"
    have "num_res r (length es) < 2 ^ 30" using ok num_res_image_less [of r delta es] by (simp add: block_ok_def)
    then have u: "u32_of (Suc (left + right)) div 2 = mid" using less.prems True by (simp add: u32_of_def mid_def)
    have mid: "left < mid" "mid \<le> right" "mid < num_res r (length es)" using True less.prems(2) by (auto simp: mid_def)
    define i where "i = mid * r"
    have r: "1 \<le> r" using ok by (simp add: block_ok_def)
    have i: "i < length es" using restart_entry_le [OF mid(3)] mid(1) r by (cases es) (auto simp: i_def)
    obtain p rest where dec: "DecodeEntry (drop (off r delta es i) (body r delta es (length es))) =
        Some (of_nat (shared_len r delta es i), of_nat (length (entry_delta r delta es i)), of_nat (length (snd (es ! i))), rest)"
      and p: "p = off r delta es (length es) - length rest"
      and slice: "slice_at (block_image r delta es) p (length (entry_delta r delta es i)) = Some (entry_delta r delta es i)"
      using DecodeEntry_at [OF ok i] by blast
    have sh: "shared_len r delta es i = 0" and key: "entry_delta r delta es i = fst (es ! i)" by (simp_all add: i_def shared_len_def entry_delta_def)
    have small: "unat (of_nat (length (fst (es ! i))) :: u32) = length (fst (es ! i))"
      using ok small_entry [OF _ i] by (intro unat_of_nat_32) (simp add: block_ok_def)
    have get: "GetRestartPoint le mid it = Some (off r delta es i)" unfolding i_def by (rule GetRestartPoint_at [OF ok on mid(3)])
    have data: "bi_data it = Some (block_image r delta es)" "bi_restarts it = off r delta es (length es)" using on by (simp_all add: on_block_def)
    define c where "c = cmp (fst (es ! i)) target"
    have c: "compare (fst (es ! i)) target = Some c" unfolding c_def using compare_Some es ordered_keys i by blast
    have step: "BinarySeek le compare target left right it =
        (if c < 0 then BinarySeek le compare target mid right it
         else if c > 0 then BinarySeek le compare target left (mid - 1) it
         else BinarySeek le compare target mid mid it)"
      using True dec slice unfolding sh key
      by (subst BinarySeek.simps) (simp add: Let_def u get data take_image i less_imp_le sh key small c flip: p)
    have at: "mid * r \<le> below es target" if "c \<le> 0"
    proof -
      have "i < upto es target" using that upto_iff [OF es i] by (simp add: c_def)
      then show ?thesis using upto_below [OF es] by (simp add: i_def)
    qed
    consider "c < 0" | "c > 0" | "c = 0" by linarith
    then show ?thesis
    proof cases
      case 1
      then show ?thesis using less.hyps [of right mid] step mid at less.prems(2) True by simp
    next
      case 2
      then show ?thesis using less.hyps [of "mid - 1" left] step mid less.prems by simp
    next
      case 3
      then have "BinarySeek le compare target left right it = Some (True, mid, it)" using step by (simp add: BinarySeek.simps)
      then show ?thesis using 3 mid at by simp
    qed
  qed
qed

lemma search_start:
  assumes ok: "block_ok r delta es" and es: "ordered es" "keys target" and on: "on_block r delta es it"
  shows "\<exists>k it1 it2. BinarySeek le compare target 0 (bi_num_restarts it - 1) it = Some (True, k, it) \<and> SeekToRestartPoint le k it = Some it1 \<and>
    seek_loop junk le compare target it1 = Some it2 \<and> same_cache it it2 \<and>
    positioned r delta es (if below es target < length es then Some (below es target) else None) it2"
proof -
  have "num_res r (length es) - 1 < num_res r (length es)" using num_res_pos [of r "length es"] by simp
  then obtain k where k: "BinarySeek le compare target 0 (bi_num_restarts it - 1) it = Some (True, k, it)"
      "k < num_res r (length es)" "k * r \<le> below es target"
    using BinarySeek_at [OF ok es on, of 0 "num_res r (length es) - 1"] on by (auto simp: on_block_def)
  obtain it1 where it1: "SeekToRestartPoint le k it = Some it1" "ready r delta es (k * r) it1" "same_cache it it1"
    using seek_restart [OF ok on k(2)] by blast
  obtain it2 where "seek_loop junk le compare target it1 = Some it2" "same_cache it1 it2"
      "positioned r delta es (if below es target < length es then Some (below es target) else None) it2"
    using seek_loop_at [OF ok es it1(2) k(3)] by blast
  then show ?thesis using k(1) it1 same_cache_trans [OF it1(3)] by blast
qed

lemma Seek_at:
  assumes "block_ok r delta es" "ordered es" "keys target" "on_block r delta es it"
  shows "\<exists>it'. Seek junk le compare target it = Some it' \<and> same_cache it it' \<and>
    positioned r delta es (if below es target < length es then Some (below es target) else None) it'"
proof -
  have "bi_data it \<noteq> None" "bi_prefix_index it = None" using assms(4) by (simp_all add: on_block_def)
  then show ?thesis using search_start [OF assms, of le junk] by (auto simp: Seek_def)
qed

lemma back_loop_at:
  assumes ok: "block_ok r delta es" and es: "ordered es" "keys target"
  shows "at_entry r delta es i it \<Longrightarrow> cache_ok r delta es it \<Longrightarrow> upto es target \<le> Suc i \<Longrightarrow>
    \<exists>it'. back_loop junk le compare target it = Some it' \<and> cache_ok r delta es it' \<and>
      positioned r delta es (if upto es target = 0 then None else Some (upto es target - 1)) it'"
proof (induction i arbitrary: it rule: less_induct)
  case (less i)
  have i: "i < length es" and key: "GetInternalKey (bi_key it) = Some (fst (es ! i))" and v: "Valid it"
    using less.prems(1) positioned_Valid [of r delta es "Some i" it] by (auto simp: at_entry_def on_block_def GetInternalKey_def positioned_def)
  have c: "compare (fst (es ! i)) target = Some (cmp (fst (es ! i)) target)" using compare_Some es ordered_keys i by blast
  show ?case
  proof (cases "i < upto es target")
    case True
    then have "back_loop junk le compare target it = Some it"
      using v key c upto_iff [OF es i] by (subst back_loop.simps) simp
    moreover have "i = upto es target - 1" using True less.prems(3) by simp
    ultimately show ?thesis using less.prems True by (auto simp: positioned_def)
  next
    case False
    obtain it1 where it1: "Prev junk le it = Some it1" "positioned r delta es (if i = 0 then None else Some (i - 1)) it1" "cache_ok r delta es it1"
      using Prev_at [OF ok less.prems(1,2)] by blast
    have loop: "back_loop junk le compare target it = back_loop junk le compare target it1"
      using v key c upto_iff [OF es i] False it1(1) by (subst back_loop.simps) simp
    show ?thesis
    proof (cases "i = 0")
      case True
      then have "\<not> Valid it1" using positioned_Valid [OF it1(2)] by simp
      then have "back_loop junk le compare target it1 = Some it1" by (subst back_loop.simps) simp
      then show ?thesis using loop it1 True False by simp
    next
      case pos: False
      then have "at_entry r delta es (i - 1) it1" using it1(2) by (simp add: positioned_def)
      then show ?thesis using less.IH [of "i - 1" it1] loop it1(3) False pos by simp
    qed
  qed
qed

lemma SeekForPrev_at:
  assumes ok: "block_ok r delta es" and es: "ordered es" "keys target" and on: "on_block r delta es it" and cache: "cache_ok r delta es it"
  shows "\<exists>it'. SeekForPrev junk le compare target it = Some it' \<and> cache_ok r delta es it' \<and>
    positioned r delta es (if upto es target = 0 then None else Some (upto es target - 1)) it'"
proof -
  obtain k it1 it2 where s: "BinarySeek le compare target 0 (bi_num_restarts it - 1) it = Some (True, k, it)"
    "SeekToRestartPoint le k it = Some it1" "seek_loop junk le compare target it1 = Some it2" "same_cache it it2"
    and pos: "positioned r delta es (if below es target < length es then Some (below es target) else None) it2"
    using search_start [OF ok es on] by blast
  have start: "SeekForPrev junk le compare target it = (if \<not> Valid it2 then SeekToLast junk le it2 else back_loop junk le compare target it2)"
    using on s(1-3) by (auto simp: SeekForPrev_def on_block_def)
  have c2: "cache_ok r delta es it2" by (rule cache_ok_same [OF s(4) cache])
  show ?thesis
  proof (cases "below es target < length es")
    case True
    then have "at_entry r delta es (below es target) it2" "Valid it2" using pos positioned_Valid [OF pos] by (simp_all add: positioned_def)
    then show ?thesis using back_loop_at [OF ok es _ c2 upto_below [OF es], of junk le] start by simp
  next
    case False
    have on2: "on_block r delta es it2" by (rule positioned_on_block [OF pos])
    have "upto es target = length es"
    proof (rule ccontr)
      assume "upto es target \<noteq> length es"
      then have j: "upto es target < length es" using below_le(2) [of es target] by simp
      then have "cmp (fst (es ! upto es target)) target < 0" using below_iff [OF es j] False by simp
      then show False using upto_iff [OF es j] by simp
    qed
    moreover have "\<not> Valid it2" using False positioned_Valid [OF pos] by simp
    ultimately show ?thesis using SeekToLast_at [OF ok on2, of junk le] start cache_ok_same [OF _ c2] by auto
  qed
qed

end

section \<open>Moves of a cursor\<close>

datatype move = ToFirst | ToLast | Forward | Backward | SeekTo bytes | SeekBackTo bytes

text \<open>What each move does to a position in the list; \<open>Forward\<close> and \<open>Backward\<close> need one.\<close>

fun cursor_move :: "(bytes \<Rightarrow> bytes \<Rightarrow> int) \<Rightarrow> entries \<Rightarrow> move \<Rightarrow> nat option \<Rightarrow> nat option option" where
  "cursor_move cmp es ToFirst p = Some (if es = [] then None else Some 0)"
| "cursor_move cmp es ToLast p = Some (if es = [] then None else Some (length es - 1))"
| "cursor_move cmp es Forward p = map_option (\<lambda>i. if Suc i < length es then Some (Suc i) else None) p"
| "cursor_move cmp es Backward p = map_option (\<lambda>i. if i = 0 then None else Some (i - 1)) p"
| "cursor_move cmp es (SeekTo target) p =
     (let m = length (takeWhile (\<lambda>e. cmp (fst e) target < 0) es) in Some (if m < length es then Some m else None))"
| "cursor_move cmp es (SeekBackTo target) p =
     (let m = length (takeWhile (\<lambda>e. cmp (fst e) target \<le> 0) es) in Some (if m = 0 then None else Some (m - 1)))"

primrec cursor_moves :: "(bytes \<Rightarrow> bytes \<Rightarrow> int) \<Rightarrow> entries \<Rightarrow> move list \<Rightarrow> nat option \<Rightarrow> nat option option" where
  "cursor_moves cmp es [] p = Some p"
| "cursor_moves cmp es (m # ms) p = Option.bind (cursor_move cmp es m p) (cursor_moves cmp es ms)"

text \<open>The calls of the iterator.\<close>

fun iter_move :: "u8 \<Rightarrow> bool \<Rightarrow> compare \<Rightarrow> move \<Rightarrow> BlockIter \<Rightarrow> BlockIter option" where
  "iter_move junk le compare ToFirst it = SeekToFirst junk le it"
| "iter_move junk le compare ToLast it = SeekToLast junk le it"
| "iter_move junk le compare Forward it = Next junk le it"
| "iter_move junk le compare Backward it = Prev junk le it"
| "iter_move junk le compare (SeekTo target) it = Seek junk le compare target it"
| "iter_move junk le compare (SeekBackTo target) it = SeekForPrev junk le compare target it"

primrec iter_moves :: "u8 \<Rightarrow> bool \<Rightarrow> compare \<Rightarrow> move list \<Rightarrow> BlockIter \<Rightarrow> BlockIter option" where
  "iter_moves junk le compare [] it = Some it"
| "iter_moves junk le compare (m # ms) it = Option.bind (iter_move junk le compare m it) (iter_moves junk le compare ms)"

fun move_target :: "(bytes \<Rightarrow> bool) \<Rightarrow> move \<Rightarrow> bool" where
  "move_target keys (SeekTo target) = keys target"
| "move_target keys (SeekBackTo target) = keys target"
| "move_target keys m = True"

context block_comparator
begin

lemma move_refines:
  assumes ok: "block_ok r delta es" and es: "ordered es" and m: "move_target keys m"
    and p: "positioned r delta es p it" "cache_ok r delta es it" and q: "cursor_move cmp es m p = Some q"
  shows "\<exists>it'. iter_move junk le compare m it = Some it' \<and> positioned r delta es q it' \<and> cache_ok r delta es it'"
proof -
  have on: "on_block r delta es it" by (rule positioned_on_block [OF p(1)])
  note keep = cache_ok_same [OF _ p(2)]
  show ?thesis
  proof (cases m)
    case ToFirst
    then show ?thesis using SeekToFirst_at [OF ok on, of junk le] keep q by auto
  next
    case ToLast
    then show ?thesis using SeekToLast_at [OF ok on, of junk le] keep q by auto
  next
    case Forward
    then obtain i where i: "p = Some i" "q = (if Suc i < length es then Some (Suc i) else None)" using q by auto
    then show ?thesis using Next_at [OF ok, of i it junk le] p(1) keep Forward by (auto simp: positioned_def [of _ _ _ "Some i"])
  next
    case Backward
    then obtain i where i: "p = Some i" "q = (if i = 0 then None else Some (i - 1))" using q by auto
    then show ?thesis using Prev_at [OF ok _ p(2), of i junk le] p(1) Backward by (auto simp: positioned_def [of _ _ _ "Some i"])
  next
    case (SeekTo target)
    then have "q = (if below es target < length es then Some (below es target) else None)" "keys target" using q m by (auto simp: below_def Let_def)
    then show ?thesis using Seek_at [OF ok es _ on, of target junk le] keep SeekTo by auto
  next
    case (SeekBackTo target)
    then have "q = (if upto es target = 0 then None else Some (upto es target - 1))" "keys target" using q m by (auto simp: upto_def Let_def)
    then show ?thesis using SeekForPrev_at [OF ok es _ on p(2), of target junk le] SeekBackTo by auto
  qed
qed

lemma moves_refine:
  assumes ok: "block_ok r delta es" and es: "ordered es"
  shows "list_all (move_target keys) ms \<Longrightarrow> positioned r delta es p it \<Longrightarrow> cache_ok r delta es it \<Longrightarrow> cursor_moves cmp es ms p = Some q \<Longrightarrow>
    \<exists>it'. iter_moves junk le compare ms it = Some it' \<and> positioned r delta es q it'"
proof (induction ms arbitrary: p it)
  case (Cons m ms)
  then obtain p' where p': "cursor_move cmp es m p = Some p'" "cursor_moves cmp es ms p' = Some q" by (auto split: bind_splits)
  obtain it1 where "iter_move junk le compare m it = Some it1" "positioned r delta es p' it1" "cache_ok r delta es it1"
    using move_refines [OF ok es _ Cons.prems(2,3) p'(1)] Cons.prems(1) by auto
  then show ?case using Cons.IH [of p' it1] Cons.prems(1) p'(2) by auto
qed simp

end

section \<open>Opening a block\<close>

lemma make_Block_at:
  assumes "block_ok r delta es"
  shows "make_Block le (block_image r delta es) seqno =
    Some \<lparr>blk_data = block_image r delta es, blk_size = length (block_image r delta es), blk_restart_offset = off r delta es (length es),
      blk_prefix_index = None, blk_global_seqno = seqno\<rparr> \<and>
    NumRestarts le (block_image r delta es) (length (block_image r delta es)) = Some (num_res r (length es))"
proof -
  define N where "N = num_res r (length es)"
  define n where "n = length (block_image r delta es)"
  have n: "n = off r delta es (length es) + 4 * N + 4" by (simp add: n_def block_image_def off_def length_restart_array N_def)
  have N: "0 < N" "N < 2 ^ 30" "n < 2 ^ 32"
    using assms num_res_pos [of r "length es"] num_res_image_less [of r delta es] by (simp_all add: block_ok_def N_def n_def)
  have "drop (n - 4) (block_image r delta es) = le_bytes 4 N" by (simp add: n block_image_def off_def length_restart_array flip: N_def)
  then have num: "NumRestarts le (block_image r delta es) n = Some N"
    using N n by (simp add: NumRestarts_def le_value_exact unat_of_nat_32)
  have "u32_of (sub64 (u32_of n) (u32_of (1 + N) * 4)) = off r delta es (length es)"
    using N n by (simp add: u32_of_def sub64_exact)
  then show ?thesis using num N n by (simp add: make_Block_def Let_def flip: n_def N_def)
qed

lemma NewIterator_at:
  assumes "block_ok r delta es"
  shows "\<exists>blk it. make_Block le (block_image r delta es) kDisableGlobalSequenceNumber = Some blk \<and> NewIterator junk le total_order blk = Some it \<and>
    positioned r delta es None it \<and> cache_ok r delta es it"
proof -
  have "8 \<le> length (block_image r delta es)" using num_res_pos [of r "length es"] by (simp add: block_image_def length_restart_array)
  moreover have "ik_ok (make_IterKey junk)" by (simp add: ik_ok_def make_IterKey_def)
  ultimately show ?thesis using make_Block_at [OF assms, of le kDisableGlobalSequenceNumber] num_res_pos [of r "length es"]
    by (simp add: NewIterator_def Initialize_def make_BlockIter_def positioned_def ended_def on_block_def cache_ok_def cached_from_def)
qed

lemma length_Finish:
  assumes "built r delta es b"
  shows "length (fst (Finish le b)) = length (block_image r delta es)"
proof -
  have "length (concat (map (\<lambda>v. le_bytes 4 (unat v)) rs)) = 4 * length rs" for rs :: "u32 list" by (induction rs) simp_all
  then have "length (fst (Finish le b)) = length (buffer b) + 4 * length (restart_points b) + 4"
    by (simp add: Finish_def foldl_PutFixed32 Let_def)
  then show ?thesis using assms by (simp add: built_def block_image_def length_restart_array)
qed

text \<open>What the iterator shows of its position.\<close>

definition shows_entry :: "entries \<Rightarrow> nat option \<Rightarrow> BlockIter \<Rightarrow> bool" where
  "shows_entry es q it \<longleftrightarrow> bi_status_ok it \<and>
     (case q of None \<Rightarrow> \<not> Valid it | Some i \<Rightarrow> Valid it \<and> iter_key it = Some (fst (es ! i)) \<and> iter_value it = Some (snd (es ! i)))"

lemma positioned_shows: "positioned r delta es q it \<Longrightarrow> shows_entry es q it"
  using positioned_Valid [of r delta es q it] positioned_on_block [of r delta es q it] value_loc_slice(1) [of _ es r delta]
  by (auto simp: shows_entry_def positioned_def at_entry_def iter_key_def iter_value_def GetInternalKey_def on_block_def case_prod_beta split: option.splits)

context block_comparator
begin

lemma block_session:
  assumes "1 \<le> r" "small_entries es" "ordered es" "list_all (move_target keys) ms" "cursor_moves cmp es ms None = Some q"
  shows "\<exists>b0 b. make_BlockBuilder r delta = Some b0 \<and> add_all es b0 = Some b \<and>
    (\<forall>contents b'. Finish le b = (contents, b') \<and> length contents < 2 ^ 32 \<longrightarrow>
       estimate b = length contents \<and>
       (\<exists>blk it0 it. make_Block le contents kDisableGlobalSequenceNumber = Some blk \<and> NewIterator junk le total_order blk = Some it0 \<and>
          iter_moves junk le compare ms it0 = Some it \<and> shows_entry es q it))"
proof -
  obtain b0 where b0: "make_BlockBuilder r delta = Some b0" "built r delta [] b0" using make_built [OF assms(1)] by blast
  obtain b where b: "add_all es b0 = Some b" "built r delta es b" using add_all_built [OF b0(2) assms(1,2)] by auto
  have "estimate b = length contents \<and>
       (\<exists>blk it0 it. make_Block le contents kDisableGlobalSequenceNumber = Some blk \<and> NewIterator junk le total_order blk = Some it0 \<and>
          iter_moves junk le compare ms it0 = Some it \<and> shows_entry es q it)"
    if f: "Finish le b = (contents, b')" "length contents < 2 ^ 32" for contents b'
  proof -
    have "length (block_image r delta es) < 2 ^ 32" using length_Finish [OF b(2), of le] f by simp
    then have c: "contents = block_image r delta es" "estimate b = length contents" and ok: "block_ok r delta es"
      using Finish_built [OF b(2), of le] f assms(1,2) by (auto simp: block_ok_def)
    obtain blk it0 where it0: "make_Block le (block_image r delta es) kDisableGlobalSequenceNumber = Some blk" "NewIterator junk le total_order blk = Some it0"
      "positioned r delta es None it0" "cache_ok r delta es it0" using NewIterator_at [OF ok] by blast
    obtain it where "iter_moves junk le compare ms it0 = Some it" "positioned r delta es q it"
      using moves_refine [OF ok assms(3,4) it0(3,4) assms(5)] by blast
    then show ?thesis using c it0(1,2) positioned_shows by blast
  qed
  then show ?thesis using b0(1) b(1) by blast
qed

end

interpretation block_bytewise: block_comparator bytewise.ikeys "bytewise.icmp le" "internal_Compare le bytewise_Compare" for le
  by (intro block_comparator.intro bytewise.internal_comparator block_comparator_axioms.intro bytewise.icmp_Some)

interpretation block_reverse: block_comparator reverse.ikeys "reverse.icmp le" "internal_Compare le reverse_Compare" for le
  by (intro block_comparator.intro reverse.internal_comparator block_comparator_axioms.intro reverse.icmp_Some)

section \<open>Properties\<close>

lemma internal_key_iff: "(\<exists>u x. k = u @ le_bytes 8 (unat (x :: u64))) \<longleftrightarrow> 8 \<le> length k"
proof
  assume "8 \<le> length k"
  then show "\<exists>u x. k = u @ le_bytes 8 (unat (x :: u64))" by (rule internal_keyE) blast
qed auto

lemma ikeys_length: "bytewise.ikeys = (\<lambda>k. 8 \<le> length k)"
  by (simp add: fun_eq_iff bytewise.ikeys_def internal_key_iff)

text \<open>
  C8. A block is the list it was built from. For sorted internal keys, any restart interval and with or
  without shared prefixes, building succeeds and the size estimate is exact; on the finished block,
  if it is smaller than 4 GiB, any sequence of moves of the iterator (to the ends, forward, backward,
  to the first key not below a target, to the last key not above it) returns, reports no corruption,
  and shows exactly the key and the value at the position where a cursor on the list would stand.
\<close>

theorem block_cursor:
  assumes "ucmp = bytewise_Compare \<or> ucmp = reverse_Compare" "1 \<le> r"
    and "list_all (\<lambda>(k, v). 8 \<le> length k \<and> length k < 2 ^ 32 \<and> length v < 2 ^ 32) es"
    and "sorted_wrt (\<lambda>a b. the (internal_Compare le ucmp (fst a) (fst b)) < 0) es"
    and "list_all (move_target (\<lambda>k. 8 \<le> length k)) ms"
    and "cursor_moves (\<lambda>a b. the (internal_Compare le ucmp a b)) es ms None = Some q"
  shows "\<exists>b0 b. make_BlockBuilder r delta = Some b0 \<and> add_all es b0 = Some b \<and>
    (\<forall>contents b'. Finish le b = (contents, b') \<and> length contents < 2 ^ 32 \<longrightarrow>
       estimate b = length contents \<and>
       (\<exists>blk it0 it. make_Block le contents kDisableGlobalSequenceNumber = Some blk \<and> NewIterator junk le total_order blk = Some it0 \<and>
          iter_moves junk le (internal_Compare le ucmp) ms it0 = Some it \<and> shows_entry es q it))"
proof -
  have small: "small_entries es" and keys: "list_all (\<lambda>e. 8 \<le> length (fst e)) es"
    using assms(3) by (auto simp: small_entries_def list_all_iff)
  show ?thesis
  proof (rule disjE [OF assms(1)])
    assume u: "ucmp = bytewise_Compare"
    have c: "bytewise.icmp le = (\<lambda>a b. the (internal_Compare le bytewise_Compare a b))" by (simp add: fun_eq_iff bytewise.icmp_def)
    have "block_bytewise.ordered le es" unfolding block_bytewise.ordered_def unfolding c ikeys_length using assms(4) keys by (simp add: u)
    then show ?thesis unfolding u
      by (rule block_bytewise.block_session [OF assms(2) small]) (use assms(5,6) in \<open>simp_all add: u c ikeys_length\<close>)
  next
    assume u: "ucmp = reverse_Compare"
    have c: "reverse.icmp le = (\<lambda>a b. the (internal_Compare le reverse_Compare a b))" by (simp add: fun_eq_iff reverse.icmp_def)
    have "block_reverse.ordered le es" unfolding block_reverse.ordered_def unfolding c ikeys_length using assms(4) keys by (simp add: u)
    then show ?thesis unfolding u
      by (rule block_reverse.block_session [OF assms(2) small]) (use assms(5,6) in \<open>simp_all add: u c ikeys_length\<close>)
  qed
qed

theorem block_cursor_witness:
  "\<exists>b contents blk it0 it. fst (Finish True b) = contents \<and> estimate b = length contents \<and>
     make_Block True contents kDisableGlobalSequenceNumber = Some blk \<and> NewIterator 0 True True blk = Some it0 \<and>
     iter_moves 0 True (internal_Compare True bytewise_Compare) [SeekTo [97, 98, 1, 4, 0, 0, 0, 0, 0, 0], Backward, Forward] it0 = Some it \<and>
     shows_entry [([97, 1, 5, 0, 0, 0, 0, 0, 0], [10]), ([97, 98, 1, 4, 0, 0, 0, 0, 0, 0], [20])] (Some 1) it"
proof -
  define es :: entries where "es = [([97, 1, 5, 0, 0, 0, 0, 0, 0], [10]), ([97, 98, 1, 4, 0, 0, 0, 0, 0, 0], [20])]"
  define ms where "ms = [SeekTo [97, 98, 1, 4, 0, 0, 0, 0, 0, 0], Backward, Forward]"
  have run: "map_option (\<lambda>b. length (fst (Finish True b))) (Option.bind (make_BlockBuilder 16 True) (add_all es)) = Some 34"
    unfolding es_def by code_simp
  have "sorted_wrt (\<lambda>a b. the (internal_Compare True bytewise_Compare (fst a) (fst b)) < 0) es" unfolding es_def by code_simp
  moreover have "cursor_moves (\<lambda>a b. the (internal_Compare True bytewise_Compare a b)) es ms None = Some (Some 1)"
    unfolding es_def ms_def by code_simp
  moreover have "list_all (\<lambda>(k, v). 8 \<le> length k \<and> length k < 2 ^ 32 \<and> length v < 2 ^ 32) es" "list_all (move_target (\<lambda>k. 8 \<le> length k)) ms"
    by (simp_all add: es_def ms_def)
  ultimately obtain b0 b where b: "make_BlockBuilder 16 True = Some b0" "add_all es b0 = Some b"
    and all: "\<forall>contents b'. Finish True b = (contents, b') \<and> length contents < 2 ^ 32 \<longrightarrow>
       estimate b = length contents \<and>
       (\<exists>blk it0 it. make_Block True contents kDisableGlobalSequenceNumber = Some blk \<and> NewIterator 0 True True blk = Some it0 \<and>
          iter_moves 0 True (internal_Compare True bytewise_Compare) ms it0 = Some it \<and> shows_entry es (Some 1) it)"
    using block_cursor [of bytewise_Compare 16 es True ms "Some 1" True 0 True] by auto
  have "length (fst (Finish True b)) < 2 ^ 32" using run b by simp
  then show ?thesis using all [rule_format, of "fst (Finish True b)" "snd (Finish True b)"] unfolding es_def ms_def by auto
qed

end
