(* ===== verification/Binary_Heap.thy ===== *)
theory Binary_Heap
  imports Prelude "HOL-Library.Multiset"
begin

text \<open>
  The binary heap of the storage engine (\<open>rocksdb/util/heap.h\<close>) over an arbitrary comparison. It remembers
  which child of the root was found to be the larger one, so that the next replacement of the root
  can be spared a comparison. An assertion that fails, and a loop that does not end, have no result.
\<close>

section \<open>The heap\<close>

definition kMaxSizet :: nat where
  "kMaxSizet = 2 ^ 64 - 1"

record 'a BinaryHeap =
  heap_data :: "'a list"
  root_cmp_cache :: nat

definition make_BinaryHeap :: "'a BinaryHeap" where
  "make_BinaryHeap = \<lparr>heap_data = [], root_cmp_cache = kMaxSizet\<rparr>"

definition reset_root_cmp_cache :: "'a BinaryHeap \<Rightarrow> 'a BinaryHeap" where
  "reset_root_cmp_cache h = h\<lparr>root_cmp_cache := kMaxSizet\<rparr>"

definition get_parent :: "nat \<Rightarrow> nat" where
  "get_parent i = (i - 1) div 2"

definition get_left :: "nat \<Rightarrow> nat" where
  "get_left i = 2 * i + 1"

definition get_right :: "nat \<Rightarrow> nat" where
  "get_right i = 2 * i + 2"

text \<open>The loop that moves smaller ancestors down, and where it ends.\<close>

function upheap_loop :: "('a \<Rightarrow> 'a \<Rightarrow> bool) \<Rightarrow> 'a \<Rightarrow> nat \<Rightarrow> 'a list \<Rightarrow> nat \<times> 'a list" where
  "upheap_loop cmp v i data =
     (if i > 0 then
        if \<not> cmp (data ! get_parent i) v then (i, data)
        else upheap_loop cmp v (get_parent i) (data[i := data ! get_parent i])
      else (i, data))"
  by pat_completeness auto
termination
  by (relation "measure (\<lambda>(cmp, v, i, data). i)") (auto simp: get_parent_def)

declare upheap_loop.simps [simp del]

definition upheap :: "('a \<Rightarrow> 'a \<Rightarrow> bool) \<Rightarrow> nat \<Rightarrow> 'a BinaryHeap \<Rightarrow> 'a BinaryHeap" where
  "upheap cmp i h =
     (let v = heap_data h ! i in
      case upheap_loop cmp v i (heap_data h) of
        (i, data) \<Rightarrow> reset_root_cmp_cache (h\<lparr>heap_data := data[i := v]\<rparr>))"

text \<open>The child that the loop compares with.\<close>

definition pick_child :: "('a \<Rightarrow> 'a \<Rightarrow> bool) \<Rightarrow> nat \<Rightarrow> nat \<Rightarrow> 'a list \<Rightarrow> nat" where
  "pick_child cmp cache i data =
     (let left_child = get_left i; right_child = left_child + 1 in
      if i = 0 \<and> cache < length data then cache
      else if right_child < length data \<and> cmp (data ! left_child) (data ! right_child) then right_child
      else left_child)"

text \<open>A step that moves the root to itself would be repeated forever.\<close>

function downheap_loop :: "('a \<Rightarrow> 'a \<Rightarrow> bool) \<Rightarrow> nat \<Rightarrow> 'a \<Rightarrow> nat \<Rightarrow> nat \<Rightarrow> 'a list \<Rightarrow> (nat \<times> nat \<times> 'a list) option" where
  "downheap_loop cmp cache v i picked data =
     (if get_left i \<ge> length data then Some (i, picked, data)
      else
        let picked = pick_child cmp cache i data in
        if \<not> cmp v (data ! picked) then Some (i, picked, data)
        else if picked = i then None
        else downheap_loop cmp cache v picked picked (data[i := data ! picked]))"
  by pat_completeness auto
termination
  by (relation "measure (\<lambda>(cmp, cache, v, i, picked, data). length data - i)")
    (auto simp: pick_child_def get_left_def Let_def split: if_splits)

declare downheap_loop.simps [simp del]

definition downheap :: "('a \<Rightarrow> 'a \<Rightarrow> bool) \<Rightarrow> nat \<Rightarrow> 'a BinaryHeap \<Rightarrow> 'a BinaryHeap option" where
  "downheap cmp i h =
     (let v = heap_data h ! i in
      case downheap_loop cmp (root_cmp_cache h) v i kMaxSizet (heap_data h) of
        None \<Rightarrow> None
      | Some (i, picked, data) \<Rightarrow>
          let h = (if i = 0 then h\<lparr>root_cmp_cache := picked\<rparr> else reset_root_cmp_cache h)
          in Some (h\<lparr>heap_data := data[i := v]\<rparr>))"

definition heap_push :: "('a \<Rightarrow> 'a \<Rightarrow> bool) \<Rightarrow> 'a \<Rightarrow> 'a BinaryHeap \<Rightarrow> 'a BinaryHeap" where
  "heap_push cmp x h = upheap cmp (length (heap_data h @ [x]) - 1) (h\<lparr>heap_data := heap_data h @ [x]\<rparr>)"

definition heap_empty :: "'a BinaryHeap \<Rightarrow> bool" where
  "heap_empty h \<longleftrightarrow> heap_data h = []"

definition heap_top :: "'a BinaryHeap \<Rightarrow> 'a option" where
  "heap_top h = (if heap_empty h then None else Some (hd (heap_data h)))"

definition replace_top :: "('a \<Rightarrow> 'a \<Rightarrow> bool) \<Rightarrow> 'a \<Rightarrow> 'a BinaryHeap \<Rightarrow> 'a BinaryHeap option" where
  "replace_top cmp x h = (if heap_empty h then None else downheap cmp 0 (h\<lparr>heap_data := (heap_data h)[0 := x]\<rparr>))"

definition heap_pop :: "('a \<Rightarrow> 'a \<Rightarrow> bool) \<Rightarrow> 'a BinaryHeap \<Rightarrow> 'a BinaryHeap option" where
  "heap_pop cmp h =
     (if heap_empty h then None
      else
        let h = h\<lparr>heap_data := butlast ((heap_data h)[0 := last (heap_data h)])\<rparr> in
        if \<not> heap_empty h then downheap cmp 0 h else Some (reset_root_cmp_cache h))"

definition heap_clear :: "'a BinaryHeap \<Rightarrow> 'a BinaryHeap" where
  "heap_clear h = reset_root_cmp_cache (h\<lparr>heap_data := []\<rparr>)"

definition heap_swap :: "'a BinaryHeap \<Rightarrow> 'a BinaryHeap \<Rightarrow> 'a BinaryHeap \<times> 'a BinaryHeap" where
  "heap_swap h other = (other, h)"

section \<open>The order of a heap\<close>

text \<open>
  The comparison is a strict weak order of the elements in \<open>A\<close>. An edge of the heap leads from a parent to
  a child that is not larger; \<open>edges_but\<close> are those that do not start at one position.
\<close>

definition edge :: "('a \<Rightarrow> 'a \<Rightarrow> bool) \<Rightarrow> 'a list \<Rightarrow> nat \<Rightarrow> bool" where
  "edge cmp d i \<longleftrightarrow> \<not> cmp (d ! get_parent i) (d ! i)"

definition heap_ordered :: "('a \<Rightarrow> 'a \<Rightarrow> bool) \<Rightarrow> 'a list \<Rightarrow> bool" where
  "heap_ordered cmp d \<longleftrightarrow> (\<forall>i. 0 < i \<longrightarrow> i < length d \<longrightarrow> edge cmp d i)"

text \<open>The remembered child of the root, when there is one, is the larger one.\<close>

definition larger_child :: "('a \<Rightarrow> 'a \<Rightarrow> bool) \<Rightarrow> 'a list \<Rightarrow> nat \<Rightarrow> nat \<Rightarrow> bool" where
  "larger_child cmp d i p \<longleftrightarrow> p < length d \<and> get_parent p = i \<and> 0 < p \<and>
     (\<forall>c. c < length d \<longrightarrow> 0 < c \<longrightarrow> get_parent c = i \<longrightarrow> \<not> cmp (d ! p) (d ! c))"

definition cache_valid :: "('a \<Rightarrow> 'a \<Rightarrow> bool) \<Rightarrow> 'a list \<Rightarrow> nat \<Rightarrow> bool" where
  "cache_valid cmp d cache \<longleftrightarrow> (cache < length d \<longrightarrow> larger_child cmp d 0 cache)"

definition heap_inv :: "('a \<Rightarrow> 'a \<Rightarrow> bool) \<Rightarrow> 'a BinaryHeap \<Rightarrow> bool" where
  "heap_inv cmp h \<longleftrightarrow> heap_ordered cmp (heap_data h) \<and> cache_valid cmp (heap_data h) (root_cmp_cache h) \<and> length (heap_data h) \<le> kMaxSizet"

text \<open>The same but for the value at the root, whose key may just have changed.\<close>

definition heap_inv_below :: "('a \<Rightarrow> 'a \<Rightarrow> bool) \<Rightarrow> 'a BinaryHeap \<Rightarrow> bool" where
  "heap_inv_below cmp h \<longleftrightarrow> (\<forall>i. 0 < i \<longrightarrow> i < length (heap_data h) \<longrightarrow> get_parent i \<noteq> 0 \<longrightarrow> edge cmp (heap_data h) i) \<and>
     cache_valid cmp (heap_data h) (root_cmp_cache h) \<and> length (heap_data h) \<le> kMaxSizet"

lemma heap_inv_below: "heap_inv cmp h \<Longrightarrow> heap_inv_below cmp h"
  by (simp add: heap_inv_def heap_inv_below_def heap_ordered_def)

lemma get_parent_less: "0 < i \<Longrightarrow> get_parent i < i"
  by (auto simp: get_parent_def)

lemma get_parent_iff: "0 < c \<Longrightarrow> get_parent c = i \<longleftrightarrow> c = get_left i \<or> c = get_right i"
  by (auto simp: get_parent_def get_left_def get_right_def)

locale heap_order =
  fixes A :: "'a set" and cmp :: "'a \<Rightarrow> 'a \<Rightarrow> bool"
  assumes less_asym: "a \<in> A \<Longrightarrow> b \<in> A \<Longrightarrow> cmp a b \<Longrightarrow> \<not> cmp b a"
    and not_less_trans: "a \<in> A \<Longrightarrow> b \<in> A \<Longrightarrow> c \<in> A \<Longrightarrow> \<not> cmp a b \<Longrightarrow> \<not> cmp b c \<Longrightarrow> \<not> cmp a c"
begin

lemma nth_A: "set d \<subseteq> A \<Longrightarrow> i < length d \<Longrightarrow> d ! i \<in> A"
  by (meson nth_mem subsetD)

lemma top_largest:
  assumes "heap_ordered cmp d" "set d \<subseteq> A" "i < length d"
  shows "\<not> cmp (d ! 0) (d ! i)"
  using assms(3)
proof (induction i rule: less_induct)
  case (less i)
  show ?case
  proof (cases "i = 0")
    case True
    then show ?thesis using less_asym [OF nth_A nth_A] assms(2) less.prems by blast
  next
    case False
    then have p: "get_parent i < i" "get_parent i < length d" using get_parent_less [of i] less.prems by auto
    then have "\<not> cmp (d ! 0) (d ! get_parent i)" "\<not> cmp (d ! get_parent i) (d ! i)"
      using less.IH assms(1) False less.prems by (auto simp: heap_ordered_def edge_def)
    moreover have "d ! 0 \<in> A" by (rule nth_A [OF assms(2)]) (use p in linarith)
    moreover have "d ! get_parent i \<in> A" "d ! i \<in> A" using nth_A [OF assms(2)] p less.prems by auto
    ultimately show ?thesis using not_less_trans by blast
  qed
qed

text \<open>Moving a value up: all edges but its own hold, and its parent is not smaller than its children.\<close>

definition rising :: "'a list \<Rightarrow> nat \<Rightarrow> bool" where
  "rising d i \<longleftrightarrow> (\<forall>j. 0 < j \<longrightarrow> j < length d \<longrightarrow> j \<noteq> i \<longrightarrow> edge cmp d j) \<and>
     (\<forall>c. 0 < i \<longrightarrow> c < length d \<longrightarrow> 0 < c \<longrightarrow> get_parent c = i \<longrightarrow> \<not> cmp (d ! get_parent i) (d ! c))"

lemma rising_swap:
  assumes "rising d i" "0 < i" "i < length d" "set d \<subseteq> A" "cmp (d ! get_parent i) (d ! i)"
  shows "rising (d[i := d ! get_parent i, get_parent i := d ! i]) (get_parent i)"
proof -
  define p where "p = get_parent i"
  define e where "e = d[i := d ! p, p := d ! i]"
  have p: "p < i" "p < length d" using get_parent_less [OF assms(2)] assms(3) by (simp_all add: p_def)
  have e: "length e = length d" "e ! i = d ! p" "e ! p = d ! i" "\<And>j. j \<noteq> i \<Longrightarrow> j \<noteq> p \<Longrightarrow> e ! j = d ! j"
    using p assms(3) by (auto simp: e_def)
  have inA: "d ! p \<in> A" "d ! i \<in> A" using nth_A [OF assms(4) p(2)] nth_A [OF assms(4,3)] .
  have less: "cmp (d ! p) (d ! i)" "\<not> cmp (d ! i) (d ! p)"
    using assms(5) less_asym [OF inA] by (simp_all add: p_def)
  have old: "\<And>j. 0 < j \<Longrightarrow> j < length d \<Longrightarrow> j \<noteq> i \<Longrightarrow> \<not> cmp (d ! get_parent j) (d ! j)"
    "\<And>c. c < length d \<Longrightarrow> 0 < c \<Longrightarrow> get_parent c = i \<Longrightarrow> \<not> cmp (d ! p) (d ! c)"
    using assms(1,2) by (auto simp: rising_def edge_def p_def)
  have up: "\<not> cmp (d ! get_parent p) (d ! p)" if "0 < p" using old(1) [OF that p(2)] p by simp
  have sib: "\<not> cmp (d ! i) (d ! c)" if "0 < c" "c < length d" "get_parent c = p" "c \<noteq> i" for c
    using not_less_trans [OF inA(2,1) nth_A [OF assms(4) that(2)] less(2)] old(1) [OF that(1,2,4)] that(3) by simp
  have "\<not> cmp (e ! get_parent j) (e ! j)" if j: "0 < j" "j < length d" "j \<noteq> p" for j
  proof -
    have gp: "get_parent j < j" using get_parent_less j(1) by blast
    consider "j = i" | "j \<noteq> i" "get_parent j = i" | "j \<noteq> i" "get_parent j = p" | "j \<noteq> i" "get_parent j \<noteq> i" "get_parent j \<noteq> p" by blast
    then show ?thesis
    proof cases
      case 1 then show ?thesis using e less(2) by (simp flip: p_def)
    next
      case 2 then show ?thesis using e old(2) j by simp
    next
      case 3 then show ?thesis using e sib j by simp
    next
      case 4 then show ?thesis using e(4) old(1) j by simp
    qed
  qed
  moreover have "\<not> cmp (e ! get_parent p) (e ! c)" if c: "0 < p" "c < length d" "0 < c" "get_parent c = p" for c
  proof -
    have gp: "get_parent p < p" using get_parent_less c(1) by blast
    then have ep: "e ! get_parent p = d ! get_parent p" using e(4) p by simp
    show ?thesis
    proof (cases "c = i")
      case True then show ?thesis using ep up c e by simp
    next
      case False
      moreover have "c \<noteq> p" using c get_parent_less [of c] by auto
      moreover have "\<not> cmp (d ! p) (d ! c)" using old(1) [of c] c False by simp
      moreover have "d ! get_parent p \<in> A" by (rule nth_A [OF assms(4)]) (use gp p in linarith)
      ultimately show ?thesis using not_less_trans [OF _ inA(1) nth_A [OF assms(4) c(2)] up [OF c(1)]] ep e(4) by simp
    qed
  qed
  ultimately show ?thesis by (simp add: rising_def edge_def e_def [symmetric] e(1) p_def [symmetric])
qed

lemma upheap_loop_ok:
  assumes "upheap_loop cmp v i d = (i', d')" "i < length d" "rising (d[i := v]) i" "set (d[i := v]) \<subseteq> A"
  shows "heap_ordered cmp (d'[i' := v]) \<and> mset (d'[i' := v]) = mset (d[i := v])"
  using assms
proof (induction i arbitrary: d rule: less_induct)
  case (less i)
  let ?p = "get_parent i" and ?e = "d[i := v]"
  show ?case
  proof (cases "0 < i \<and> cmp (d ! ?p) v")
    case True
    then have p: "?p < i" "?p < length d" using get_parent_less [of i] less.prems(2) by auto
    have v: "?e ! i = v" "?e ! ?p = d ! ?p" using p less.prems(2) by auto
    have eq: "d[i := d ! ?p, ?p := v] = ?e[i := ?e ! ?p, ?p := ?e ! i]" using v by simp
    have ms: "mset (?e[i := ?e ! ?p, ?p := ?e ! i]) = mset ?e" using p less.prems(2) by (intro mset_swap) auto
    have "rising (?e[i := ?e ! ?p, ?p := ?e ! i]) ?p"
      using True v less.prems(2-4) by (intro rising_swap) auto
    moreover have "set (?e[i := ?e ! ?p, ?p := ?e ! i]) \<subseteq> A" using mset_eq_setD [OF ms] less.prems(4) by simp
    moreover have "upheap_loop cmp v ?p (d[i := d ! ?p]) = (i', d')"
      using less.prems(1) True by (subst (asm) upheap_loop.simps) simp
    ultimately show ?thesis using less.IH [OF p(1), of "d[i := d ! ?p]"] p ms eq by simp
  next
    case False
    then have "i' = i" "d' = d" using less.prems(1) by (subst (asm) upheap_loop.simps, auto split: if_splits)+
    moreover have "edge cmp ?e i" if "0 < i"
      using False that get_parent_less [OF that] less.prems(2) by (simp add: edge_def)
    ultimately show ?thesis using less.prems(3) by (auto simp: heap_ordered_def rising_def)
  qed
qed

text \<open>Moving a value down: all edges but those to its children hold, and its parent is not smaller than them.\<close>

definition sinking :: "'a list \<Rightarrow> nat \<Rightarrow> bool" where
  "sinking d i \<longleftrightarrow> (\<forall>j. 0 < j \<longrightarrow> j < length d \<longrightarrow> get_parent j \<noteq> i \<longrightarrow> edge cmp d j) \<and>
     (\<forall>c. 0 < i \<longrightarrow> c < length d \<longrightarrow> 0 < c \<longrightarrow> get_parent c = i \<longrightarrow> \<not> cmp (d ! get_parent i) (d ! c))"

lemma sinking_swap:
  assumes "sinking d i" "larger_child cmp d i p" "set d \<subseteq> A" "cmp (d ! i) (d ! p)"
  shows "sinking (d[i := d ! p, p := d ! i]) p"
proof -
  define e where "e = d[i := d ! p, p := d ! i]"
  have p: "p < length d" "get_parent p = i" "0 < p" and big: "\<And>c. c < length d \<Longrightarrow> 0 < c \<Longrightarrow> get_parent c = i \<Longrightarrow> \<not> cmp (d ! p) (d ! c)"
    using assms(2) by (auto simp: larger_child_def)
  have i: "i < p" "i < length d" using get_parent_less [OF p(3)] p(1,2) by auto
  have e: "length e = length d" "e ! i = d ! p" "e ! p = d ! i" "\<And>j. j \<noteq> i \<Longrightarrow> j \<noteq> p \<Longrightarrow> e ! j = d ! j"
    using i p by (auto simp: e_def)
  have less: "\<not> cmp (d ! p) (d ! i)" by (rule less_asym [OF nth_A [OF assms(3) i(2)] nth_A [OF assms(3) p(1)] assms(4)])
  have old: "\<And>j. 0 < j \<Longrightarrow> j < length d \<Longrightarrow> get_parent j \<noteq> i \<Longrightarrow> \<not> cmp (d ! get_parent j) (d ! j)"
    "\<And>c. 0 < i \<Longrightarrow> c < length d \<Longrightarrow> 0 < c \<Longrightarrow> get_parent c = i \<Longrightarrow> \<not> cmp (d ! get_parent i) (d ! c)"
    using assms(1) by (auto simp: sinking_def edge_def)
  have "\<not> cmp (e ! get_parent j) (e ! j)" if j: "0 < j" "j < length d" "get_parent j \<noteq> p" for j
  proof -
    have gp: "get_parent j < j" using get_parent_less j(1) by blast
    consider "j = p" | "j = i" | "j \<noteq> p" "j \<noteq> i" "get_parent j = i" | "j \<noteq> p" "j \<noteq> i" "get_parent j \<noteq> i" by blast
    then show ?thesis
    proof cases
      case 1 then show ?thesis using e less p(2) by simp
    next
      case 2 then show ?thesis using e old(2) [of p] p j gp i by auto
    next
      case 3 then show ?thesis using e big j by simp
    next
      case 4 then show ?thesis using e(4) old(1) j by simp
    qed
  qed
  moreover have "\<not> cmp (e ! get_parent p) (e ! c)" if c: "c < length d" "0 < c" "get_parent c = p" for c
  proof -
    have "c \<noteq> p" "c \<noteq> i" using get_parent_less [OF c(2)] c(3) i by auto
    moreover have "get_parent c \<noteq> i" using c(3) i by simp
    ultimately show ?thesis using old(1) [OF c(2,1)] e p(2) c(3) by simp
  qed
  ultimately show ?thesis by (simp add: sinking_def edge_def e_def [symmetric] e(1))
qed

lemma pick_child_larger:
  assumes "get_left i < length d" "set (d[i := v]) \<subseteq> A" "i < length d" "i = 0 \<Longrightarrow> cache_valid cmp (d[i := v]) cache"
  shows "larger_child cmp (d[i := v]) i (pick_child cmp cache i d)"
proof (cases "i = 0 \<and> cache < length d")
  case True
  then show ?thesis using assms(4) by (simp add: pick_child_def cache_valid_def Let_def)
next
  case False
  let ?e = "d[i := v]" and ?l = "get_left i" and ?r = "get_right i"
  have lr: "?r = ?l + 1" "i \<noteq> ?l" "i \<noteq> ?r" "0 < ?l" "get_parent ?l = i" "get_parent ?r = i"
    by (simp_all add: get_left_def get_right_def get_parent_def)
  have self: "\<not> cmp (?e ! j) (?e ! j)" if "j < length d" for j
  proof -
    have "?e ! j \<in> A" using nth_A [OF assms(2)] that by simp
    then show ?thesis using less_asym by blast
  qed
  have kids: "c = ?l \<or> c = ?r" if "0 < c" "get_parent c = i" for c using get_parent_iff that by blast
  show ?thesis
  proof (cases "?r < length d \<and> cmp (d ! ?l) (d ! ?r)")
    case True
    then have "pick_child cmp cache i d = ?r" using False lr(1) by (auto simp: pick_child_def Let_def)
    moreover have "\<not> cmp (?e ! ?r) (?e ! ?l)"
    proof -
      have "?e ! ?l \<in> A" "?e ! ?r \<in> A" using nth_A [OF assms(2)] True assms(1) by auto
      then show ?thesis using less_asym True lr(2,3) by auto
    qed
    then have "\<not> cmp (?e ! ?r) (?e ! c)" if "c < length d" "0 < c" "get_parent c = i" for c
      using kids [OF that(2,3)] self [of ?r] True by (elim disjE) simp_all
    ultimately show ?thesis using True lr by (simp add: larger_child_def)
  next
    case no: False
    then have "pick_child cmp cache i d = ?l" using False lr(1) by (auto simp: pick_child_def Let_def)
    moreover have "\<not> cmp (?e ! ?l) (?e ! ?r)" if "?r < length d" using no that lr by simp
    then have "\<not> cmp (?e ! ?l) (?e ! c)" if "c < length d" "0 < c" "get_parent c = i" for c
      using kids [OF that(2,3)] self [of ?l] that(1) by (elim disjE) simp_all
    ultimately show ?thesis using lr assms(1) by (simp add: larger_child_def)
  qed
qed

lemma downheap_loop_ok:
  assumes "i < length d" "sinking (d[i := v]) i" "set (d[i := v]) \<subseteq> A" "i = 0 \<Longrightarrow> cache_valid cmp (d[i := v]) cache"
  shows "\<exists>i' picked' d'. downheap_loop cmp cache v i picked d = Some (i', picked', d') \<and> heap_ordered cmp (d'[i' := v]) \<and>
    mset (d'[i' := v]) = mset (d[i := v]) \<and> i \<le> i' \<and>
    (if i' = 0 then d' = d \<and> (picked' = picked \<or> larger_child cmp (d'[i' := v]) 0 picked') else True)"
  using assms
proof (induction "length d - i" arbitrary: i d picked rule: less_induct)
  case less
  let ?p = "pick_child cmp cache i d" and ?e = "d[i := v]"
  have fin: "heap_ordered cmp ?e" if "\<And>c. 0 < c \<Longrightarrow> c < length d \<Longrightarrow> get_parent c = i \<Longrightarrow> \<not> cmp v (?e ! c)"
  proof -
    have "edge cmp ?e j" if j: "0 < j" "j < length d" for j
      using that less.prems(1,2) \<open>\<And>c. 0 < c \<Longrightarrow> c < length d \<Longrightarrow> get_parent c = i \<Longrightarrow> \<not> cmp v (?e ! c)\<close> [OF j]
      by (cases "get_parent j = i") (simp_all add: sinking_def edge_def)
    then show ?thesis by (simp add: heap_ordered_def)
  qed
  show ?case
  proof (cases "get_left i \<ge> length d")
    case True
    then have "c \<ge> length d" if "0 < c" "get_parent c = i" for c
      using that by (auto simp: get_parent_iff get_left_def get_right_def)
    then have "heap_ordered cmp ?e" by (intro fin) (metis leD)
    then show ?thesis using True by (simp add: downheap_loop.simps [of cmp cache v i])
  next
    case False
    have big: "larger_child cmp ?e i ?p" using False less.prems by (intro pick_child_larger) auto
    have p: "?p < length d" "get_parent ?p = i" "0 < ?p" "i < ?p"
      using big get_parent_less [of ?p] by (auto simp: larger_child_def)
    have ep: "?e ! ?p = d ! ?p" "?e ! i = v" using p less.prems(1) by auto
    show ?thesis
    proof (cases "cmp v (d ! ?p)")
      case stop: False
      have "\<not> cmp v (?e ! c)" if "0 < c" "c < length d" "get_parent c = i" for c
      proof -
        have "\<not> cmp (?e ! ?p) (?e ! c)" using big that by (simp add: larger_child_def)
        moreover have "v \<in> A" "?e ! ?p \<in> A" "?e ! c \<in> A"
          using nth_A [OF less.prems(3), of i] nth_A [OF less.prems(3), of ?p] nth_A [OF less.prems(3), of c] p that less.prems(1) by auto
        ultimately show ?thesis using not_less_trans [of v "?e ! ?p" "?e ! c"] stop ep by simp
      qed
      then have "heap_ordered cmp ?e" by (rule fin)
      then show ?thesis using False stop big by (auto simp: downheap_loop.simps [of cmp cache v i] Let_def)
    next
      case go: True
      define d1 where "d1 = d[i := d ! ?p]"
      have swap: "d1[?p := v] = ?e[i := ?e ! ?p, ?p := ?e ! i]" using ep by (simp add: d1_def)
      have ms: "mset (?e[i := ?e ! ?p, ?p := ?e ! i]) = mset ?e" using p less.prems(1) by (intro mset_swap) auto
      have "sinking (d1[?p := v]) ?p" unfolding swap using go ep less.prems(2,3) big by (intro sinking_swap) auto
      moreover have "set (d1[?p := v]) \<subseteq> A" unfolding swap using mset_eq_setD [OF ms] less.prems(3) by simp
      moreover have "length d1 - ?p < length d - i" "?p < length d1" using p less.prems(1) by (auto simp: d1_def)
      ultimately obtain i' picked' d' where IH: "downheap_loop cmp cache v ?p ?p d1 = Some (i', picked', d')"
        "heap_ordered cmp (d'[i' := v])" "mset (d'[i' := v]) = mset (d1[?p := v])" "?p \<le> i'"
        using less.hyps [of d1 ?p ?p] less_not_refl2 [OF p(3)] by blast
      have step: "downheap_loop cmp cache v i picked d = downheap_loop cmp cache v ?p ?p d1"
        unfolding downheap_loop.simps [of cmp cache v i picked d] d1_def using False go p(4) by (simp add: Let_def)
      show ?thesis unfolding step IH(1) using IH(2-4) p(4) unfolding swap ms by simp
    qed
  qed
qed

section \<open>The operations\<close>

lemma larger_child_root: "larger_child cmp (d[0 := v]) 0 p \<longleftrightarrow> larger_child cmp d 0 p"
proof -
  have "(d[0 := v]) ! c = d ! c" if "0 < c" for c using that by simp
  then show ?thesis by (auto simp: larger_child_def)
qed

lemma downheap_ok:
  assumes "heap_inv_below cmp h" "set (heap_data h) \<subseteq> A" "heap_data h \<noteq> []"
  obtains h' where "downheap cmp 0 h = Some h'" "heap_inv cmp h'" "mset (heap_data h') = mset (heap_data h)"
proof -
  let ?d = "heap_data h"
  have id: "?d[0 := ?d ! 0] = ?d" by simp
  have len: "0 < length ?d" using assms(3) by simp
  have sink: "sinking ?d 0" using assms(1) by (simp add: heap_inv_below_def sinking_def)
  have cache: "cache_valid cmp ?d (root_cmp_cache h)" using assms(1) by (simp add: heap_inv_below_def)
  from downheap_loop_ok [of 0 ?d "?d ! 0" "root_cmp_cache h" kMaxSizet, unfolded id, OF len sink assms(2) cache]
  obtain i p d where d: "downheap_loop cmp (root_cmp_cache h) (?d ! 0) 0 kMaxSizet ?d = Some (i, p, d)"
    "heap_ordered cmp (d[i := ?d ! 0])" "mset (d[i := ?d ! 0]) = mset ?d"
    "if i = 0 then d = ?d \<and> (p = kMaxSizet \<or> larger_child cmp (d[i := ?d ! 0]) 0 p) else True"
    by blast
  define c where "c = (if i = 0 then p else kMaxSizet)"
  have h': "downheap cmp 0 h = Some (h\<lparr>root_cmp_cache := c, heap_data := d[i := ?d ! 0]\<rparr>)"
    by (simp add: downheap_def Let_def d(1) reset_root_cmp_cache_def c_def)
  have size: "length (d[i := ?d ! 0]) \<le> kMaxSizet" using assms(1) mset_eq_length [OF d(3)] by (simp add: heap_inv_below_def)
  then have "cache_valid cmp (d[i := ?d ! 0]) c" using d(4) by (auto simp: cache_valid_def c_def split: if_splits)
  then show thesis using that [OF h'] d(2,3) size by (simp add: heap_inv_def)
qed

lemma push_ok:
  assumes "heap_inv cmp h" "set (heap_data h) \<subseteq> A" "x \<in> A" "length (heap_data h) < kMaxSizet"
  shows "heap_inv cmp (heap_push cmp x h) \<and> mset (heap_data (heap_push cmp x h)) = add_mset x (mset (heap_data h))"
proof -
  let ?d = "heap_data h" let ?n = "length ?d" let ?e = "?d @ [x]"
  obtain i d where loop: "upheap_loop cmp x ?n ?e = (i, d)" by (cases "upheap_loop cmp x ?n ?e")
  have id: "?e[?n := x] = ?e" by simp
  have old: "edge cmp ?e j" if "0 < j" "j < ?n" for j
    using that assms(1) get_parent_less [of j] by (simp add: heap_inv_def heap_ordered_def edge_def nth_append)
  have leaf: "c \<ge> length ?e" if "0 < c" "get_parent c = ?n" for c using get_parent_less [OF that(1)] that(2) by simp
  have "rising ?e ?n"
    unfolding rising_def
  proof (intro conjI allI impI)
    fix j assume "0 < j" "j < length ?e" "j \<noteq> ?n"
    then show "edge cmp ?e j" by (intro old) simp_all
  next
    fix c assume "c < length ?e" "0 < c" "get_parent c = ?n"
    then show "\<not> cmp (?e ! get_parent ?n) (?e ! c)" using leaf leD by blast
  qed
  then have ok: "heap_ordered cmp (d[i := x])" "mset (d[i := x]) = add_mset x (mset ?d)"
    using upheap_loop_ok [OF loop, unfolded id] assms(2,3) by simp_all
  have "length (d[i := x]) \<le> kMaxSizet" using arg_cong [OF ok(2), of size] assms(4) by simp
  then show ?thesis using ok
    by (simp add: heap_push_def upheap_def Let_def loop reset_root_cmp_cache_def heap_inv_def cache_valid_def)
qed

lemma replace_top_ok:
  assumes "heap_inv_below cmp h" "set (heap_data h) \<subseteq> A" "x \<in> A" "heap_data h \<noteq> []"
  obtains h' where "replace_top cmp x h = Some h'" "heap_inv cmp h'" "mset (heap_data h') = add_mset x (mset (tl (heap_data h)))"
proof -
  let ?d = "(heap_data h)[0 := x]" let ?h = "h\<lparr>heap_data := ?d\<rparr>"
  have "edge cmp ?d i" if "0 < i" "i < length ?d" "get_parent i \<noteq> 0" for i
    using that assms(1) by (simp add: heap_inv_below_def edge_def)
  then have "heap_inv_below cmp ?h" using assms(1) by (auto simp: heap_inv_below_def cache_valid_def larger_child_root)
  moreover have "set ?d \<subseteq> A" using assms(2,3) set_update_subset_insert [of "heap_data h" 0 x] by auto
  ultimately obtain h' where h': "downheap cmp 0 ?h = Some h'" "heap_inv cmp h'" "mset (heap_data h') = mset ?d"
    using downheap_ok [of ?h] assms(4) by auto
  moreover have "mset ?d = add_mset x (mset (tl (heap_data h)))" using assms(4) by (cases "heap_data h") auto
  ultimately show thesis using that [of h'] assms(4) by (simp add: replace_top_def heap_empty_def)
qed

lemma pop_ok:
  assumes "heap_inv_below cmp h" "set (tl (heap_data h)) \<subseteq> A" "heap_data h \<noteq> []"
  obtains h' where "heap_pop cmp h = Some h'" "heap_inv cmp h'" "mset (heap_data h') = mset (tl (heap_data h))"
proof -
  let ?D = "heap_data h" let ?d = "butlast (?D[0 := last ?D])" let ?h = "h\<lparr>heap_data := ?d\<rparr>"
  obtain x xs where D: "?D = x # xs" using assms(3) by (cases ?D) auto
  show thesis
  proof (cases "xs = []")
    case True
    then have "heap_pop cmp h = Some (reset_root_cmp_cache ?h)" by (simp add: heap_pop_def heap_empty_def D Let_def)
    then show thesis using that [of "reset_root_cmp_cache ?h"] True D
      by (simp add: reset_root_cmp_cache_def heap_inv_def heap_ordered_def cache_valid_def)
  next
    case False
    then have d: "?d = last xs # butlast xs" using D by simp
    then have len: "length ?d < length ?D" "length ?d = length xs" using D False by auto
    have ms: "mset ?d = mset xs" unfolding d using False by (metis append_butlast_last_id mset_append mset.simps add_mset_add_single)
    have nth: "?d ! i = ?D ! i" if "0 < i" "i < length ?d" for i
      using that len by (simp add: nth_butlast)
    have "edge cmp ?d i" if "0 < i" "i < length ?d" "get_parent i \<noteq> 0" for i
      using that assms(1) nth [of i] nth [of "get_parent i"] get_parent_less [of i] len by (simp add: heap_inv_below_def edge_def)
    moreover have "cache_valid cmp ?d (root_cmp_cache h)"
      using assms(1) nth len by (auto simp: heap_inv_below_def cache_valid_def larger_child_def)
    ultimately have "heap_inv_below cmp ?h" using assms(1) len by (simp add: heap_inv_below_def)
    moreover have "set ?d \<subseteq> A" using assms(2) mset_eq_setD [OF ms] D by simp
    moreover have "?d \<noteq> []" using d by simp
    ultimately obtain h' where h': "downheap cmp 0 ?h = Some h'" "heap_inv cmp h'" "mset (heap_data h') = mset ?d"
      using downheap_ok [of ?h] by auto
    then show thesis using that [of h'] ms \<open>?d \<noteq> []\<close> by (simp add: heap_pop_def heap_empty_def D Let_def)
  qed
qed

end

section \<open>A heap is a priority queue\<close>

datatype 'a heap_op = Push 'a | Pop | ReplaceTop 'a | Clear

fun heap_step :: "('a \<Rightarrow> 'a \<Rightarrow> bool) \<Rightarrow> 'a heap_op \<Rightarrow> 'a BinaryHeap \<Rightarrow> 'a BinaryHeap option" where
  "heap_step cmp (Push x) h = Some (heap_push cmp x h)"
| "heap_step cmp Pop h = heap_pop cmp h"
| "heap_step cmp (ReplaceTop x) h = replace_top cmp x h"
| "heap_step cmp Clear h = Some (heap_clear h)"

primrec heap_run :: "('a \<Rightarrow> 'a \<Rightarrow> bool) \<Rightarrow> 'a heap_op list \<Rightarrow> 'a BinaryHeap \<Rightarrow> 'a BinaryHeap option" where
  "heap_run cmp [] h = Some h"
| "heap_run cmp (op # ops) h = Option.bind (heap_step cmp op h) (heap_run cmp ops)"

text \<open>The queue only knows its elements; what it gives up is one of the largest.\<close>

definition largest :: "('a \<Rightarrow> 'a \<Rightarrow> bool) \<Rightarrow> 'a multiset \<Rightarrow> 'a \<Rightarrow> bool" where
  "largest cmp M t \<longleftrightarrow> t \<in># M \<and> (\<forall>x. x \<in># M \<longrightarrow> \<not> cmp t x)"

inductive queue_run :: "('a \<Rightarrow> 'a \<Rightarrow> bool) \<Rightarrow> 'a heap_op list \<Rightarrow> 'a multiset \<Rightarrow> 'a multiset \<Rightarrow> bool" for cmp where
  queue_nil: "queue_run cmp [] M M"
| queue_push: "queue_run cmp ops (add_mset x M) M' \<Longrightarrow> queue_run cmp (Push x # ops) M M'"
| queue_pop: "largest cmp M t \<Longrightarrow> queue_run cmp ops (M - {#t#}) M' \<Longrightarrow> queue_run cmp (Pop # ops) M M'"
| queue_replace: "largest cmp M t \<Longrightarrow> queue_run cmp ops (add_mset x (M - {#t#})) M' \<Longrightarrow> queue_run cmp (ReplaceTop x # ops) M M'"
| queue_clear: "queue_run cmp ops {#} M' \<Longrightarrow> queue_run cmp (Clear # ops) M M'"

text \<open>Calls that take nothing from an empty queue and keep the number of elements below the largest size.\<close>

fun legal_ops :: "'a heap_op list \<Rightarrow> nat \<Rightarrow> bool" where
  "legal_ops [] n \<longleftrightarrow> True"
| "legal_ops (Push x # ops) n \<longleftrightarrow> n < kMaxSizet \<and> legal_ops ops (n + 1)"
| "legal_ops (Pop # ops) n \<longleftrightarrow> 0 < n \<and> legal_ops ops (n - 1)"
| "legal_ops (ReplaceTop x # ops) n \<longleftrightarrow> 0 < n \<and> legal_ops ops n"
| "legal_ops (Clear # ops) n \<longleftrightarrow> legal_ops ops 0"

lemma mset_size: "mset d = M \<Longrightarrow> length d = size M"
  by auto

lemma mset_tl: "d \<noteq> [] \<Longrightarrow> mset (tl d) = mset d - {#hd d#}"
  by (cases d) auto

lemma heap_inv_empty: "heap_inv cmp (reset_root_cmp_cache (h\<lparr>heap_data := []\<rparr>))"
  by (simp add: heap_inv_def heap_ordered_def cache_valid_def reset_root_cmp_cache_def)

context heap_order
begin

lemma top_of_heap:
  assumes "heap_inv cmp h" "set (heap_data h) \<subseteq> A" "heap_data h \<noteq> []"
  shows "heap_top h = Some (hd (heap_data h)) \<and> largest cmp (mset (heap_data h)) (hd (heap_data h))"
proof -
  have "\<not> cmp (hd (heap_data h)) x" if "x \<in> set (heap_data h)" for x
    using top_largest [of "heap_data h"] that assms by (metis heap_inv_def hd_conv_nth in_set_conv_nth)
  then show ?thesis using assms(3) by (simp add: largest_def heap_top_def heap_empty_def)
qed

lemma heap_run_queue:
  assumes "A = UNIV"
  shows "heap_inv cmp h \<Longrightarrow> legal_ops ops (length (heap_data h)) \<Longrightarrow>
    \<exists>h'. heap_run cmp ops h = Some h' \<and> heap_inv cmp h' \<and> queue_run cmp ops (mset (heap_data h)) (mset (heap_data h'))"
proof (induction ops arbitrary: h)
  case (Cons op ops)
  have A: "set (heap_data h) \<subseteq> A" "\<And>x. x \<in> A" using assms by auto
  note below = heap_inv_below [OF Cons.prems(1)]
  show ?case
  proof (cases op)
    case (Push x)
    define h1 where "h1 = heap_push cmp x h"
    have h1: "heap_inv cmp h1" "mset (heap_data h1) = add_mset x (mset (heap_data h))"
      using push_ok [OF Cons.prems(1) A, of x] Cons.prems(2) Push by (simp_all add: h1_def)
    have "legal_ops ops (length (heap_data h1))" using Cons.prems(2) Push by (simp add: mset_size [OF h1(2)])
    from Cons.IH [OF h1(1) this] show ?thesis unfolding Push h1(2) by (auto simp: h1_def intro: queue_push)
  next
    case Pop
    then have ne: "heap_data h \<noteq> []" using Cons.prems(2) by auto
    obtain h1 where h1: "heap_pop cmp h = Some h1" "heap_inv cmp h1" "mset (heap_data h1) = mset (tl (heap_data h))"
      using pop_ok [OF below _ ne] assms by auto
    have "legal_ops ops (length (heap_data h1))" using Cons.prems(2) Pop by (simp add: mset_size [OF h1(3)])
    from Cons.IH [OF h1(2) this] show ?thesis
      unfolding Pop h1(3) mset_tl [OF ne] using h1(1) top_of_heap [OF Cons.prems(1) A(1) ne] by (auto intro: queue_pop)
  next
    case (ReplaceTop x)
    then have ne: "heap_data h \<noteq> []" using Cons.prems(2) by auto
    obtain h1 where h1: "replace_top cmp x h = Some h1" "heap_inv cmp h1" "mset (heap_data h1) = add_mset x (mset (tl (heap_data h)))"
      using replace_top_ok [OF below A(1) A(2) ne] .
    have "legal_ops ops (length (heap_data h1))" using Cons.prems(2) ReplaceTop ne by (simp add: mset_size [OF h1(3)])
    from Cons.IH [OF h1(2) this] show ?thesis
      unfolding ReplaceTop h1(3) mset_tl [OF ne] using h1(1) top_of_heap [OF Cons.prems(1) A(1) ne] by (auto intro: queue_replace)
  next
    case Clear
    then show ?thesis using Cons.IH [of "heap_clear h"] heap_inv_empty [of cmp h] Cons.prems(2)
      by (auto simp: heap_clear_def reset_root_cmp_cache_def intro: queue_clear)
  qed
qed (auto intro: queue_nil)

end

text \<open>
  C10. The heap is a priority queue for every strict weak order: any legal sequence of calls ends, its
  elements are those of a queue that gave up a largest element with every removal or replacement of the top, and
  the top is a largest element whenever there is one, although the comparison of the root's
  children is skipped when it is remembered.
\<close>

theorem binary_heap_priority_queue:
  assumes "\<forall>a b. cmp a b \<longrightarrow> \<not> cmp b a" "\<forall>a b c. \<not> cmp a b \<longrightarrow> \<not> cmp b c \<longrightarrow> \<not> cmp a c" "legal_ops ops 0"
  shows "\<exists>h. heap_run cmp ops make_BinaryHeap = Some h \<and> queue_run cmp ops {#} (mset (heap_data h)) \<and>
    (if heap_data h = [] then heap_top h = None else \<exists>t. heap_top h = Some t \<and> largest cmp (mset (heap_data h)) t)"
proof -
  have o: "heap_order UNIV cmp" by (intro heap_order.intro) (use assms(1,2) in blast)+
  have "heap_inv cmp make_BinaryHeap" by (simp add: make_BinaryHeap_def heap_inv_def heap_ordered_def cache_valid_def)
  then obtain h where h: "heap_run cmp ops make_BinaryHeap = Some h" "heap_inv cmp h" "queue_run cmp ops {#} (mset (heap_data h))"
    using heap_order.heap_run_queue [OF o refl, of make_BinaryHeap ops] assms(3) by (auto simp: make_BinaryHeap_def)
  then show ?thesis using heap_order.top_of_heap [OF o h(2) subset_UNIV] by (auto simp: heap_top_def heap_empty_def)
qed

text \<open>Pushing, replacing and removing numbers.\<close>

theorem binary_heap_priority_queue_witness:
  "\<exists>h. heap_run (<) [Push 3, Push (7 :: nat), Push 5, ReplaceTop 1, ReplaceTop 4, Pop] make_BinaryHeap = Some h \<and>
    queue_run (<) [Push 3, Push 7, Push 5, ReplaceTop 1, ReplaceTop 4, Pop] {#} (mset (heap_data h))"
  using binary_heap_priority_queue [of "(<)" "[Push 3, Push (7 :: nat), Push 5, ReplaceTop 1, ReplaceTop 4, Pop]"]
  by (auto simp: kMaxSizet_def)

end
