(* ===== verification/Merging_Iterator.thy ===== *)
theory Merging_Iterator
  imports Block_Cursor Binary_Heap
begin

text \<open>
  The iterator that merges several others (\<open>rocksdb/table/merging_iterator.cc\<close>), with its heaps of child iterators
  (\<open>table/iter_heap.h\<close>) and the wrapper around a child (\<open>table/iterator_wrapper.h\<close>). The children
  implement the interface \<open>InternalIterator\<close> of \<open>table/internal_iterator.h\<close>; its contract is the locale
  \<open>internal_iterators\<close>, which block iterators and merging iterators themselves satisfy.
  A pointer to a child is its index. Pinning of memory, timers and counters are left out.
\<close>

section \<open>Iterators and their wrapper\<close>

text \<open>The codes of a status that the iterators tell apart.\<close>

datatype IterStatus = Status_OK | Status_Incomplete | Status_Error

text \<open>The virtual methods. A call whose requirements are not met has no result.\<close>

record 'i InternalIterator =
  op_Valid :: "'i \<Rightarrow> bool"
  op_SeekToFirst :: "'i \<Rightarrow> 'i option"
  op_SeekToLast :: "'i \<Rightarrow> 'i option"
  op_Seek :: "bytes \<Rightarrow> 'i \<Rightarrow> 'i option"
  op_SeekForPrev :: "bytes \<Rightarrow> 'i \<Rightarrow> 'i option"
  op_Next :: "'i \<Rightarrow> 'i option"
  op_Prev :: "'i \<Rightarrow> 'i option"
  op_key :: "'i \<Rightarrow> bytes option"
  op_value :: "'i \<Rightarrow> bytes option"
  op_status :: "'i \<Rightarrow> IterStatus"

record 'i IteratorWrapper =
  w_iter :: 'i
  w_valid :: bool
  w_key :: bytes

definition w_Update :: "'i InternalIterator \<Rightarrow> 'i IteratorWrapper \<Rightarrow> 'i IteratorWrapper option" where
  "w_Update ops w =
     (let w = w\<lparr>w_valid := op_Valid ops (w_iter w)\<rparr> in
      if w_valid w then do { k \<leftarrow> op_key ops (w_iter w); Some (w\<lparr>w_key := k\<rparr>) } else Some w)"

definition w_Set :: "'i InternalIterator \<Rightarrow> 'i \<Rightarrow> 'i IteratorWrapper option" where
  "w_Set ops i = w_Update ops \<lparr>w_iter = i, w_valid = False, w_key = []\<rparr>"

text \<open>The moves of the wrapper call the iterator and update what is remembered.\<close>

definition w_move :: "'i InternalIterator \<Rightarrow> ('i \<Rightarrow> 'i option) \<Rightarrow> 'i IteratorWrapper \<Rightarrow> 'i IteratorWrapper option" where
  "w_move ops f w = do { i \<leftarrow> f (w_iter w); w_Update ops (w\<lparr>w_iter := i\<rparr>) }"

definition w_get_key :: "'i IteratorWrapper \<Rightarrow> bytes option" where
  "w_get_key w = (if w_valid w then Some (w_key w) else None)"

definition w_value :: "'i InternalIterator \<Rightarrow> 'i IteratorWrapper \<Rightarrow> bytes option" where
  "w_value ops w = (if w_valid w then op_value ops (w_iter w) else None)"

definition w_status :: "'i InternalIterator \<Rightarrow> 'i IteratorWrapper \<Rightarrow> IterStatus" where
  "w_status ops w = op_status ops (w_iter w)"

section \<open>Heaps of children\<close>

definition MaxIteratorComparator :: "(bytes \<Rightarrow> bytes \<Rightarrow> int) \<Rightarrow> 'i IteratorWrapper list \<Rightarrow> nat \<Rightarrow> nat \<Rightarrow> bool" where
  "MaxIteratorComparator cmp cs a b \<longleftrightarrow> cmp (w_key (cs ! a)) (w_key (cs ! b)) < 0"

definition MinIteratorComparator :: "(bytes \<Rightarrow> bytes \<Rightarrow> int) \<Rightarrow> 'i IteratorWrapper list \<Rightarrow> nat \<Rightarrow> nat \<Rightarrow> bool" where
  "MinIteratorComparator cmp cs a b \<longleftrightarrow> cmp (w_key (cs ! a)) (w_key (cs ! b)) > 0"

text \<open>
  The comparisons inside of a heap ask the children for their keys, so all that are compared have to be valid.
\<close>

definition comparable :: "'i IteratorWrapper list \<Rightarrow> nat list \<Rightarrow> bool" where
  "comparable cs js \<longleftrightarrow> list_all (\<lambda>j. j < length cs \<and> w_valid (cs ! j)) js"

text \<open>A loop over the children: each is moved by \<open>f\<close> and pushed when it is valid then.\<close>

fun each_child ::
  "(nat \<Rightarrow> 'i IteratorWrapper \<Rightarrow> 'i IteratorWrapper option) \<Rightarrow> ('i IteratorWrapper list \<Rightarrow> nat \<Rightarrow> nat \<Rightarrow> bool) \<Rightarrow>
   nat list \<Rightarrow> 'i IteratorWrapper list \<Rightarrow> nat BinaryHeap \<Rightarrow> ('i IteratorWrapper list \<times> nat BinaryHeap) option" where
  "each_child f hcmp [] cs h = Some (cs, h)"
| "each_child f hcmp (j # js) cs h =
     (case f j (cs ! j) of
        None \<Rightarrow> None
      | Some w \<Rightarrow>
          let cs = cs[j := w] in
          if w_valid w
          then if comparable cs (j # heap_data h) then each_child f hcmp js cs (heap_push (hcmp cs) j h) else None
          else each_child f hcmp js cs h)"

section \<open>The merging iterator\<close>

datatype Direction = kForward | kReverse

record 'i MergingIterator =
  children :: "'i IteratorWrapper list"
  current :: "nat option"
  direction :: Direction
  minHeap :: "nat BinaryHeap"
  prefix_seek_mode :: bool
  maxHeap :: "nat BinaryHeap option"

definition CurrentForward :: "'i MergingIterator \<Rightarrow> nat option option" where
  "CurrentForward m = (if direction m = kForward then Some (heap_top (minHeap m)) else None)"

definition CurrentReverse :: "'i MergingIterator \<Rightarrow> nat option option" where
  "CurrentReverse m = (if direction m = kReverse then map_option heap_top (maxHeap m) else None)"

definition ClearHeaps :: "'i MergingIterator \<Rightarrow> 'i MergingIterator" where
  "ClearHeaps m = m\<lparr>minHeap := heap_clear (minHeap m), maxHeap := map_option heap_clear (maxHeap m)\<rparr>"

definition InitMaxHeap :: "'i MergingIterator \<Rightarrow> 'i MergingIterator" where
  "InitMaxHeap m = (if maxHeap m = None then m\<lparr>maxHeap := Some make_BinaryHeap\<rparr> else m)"

text \<open>Filling the heap of either direction with the children moved by \<open>f\<close>, and turning to that direction.\<close>

definition fill_forward ::
  "(bytes \<Rightarrow> bytes \<Rightarrow> int) \<Rightarrow> (nat \<Rightarrow> 'i IteratorWrapper \<Rightarrow> 'i IteratorWrapper option) \<Rightarrow> 'i MergingIterator \<Rightarrow> 'i MergingIterator option" where
  "fill_forward cmp f m =
     (let m = ClearHeaps m in
      do { (cs, h) \<leftarrow> each_child f (MinIteratorComparator cmp) [0..<length (children m)] (children m) (minHeap m);
           Some (m\<lparr>children := cs, minHeap := h, direction := kForward\<rparr>) })"

definition fill_reverse ::
  "(bytes \<Rightarrow> bytes \<Rightarrow> int) \<Rightarrow> (nat \<Rightarrow> 'i IteratorWrapper \<Rightarrow> 'i IteratorWrapper option) \<Rightarrow> 'i MergingIterator \<Rightarrow> 'i MergingIterator option" where
  "fill_reverse cmp f m =
     (let m = InitMaxHeap (ClearHeaps m) in
      do { mh \<leftarrow> maxHeap m;
           (cs, h) \<leftarrow> each_child f (MaxIteratorComparator cmp) [0..<length (children m)] (children m) mh;
           Some (m\<lparr>children := cs, maxHeap := Some h, direction := kReverse\<rparr>) })"

definition set_current_forward :: "'i MergingIterator \<Rightarrow> 'i MergingIterator option" where
  "set_current_forward m = do { c \<leftarrow> CurrentForward m; Some (m\<lparr>current := c\<rparr>) }"

definition set_current_reverse :: "'i MergingIterator \<Rightarrow> 'i MergingIterator option" where
  "set_current_reverse m = do { c \<leftarrow> CurrentReverse m; Some (m\<lparr>current := c\<rparr>) }"

fun wrap_all :: "'i InternalIterator \<Rightarrow> 'i list \<Rightarrow> 'i IteratorWrapper list option" where
  "wrap_all ops [] = Some []"
| "wrap_all ops (i # is) = do { w \<leftarrow> w_Set ops i; ws \<leftarrow> wrap_all ops is; Some (w # ws) }"

definition make_MergingIterator ::
  "(bytes \<Rightarrow> bytes \<Rightarrow> int) \<Rightarrow> 'i InternalIterator \<Rightarrow> 'i list \<Rightarrow> bool \<Rightarrow> 'i MergingIterator option" where
  "make_MergingIterator cmp ops is mode =
     do { cs \<leftarrow> wrap_all ops is;
          (cs, h) \<leftarrow> each_child (\<lambda>j w. Some w) (MinIteratorComparator cmp) [0..<length cs] cs make_BinaryHeap;
          set_current_forward \<lparr>children = cs, current = None, direction = kForward, minHeap = h, prefix_seek_mode = mode, maxHeap = None\<rparr> }"

text \<open>
  A valid iterator is pushed as a pointer to a local copy of its wrapper, which every later call would follow. Then
  there is no result.
\<close>

definition AddIterator :: "'i InternalIterator \<Rightarrow> 'i \<Rightarrow> 'i MergingIterator \<Rightarrow> 'i MergingIterator option" where
  "AddIterator ops i m =
     (if direction m \<noteq> kForward then None
      else do { w \<leftarrow> w_Set ops i;
                if w_valid w then None else Some (m\<lparr>children := children m @ [w]\<rparr>) })"

definition Valid_merging :: "'i MergingIterator \<Rightarrow> bool" where
  "Valid_merging m \<longleftrightarrow> current m \<noteq> None"

definition key_merging :: "'i MergingIterator \<Rightarrow> bytes option" where
  "key_merging m = do { c \<leftarrow> current m; w_get_key (children m ! c) }"

definition value_merging :: "'i InternalIterator \<Rightarrow> 'i MergingIterator \<Rightarrow> bytes option" where
  "value_merging ops m = do { c \<leftarrow> current m; w_value ops (children m ! c) }"

text \<open>The first status that is not in order, or that of the last child.\<close>

fun status_loop :: "'i InternalIterator \<Rightarrow> 'i IteratorWrapper list \<Rightarrow> IterStatus \<Rightarrow> IterStatus" where
  "status_loop ops [] s = s"
| "status_loop ops (w # ws) s = (if w_status ops w \<noteq> Status_OK then w_status ops w else status_loop ops ws (w_status ops w))"

definition status_merging :: "'i InternalIterator \<Rightarrow> 'i MergingIterator \<Rightarrow> IterStatus" where
  "status_merging ops m = status_loop ops (children m) Status_OK"

definition SeekToFirst_merging :: "(bytes \<Rightarrow> bytes \<Rightarrow> int) \<Rightarrow> 'i InternalIterator \<Rightarrow> 'i MergingIterator \<Rightarrow> 'i MergingIterator option" where
  "SeekToFirst_merging cmp ops m = do { m \<leftarrow> fill_forward cmp (\<lambda>j. w_move ops (op_SeekToFirst ops)) m; set_current_forward m }"

definition SeekToLast_merging :: "(bytes \<Rightarrow> bytes \<Rightarrow> int) \<Rightarrow> 'i InternalIterator \<Rightarrow> 'i MergingIterator \<Rightarrow> 'i MergingIterator option" where
  "SeekToLast_merging cmp ops m = do { m \<leftarrow> fill_reverse cmp (\<lambda>j. w_move ops (op_SeekToLast ops)) m; set_current_reverse m }"

definition Seek_merging ::
  "(bytes \<Rightarrow> bytes \<Rightarrow> int) \<Rightarrow> 'i InternalIterator \<Rightarrow> bytes \<Rightarrow> 'i MergingIterator \<Rightarrow> 'i MergingIterator option" where
  "Seek_merging cmp ops target m = do { m \<leftarrow> fill_forward cmp (\<lambda>j. w_move ops (op_Seek ops target)) m; set_current_forward m }"

definition SeekForPrev_merging ::
  "(bytes \<Rightarrow> bytes \<Rightarrow> int) \<Rightarrow> 'i InternalIterator \<Rightarrow> bytes \<Rightarrow> 'i MergingIterator \<Rightarrow> 'i MergingIterator option" where
  "SeekForPrev_merging cmp ops target m = do { m \<leftarrow> fill_reverse cmp (\<lambda>j. w_move ops (op_SeekForPrev ops target)) m; set_current_reverse m }"

text \<open>Turning around: what happens to a child other than the current one at \<open>key\<close>.\<close>

definition turn_forward :: "(bytes \<Rightarrow> bytes \<Rightarrow> int) \<Rightarrow> 'i InternalIterator \<Rightarrow> bytes \<Rightarrow> 'i IteratorWrapper \<Rightarrow> 'i IteratorWrapper option" where
  "turn_forward cmp ops key w =
     do { w \<leftarrow> w_move ops (op_Seek ops key) w;
          if w_valid w \<and> cmp key (w_key w) = 0 then w_move ops (op_Next ops) w else Some w }"

definition turn_reverse ::
  "(bytes \<Rightarrow> bytes \<Rightarrow> int) \<Rightarrow> 'i InternalIterator \<Rightarrow> bool \<Rightarrow> bytes \<Rightarrow> 'i IteratorWrapper \<Rightarrow> 'i IteratorWrapper option" where
  "turn_reverse cmp ops mode key w =
     (if \<not> mode
      then do { w \<leftarrow> w_move ops (op_Seek ops key) w;
                if w_valid w then w_move ops (op_Prev ops) w else w_move ops (op_SeekToLast ops) w }
      else do { w \<leftarrow> w_move ops (op_SeekForPrev ops key) w;
                if w_valid w \<and> cmp key (w_key w) = 0 then w_move ops (op_Prev ops) w else Some w })"

text \<open>After the current child has moved, it is put back into its place or removed.\<close>

definition settle_top :: "('i IteratorWrapper list \<Rightarrow> nat \<Rightarrow> nat \<Rightarrow> bool) \<Rightarrow> 'i IteratorWrapper list \<Rightarrow> nat \<Rightarrow> nat BinaryHeap \<Rightarrow> nat BinaryHeap option" where
  "settle_top hcmp cs c h =
     (if w_valid (cs ! c)
      then if comparable cs (c # tl (heap_data h)) then replace_top (hcmp cs) c h else None
      else if comparable cs (tl (heap_data h)) then heap_pop (hcmp cs) h else None)"

definition Next_merging :: "(bytes \<Rightarrow> bytes \<Rightarrow> int) \<Rightarrow> 'i InternalIterator \<Rightarrow> 'i MergingIterator \<Rightarrow> 'i MergingIterator option" where
  "Next_merging cmp ops m =
     do { c \<leftarrow> current m;
          m \<leftarrow> (if direction m \<noteq> kForward
                then do { key \<leftarrow> key_merging m;
                          fill_forward cmp (\<lambda>j w. if j \<noteq> c then turn_forward cmp ops key w else Some w) m }
                else Some m);
          top \<leftarrow> CurrentForward m;
          if top \<noteq> Some c then None
          else do {
            w \<leftarrow> w_move ops (op_Next ops) (children m ! c);
            let cs = (children m)[c := w];
            h \<leftarrow> settle_top (MinIteratorComparator cmp) cs c (minHeap m);
            set_current_forward (m\<lparr>children := cs, minHeap := h\<rparr>) } }"

definition Prev_merging :: "(bytes \<Rightarrow> bytes \<Rightarrow> int) \<Rightarrow> 'i InternalIterator \<Rightarrow> 'i MergingIterator \<Rightarrow> 'i MergingIterator option" where
  "Prev_merging cmp ops m =
     do { c \<leftarrow> current m;
          m \<leftarrow> (if direction m \<noteq> kReverse
                then do { key \<leftarrow> key_merging m;
                          m \<leftarrow> fill_reverse cmp (\<lambda>j w. if j \<noteq> c then turn_reverse cmp ops (prefix_seek_mode m) key w else Some w) m;
                          if \<not> prefix_seek_mode m then set_current_reverse m else Some m }
                else Some m);
          c \<leftarrow> current m;
          top \<leftarrow> CurrentReverse m;
          if top \<noteq> Some c then None
          else do {
            w \<leftarrow> w_move ops (op_Prev ops) (children m ! c);
            let cs = (children m)[c := w];
            mh \<leftarrow> maxHeap m;
            h \<leftarrow> settle_top (MaxIteratorComparator cmp) cs c mh;
            set_current_reverse (m\<lparr>children := cs, maxHeap := Some h\<rparr>) } }"

text \<open>The methods of the merging iterator.\<close>

definition MergingIterator_ops :: "(bytes \<Rightarrow> bytes \<Rightarrow> int) \<Rightarrow> 'i InternalIterator \<Rightarrow> 'i MergingIterator InternalIterator" where
  "MergingIterator_ops cmp ops =
     \<lparr>op_Valid = Valid_merging, op_SeekToFirst = SeekToFirst_merging cmp ops, op_SeekToLast = SeekToLast_merging cmp ops,
      op_Seek = Seek_merging cmp ops, op_SeekForPrev = SeekForPrev_merging cmp ops, op_Next = Next_merging cmp ops,
      op_Prev = Prev_merging cmp ops, op_key = key_merging, op_value = value_merging ops, op_status = status_merging ops\<rparr>"

text \<open>No iterator gives an empty one (\<open>Inl None\<close>), and a single one is returned as it is.\<close>

definition NewMergingIterator ::
  "(bytes \<Rightarrow> bytes \<Rightarrow> int) \<Rightarrow> 'i InternalIterator \<Rightarrow> 'i list \<Rightarrow> bool \<Rightarrow> ('i option + 'i MergingIterator) option" where
  "NewMergingIterator cmp ops its mode =
     (if length its = 0 then Some (Inl None)
      else if length its = 1 then Some (Inl (Some (its ! 0)))
      else map_option Inr (make_MergingIterator cmp ops its mode))"

section \<open>Collecting the children one by one\<close>

record 'i MergeIteratorBuilder =
  merge_iter :: "'i MergingIterator"
  first_iter :: "'i option"
  use_merging_iter :: bool

definition make_MergeIteratorBuilder :: "(bytes \<Rightarrow> bytes \<Rightarrow> int) \<Rightarrow> 'i InternalIterator \<Rightarrow> bool \<Rightarrow> 'i MergeIteratorBuilder option" where
  "make_MergeIteratorBuilder cmp ops mode =
     do { m \<leftarrow> make_MergingIterator cmp ops [] mode; Some \<lparr>merge_iter = m, first_iter = None, use_merging_iter = False\<rparr> }"

definition AddIterator_builder :: "'i InternalIterator \<Rightarrow> 'i \<Rightarrow> 'i MergeIteratorBuilder \<Rightarrow> 'i MergeIteratorBuilder option" where
  "AddIterator_builder ops i b =
     do { b \<leftarrow> (case first_iter b of
                 Some f \<Rightarrow> if \<not> use_merging_iter b
                   then do { m \<leftarrow> AddIterator ops f (merge_iter b); Some (b\<lparr>merge_iter := m, use_merging_iter := True\<rparr>) }
                   else Some b
               | None \<Rightarrow> Some b);
          if use_merging_iter b
          then do { m \<leftarrow> AddIterator ops i (merge_iter b); Some (b\<lparr>merge_iter := m\<rparr>) }
          else Some (b\<lparr>first_iter := Some i\<rparr>) }"

text \<open>A single iterator is returned as it is, or no iterator at all.\<close>

definition Finish_builder :: "'i MergeIteratorBuilder \<Rightarrow> 'i option + 'i MergingIterator" where
  "Finish_builder b = (if \<not> use_merging_iter b then Inl (first_iter b) else Inr (merge_iter b))"

end
