(* ===== verification/Merging_Correct.thy ===== *)
theory Merging_Correct
  imports Merging_Iterator
begin

text \<open>
  The merging iterator behaves like a cursor on the merged list of the entries of its children. The heaps
  are used through the contract of \<open>Binary_Heap\<close>, the children through that of \<open>InternalIterator\<close>.
\<close>

section \<open>The contract of iterators\<close>

fun ops_move :: "'i InternalIterator \<Rightarrow> move \<Rightarrow> 'i \<Rightarrow> 'i option" where
  "ops_move ops ToFirst = op_SeekToFirst ops"
| "ops_move ops ToLast = op_SeekToLast ops"
| "ops_move ops Forward = op_Next ops"
| "ops_move ops Backward = op_Prev ops"
| "ops_move ops (SeekTo target) = op_Seek ops target"
| "ops_move ops (SeekBackTo target) = op_SeekForPrev ops target"

text \<open>\<open>stands i es q\<close>: the iterator \<open>i\<close> goes over the entries \<open>es\<close> and is at position \<open>q\<close>, or at none.\<close>

locale internal_iterators = comparator keys cmp for keys :: "bytes \<Rightarrow> bool" and cmp :: "bytes \<Rightarrow> bytes \<Rightarrow> int" +
  fixes ops :: "'i InternalIterator" and stands :: "'i \<Rightarrow> entries \<Rightarrow> nat option \<Rightarrow> bool"
  assumes stands_sorted: "stands i es q \<Longrightarrow> sorted_wrt (\<lambda>a b. cmp (fst a) (fst b) < 0) es \<and> list_all (\<lambda>e. keys (fst e)) es"
    and stands_Valid: "stands i es q \<Longrightarrow> op_Valid ops i \<longleftrightarrow> q \<noteq> None"
    and stands_status: "stands i es q \<Longrightarrow> op_status ops i = Status_OK"
    and stands_entry: "stands i es (Some p) \<Longrightarrow> p < length es \<and> op_key ops i = Some (fst (es ! p)) \<and> op_value ops i = Some (snd (es ! p))"
    and stands_move: "stands i es q0 \<Longrightarrow> move_target keys m \<Longrightarrow> cursor_move cmp es m q0 = Some q \<Longrightarrow>
      \<exists>i'. ops_move ops m i = Some i' \<and> stands i' es q"

sublocale internal_iterators < total: block_comparator keys cmp "\<lambda>a b. Some (cmp a b)"
  by unfold_locales simp

section \<open>Merged lists\<close>

text \<open>The number of entries of one list among the first \<open>n\<close> of the merged list, and the positions before and behind them.\<close>

definition part :: "entries \<Rightarrow> nat \<Rightarrow> entries \<Rightarrow> nat" where
  "part M n es = length (takeWhile (\<lambda>e. e \<in> set (take n M)) es)"

definition pos_after :: "entries \<Rightarrow> nat \<Rightarrow> entries \<Rightarrow> nat option" where
  "pos_after M n es = (if part M n es < length es then Some (part M n es) else None)"

definition pos_before :: "entries \<Rightarrow> nat \<Rightarrow> entries \<Rightarrow> nat option" where
  "pos_before M n es = (if part M n es = 0 then None else Some (part M n es - 1))"

lemma part_0 [simp]: "part M 0 es = 0"
  by (cases es) (auto simp: part_def)

lemma part_le: "part M n es \<le> length es"
  by (simp add: part_def length_takeWhile_le)

lemma sub_nth:
  assumes "set es \<subseteq> set M" "i < length es"
  obtains a where "a < length M" "es ! i = M ! a"
proof -
  have "es ! i \<in> set M" using assms by auto
  then show thesis using that by (auto simp: in_set_conv_nth)
qed

lemma distinct_concat_owner:
  assumes "distinct (concat xss)" "i < length xss" "j < length xss" "x \<in> set (xss ! i)" "x \<in> set (xss ! j)"
  shows "i = j"
  using assms
proof (induction xss arbitrary: i j)
  case (Cons xs xss)
  have "x \<in> set (concat xss)" if "k < length xss" "x \<in> set (xss ! k)" for k using that by auto
  then show ?case using Cons by (cases i; cases j) auto
qed simp

context internal_iterators
begin

definition merged :: "entries list \<Rightarrow> entries \<Rightarrow> bool" where
  "merged ess M \<longleftrightarrow> total.ordered M \<and> mset M = mset (concat ess) \<and> list_all total.ordered ess"

lemma ordered_index:
  assumes "total.ordered M" "a < length M" "b < length M"
  shows "cmp (fst (M ! a)) (fst (M ! b)) < 0 \<longleftrightarrow> a < b"
proof
  assume less: "cmp (fst (M ! a)) (fst (M ! b)) < 0"
  show "a < b"
  proof (rule ccontr)
    assume "\<not> a < b"
    then consider "a = b" | "b < a" by linarith
    then show False
    proof cases
      case 1
      then show False using less cmp_refl [OF total.ordered_keys [OF assms(1,2)]] by simp
    next
      case 2
      then have "cmp (fst (M ! b)) (fst (M ! a)) < 0" using total.ordered_less assms by blast
      then show False using less cmp_flip [of "fst (M ! a)" "fst (M ! b)"] total.ordered_keys assms by fastforce
    qed
  qed
qed (use total.ordered_less assms in blast)

lemma ordered_key_unique:
  assumes "total.ordered M" "a < length M" "b < length M" "fst (M ! a) = fst (M ! b)"
  shows "a = b"
proof -
  have "cmp (fst (M ! a)) (fst (M ! b)) = 0" "cmp (fst (M ! b)) (fst (M ! a)) = 0"
    using assms(4) cmp_refl [OF total.ordered_keys [OF assms(1,2)]] by simp_all
  then show ?thesis using ordered_index [OF assms(1-3)] ordered_index [OF assms(1,3,2)] by simp
qed

lemma ordered_distinct: "total.ordered M \<Longrightarrow> distinct M"
  using ordered_key_unique by (auto simp: distinct_conv_nth)

lemma mem_take_iff:
  assumes "total.ordered M" "a < length M"
  shows "M ! a \<in> set (take n M) \<longleftrightarrow> a < n"
proof
  assume "M ! a \<in> set (take n M)"
  then obtain b where "b < n" "b < length M" "M ! a = M ! b" by (auto simp: in_set_conv_nth)
  then show "a < n" using ordered_distinct [OF assms(1)] assms(2) nth_eq_iff_index_eq by metis
next
  assume "a < n"
  then show "M ! a \<in> set (take n M)" using assms(2) by (metis length_take min_less_iff_conj nth_mem nth_take)
qed

lemma part_iff:
  assumes "total.ordered M" "total.ordered es" "set es \<subseteq> set M" "i < length es"
  shows "es ! i \<in> set (take n M) \<longleftrightarrow> i < part M n es"
  unfolding part_def
proof (rule total.takeWhile_less [OF _ assms(4)])
  fix i j assume ij: "i < j" "j < length es" "es ! j \<in> set (take n M)"
  have i: "i < length es" using ij by simp
  obtain a where a: "a < length M" "es ! i = M ! a" using sub_nth [OF assms(3) i] .
  obtain b where b: "b < length M" "es ! j = M ! b" using sub_nth [OF assms(3) ij(2)] .
  have "a < b" using ordered_index [OF assms(1) a(1) b(1)] total.ordered_less [OF assms(2) ij(1,2)] a b by simp
  then show "es ! i \<in> set (take n M)" using mem_take_iff [OF assms(1)] a b ij(3) by simp
qed

lemma part_eqI:
  assumes "total.ordered M" "total.ordered es" "set es \<subseteq> set M" "p \<le> length es" "\<And>i. i < length es \<Longrightarrow> es ! i \<in> set (take n M) \<longleftrightarrow> i < p"
  shows "part M n es = p"
proof (rule ccontr)
  assume "part M n es \<noteq> p"
  then consider "part M n es < p" | "p < part M n es" by linarith
  then show False
  proof cases
    case 1
    then have "part M n es < length es" using assms(4) by simp
    then show False using part_iff [OF assms(1-3)] assms(5) 1 by blast
  next
    case 2
    then have "p < length es" using part_le [of M n es] by simp
    then show False using part_iff [OF assms(1-3)] assms(5) 2 by blast
  qed
qed

lemma part_all: "total.ordered M \<Longrightarrow> total.ordered es \<Longrightarrow> set es \<subseteq> set M \<Longrightarrow> part M (length M) es = length es"
  by (intro part_eqI) auto

text \<open>Exactly the owner of the next entry has one more entry.\<close>

lemma part_owner:
  assumes "total.ordered M" "total.ordered es" "set es \<subseteq> set M" "n < length M" "M ! n \<in> set es"
  shows "part M n es < length es \<and> es ! part M n es = M ! n \<and> part M (Suc n) es = Suc (part M n es)"
proof -
  obtain i where i: "i < length es" "es ! i = M ! n" using assms(5) by (auto simp: in_set_conv_nth)
  have "es ! j \<in> set (take n M) \<longleftrightarrow> j < i" "es ! j \<in> set (take (Suc n) M) \<longleftrightarrow> j < Suc i" if j: "j < length es" for j
  proof -
    obtain a where a: "a < length M" "es ! j = M ! a" using sub_nth [OF assms(3) j] .
    have lt: "j < i \<longleftrightarrow> a < n"
      using ordered_index [OF assms(2) j i(1)] ordered_index [OF assms(1) a(1) assms(4)] a i by simp
    have gt: "i < j \<longleftrightarrow> n < a"
      using ordered_index [OF assms(2) i(1) j] ordered_index [OF assms(1) assms(4) a(1)] a i by simp
    show "es ! j \<in> set (take n M) \<longleftrightarrow> j < i" unfolding a(2) lt by (rule mem_take_iff [OF assms(1) a(1)])
    show "es ! j \<in> set (take (Suc n) M) \<longleftrightarrow> j < Suc i"
      unfolding a(2) mem_take_iff [OF assms(1) a(1)] less_Suc_eq_le using gt by linarith
  qed
  then have "part M n es = i" "part M (Suc n) es = Suc i" using part_eqI [OF assms(1-3)] i(1) by auto
  then show ?thesis using i by simp
qed

lemma part_other:
  assumes "n < length M" "M ! n \<notin> set es"
  shows "part M (Suc n) es = part M n es"
  using assms unfolding part_def by (intro arg_cong [where f = length] takeWhile_cong) (auto simp: take_Suc_conv_app_nth)

lemma part_below:
  assumes "total.ordered M" "total.ordered es" "set es \<subseteq> set M" "keys k"
  shows "part M (total.below M k) es = total.below es k"
proof (rule part_eqI [OF assms(1-3)])
  fix i assume i: "i < length es"
  obtain a where a: "a < length M" "es ! i = M ! a" using sub_nth [OF assms(3) i] .
  show "es ! i \<in> set (take (total.below M k) M) \<longleftrightarrow> i < total.below es k"
    using mem_take_iff [OF assms(1) a(1)] total.below_iff [OF assms(1,4) a(1)] total.below_iff [OF assms(2,4) i] a(2) by simp
qed (rule total.below_le)

lemma part_upto:
  assumes "total.ordered M" "total.ordered es" "set es \<subseteq> set M" "keys k"
  shows "part M (total.upto M k) es = total.upto es k"
proof (rule part_eqI [OF assms(1-3)])
  fix i assume i: "i < length es"
  obtain a where a: "a < length M" "es ! i = M ! a" using sub_nth [OF assms(3) i] .
  show "es ! i \<in> set (take (total.upto M k) M) \<longleftrightarrow> i < total.upto es k"
    using mem_take_iff [OF assms(1) a(1)] total.upto_iff [OF assms(1,4) a(1)] total.upto_iff [OF assms(2,4) i] a(2) by simp
qed (rule total.below_le)

text \<open>The keys of the merged list itself.\<close>

lemma below_own:
  assumes "total.ordered M" "n < length M"
  shows "total.below M (fst (M ! n)) = n" "total.upto M (fst (M ! n)) = Suc n"
proof -
  have k: "keys (fst (M ! n))" using total.ordered_keys assms by blast
  have b: "i < total.below M (fst (M ! n)) \<longleftrightarrow> i < n" if "i < length M" for i
    using total.below_iff [OF assms(1) k that] ordered_index [OF assms(1) that assms(2)] by simp
  have u: "i < total.upto M (fst (M ! n)) \<longleftrightarrow> i < Suc n" if "i < length M" for i
  proof -
    have "cmp (fst (M ! i)) (fst (M ! n)) \<le> 0 \<longleftrightarrow> \<not> cmp (fst (M ! n)) (fst (M ! i)) < 0"
      using cmp_flip [of "fst (M ! n)" "fst (M ! i)"] total.ordered_keys assms that by fastforce
    then show ?thesis using total.upto_iff [OF assms(1) k that] ordered_index [OF assms(1,2) that] by auto
  qed
  have "total.below M (fst (M ! n)) \<le> length M" "total.upto M (fst (M ! n)) \<le> length M" by (rule total.below_le)+
  then show "total.below M (fst (M ! n)) = n" "total.upto M (fst (M ! n)) = Suc n"
    using b [of n] b [of "total.below M (fst (M ! n))"] u [of n] u [of "Suc n"] u [of "total.upto M (fst (M ! n))"] assms(2) by force+
qed

end

section \<open>Heaps of children\<close>

text \<open>The heap holds exactly the valid children, ordered by a relation \<open>R\<close> of their keys.\<close>

definition key_order :: "(bytes \<Rightarrow> bytes \<Rightarrow> bool) \<Rightarrow> 'i IteratorWrapper list \<Rightarrow> nat \<Rightarrow> nat \<Rightarrow> bool" where
  "key_order R cs a b = R (w_key (cs ! a)) (w_key (cs ! b))"

lemma comparators: "MinIteratorComparator cmp = key_order (\<lambda>a b. cmp a b > 0)" "MaxIteratorComparator cmp = key_order (\<lambda>a b. cmp a b < 0)"
  by (simp_all add: fun_eq_iff MinIteratorComparator_def MaxIteratorComparator_def key_order_def)

definition valid_children :: "'i IteratorWrapper list \<Rightarrow> nat set" where
  "valid_children cs = {j. j < length cs \<and> w_valid (cs ! j)}"

definition heap_of :: "(bytes \<Rightarrow> bytes \<Rightarrow> bool) \<Rightarrow> 'i IteratorWrapper list \<Rightarrow> nat set \<Rightarrow> nat BinaryHeap \<Rightarrow> bool" where
  "heap_of R cs D h \<longleftrightarrow> heap_inv (key_order R cs) h \<and> distinct (heap_data h) \<and> set (heap_data h) = valid_children cs \<inter> D"

lemma comparable_iff: "comparable cs js \<longleftrightarrow> set js \<subseteq> valid_children cs"
  by (auto simp: comparable_def valid_children_def list_all_iff)

text \<open>Only the comparisons of elements count, and those of the elements below the root.\<close>

lemma heap_inv_cong:
  assumes "heap_inv r0 h" "\<And>a b. a \<in> set (heap_data h) \<Longrightarrow> b \<in> set (heap_data h) \<Longrightarrow> r1 a b = r0 a b"
  shows "heap_inv r1 h"
proof -
  let ?d = "heap_data h"
  have e: "edge r1 ?d i = edge r0 ?d i" if "0 < i" "i < length ?d" for i
    using assms(2) [of "?d ! get_parent i" "?d ! i"] get_parent_less [OF that(1)] that(2) by (simp add: edge_def)
  have "larger_child r1 ?d 0 p" if "larger_child r0 ?d 0 p" for p
    using that assms(2) by (simp add: larger_child_def)
  then show ?thesis using assms(1) e by (simp add: heap_inv_def heap_ordered_def cache_valid_def)
qed

lemma heap_inv_below_cong:
  assumes "heap_inv r0 h" "\<And>a b. a \<in> set (tl (heap_data h)) \<Longrightarrow> b \<in> set (tl (heap_data h)) \<Longrightarrow> r1 a b = r0 a b"
  shows "heap_inv_below r1 h"
proof -
  let ?d = "heap_data h"
  have tl: "?d ! i \<in> set (tl ?d)" if "0 < i" "i < length ?d" for i
    using that by (cases ?d; cases i) auto
  have e: "edge r1 ?d i = edge r0 ?d i" if "0 < i" "i < length ?d" "get_parent i \<noteq> 0" for i
    using assms(2) [OF tl [of "get_parent i"] tl [OF that(1,2)]] get_parent_less [OF that(1)] that by (simp add: edge_def)
  have "larger_child r1 ?d 0 p" if "larger_child r0 ?d 0 p" for p
    using that assms(2) tl by (simp add: larger_child_def)
  then show ?thesis using assms(1) e by (simp add: heap_inv_def heap_inv_below_def heap_ordered_def cache_valid_def)
qed

definition key_weak_order :: "(bytes \<Rightarrow> bool) \<Rightarrow> (bytes \<Rightarrow> bytes \<Rightarrow> bool) \<Rightarrow> bool" where
  "key_weak_order keys R \<longleftrightarrow> (\<forall>a b. keys a \<longrightarrow> keys b \<longrightarrow> R a b \<longrightarrow> \<not> R b a) \<and>
     (\<forall>a b c. keys a \<longrightarrow> keys b \<longrightarrow> keys c \<longrightarrow> \<not> R a b \<longrightarrow> \<not> R b c \<longrightarrow> \<not> R a c)"

definition keyed :: "(bytes \<Rightarrow> bool) \<Rightarrow> 'i IteratorWrapper list \<Rightarrow> bool" where
  "keyed keys cs \<longleftrightarrow> (\<forall>j \<in> valid_children cs. keys (w_key (cs ! j)))"

lemma heap_order_children: "key_weak_order keys R \<Longrightarrow> keyed keys cs \<Longrightarrow> heap_order (valid_children cs) (key_order R cs)"
  unfolding heap_order_def key_weak_order_def keyed_def key_order_def by blast

lemma push_child:
  assumes R: "key_weak_order keys R" and "keyed keys cs" "heap_of R cs D h" "j \<in> valid_children cs" "j \<notin> D" "length cs \<le> kMaxSizet"
  shows "comparable cs (j # heap_data h) \<and> heap_of R cs (insert j D) (heap_push (key_order R cs) j h)"
proof -
  note o = heap_order_children [OF R assms(2)]
  have d: "set (heap_data h) \<subseteq> valid_children cs" "j \<notin> set (heap_data h)" using assms(3,5) by (auto simp: heap_of_def)
  have "card (insert j (set (heap_data h))) \<le> card {..<length cs}"
    using d(1) assms(4) by (intro card_mono) (auto simp: valid_children_def)
  then have "length (heap_data h) < kMaxSizet"
    using d(2) assms(6) distinct_card [of "heap_data h"] assms(3) by (simp add: heap_of_def del: Int_iff)
  then have p: "heap_inv (key_order R cs) (heap_push (key_order R cs) j h)"
    "mset (heap_data (heap_push (key_order R cs) j h)) = mset (j # heap_data h)"
    using heap_order.push_ok [OF o _ d(1) assms(4)] assms(3) by (simp_all add: heap_of_def)
  have "distinct (j # heap_data h)" using d(2) assms(3) by (simp add: heap_of_def)
  then have "distinct (heap_data (heap_push (key_order R cs) j h))" using p(2) mset_eq_imp_distinct_iff by blast
  moreover have "set (heap_data (heap_push (key_order R cs) j h)) = insert j (set (heap_data h))" using mset_eq_setD [OF p(2)] by simp
  ultimately show ?thesis using p(1) d(1) assms(3,4) by (auto simp: heap_of_def comparable_iff)
qed

lemma heap_of_update:
  assumes "heap_of R cs D h" "j \<notin> D"
  shows "heap_of R (cs[j := w]) D h"
proof -
  have j: "j \<notin> set (heap_data h)" using assms by (auto simp: heap_of_def)
  have "heap_inv (key_order R (cs[j := w])) h"
  proof (rule heap_inv_cong [of "key_order R cs" h])
    fix a b assume "a \<in> set (heap_data h)" "b \<in> set (heap_data h)"
    then have "a \<noteq> j" "b \<noteq> j" using j by blast+
    then show "key_order R (cs[j := w]) a b = key_order R cs a b" by (simp add: key_order_def)
  qed (use assms(1) in \<open>simp add: heap_of_def\<close>)
  moreover have "(cs[j := w]) ! x = cs ! x" if "x \<in> D" for x using that assms(2) by (metis nth_list_update_neq)
  then have "valid_children (cs[j := w]) \<inter> D = valid_children cs \<inter> D" by (auto simp: valid_children_def)
  ultimately show ?thesis using assms(1) by (simp add: heap_of_def)
qed

lemma heap_of_skip: "heap_of R cs D h \<Longrightarrow> j \<notin> valid_children cs \<Longrightarrow> heap_of R cs (insert j D) h"
  by (auto simp: heap_of_def)

text \<open>When the child at the top has moved, the heap is put in order again.\<close>

lemma settle_top_ok:
  assumes R: "key_weak_order keys R" and "keyed keys (cs[c := w])" "heap_of R cs UNIV h" "heap_top h = Some c" "c < length cs"
  shows "\<exists>h'. settle_top (key_order R) (cs[c := w]) c h = Some h' \<and> heap_of R (cs[c := w]) UNIV h'"
proof -
  let ?cs = "cs[c := w]" let ?d = "heap_data h"
  note o = heap_order_children [OF R assms(2)]
  have ne: "?d \<noteq> []" and hd: "hd ?d = c" using assms(4) by (auto simp: heap_top_def heap_empty_def split: if_splits)
  have d: "distinct ?d" "set ?d = valid_children cs" using assms(3) by (auto simp: heap_of_def)
  have split: "?d = c # tl ?d" using ne hd by (cases ?d) auto
  have tl: "c \<notin> set (tl ?d)" "distinct (tl ?d)" using d(1) split by (metis distinct.simps(2))+
  have sub: "set (tl ?d) = valid_children ?cs - {c}"
  proof -
    have "set (tl ?d) = valid_children cs - {c}" using d(2) split tl(1) by (metis Diff_insert_absorb list.simps(15))
    then show ?thesis using assms(5) by (auto simp: valid_children_def nth_list_update split: if_splits)
  qed
  have below: "heap_inv_below (key_order R ?cs) h"
  proof (rule heap_inv_below_cong [of "key_order R cs" h])
    fix a b assume "a \<in> set (tl ?d)" "b \<in> set (tl ?d)"
    then have "a \<noteq> c" "b \<noteq> c" using tl(1) by blast+
    then show "key_order R ?cs a b = key_order R cs a b" by (simp add: key_order_def)
  qed (use assms(3) in \<open>simp add: heap_of_def\<close>)
  show ?thesis
  proof (cases "w_valid w")
    case True
    then have c: "c \<in> valid_children ?cs" using assms(5) by (simp add: valid_children_def)
    then have all: "set ?d \<subseteq> valid_children ?cs" using sub split by (metis Diff_subset insert_subset list.simps(15))
    obtain h' where h': "replace_top (key_order R ?cs) c h = Some h'" "heap_inv (key_order R ?cs) h'" "mset (heap_data h') = mset (c # tl ?d)"
      using heap_order.replace_top_ok [OF o below all c ne] by auto
    then have "distinct (heap_data h')" "set (heap_data h') = insert c (set (tl ?d))"
      using tl mset_eq_imp_distinct_iff [OF h'(3)] mset_eq_setD [OF h'(3)] by simp_all
    then show ?thesis using h'(1,2) True sub c assms(5) by (auto simp: settle_top_def comparable_iff heap_of_def)
  next
    case False
    then have c: "c \<notin> valid_children ?cs" using assms(5) by (simp add: valid_children_def)
    have "set (tl ?d) \<subseteq> valid_children ?cs" using sub by blast
    then obtain h' where h': "heap_pop (key_order R ?cs) h = Some h'" "heap_inv (key_order R ?cs) h'" "mset (heap_data h') = mset (tl ?d)"
      using heap_order.pop_ok [OF o below _ ne] by blast
    then have "distinct (heap_data h')" "set (heap_data h') = set (tl ?d)"
      using tl mset_eq_imp_distinct_iff [OF h'(3)] mset_eq_setD [OF h'(3)] by simp_all
    then show ?thesis using h'(1,2) False sub c assms(5) by (auto simp: settle_top_def comparable_iff heap_of_def)
  qed
qed

text \<open>The top is the child whose key is above those of all others, and there is none without valid children.\<close>

lemma heap_of_top:
  assumes "key_weak_order keys R" "keyed keys cs" "heap_of R cs UNIV h" "c \<in> valid_children cs"
    and "\<And>j. j \<in> valid_children cs \<Longrightarrow> j \<noteq> c \<Longrightarrow> R (w_key (cs ! j)) (w_key (cs ! c))"
  shows "heap_top h = Some c"
proof -
  have d: "set (heap_data h) = valid_children cs" "heap_inv (key_order R cs) h" using assms(3) by (auto simp: heap_of_def)
  then have ne: "heap_data h \<noteq> []" using assms(4) by auto
  have t: "heap_top h = Some (hd (heap_data h))" "largest (key_order R cs) (mset (heap_data h)) (hd (heap_data h))"
    using heap_order.top_of_heap [OF heap_order_children [OF assms(1,2)] d(2) _ ne] d(1) by simp_all
  then have "\<not> R (w_key (cs ! hd (heap_data h))) (w_key (cs ! c))" "hd (heap_data h) \<in> valid_children cs"
    using d(1) assms(4) ne by (auto simp: largest_def key_order_def)
  then show ?thesis using assms(5) t(1) by auto
qed

lemma heap_of_empty: "heap_of R cs UNIV h \<Longrightarrow> valid_children cs = {} \<Longrightarrow> heap_top h = None"
  by (simp add: heap_of_def heap_top_def heap_empty_def)

section \<open>Moving the children\<close>

text \<open>Handing iterators to the builder one after the other.\<close>

primrec add_iterators :: "'i InternalIterator \<Rightarrow> 'i list \<Rightarrow> 'i MergeIteratorBuilder \<Rightarrow> 'i MergeIteratorBuilder option" where
  "add_iterators ops [] b = Some b"
| "add_iterators ops (i # its) b = Option.bind (AddIterator_builder ops i b) (add_iterators ops its)"

context internal_iterators
begin

lemma weak_orders: "key_weak_order keys (\<lambda>a b. cmp a b > 0)" "key_weak_order keys (\<lambda>a b. cmp a b < 0)"
proof -
  have flip: "cmp a b < 0 \<longleftrightarrow> cmp b a > 0" if "keys a" "keys b" for a b using cmp_flip that by blast
  have trans: "\<not> cmp a c < 0" if "keys a" "keys b" "keys c" "\<not> cmp a b < 0" "\<not> cmp b c < 0" for a b c
    using cmp_not_less [of a b] cmp_not_less [of b c] cmp_not_less [of a c] cmp_trans [of c b a] that by blast
  show "key_weak_order keys (\<lambda>a b. cmp a b < 0)"
    unfolding key_weak_order_def using flip trans by (metis less_asym')
  show "key_weak_order keys (\<lambda>a b. cmp a b > 0)"
    unfolding key_weak_order_def using flip trans by (metis less_asym')
qed

definition holds :: "'i IteratorWrapper \<Rightarrow> entries \<Rightarrow> nat option \<Rightarrow> bool" where
  "holds w es q \<longleftrightarrow> stands (w_iter w) es q \<and> w_valid w = (q \<noteq> None) \<and> (\<forall>p. q = Some p \<longrightarrow> w_key w = fst (es ! p))"

lemma holds_ordered: "holds w es q \<Longrightarrow> total.ordered es"
  using stands_sorted by (auto simp: holds_def total.ordered_def)

lemma holds_key: "holds w es (Some p) \<Longrightarrow> p < length es \<and> w_valid w \<and> w_key w = fst (es ! p) \<and> keys (w_key w)"
  using stands_entry [of "w_iter w" es p] total.ordered_keys [of es p] holds_ordered [of w es "Some p"] by (auto simp: holds_def)

lemma w_Update_ok:
  assumes "stands (w_iter w) es q"
  obtains w' where "w_Update ops w = Some w'" "holds w' es q"
proof (cases q)
  case None
  then show thesis using that assms stands_Valid [OF assms] by (simp add: w_Update_def holds_def)
next
  case (Some p)
  have v: "op_Valid ops (w_iter w)" "op_key ops (w_iter w) = Some (fst (es ! p))"
    using Some stands_Valid [OF assms] stands_entry [of _ es p] assms by auto
  then show thesis using that [of "w\<lparr>w_valid := True, w_key := fst (es ! p)\<rparr>"] assms Some by (simp add: w_Update_def holds_def Let_def)
qed

lemma w_move_ok:
  assumes "holds w es q" "move_target keys m" "cursor_move cmp es m q = Some q'"
  obtains w' where "w_move ops (ops_move ops m) w = Some w'" "holds w' es q'"
proof -
  have "stands (w_iter w) es q" using assms(1) by (simp add: holds_def)
  then obtain i where i: "ops_move ops m (w_iter w) = Some i" "stands i es q'" using stands_move assms(2,3) by blast
  then obtain w' where "w_Update ops (w\<lparr>w_iter := i\<rparr>) = Some w'" "holds w' es q'" using w_Update_ok [of "w\<lparr>w_iter := i\<rparr>" es q'] by auto
  then show thesis using that i(1) by (simp add: w_move_def)
qed

text \<open>All children are at the positions that \<open>pos\<close> gives for their lists.\<close>

definition all_at :: "'i IteratorWrapper list \<Rightarrow> entries list \<Rightarrow> (nat \<Rightarrow> nat option) \<Rightarrow> bool" where
  "all_at cs ess pos \<longleftrightarrow> length cs = length ess \<and> (\<forall>j < length ess. holds (cs ! j) (ess ! j) (pos j))"

lemma all_at_keyed: "all_at cs ess pos \<Longrightarrow> keyed keys cs"
  unfolding keyed_def
proof
  fix j assume a: "all_at cs ess pos" and j: "j \<in> valid_children cs"
  then have h: "holds (cs ! j) (ess ! j) (pos j)" "w_valid (cs ! j)" by (auto simp: all_at_def valid_children_def)
  then obtain p where "pos j = Some p" by (auto simp: holds_def)
  then show "keys (w_key (cs ! j))" using holds_key h(1) by metis
qed

lemma all_atD: "all_at cs ess pos \<Longrightarrow> j < length ess \<Longrightarrow> holds (cs ! j) (ess ! j) (pos j)"
  by (simp add: all_at_def)

lemma all_at_cong: "all_at cs ess pos \<Longrightarrow> (\<And>j. j < length ess \<Longrightarrow> pos' j = pos j) \<Longrightarrow> all_at cs ess pos'"
  by (simp add: all_at_def)

lemma all_at_update:
  "all_at cs ess pos \<Longrightarrow> j < length ess \<Longrightarrow> holds w (ess ! j) q \<Longrightarrow> all_at (cs[j := w]) ess (pos(j := q))"
  by (auto simp: all_at_def nth_list_update)

lemma each_child_ok:
  assumes R: "key_weak_order keys R" and f: "\<And>j. j < length ess \<Longrightarrow> \<exists>w. f j (cs0 ! j) = Some w \<and> holds w (ess ! j) (pos j)"
    and small: "length ess \<le> kMaxSizet"
  shows "distinct js \<Longrightarrow> set js \<subseteq> {..<length ess} \<Longrightarrow> all_at cs ess (\<lambda>j. if j \<in> set js then pos0 j else pos j) \<Longrightarrow>
    (\<forall>j \<in> set js. cs ! j = cs0 ! j) \<Longrightarrow> heap_of R cs ({..<length ess} - set js) h \<Longrightarrow>
    \<exists>cs' h'. each_child f (key_order R) js cs h = Some (cs', h') \<and> all_at cs' ess pos \<and> heap_of R cs' {..<length ess} h'"
proof (induction js arbitrary: cs h)
  case (Cons j js)
  let ?D = "{..<length ess} - set (j # js)"
  have j: "j < length ess" "j \<notin> set js" "j < length cs" using Cons.prems(1,2,3) by (auto simp: all_at_def)
  obtain w where w: "f j (cs ! j) = Some w" "holds w (ess ! j) (pos j)" using f [OF j(1)] Cons.prems(4) by auto
  let ?cs = "cs[j := w]"
  have "(\<lambda>i. if i \<in> set (j # js) then pos0 i else pos i)(j := pos j) = (\<lambda>i. if i \<in> set js then pos0 i else pos i)"
    using j(2) by (intro ext) simp
  then have at: "all_at ?cs ess (\<lambda>i. if i \<in> set js then pos0 i else pos i)"
    using all_at_update [OF Cons.prems(3) j(1) w(2)] by (simp only:)
  have keep: "\<forall>i \<in> set js. ?cs ! i = cs0 ! i" using Cons.prems(4) j(2,3) by (auto simp: nth_list_update)
  have h: "heap_of R ?cs ?D h" by (rule heap_of_update [OF Cons.prems(5)]) simp
  have ins: "insert j ?D = {..<length ess} - set js" using j by auto
  have "\<exists>h1. heap_of R ?cs ({..<length ess} - set js) h1 \<and> each_child f (key_order R) (j # js) cs h = each_child f (key_order R) js ?cs h1"
  proof (cases "w_valid w")
    case True
    then have "j \<in> valid_children ?cs" using j(3) by (simp add: valid_children_def)
    moreover have "length ?cs \<le> kMaxSizet" using small Cons.prems(3) by (simp add: all_at_def)
    ultimately have "comparable ?cs (j # heap_data h)" "heap_of R ?cs (insert j ?D) (heap_push (key_order R ?cs) j h)"
      using push_child [OF R all_at_keyed [OF at] h, of j] by simp_all
    then show ?thesis using True w(1) unfolding ins by (auto simp: Let_def)
  next
    case False
    then have "heap_of R ?cs (insert j ?D) h" by (intro heap_of_skip [OF h]) (simp add: valid_children_def)
    then show ?thesis using False w(1) unfolding ins by (auto simp: Let_def)
  qed
  then show ?case using Cons.IH [OF _ _ at keep] Cons.prems(1,2) by auto
qed auto

lemma heap_of_UNIV: "length cs = n \<Longrightarrow> heap_of R cs {..<n} h \<longleftrightarrow> heap_of R cs UNIV h"
proof -
  assume "length cs = n"
  then have "valid_children cs \<inter> {..<n} = valid_children cs" by (auto simp: valid_children_def)
  then show ?thesis by (simp add: heap_of_def)
qed

lemma heap_of_none: "heap_data h = [] \<Longrightarrow> heap_inv (key_order R cs) h \<Longrightarrow> heap_of R cs {} h"
  by (simp add: heap_of_def)

lemma heap_clear_inv: "heap_inv r (heap_clear h)" "heap_data (heap_clear h) = []"
  using heap_inv_empty by (simp_all add: heap_clear_def reset_root_cmp_cache_def)

lemma make_heap_inv: "heap_inv r make_BinaryHeap" "heap_data make_BinaryHeap = []"
  by (simp_all add: make_BinaryHeap_def heap_inv_def heap_ordered_def cache_valid_def)

text \<open>Filling a heap from the start.\<close>

lemma fill_children:
  assumes R: "key_weak_order keys R" and "all_at cs ess pos0" "length ess \<le> kMaxSizet"
    and f: "\<And>j. j < length ess \<Longrightarrow> \<exists>w. f j (cs ! j) = Some w \<and> holds w (ess ! j) (pos j)"
    and h: "heap_data h = []" "heap_inv (key_order R cs) h"
  shows "\<exists>cs' h'. each_child f (key_order R) [0..<length cs] cs h = Some (cs', h') \<and> all_at cs' ess pos \<and> heap_of R cs' UNIV h'"
proof -
  have len: "length cs = length ess" using assms(2) by (simp add: all_at_def)
  have a: "all_at cs ess (\<lambda>j. if j \<in> set [0..<length ess] then pos0 j else pos j)" using assms(2) by (simp add: all_at_def)
  have b: "heap_of R cs ({..<length ess} - set [0..<length ess]) h" using heap_of_none [OF h] by (simp add: lessThan_atLeast0)
  have c: "set [0..<length ess] \<subseteq> {..<length ess}" "\<forall>j \<in> set [0..<length ess]. cs ! j = cs ! j" by auto
  obtain cs' h' where r: "each_child f (key_order R) [0..<length ess] cs h = Some (cs', h')" "all_at cs' ess pos" "heap_of R cs' {..<length ess} h'"
    using each_child_ok [where js = "[0..<length ess]" and cs = cs and h = h and ess = ess and ?cs0.0 = cs and pos = pos and f = f, OF R f assms(3) distinct_upt c(1) a c(2) b] by blast
  moreover have "length cs' = length ess" using r(2) by (simp add: all_at_def)
  ultimately show ?thesis using heap_of_UNIV len by auto
qed

definition forward_at :: "'i MergingIterator \<Rightarrow> entries list \<Rightarrow> entries \<Rightarrow> nat \<Rightarrow> bool" where
  "forward_at m ess M n \<longleftrightarrow> direction m = kForward \<and> all_at (children m) ess (\<lambda>j. pos_after M n (ess ! j)) \<and>
     heap_of (\<lambda>a b. cmp a b > 0) (children m) UNIV (minHeap m)"

definition reverse_at :: "'i MergingIterator \<Rightarrow> entries list \<Rightarrow> entries \<Rightarrow> nat \<Rightarrow> bool" where
  "reverse_at m ess M n \<longleftrightarrow> direction m = kReverse \<and> all_at (children m) ess (\<lambda>j. pos_before M n (ess ! j)) \<and>
     (\<exists>h. maxHeap m = Some h \<and> heap_of (\<lambda>a b. cmp a b < 0) (children m) UNIV h)"

lemma fill_forward_ok:
  assumes "all_at (children m) ess pos0" "length ess \<le> kMaxSizet"
    and "\<And>j. j < length ess \<Longrightarrow> \<exists>w. f j (children m ! j) = Some w \<and> holds w (ess ! j) (pos_after M n (ess ! j))"
  obtains m' where "fill_forward cmp f m = Some m'" "forward_at m' ess M n" "current m' = current m" "prefix_seek_mode m' = prefix_seek_mode m"
proof -
  obtain cs h where "each_child f (MinIteratorComparator cmp) [0..<length (children m)] (children m) (heap_clear (minHeap m)) = Some (cs, h)"
    "all_at cs ess (\<lambda>j. pos_after M n (ess ! j))" "heap_of (\<lambda>a b. cmp a b > 0) cs UNIV h"
    using fill_children [where f = f and pos = "\<lambda>j. pos_after M n (ess ! j)", OF weak_orders(1) assms heap_clear_inv(2,1)] unfolding comparators by blast
  then show thesis using that by (simp add: fill_forward_def ClearHeaps_def Let_def forward_at_def)
qed

lemma fill_reverse_ok:
  assumes "all_at (children m) ess pos0" "length ess \<le> kMaxSizet"
    and "\<And>j. j < length ess \<Longrightarrow> \<exists>w. f j (children m ! j) = Some w \<and> holds w (ess ! j) (pos_before M n (ess ! j))"
  obtains m' where "fill_reverse cmp f m = Some m'" "reverse_at m' ess M n" "current m' = current m" "prefix_seek_mode m' = prefix_seek_mode m"
proof -
  define m1 where "m1 = InitMaxHeap (ClearHeaps m)"
  obtain h0 where m1: "maxHeap m1 = Some h0" "heap_data h0 = []" "\<And>r. heap_inv r h0"
    by (cases "maxHeap m") (auto simp: m1_def InitMaxHeap_def ClearHeaps_def heap_clear_inv make_heap_inv)
  have same: "children m1 = children m" "current m1 = current m" "prefix_seek_mode m1 = prefix_seek_mode m"
    by (simp_all add: m1_def InitMaxHeap_def ClearHeaps_def)
  obtain cs h where "each_child f (MaxIteratorComparator cmp) [0..<length (children m)] (children m) h0 = Some (cs, h)"
    "all_at cs ess (\<lambda>j. pos_before M n (ess ! j))" "heap_of (\<lambda>a b. cmp a b < 0) cs UNIV h"
    using fill_children [where f = f and pos = "\<lambda>j. pos_before M n (ess ! j)", OF weak_orders(2) assms m1(2,3)] unfolding comparators by blast
  then show thesis using that m1(1) same by (simp add: fill_reverse_def m1_def [symmetric] Let_def reverse_at_def)
qed

lemma merged_child:
  assumes "merged ess M" "j < length ess"
  shows "total.ordered M" "total.ordered (ess ! j)" "set (ess ! j) \<subseteq> set M"
proof -
  have "mset M = mset (concat ess)" using assms(1) by (simp add: merged_def)
  then have "set M = set (concat ess)" by (rule mset_eq_setD)
  then show "total.ordered M" "total.ordered (ess ! j)" "set (ess ! j) \<subseteq> set M"
    using assms by (auto simp: merged_def list_all_length)
qed

lemma merged_owner:
  assumes "merged ess M" "n < length M"
  obtains c where "c < length ess" "M ! n \<in> set (ess ! c)" "\<And>j. j < length ess \<Longrightarrow> M ! n \<in> set (ess ! j) \<Longrightarrow> j = c"
proof -
  have ms: "mset M = mset (concat ess)" and o: "total.ordered M" using assms(1) by (auto simp: merged_def)
  have d: "distinct (concat ess)" using ordered_distinct [OF o] mset_eq_imp_distinct_iff [OF ms] by simp
  have "M ! n \<in> set (concat ess)" using assms(2) mset_eq_setD [OF ms] nth_mem by metis
  then obtain es where "es \<in> set ess" "M ! n \<in> set es" by auto
  then obtain c where c: "c < length ess" "M ! n \<in> set (ess ! c)" by (metis in_set_conv_nth)
  then show thesis using that [OF c] distinct_concat_owner [OF d _ c(1) _ c(2)] by blast
qed

lemma part_others:
  assumes "merged ess M" "n < length M" "c < length ess" "M ! n \<in> set (ess ! c)" "j < length ess" "j \<noteq> c"
  shows "M ! n \<notin> set (ess ! j) \<and> part M (Suc n) (ess ! j) = part M n (ess ! j)"
proof -
  obtain c' where "\<And>j. j < length ess \<Longrightarrow> M ! n \<in> set (ess ! j) \<Longrightarrow> j = c'" using merged_owner [OF assms(1,2)] by blast
  then have "M ! n \<notin> set (ess ! j)" using assms(3-6) by blast
  then show ?thesis using part_other [OF assms(2)] by blast
qed

text \<open>The entry at which a child stands lies behind, or before, the boundary.\<close>

lemma pos_after_entry:
  assumes "merged ess M" "j < length ess" "pos_after M n (ess ! j) = Some p"
  obtains b where "n \<le> b" "b < length M" "ess ! j ! p = M ! b"
proof -
  note c = merged_child [OF assms(1,2)]
  have p: "p < length (ess ! j)" "\<not> p < part M n (ess ! j)" using assms(3) by (auto simp: pos_after_def split: if_splits)
  obtain b where b: "b < length M" "ess ! j ! p = M ! b" using sub_nth [OF c(3) p(1)] .
  then show thesis using that [of b] part_iff [OF c p(1), of n] mem_take_iff [OF c(1) b(1), of n] p(2) by simp
qed

lemma pos_before_entry:
  assumes "merged ess M" "j < length ess" "pos_before M n (ess ! j) = Some p"
  obtains b where "b < n" "b < length M" "ess ! j ! p = M ! b"
proof -
  note c = merged_child [OF assms(1,2)]
  have p: "p < part M n (ess ! j)" using assms(3) by (auto simp: pos_before_def split: if_splits)
  then have l: "p < length (ess ! j)" using part_le [of M n "ess ! j"] by simp
  obtain b where b: "b < length M" "ess ! j ! p = M ! b" using sub_nth [OF c(3) l] .
  then show thesis using that [of b] part_iff [OF c l, of n] mem_take_iff [OF c(1) b(1), of n] p by simp
qed

text \<open>The top of the heap is the owner of the entry at the boundary.\<close>

lemma forward_top:
  assumes mg: "merged ess M" and at: "forward_at m ess M n" and c: "n < length M" "c < length ess" "M ! n \<in> set (ess ! c)"
  shows "heap_top (minHeap m) = Some c \<and> pos_after M n (ess ! c) = Some (part M n (ess ! c)) \<and> ess ! c ! part M n (ess ! c) = M ! n"
proof -
  have all: "all_at (children m) ess (\<lambda>j. pos_after M n (ess ! j))" and h: "heap_of (\<lambda>a b. cmp a b > 0) (children m) UNIV (minHeap m)"
    using at by (auto simp: forward_at_def)
  note own = part_owner [OF merged_child [OF mg c(2)] c(1,3)]
  have pos: "pos_after M n (ess ! c) = Some (part M n (ess ! c))" using own by (simp add: pos_after_def)
  have hc: "holds (children m ! c) (ess ! c) (Some (part M n (ess ! c)))" using all_atD [OF all c(2)] pos by simp
  then have vc: "c \<in> valid_children (children m)" "w_key (children m ! c) = fst (M ! n)"
    using holds_key [OF hc] own all c(2) by (auto simp: valid_children_def all_at_def)
  have "cmp (w_key (children m ! j)) (w_key (children m ! c)) > 0" if j: "j \<in> valid_children (children m)" "j \<noteq> c" for j
  proof -
    have jl: "j < length ess" and hj: "holds (children m ! j) (ess ! j) (pos_after M n (ess ! j))" "w_valid (children m ! j)"
      using j(1) all by (auto simp: valid_children_def all_at_def)
    then obtain p where p: "pos_after M n (ess ! j) = Some p" by (auto simp: holds_def)
    obtain b where b: "n \<le> b" "b < length M" "ess ! j ! p = M ! b" using pos_after_entry [OF mg jl p] .
    have pl: "p < length (ess ! j)" "w_key (children m ! j) = fst (M ! b)" using holds_key hj(1) p b(3) by metis+
    have "b \<noteq> n"
    proof
      assume "b = n"
      then have "M ! n \<in> set (ess ! j)" using b(3) pl(1) nth_mem by metis
      then show False using part_others [OF mg c jl j(2)] by simp
    qed
    then have "cmp (fst (M ! n)) (fst (M ! b)) < 0" using ordered_index [OF merged_child(1) [OF mg jl] c(1) b(2)] b(1) by simp
    then show ?thesis using cmp_flip [of "fst (M ! n)" "fst (M ! b)"] total.ordered_keys [OF merged_child(1) [OF mg jl]] c(1) b(2) pl(2) vc(2) by simp
  qed
  then show ?thesis using heap_of_top [OF weak_orders(1) all_at_keyed [OF all] h vc(1)] pos own by blast
qed

lemma reverse_top:
  assumes mg: "merged ess M" and at: "reverse_at m ess M (Suc n)" "maxHeap m = Some h" and c: "n < length M" "c < length ess" "M ! n \<in> set (ess ! c)"
  shows "heap_top h = Some c \<and> pos_before M (Suc n) (ess ! c) = Some (part M n (ess ! c)) \<and> ess ! c ! part M n (ess ! c) = M ! n"
proof -
  have all: "all_at (children m) ess (\<lambda>j. pos_before M (Suc n) (ess ! j))" and h: "heap_of (\<lambda>a b. cmp a b < 0) (children m) UNIV h"
    using at by (auto simp: reverse_at_def)
  note own = part_owner [OF merged_child [OF mg c(2)] c(1,3)]
  have pos: "pos_before M (Suc n) (ess ! c) = Some (part M n (ess ! c))" using own by (simp add: pos_before_def)
  have hc: "holds (children m ! c) (ess ! c) (Some (part M n (ess ! c)))" using all_atD [OF all c(2)] pos by simp
  then have vc: "c \<in> valid_children (children m)" "w_key (children m ! c) = fst (M ! n)"
    using holds_key [OF hc] own all c(2) by (auto simp: valid_children_def all_at_def)
  have "cmp (w_key (children m ! j)) (w_key (children m ! c)) < 0" if j: "j \<in> valid_children (children m)" "j \<noteq> c" for j
  proof -
    have jl: "j < length ess" and hj: "holds (children m ! j) (ess ! j) (pos_before M (Suc n) (ess ! j))" "w_valid (children m ! j)"
      using j(1) all by (auto simp: valid_children_def all_at_def)
    then obtain p where p: "pos_before M (Suc n) (ess ! j) = Some p" by (auto simp: holds_def)
    obtain b where b: "b < Suc n" "b < length M" "ess ! j ! p = M ! b" using pos_before_entry [OF mg jl p] .
    have pl: "p < length (ess ! j)" "w_key (children m ! j) = fst (M ! b)" using holds_key hj(1) p b(3) by metis+
    have "b \<noteq> n"
    proof
      assume "b = n"
      then have "M ! n \<in> set (ess ! j)" using b(3) pl(1) nth_mem by metis
      then show False using part_others [OF mg c jl j(2)] by simp
    qed
    then show ?thesis using ordered_index [OF merged_child(1) [OF mg jl] b(2) c(1)] b(1) pl(2) vc(2) by simp
  qed
  then show ?thesis using heap_of_top [OF weak_orders(2) all_at_keyed [OF all] h vc(1)] pos own by blast
qed

text \<open>Behind the last entry, and before the first one, no child is valid.\<close>

lemma all_invalid:
  assumes "all_at cs ess pos" "\<And>j. j < length ess \<Longrightarrow> pos j = None" "heap_of R cs UNIV h"
  shows "heap_top h = None"
proof -
  have "valid_children cs = {}" using assms(1,2) by (auto simp: valid_children_def all_at_def holds_def)
  then show ?thesis by (rule heap_of_empty [OF assms(3)])
qed

section \<open>The merging iterator is a cursor\<close>

definition merging_stands :: "'i MergingIterator \<Rightarrow> entries \<Rightarrow> nat option \<Rightarrow> bool" where
  "merging_stands m M q \<longleftrightarrow> (\<exists>ess pos. merged ess M \<and> length ess \<le> kMaxSizet \<and> all_at (children m) ess pos \<and>
     (case q of
        None \<Rightarrow> current m = None
      | Some n \<Rightarrow> n < length M \<and> (\<exists>c < length ess. current m = Some c \<and> M ! n \<in> set (ess ! c)) \<and> (forward_at m ess M n \<or> reverse_at m ess M (Suc n))))"

lemma arrive_forward:
  assumes mg: "merged ess M" and small: "length ess \<le> kMaxSizet" and at: "forward_at m ess M n" and n: "n \<le> length M"
  shows "\<exists>m'. set_current_forward m = Some m' \<and> merging_stands m' M (if n < length M then Some n else None)"
proof -
  define m' where "m' = m\<lparr>current := heap_top (minHeap m)\<rparr>"
  have m': "set_current_forward m = Some m'" using at by (simp add: set_current_forward_def CurrentForward_def forward_at_def m'_def)
  have at': "forward_at m' ess M n" using at by (simp add: forward_at_def m'_def)
  have all: "all_at (children m') ess (\<lambda>j. pos_after M n (ess ! j))" using at' by (simp add: forward_at_def)
  show ?thesis
  proof (cases "n < length M")
    case True
    obtain c where c: "c < length ess" "M ! n \<in> set (ess ! c)" using merged_owner [OF mg True] .
    then have "current m' = Some c" using forward_top [OF mg at True c] by (simp add: m'_def)
    then show ?thesis using m' True c at' mg small all unfolding merging_stands_def by auto
  next
    case False
    then have "part M n (ess ! j) = length (ess ! j)" if "j < length ess" for j using part_all [OF merged_child [OF mg that]] n by simp
    then have "current m' = None"
      using all_invalid [OF all, of "\<lambda>a b. cmp a b > 0" "minHeap m"] at by (simp add: m'_def pos_after_def forward_at_def)
    then show ?thesis using m' False mg small all unfolding merging_stands_def by auto
  qed
qed

lemma arrive_reverse:
  assumes mg: "merged ess M" and small: "length ess \<le> kMaxSizet" and at: "reverse_at m ess M n" and n: "n \<le> length M"
  shows "\<exists>m'. set_current_reverse m = Some m' \<and> merging_stands m' M (if n = 0 then None else Some (n - 1))"
proof -
  obtain h where h: "maxHeap m = Some h" "heap_of (\<lambda>a b. cmp a b < 0) (children m) UNIV h" using at by (auto simp: reverse_at_def)
  define m' where "m' = m\<lparr>current := heap_top h\<rparr>"
  have m': "set_current_reverse m = Some m'" using at h by (simp add: set_current_reverse_def CurrentReverse_def reverse_at_def m'_def)
  have at': "reverse_at m' ess M n" using at by (simp add: reverse_at_def m'_def)
  have all: "all_at (children m') ess (\<lambda>j. pos_before M n (ess ! j))" using at' by (simp add: reverse_at_def)
  show ?thesis
  proof (cases n)
    case (Suc k)
    then have k: "k < length M" using n by simp
    obtain c where c: "c < length ess" "M ! k \<in> set (ess ! c)" using merged_owner [OF mg k] .
    then have "current m' = Some c" using reverse_top [OF mg at [unfolded Suc] h(1) k c] by (simp add: m'_def)
    then show ?thesis using m' Suc k c at' mg small all unfolding merging_stands_def by auto
  next
    case 0
    then have "current m' = None"
      using all_invalid [OF all, of "\<lambda>a b. cmp a b < 0" h] h(2) by (simp add: m'_def pos_before_def)
    then show ?thesis using m' 0 mg small all unfolding merging_stands_def by auto
  qed
qed

text \<open>Where the moves of a cursor lead, in terms of the merged list.\<close>

lemma cursor_seeks:
  assumes "merged ess M" "j < length ess"
  shows "cursor_move cmp (ess ! j) ToFirst q = Some (pos_after M 0 (ess ! j))"
    "cursor_move cmp (ess ! j) ToLast q = Some (pos_before M (length M) (ess ! j))"
    "keys k \<Longrightarrow> cursor_move cmp (ess ! j) (SeekTo k) q = Some (pos_after M (total.below M k) (ess ! j))"
    "keys k \<Longrightarrow> cursor_move cmp (ess ! j) (SeekBackTo k) q = Some (pos_before M (total.upto M k) (ess ! j))"
proof -
  note c = merged_child [OF assms]
  show "cursor_move cmp (ess ! j) ToFirst q = Some (pos_after M 0 (ess ! j))" by (simp add: pos_after_def)
  show "cursor_move cmp (ess ! j) ToLast q = Some (pos_before M (length M) (ess ! j))" by (simp add: pos_before_def part_all [OF c])
  show "keys k \<Longrightarrow> cursor_move cmp (ess ! j) (SeekTo k) q = Some (pos_after M (total.below M k) (ess ! j))"
    by (simp add: pos_after_def part_below [OF c] Let_def) (simp add: total.below_def)
  show "keys k \<Longrightarrow> cursor_move cmp (ess ! j) (SeekBackTo k) q = Some (pos_before M (total.upto M k) (ess ! j))"
    by (simp add: pos_before_def part_upto [OF c] Let_def) (simp add: total.upto_def)
qed

lemma merging_seeks:
  assumes st: "merging_stands m M q" and mt: "move_target keys mv" and mv: "mv \<noteq> Forward" "mv \<noteq> Backward"
    and q: "cursor_move cmp M mv q = Some q'"
  shows "\<exists>m'. ops_move (MergingIterator_ops cmp ops) mv m = Some m' \<and> merging_stands m' M q'"
proof -
  obtain ess pos where s: "merged ess M" "length ess \<le> kMaxSizet" "all_at (children m) ess pos" using st by (auto simp: merging_stands_def)
  have child: "\<exists>w. w_move ops (ops_move ops mv) (children m ! j) = Some w \<and> holds w (ess ! j) q''"
    if "j < length ess" "cursor_move cmp (ess ! j) mv (pos j) = Some q''" for j q''
    using w_move_ok [OF all_atD [OF s(3) that(1)] mt that(2)] by blast
  have fwd: "\<exists>m'. do { m \<leftarrow> fill_forward cmp (\<lambda>j. w_move ops (ops_move ops mv)) m; set_current_forward m } = Some m' \<and>
      merging_stands m' M (if n < length M then Some n else None)"
    if le: "n \<le> length M" and to: "\<And>j. j < length ess \<Longrightarrow> cursor_move cmp (ess ! j) mv (pos j) = Some (pos_after M n (ess ! j))" for n
  proof -
    have each: "\<exists>w. w_move ops (ops_move ops mv) (children m ! j) = Some w \<and> holds w (ess ! j) (pos_after M n (ess ! j))"
      if "j < length ess" for j using child [OF that to [OF that]] .
    obtain m1 where m1: "fill_forward cmp (\<lambda>j. w_move ops (ops_move ops mv)) m = Some m1" "forward_at m1 ess M n"
      "current m1 = current m" "prefix_seek_mode m1 = prefix_seek_mode m"
      using fill_forward_ok [where f = "\<lambda>j. w_move ops (ops_move ops mv)" and M = M and n = n, OF s(3,2) each] .
    then show ?thesis using arrive_forward [OF s(1,2) m1(2) le] by simp
  qed
  have rev: "\<exists>m'. do { m \<leftarrow> fill_reverse cmp (\<lambda>j. w_move ops (ops_move ops mv)) m; set_current_reverse m } = Some m' \<and>
      merging_stands m' M (if n = 0 then None else Some (n - 1))"
    if le: "n \<le> length M" and to: "\<And>j. j < length ess \<Longrightarrow> cursor_move cmp (ess ! j) mv (pos j) = Some (pos_before M n (ess ! j))" for n
  proof -
    have each: "\<exists>w. w_move ops (ops_move ops mv) (children m ! j) = Some w \<and> holds w (ess ! j) (pos_before M n (ess ! j))"
      if "j < length ess" for j using child [OF that to [OF that]] .
    obtain m1 where m1: "fill_reverse cmp (\<lambda>j. w_move ops (ops_move ops mv)) m = Some m1" "reverse_at m1 ess M n"
      "current m1 = current m" "prefix_seek_mode m1 = prefix_seek_mode m"
      using fill_reverse_ok [where f = "\<lambda>j. w_move ops (ops_move ops mv)" and M = M and n = n, OF s(3,2) each] .
    then show ?thesis using arrive_reverse [OF s(1,2) m1(2) le] by simp
  qed
  note seeks = cursor_seeks [OF s(1)]
  show ?thesis
  proof (cases mv)
    case ToFirst
    then show ?thesis using fwd [of 0] seeks(1) q by (auto simp: MergingIterator_ops_def SeekToFirst_merging_def)
  next
    case ToLast
    then show ?thesis using rev [of "length M"] seeks(2) q by (auto simp: MergingIterator_ops_def SeekToLast_merging_def)
  next
    case (SeekTo k)
    then have "q' = (if total.below M k < length M then Some (total.below M k) else None)" using q by (auto simp: total.below_def Let_def)
    then show ?thesis using fwd [of "total.below M k"] seeks(3) [of _ k] SeekTo mt total.below_le(1) [of M k]
      by (simp add: MergingIterator_ops_def Seek_merging_def)
  next
    case (SeekBackTo k)
    then have "q' = (if total.upto M k = 0 then None else Some (total.upto M k - 1))" using q by (auto simp: total.upto_def Let_def)
    then show ?thesis using rev [of "total.upto M k"] seeks(4) [of _ k] SeekBackTo mt total.below_le(2) [of M k]
      by (simp add: MergingIterator_ops_def SeekForPrev_merging_def)
  qed (use mv in auto)
qed

lemma step_forward:
  assumes mg: "merged ess M" and small: "length ess \<le> kMaxSizet" and at: "forward_at m ess M n" and c: "n < length M" "c < length ess" "M ! n \<in> set (ess ! c)"
  shows "\<exists>w h m'. w_move ops (op_Next ops) (children m ! c) = Some w \<and> settle_top (MinIteratorComparator cmp) ((children m)[c := w]) c (minHeap m) = Some h \<and>
    set_current_forward (m\<lparr>children := (children m)[c := w], minHeap := h\<rparr>) = Some m' \<and> merging_stands m' M (if Suc n < length M then Some (Suc n) else None)"
proof -
  have all: "all_at (children m) ess (\<lambda>j. pos_after M n (ess ! j))" and h: "heap_of (\<lambda>a b. cmp a b > 0) (children m) UNIV (minHeap m)" "direction m = kForward"
    using at by (auto simp: forward_at_def)
  note top = forward_top [OF mg at c]
  note own = part_owner [OF merged_child [OF mg c(2)] c(1,3)]
  have "cursor_move cmp (ess ! c) Forward (pos_after M n (ess ! c)) = Some (pos_after M (Suc n) (ess ! c))"
    using own by (simp add: pos_after_def)
  then obtain w where w: "w_move ops (op_Next ops) (children m ! c) = Some w" "holds w (ess ! c) (pos_after M (Suc n) (ess ! c))"
    using w_move_ok [OF all_atD [OF all c(2)], of Forward] by auto
  let ?cs = "(children m)[c := w]"
  have all': "all_at ?cs ess (\<lambda>j. pos_after M (Suc n) (ess ! j))"
  proof (rule all_at_cong [OF all_at_update [OF all c(2) w(2)]])
    fix j assume "j < length ess"
    then show "pos_after M (Suc n) (ess ! j) = ((\<lambda>j. pos_after M n (ess ! j))(c := pos_after M (Suc n) (ess ! c))) j"
      using part_others [OF mg c, of j] by (cases "j = c") (simp_all add: pos_after_def)
  qed
  have cl: "c < length (children m)" using all c(2) by (simp add: all_at_def)
  obtain h' where h': "settle_top (MinIteratorComparator cmp) ?cs c (minHeap m) = Some h'" "heap_of (\<lambda>a b. cmp a b > 0) ?cs UNIV h'"
    using settle_top_ok [OF weak_orders(1) all_at_keyed [OF all'] h(1) conjunct1 [OF top] cl] unfolding comparators by blast
  have "forward_at (m\<lparr>children := ?cs, minHeap := h'\<rparr>) ess M (Suc n)" using all' h'(2) h(2) by (simp add: forward_at_def)
  then show ?thesis using arrive_forward [OF mg small] w(1) h'(1) c(1) by (metis Suc_leI)
qed

lemma step_reverse:
  assumes mg: "merged ess M" and small: "length ess \<le> kMaxSizet" and at: "reverse_at m ess M (Suc n)" "maxHeap m = Some h"
    and c: "n < length M" "c < length ess" "M ! n \<in> set (ess ! c)"
  shows "\<exists>w h' m'. w_move ops (op_Prev ops) (children m ! c) = Some w \<and> settle_top (MaxIteratorComparator cmp) ((children m)[c := w]) c h = Some h' \<and>
    set_current_reverse (m\<lparr>children := (children m)[c := w], maxHeap := Some h'\<rparr>) = Some m' \<and> merging_stands m' M (if n = 0 then None else Some (n - 1))"
proof -
  have all: "all_at (children m) ess (\<lambda>j. pos_before M (Suc n) (ess ! j))" and h: "heap_of (\<lambda>a b. cmp a b < 0) (children m) UNIV h" "direction m = kReverse"
    using at by (auto simp: reverse_at_def)
  note top = reverse_top [OF mg at c]
  note own = part_owner [OF merged_child [OF mg c(2)] c(1,3)]
  have "cursor_move cmp (ess ! c) Backward (pos_before M (Suc n) (ess ! c)) = Some (pos_before M n (ess ! c))"
    using own by (simp add: pos_before_def)
  then obtain w where w: "w_move ops (op_Prev ops) (children m ! c) = Some w" "holds w (ess ! c) (pos_before M n (ess ! c))"
    using w_move_ok [OF all_atD [OF all c(2)], of Backward] by auto
  let ?cs = "(children m)[c := w]"
  have all': "all_at ?cs ess (\<lambda>j. pos_before M n (ess ! j))"
  proof (rule all_at_cong [OF all_at_update [OF all c(2) w(2)]])
    fix j assume "j < length ess"
    then show "pos_before M n (ess ! j) = ((\<lambda>j. pos_before M (Suc n) (ess ! j))(c := pos_before M n (ess ! c))) j"
      using part_others [OF mg c, of j] by (cases "j = c") (simp_all add: pos_before_def)
  qed
  have cl: "c < length (children m)" using all c(2) by (simp add: all_at_def)
  obtain h' where h': "settle_top (MaxIteratorComparator cmp) ?cs c h = Some h'" "heap_of (\<lambda>a b. cmp a b < 0) ?cs UNIV h'"
    using settle_top_ok [OF weak_orders(2) all_at_keyed [OF all'] h(1) conjunct1 [OF top] cl] unfolding comparators by blast
  have "reverse_at (m\<lparr>children := ?cs, maxHeap := Some h'\<rparr>) ess M n" using all' h'(2) h(2) by (simp add: reverse_at_def)
  from arrive_reverse [OF mg small this] show ?thesis using w(1) h'(1) c(1) by auto
qed

text \<open>Turning around brings every child to the same boundary.\<close>

lemma turn_forward_ok:
  assumes mg: "merged ess M" and c: "n < length M" "c < length ess" "M ! n \<in> set (ess ! c)" and j: "j < length ess" "j \<noteq> c"
    and w: "holds w (ess ! j) q"
  shows "\<exists>w'. turn_forward cmp ops (fst (M ! n)) w = Some w' \<and> holds w' (ess ! j) (pos_after M n (ess ! j))"
proof -
  let ?k = "fst (M ! n)"
  note ch = merged_child [OF mg j(1)]
  have k: "keys ?k" using total.ordered_keys [OF ch(1) c(1)] .
  have "cursor_move cmp (ess ! j) (SeekTo ?k) q = Some (pos_after M n (ess ! j))"
    using cursor_seeks(3) [OF mg j(1) k] below_own(1) [OF ch(1) c(1)] by simp
  then obtain w' where w': "w_move ops (op_Seek ops ?k) w = Some w'" "holds w' (ess ! j) (pos_after M n (ess ! j))"
    using w_move_ok [OF w, of "SeekTo ?k"] k by auto
  have "cmp ?k (w_key w') \<noteq> 0" if "w_valid w'"
  proof
    assume z: "cmp ?k (w_key w') = 0"
    obtain p where p: "pos_after M n (ess ! j) = Some p" using w'(2) \<open>w_valid w'\<close> by (auto simp: holds_def)
    have hk: "p < length (ess ! j)" "w_key w' = fst (ess ! j ! p)" "keys (w_key w')" using holds_key w'(2) p by metis+
    obtain b where b: "b < length M" "ess ! j ! p = M ! b" using pos_after_entry [OF mg j(1) p] by metis
    have "fst (M ! n) = fst (M ! b)" using z cmp_zero [OF k hk(3)] hk(2) b(2) by simp
    then have "n = b" using ordered_key_unique [OF ch(1) c(1) b(1)] by blast
    then have "M ! n \<in> set (ess ! j)" using b(2) hk(1) nth_mem by metis
    then show False using part_others [OF mg c j] by blast
  qed
  then show ?thesis using w' by (auto simp: turn_forward_def)
qed

lemma turn_reverse_ok:
  assumes mg: "merged ess M" and c: "n < length M" "c < length ess" "M ! n \<in> set (ess ! c)" and j: "j < length ess" "j \<noteq> c"
    and w: "holds w (ess ! j) q"
  shows "\<exists>w'. turn_reverse cmp ops mode (fst (M ! n)) w = Some w' \<and> holds w' (ess ! j) (pos_before M (Suc n) (ess ! j))"
proof -
  let ?k = "fst (M ! n)"
  note ch = merged_child [OF mg j(1)]
  have k: "keys ?k" using total.ordered_keys [OF ch(1) c(1)] .
  have same: "part M (Suc n) (ess ! j) = part M n (ess ! j)" using part_others [OF mg c j] by blast
  show ?thesis
  proof (cases mode)
    case False
    have "cursor_move cmp (ess ! j) (SeekTo ?k) q = Some (pos_after M n (ess ! j))"
      using cursor_seeks(3) [OF mg j(1) k] below_own(1) [OF ch(1) c(1)] by simp
    then obtain w1 where w1: "w_move ops (op_Seek ops ?k) w = Some w1" "holds w1 (ess ! j) (pos_after M n (ess ! j))"
      using w_move_ok [OF w, of "SeekTo ?k"] k by auto
    show ?thesis
    proof (cases "w_valid w1")
      case True
      then have p: "part M n (ess ! j) < length (ess ! j)" using w1(2) by (auto simp: holds_def pos_after_def split: if_splits)
      then have "cursor_move cmp (ess ! j) Backward (pos_after M n (ess ! j)) = Some (pos_before M (Suc n) (ess ! j))"
        by (simp add: pos_after_def pos_before_def same)
      then obtain w2 where "w_move ops (op_Prev ops) w1 = Some w2" "holds w2 (ess ! j) (pos_before M (Suc n) (ess ! j))"
        using w_move_ok [OF w1(2), of Backward] by auto
      then show ?thesis using False True w1(1) by (simp add: turn_reverse_def)
    next
      case gone: False
      then have p: "part M n (ess ! j) = length (ess ! j)"
        using w1(2) part_le [of M n "ess ! j"] by (auto simp: holds_def pos_after_def split: if_splits)
      have "cursor_move cmp (ess ! j) ToLast (pos_after M n (ess ! j)) = Some (pos_before M (Suc n) (ess ! j))"
        by (simp add: pos_before_def same p)
      then obtain w2 where "w_move ops (op_SeekToLast ops) w1 = Some w2" "holds w2 (ess ! j) (pos_before M (Suc n) (ess ! j))"
        using w_move_ok [OF w1(2), of ToLast] by auto
      then show ?thesis using False gone w1(1) by (simp add: turn_reverse_def)
    qed
  next
    case True
    have "cursor_move cmp (ess ! j) (SeekBackTo ?k) q = Some (pos_before M (Suc n) (ess ! j))"
      using cursor_seeks(4) [OF mg j(1) k] below_own(2) [OF ch(1) c(1)] by simp
    then obtain w' where w': "w_move ops (op_SeekForPrev ops ?k) w = Some w'" "holds w' (ess ! j) (pos_before M (Suc n) (ess ! j))"
      using w_move_ok [OF w, of "SeekBackTo ?k"] k by auto
    have "cmp ?k (w_key w') \<noteq> 0" if "w_valid w'"
    proof
      assume z: "cmp ?k (w_key w') = 0"
      obtain p where p: "pos_before M (Suc n) (ess ! j) = Some p" using w'(2) \<open>w_valid w'\<close> by (auto simp: holds_def)
      have hk: "p < length (ess ! j)" "w_key w' = fst (ess ! j ! p)" "keys (w_key w')" using holds_key w'(2) p by metis+
      obtain b where b: "b < length M" "ess ! j ! p = M ! b" using pos_before_entry [OF mg j(1) p] by metis
      have "fst (M ! n) = fst (M ! b)" using z cmp_zero [OF k hk(3)] hk(2) b(2) by simp
      then have "n = b" using ordered_key_unique [OF ch(1) c(1) b(1)] by blast
      then have "M ! n \<in> set (ess ! j)" using b(2) hk(1) nth_mem by metis
      then show False using part_others [OF mg c j] by blast
    qed
    then show ?thesis using w' True by (auto simp: turn_reverse_def)
  qed
qed

lemma merging_key:
  assumes "merging_stands m M (Some n)"
  shows "n < length M \<and> key_merging m = Some (fst (M ! n)) \<and> value_merging ops m = Some (snd (M ! n))"
proof -
  obtain ess c where s: "merged ess M" "n < length M" "c < length ess" "current m = Some c" "M ! n \<in> set (ess ! c)"
    "forward_at m ess M n \<or> reverse_at m ess M (Suc n)" using assms by (auto simp: merging_stands_def)
  have "holds (children m ! c) (ess ! c) (Some (part M n (ess ! c))) \<and> ess ! c ! part M n (ess ! c) = M ! n"
    using s(6)
  proof
    assume at: "forward_at m ess M n"
    then show ?thesis using forward_top [OF s(1) at s(2,3,5)] all_atD [OF _ s(3), of "children m" "\<lambda>j. pos_after M n (ess ! j)"]
      by (simp add: forward_at_def)
  next
    assume at: "reverse_at m ess M (Suc n)"
    then obtain h where "maxHeap m = Some h" by (auto simp: reverse_at_def)
    then show ?thesis using reverse_top [OF s(1) at _ s(2,3,5)] at all_atD [OF _ s(3), of "children m" "\<lambda>j. pos_before M (Suc n) (ess ! j)"]
      by (simp add: reverse_at_def)
  qed
  then have h: "holds (children m ! c) (ess ! c) (Some (part M n (ess ! c)))" "ess ! c ! part M n (ess ! c) = M ! n" by blast+
  then have "stands (w_iter (children m ! c)) (ess ! c) (Some (part M n (ess ! c)))" by (simp add: holds_def)
  then show ?thesis using holds_key [OF h(1)] stands_entry s(2,4) h(2)
    by (simp add: key_merging_def value_merging_def w_get_key_def w_value_def)
qed

lemma Next_ok:
  assumes st: "merging_stands m M (Some n)"
  shows "\<exists>m'. Next_merging cmp ops m = Some m' \<and> merging_stands m' M (if Suc n < length M then Some (Suc n) else None)"
proof -
  obtain ess pos c where s: "merged ess M" "length ess \<le> kMaxSizet" "all_at (children m) ess pos" "n < length M" "c < length ess" "current m = Some c"
    "M ! n \<in> set (ess ! c)" "forward_at m ess M n \<or> reverse_at m ess M (Suc n)" using st by (auto simp: merging_stands_def)
  note own = part_owner [OF merged_child [OF s(1,5)] s(4,7)]
  have "\<exists>m1. (if direction m \<noteq> kForward
      then do { key \<leftarrow> key_merging m; fill_forward cmp (\<lambda>j w. if j \<noteq> c then turn_forward cmp ops key w else Some w) m }
      else Some m) = Some m1 \<and> forward_at m1 ess M n \<and> current m1 = Some c"
    using s(8)
  proof
    assume at: "reverse_at m ess M (Suc n)"
    then have all: "all_at (children m) ess (\<lambda>j. pos_before M (Suc n) (ess ! j))" by (simp add: reverse_at_def)
    let ?f = "\<lambda>j w. if j \<noteq> c then turn_forward cmp ops (fst (M ! n)) w else Some w"
    have each: "\<exists>w. ?f j (children m ! j) = Some w \<and> holds w (ess ! j) (pos_after M n (ess ! j))" if j: "j < length ess" for j
    proof (cases "j = c")
      case True
      then show ?thesis using all_atD [OF all j] own by (simp add: pos_after_def pos_before_def)
    next
      case False
      then show ?thesis using turn_forward_ok [OF s(1,4,5,7) j False all_atD [OF all j]] by simp
    qed
    obtain m1 where m1: "fill_forward cmp ?f m = Some m1" "forward_at m1 ess M n" "current m1 = current m" "prefix_seek_mode m1 = prefix_seek_mode m"
      using fill_forward_ok [where f = ?f and M = M and n = n, OF all s(2) each] .
    then show ?thesis using merging_key [OF st] at s(6) by (auto simp: reverse_at_def)
  qed (use s(6) in \<open>auto simp: forward_at_def\<close>)
  then obtain m1 where m1: "(if direction m \<noteq> kForward
      then do { key \<leftarrow> key_merging m; fill_forward cmp (\<lambda>j w. if j \<noteq> c then turn_forward cmp ops key w else Some w) m }
      else Some m) = Some m1" "forward_at m1 ess M n" "current m1 = Some c" by blast
  obtain w h m' where w: "w_move ops (op_Next ops) (children m1 ! c) = Some w" "settle_top (MinIteratorComparator cmp) ((children m1)[c := w]) c (minHeap m1) = Some h"
    "set_current_forward (m1\<lparr>children := (children m1)[c := w], minHeap := h\<rparr>) = Some m'" "merging_stands m' M (if Suc n < length M then Some (Suc n) else None)"
    using step_forward [OF s(1,2) m1(2) s(4,5,7)] by blast
  have "CurrentForward m1 = Some (Some c)" using forward_top [OF s(1) m1(2) s(4,5,7)] m1(2) by (simp add: CurrentForward_def forward_at_def)
  then have "Next_merging cmp ops m = Some m'" unfolding Next_merging_def s(6) using m1(1) w(1-3) by (simp add: Let_def)
  then show ?thesis using w(4) by blast
qed

lemma Prev_ok:
  assumes st: "merging_stands m M (Some n)"
  shows "\<exists>m'. Prev_merging cmp ops m = Some m' \<and> merging_stands m' M (if n = 0 then None else Some (n - 1))"
proof -
  obtain ess pos c where s: "merged ess M" "length ess \<le> kMaxSizet" "all_at (children m) ess pos" "n < length M" "c < length ess" "current m = Some c"
    "M ! n \<in> set (ess ! c)" "forward_at m ess M n \<or> reverse_at m ess M (Suc n)" using st by (auto simp: merging_stands_def)
  note own = part_owner [OF merged_child [OF s(1,5)] s(4,7)]
  define turn where "turn = (if direction m \<noteq> kReverse
      then do { key \<leftarrow> key_merging m;
                m \<leftarrow> fill_reverse cmp (\<lambda>j w. if j \<noteq> c then turn_reverse cmp ops (prefix_seek_mode m) key w else Some w) m;
                if \<not> prefix_seek_mode m then set_current_reverse m else Some m }
      else Some m)"
  have "\<exists>m1. turn = Some m1 \<and> reverse_at m1 ess M (Suc n) \<and> current m1 = Some c"
    using s(8)
  proof
    assume at: "forward_at m ess M n"
    then have all: "all_at (children m) ess (\<lambda>j. pos_after M n (ess ! j))" by (simp add: forward_at_def)
    let ?f = "\<lambda>j w. if j \<noteq> c then turn_reverse cmp ops (prefix_seek_mode m) (fst (M ! n)) w else Some w"
    have each: "\<exists>w. ?f j (children m ! j) = Some w \<and> holds w (ess ! j) (pos_before M (Suc n) (ess ! j))" if j: "j < length ess" for j
    proof (cases "j = c")
      case True
      then show ?thesis using all_atD [OF all j] own by (simp add: pos_after_def pos_before_def)
    next
      case False
      then show ?thesis using turn_reverse_ok [OF s(1,4,5,7) j False all_atD [OF all j]] by simp
    qed
    obtain m1 where m1: "fill_reverse cmp ?f m = Some m1" "reverse_at m1 ess M (Suc n)" "current m1 = current m" "prefix_seek_mode m1 = prefix_seek_mode m"
      using fill_reverse_ok [where f = ?f and M = M and n = "Suc n", OF all s(2) each] .
    then obtain h where h: "maxHeap m1 = Some h" by (auto simp: reverse_at_def)
    have "set_current_reverse m1 = Some (m1\<lparr>current := Some c\<rparr>)"
      using reverse_top [OF s(1) m1(2) h s(4,5,7)] m1(2) h by (simp add: set_current_reverse_def CurrentReverse_def reverse_at_def)
    moreover have "reverse_at (m1\<lparr>current := Some c\<rparr>) ess M (Suc n)" using m1(2) by (simp add: reverse_at_def)
    ultimately show ?thesis using merging_key [OF st] at s(6) m1 by (simp add: turn_def forward_at_def)
  qed (use s(6) in \<open>auto simp: turn_def reverse_at_def\<close>)
  then obtain m1 where m1: "turn = Some m1" "reverse_at m1 ess M (Suc n)" "current m1 = Some c" by blast
  then obtain h where h: "maxHeap m1 = Some h" by (auto simp: reverse_at_def)
  obtain w h' m' where w: "w_move ops (op_Prev ops) (children m1 ! c) = Some w" "settle_top (MaxIteratorComparator cmp) ((children m1)[c := w]) c h = Some h'"
    "set_current_reverse (m1\<lparr>children := (children m1)[c := w], maxHeap := Some h'\<rparr>) = Some m'" "merging_stands m' M (if n = 0 then None else Some (n - 1))"
    using step_reverse [OF s(1,2) m1(2) h s(4,5,7)] by blast
  have "CurrentReverse m1 = Some (Some c)" using reverse_top [OF s(1) m1(2) h s(4,5,7)] m1(2) h by (simp add: CurrentReverse_def reverse_at_def)
  then have "Prev_merging cmp ops m = Some m'"
    unfolding Prev_merging_def s(6) Option.bind_lunit turn_def [symmetric] using m1 h w(1-3) by (simp add: Let_def)
  then show ?thesis using w(4) by blast
qed

lemma merging_internal_iterators: "internal_iterators keys cmp (MergingIterator_ops cmp ops) merging_stands"
proof (intro internal_iterators.intro internal_iterators_axioms.intro)
  fix m M q assume "merging_stands m M q"
  then show "sorted_wrt (\<lambda>a b. cmp (fst a) (fst b) < 0) M \<and> list_all (\<lambda>e. keys (fst e)) M"
    by (auto simp: merging_stands_def merged_def total.ordered_def)
next
  fix m M q assume "merging_stands m M q"
  then show "op_Valid (MergingIterator_ops cmp ops) m \<longleftrightarrow> q \<noteq> None"
    by (cases q) (auto simp: merging_stands_def MergingIterator_ops_def Valid_merging_def)
next
  fix m M q assume "merging_stands m M q"
  then obtain ess pos where "all_at (children m) ess pos" by (auto simp: merging_stands_def)
  then have "w_status ops w = Status_OK" if "w \<in> set (children m)" for w
    using that stands_status by (auto simp: all_at_def in_set_conv_nth holds_def w_status_def)
  then have "status_loop ops ws Status_OK = Status_OK" if "set ws \<subseteq> set (children m)" for ws using that by (induction ws) auto
  then show "op_status (MergingIterator_ops cmp ops) m = Status_OK" by (simp add: MergingIterator_ops_def status_merging_def)
next
  fix m M n assume "merging_stands m M (Some n)"
  then show "n < length M \<and> op_key (MergingIterator_ops cmp ops) m = Some (fst (M ! n)) \<and> op_value (MergingIterator_ops cmp ops) m = Some (snd (M ! n))"
    using merging_key by (simp add: MergingIterator_ops_def)
next
  fix m M q0 mv q assume st: "merging_stands m M q0" and mv: "move_target keys mv" "cursor_move cmp M mv q0 = Some q"
  show "\<exists>m'. ops_move (MergingIterator_ops cmp ops) mv m = Some m' \<and> merging_stands m' M q"
  proof (cases "mv = Forward \<or> mv = Backward")
    case True
    then obtain n where n: "q0 = Some n" using mv(2) by auto
    then show ?thesis using True mv(2) Next_ok [OF st [unfolded n]] Prev_ok [OF st [unfolded n]] by (auto simp: MergingIterator_ops_def)
  next
    case False
    then show ?thesis using merging_seeks [OF st mv(1) _ _ mv(2)] by blast
  qed
qed (rule comparator_axioms)

text \<open>A new merging iterator over children that have not been positioned yet.\<close>

lemma wrap_all_ok:
  "list_all2 (\<lambda>i es. stands i es None) its ess \<Longrightarrow> \<exists>cs. wrap_all ops its = Some cs \<and> all_at cs ess (\<lambda>j. None)"
proof (induction its ess rule: list_all2_induct)
  case (Cons i its es ess)
  then obtain cs where cs: "wrap_all ops its = Some cs" "all_at cs ess (\<lambda>j. None)" by blast
  obtain w where w: "w_Set ops i = Some w" "holds w es None" using w_Update_ok [of "\<lparr>w_iter = i, w_valid = False, w_key = []\<rparr>" es None] Cons.hyps(1) by (auto simp: w_Set_def)
  have "all_at (w # cs) (es # ess) (\<lambda>j. None)" using cs(2) w(2) by (auto simp: all_at_def nth_Cons split: nat.splits)
  then show ?case using cs(1) w(1) by simp
qed (simp add: all_at_def)

lemma make_MergingIterator_ok:
  assumes "list_all2 (\<lambda>i es. stands i es None) its ess" "merged ess M" "length ess \<le> kMaxSizet"
  shows "\<exists>m. make_MergingIterator cmp ops its mode = Some m \<and> merging_stands m M None"
proof -
  obtain cs where cs: "wrap_all ops its = Some cs" "all_at cs ess (\<lambda>j. None)" using wrap_all_ok [OF assms(1)] by blast
  obtain cs' h where h: "each_child (\<lambda>j w. Some w) (MinIteratorComparator cmp) [0..<length cs] cs make_BinaryHeap = Some (cs', h)"
    "all_at cs' ess (\<lambda>j. None)" "heap_of (\<lambda>a b. cmp a b > 0) cs' UNIV h"
    using fill_children [OF weak_orders(1) cs(2) assms(3) _ make_heap_inv(2,1), of "\<lambda>j w. Some w" "\<lambda>j. None"] all_atD [OF cs(2)] unfolding comparators by auto
  have "heap_top h = None" using all_invalid [OF h(2) _ h(3)] by blast
  then have "make_MergingIterator cmp ops its mode =
    Some \<lparr>children = cs', current = None, direction = kForward, minHeap = h, prefix_seek_mode = mode, maxHeap = None\<rparr>"
    using cs(1) h(1) by (simp add: make_MergingIterator_def set_current_forward_def CurrentForward_def)
  then show ?thesis using assms(2,3) h(2) by (auto simp: merging_stands_def)
qed

text \<open>The same through the builder, for two children or more.\<close>

lemma AddIterator_ok:
  assumes "all_at (children m) ess (\<lambda>j. None)" "direction m = kForward" "stands i es None"
  obtains m' where "AddIterator ops i m = Some m'" "all_at (children m') (ess @ [es]) (\<lambda>j. None)" "direction m' = kForward" "current m' = current m"
proof -
  obtain w where w: "w_Set ops i = Some w" "holds w es None"
    using w_Update_ok [of "\<lparr>w_iter = i, w_valid = False, w_key = []\<rparr>" es None] assms(3) by (auto simp: w_Set_def)
  have "all_at (children m @ [w]) (ess @ [es]) (\<lambda>j. None)" using assms(1) w(2) by (auto simp: all_at_def nth_append less_Suc_eq)
  then show thesis using that [of "m\<lparr>children := children m @ [w]\<rparr>"] w assms(2) by (simp add: AddIterator_def holds_def)
qed

lemma add_iterators_ok:
  "list_all2 (\<lambda>i es. stands i es None) its ess \<Longrightarrow> use_merging_iter b \<Longrightarrow> all_at (children (merge_iter b)) ess0 (\<lambda>j. None) \<Longrightarrow>
    direction (merge_iter b) = kForward \<Longrightarrow> current (merge_iter b) = None \<Longrightarrow>
    \<exists>b'. add_iterators ops its b = Some b' \<and> use_merging_iter b' \<and> all_at (children (merge_iter b')) (ess0 @ ess) (\<lambda>j. None) \<and> current (merge_iter b') = None"
proof (induction its ess arbitrary: b ess0 rule: list_all2_induct)
  case (Cons i its es ess)
  obtain m where m: "AddIterator ops i (merge_iter b) = Some m" "all_at (children m) (ess0 @ [es]) (\<lambda>j. None)" "direction m = kForward"
    "current m = current (merge_iter b)" using AddIterator_ok [OF Cons.prems(2,3) Cons.hyps(1)] .
  have "AddIterator_builder ops i b = Some (b\<lparr>merge_iter := m\<rparr>)" using m(1) Cons.prems(1) by (simp add: AddIterator_builder_def split: option.splits)
  then show ?case using Cons.IH [of "b\<lparr>merge_iter := m\<rparr>" "ess0 @ [es]"] m Cons.prems by simp
qed simp

lemma builder_ok:
  assumes "list_all2 (\<lambda>i es. stands i es None) its ess" "merged ess M" "length ess \<le> kMaxSizet" "2 \<le> length its"
  shows "\<exists>b m. do { b \<leftarrow> make_MergeIteratorBuilder cmp ops mode; add_iterators ops its b } = Some b \<and> Finish_builder b = Inr m \<and> merging_stands m M None"
proof -
  obtain i i2 rest where its: "its = i # i2 # rest" using assms(4) by (cases its; cases "tl its") auto
  then obtain es es2 ess' where ess: "ess = es # es2 # ess'" and st: "stands i es None" "list_all2 (\<lambda>i es. stands i es None) (i2 # rest) (es2 # ess')"
    using assms(1) by (auto simp: list_all2_Cons1)
  define m0 :: "'i MergingIterator" where "m0 = \<lparr>children = [], current = None, direction = kForward, minHeap = make_BinaryHeap, prefix_seek_mode = mode, maxHeap = None\<rparr>"
  have make: "make_MergeIteratorBuilder cmp ops mode = Some \<lparr>merge_iter = m0, first_iter = None, use_merging_iter = False\<rparr>"
    by (simp add: make_MergeIteratorBuilder_def make_MergingIterator_def set_current_forward_def CurrentForward_def m0_def heap_top_def heap_empty_def make_heap_inv)
  have "all_at (children m0) [] (\<lambda>j. None)" "direction m0 = kForward" by (simp_all add: m0_def all_at_def)
  from AddIterator_ok [OF this st(1)] obtain m1 where m1: "AddIterator ops i m0 = Some m1" "all_at (children m1) ([] @ [es]) (\<lambda>j. None)"
    "direction m1 = kForward" "current m1 = current m0" .
  define b1 where "b1 = \<lparr>merge_iter = m1, first_iter = Some i, use_merging_iter = True\<rparr>"
  have first: "AddIterator_builder ops i \<lparr>merge_iter = m0, first_iter = None, use_merging_iter = False\<rparr> =
      Some \<lparr>merge_iter = m0, first_iter = Some i, use_merging_iter = False\<rparr>" by (simp add: AddIterator_builder_def)
  have second: "AddIterator_builder ops i2 \<lparr>merge_iter = m0, first_iter = Some i, use_merging_iter = False\<rparr> = AddIterator_builder ops i2 b1"
    using m1(1) by (simp add: AddIterator_builder_def b1_def)
  obtain b where b: "add_iterators ops (i2 # rest) b1 = Some b" "use_merging_iter b" "all_at (children (merge_iter b)) ([es] @ es2 # ess') (\<lambda>j. None)"
    "current (merge_iter b) = None"
    using add_iterators_ok [OF st(2), of b1 "[es]"] m1 by (auto simp: b1_def m0_def)
  have "do { b \<leftarrow> make_MergeIteratorBuilder cmp ops mode; add_iterators ops its b } = Some b"
    using b(1) by (simp add: make its first second)
  moreover have "merging_stands (merge_iter b) M None" using b(3,4) assms(2,3) ess by (auto simp: merging_stands_def)
  ultimately show ?thesis using b(2) by (simp add: Finish_builder_def)
qed

end

section \<open>Any sequence of moves\<close>

primrec ops_moves :: "'i InternalIterator \<Rightarrow> move list \<Rightarrow> 'i \<Rightarrow> 'i option" where
  "ops_moves ops [] i = Some i"
| "ops_moves ops (m # ms) i = Option.bind (ops_move ops m i) (ops_moves ops ms)"

definition shows_position :: "'i InternalIterator \<Rightarrow> entries \<Rightarrow> nat option \<Rightarrow> 'i \<Rightarrow> bool" where
  "shows_position ops es q i \<longleftrightarrow> op_status ops i = Status_OK \<and>
     (case q of
        None \<Rightarrow> \<not> op_Valid ops i
      | Some p \<Rightarrow> op_Valid ops i \<and> op_key ops i = Some (fst (es ! p)) \<and> op_value ops i = Some (snd (es ! p)))"

text \<open>All ways of making a merging iterator lead to one that behaves like the cursor.\<close>

definition merging_run ::
  "(bytes \<Rightarrow> bytes \<Rightarrow> int) \<Rightarrow> 'i InternalIterator \<Rightarrow> bool \<Rightarrow> 'i list \<Rightarrow> entries \<Rightarrow> move list \<Rightarrow> nat option \<Rightarrow> bool" where
  "merging_run cmp ops mode its M ms q \<longleftrightarrow>
     (\<exists>m0 m. make_MergingIterator cmp ops its mode = Some m0 \<and> ops_moves (MergingIterator_ops cmp ops) ms m0 = Some m \<and>
       shows_position (MergingIterator_ops cmp ops) M q m) \<and>
     (2 \<le> length its \<longrightarrow>
       (\<exists>b m0 m. do { b \<leftarrow> make_MergeIteratorBuilder cmp ops mode; add_iterators ops its b } = Some b \<and> Finish_builder b = Inr m0 \<and>
         ops_moves (MergingIterator_ops cmp ops) ms m0 = Some m \<and> shows_position (MergingIterator_ops cmp ops) M q m) \<and>
       (\<exists>m0 m. NewMergingIterator cmp ops its mode = Some (Inr m0) \<and> ops_moves (MergingIterator_ops cmp ops) ms m0 = Some m \<and>
         shows_position (MergingIterator_ops cmp ops) M q m))"

context internal_iterators
begin

lemma moves_ok:
  "list_all (move_target keys) ms \<Longrightarrow> stands i es q0 \<Longrightarrow> cursor_moves cmp es ms q0 = Some q \<Longrightarrow>
    \<exists>i'. ops_moves ops ms i = Some i' \<and> stands i' es q \<and> shows_position ops es q i'"
proof (induction ms arbitrary: i q0)
  case Nil
  then show ?case using stands_Valid [of i es q] stands_entry [of i es] stands_status [of i es q] by (auto simp: shows_position_def split: option.splits)
next
  case (Cons m ms)
  obtain q1 where q1: "cursor_move cmp es m q0 = Some q1" "cursor_moves cmp es ms q1 = Some q" using Cons.prems(3) by (auto split: bind_splits)
  obtain i1 where "ops_move ops m i = Some i1" "stands i1 es q1" using stands_move [OF Cons.prems(2) _ q1(1)] Cons.prems(1) by auto
  then show ?case using Cons.IH [of i1 q1] Cons.prems(1) q1(2) by auto
qed

lemma merging_session:
  assumes "list_all2 (\<lambda>i es. stands i es None) its ess" "merged ess M" "length ess \<le> kMaxSizet"
    and "list_all (move_target keys) ms" "cursor_moves cmp M ms None = Some q"
  shows "merging_run cmp ops mode its M ms q"
proof -
  have run: "\<exists>m. ops_moves (MergingIterator_ops cmp ops) ms m0 = Some m \<and> shows_position (MergingIterator_ops cmp ops) M q m"
    if "merging_stands m0 M None" for m0
    using internal_iterators.moves_ok [OF merging_internal_iterators assms(4) that assms(5)] by blast
  obtain m0 where m0: "make_MergingIterator cmp ops its mode = Some m0" "merging_stands m0 M None"
    using make_MergingIterator_ok [OF assms(1-3)] by blast
  then have "2 \<le> length its \<longrightarrow> NewMergingIterator cmp ops its mode = Some (Inr m0)" by (auto simp: NewMergingIterator_def)
  then show ?thesis
    unfolding merging_run_def using run [OF m0(2)] m0(1) run builder_ok [OF assms(1-3)] by blast
qed

end

section \<open>Merging blocks\<close>

definition BlockIter_ops :: "u8 \<Rightarrow> bool \<Rightarrow> compare \<Rightarrow> BlockIter InternalIterator" where
  "BlockIter_ops junk le compare =
     \<lparr>op_Valid = Valid, op_SeekToFirst = SeekToFirst junk le, op_SeekToLast = SeekToLast junk le,
      op_Seek = Seek junk le compare, op_SeekForPrev = SeekForPrev junk le compare, op_Next = Next junk le,
      op_Prev = Prev junk le, op_key = iter_key, op_value = iter_value,
      op_status = (\<lambda>it. if bi_status_ok it then Status_OK else Status_Error)\<rparr>"

definition block_stands :: "(bytes \<Rightarrow> bool) \<Rightarrow> (bytes \<Rightarrow> bytes \<Rightarrow> int) \<Rightarrow> BlockIter \<Rightarrow> entries \<Rightarrow> nat option \<Rightarrow> bool" where
  "block_stands keys cmp it es q \<longleftrightarrow>
     sorted_wrt (\<lambda>a b. cmp (fst a) (fst b) < 0) es \<and> list_all (\<lambda>e. keys (fst e)) es \<and> (\<forall>p. q = Some p \<longrightarrow> p < length es) \<and>
     (\<exists>r delta. block_ok r delta es \<and> positioned r delta es q it \<and> cache_ok r delta es it)"

lemma BlockIter_move: "ops_move (BlockIter_ops junk le compare) m it = iter_move junk le compare m it"
  by (cases m) (simp_all add: BlockIter_ops_def)

lemma cursor_move_less: "cursor_move cmp es m p = Some (Some q) \<Longrightarrow> (\<forall>i. p = Some i \<longrightarrow> i < length es) \<Longrightarrow> q < length es"
proof (cases m)
  case (SeekBackTo k)
  let ?n = "length (takeWhile (\<lambda>e. cmp (fst e) k \<le> 0) es)"
  assume "cursor_move cmp es m p = Some (Some q)"
  then have "?n \<noteq> 0" "q = ?n - 1" using SeekBackTo by (simp_all add: Let_def split: if_splits del: length_0_conv)
  moreover have "?n \<le> length es" by (rule length_takeWhile_le)
  ultimately show ?thesis by linarith
qed (auto simp: Let_def split: if_splits)

context block_comparator
begin

lemma block_iterators: "internal_iterators keys cmp (BlockIter_ops junk le compare) (block_stands keys cmp)"
proof (intro internal_iterators.intro internal_iterators_axioms.intro)
  fix it es q assume "block_stands keys cmp it es q"
  then show "op_Valid (BlockIter_ops junk le compare) it \<longleftrightarrow> q \<noteq> None"
    using positioned_Valid by (auto simp: block_stands_def BlockIter_ops_def)
next
  fix it es q assume "block_stands keys cmp it es q"
  then show "op_status (BlockIter_ops junk le compare) it = Status_OK"
    using positioned_shows [of _ _ es q it] by (auto simp: block_stands_def BlockIter_ops_def shows_entry_def)
next
  fix it es p assume "block_stands keys cmp it es (Some p)"
  then show "p < length es \<and> op_key (BlockIter_ops junk le compare) it = Some (fst (es ! p)) \<and> op_value (BlockIter_ops junk le compare) it = Some (snd (es ! p))"
    using positioned_shows [of _ _ es "Some p" it] by (auto simp: block_stands_def BlockIter_ops_def shows_entry_def)
next
  fix it es q0 m q assume st: "block_stands keys cmp it es q0" and m: "move_target keys m" "cursor_move cmp es m q0 = Some q"
  then obtain r delta where b: "block_ok r delta es" "positioned r delta es q0 it" "cache_ok r delta es it" by (auto simp: block_stands_def)
  have o: "ordered es" using st by (simp add: block_stands_def ordered_def)
  obtain it' where it': "iter_move junk le compare m it = Some it'" "positioned r delta es q it'" "cache_ok r delta es it'"
    using move_refines [OF b(1) o m(1) b(2,3) m(2)] by blast
  have "\<forall>p. q = Some p \<longrightarrow> p < length es" using cursor_move_less [of cmp es m q0] m(2) st by (auto simp: block_stands_def)
  then have "block_stands keys cmp it' es q" using st b(1) it'(2,3) by (auto simp: block_stands_def)
  then show "\<exists>i'. ops_move (BlockIter_ops junk le compare) m it = Some i' \<and> block_stands keys cmp i' es q" using it'(1) by (simp add: BlockIter_move)
qed (auto simp: block_stands_def intro: comparator_axioms)

end

interpretation blocks_bytewise: internal_iterators bytewise.ikeys "bytewise.icmp le" "BlockIter_ops junk le (internal_Compare le bytewise_Compare)"
  "block_stands bytewise.ikeys (bytewise.icmp le)" for le junk
  by (rule block_bytewise.block_iterators)

interpretation blocks_reverse: internal_iterators reverse.ikeys "reverse.icmp le" "BlockIter_ops junk le (internal_Compare le reverse_Compare)"
  "block_stands reverse.ikeys (reverse.icmp le)" for le junk
  by (rule block_reverse.block_iterators)

lemma list_all_ex: "list_all (\<lambda>x. \<exists>y. P x y) xs \<Longrightarrow> \<exists>ys. list_all2 P xs ys"
  by (induction xs) (auto simp: list_all2_Cons1)

text \<open>A block with the entries of a list, and an iterator over it.\<close>

definition build_block :: "bool \<Rightarrow> nat \<Rightarrow> bool \<Rightarrow> entries \<Rightarrow> bytes option" where
  "build_block le r delta es = do { b \<leftarrow> make_BlockBuilder r delta; b \<leftarrow> add_all es b; Some (fst (Finish le b)) }"

definition open_block :: "u8 \<Rightarrow> bool \<Rightarrow> bool \<Rightarrow> bytes \<Rightarrow> BlockIter option" where
  "open_block junk le total_order contents = do { blk \<leftarrow> make_Block le contents kDisableGlobalSequenceNumber; NewIterator junk le total_order blk }"

context block_comparator
begin

lemma build_open_ok:
  assumes "1 \<le> r" "small_entries es" "ordered es"
  shows "\<exists>contents. build_block le r delta es = Some contents \<and>
    (length contents < 2 ^ 32 \<longrightarrow> (\<exists>it. open_block junk le total_order contents = Some it \<and> block_stands keys cmp it es None))"
proof -
  obtain b0 where b0: "make_BlockBuilder r delta = Some b0" "built r delta [] b0" using make_built [OF assms(1)] by blast
  obtain b where b: "add_all es b0 = Some b" "built r delta es b" using add_all_built [OF b0(2) assms(1,2)] by auto
  have "\<exists>it. open_block junk le total_order (fst (Finish le b)) = Some it \<and> block_stands keys cmp it es None"
    if "length (fst (Finish le b)) < 2 ^ 32"
  proof -
    have ok: "block_ok r delta es" using that length_Finish [OF b(2), of le] assms(1,2) by (simp add: block_ok_def)
    have c: "fst (Finish le b) = block_image r delta es" using Finish_built [OF b(2), of le] ok by (auto simp: block_ok_def)
    obtain blk it where "make_Block le (block_image r delta es) kDisableGlobalSequenceNumber = Some blk" "NewIterator junk le total_order blk = Some it"
      "positioned r delta es None it" "cache_ok r delta es it" using NewIterator_at [OF ok] by blast
    then show ?thesis using c ok assms(3) by (auto simp: open_block_def block_stands_def ordered_def)
  qed
  then show ?thesis using b0(1) b(1) by (simp add: build_block_def)
qed

lemma merge_blocks:
  assumes "1 \<le> r" "length ess \<le> kMaxSizet" "list_all (\<lambda>es. small_entries es \<and> ordered es) ess" "ordered M" "mset M = mset (concat ess)"
    and "list_all (move_target keys) ms" "cursor_moves cmp M ms None = Some q"
  shows "\<exists>cs. list_all2 (\<lambda>es c. build_block le r delta es = Some c) ess cs \<and>
    (list_all (\<lambda>c. length c < 2 ^ 32) cs \<longrightarrow>
      (\<exists>its. list_all2 (\<lambda>c it. open_block junk le total_order c = Some it) cs its \<and>
        merging_run cmp (BlockIter_ops junk le compare) mode its M ms q))"
proof -
  note it = block_iterators [of junk le]
  have "list_all (\<lambda>es. \<exists>c. build_block le r delta es = Some c \<and>
      (length c < 2 ^ 32 \<longrightarrow> (\<exists>it. open_block junk le total_order c = Some it \<and> block_stands keys cmp it es None))) ess"
    using assms(3) build_open_ok [OF assms(1), of _ le delta junk total_order] by (simp add: list_all_iff)
  from list_all_ex [OF this] obtain cs where cs: "list_all2 (\<lambda>es c. build_block le r delta es = Some c \<and>
      (length c < 2 ^ 32 \<longrightarrow> (\<exists>it. open_block junk le total_order c = Some it \<and> block_stands keys cmp it es None))) ess cs"
    by blast
  have run: "\<exists>its. list_all2 (\<lambda>c it. open_block junk le total_order c = Some it) cs its \<and> merging_run cmp (BlockIter_ops junk le compare) mode its M ms q"
    if small: "list_all (\<lambda>c. length c < 2 ^ 32) cs"
  proof -
    define it_of where "it_of c = the (open_block junk le total_order c)" for c
    have ok: "open_block junk le total_order (cs ! j) = Some (it_of (cs ! j)) \<and> block_stands keys cmp (it_of (cs ! j)) (ess ! j) None" if "j < length cs" for j
      using list_all2_nthD2 [OF cs that] small that by (auto simp: list_all_length it_of_def)
    have len: "length ess = length cs" using list_all2_lengthD [OF cs] .
    have "list_all2 (\<lambda>i es. block_stands keys cmp i es None) (map it_of cs) ess" using ok len by (simp add: list_all2_conv_all_nth)
    moreover have "internal_iterators.merged keys cmp ess M"
      using assms(3-5) unfolding internal_iterators.merged_def [OF it] by (simp add: list_all_iff)
    ultimately have "merging_run cmp (BlockIter_ops junk le compare) mode (map it_of cs) M ms q"
      by (rule internal_iterators.merging_session [OF it _ _ assms(2,6,7)])
    moreover have "list_all2 (\<lambda>c it. open_block junk le total_order c = Some it) cs (map it_of cs)" using ok by (simp add: list_all2_conv_all_nth)
    ultimately show ?thesis by blast
  qed
  have "list_all2 (\<lambda>es c. build_block le r delta es = Some c) ess cs" using cs by (rule list_all2_mono) blast
  then show ?thesis using run by blast
qed

end

text \<open>
  C2. Merging the iterators of several blocks, no two of which share a key, each built from a sorted list of
  entries with 64-bit tags over either built-in order, behaves like a single cursor on the merged list. The
  children are new iterators that have not been positioned yet. Whether the merging iterator is
  made directly, by \<open>NewMergingIterator\<close> or by the builder, in either mode of turning around, every sequence
  of moves returns, reports no error, and shows exactly the key and the value where the cursor on
  the merged list would stand. Keys that occur in several blocks, and so several times in the merged list, are not
  covered.
\<close>

theorem merging_blocks_cursor:
  assumes "ucmp = bytewise_Compare \<or> ucmp = reverse_Compare" "1 \<le> r" "length ess < 2 ^ 31"
    and "list_all (\<lambda>es. list_all (\<lambda>(k, v). 8 \<le> length k \<and> length k < 2 ^ 32 \<and> length v < 2 ^ 32) es \<and>
      sorted_wrt (\<lambda>a b. the (internal_Compare le ucmp (fst a) (fst b)) < 0) es) ess"
    and "sorted_wrt (\<lambda>a b. the (internal_Compare le ucmp (fst a) (fst b)) < 0) M" "mset M = mset (concat ess)"
    and "list_all (move_target (\<lambda>k. 8 \<le> length k)) ms"
    and "cursor_moves (\<lambda>a b. the (internal_Compare le ucmp a b)) M ms None = Some q"
  shows "\<exists>cs. list_all2 (\<lambda>es c. build_block le r delta es = Some c) ess cs \<and>
    (list_all (\<lambda>c. length c < 2 ^ 32) cs \<longrightarrow>
      (\<exists>its. list_all2 (\<lambda>c it. open_block junk le total_order c = Some it) cs its \<and>
        merging_run (\<lambda>a b. the (internal_Compare le ucmp a b)) (BlockIter_ops junk le (internal_Compare le ucmp)) mode its M ms q))"
proof -
  have n: "length ess \<le> kMaxSizet" using assms(3) by (simp add: kMaxSizet_def)
  have small: "list_all (\<lambda>es. small_entries es \<and> list_all (\<lambda>e. 8 \<le> length (fst e)) es \<and>
      sorted_wrt (\<lambda>a b. the (internal_Compare le ucmp (fst a) (fst b)) < 0) es) ess"
    using assms(4) by (auto simp: small_entries_def list_all_iff case_prod_beta)
  have "set M = \<Union> (set ` set ess)" using mset_eq_setD [OF assms(6)] by simp
  then have kM: "list_all (\<lambda>e. 8 \<le> length (fst e)) M" using small by (simp add: list_all_iff)
  show ?thesis
  proof (rule disjE [OF assms(1)])
    assume u: "ucmp = bytewise_Compare"
    have c: "bytewise.icmp le = (\<lambda>a b. the (internal_Compare le bytewise_Compare a b))" by (simp add: fun_eq_iff bytewise.icmp_def)
    have o: "block_bytewise.ordered le es \<longleftrightarrow> sorted_wrt (\<lambda>a b. the (internal_Compare le ucmp (fst a) (fst b)) < 0) es \<and> list_all (\<lambda>e. 8 \<le> length (fst e)) es" for es
      unfolding block_bytewise.ordered_def unfolding c ikeys_length u ..
    have f: "list_all (\<lambda>es. small_entries es \<and> block_bytewise.ordered le es) ess" "block_bytewise.ordered le M"
      unfolding o using small kM assms(5) by (simp_all add: list_all_iff)
    show ?thesis unfolding u c [symmetric]
      by (rule block_bytewise.merge_blocks [OF assms(2) n f assms(6)]) (use assms(7,8) in \<open>simp_all add: u c ikeys_length\<close>)
  next
    assume u: "ucmp = reverse_Compare"
    have c: "reverse.icmp le = (\<lambda>a b. the (internal_Compare le reverse_Compare a b))" by (simp add: fun_eq_iff reverse.icmp_def)
    have o: "block_reverse.ordered le es \<longleftrightarrow> sorted_wrt (\<lambda>a b. the (internal_Compare le ucmp (fst a) (fst b)) < 0) es \<and> list_all (\<lambda>e. 8 \<le> length (fst e)) es" for es
      unfolding block_reverse.ordered_def unfolding c ikeys_length u ..
    have f: "list_all (\<lambda>es. small_entries es \<and> block_reverse.ordered le es) ess" "block_reverse.ordered le M"
      unfolding o using small kM assms(5) by (simp_all add: list_all_iff)
    show ?thesis unfolding u c [symmetric]
      by (rule block_reverse.merge_blocks [OF assms(2) n f assms(6)]) (use assms(7,8) in \<open>simp_all add: u c ikeys_length\<close>)
  qed
qed

text \<open>Two blocks whose entries alternate.\<close>

theorem merging_blocks_cursor_witness:
  "\<exists>cs its. list_all2 (\<lambda>es c. build_block True 16 True es = Some c)
      [[([97, 1, 5, 0, 0, 0, 0, 0, 0], [10]), ([99, 1, 4, 0, 0, 0, 0, 0, 0], [30])], [([98, 1, 7, 0, 0, 0, 0, 0, 0], [20])]] cs \<and>
    list_all2 (\<lambda>c it. open_block 0 True True c = Some it) cs its \<and>
    merging_run (\<lambda>a b. the (internal_Compare True bytewise_Compare a b)) (BlockIter_ops 0 True (internal_Compare True bytewise_Compare)) False its
      [([97, 1, 5, 0, 0, 0, 0, 0, 0], [10]), ([98, 1, 7, 0, 0, 0, 0, 0, 0], [20]), ([99, 1, 4, 0, 0, 0, 0, 0, 0], [30])]
      [SeekTo [98, 1, 8, 0, 0, 0, 0, 0, 0], Forward, Backward, Backward] (Some 0)"
proof -
  define es1 :: entries where "es1 = [([97, 1, 5, 0, 0, 0, 0, 0, 0], [10]), ([99, 1, 4, 0, 0, 0, 0, 0, 0], [30])]"
  define es2 :: entries where "es2 = [([98, 1, 7, 0, 0, 0, 0, 0, 0], [20])]"
  define M :: entries where "M = [([97, 1, 5, 0, 0, 0, 0, 0, 0], [10]), ([98, 1, 7, 0, 0, 0, 0, 0, 0], [20]), ([99, 1, 4, 0, 0, 0, 0, 0, 0], [30])]"
  define ms where "ms = [SeekTo [98, 1, 8, 0, 0, 0, 0, 0, 0], Forward, Backward, Backward]"
  note defs = es1_def es2_def M_def ms_def
  have sizes: "map_option length (build_block True 16 True es1) = Some 34" "map_option length (build_block True 16 True es2) = Some 21"
    unfolding defs by code_simp+
  have "sorted_wrt (\<lambda>a b. the (internal_Compare True bytewise_Compare (fst a) (fst b)) < 0) es1"
    "sorted_wrt (\<lambda>a b. the (internal_Compare True bytewise_Compare (fst a) (fst b)) < 0) es2"
    "sorted_wrt (\<lambda>a b. the (internal_Compare True bytewise_Compare (fst a) (fst b)) < 0) M" unfolding defs by code_simp+
  moreover have "cursor_moves (\<lambda>a b. the (internal_Compare True bytewise_Compare a b)) M ms None = Some (Some 0)" unfolding defs by code_simp
  moreover have "list_all (\<lambda>(k, v). 8 \<le> length k \<and> length k < 2 ^ 32 \<and> length v < 2 ^ 32) es1"
    "list_all (\<lambda>(k, v). 8 \<le> length k \<and> length k < 2 ^ 32 \<and> length v < 2 ^ 32) es2"
    "list_all (move_target (\<lambda>k. 8 \<le> length k)) ms" "mset M = mset (concat [es1, es2])" by (simp_all add: defs)
  ultimately obtain cs where cs: "list_all2 (\<lambda>es c. build_block True 16 True es = Some c) [es1, es2] cs"
    "list_all (\<lambda>c. length c < 2 ^ 32) cs \<longrightarrow> (\<exists>its. list_all2 (\<lambda>c it. open_block 0 True True c = Some it) cs its \<and>
      merging_run (\<lambda>a b. the (internal_Compare True bytewise_Compare a b)) (BlockIter_ops 0 True (internal_Compare True bytewise_Compare)) False its M ms (Some 0))"
    using merging_blocks_cursor [of bytewise_Compare 16 "[es1, es2]" True M ms "Some 0" True 0 True False] by auto
  have "list_all (\<lambda>c. length c < 2 ^ 32) cs" using cs(1) sizes by (auto simp: list_all2_Cons1)
  then show ?thesis using cs unfolding defs by blast
qed

end
