(* ===== verification/Bloom.thy ===== *)
theory Bloom
  imports Coding
begin

text \<open>
  The Bloom filters of the storage engine (\<open>rocksdb/util/bloom.cc\<close>) over the hash function of
  \<open>rocksdb/util/hash.cc\<close>: filters for whole files with one cache line per key, and the older filters
  for single blocks. Writing or reading outside of a filter, and a failed assertion, have no result.
\<close>

section \<open>Hashing\<close>

definition hash_word :: "u32 \<Rightarrow> u32 \<Rightarrow> u32" where
  "hash_word h w = (let h = (h + w) * 0xc6a4a793 in h XOR drop_bit 16 h)"

fun hash_loop :: "bool \<Rightarrow> bytes \<Rightarrow> u32 \<Rightarrow> bytes \<times> u32" where
  "hash_loop le data h =
     (if 4 \<le> length data then hash_loop le (drop 4 data) (hash_word h (DecodeFixed32 le data)) else (data, h))"

declare hash_loop.simps [simp del]

text \<open>The cases of the switch fall through; a byte is sign-extended before it is shifted.\<close>

definition hash_rest :: "bytes \<Rightarrow> u32 \<Rightarrow> u32" where
  "hash_rest data h =
     (if data = [] then h
      else
        let h = (if length data \<ge> 3 then h + push_bit 16 (scast (data ! 2)) else h);
            h = (if length data \<ge> 2 then h + push_bit 8 (scast (data ! 1)) else h);
            h = (h + scast (data ! 0)) * 0xc6a4a793
        in h XOR drop_bit 24 h)"

definition Hash :: "bool \<Rightarrow> bytes \<Rightarrow> u32 \<Rightarrow> u32" where
  "Hash le data seed =
     (case hash_loop le data (seed XOR (of_nat (length data) * 0xc6a4a793)) of (rest, h) \<Rightarrow> hash_rest rest h)"

definition BloomHash :: "bool \<Rightarrow> bytes \<Rightarrow> u32" where
  "BloomHash le key = Hash le key 0xbc9f1d34"

section \<open>Bits of a filter\<close>

definition set_filter_bit :: "u32 \<Rightarrow> bytes \<Rightarrow> bytes option" where
  "set_filter_bit bitpos data =
     (let i = unat (bitpos div 8) in
      if i < length data then Some (data[i := data ! i OR push_bit (unat (bitpos mod 8)) 1]) else None)"

definition test_filter_bit :: "u32 \<Rightarrow> bytes \<Rightarrow> bool option" where
  "test_filter_bit bitpos data =
     (let i = unat (bitpos div 8) in
      if i < length data then Some (data ! i AND push_bit (unat (bitpos mod 8)) 1 \<noteq> 0) else None)"

definition rotate_right_17 :: "u32 \<Rightarrow> u32" where
  "rotate_right_17 h = drop_bit 17 h OR push_bit 15 h"

text \<open>
  The probing loops, which the two kinds of filters share: \<open>n\<close> probes from \<open>h\<close> on in steps of \<open>delta\<close>, each at the
  bit that \<open>pos\<close> gives.
\<close>

primrec set_probes :: "nat \<Rightarrow> u32 \<Rightarrow> u32 \<Rightarrow> (u32 \<Rightarrow> u32) \<Rightarrow> bytes \<Rightarrow> bytes option" where
  "set_probes 0 h delta pos data = Some data"
| "set_probes (Suc n) h delta pos data =
     Option.bind (set_filter_bit (pos h) data) (set_probes n (h + delta) delta pos)"

primrec test_probes :: "nat \<Rightarrow> u32 \<Rightarrow> u32 \<Rightarrow> (u32 \<Rightarrow> u32) \<Rightarrow> bytes \<Rightarrow> bool option" where
  "test_probes 0 h delta pos data = Some True"
| "test_probes (Suc n) h delta pos data =
     Option.bind (test_filter_bit (pos h) data) (\<lambda>is_set.
       if is_set then test_probes n (h + delta) delta pos data else Some False)"

text \<open>A bit of the cache line that starts at bit \<open>b\<close>, and a bit of a block filter; there \<open>h % bits\<close> is taken with 64 bits.\<close>

definition line_bit :: "u32 \<Rightarrow> u32 \<Rightarrow> u32 \<Rightarrow> u32" where
  "line_bit b line_bits h = b + h mod line_bits"

definition block_bit :: "nat \<Rightarrow> u32 \<Rightarrow> u32" where
  "block_bit bits h = of_nat (unat h mod bits)"

section \<open>Filters for whole files\<close>

definition CACHE_LINE_SIZE :: u32 where
  "CACHE_LINE_SIZE = 64"

record FullFilterBitsBuilder =
  bits_per_key :: nat
  num_probes :: nat
  hash_entries :: "u32 list"

definition make_FullFilterBitsBuilder :: "nat \<Rightarrow> nat \<Rightarrow> FullFilterBitsBuilder option" where
  "make_FullFilterBitsBuilder bpk probes =
     (if bpk = 0 then None else Some \<lparr>bits_per_key = bpk, num_probes = probes, hash_entries = []\<rparr>)"

definition AddKey :: "bool \<Rightarrow> bytes \<Rightarrow> FullFilterBitsBuilder \<Rightarrow> FullFilterBitsBuilder" where
  "AddKey le key b =
     (let hash = BloomHash le key in
      if hash_entries b = [] \<or> hash \<noteq> last (hash_entries b) then b\<lparr>hash_entries := hash_entries b @ [hash]\<rparr> else b)"

definition GetTotalBitsForLocality :: "u32 \<Rightarrow> u32" where
  "GetTotalBitsForLocality total_bits =
     (let num_lines = (total_bits + CACHE_LINE_SIZE * 8 - 1) div (CACHE_LINE_SIZE * 8);
          num_lines = (if num_lines mod 2 = 0 then num_lines + 1 else num_lines)
      in num_lines * (CACHE_LINE_SIZE * 8))"

text \<open>The space, zeroed, the number of bits and the number of lines. \<open>num_entry\<close> is cast to a 32-bit integer.\<close>

definition ReserveSpace :: "u32 \<Rightarrow> FullFilterBitsBuilder \<Rightarrow> (bytes \<times> u32 \<times> u32) option" where
  "ReserveSpace num_entry b =
     (let (total_bits, num_lines) =
        (if num_entry \<noteq> 0
         then let total_bits = GetTotalBitsForLocality (num_entry * of_nat (bits_per_key b))
              in (total_bits, total_bits div (CACHE_LINE_SIZE * 8))
         else (0, 0))
      in if bits_per_key b = 0 \<or> (num_entry \<noteq> 0 \<and> \<not> (total_bits > 0 \<and> total_bits mod 8 = 0)) then None
         else Some (replicate (unat (total_bits div 8 + 5)) 0, total_bits, num_lines))"

text \<open>The counter of the loop has 32 bits, so the loop does not end for a number of probes it cannot reach.\<close>

definition AddHash :: "nat \<Rightarrow> u32 \<Rightarrow> u32 \<Rightarrow> u32 \<Rightarrow> bytes \<Rightarrow> bytes option" where
  "AddHash probes h num_lines total_bits data =
     (if num_lines > 0 \<and> total_bits > 0 \<and> probes < 2 ^ 32
      then set_probes probes h (rotate_right_17 h) (line_bit ((h mod num_lines) * (CACHE_LINE_SIZE * 8)) (CACHE_LINE_SIZE * 8)) data
      else None)"

primrec add_hashes :: "nat \<Rightarrow> u32 list \<Rightarrow> u32 \<Rightarrow> u32 \<Rightarrow> bytes \<Rightarrow> bytes option" where
  "add_hashes probes [] num_lines total_bits data = Some data"
| "add_hashes probes (h # hs) num_lines total_bits data =
     Option.bind (AddHash probes h num_lines total_bits data) (add_hashes probes hs num_lines total_bits)"

definition Finish_filter :: "bool \<Rightarrow> FullFilterBitsBuilder \<Rightarrow> (bytes \<times> FullFilterBitsBuilder) option" where
  "Finish_filter le b =
     (case ReserveSpace (of_nat (length (hash_entries b))) b of
        None \<Rightarrow> None
      | Some (data, total_bits, num_lines) \<Rightarrow>
          (case (if total_bits \<noteq> 0 \<and> num_lines \<noteq> 0 then add_hashes (num_probes b) (hash_entries b) num_lines total_bits data else Some data) of
             None \<Rightarrow> None
           | Some data \<Rightarrow>
               let n = unat (total_bits div 8) in
               if n + 5 \<le> length data
               then Some (take n data @ [of_nat (num_probes b)] @ EncodeFixed32 le num_lines, b\<lparr>hash_entries := []\<rparr>)
               else None))"

record FullFilterBitsReader =
  fr_data :: bytes
  fr_num_probes :: u64
  fr_num_lines :: u32

text \<open>
  The reader keeps the data up to its length as a 32-bit integer. The number of probes is read as a
  signed character.
\<close>

definition GetFilterMeta :: "bool \<Rightarrow> bytes \<Rightarrow> u64 \<times> u32" where
  "GetFilterMeta le flt =
     (let len = of_nat (length flt) :: u32 in
      if len \<le> 5 then (0, 0)
      else (scast (flt ! unat (len - 5)), DecodeFixed32 le (drop (unat (len - 4)) flt)))"

definition make_FullFilterBitsReader :: "bool \<Rightarrow> bytes \<Rightarrow> FullFilterBitsReader" where
  "make_FullFilterBitsReader le contents =
     (let data_len = of_nat (length contents) :: u32; data = take (unat data_len) contents in
      case GetFilterMeta le contents of (probes, lines) \<Rightarrow>
        if lines \<noteq> 0 \<and> (data_len - 5) mod lines \<noteq> 0
        then \<lparr>fr_data = data, fr_num_probes = 0, fr_num_lines = 0\<rparr>
        else \<lparr>fr_data = data, fr_num_probes = probes, fr_num_lines = lines\<rparr>)"

text \<open>As the counter of the loop has 32 bits, the loop only ends with a bit that is not set when the number of probes is larger.\<close>

definition HashMayMatch :: "u32 \<Rightarrow> bytes \<Rightarrow> u64 \<Rightarrow> u32 \<Rightarrow> bool option" where
  "HashMayMatch hash flt probes lines =
     (let len = of_nat (length flt) :: u32 in
      if len \<le> 5 then Some False
      else if probes = 0 \<or> lines = 0 \<or> (len - 5) mod lines \<noteq> 0 then None
      else
        let cache_line_size = (len - 5) div lines;
            probe = (\<lambda>n. test_probes n hash (rotate_right_17 hash)
              (line_bit ((hash mod lines) * (cache_line_size * 8)) (cache_line_size * 8)) flt)
        in if unat probes < 2 ^ 32 then probe (unat probes)
           else if probe (2 ^ 32) = Some False then Some False else None)"

definition MayMatch :: "bool \<Rightarrow> bytes \<Rightarrow> FullFilterBitsReader \<Rightarrow> bool option" where
  "MayMatch le entry r =
     (if (of_nat (length (fr_data r)) :: u32) \<le> 5 then Some False
      else if fr_num_probes r = 0 \<or> fr_num_lines r = 0 then Some True
      else HashMayMatch (BloomHash le entry) (fr_data r) (fr_num_probes r) (fr_num_lines r))"

section \<open>The policy and its filters for single blocks\<close>

text \<open>
  The product with 0.69 is computed in floating point. Up to 44 bits per key it is far from any
  integer it does not reach, and from there on the result is 30.
\<close>

definition policy_probes :: "nat \<Rightarrow> nat" where
  "policy_probes bpk =
     (let n = bpk * 69 div 100; n = (if n < 1 then 1 else n) in if n > 30 then 30 else n)"

primrec add_block_keys :: "bool \<Rightarrow> nat \<Rightarrow> bytes list \<Rightarrow> nat \<Rightarrow> bytes \<Rightarrow> bytes option" where
  "add_block_keys le probes [] bits array = Some array"
| "add_block_keys le probes (k # ks) bits array =
     (let h = BloomHash le k in
      Option.bind (set_probes probes h (rotate_right_17 h) (block_bit bits) array) (add_block_keys le probes ks bits))"

text \<open>What is appended to \<open>dst\<close>.\<close>

definition CreateFilter :: "bool \<Rightarrow> nat \<Rightarrow> bytes list \<Rightarrow> bytes option" where
  "CreateFilter le bpk keys =
     (let bits = mul64 (length keys) bpk;
          bits = (if bits < 64 then 64 else bits);
          n_bytes = add64 bits 7 div 8;
          bits = mul64 n_bytes 8
      in add_block_keys le (policy_probes bpk) keys bits (replicate n_bytes 0 @ [of_nat (policy_probes bpk)]))"

definition KeyMayMatch :: "bool \<Rightarrow> bytes \<Rightarrow> bytes \<Rightarrow> bool option" where
  "KeyMayMatch le key bloom_filter =
     (let len = length bloom_filter in
      if len < 2 then Some False
      else
        let bits = (len - 1) * 8; k = (scast (bloom_filter ! (len - 1)) :: u64) in
        if k > 30 then Some True
        else let h = BloomHash le key in test_probes (unat k) h (rotate_right_17 h) (block_bit bits) bloom_filter)"

section \<open>Bits once set stay set\<close>

definition keeps :: "bytes \<Rightarrow> bytes \<Rightarrow> bool" where
  "keeps data data' \<longleftrightarrow> length data' = length data \<and> (\<forall>q. test_filter_bit q data = Some True \<longrightarrow> test_filter_bit q data' = Some True)"

lemma keeps_refl [simp]: "keeps data data"
  by (simp add: keeps_def)

lemma keeps_trans: "keeps a b \<Longrightarrow> keeps b c \<Longrightarrow> keeps a c"
  by (simp add: keeps_def)

lemma set_filter_bit_ok:
  assumes "unat (p div 8) < length data"
  shows "\<exists>data'. set_filter_bit p data = Some data' \<and> keeps data data' \<and> test_filter_bit p data' = Some True"
proof -
  define i where "i = unat (p div 8)"
  define data' where "data' = data[i := data ! i OR push_bit (unat (p mod 8)) 1]"
  have small: "unat (p mod 8) < 8" by (simp add: unat_mod)
  have "test_filter_bit q data' = Some True" if "test_filter_bit q data = Some True" for q
    using that assms by (auto simp: test_filter_bit_def Let_def data'_def i_def nth_list_update and_exp_eq_0_iff_not_bit bit_simps split: if_splits)
  moreover have "test_filter_bit p data' = Some True"
    using assms small by (simp add: test_filter_bit_def Let_def data'_def i_def and_exp_eq_0_iff_not_bit bit_simps)
  ultimately show ?thesis using assms by (simp add: set_filter_bit_def Let_def keeps_def data'_def i_def)
qed

lemma test_probes_keeps: "keeps data data' \<Longrightarrow> test_probes n h delta pos data = Some True \<Longrightarrow> test_probes n h delta pos data' = Some True"
  by (induction n arbitrary: h) (auto simp: keeps_def bind_eq_Some_conv split: if_splits)

lemma set_probes_ok:
  assumes "\<And>h. unat (pos h div 8) < length data"
  shows "\<exists>data'. set_probes n h delta pos data = Some data' \<and> keeps data data' \<and> test_probes n h delta pos data' = Some True"
  using assms
proof (induction n arbitrary: h data)
  case (Suc n)
  obtain d1 where d1: "set_filter_bit (pos h) data = Some d1" "keeps data d1" "test_filter_bit (pos h) d1 = Some True"
    using set_filter_bit_ok Suc.prems by blast
  then have "\<And>h. unat (pos h div 8) < length d1" using Suc.prems by (simp add: keeps_def)
  then obtain d2 where "set_probes n (h + delta) delta pos d1 = Some d2" "keeps d1 d2" "test_probes n (h + delta) delta pos d2 = Some True"
    using Suc.IH by blast
  then show ?case using d1 keeps_trans [OF d1(2)] by (auto simp: keeps_def)
qed simp

text \<open>The probes only touch the part of an array that their positions reach.\<close>

lemma set_filter_bit_append:
  "unat (p div 8) < length data \<Longrightarrow> set_filter_bit p (data @ rest) = map_option (\<lambda>d. d @ rest) (set_filter_bit p data)"
  by (simp add: set_filter_bit_def Let_def nth_append list_update_append1)

lemma test_filter_bit_append: "unat (p div 8) < length data \<Longrightarrow> test_filter_bit p (data @ rest) = test_filter_bit p data"
  by (simp add: test_filter_bit_def Let_def nth_append)

lemma set_filter_bit_length: "set_filter_bit p data = Some d \<Longrightarrow> length d = length data"
  by (auto simp: set_filter_bit_def Let_def split: if_splits)

lemma set_probes_length: "set_probes n h delta pos data = Some d \<Longrightarrow> length d = length data"
  by (induction n arbitrary: h data) (auto simp: bind_eq_Some_conv dest: set_filter_bit_length)

lemma set_probes_append:
  assumes "\<And>h. unat (pos h div 8) < length data"
  shows "set_probes n h delta pos (data @ rest) = map_option (\<lambda>d. d @ rest) (set_probes n h delta pos data)"
  using assms
proof (induction n arbitrary: h data)
  case (Suc n)
  then show ?case
    by (cases "set_filter_bit (pos h) data") (simp_all add: set_filter_bit_append set_filter_bit_length)
qed simp

lemma test_probes_append:
  assumes "\<And>h. unat (pos h div 8) < length data"
  shows "test_probes n h delta pos (data @ rest) = test_probes n h delta pos data"
  by (induction n arbitrary: h) (simp_all add: test_filter_bit_append assms cong: if_cong)

section \<open>The filter of a file has its keys\<close>

text \<open>The number of lines is odd, so their bits do not wrap around to zero.\<close>

lemma total_bits_lines:
  assumes "tb = GetTotalBitsForLocality x"
  shows "0 < unat tb div 512 \<and> unat tb = unat tb div 512 * 512"
proof -
  define n0 :: u32 where "n0 = (x + CACHE_LINE_SIZE * 8 - 1) div (CACHE_LINE_SIZE * 8)"
  define nl where "nl = (if n0 mod 2 = 0 then n0 + 1 else n0)"
  have par: "n0 mod 2 = 0 \<longleftrightarrow> unat n0 mod 2 = 0"
    by (simp only: word_unat_eq_iff unat_mod unat_0) simp
  have "unat (n0 + 1) = (unat n0 + 1) mod 2 ^ 32" by (simp add: unat_word_ariths)
  then have "odd (unat nl)"
    unfolding nl_def by (auto simp: par mod2_eq_if [symmetric] dvd_mod_iff simp del: even_word_iff split: if_splits)
  then have "odd (unat nl mod 2 ^ 23)" by (simp add: dvd_mod_iff)
  moreover have "unat tb = unat nl mod 2 ^ 23 * 512"
  proof -
    have "unat tb = unat nl * 512 mod (2 ^ 23 * 512)"
      by (simp add: assms GetTotalBitsForLocality_def Let_def CACHE_LINE_SIZE_def n0_def nl_def unat_word_ariths)
    then show ?thesis by (simp only: mult_mod_left)
  qed
  ultimately show ?thesis using odd_pos by simp
qed

lemma line_bit_range:
  fixes nl :: u32
  assumes "0 < unat nl" "unat nl * 512 < 2 ^ 32"
  shows "unat (line_bit ((h mod nl) * 512) 512 x div 8) < unat nl * 64"
proof -
  have less: "unat h mod unat nl + 1 \<le> unat nl" using assms(1) by (simp add: Suc_leI)
  have "unat ((h mod nl) * 512) = unat h mod unat nl * 512"
    using less assms(2) by (simp add: unat_word_ariths unat_mod)
  moreover have "unat (x mod 512) < 512" by (simp add: unat_mod)
  ultimately have "unat (line_bit ((h mod nl) * 512) 512 x) < unat nl * 512"
    using less assms(2) by (simp add: line_bit_def unat_word_ariths)
  then show ?thesis by (simp add: unat_div)
qed

lemma add_hashes_ok:
  fixes nl :: u32
  assumes "0 < unat nl" "unat nl * 512 < 2 ^ 32" "0 < tb" "probes < 2 ^ 32" "length data = unat nl * 64"
  shows "\<exists>d. add_hashes probes hs nl tb (data @ rest) = Some (d @ rest) \<and> keeps data d \<and>
    (\<forall>h \<in> set hs. test_probes probes h (rotate_right_17 h) (line_bit ((h mod nl) * 512) 512) d = Some True)"
  using assms(5)
proof (induction hs arbitrary: data)
  case (Cons h hs)
  let ?pos = "line_bit ((h mod nl) * 512) 512"
  have range: "\<And>x. unat (?pos x div 8) < length data"
    using line_bit_range [OF assms(1,2)] Cons.prems by simp
  obtain d1 where d1: "set_probes probes h (rotate_right_17 h) ?pos data = Some d1" "keeps data d1"
    "test_probes probes h (rotate_right_17 h) ?pos d1 = Some True"
    using set_probes_ok [where pos = ?pos, OF range] by blast
  obtain d where d: "add_hashes probes hs nl tb (d1 @ rest) = Some (d @ rest)" "keeps d1 d"
    "\<forall>h \<in> set hs. test_probes probes h (rotate_right_17 h) (line_bit ((h mod nl) * 512) 512) d = Some True"
    using Cons.IH [of d1] d1(2) Cons.prems by (auto simp: keeps_def)
  have "0 < nl" using assms(1) by (simp add: word_less_nat_alt)
  then have "AddHash probes h nl tb (data @ rest) = Some (d1 @ rest)"
    using assms(3,4) by (simp add: AddHash_def CACHE_LINE_SIZE_def set_probes_append [where pos = ?pos, OF range] d1(1))
  moreover have "test_probes probes h (rotate_right_17 h) ?pos d = Some True"
    using test_probes_keeps [OF d(2) d1(3)] .
  ultimately show ?case using d keeps_trans [OF d1(2) d(2)] by auto
qed simp

text \<open>Every key leaves its hash among the entries.\<close>

lemma add_keys_entries:
  "set (hash_entries (fold (AddKey le) keys b)) = set (hash_entries b) \<union> BloomHash le ` set keys \<and>
   length (hash_entries (fold (AddKey le) keys b)) \<le> length (hash_entries b) + length keys \<and>
   bits_per_key (fold (AddKey le) keys b) = bits_per_key b \<and> num_probes (fold (AddKey le) keys b) = num_probes b"
proof (induction keys arbitrary: b)
  case (Cons k ks)
  have "set (hash_entries (AddKey le k b)) = insert (BloomHash le k) (set (hash_entries b))"
    by (auto simp: AddKey_def Let_def)
  then show ?case using Cons.IH [of "AddKey le k b"] by (auto simp: AddKey_def Let_def)
qed simp

lemma scast_small:
  assumes "n \<le> 30"
  shows "scast (of_nat n :: u8) = (of_nat n :: u64)"
proof -
  have "sint (of_nat n :: u8) = int n"
    using assms by (simp add: signed_of_nat signed_take_bit_int_eq_self)
  moreover have "scast (of_nat n :: u8) = (of_int (sint (of_nat n :: u8)) :: u64)" by simp
  ultimately show ?thesis by (simp only: of_int_of_nat_eq)
qed

lemma Finish_filter_ok:
  assumes "hash_entries b \<noteq> []" "length (hash_entries b) < 2 ^ 32" "0 < bits_per_key b" "num_probes b \<le> 30"
  obtains nl d where
    "Finish_filter le b = Some (d @ of_nat (num_probes b) # EncodeFixed32 le nl, b\<lparr>hash_entries := []\<rparr>)"
    "0 < unat nl" "unat nl * 512 < 2 ^ 32" "length d = unat nl * 64"
    "\<And>h. h \<in> set (hash_entries b) \<Longrightarrow>
       test_probes (num_probes b) h (rotate_right_17 h) (line_bit ((h mod nl) * 512) 512) d = Some True"
proof -
  define num :: u32 where "num = of_nat (length (hash_entries b))"
  define tb where "tb = GetTotalBitsForLocality (num * of_nat (bits_per_key b))"
  define nl where "nl = tb div 512"
  have num: "num \<noteq> 0" using assms(1,2) by (simp add: num_def word_unat_eq_iff unat_of_nat)
  have lines: "0 < unat nl" "unat tb = unat nl * 512"
    using total_bits_lines [OF tb_def] by (simp_all add: nl_def unat_div)
  have fits: "unat nl * 512 < 2 ^ 32" using lines(2) unsigned_less [of tb, where 'a = nat] by simp
  have tb: "0 < tb" "tb mod 8 = 0"
    using lines by (simp_all add: word_less_nat_alt word_unat_eq_iff unat_mod mod_mult_right_eq)
  have bytes: "unat (tb div 8) = unat nl * 64" "unat (tb div 8 + 5) = unat nl * 64 + 5"
    using lines fits by (simp_all add: unat_div unat_word_ariths)
  define z :: bytes where "z = replicate (unat nl * 64) 0"
  have space: "ReserveSpace num b = Some (z @ replicate 5 0, tb, nl)"
    using num tb assms(3)
    by (simp add: ReserveSpace_def Let_def CACHE_LINE_SIZE_def tb_def [symmetric] nl_def [symmetric] bytes z_def replicate_add)
  obtain d where d: "add_hashes (num_probes b) (hash_entries b) nl tb (z @ replicate 5 0) = Some (d @ replicate 5 0)" "keeps z d"
    "\<forall>h \<in> set (hash_entries b). test_probes (num_probes b) h (rotate_right_17 h) (line_bit ((h mod nl) * 512) 512) d = Some True"
    using add_hashes_ok [OF lines(1) fits tb(1), of "num_probes b" z "hash_entries b" "replicate 5 0"] assms(4) by (auto simp: z_def)
  have len: "length d = unat nl * 64" using d(2) by (simp add: keeps_def z_def)
  have "nl \<noteq> 0" "tb \<noteq> 0" using lines(1) tb(1) by auto
  then have "Finish_filter le b = Some (d @ of_nat (num_probes b) # EncodeFixed32 le nl, b\<lparr>hash_entries := []\<rparr>)"
    using len by (simp add: Finish_filter_def num_def [symmetric] space d(1) bytes Let_def)
  then show thesis using that lines(1) fits len d(3) by blast
qed

lemma reader_ok:
  fixes nl :: u32
  assumes "0 < unat nl" "unat nl * 512 < 2 ^ 32" "length d = unat nl * 64" "0 < probes" "probes \<le> 30"
    and "test_probes probes (BloomHash le key) (rotate_right_17 (BloomHash le key)) (line_bit ((BloomHash le key mod nl) * 512) 512) d = Some True"
  shows "MayMatch le key (make_FullFilterBitsReader le (d @ of_nat probes # EncodeFixed32 le nl)) = Some True"
proof -
  define f where "f = d @ of_nat probes # EncodeFixed32 le nl"
  define len where "len = (of_nat (length f) :: u32)"
  have n: "length f = unat nl * 64 + 5" by (simp add: f_def assms(3))
  have len: "unat len = unat nl * 64 + 5" using assms(2) by (simp add: len_def n unat_word_ariths)
  have big: "\<not> len \<le> 5" using len assms(1) by (simp add: word_le_nat_alt)
  have subs: "unat (len - 5) = unat nl * 64" "unat (len - 4) = unat nl * 64 + 1"
    using len by (simp_all add: unat_sub word_le_nat_alt)
  have parts: "f ! (unat nl * 64) = of_nat probes" "drop (unat nl * 64 + 1) f = EncodeFixed32 le nl"
    by (simp_all add: f_def assms(3) nth_append)
  have "le_value (le_bytes 4 (unat nl)) = unat nl"
    using unsigned_less [of nl, where 'a = nat] by (intro le_value_exact) simp
  then have meta: "GetFilterMeta le f = (of_nat probes, nl)"
    using big by (simp add: GetFilterMeta_def len_def [symmetric] Let_def subs parts [simplified] scast_small [OF assms(5)])
  have m: "(len - 5) mod nl = 0" "(len - 5) div nl = 64"
    using assms(1) by (simp_all add: word_unat_eq_iff unat_mod unat_div subs)
  have all: "take (unat len) f = f" using len n by simp
  have reader: "make_FullFilterBitsReader le f = \<lparr>fr_data = f, fr_num_probes = of_nat probes, fr_num_lines = nl\<rparr>"
    by (simp add: make_FullFilterBitsReader_def Let_def meta len_def [symmetric] m(1) all)
  have probes: "unat (of_nat probes :: u64) = probes" "(of_nat probes :: u64) \<noteq> 0" "nl \<noteq> 0"
    using assms(1,4,5) by (auto simp: unat_of_nat word_unat_eq_iff)
  have "\<And>x. unat (line_bit ((BloomHash le key mod nl) * 512) 512 x div 8) < length d"
    using line_bit_range [OF assms(1,2)] assms(3) by simp
  then have "test_probes probes (BloomHash le key) (rotate_right_17 (BloomHash le key)) (line_bit ((BloomHash le key mod nl) * 512) 512) f = Some True"
    unfolding f_def using assms(6) by (subst test_probes_append) auto
  then show ?thesis
    unfolding f_def [symmetric] reader using probes big assms(5)
    by (simp add: MayMatch_def HashMayMatch_def Let_def len_def [symmetric] m)
qed

lemma policy_probes_bounds: "0 < policy_probes bpk \<and> policy_probes bpk \<le> 30"
  by (simp add: policy_probes_def Let_def)

lemma file_filter_ok:
  assumes "key \<in> set keys" "0 < bpk" "length keys < 2 ^ 31"
  shows "\<exists>f b. Option.bind (make_FullFilterBitsBuilder bpk (policy_probes bpk)) (\<lambda>b. Finish_filter le (fold (AddKey le) keys b)) = Some (f, b) \<and>
    f \<noteq> [] \<and> MayMatch le key (make_FullFilterBitsReader le f) = Some True"
proof -
  define b where "b = fold (AddKey le) keys \<lparr>bits_per_key = bpk, num_probes = policy_probes bpk, hash_entries = []\<rparr>"
  have b: "set (hash_entries b) = BloomHash le ` set keys" "length (hash_entries b) \<le> length keys"
    "bits_per_key b = bpk" "num_probes b = policy_probes bpk"
    using add_keys_entries [of le keys "\<lparr>bits_per_key = bpk, num_probes = policy_probes bpk, hash_entries = []\<rparr>"]
    by (simp_all add: b_def)
  have pre: "hash_entries b \<noteq> []" "length (hash_entries b) < 2 ^ 32" "0 < bits_per_key b" "num_probes b \<le> 30"
    using b assms policy_probes_bounds by auto
  obtain nl d where "Finish_filter le b = Some (d @ of_nat (num_probes b) # EncodeFixed32 le nl, b\<lparr>hash_entries := []\<rparr>)"
    "MayMatch le key (make_FullFilterBitsReader le (d @ of_nat (num_probes b) # EncodeFixed32 le nl)) = Some True"
    using Finish_filter_ok [OF pre, of le] reader_ok b(1,4) assms(1) policy_probes_bounds by (metis image_eqI)
  then show ?thesis using assms(2) by (auto simp: make_FullFilterBitsBuilder_def b_def [symmetric])
qed

section \<open>The filter of a block has its keys\<close>

lemma block_bit_range:
  assumes "0 < n"
  shows "unat (block_bit (n * 8) h div 8) < n"
proof -
  have "unat h mod (n * 8) < 2 ^ 32"
    by (rule le_less_trans [OF mod_less_eq_dividend]) (use unsigned_less [of h, where 'a = nat] in simp)
  then have "unat (block_bit (n * 8) h) = unat h mod (n * 8)" by (simp add: block_bit_def unat_of_nat)
  moreover have "unat h mod (n * 8) < n * 8" using assms by simp
  ultimately show ?thesis by (simp add: unat_div)
qed

lemma add_block_keys_ok:
  assumes "length data = n" "0 < n"
  shows "\<exists>d. add_block_keys le probes keys (n * 8) (data @ rest) = Some (d @ rest) \<and> keeps data d \<and>
    (\<forall>k \<in> set keys. test_probes probes (BloomHash le k) (rotate_right_17 (BloomHash le k)) (block_bit (n * 8)) d = Some True)"
  using assms(1)
proof (induction keys arbitrary: data)
  case (Cons k ks)
  let ?h = "BloomHash le k"
  let ?pos = "block_bit (n * 8)"
  have range: "\<And>x. unat (?pos x div 8) < length data"
    using block_bit_range [OF assms(2)] Cons.prems by simp
  obtain d1 where d1: "set_probes probes ?h (rotate_right_17 ?h) ?pos data = Some d1" "keeps data d1"
    "test_probes probes ?h (rotate_right_17 ?h) ?pos d1 = Some True"
    using set_probes_ok [where pos = ?pos, OF range] by blast
  obtain d where d: "add_block_keys le probes ks (n * 8) (d1 @ rest) = Some (d @ rest)" "keeps d1 d"
    "\<forall>k \<in> set ks. test_probes probes (BloomHash le k) (rotate_right_17 (BloomHash le k)) ?pos d = Some True"
    using Cons.IH [of d1] d1(2) Cons.prems by (auto simp: keeps_def)
  moreover have "test_probes probes ?h (rotate_right_17 ?h) ?pos d = Some True"
    using test_probes_keeps [OF d(2) d1(3)] .
  ultimately show ?case
    using keeps_trans [OF d1(2) d(2)] by (auto simp: Let_def set_probes_append [where pos = ?pos, OF range] d1(1))
qed simp

lemma add_block_keys_length: "add_block_keys le probes keys bits array = Some d \<Longrightarrow> length d = length array"
  by (induction keys arbitrary: array) (auto simp: bind_eq_Some_conv Let_def dest: set_probes_length)

lemma block_filter_ok:
  assumes "key \<in> set keys" "length keys * bpk + 7 < 2 ^ 64"
  shows "\<exists>f. CreateFilter le bpk keys = Some f \<and> KeyMayMatch le key f = Some True"
proof -
  define probes where "probes = policy_probes bpk"
  have probes: "0 < probes" "probes \<le> 30" using policy_probes_bounds by (simp_all add: probes_def)
  define bits where "bits = (if length keys * bpk < 64 then 64 else length keys * bpk)"
  define n where "n = (bits + 7) div 8"
  have bits: "64 \<le> bits" "bits + 7 < 2 ^ 64" using assms(2) by (simp_all add: bits_def)
  have n: "8 \<le> n" "n * 8 < 2 ^ 64"
    using bits div_times_less_eq_dividend [of "bits + 7" 8] by (simp_all add: n_def less_eq_div_iff_mult_less_eq)
  define z :: bytes where "z = replicate n 0"
  obtain d where d: "add_block_keys le probes keys (n * 8) (z @ [of_nat probes]) = Some (d @ [of_nat probes])" "keeps z d"
    "\<forall>k \<in> set keys. test_probes probes (BloomHash le k) (rotate_right_17 (BloomHash le k)) (block_bit (n * 8)) d = Some True"
    using add_block_keys_ok [of z n le probes keys "[of_nat probes]"] n(1) by (auto simp: z_def)
  have len: "length d = n" using d(2) by (simp add: keeps_def z_def)
  have arith: "mul64 (length keys) bpk = length keys * bpk" "add64 bits 7 = bits + 7" "mul64 n 8 = n * 8"
    using assms(2) bits(2) n(2) by (simp_all add: mul64_def add64_def)
  have f: "CreateFilter le bpk keys = Some (d @ [of_nat probes])"
    using d(1) unfolding CreateFilter_def Let_def arith(1) bits_def [symmetric] arith(2) n_def [symmetric] arith(3) z_def probes_def .
  have range: "\<And>x. unat (block_bit (n * 8) x div 8) < length d"
    using block_bit_range [of n] n(1) len by simp
  have k: "\<not> (of_nat probes :: u64) > 30" "unat (of_nat probes :: u64) = probes"
    using probes by (simp_all add: word_less_nat_alt unat_of_nat)
  have "KeyMayMatch le key (d @ [of_nat probes]) = Some True"
    using d(3) assms(1) n(1) k(1) by (simp add: KeyMayMatch_def Let_def len nth_append scast_small [OF probes(2)] k(2) test_probes_append [where pos = "block_bit (n * 8)", OF range])
  then show ?thesis using f by blast
qed

section \<open>No false negatives\<close>

text \<open>
  A filter never denies a key that it was built from: for every policy, the filter that the builder
  for whole files finishes after adding the keys is read back as possibly holding each of them, and so
  is the filter for a single block. Building and asking write and read only inside of the filter, and end.
\<close>

theorem bloom_no_false_negatives:
  assumes "key \<in> set keys" "0 < bpk" "length keys < 2 ^ 31" "length keys * bpk + 7 < 2 ^ 64"
  shows "(\<exists>f b. Option.bind (make_FullFilterBitsBuilder bpk (policy_probes bpk)) (\<lambda>b. Finish_filter le (fold (AddKey le) keys b)) = Some (f, b) \<and>
      MayMatch le key (make_FullFilterBitsReader le f) = Some True) \<and>
    (\<exists>f. CreateFilter le bpk keys = Some f \<and> KeyMayMatch le key f = Some True)"
  using file_filter_ok [OF assms(1-3), of le] block_filter_ok [OF assms(1,4), of le] by blast

text \<open>Two keys with ten bits for each.\<close>

theorem bloom_no_false_negatives_witness:
  "(\<exists>f b. Option.bind (make_FullFilterBitsBuilder 10 (policy_probes 10)) (\<lambda>b. Finish_filter True (fold (AddKey True) [[1, 2, 3, 4, 5], [7]] b)) = Some (f, b) \<and>
      MayMatch True [7] (make_FullFilterBitsReader True f) = Some True) \<and>
    (\<exists>f. CreateFilter True 10 [[1, 2, 3, 4, 5], [7]] = Some f \<and> KeyMayMatch True [7] f = Some True)"
  by (rule bloom_no_false_negatives) simp_all

end
