(* ===== verification/Filter_Block.thy ===== *)
theory Filter_Block
  imports Bloom
begin

text \<open>
  The filters of a table file: the filter block with one filter for every two kilobytes of data
  (\<open>rocksdb/table/block_based_filter_block.cc\<close>) and the one with a single filter for the whole file
  (\<open>rocksdb/table/full_filter_block.cc\<close>). The former only relies on the interface of filter policies, the locale
  \<open>filter_policy\<close>, which the Bloom filters implement. The counters of hits and misses are left out.
\<close>

section \<open>Extracting prefixes\<close>

text \<open>An extractor is supplied by the user of the engine.\<close>

record SliceTransform =
  Transform :: "bytes \<Rightarrow> bytes"
  InDomain :: "bytes \<Rightarrow> bool"

section \<open>One filter for every part of a file\<close>

definition kFilterBaseLg :: nat where
  "kFilterBaseLg = 11"

definition kFilterBase :: nat where
  "kFilterBase = 2 ^ kFilterBaseLg"

record BlockBasedFilterBlockBuilder =
  prefix_extractor :: "SliceTransform option"
  whole_key_filtering :: bool
  prev_prefix_start :: nat
  prev_prefix_size :: nat
  fb_entries :: bytes
  fb_start :: "nat list"
  fb_result :: bytes
  filter_offsets :: "u32 list"

definition make_BlockBasedFilterBlockBuilder :: "SliceTransform option \<Rightarrow> bool \<Rightarrow> BlockBasedFilterBlockBuilder" where
  "make_BlockBasedFilterBlockBuilder extractor whole =
     \<lparr>prefix_extractor = extractor, whole_key_filtering = whole, prev_prefix_start = 0, prev_prefix_size = 0,
      fb_entries = [], fb_start = [], fb_result = [], filter_offsets = []\<rparr>"

text \<open>The slices of the flattened entries; the list of their starts ends with the end of the last one.\<close>

definition entry_slices :: "nat list \<Rightarrow> bytes \<Rightarrow> bytes list" where
  "entry_slices starts entries =
     map (\<lambda>i. take (starts ! (i + 1) - starts ! i) (drop (starts ! i) entries)) [0..<length starts - 1]"

definition GenerateFilter ::
  "(bytes list \<Rightarrow> bytes option) \<Rightarrow> BlockBasedFilterBlockBuilder \<Rightarrow> BlockBasedFilterBlockBuilder option" where
  "GenerateFilter create b =
     (let b1 = b\<lparr>filter_offsets := filter_offsets b @ [of_nat (length (fb_result b))]\<rparr> in
      if fb_start b = [] then Some b1
      else
        case create (entry_slices (fb_start b @ [length (fb_entries b)]) (fb_entries b)) of
          None \<Rightarrow> None
        | Some f \<Rightarrow> Some (b1\<lparr>fb_result := fb_result b @ f, fb_entries := [], fb_start := [], prev_prefix_start := 0, prev_prefix_size := 0\<rparr>))"

lemma GenerateFilter_offsets: "GenerateFilter create b = Some b' \<Longrightarrow> length (filter_offsets b') = Suc (length (filter_offsets b))"
  by (auto simp: GenerateFilter_def Let_def split: if_splits option.splits)

function start_loop ::
  "(bytes list \<Rightarrow> bytes option) \<Rightarrow> nat \<Rightarrow> BlockBasedFilterBlockBuilder \<Rightarrow> BlockBasedFilterBlockBuilder option" where
  "start_loop create filter_index b =
     (if filter_index > length (filter_offsets b)
      then case GenerateFilter create b of None \<Rightarrow> None | Some b \<Rightarrow> start_loop create filter_index b
      else Some b)"
  by pat_completeness auto
termination
  by (relation "measure (\<lambda>(create, i, b). i - length (filter_offsets b))") (auto dest: GenerateFilter_offsets)

declare start_loop.simps [simp del]

definition StartBlock ::
  "(bytes list \<Rightarrow> bytes option) \<Rightarrow> nat \<Rightarrow> BlockBasedFilterBlockBuilder \<Rightarrow> BlockBasedFilterBlockBuilder option" where
  "StartBlock create block_offset b =
     (let filter_index = block_offset div kFilterBase in
      if filter_index \<ge> length (filter_offsets b) then start_loop create filter_index b else None)"

definition AddKey_part :: "bytes \<Rightarrow> BlockBasedFilterBlockBuilder \<Rightarrow> BlockBasedFilterBlockBuilder" where
  "AddKey_part key b = b\<lparr>fb_start := fb_start b @ [length (fb_entries b)], fb_entries := fb_entries b @ key\<rparr>"

definition AddPrefix_part :: "SliceTransform \<Rightarrow> bytes \<Rightarrow> BlockBasedFilterBlockBuilder \<Rightarrow> BlockBasedFilterBlockBuilder" where
  "AddPrefix_part extractor key b =
     (let prev = (if prev_prefix_size b > 0 then take (prev_prefix_size b) (drop (prev_prefix_start b) (fb_entries b)) else []);
          prefix = Transform extractor key
      in if prev = [] \<or> prefix \<noteq> prev
         then b\<lparr>fb_start := fb_start b @ [length (fb_entries b)], prev_prefix_start := length (fb_entries b),
                prev_prefix_size := length prefix, fb_entries := fb_entries b @ prefix\<rparr>
         else b)"

definition Add_part :: "bytes \<Rightarrow> BlockBasedFilterBlockBuilder \<Rightarrow> BlockBasedFilterBlockBuilder" where
  "Add_part key b =
     (let b = (case prefix_extractor b of
                 Some extractor \<Rightarrow> if InDomain extractor key then AddPrefix_part extractor key b else b
               | None \<Rightarrow> b)
      in if whole_key_filtering b then AddKey_part key b else b)"

definition Finish_parts ::
  "bool \<Rightarrow> (bytes list \<Rightarrow> bytes option) \<Rightarrow> BlockBasedFilterBlockBuilder \<Rightarrow> BlockBasedFilterBlockBuilder option" where
  "Finish_parts le create b =
     (case (if fb_start b \<noteq> [] then GenerateFilter create b else Some b) of
        None \<Rightarrow> None
      | Some b \<Rightarrow>
          let array_offset = of_nat (length (fb_result b));
              result = foldl (PutFixed32 le) (fb_result b) (filter_offsets b);
              result = PutFixed32 le result array_offset
          in Some (b\<lparr>fb_result := result @ [of_nat kFilterBaseLg]\<rparr>))"

record BlockBasedFilterBlockReader =
  fbr_extractor :: "SliceTransform option"
  fbr_whole_key :: bool
  fbr_data :: bytes
  fbr_offset :: nat
  fbr_num :: nat
  base_lg :: u64

definition make_BlockBasedFilterBlockReader ::
  "bool \<Rightarrow> SliceTransform option \<Rightarrow> bool \<Rightarrow> bytes \<Rightarrow> BlockBasedFilterBlockReader" where
  "make_BlockBasedFilterBlockReader le extractor whole contents =
     (let n = length contents;
          r = \<lparr>fbr_extractor = extractor, fbr_whole_key = whole, fbr_data = contents, fbr_offset = 0, fbr_num = 0, base_lg = 0\<rparr>
      in if n < 5 then r
         else
           let r = r\<lparr>base_lg := scast (contents ! (n - 1))\<rparr>;
               last_word = unat (DecodeFixed32 le (drop (n - 5) contents))
           in if last_word > n - 5 then r
              else r\<lparr>fbr_offset := last_word, fbr_num := (n - 5 - last_word) div 4\<rparr>)"

text \<open>A shift by the width of the offset or more is undefined.\<close>

definition MayMatch_part ::
  "bool \<Rightarrow> (bytes \<Rightarrow> bytes \<Rightarrow> bool option) \<Rightarrow> bytes \<Rightarrow> nat \<Rightarrow> BlockBasedFilterBlockReader \<Rightarrow> bool option" where
  "MayMatch_part le may entry block_offset r =
     (if base_lg r \<ge> 64 then None
      else
        let index = block_offset div 2 ^ unat (base_lg r) in
        if index < fbr_num r then
          let start = unat (DecodeFixed32 le (drop (fbr_offset r + index * 4) (fbr_data r)));
              limit = unat (DecodeFixed32 le (drop (fbr_offset r + index * 4 + 4) (fbr_data r)))
          in if start \<le> limit \<and> limit \<le> fbr_offset r
             then may entry (take (limit - start) (drop start (fbr_data r)))
             else if start = limit then Some False
             else Some True
        else Some True)"

text \<open>The offset of a block is never \<open>kNotValid\<close>.\<close>

definition kNotValid :: nat where
  "kNotValid = 2 ^ 64 - 1"

definition KeyMayMatch_part ::
  "bool \<Rightarrow> (bytes \<Rightarrow> bytes \<Rightarrow> bool option) \<Rightarrow> bytes \<Rightarrow> nat \<Rightarrow> BlockBasedFilterBlockReader \<Rightarrow> bool option" where
  "KeyMayMatch_part le may key block_offset r =
     (if block_offset = kNotValid then None
      else if \<not> fbr_whole_key r then Some True
      else MayMatch_part le may key block_offset r)"

definition PrefixMayMatch_part ::
  "bool \<Rightarrow> (bytes \<Rightarrow> bytes \<Rightarrow> bool option) \<Rightarrow> bytes \<Rightarrow> nat \<Rightarrow> BlockBasedFilterBlockReader \<Rightarrow> bool option" where
  "PrefixMayMatch_part le may prefix block_offset r =
     (if block_offset = kNotValid then None
      else if fbr_extractor r = None then Some True
      else MayMatch_part le may prefix block_offset r)"

definition ApproximateMemoryUsage_part :: "BlockBasedFilterBlockReader \<Rightarrow> nat" where
  "ApproximateMemoryUsage_part r = fbr_num r * 4 + 5 + fbr_offset r"

section \<open>A single filter for a file\<close>

record FullFilterBlockBuilder =
  full_bits_builder :: FullFilterBitsBuilder
  full_extractor :: "SliceTransform option"
  full_whole_key :: bool
  num_added :: u32

definition make_FullFilterBlockBuilder :: "SliceTransform option \<Rightarrow> bool \<Rightarrow> FullFilterBitsBuilder \<Rightarrow> FullFilterBlockBuilder" where
  "make_FullFilterBlockBuilder extractor whole builder =
     \<lparr>full_bits_builder = builder, full_extractor = extractor, full_whole_key = whole, num_added = 0\<rparr>"

definition AddKey_full :: "bool \<Rightarrow> bytes \<Rightarrow> FullFilterBlockBuilder \<Rightarrow> FullFilterBlockBuilder" where
  "AddKey_full le key b = b\<lparr>full_bits_builder := AddKey le key (full_bits_builder b), num_added := num_added b + 1\<rparr>"

definition AddPrefix_full :: "bool \<Rightarrow> SliceTransform \<Rightarrow> bytes \<Rightarrow> FullFilterBlockBuilder \<Rightarrow> FullFilterBlockBuilder" where
  "AddPrefix_full le extractor key b = AddKey_full le (Transform extractor key) b"

definition Add_full :: "bool \<Rightarrow> bytes \<Rightarrow> FullFilterBlockBuilder \<Rightarrow> FullFilterBlockBuilder" where
  "Add_full le key b =
     (let b = (if full_whole_key b then AddKey_full le key b else b) in
      case full_extractor b of
        Some extractor \<Rightarrow> if InDomain extractor key then AddPrefix_full le extractor key b else b
      | None \<Rightarrow> b)"

definition Finish_full :: "bool \<Rightarrow> FullFilterBlockBuilder \<Rightarrow> (bytes \<times> FullFilterBlockBuilder) option" where
  "Finish_full le b =
     (if num_added b \<noteq> 0
      then map_option (\<lambda>(f, builder). (f, b\<lparr>num_added := 0, full_bits_builder := builder\<rparr>)) (Finish_filter le (full_bits_builder b))
      else Some ([], b))"

record FullFilterBlockReader =
  fullr_extractor :: "SliceTransform option"
  fullr_whole_key :: bool
  fullr_contents :: bytes
  fullr_bits_reader :: FullFilterBitsReader

definition make_FullFilterBlockReader ::
  "SliceTransform option \<Rightarrow> bool \<Rightarrow> bytes \<Rightarrow> FullFilterBitsReader \<Rightarrow> FullFilterBlockReader" where
  "make_FullFilterBlockReader extractor whole contents reader =
     \<lparr>fullr_extractor = extractor, fullr_whole_key = whole, fullr_contents = contents, fullr_bits_reader = reader\<rparr>"

definition MayMatch_full :: "bool \<Rightarrow> bytes \<Rightarrow> FullFilterBlockReader \<Rightarrow> bool option" where
  "MayMatch_full le entry r = (if fullr_contents r \<noteq> [] then MayMatch le entry (fullr_bits_reader r) else Some True)"

definition KeyMayMatch_full :: "bool \<Rightarrow> bytes \<Rightarrow> nat \<Rightarrow> FullFilterBlockReader \<Rightarrow> bool option" where
  "KeyMayMatch_full le key block_offset r =
     (if block_offset \<noteq> kNotValid then None
      else if \<not> fullr_whole_key r then Some True
      else MayMatch_full le key r)"

definition PrefixMayMatch_full :: "bool \<Rightarrow> bytes \<Rightarrow> nat \<Rightarrow> FullFilterBlockReader \<Rightarrow> bool option" where
  "PrefixMayMatch_full le prefix block_offset r =
     (if block_offset \<noteq> kNotValid then None
      else if fullr_extractor r = None then Some True
      else MayMatch_full le prefix r)"

section \<open>The groups of entries behind a filter block\<close>

text \<open>Where the parts of a concatenation start.\<close>

definition starts :: "bytes list \<Rightarrow> nat list" where
  "starts xs = map (\<lambda>i. length (concat (take i xs))) [0..<length xs]"

lemma starts_simps [simp]: "starts [] = []" "length (starts xs) = length xs" "starts xs = [] \<longleftrightarrow> xs = []"
  by (simp_all add: starts_def)

lemma starts_snoc [simp]: "starts (xs @ [x]) = starts xs @ [length (concat xs)]"
  by (simp add: starts_def)

lemma starts_end: "starts xs @ [length (concat xs)] = map (\<lambda>i. length (concat (take i xs))) [0..<Suc (length xs)]"
  by (simp add: starts_def)

lemma slice_concat:
  assumes "i < length xs"
  shows "take (length (concat (take (Suc i) xs)) - length (concat (take i xs))) (drop (length (concat (take i xs))) (concat xs)) = xs ! i"
proof -
  have "concat xs = concat (take i xs) @ xs ! i @ concat (drop (Suc i) xs)"
    using assms by (metis concat.simps(2) concat_append id_take_nth_drop)
  then show ?thesis using assms by (simp add: take_Suc_conv_app_nth)
qed

lemma entry_slices_starts: "entry_slices (starts ps @ [length (concat ps)]) (concat ps) = ps"
  unfolding entry_slices_def starts_end by (rule nth_equalityI) (simp_all add: slice_concat nth_append del: upt_Suc)

text \<open>
  A builder has made the filters \<open>fs\<close> for the groups \<open>gs\<close> of entries and is collecting the entries \<open>ps\<close>. No filter is
  made for an empty group, and a filter has the entries of its group.
\<close>

definition made :: "(bytes list \<Rightarrow> bytes option) \<Rightarrow> (bytes \<Rightarrow> bytes \<Rightarrow> bool option) \<Rightarrow> bytes list \<Rightarrow> bytes \<Rightarrow> bool" where
  "made create may g f \<longleftrightarrow> (if g = [] then f = [] else create g = Some f) \<and> (\<forall>k \<in> set g. may k f = Some True)"

definition collecting ::
  "(bytes list \<Rightarrow> bytes option) \<Rightarrow> (bytes \<Rightarrow> bytes \<Rightarrow> bool option) \<Rightarrow> BlockBasedFilterBlockBuilder \<Rightarrow> bytes list list \<Rightarrow> bytes list \<Rightarrow> bytes list \<Rightarrow> bool" where
  "collecting create may b gs fs ps \<longleftrightarrow>
     fb_entries b = concat ps \<and> fb_start b = starts ps \<and> fb_result b = concat fs \<and> filter_offsets b = map of_nat (starts fs) \<and>
     list_all2 (made create may) gs fs \<and> prev_prefix_start b + prev_prefix_size b \<le> length (concat ps) \<and>
     (prev_prefix_size b > 0 \<longrightarrow> take (prev_prefix_size b) (drop (prev_prefix_start b) (concat ps)) \<in> set ps)"

text \<open>The entries that are, or are going to be, in the filter with a number.\<close>

definition slot :: "bytes list list \<Rightarrow> bytes list \<Rightarrow> nat \<Rightarrow> bytes set" where
  "slot gs ps i = (if i < length gs then set (gs ! i) else if i = length gs then set ps else {})"

lemma slot_next [simp]: "slot (gs @ [ps]) [] = slot gs ps"
  by (auto simp: slot_def nth_append fun_eq_iff)

lemma slot_mono: "set ps \<subseteq> set ps' \<Longrightarrow> slot gs ps i \<subseteq> slot gs ps' i"
  by (auto simp: slot_def)

lemma collecting_length: "collecting create may b gs fs ps \<Longrightarrow> length (filter_offsets b) = length gs \<and> length fs = length gs"
  by (auto simp: collecting_def dest: list_all2_lengthD)

lemma GenerateFilter_collecting:
  assumes "collecting create may b gs fs ps" "\<exists>f. made create may ps f"
  obtains b' f where "GenerateFilter create b = Some b'" "collecting create may b' (gs @ [ps]) (fs @ [f]) []"
    "prefix_extractor b' = prefix_extractor b" "whole_key_filtering b' = whole_key_filtering b"
proof -
  define b1 where "b1 = b\<lparr>filter_offsets := filter_offsets b @ [of_nat (length (fb_result b))]\<rparr>"
  obtain f where f: "made create may ps f" using assms(2) by blast
  then have all: "list_all2 (made create may) (gs @ [ps]) (fs @ [f])"
    using assms(1) by (simp add: collecting_def list_all2_appendI)
  show thesis
  proof (cases "ps = []")
    case True
    then have "collecting create may b1 (gs @ [ps]) (fs @ [f]) []" "GenerateFilter create b = Some b1"
      using assms(1) all f by (auto simp: collecting_def made_def b1_def GenerateFilter_def Let_def)
    then show thesis using that by (simp add: b1_def)
  next
    case False
    define b2 where "b2 = b1\<lparr>fb_result := fb_result b @ f, fb_entries := [], fb_start := [], prev_prefix_start := 0, prev_prefix_size := 0\<rparr>"
    have "create (entry_slices (fb_start b @ [length (fb_entries b)]) (fb_entries b)) = Some f"
      using assms(1) f False entry_slices_starts [of ps] by (simp add: collecting_def made_def)
    then have "GenerateFilter create b = Some b2"
      using assms(1) False by (simp add: GenerateFilter_def Let_def b2_def b1_def collecting_def)
    moreover have "collecting create may b2 (gs @ [ps]) (fs @ [f]) []"
      using assms(1) all by (auto simp: collecting_def b2_def b1_def)
    ultimately show thesis using that by (simp add: b2_def b1_def)
  qed
qed

text \<open>The entries that a key gives rise to.\<close>

definition entries_of :: "SliceTransform option \<Rightarrow> bool \<Rightarrow> bytes \<Rightarrow> bytes set" where
  "entries_of extractor whole key =
     (case extractor of Some e \<Rightarrow> if InDomain e key then {Transform e key} else {} | None \<Rightarrow> {}) \<union> (if whole then {key} else {})"

lemma AddKey_collecting:
  "collecting create may b gs fs ps \<Longrightarrow> collecting create may (AddKey_part key b) gs fs (ps @ [key])"
  by (auto simp: collecting_def AddKey_part_def)

lemma AddPrefix_collecting:
  assumes "collecting create may b gs fs ps"
  obtains ps' where "collecting create may (AddPrefix_part e key b) gs fs ps'" "set ps' = insert (Transform e key) (set ps)"
    "length ps' \<le> length ps + 1"
proof -
  define prev where "prev = (if prev_prefix_size b > 0 then take (prev_prefix_size b) (drop (prev_prefix_start b) (fb_entries b)) else [])"
  show thesis
  proof (cases "prev = [] \<or> Transform e key \<noteq> prev")
    case True
    then have "collecting create may (AddPrefix_part e key b) gs fs (ps @ [Transform e key])"
      using assms by (auto simp: AddPrefix_part_def prev_def [symmetric] Let_def collecting_def)
    then show thesis using that by simp
  next
    case False
    then have "Transform e key \<in> set ps" using assms by (auto simp: collecting_def prev_def split: if_splits)
    moreover have "AddPrefix_part e key b = b" using False by (simp add: AddPrefix_part_def prev_def [symmetric] Let_def)
    ultimately show thesis using that [of ps] assms by (simp add: insert_absorb)
  qed
qed

lemma Add_part_settings [simp]:
  "prefix_extractor (Add_part key b) = prefix_extractor b" "whole_key_filtering (Add_part key b) = whole_key_filtering b"
  by (auto simp: Add_part_def AddKey_part_def AddPrefix_part_def Let_def split: option.splits)

lemma Add_collecting:
  assumes "collecting create may b gs fs ps"
  obtains ps' where "collecting create may (Add_part key b) gs fs ps'"
    "set ps' = set ps \<union> entries_of (prefix_extractor b) (whole_key_filtering b) key" "length ps' \<le> length ps + 2"
proof -
  define b1 where "b1 = (case prefix_extractor b of Some e \<Rightarrow> if InDomain e key then AddPrefix_part e key b else b | None \<Rightarrow> b)"
  obtain ps1 where ps1: "collecting create may b1 gs fs ps1" "set ps1 = set ps \<union> entries_of (prefix_extractor b) False key" "length ps1 \<le> length ps + 1"
  proof (cases "\<exists>e. prefix_extractor b = Some e \<and> InDomain e key")
    case True
    then obtain e where "prefix_extractor b = Some e" "InDomain e key" by blast
    then show thesis using AddPrefix_collecting [OF assms, of e key] that by (auto simp: b1_def entries_of_def)
  next
    case False
    then show thesis using that [of ps] assms by (auto simp: b1_def entries_of_def split: option.splits)
  qed
  have w: "whole_key_filtering b1 = whole_key_filtering b"
    by (auto simp: b1_def AddPrefix_part_def Let_def split: option.splits)
  show thesis
  proof (cases "whole_key_filtering b")
    case True
    then show thesis using that [of "ps1 @ [key]"] AddKey_collecting [OF ps1(1), of key] ps1(2,3) w
      by (simp add: Add_part_def b1_def [symmetric] entries_of_def Un_assoc)
  next
    case False
    then show thesis using that [of ps1] ps1 w by (simp add: Add_part_def b1_def [symmetric])
  qed
qed

lemma Adds_collecting:
  assumes "collecting create may b gs fs ps"
  obtains ps' where "collecting create may (fold Add_part keys b) gs fs ps'"
    "set ps' = set ps \<union> (\<Union>key \<in> set keys. entries_of (prefix_extractor b) (whole_key_filtering b) key)"
    "length ps' \<le> length ps + 2 * length keys"
  using assms
proof (induction keys arbitrary: b ps thesis)
  case (Cons k ks)
  obtain ps1 where ps1: "collecting create may (Add_part k b) gs fs ps1"
    "set ps1 = set ps \<union> entries_of (prefix_extractor b) (whole_key_filtering b) k" "length ps1 \<le> length ps + 2"
    using Add_collecting [OF Cons.prems(2)] .
  obtain ps' where "collecting create may (fold Add_part ks (Add_part k b)) gs fs ps'"
    "set ps' = set ps1 \<union> (\<Union>key \<in> set ks. entries_of (prefix_extractor b) (whole_key_filtering b) key)"
    "length ps' \<le> length ps1 + 2 * length ks"
    using Cons.IH [OF _ ps1(1)] by auto
  then show ?case using Cons.prems(1) [of ps'] ps1(2,3) by (simp add: Un_assoc)
qed simp

lemma Adds_settings [simp]:
  "prefix_extractor (fold Add_part keys b) = prefix_extractor b" "whole_key_filtering (fold Add_part keys b) = whole_key_filtering b"
  by (induction keys arbitrary: b) simp_all

section \<open>What a filter policy promises\<close>

text \<open>
  Filters can be created for lists of keys of every length that \<open>fits\<close>, and they do not deny one of their keys.
\<close>

locale filter_policy =
  fixes create :: "bytes list \<Rightarrow> bytes option"
    and may :: "bytes \<Rightarrow> bytes \<Rightarrow> bool option"
    and fits :: "nat \<Rightarrow> bool"
  assumes fits_le: "fits n \<Longrightarrow> m \<le> n \<Longrightarrow> fits m"
    and no_false_negatives: "fits (length keys) \<Longrightarrow> k \<in> set keys \<Longrightarrow> \<exists>f. create keys = Some f \<and> may k f = Some True"
begin

lemma creates: "fits (length ps) \<Longrightarrow> \<exists>f. made create may ps f"
proof (cases "ps = []")
  case False
  assume fits: "fits (length ps)"
  then obtain f where f: "create ps = Some f" using no_false_negatives [of ps "hd ps"] False by auto
  then have "made create may ps f" using no_false_negatives [OF fits] False by (auto simp: made_def)
  then show ?thesis ..
qed (simp add: made_def)

lemma start_loop_collecting:
  assumes "collecting create may b gs fs ps" "fits (length ps)"
  obtains b' gs' fs' ps' where "start_loop create n b = Some b'" "collecting create may b' gs' fs' ps'"
    "prefix_extractor b' = prefix_extractor b" "whole_key_filtering b' = whole_key_filtering b"
    "slot gs' ps' = slot gs ps" "length gs' = max n (length gs)" "length ps' \<le> length ps"
  using assms
proof (induction "n - length gs" arbitrary: b gs fs ps thesis)
  case 0
  then have "start_loop create n b = Some b" using collecting_length [OF 0(3)] by (simp add: start_loop.simps)
  then show ?case using 0 by (intro 0(2)) auto
next
  case (Suc d)
  have len: "length (filter_offsets b) = length gs" using collecting_length [OF Suc(4)] by blast
  obtain b1 f where b1: "GenerateFilter create b = Some b1" "collecting create may b1 (gs @ [ps]) (fs @ [f]) []"
    "prefix_extractor b1 = prefix_extractor b" "whole_key_filtering b1 = whole_key_filtering b"
    using GenerateFilter_collecting [OF Suc(4)] creates [OF Suc(5)] by blast
  have "d = n - length (gs @ [ps])" "fits (length ([] :: bytes list))" using Suc(2) fits_le [OF Suc(5)] by auto
  from Suc(1) [OF this(1) _ b1(2) this(2)] obtain b' gs' fs' ps' where b': "start_loop create n b1 = Some b'"
    "collecting create may b' gs' fs' ps'" "prefix_extractor b' = prefix_extractor b1" "whole_key_filtering b' = whole_key_filtering b1"
    "slot gs' ps' = slot (gs @ [ps]) []" "length gs' = max n (length (gs @ [ps]))" "length ps' \<le> length ([] :: bytes list)"
    by blast
  have "start_loop create n b = Some b'" using Suc(2) b1(1) b'(1) by (subst start_loop.simps) (simp add: len)
  then show ?case using b' b1(3,4) Suc(2) by (intro Suc(3) [of b' gs' fs' ps']) auto
qed

end

text \<open>The sequence of calls that the builder expects: the blocks with their offsets, each with its keys.\<close>

primrec build_parts ::
  "(bytes list \<Rightarrow> bytes option) \<Rightarrow> (nat \<times> bytes list) list \<Rightarrow> BlockBasedFilterBlockBuilder \<Rightarrow> BlockBasedFilterBlockBuilder option" where
  "build_parts create [] b = Some b"
| "build_parts create (blk # blks) b =
     (case StartBlock create (fst blk) b of
        None \<Rightarrow> None
      | Some b \<Rightarrow> build_parts create blks (fold Add_part (snd blk) b))"

definition num_keys :: "(nat \<times> bytes list) list \<Rightarrow> nat" where
  "num_keys blks = sum_list (map (\<lambda>blk. length (snd blk)) blks)"

text \<open>The block that results from the filters.\<close>

definition filter_word :: "bytes list \<Rightarrow> nat \<Rightarrow> bytes" where
  "filter_word fs i = le_bytes 4 (unat (of_nat (length (concat (take i fs))) :: u32))"

definition filter_image :: "bytes list \<Rightarrow> bytes" where
  "filter_image fs = concat fs @ concat (map (filter_word fs) [0..<Suc (length fs)]) @ [11]"

context filter_policy
begin

lemma StartBlock_collecting:
  assumes "collecting create may b gs fs ps" "fits (length ps)" "length gs \<le> off div kFilterBase"
  obtains b' gs' fs' ps' where "StartBlock create off b = Some b'" "collecting create may b' gs' fs' ps'"
    "prefix_extractor b' = prefix_extractor b" "whole_key_filtering b' = whole_key_filtering b"
    "slot gs' ps' = slot gs ps" "length gs' = off div kFilterBase" "length ps' \<le> length ps"
proof -
  have "StartBlock create off b = start_loop create (off div kFilterBase) b" "max (off div kFilterBase) (length gs) = off div kFilterBase"
    using collecting_length [OF assms(1)] assms(3) by (simp_all add: StartBlock_def Let_def)
  then show thesis using start_loop_collecting [OF assms(1,2), of "off div kFilterBase"] that by metis
qed

lemma build_collecting:
  assumes "collecting create may b gs fs ps" "fits (length ps + 2 * num_keys blks)"
    and "sorted (map fst blks)" "\<And>blk. blk \<in> set blks \<Longrightarrow> length gs \<le> fst blk div kFilterBase"
  shows "\<exists>b' gs' fs' ps'. build_parts create blks b = Some b' \<and> collecting create may b' gs' fs' ps' \<and> fits (length ps') \<and>
    (\<forall>i. slot gs ps i \<subseteq> slot gs' ps' i) \<and>
    (\<forall>blk \<in> set blks. \<forall>k \<in> set (snd blk).
       entries_of (prefix_extractor b) (whole_key_filtering b) k \<subseteq> slot gs' ps' (fst blk div kFilterBase))"
  using assms
proof (induction blks arbitrary: b gs fs ps)
  case (Cons blk blks)
  let ?i = "fst blk div kFilterBase"
  obtain b1 gs1 fs1 ps1 where b1: "StartBlock create (fst blk) b = Some b1" "collecting create may b1 gs1 fs1 ps1"
    "prefix_extractor b1 = prefix_extractor b" "whole_key_filtering b1 = whole_key_filtering b"
    "slot gs1 ps1 = slot gs ps" "length gs1 = ?i" "length ps1 \<le> length ps"
    using StartBlock_collecting [OF Cons.prems(1) fits_le [OF Cons.prems(2) le_add1] Cons.prems(4) [OF list.set_intros(1)]] .
  obtain ps2 where ps2: "collecting create may (fold Add_part (snd blk) b1) gs1 fs1 ps2"
    "set ps2 = set ps1 \<union> (\<Union>key \<in> set (snd blk). entries_of (prefix_extractor b) (whole_key_filtering b) key)"
    "length ps2 \<le> length ps1 + 2 * length (snd blk)"
    using Adds_collecting [OF b1(2), of "snd blk", unfolded b1(3,4)] .
  have "fits (length ps2 + 2 * num_keys blks)"
    using Cons.prems(2) by (rule fits_le) (use ps2(3) b1(7) in \<open>simp add: num_keys_def\<close>)
  moreover have "length gs1 \<le> fst blk' div kFilterBase" if "blk' \<in> set blks" for blk'
    using that Cons.prems(3) by (auto simp: b1(6) intro!: div_le_mono)
  moreover have "sorted (map fst blks)" using Cons.prems(3) by simp
  ultimately obtain b' gs' fs' ps' where b': "build_parts create blks (fold Add_part (snd blk) b1) = Some b'" "collecting create may b' gs' fs' ps'"
    "fits (length ps')" "\<forall>i. slot gs1 ps2 i \<subseteq> slot gs' ps' i"
    "\<forall>blk \<in> set blks. \<forall>k \<in> set (snd blk).
       entries_of (prefix_extractor b) (whole_key_filtering b) k \<subseteq> slot gs' ps' (fst blk div kFilterBase)"
    using Cons.IH [OF ps2(1)] b1(3,4) by auto
  have "slot gs ps i \<subseteq> slot gs' ps' i" for i
    using b'(4) slot_mono [of ps1 ps2 gs1 i] ps2(2) b1(5) by auto
  moreover have "entries_of (prefix_extractor b) (whole_key_filtering b) k \<subseteq> slot gs' ps' ?i" if "k \<in> set (snd blk)" for k
    using that ps2(2) b'(4) [rule_format, of ?i] by (auto simp: slot_def b1(6))
  ultimately show ?case using b1(1) b' by (intro exI [of _ b'] exI [of _ gs'] exI [of _ fs'] exI [of _ ps']) simp
next
  case Nil
  then show ?case by (intro exI [of _ b] exI [of _ gs] exI [of _ fs] exI [of _ ps]) (simp add: num_keys_def)
qed

lemma Finish_collecting:
  assumes "collecting create may b gs fs ps" "fits (length ps)"
  shows "\<exists>b' gs' fs'. Finish_parts le create b = Some b' \<and> fb_result b' = filter_image fs' \<and> list_all2 (made create may) gs' fs' \<and>
    (\<forall>i k. k \<in> slot gs ps i \<longrightarrow> i < length gs' \<and> k \<in> set (gs' ! i))"
proof -
  obtain b1 gs1 fs1 ps1 where b1: "(if fb_start b \<noteq> [] then GenerateFilter create b else Some b) = Some b1"
    "collecting create may b1 gs1 fs1 []" "slot gs1 [] = slot gs ps"
  proof (cases "ps = []")
    case True
    then show thesis using that [of b gs fs] assms(1) by (auto simp: collecting_def)
  next
    case False
    moreover obtain b1 f where "GenerateFilter create b = Some b1" "collecting create may b1 (gs @ [ps]) (fs @ [f]) []"
      using GenerateFilter_collecting [OF assms(1)] creates [OF assms(2)] by blast
    ultimately show thesis using that [of b1 "gs @ [ps]" "fs @ [f]"] assms(1) by (auto simp: collecting_def)
  qed
  have words: "map (filter_word fs1) [0..<Suc (length fs1)] = map (\<lambda>v. le_bytes 4 (unat (of_nat v :: u32))) (starts fs1 @ [length (concat fs1)])"
    unfolding starts_end by (simp add: filter_word_def del: upt_Suc)
  have "Finish_parts le create b = Some (b1\<lparr>fb_result := filter_image fs1\<rparr>)"
    using b1(2) unfolding Finish_parts_def b1(1) filter_image_def words
    by (simp add: Let_def collecting_def foldl_PutFixed32 kFilterBaseLg_def o_def)
  moreover have "i < length gs1 \<and> k \<in> set (gs1 ! i)" if "k \<in> slot gs ps i" for i k
    using that unfolding b1(3) [symmetric] by (auto simp: slot_def split: if_splits)
  moreover have "list_all2 (made create may) gs1 fs1" using b1(2) by (simp add: collecting_def)
  ultimately show ?thesis by (intro exI [of _ "b1\<lparr>fb_result := filter_image fs1\<rparr>"] exI [of _ gs1] exI [of _ fs1]) simp
qed

end

text \<open>Reading the block back.\<close>

lemma filter_word_value:
  assumes "length (filter_image fs) < 2 ^ 32" "i \<le> length fs"
  shows "unat (DecodeFixed32 le (drop (length (concat fs) + i * 4) (filter_image fs))) = length (concat (take i fs))"
proof -
  have words: "take 4 (drop (4 * i) (concat (map (filter_word fs) [0..<Suc (length fs)]))) = filter_word fs i"
    using assms(2) by (intro concat_block) (simp_all add: filter_word_def)
  have "length (concat (map (filter_word fs) [0..<n])) = 4 * n" for n by (induction n) (simp_all add: filter_word_def)
  then have len: "length (concat (map (filter_word fs) [0..<Suc (length fs)])) = 4 * Suc (length fs)" by blast
  have "take 4 (drop (length (concat fs) + i * 4) (filter_image fs)) = filter_word fs i"
    using assms(2) words len by (simp add: filter_image_def mult.commute del: upt_Suc)
  moreover have "4 \<le> length (drop (length (concat fs) + i * 4) (filter_image fs))"
    using assms(2) len by (simp add: filter_image_def del: upt_Suc)
  moreover have small: "length (concat (take i fs)) < 2 ^ 32"
  proof -
    have "length (concat fs) = length (concat (take i fs)) + length (concat (drop i fs))"
      by (metis append_take_drop_id concat_append length_append)
    then show ?thesis using assms(1) by (simp add: filter_image_def)
  qed
  ultimately show ?thesis by (simp add: filter_word_def unat_of_nat_32 le_value_exact)
qed

lemma filter_image_length: "length (filter_image fs) = length (concat fs) + 4 * length fs + 5"
proof -
  have "length (concat (map (filter_word fs) [0..<n])) = 4 * n" for n by (induction n) (simp_all add: filter_word_def)
  from this [of "Suc (length fs)"] show ?thesis by (simp add: filter_image_def del: upt_Suc)
qed

lemma reader_finds_filter:
  assumes "length (filter_image fs) < 2 ^ 32" "off div kFilterBase < length fs"
  shows "MayMatch_part le may k off (make_BlockBasedFilterBlockReader le extractor whole (filter_image fs)) = may k (fs ! (off div kFilterBase))"
proof -
  define i where "i = off div kFilterBase"
  let ?c = "filter_image fs"
  let ?r = "\<lparr>fbr_extractor = extractor, fbr_whole_key = whole, fbr_data = ?c, fbr_offset = length (concat fs), fbr_num = length fs, base_lg = 11\<rparr>"
  have n: "length ?c - 5 = length (concat fs) + length fs * 4" "\<not> length ?c < 5" by (simp_all add: filter_image_length)
  have "?c ! (length ?c - 1) = last ?c" by (simp add: last_conv_nth filter_image_def del: upt_Suc)
  then have lg: "scast (?c ! (length ?c - 1)) = (11 :: u64)" by (simp add: filter_image_def del: upt_Suc)
  have w: "unat (DecodeFixed32 le (drop (length ?c - 5) ?c)) = length (concat fs)"
    unfolding n(1) using filter_word_value [OF assms(1), of "length fs"] by simp
  have r: "make_BlockBasedFilterBlockReader le extractor whole ?c = ?r"
    unfolding make_BlockBasedFilterBlockReader_def Let_def w lg unfolding n(1) using n(2) by simp
  have s: "unat (DecodeFixed32 le (drop (length (concat fs) + i * 4) ?c)) = length (concat (take i fs))"
    "unat (DecodeFixed32 le (drop (length (concat fs) + i * 4 + 4) ?c)) = length (concat (take (Suc i) fs))"
    using filter_word_value [OF assms(1), of i] filter_word_value [OF assms(1), of "Suc i"] assms(2) by (simp_all add: i_def ac_simps)
  have split: "concat fs = concat (take (Suc i) fs) @ concat (drop (Suc i) fs)" by (metis append_take_drop_id concat_append)
  have le: "length (concat (take i fs)) \<le> length (concat (take (Suc i) fs))" "length (concat (take (Suc i) fs)) \<le> length (concat fs)"
    using assms(2) arg_cong [OF split, of length] by (simp_all add: take_Suc_conv_app_nth i_def)
  have slice: "take (length (concat (take (Suc i) fs)) - length (concat (take i fs))) (drop (length (concat (take i fs))) ?c) = fs ! i"
    using slice_concat [of i fs] assms(2) le by (simp add: filter_image_def i_def del: upt_Suc)
  have idx: "off div 2 ^ unat (11 :: u64) = i" by (simp add: i_def kFilterBase_def kFilterBaseLg_def)
  show ?thesis
    unfolding r MayMatch_part_def Let_def BlockBasedFilterBlockReader.simps idx s slice using le assms(2) by (simp add: i_def)
qed

section \<open>Filters find their keys\<close>

context filter_policy
begin

lemma block_filters_find:
  assumes "sorted (map fst blks)" "fits (2 * num_keys blks)"
  shows "\<exists>b. Option.bind (build_parts create blks (make_BlockBasedFilterBlockBuilder extractor whole)) (Finish_parts le create) = Some b \<and>
    (length (fb_result b) < 2 ^ 32 \<longrightarrow>
      (\<forall>blk \<in> set blks. \<forall>k \<in> set (snd blk). \<forall>e \<in> entries_of extractor whole k.
         MayMatch_part le may e (fst blk) (make_BlockBasedFilterBlockReader le extractor whole (fb_result b)) = Some True))"
proof -
  define b0 where "b0 = make_BlockBasedFilterBlockBuilder extractor whole"
  have b0: "collecting create may b0 [] [] []" "prefix_extractor b0 = extractor" "whole_key_filtering b0 = whole"
    by (simp_all add: b0_def make_BlockBasedFilterBlockBuilder_def collecting_def)
  have "fits (length ([] :: bytes list) + 2 * num_keys blks)" "\<And>blk. blk \<in> set blks \<Longrightarrow> length ([] :: bytes list list) \<le> fst blk div kFilterBase"
    using assms(2) by simp_all
  from build_collecting [OF b0(1) this(1) assms(1) this(2), unfolded b0(2,3)]
  obtain b1 gs fs ps where b1: "build_parts create blks b0 = Some b1" "collecting create may b1 gs fs ps" "fits (length ps)"
    "\<forall>blk \<in> set blks. \<forall>k \<in> set (snd blk). entries_of extractor whole k \<subseteq> slot gs ps (fst blk div kFilterBase)"
    by blast
  obtain b gs' fs' where b: "Finish_parts le create b1 = Some b" "fb_result b = filter_image fs'" "list_all2 (made create may) gs' fs'"
    "\<forall>i k. k \<in> slot gs ps i \<longrightarrow> i < length gs' \<and> k \<in> set (gs' ! i)"
    using Finish_collecting [OF b1(2,3), of le] by (elim exE conjE)
  have "MayMatch_part le may e (fst blk) (make_BlockBasedFilterBlockReader le extractor whole (fb_result b)) = Some True"
    if small: "length (fb_result b) < 2 ^ 32" and e: "blk \<in> set blks" "k \<in> set (snd blk)" "e \<in> entries_of extractor whole k" for blk k e
  proof -
    let ?i = "fst blk div kFilterBase"
    have i: "?i < length gs'" "e \<in> set (gs' ! ?i)" using b(4) b1(4) e by blast+
    then have "may e (fs' ! ?i) = Some True" "?i < length fs'"
      using list_all2_nthD [OF b(3) i(1)] list_all2_lengthD [OF b(3)] by (auto simp: made_def)
    then show ?thesis using reader_finds_filter [of fs' "fst blk"] small b(2) by simp
  qed
  then show ?thesis using b1(1) b(1) unfolding b0_def [symmetric] by auto
qed

end

interpretation bloom: filter_policy "CreateFilter little bpk" "KeyMayMatch little" "\<lambda>n. n < 2 ^ 31 \<and> n * bpk + 7 < 2 ^ 64" for little bpk
proof
  fix n m :: nat
  assume n: "n < 2 ^ 31 \<and> n * bpk + 7 < 2 ^ 64" and m: "m \<le> n"
  have "m * bpk \<le> n * bpk" using m by simp
  then show "m < 2 ^ 31 \<and> m * bpk + 7 < 2 ^ 64" using n m by linarith
qed (use block_filter_ok in blast)

lemma Finish_parts_one:
  assumes "create [k] = Some f"
  shows "Option.bind (build_parts create [(0, [k])] (make_BlockBasedFilterBlockBuilder None True)) (Finish_parts le create) =
    Some \<lparr>prefix_extractor = None, whole_key_filtering = True, prev_prefix_start = 0, prev_prefix_size = 0, fb_entries = [], fb_start = [],
      fb_result = f @ le_bytes 4 0 @ le_bytes 4 (unat (of_nat (length f) :: u32)) @ [11], filter_offsets = [0]\<rparr>"
  using assms
  by (simp add: StartBlock_def start_loop.simps make_BlockBasedFilterBlockBuilder_def Add_part_def AddKey_part_def Finish_parts_def
      GenerateFilter_def entry_slices_def Let_def kFilterBaseLg_def)

text \<open>
  C9. The filter block of a table whose blocks come in the order of their offsets can always be built. When
  it has less than four gigabytes, then for every key of a block the reader answers, at the offset of the
  block, that it may be there, and likewise for the prefix of the key.
\<close>

theorem filter_block_finds_keys:
  assumes "sorted (map fst blks)" "2 * num_keys blks < 2 ^ 31" "2 * num_keys blks * bpk + 7 < 2 ^ 64"
  shows "\<exists>b. Option.bind (build_parts (CreateFilter le bpk) blks (make_BlockBasedFilterBlockBuilder extractor whole))
      (Finish_parts le (CreateFilter le bpk)) = Some b \<and>
    (length (fb_result b) < 2 ^ 32 \<longrightarrow>
      (\<forall>(off, keys) \<in> set blks. off \<noteq> kNotValid \<longrightarrow> (\<forall>k \<in> set keys.
         let r = make_BlockBasedFilterBlockReader le extractor whole (fb_result b) in
         KeyMayMatch_part le (KeyMayMatch le) k off r = Some True \<and>
         (\<forall>e. extractor = Some e \<longrightarrow> InDomain e k \<longrightarrow> PrefixMayMatch_part le (KeyMayMatch le) (Transform e k) off r = Some True))))"
proof -
  obtain b where b: "Option.bind (build_parts (CreateFilter le bpk) blks (make_BlockBasedFilterBlockBuilder extractor whole))
      (Finish_parts le (CreateFilter le bpk)) = Some b"
    "length (fb_result b) < 2 ^ 32 \<Longrightarrow> blk \<in> set blks \<Longrightarrow> k \<in> set (snd blk) \<Longrightarrow> e \<in> entries_of extractor whole k \<Longrightarrow>
      MayMatch_part le (KeyMayMatch le) e (fst blk) (make_BlockBasedFilterBlockReader le extractor whole (fb_result b)) = Some True" for blk k e
    using bloom.block_filters_find [OF assms(1) conjI [OF assms(2,3)], where extractor = extractor and whole = whole and le = le and little = le] by blast
  have set: "fbr_whole_key (make_BlockBasedFilterBlockReader le extractor whole c) = whole"
    "fbr_extractor (make_BlockBasedFilterBlockReader le extractor whole c) = extractor" for c
    by (simp_all add: make_BlockBasedFilterBlockReader_def Let_def)
  have "KeyMayMatch_part le (KeyMayMatch le) k off r = Some True \<and>
         (\<forall>e. extractor = Some e \<longrightarrow> InDomain e k \<longrightarrow> PrefixMayMatch_part le (KeyMayMatch le) (Transform e k) off r = Some True)"
    if "length (fb_result b) < 2 ^ 32" "(off, keys) \<in> set blks" "off \<noteq> kNotValid" "k \<in> set keys"
      "r = make_BlockBasedFilterBlockReader le extractor whole (fb_result b)" for off keys k r
    using b(2) [OF that(1,2), of k] that(3-5) by (auto simp: KeyMayMatch_part_def PrefixMayMatch_part_def set entries_of_def)
  then show ?thesis using b(1) by (auto simp: Let_def)
qed

text \<open>A block with one key.\<close>

theorem filter_block_finds_keys_witness:
  "\<exists>b. Option.bind (build_parts (CreateFilter True 10) [(0, [[7]])] (make_BlockBasedFilterBlockBuilder None True))
      (Finish_parts True (CreateFilter True 10)) = Some b \<and>
    KeyMayMatch_part True (KeyMayMatch True) [7] 0 (make_BlockBasedFilterBlockReader True None True (fb_result b)) = Some True"
proof -
  obtain f where f: "CreateFilter True 10 [[7]] = Some f" using block_filter_ok [of "[7]" "[[7]]" 10 True] by auto
  then have "length f = 9"
    by (auto simp: CreateFilter_def Let_def mul64_def add64_def simp del: add_block_keys.simps dest!: add_block_keys_length)
  moreover obtain b where b: "Option.bind (build_parts (CreateFilter True 10) [(0, [[7]])] (make_BlockBasedFilterBlockBuilder None True))
      (Finish_parts True (CreateFilter True 10)) = Some b"
    "length (fb_result b) < 2 ^ 32 \<longrightarrow>
      KeyMayMatch_part True (KeyMayMatch True) [7] 0 (make_BlockBasedFilterBlockReader True None True (fb_result b)) = Some True"
    using filter_block_finds_keys [of "[(0, [[7]])]" 10 True None True] by (auto simp: num_keys_def kNotValid_def Let_def simp del: build_parts.simps)
  moreover have "length (fb_result b) = length f + 9" using b(1) unfolding Finish_parts_one [where create = "CreateFilter True 10", OF f] by auto
  ultimately show ?thesis by auto
qed

text \<open>The entries for a file, in the order in which they are added.\<close>

definition entry_list :: "SliceTransform option \<Rightarrow> bool \<Rightarrow> bytes \<Rightarrow> bytes list" where
  "entry_list extractor whole key =
     (if whole then [key] else []) @ (case extractor of Some e \<Rightarrow> if InDomain e key then [Transform e key] else [] | None \<Rightarrow> [])"

lemma Add_full_entries:
  "Add_full le k (make_FullFilterBlockBuilder extractor whole b\<lparr>num_added := n\<rparr>) =
     make_FullFilterBlockBuilder extractor whole (fold (AddKey le) (entry_list extractor whole k) b)
       \<lparr>num_added := n + of_nat (length (entry_list extractor whole k))\<rparr>"
  by (auto simp: Add_full_def AddKey_full_def AddPrefix_full_def make_FullFilterBlockBuilder_def entry_list_def Let_def split: option.splits)

lemma Adds_full_entries:
  "fold (Add_full le) keys (make_FullFilterBlockBuilder extractor whole b\<lparr>num_added := n\<rparr>) =
     make_FullFilterBlockBuilder extractor whole (fold (AddKey le) (concat (map (entry_list extractor whole) keys)) b)
       \<lparr>num_added := n + of_nat (length (concat (map (entry_list extractor whole) keys)))\<rparr>"
  by (induction keys arbitrary: b n) (simp_all add: Add_full_entries fold_append ac_simps)

lemma entry_list_length: "length (entry_list extractor whole k) \<le> 2"
  by (simp add: entry_list_def split: option.splits)

lemma entry_lists_length: "length (concat (map (entry_list extractor whole) keys)) \<le> 2 * length keys"
proof (induction keys)
  case (Cons k ks)
  then show ?case using entry_list_length [of extractor whole k] by simp
qed simp

text \<open>
  C40. The filter for a whole file can always be built, and its reader answers for every key that was added
  that it may be there, and likewise for the prefix of every key that was added.
\<close>

theorem full_filter_finds_keys:
  assumes "0 < bpk" "2 * length keys < 2 ^ 31" "k \<in> set keys"
  shows "\<exists>f b r. Option.bind (make_FullFilterBitsBuilder bpk (policy_probes bpk))
      (\<lambda>b. Finish_full le (fold (Add_full le) keys (make_FullFilterBlockBuilder extractor whole b))) = Some (f, b) \<and>
    r = make_FullFilterBlockReader extractor whole f (make_FullFilterBitsReader le f) \<and>
    KeyMayMatch_full le k kNotValid r = Some True \<and>
    (\<forall>e. extractor = Some e \<longrightarrow> InDomain e k \<longrightarrow> PrefixMayMatch_full le (Transform e k) kNotValid r = Some True)"
proof -
  define es where "es = concat (map (entry_list extractor whole) keys)"
  define b0 where "b0 = \<lparr>bits_per_key = bpk, num_probes = policy_probes bpk, hash_entries = []\<rparr>"
  have small: "length es < 2 ^ 31" using entry_lists_length [of extractor whole keys] assms(2) by (simp add: es_def)
  have adds: "fold (Add_full le) keys (make_FullFilterBlockBuilder extractor whole b0) =
    make_FullFilterBlockBuilder extractor whole (fold (AddKey le) es b0)\<lparr>num_added := of_nat (length es)\<rparr>"
    using Adds_full_entries [where n = 0 and le = le and keys = keys and extractor = extractor and whole = whole and b = b0] by (simp add: es_def make_FullFilterBlockBuilder_def)
  have make: "make_FullFilterBitsBuilder bpk (policy_probes bpk) = Some b0" using assms(1) by (simp add: make_FullFilterBitsBuilder_def b0_def)
  have "\<exists>f b. Finish_full le (fold (Add_full le) keys (make_FullFilterBlockBuilder extractor whole b0)) = Some (f, b) \<and>
    (\<forall>e \<in> set es. f \<noteq> [] \<and> MayMatch le e (make_FullFilterBitsReader le f) = Some True)"
  proof (cases "es = []")
    case False
    then have num: "(of_nat (length es) :: u32) \<noteq> 0" using small by (simp add: word_unat_eq_iff unat_of_nat)
    have ok: "\<exists>f b. Finish_filter le (fold (AddKey le) es b0) = Some (f, b) \<and> f \<noteq> [] \<and> MayMatch le e (make_FullFilterBitsReader le f) = Some True"
      if "e \<in> set es" for e
      using file_filter_ok [OF that assms(1) small, of le] by (simp add: make)
    obtain f b where f: "Finish_filter le (fold (AddKey le) es b0) = Some (f, b)" using ok [OF hd_in_set [OF False]] by blast
    have "Finish_full le (fold (Add_full le) keys (make_FullFilterBlockBuilder extractor whole b0)) =
      Some (f, make_FullFilterBlockBuilder extractor whole (fold (AddKey le) es b0)\<lparr>num_added := 0, full_bits_builder := b\<rparr>)"
      unfolding adds Finish_full_def using num f by (simp add: make_FullFilterBlockBuilder_def)
    moreover have "f \<noteq> [] \<and> MayMatch le e (make_FullFilterBitsReader le f) = Some True" if "e \<in> set es" for e
      using ok [OF that] unfolding f by simp
    ultimately show ?thesis by blast
  next
    case True
    then show ?thesis unfolding adds by (simp add: Finish_full_def make_FullFilterBlockBuilder_def)
  qed
  then obtain f b where f: "Finish_full le (fold (Add_full le) keys (make_FullFilterBlockBuilder extractor whole b0)) = Some (f, b)"
    "\<forall>e \<in> set es. f \<noteq> [] \<and> MayMatch le e (make_FullFilterBitsReader le f) = Some True" by blast
  have "set (entry_list extractor whole k) \<subseteq> set es" using assms(3) by (auto simp: es_def)
  then show ?thesis using f make
    by (auto simp: KeyMayMatch_full_def PrefixMayMatch_full_def MayMatch_full_def make_FullFilterBlockReader_def entry_list_def)
qed

text \<open>Two keys and their first bytes.\<close>

theorem full_filter_finds_keys_witness:
  "\<exists>f b r. Option.bind (make_FullFilterBitsBuilder 10 (policy_probes 10))
      (\<lambda>b. Finish_full True (fold (Add_full True) [[1, 2], [3, 4]]
         (make_FullFilterBlockBuilder (Some \<lparr>Transform = take 1, InDomain = (\<lambda>k. k \<noteq> [])\<rparr>) True b))) = Some (f, b) \<and>
    r = make_FullFilterBlockReader (Some \<lparr>Transform = take 1, InDomain = (\<lambda>k. k \<noteq> [])\<rparr>) True f (make_FullFilterBitsReader True f) \<and>
    KeyMayMatch_full True [1, 2] kNotValid r = Some True \<and> PrefixMayMatch_full True [1] kNotValid r = Some True"
proof -
  let ?e = "\<lparr>Transform = take 1, InDomain = (\<lambda>k. k \<noteq> [])\<rparr> :: SliceTransform"
  have "InDomain ?e [1, 2]" "Transform ?e [1, 2] = [1]" by simp_all
  then show ?thesis using full_filter_finds_keys [of 10 "[[1, 2], [3, 4]]" "[1, 2]" True "Some ?e" True] by auto
qed

end
