(* ===== verification/Spec2Isabelle.thy ===== *)
theory Spec2Isabelle
  imports Ext_Sort Allocator Slot_Session Memfs Spinlock Lockfree_List Sockets Shell Syscalls Container Log_Recycled Merging_Correct Filter_Block
begin

text \<open>
  A verification library for the systems-programming course repository: nine independent programs,
  \<open>task0-sort\<close> to \<open>task8-container\<close>, the seventh of which carries a copy of the storage engine
  RocksDB. Each program is translated into HOL functions, records and step relations that keep the
  names of the source; the theories below name the files they translate.

  \<^bold>\<open>Conventions.\<close> \<open>Prelude\<close> holds the shared vocabulary. \<open>size_t\<close> and addresses are natural numbers,
  with the wrapping operations \<open>add64\<close>, \<open>sub64\<close> and \<open>mul64\<close> where the code can leave the 64-bit range;
  integers that are shifted or masked are machine words. A result \<open>None\<close> stands for undefined
  behaviour, a failed assertion, or a loop that does not return, so that a theorem that an operation
  gives \<open>Some\<close> excludes all three. The kernel, the network, the scheduler and the processor are
  parameters: functions, lists of outcomes, or step relations over all interleavings.

  \<^bold>\<open>task0-sort\<close> (\<open>sort.cpp\<close>). \<open>String_Order\<close> has the byte-wise order of strings and the locale
  \<open>strict_total\<close>, which determines the result of any sorting uniquely; it is interpreted on the
  orders of \<open>std::set\<close> and on the comparison \<open>lexi\<close> of the program. \<open>Ext_Sort\<close> follows the program from the
  input stream over the sorted temporary files, which lie in a store of files, to the k-way merge. It proves that
  the output is the sorted permutation of the input lines when the files have distinct names and can be
  opened, and exactly which lines are lost when some cannot.

  \<^bold>\<open>task1-syscalls\<close> (\<open>task-1_1.c\<close>, \<open>task-1_2.c\<close>, \<open>task-1_3.c\<close>, \<open>main.c\<close>). \<open>Syscalls\<close> compares the wrappers over
  the C library with those in assembly, and relates the report of the tracer to the calls of the
  traced process.

  \<^bold>\<open>task2-fileio\<close> (\<open>memfs.cpp\<close>). \<open>Memfs\<close> has every FUSE callback on the two sorted containers. Sequences of calls
  are answered as a map from paths to nodes answers them; what a listing shows is proved for all states
  that the calls, as the steps of an inductive relation, reach.

  \<^bold>\<open>task3-processes\<close> (\<open>execute.c\<close>, \<open>main.c\<close>). \<open>Shell\<close> models processes as tables of open files and shows how
  a pipeline is connected, what each child sees, and what the shell waits for.

  \<^bold>\<open>task4-concurrency\<close> (\<open>src/spinlock.cpp\<close>, \<open>src/hashmap.cpp\<close>, \<open>src/lockfreehashmap.cpp\<close>). \<open>Spinlock\<close> and
  \<open>Lockfree_List\<close> are step relations at the granularity of single atomic accesses, for any number of
  threads; mutual exclusion and the integrity and linearization of the list are invariants of all
  interleavings. The exchange of the spin lock may fail spuriously; the theorems say what holds when it
  does and when it does not. \<open>Hash_Map\<close> refines the map with locked buckets to a bag.

  \<^bold>\<open>task5-memory\<close> (\<open>src/*.c\<close>). \<open>Alloc_Common\<close> has pages, memory and the locale \<open>kernel\<close> with what \<open>mmap\<close>
  promises; \<open>Heap_Contract\<close> states what an allocator promises its client, and when it may get stuck, and what
  follows for whole sessions. The contract is discharged for the buddy allocator of one page (\<open>Buddy_Allocator\<close>, seen as
  a tree in \<open>Buddy_Tree\<close>, proved in \<open>Buddy_Correct\<close>), for the chain of those (\<open>Buddy_Block\<close>), for the slot
  allocator (\<open>Slot_Allocator\<close>, \<open>Slot_Correct\<close>), for the direct allocator (\<open>Direct_Allocator\<close>) and for their
  composition (\<open>Allocator\<close>). There the heaps are those a process reaches from its start, where no allocator
  exists, by allocating, freeing and writing to its blocks (\<open>heap_reach\<close>); \<open>malloc_stuck\<close> and \<open>free_stuck\<close> are the
  calls that dereference the null pointer of a refused first page. \<open>Slot_Session\<close> follows a session in which the slot allocator hands out
  overlapping blocks.

  \<^bold>\<open>task6-sockets\<close> (\<open>util.h\<close>, \<open>util_msg.cc\<close>, \<open>client.cc\<close>, \<open>server.cc\<close>). \<open>Byte_Order\<close> has byte sequences of
  integers; \<open>Sockets\<close> has the framing over an arbitrary sequence of network events, the server and its
  clients: what a server thread makes of the requests of several clients in any order, and how a client
  reads its reply.

  \<^bold>\<open>task7-performance\<close> (\<open>rocksdb\<close>). \<open>Coding\<close> has the integer encodings of \<open>util/coding\<close>, \<open>Crc32c\<close> the checksum
  of \<open>util/crc32c\<close> with its tables and loops, equal to the division it computes. \<open>Log_Format\<close> is the
  writer and the reader of the write-ahead log (\<open>db/log_writer.cc\<close>, \<open>db/log_reader.cc\<close>); \<open>Log_Correct\<close> shows, in
  the locale \<open>log_file\<close>, that after a crash exactly the complete records are recovered, and \<open>Log_Recycled\<close>
  what becomes of the records of an earlier log in the same file. \<open>Key_Order\<close> has the comparators of
  \<open>util/comparator.cc\<close> and the locale \<open>comparator\<close> with the laws of a total order; \<open>Internal_Key\<close> builds the
  order of \<open>db/dbformat\<close> on it, with packing, parsing, lookup keys and the key buffer \<open>IterKey\<close>. \<open>Block_Format\<close> is the
  builder and the iterator of \<open>table/block\<close>; \<open>Block_Correct\<close> relates the bytes of a built block to its list of
  entries, and \<open>Block_Cursor\<close> shows that every sequence of moves is one of a cursor on that list. \<open>Binary_Heap\<close>
  is \<open>util/heap.h\<close>, a priority queue over any order of the locale \<open>heap_order\<close>; \<open>Merging_Iterator\<close> is
  \<open>table/merging_iterator\<close> over any children with the interface \<open>InternalIterator\<close>, and \<open>Merging_Correct\<close> proves, in the
  locale \<open>internal_iterators\<close> with what children promise, that it is a cursor on the merged list; the
  locale is interpreted on the iterators of blocks. \<open>Bloom\<close> has the filters of \<open>util/bloom.cc\<close>, \<open>Filter_Block\<close> the
  filter blocks of a table over any policy of the locale \<open>filter_policy\<close>; neither ever hides a key.

  \<^bold>\<open>task8-container\<close> (\<open>nix-build-shell.cpp\<close>). \<open>Container\<close> is the program as a sequence of calls to the operating
  system with the reaction to each failure. Replaying the calls that succeeded gives the view the process has
  in the end: its namespaces, names, mounts and root directory.

  \<^bold>\<open>Bounds.\<close> No loop of the models carries fuel except where the environment drives it: the lists of
  network and file outcomes in \<open>Sockets\<close> and \<open>Log_Format\<close> end the recursion, and the theorems quantify
  over all of them. Loops without an evident bound are \<open>partial_function (option)\<close> and the theorems state
  that they return. Word sizes are those of the source on a 64-bit machine.

  \<^bold>\<open>Not modelled.\<close> Output that only informs (printing, logging, tracing, statistics); the lexer and the
  grammar of \<open>task3-processes\<close>, whose generated code is not part of the sources (a parsed line is the
  input of the model); the generated protobuf classes and the set-up of sockets in \<open>task6-sockets\<close>; test
  programs and build files; and the rest of RocksDB: the files around the blocks with compression and caching, the
  memtables, which are lock-free structures over raw memory, the engine that orchestrates files and threads, and
  the benchmark tool, options, environments and language bindings, which are glue over operating system
  services.
\<close>

end
